(* ===== verification/Go_Prelude.thy ===== *)
theory Go_Prelude
  imports Main "HOL-Library.AList" "HOL-Library.Word"
begin

section \<open>Shared vocabulary: Go maps, slices, strings and results\<close>

text \<open>
  What the component theories share.  A Go \<^verbatim>\<open>map[K]V\<close> is an association list with
  distinct keys (so that \<^verbatim>\<open>len\<close> and \<^verbatim>\<open>range\<close> are executable; the iteration
  order Go leaves open is the list's order, and no theorem depends on it unless it says so).
  A Go \<^verbatim>\<open>string\<close> is a list of bytes, written as a HOL \<^typ>\<open>string\<close>.  A function
  that returns \<^verbatim>\<open>(T, error)\<close> returns a sum, \<open>Inl\<close> for the error.

  The named collections are filled by the component theories: \<open>go_map\<close> holds the lookup laws of
  the map operations, \<open>go_str\<close> the laws of the string functions.
\<close>

named_theorems go_map
named_theorems go_str

type_synonym ('e, 'a) result = "'e + 'a"
type_synonym ('k, 'v) gomap = "('k \<times> 'v) list"

text \<open>An operation of the code ends in a panic, in an error value or with a result.\<close>

datatype ('e, 'a) outcome = Panicked string | Failed 'e | Done 'a

fun no_panic :: "('e, 'a) outcome \<Rightarrow> bool" where
  "no_panic (Panicked m) = False"
| "no_panic (Failed e) = True"
| "no_panic (Done a) = True"

lemma no_panic_cases: "no_panic out \<longleftrightarrow> (\<exists>e. out = Failed e) \<or> (\<exists>a. out = Done a)"
  by (cases out) auto

subsection \<open>Go maps\<close>

abbreviation mget :: "('k, 'v) gomap \<Rightarrow> 'k \<Rightarrow> 'v option" where
  "mget m k \<equiv> map_of m k"

abbreviation mput :: "'k \<Rightarrow> 'v \<Rightarrow> ('k, 'v) gomap \<Rightarrow> ('k, 'v) gomap" where
  "mput \<equiv> AList.update"

abbreviation mdel :: "'k \<Rightarrow> ('k, 'v) gomap \<Rightarrow> ('k, 'v) gomap" where
  "mdel \<equiv> AList.delete"

abbreviation mkeys :: "('k, 'v) gomap \<Rightarrow> 'k list" where
  "mkeys m \<equiv> map fst m"

definition wf_map :: "('k, 'v) gomap \<Rightarrow> bool" where
  "wf_map m \<longleftrightarrow> distinct (map fst m)"

text \<open>Reading a missing key gives the zero value of the element type.\<close>

definition mget_or :: "'v \<Rightarrow> ('k, 'v) gomap \<Rightarrow> 'k \<Rightarrow> 'v" where
  "mget_or z m k = (case mget m k of None \<Rightarrow> z | Some v \<Rightarrow> v)"

lemma wf_map_Nil [simp]: "wf_map []"
  by (simp add: wf_map_def)

lemma wf_map_mput [simp]: "wf_map m \<Longrightarrow> wf_map (mput k v m)"
  by (simp add: wf_map_def distinct_update)

lemma wf_map_mdel [simp]: "wf_map m \<Longrightarrow> wf_map (mdel k m)"
  by (simp add: wf_map_def distinct_delete)

lemma mget_mput [simp, go_map]: "mget (mput k v m) k' = (if k' = k then Some v else mget m k')"
  by (simp add: update_conv')

lemma mget_mdel [simp, go_map]: "mget (mdel k m) k' = (if k' = k then None else mget m k')"
  by (simp add: delete_conv')

lemma wf_map_mem: "wf_map m \<Longrightarrow> (k, v) \<in> set m \<longleftrightarrow> mget m k = Some v"
  by (auto simp: wf_map_def intro: map_of_is_SomeI dest: map_of_SomeD)

lemma mget_or_mput [simp]: "mget_or z (mput k v m) k' = (if k' = k then v else mget_or z m k')"
  by (simp add: mget_or_def)

lemma mget_or_mdel [simp]: "mget_or z (mdel k m) k' = (if k' = k then z else mget_or z m k')"
  by (simp add: mget_or_def)

lemma mget_or_Some: "mget m k = Some v \<Longrightarrow> mget_or z m k = v"
  by (simp add: mget_or_def)

text \<open>A map is empty exactly when no key is bound: \<^verbatim>\<open>len(m) == 0\<close>.\<close>

lemma mempty_iff: "m = [] \<longleftrightarrow> (\<forall>k. mget m k = None)"
  by (cases m) (auto split: if_splits)

text \<open>Counting the entries that satisfy a predicate, under update and delete.\<close>

definition mcount :: "('k \<times> 'v \<Rightarrow> bool) \<Rightarrow> ('k, 'v) gomap \<Rightarrow> nat" where
  "mcount P m = length (filter P m)"

lemma mcount_Nil [simp]: "mcount P [] = 0"
  by (simp add: mcount_def)

lemma mcount_Cons [simp]: "mcount P (x # m) = (if P x then 1 else 0) + mcount P m"
  by (simp add: mcount_def)

lemma mcount_append [simp]: "mcount P (m @ m') = mcount P m + mcount P m'"
  by (simp add: mcount_def)

lemma mcount_zero_iff: "mcount P m = 0 \<longleftrightarrow> (\<forall>x \<in> set m. \<not> P x)"
  by (simp add: mcount_def filter_empty_conv)

lemma mcount_pos: "x \<in> set m \<Longrightarrow> P x \<Longrightarrow> 0 < mcount P m"
  using mcount_zero_iff [of P m] by auto

lemma mcount_cong: "(\<And>x. x \<in> set m \<Longrightarrow> P x = Q x) \<Longrightarrow> mcount P m = mcount Q m"
  by (simp add: mcount_def cong: filter_cong)

lemma mput_fresh: "mget m k = None \<Longrightarrow> mput k v m = m @ [(k, v)]"
  by (induction m) (auto split: if_splits)

lemma mcount_mput_fresh:
  "mget m k = None \<Longrightarrow> mcount P (mput k v m) = (if P (k, v) then 1 else 0) + mcount P m"
  by (simp add: mput_fresh)

lemma mdel_absent: "mget m k = None \<Longrightarrow> mdel k m = m"
  by (induction m) (auto simp: AList.delete_eq split: if_splits)

lemma mcount_mdel:
  assumes "wf_map m" "mget m k = Some v"
  shows "mcount P m = (if P (k, v) then 1 else 0) + mcount P (mdel k m)"
  using assms
proof (induction m)
  case Nil
  then show ?case by simp
next
  case (Cons x m)
  obtain k' v' where x: "x = (k', v')" by (cases x)
  show ?case
  proof (cases "k' = k")
    case True
    with Cons.prems x have "k \<notin> fst ` set m" "v' = v"
      by (auto simp: wf_map_def)
    then have "mget m k = None" by (simp add: map_of_eq_None_iff)
    with True x \<open>v' = v\<close> show ?thesis
      using mdel_absent [of m k] by (simp add: AList.delete_eq)
  next
    case False
    with Cons x have "mcount P m = (if P (k, v) then 1 else 0) + mcount P (mdel k m)"
      by (simp add: wf_map_def)
    with False x show ?thesis by (simp add: AList.delete_eq)
  qed
qed

lemma set_mdel: "wf_map m \<Longrightarrow> set (mdel k m) = {x \<in> set m. fst x \<noteq> k}"
  by (auto simp: AList.delete_eq)

subsection \<open>Maps of maps\<close>

text \<open>
  A \<^verbatim>\<open>map[K]map[L]V\<close> whose inner maps are made on the first write and dropped when they
  become empty.
\<close>

definition nget :: "('k, ('l, 'v) gomap) gomap \<Rightarrow> 'k \<Rightarrow> 'l \<Rightarrow> 'v option" where
  "nget m a b = mget (mget_or [] m a) b"

definition nput :: "'k \<Rightarrow> 'l \<Rightarrow> 'v \<Rightarrow> ('k, ('l, 'v) gomap) gomap \<Rightarrow> ('k, ('l, 'v) gomap) gomap" where
  "nput a b v m = mput a (mput b v (mget_or [] m a)) m"

definition ndel :: "'k \<Rightarrow> 'l \<Rightarrow> ('k, ('l, 'v) gomap) gomap \<Rightarrow> ('k, ('l, 'v) gomap) gomap" where
  "ndel a b m =
     (case mget m a of
        None \<Rightarrow> m
      | Some inner \<Rightarrow> (let inner' = mdel b inner in if inner' = [] then mdel a m else mput a inner' m))"

definition wf_nmap :: "('k, ('l, 'v) gomap) gomap \<Rightarrow> bool" where
  "wf_nmap m \<longleftrightarrow> wf_map m \<and> (\<forall>a. wf_map (mget_or [] m a)) \<and> (\<forall>a. mget m a \<noteq> Some [])"

lemma mput_not_Nil [simp]: "mput k v m \<noteq> []"
  by (cases m) auto

lemma nget_Nil [simp]: "nget [] a b = None"
  by (simp add: nget_def mget_or_def)

lemma wf_nmap_Nil [simp]: "wf_nmap []"
  by (simp add: wf_nmap_def mget_or_def)

lemma nget_nput [simp, go_map]:
  "nget (nput a b v m) a' b' = (if a' = a \<and> b' = b then Some v else nget m a' b')"
  by (simp add: nget_def nput_def)

lemma nget_ndel [simp, go_map]:
  "nget (ndel a b m) a' b' = (if a' = a \<and> b' = b then None else nget m a' b')"
proof (cases "mget m a")
  case None
  then show ?thesis by (simp add: nget_def ndel_def mget_or_def)
next
  case (Some inner)
  have "b' \<noteq> b \<Longrightarrow> mget inner b' = None" if "mdel b inner = []" for b'
    using mget_mdel [of b inner b'] that by (simp del: mget_mdel)
  with Some show ?thesis by (auto simp: nget_def ndel_def mget_or_def Let_def)
qed

lemma wf_nmap_nput [simp]: "wf_nmap m \<Longrightarrow> wf_nmap (nput a b v m)"
  by (auto simp: wf_nmap_def nput_def)

lemma wf_nmap_ndel [simp]: "wf_nmap m \<Longrightarrow> wf_nmap (ndel a b m)"
proof -
  assume wf: "wf_nmap m"
  then have "wf_map (mdel b (mget_or [] m a))" by (simp add: wf_nmap_def)
  with wf show ?thesis
    by (cases "mget m a") (auto simp: wf_nmap_def ndel_def Let_def mget_or_Some)
qed

subsection \<open>Components as step systems\<close>

text \<open>
  A component with an initial state and a step per operation.  What holds at the start and is
  kept by every operation, or by every operation with valid arguments, holds after every sequence
  of such operations.
\<close>

locale guarded_system =
  fixes init :: 's
    and step :: "'s \<Rightarrow> 'o \<Rightarrow> 's"
    and inv :: "'s \<Rightarrow> bool"
    and ok :: "'o \<Rightarrow> bool"
  assumes guarded_init: "inv init"
    and guarded_step: "inv s \<Longrightarrow> ok op \<Longrightarrow> inv (step s op)"
begin

lemma guarded_from: "inv s \<Longrightarrow> list_all ok ops \<Longrightarrow> inv (foldl step s ops)"
  by (induction ops arbitrary: s) (simp_all add: guarded_step)

lemma guarded_run: "list_all ok ops \<Longrightarrow> inv (foldl step init ops)"
  by (rule guarded_from) (rule guarded_init)

end

locale step_system =
  fixes init :: 's
    and step :: "'s \<Rightarrow> 'o \<Rightarrow> 's"
    and inv :: "'s \<Rightarrow> bool"
  assumes inv_init: "inv init"
    and inv_step: "inv s \<Longrightarrow> inv (step s op)"

sublocale step_system \<subseteq> every: guarded_system init step inv "\<lambda>_. True"
  by unfold_locales (simp_all add: inv_init inv_step)

context step_system
begin

lemma inv_from: "inv s \<Longrightarrow> inv (foldl step s ops)"
  by (rule every.guarded_from) (simp_all add: list_all_iff)

lemma inv_run: "inv (foldl step init ops)"
  by (rule inv_from) (rule inv_init)

end

end
