(* ===== verification/Go_Strings.thy ===== *)
theory Go_Strings
  imports Go_Prelude
begin

section \<open>The string functions of Go's standard library\<close>

text \<open>
  The functions of the packages \<^verbatim>\<open>strings\<close>, \<^verbatim>\<open>unicode\<close>, \<^verbatim>\<open>strconv\<close> and
  \<^verbatim>\<open>path\<close> that the modelled code calls, on strings as byte lists.  Case mapping and
  trimming are the ASCII part of the library's functions: a byte of a multi-byte UTF-8 sequence is
  left alone.  \<open>is_space\<close> and \<open>is_letter\<close> are exact on the code points below 256, which is
  what the byte-wise scanners of the Dockerfile parser pass to \<^verbatim>\<open>unicode.IsSpace\<close>.
\<close>

subsection \<open>Searching and splitting at one byte\<close>

fun split :: "char \<Rightarrow> string \<Rightarrow> string list" where
  "split c [] = [[]]"
| "split c (x # xs) =
     (if x = c then [] # split c xs else (x # hd (split c xs)) # tl (split c xs))"

fun splitn :: "nat \<Rightarrow> char \<Rightarrow> string \<Rightarrow> string list" where
  "splitn 0 c s = []"
| "splitn (Suc 0) c s = [s]"
| "splitn (Suc (Suc n)) c s =
     (if c \<in> set s
      then takeWhile (\<lambda>x. x \<noteq> c) s # splitn (Suc n) c (tl (dropWhile (\<lambda>x. x \<noteq> c) s))
      else [s])"

fun join :: "char \<Rightarrow> string list \<Rightarrow> string" where
  "join c [] = []"
| "join c [s] = s"
| "join c (s # t # ss) = s @ c # join c (t # ss)"

definition count_char :: "char \<Rightarrow> string \<Rightarrow> nat" where
  "count_char c s = length (filter (\<lambda>x. x = c) s)"

definition before :: "char \<Rightarrow> string \<Rightarrow> string" where
  "before c s = takeWhile (\<lambda>x. x \<noteq> c) s"

definition after :: "char \<Rightarrow> string \<Rightarrow> string" where
  "after c s = tl (dropWhile (\<lambda>x. x \<noteq> c) s)"

definition has_prefix :: "string \<Rightarrow> string \<Rightarrow> bool" where
  "has_prefix s p \<longleftrightarrow> take (length p) s = p"

definition has_suffix :: "string \<Rightarrow> string \<Rightarrow> bool" where
  "has_suffix s p \<longleftrightarrow> length p \<le> length s \<and> drop (length s - length p) s = p"

definition trim_prefix :: "string \<Rightarrow> string \<Rightarrow> string" where
  "trim_prefix s p = (if has_prefix s p then drop (length p) s else s)"

fun contains :: "string \<Rightarrow> string \<Rightarrow> bool" where
  "contains [] sub = (sub = [])"
| "contains (x # xs) sub = (has_prefix (x # xs) sub \<or> contains xs sub)"

definition trim_left :: "string \<Rightarrow> string \<Rightarrow> string" where
  "trim_left s cutset = dropWhile (\<lambda>x. x \<in> set cutset) s"

definition trim_by :: "(char \<Rightarrow> bool) \<Rightarrow> string \<Rightarrow> string" where
  "trim_by P s = rev (dropWhile P (rev (dropWhile P s)))"

lemma split_not_Nil [simp]: "split c s \<noteq> []"
  by (cases s) auto

lemma join_Cons: "ss \<noteq> [] \<Longrightarrow> join c (s # ss) = s @ c # join c ss"
  by (cases ss) auto

lemma join_split [simp, go_str]: "join c (split c s) = s"
proof (induction s)
  case Nil
  then show ?case by simp
next
  case (Cons x s)
  obtain y ys where "split c s = y # ys" by (cases "split c s") auto
  with Cons show ?case by (cases ys) (auto simp: join_Cons)
qed

lemma length_split [go_str]: "length (split c s) = Suc (count_char c s)"
  by (induction s) (auto simp: count_char_def)

lemma split_parts: "p \<in> set (split c s) \<Longrightarrow> c \<notin> set p"
proof (induction s arbitrary: p)
  case Nil
  then show ?case by simp
next
  case (Cons x s)
  obtain y ys where "split c s = y # ys" by (cases "split c s") auto
  with Cons show ?case by (auto split: if_splits)
qed

lemma split_join:
  "ss \<noteq> [] \<Longrightarrow> \<forall>s \<in> set ss. c \<notin> set s \<Longrightarrow> split c (join c ss) = ss"
proof (induction c ss rule: join.induct)
  case (2 c s)
  then show ?case by (induction s) auto
next
  case (3 c s t ss)
  from 3 have "split c (join c (t # ss)) = t # ss" by simp
  moreover have "c \<notin> set s" using 3 by simp
  then have "split c (s @ c # u) = s # split c u" for u by (induction s) auto
  ultimately show ?case by simp
qed simp

lemma split_single_iff: "length (split c s) = 1 \<longleftrightarrow> c \<notin> set s"
  by (auto simp: length_split count_char_def filter_empty_conv)

lemma split_no_sep: "c \<notin> set s \<Longrightarrow> split c s = [s]"
  by (induction s) auto

lemma before_after: "c \<in> set s \<Longrightarrow> s = before c s @ c # after c s"
  unfolding before_def after_def
  by (induction s) auto

lemma before_no_sep [simp]: "c \<notin> set (before c s)"
  by (auto simp: before_def dest: set_takeWhileD)

lemma splitn2 [simp, go_str]:
  "splitn 2 c s = (if c \<in> set s then [before c s, after c s] else [s])"
  by (simp add: numeral_2_eq_2 before_def after_def)

lemma before_append [simp]: "c \<notin> set k \<Longrightarrow> before c (k @ c # v) = k"
  unfolding before_def by (induction k) auto

lemma after_append [simp]: "c \<notin> set k \<Longrightarrow> after c (k @ c # v) = v"
  unfolding after_def by (induction k) auto

lemma splitn_length: "length (splitn n c s) \<le> n"
  by (induction n c s rule: splitn.induct) auto

lemma join_splitn: "0 < n \<Longrightarrow> join c (splitn n c s) = s"
proof (induction n c s rule: splitn.induct)
  case (3 n c s)
  show ?case
  proof (cases "c \<in> set s")
    case True
    then have ne: "splitn (Suc n) c (after c s) \<noteq> []"
      by (cases n) auto
    have "join c (splitn (Suc n) c (after c s)) = after c s"
      using 3 True by (simp add: after_def)
    with True ne before_after [OF True] show ?thesis
      by (simp add: join_Cons before_def after_def)
  qed simp
qed auto

lemma has_prefix_append [simp]: "has_prefix (p @ s) p"
  by (simp add: has_prefix_def)

lemma has_prefix_iff: "has_prefix s p \<longleftrightarrow> (\<exists>t. s = p @ t)"
  unfolding has_prefix_def by (metis append_eq_conv_conj append_take_drop_id)

lemma trim_prefix_append [simp]: "trim_prefix (p @ s) p = s"
  by (simp add: trim_prefix_def)

lemma has_prefix_Nil [simp]: "has_prefix s []"
  by (simp add: has_prefix_def)

lemma has_prefix_single [simp]: "has_prefix s [c] \<longleftrightarrow> s \<noteq> [] \<and> hd s = c"
  by (cases s) (auto simp: has_prefix_def)

lemma contains_iff: "contains s sub \<longleftrightarrow> (\<exists>a b. s = a @ sub @ b)"
proof (induction s)
  case Nil
  then show ?case by auto
next
  case (Cons x s)
  show ?case
  proof
    assume "contains (x # s) sub"
    then consider "has_prefix (x # s) sub" | "contains s sub" by auto
    then show "\<exists>a b. x # s = a @ sub @ b"
    proof cases
      case 1
      then show ?thesis by (metis append_Nil has_prefix_iff)
    next
      case 2
      then show ?thesis using Cons by (metis append_Cons)
    qed
  next
    assume "\<exists>a b. x # s = a @ sub @ b"
    then obtain a b where "x # s = a @ sub @ b" by blast
    then have "has_prefix (x # s) sub \<or> contains s sub"
      using Cons by (cases a) (auto simp: has_prefix_iff)
    then show "contains (x # s) sub" by simp
  qed
qed

subsection \<open>Character classes and case\<close>

definition is_digit :: "char \<Rightarrow> bool" where
  "is_digit c \<longleftrightarrow> 48 \<le> (of_char c :: nat) \<and> (of_char c :: nat) \<le> 57"

definition is_upper :: "char \<Rightarrow> bool" where
  "is_upper c \<longleftrightarrow> 65 \<le> (of_char c :: nat) \<and> (of_char c :: nat) \<le> 90"

definition is_lower :: "char \<Rightarrow> bool" where
  "is_lower c \<longleftrightarrow> 97 \<le> (of_char c :: nat) \<and> (of_char c :: nat) \<le> 122"

definition is_alpha :: "char \<Rightarrow> bool" where
  "is_alpha c \<longleftrightarrow> is_upper c \<or> is_lower c"

definition is_letter :: "char \<Rightarrow> bool" where
  "is_letter c \<longleftrightarrow> is_alpha c \<or>
     (let n = (of_char c :: nat) in
      n = 170 \<or> n = 181 \<or> n = 186 \<or> (192 \<le> n \<and> n \<noteq> 215 \<and> n \<noteq> 247))"

definition ascii_space :: "char \<Rightarrow> bool" where
  "ascii_space c \<longleftrightarrow> (let n = (of_char c :: nat) in n = 32 \<or> (9 \<le> n \<and> n \<le> 13))"

definition is_space :: "char \<Rightarrow> bool" where
  "is_space c \<longleftrightarrow> ascii_space c \<or> (of_char c :: nat) = 133 \<or> (of_char c :: nat) = 160"

definition lower_char :: "char \<Rightarrow> char" where
  "lower_char c = (if is_upper c then char_of ((of_char c :: nat) + 32) else c)"

definition to_lower :: "string \<Rightarrow> string" where
  "to_lower s = map lower_char s"

definition trim_space :: "string \<Rightarrow> string" where
  "trim_space s = trim_by ascii_space s"

lemma lower_char_idem [simp]: "lower_char (lower_char c) = lower_char c"
proof (cases "is_upper c")
  case True
  then have "(of_char c :: nat) + 32 < 256" by (simp add: is_upper_def)
  then have "(of_char (char_of ((of_char c :: nat) + 32)) :: nat) = of_char c + 32"
    by simp
  with True show ?thesis by (simp add: lower_char_def is_upper_def)
qed (simp add: lower_char_def)

lemma to_lower_idem [simp]: "to_lower (to_lower s) = to_lower s"
  by (simp add: to_lower_def)

subsection \<open>Numbers\<close>

datatype num_error = ErrSyntax | ErrRange

definition digit_val :: "char \<Rightarrow> nat option" where
  "digit_val c =
     (if is_digit c then Some ((of_char c :: nat) - 48)
      else if is_lower c then Some ((of_char c :: nat) - 87)
      else if is_upper c then Some ((of_char c :: nat) - 55)
      else None)"

fun parse_digits :: "nat \<Rightarrow> nat \<Rightarrow> nat \<Rightarrow> string \<Rightarrow> nat \<times> num_error option" where
  "parse_digits base mx acc [] = (acc, None)"
| "parse_digits base mx acc (c # cs) =
     (case digit_val c of
        None \<Rightarrow> (0, Some ErrSyntax)
      | Some v \<Rightarrow>
          if base \<le> v then (0, Some ErrSyntax)
          else if mx < acc * base + v then (mx, Some ErrRange)
          else parse_digits base mx (acc * base + v) cs)"

text \<open>\<^verbatim>\<open>strconv.ParseUint(s, base, bits)\<close>; base 0 reads the \<^verbatim>\<open>0x\<close> and \<^verbatim>\<open>0\<close> prefixes.\<close>

definition parse_uint :: "string \<Rightarrow> nat \<Rightarrow> nat \<Rightarrow> nat \<times> num_error option" where
  "parse_uint s base bits =
     (let mx = 2 ^ bits - 1 in
      if s = [] then (0, Some ErrSyntax)
      else if base \<noteq> 0 then parse_digits base mx 0 s
      else if has_prefix s ''0x'' \<or> has_prefix s ''0X''
        then (if drop 2 s = [] then (0, Some ErrSyntax) else parse_digits 16 mx 0 (drop 2 s))
      else if hd s = CHR ''0'' then parse_digits 8 mx 0 s
      else parse_digits 10 mx 0 s)"

definition parse_int :: "string \<Rightarrow> nat \<Rightarrow> nat \<Rightarrow> int \<times> num_error option" where
  "parse_int s base bits =
     (if s = [] then (0, Some ErrSyntax)
      else
        let neg = (hd s = CHR ''-'');
            s' = (if hd s = CHR ''+'' \<or> hd s = CHR ''-'' then tl s else s);
            (un, err) = parse_uint s' base bits;
            cutoff = 2 ^ (bits - 1)
        in if err = Some ErrSyntax then (0, Some ErrSyntax)
           else if \<not> neg \<and> cutoff \<le> un then (int cutoff - 1, Some ErrRange)
           else if neg \<and> cutoff < un then (- int cutoff, Some ErrRange)
           else (if neg then - int un else int un, None))"

definition atoi :: "string \<Rightarrow> int \<times> num_error option" where
  "atoi s = parse_int s 10 64"

fun dec_nat :: "nat \<Rightarrow> string" where
  "dec_nat n = (if n < 10 then [char_of (48 + n)] else dec_nat (n div 10) @ [char_of (48 + n mod 10)])"

declare dec_nat.simps [simp del]

definition itoa :: "int \<Rightarrow> string" where
  "itoa i = (if i < 0 then CHR ''-'' # dec_nat (nat (- i)) else dec_nat (nat i))"

lemma parse_digits_bound: "acc \<le> mx \<Longrightarrow> fst (parse_digits base mx acc s) \<le> mx"
  by (induction s arbitrary: acc) (auto split: option.splits)

lemma parse_uint_bound: "fst (parse_uint s base bits) \<le> 2 ^ bits - 1"
  using parse_digits_bound by (simp add: parse_uint_def Let_def)

lemma parse_int_range:
  "fst (parse_int s base bits) \<in> {- (2 ^ (bits - 1)) .. 2 ^ (bits - 1) - 1}"
proof -
  have le: "int n < 2 ^ k" if "\<not> 2 ^ k \<le> n" for n k :: nat
    using that by (metis of_nat_less_iff of_nat_numeral of_nat_power not_le)
  have le': "int n \<le> 2 ^ k" if "\<not> 2 ^ k < n" for n k :: nat
    using that by (metis of_nat_le_iff of_nat_numeral of_nat_power not_le)
  have pos: "(0 :: int) < 2 ^ (bits - 1)" by simp
  have n1: "- int n < 2 ^ k" for n k :: nat by (rule le_less_trans [of _ 0]) auto
  have n2: "- (2 ^ k) \<le> int n" for n k :: nat by (rule order_trans [of _ 0]) auto
  define s' where "s' = (if hd s = CHR ''+'' \<or> hd s = CHR ''-'' then tl s else s)"
  obtain un err where u: "parse_uint s' base bits = (un, err)" by fastforce
  from pos le [of "bits - 1" un] le' [of "bits - 1" un] show ?thesis
    unfolding parse_int_def s'_def [symmetric] Let_def u
    by (auto simp: not_le not_less n1 n2)
qed

lemma dec_nat_not_Nil [simp]: "dec_nat n \<noteq> []"
  by (subst dec_nat.simps) simp

lemma digit_val_digit: "d < 10 \<Longrightarrow> digit_val (char_of (48 + d)) = Some d"
  by (simp add: digit_val_def is_digit_def)

lemma parse_digits_append:
  "parse_digits b mx acc (s @ t) =
     (case parse_digits b mx acc s of (a, None) \<Rightarrow> parse_digits b mx a t | r \<Rightarrow> r)"
  by (induction s arbitrary: acc) (auto split: option.splits)

lemma parse_digits_dec: "n \<le> mx \<Longrightarrow> parse_digits 10 mx 0 (dec_nat n) = (n, None)"
proof (induction n rule: dec_nat.induct)
  case (1 n)
  show ?case
  proof (cases "n < 10")
    case True
    with 1 show ?thesis by (simp add: dec_nat.simps [of n] digit_val_digit)
  next
    case False
    with 1 have "parse_digits 10 mx 0 (dec_nat (n div 10)) = (n div 10, None)"
      by simp
    moreover have "n div 10 * 10 + n mod 10 = n" by simp
    ultimately show ?thesis using False 1
      by (simp add: dec_nat.simps [of n] parse_digits_append digit_val_digit)
  qed
qed

lemma dec_nat_digit: "c \<in> set (dec_nat n) \<Longrightarrow> is_digit c"
proof (induction n rule: dec_nat.induct)
  case (1 n)
  then show ?case
    by (cases "n < 10") (auto simp: dec_nat.simps [of n] is_digit_def)
qed

lemma atoi_itoa: "- (2 ^ 63) \<le> i \<Longrightarrow> i < 2 ^ 63 \<Longrightarrow> atoi (itoa i) = (i, None)"
proof -
  assume a: "- (2 ^ 63) \<le> i" "i < 2 ^ 63"
  have h: "hd (dec_nat n) \<noteq> CHR ''-'' \<and> hd (dec_nat n) \<noteq> CHR ''+''" for n
    using dec_nat_digit [of "hd (dec_nat n)" n] by (auto simp: is_digit_def)
  show ?thesis
  proof (cases "i < 0")
    case True
    with a have "nat (- i) \<le> 2 ^ 64 - 1" "nat (- i) \<le> 2 ^ 63"
      by (simp_all add: nat_le_iff)
    with True a show ?thesis
      by (simp add: itoa_def atoi_def parse_int_def parse_uint_def Let_def parse_digits_dec)
  next
    case False
    with a have "nat i \<le> 2 ^ 64 - 1" "nat i < 2 ^ 63"
      by (simp_all add: nat_le_iff nat_less_iff)
    with False a h [of "nat i"] show ?thesis
      by (simp add: itoa_def atoi_def parse_int_def parse_uint_def Let_def parse_digits_dec)
  qed
qed

end
