(* ===== verification/Registrar.thy ===== *)
theory Registrar
  imports Go_Strings
begin

section \<open>The name registrar (\<^verbatim>\<open>pkg/registrar/registrar.go\<close>)\<close>

text \<open>
  The two indexes of \<^verbatim>\<open>Registrar\<close> and its operations.  Every method runs under the
  mutex from its first to its last line, so each is one step.  The invariant says that
  \<^verbatim>\<open>idx\<close> is exactly the inverse of \<^verbatim>\<open>names\<close>; through it the pair of maps
  refines one partial map from names to keys.
\<close>

datatype reg_error = ErrNameReserved | ErrNameNotReserved | ErrNoSuchKey

record registrar =
  idx :: "(string, string list) gomap"
  names :: "(string, string) gomap"

definition NewRegistrar :: registrar where
  "NewRegistrar = \<lparr>idx = [], names = []\<rparr>"

definition Reserve :: "registrar \<Rightarrow> string \<Rightarrow> string \<Rightarrow> registrar \<times> reg_error option" where
  "Reserve r name key =
     (case mget (names r) name of
        Some k \<Rightarrow> (r, if k \<noteq> key then Some ErrNameReserved else None)
      | None \<Rightarrow>
          (r\<lparr>idx := mput key (mget_or [] (idx r) key @ [name]) (idx r),
             names := mput name key (names r)\<rparr>, None))"

text \<open>
  The loop of \<^verbatim>\<open>Release\<close> drops the first occurrence of the name from the key's slice
  and stops; a key whose slice becomes empty leaves the index.
\<close>

fun drop_first :: "string \<Rightarrow> string list \<Rightarrow> string list" where
  "drop_first name [] = []"
| "drop_first name (n # ns) = (if n \<noteq> name then n # drop_first name ns else ns)"

definition Release :: "registrar \<Rightarrow> string \<Rightarrow> registrar" where
  "Release r name =
     (case mget (names r) name of
        None \<Rightarrow> r
      | Some key \<Rightarrow>
          let ns = drop_first name (mget_or [] (idx r) key);
              idx' = (if name \<in> set (mget_or [] (idx r) key) then mput key ns (idx r) else idx r);
              names' = mdel name (names r)
          in r\<lparr>idx := (if mget_or [] idx' key = [] then mdel key idx' else idx'), names := names'\<rparr>)"

definition Delete :: "registrar \<Rightarrow> string \<Rightarrow> registrar" where
  "Delete r key =
     r\<lparr>names := fold mdel (mget_or [] (idx r) key) (names r), idx := mdel key (idx r)\<rparr>"

definition GetNames :: "registrar \<Rightarrow> string \<Rightarrow> (reg_error, string list) result" where
  "GetNames r key = (case mget (idx r) key of None \<Rightarrow> Inl ErrNoSuchKey | Some ns \<Rightarrow> Inr ns)"

definition Get :: "registrar \<Rightarrow> string \<Rightarrow> (reg_error, string) result" where
  "Get r name = (case mget (names r) name of None \<Rightarrow> Inl ErrNameNotReserved | Some k \<Rightarrow> Inr k)"

definition GetAll :: "registrar \<Rightarrow> (string, string list) gomap" where
  "GetAll r = fold (\<lambda>(id, ns) out. mput id ns out) (idx r) []"

datatype reg_op = OpReserve string string | OpRelease string | OpDelete string

fun reg_step :: "registrar \<Rightarrow> reg_op \<Rightarrow> registrar" where
  "reg_step r (OpReserve n k) = fst (Reserve r n k)"
| "reg_step r (OpRelease n) = Release r n"
| "reg_step r (OpDelete k) = Delete r k"

subsection \<open>The invariant\<close>

definition registrar_inv :: "registrar \<Rightarrow> bool" where
  "registrar_inv r \<longleftrightarrow>
     wf_map (idx r) \<and> wf_map (names r) \<and>
     (\<forall>k. mget (idx r) k \<noteq> Some []) \<and> (\<forall>k. distinct (mget_or [] (idx r) k)) \<and>
     (\<forall>k n. n \<in> set (mget_or [] (idx r) k) \<longleftrightarrow> mget (names r) n = Some k)"

lemma drop_first_remove1: "drop_first n ns = remove1 n ns"
  by (induction ns) auto

lemma wf_fold_mdel [simp]: "wf_map m \<Longrightarrow> wf_map (fold mdel ns m)"
  by (induction ns arbitrary: m) auto

lemma mget_fold_mdel [simp]: "mget (fold mdel ns m) n = (if n \<in> set ns then None else mget m n)"
  by (induction ns arbitrary: m) auto

lemma inv_distinct: "registrar_inv r \<Longrightarrow> distinct (mget_or [] (idx r) k)"
  by (simp add: registrar_inv_def)

lemma inv_mem: "registrar_inv r \<Longrightarrow> n \<in> set (mget_or [] (idx r) k) \<longleftrightarrow> mget (names r) n = Some k"
  by (simp add: registrar_inv_def)

lemma inv_nonempty: "registrar_inv r \<Longrightarrow> mget (idx r) k \<noteq> Some []"
  by (simp add: registrar_inv_def)

lemma inv_New: "registrar_inv NewRegistrar"
  by (simp add: registrar_inv_def NewRegistrar_def mget_or_def)

lemma inv_Reserve: "registrar_inv r \<Longrightarrow> registrar_inv (fst (Reserve r n k))"
  using inv_distinct [of r k] inv_mem [of r n k]
  by (auto simp: Reserve_def registrar_inv_def split: option.splits if_splits)

lemma inv_Release:
  assumes "registrar_inv r"
  shows "registrar_inv (Release r n)"
proof (cases "mget (names r) n")
  case None
  then show ?thesis using assms by (simp add: Release_def)
next
  case (Some k)
  have mem: "n \<in> set (mget_or [] (idx r) k)" using assms Some by (simp add: inv_mem)
  then have ne: "drop_first n (mget_or [] (idx r) k) = [] \<longleftrightarrow> set (mget_or [] (idx r) k) = {n}"
    using inv_distinct [OF assms, of k]
    by (simp add: drop_first_remove1) (metis Diff_eq_empty_iff empty_set insert_Diff insert_is_Un
      set_empty set_remove1_eq subset_singleton_iff insert_not_empty)
  show ?thesis
    using assms Some mem ne
    by (auto simp: Release_def Let_def registrar_inv_def drop_first_remove1 split: if_splits)
      (metis singletonD)
qed

lemma inv_Delete: "registrar_inv r \<Longrightarrow> registrar_inv (Delete r k)"
  by (auto simp: Delete_def registrar_inv_def)

interpretation reg: step_system NewRegistrar reg_step registrar_inv
proof unfold_locales
  show "registrar_inv NewRegistrar" by (rule inv_New)
  show "registrar_inv (reg_step r op)" if "registrar_inv r" for r op
    using that by (cases op) (simp_all add: inv_Reserve inv_Release inv_Delete)
qed

subsection \<open>The contract of a name registry\<close>

locale name_registry =
  fixes key_of :: "'s \<Rightarrow> 'n \<Rightarrow> 'k option"
    and names_of :: "'s \<Rightarrow> 'k \<Rightarrow> 'n list"
    and reserve :: "'s \<Rightarrow> 'n \<Rightarrow> 'k \<Rightarrow> 's"
    and release :: "'s \<Rightarrow> 'n \<Rightarrow> 's"
    and drop_key :: "'s \<Rightarrow> 'k \<Rightarrow> 's"
    and inv :: "'s \<Rightarrow> bool"
  assumes key_of_reserve:
      "inv s \<Longrightarrow> key_of (reserve s n k) = (if key_of s n = None then (key_of s)(n \<mapsto> k) else key_of s)"
    and key_of_release: "inv s \<Longrightarrow> key_of (release s n) = (key_of s)(n := None)"
    and key_of_drop:
      "inv s \<Longrightarrow> key_of (drop_key s k) = (\<lambda>n. if key_of s n = Some k then None else key_of s n)"
    and set_names_of: "inv s \<Longrightarrow> set (names_of s k) = {n. key_of s n = Some k}"
    and distinct_names_of: "inv s \<Longrightarrow> distinct (names_of s k)"
    and inv_reserve: "inv s \<Longrightarrow> inv (reserve s n k)"
    and inv_release: "inv s \<Longrightarrow> inv (release s n)"
    and inv_drop: "inv s \<Longrightarrow> inv (drop_key s k)"
begin

lemma names_disjoint: "inv s \<Longrightarrow> k \<noteq> k' \<Longrightarrow> set (names_of s k) \<inter> set (names_of s k') = {}"
  by (auto simp: set_names_of)

lemma reserve_then_release: "inv s \<Longrightarrow> key_of s n = None \<Longrightarrow> key_of (release (reserve s n k) n) = key_of s"
  by (rule ext) (simp add: key_of_release inv_reserve key_of_reserve)

lemma drop_frees_names: "inv s \<Longrightarrow> n \<in> set (names_of s k) \<Longrightarrow> key_of (drop_key s k) n = None"
  by (simp add: set_names_of key_of_drop)

lemma drop_keeps_others:
  "inv s \<Longrightarrow> k' \<noteq> k \<Longrightarrow> set (names_of (drop_key s k) k') = set (names_of s k')"
  by (auto simp: set_names_of key_of_drop inv_drop)

end

lemma names_Reserve:
  "mget (names (fst (Reserve r n k))) =
     (if mget (names r) n = None then (mget (names r))(n \<mapsto> k) else mget (names r))"
  by (auto simp: Reserve_def split: option.splits)

lemma names_Release: "mget (names (Release r n)) = (mget (names r))(n := None)"
  by (rule ext) (auto simp: Release_def Let_def split: option.splits)

lemma names_Delete:
  "registrar_inv r \<Longrightarrow>
   mget (names (Delete r k)) = (\<lambda>n. if mget (names r) n = Some k then None else mget (names r) n)"
  by (rule ext) (simp add: Delete_def inv_mem)

interpretation rn: name_registry "\<lambda>r. mget (names r)" "\<lambda>r k. mget_or [] (idx r) k"
  "\<lambda>r n k. fst (Reserve r n k)" Release Delete registrar_inv
  by unfold_locales
    (auto simp: names_Reserve names_Release names_Delete inv_mem inv_distinct
       inv_Reserve inv_Release inv_Delete)

subsection \<open>Properties\<close>

lemma Get_iff: "Get r n = Inr k \<longleftrightarrow> mget (names r) n = Some k"
  by (simp add: Get_def split: option.splits)

lemma fold_mput_new: "wf_map m \<Longrightarrow> mget (fold (\<lambda>(id, ns) out. mput id ns out) m acc) k =
   (case mget m k of None \<Rightarrow> mget acc k | Some v \<Rightarrow> Some v)"
proof (induction m arbitrary: acc)
  case (Cons x m)
  obtain a b where x: "x = (a, b)" by (cases x)
  with Cons.prems have "wf_map m" "mget m a = None"
    by (auto simp: wf_map_def map_of_eq_None_iff)
  with Cons.IH x show ?case by (auto split: option.splits)
qed simp

text \<open>The abstract registry is one partial map from names to keys.\<close>

fun spec_step :: "(string \<rightharpoonup> string) \<Rightarrow> reg_op \<Rightarrow> (string \<rightharpoonup> string)" where
  "spec_step m (OpReserve n k) = (if m n = None then m(n \<mapsto> k) else m)"
| "spec_step m (OpRelease n) = m(n := None)"
| "spec_step m (OpDelete k) = (\<lambda>n. if m n = Some k then None else m n)"

lemma run_names:
  "registrar_inv r \<Longrightarrow> mget (names (foldl reg_step r ops)) = foldl spec_step (mget (names r)) ops"
proof (induction ops arbitrary: r)
  case (Cons op ops)
  have "mget (names (reg_step r op)) = spec_step (mget (names r)) op"
    using Cons.prems by (cases op) (simp_all add: names_Reserve names_Release names_Delete fun_upd_def)
  with Cons reg.inv_step [OF Cons.prems, of op] show ?case by simp
qed simp

lemma GetNames_cases:
  assumes "registrar_inv r"
  shows "case GetNames r k of
           Inl e \<Rightarrow> e = ErrNoSuchKey \<and> (\<forall>n. mget (names r) n \<noteq> Some k)
         | Inr ns \<Rightarrow> ns \<noteq> [] \<and> distinct ns \<and> set ns = {n. mget (names r) n = Some k}"
proof (cases "mget (idx r) k")
  case None
  then show ?thesis
    using rn.set_names_of [OF assms, of k] by (simp add: GetNames_def mget_or_def)
next
  case (Some ns)
  then have "mget_or [] (idx r) k = ns" by (rule mget_or_Some)
  moreover have "ns \<noteq> []" using Some inv_nonempty [OF assms, of k] by auto
  ultimately show ?thesis
    using Some rn.set_names_of [OF assms, of k] rn.distinct_names_of [OF assms, of k]
    by (simp add: GetNames_def)
qed

text \<open>
  C19: after any sequence of operations the two indexes of the registrar represent one partial map
  from names to keys, the one the abstract steps compute: \<^verbatim>\<open>Get\<close> reads it,
  \<^verbatim>\<open>GetNames\<close> lists exactly the names bound to the key, each once, and errs exactly when
  there is none, and \<^verbatim>\<open>Reserve\<close> errs exactly when the name is bound to another key.
\<close>

theorem registrar_refines_map:
  "let r = foldl reg_step NewRegistrar ops; m = foldl spec_step Map.empty ops in
     mget (names r) = m \<and>
     (\<forall>n. Get r n = (case m n of None \<Rightarrow> Inl ErrNameNotReserved | Some k \<Rightarrow> Inr k)) \<and>
     (\<forall>k. case GetNames r k of
            Inl e \<Rightarrow> e = ErrNoSuchKey \<and> (\<forall>n. m n \<noteq> Some k)
          | Inr ns \<Rightarrow> ns \<noteq> [] \<and> distinct ns \<and> set ns = {n. m n = Some k}) \<and>
     (\<forall>n k. snd (Reserve r n k) = (if m n \<in> {None, Some k} then None else Some ErrNameReserved)) \<and>
     mget (GetAll r) = mget (idx r)"
proof -
  define r where "r = foldl reg_step NewRegistrar ops"
  have inv: "registrar_inv r" unfolding r_def by (rule reg.inv_run)
  have m: "foldl spec_step Map.empty ops = mget (names r)"
    using run_names [OF inv_New, of ops] by (simp add: r_def NewRegistrar_def)
  have wf: "wf_map (idx r)" using inv by (simp add: registrar_inv_def)
  have "snd (Reserve r n k) =
      (if mget (names r) n \<in> {None, Some k} then None else Some ErrNameReserved)" for n k
    by (auto simp: Reserve_def split: option.splits)
  moreover have "mget (GetAll r) = mget (idx r)"
    by (rule ext) (simp add: GetAll_def fold_mput_new [OF wf] split: option.splits)
  ultimately show ?thesis
    using GetNames_cases [OF inv] by (simp add: r_def [symmetric] m Get_def)
qed

end
