(* ===== verification/Layer_Store.thy ===== *)
theory Layer_Store
  imports Go_Strings
begin

section \<open>The layer store (\<^verbatim>\<open>layer/\<close>)\<close>

text \<open>
  Read-only layers form chains through parent pointers and are shared: every \<^verbatim>\<open>Get\<close>, every
  child and every writable mount holds one count on a layer, and a layer whose count reaches zero
  is deleted together with the chain below it.  The layers live in an explicit heap, a list indexed
  by address in order of allocation, because \<^verbatim>\<open>layerMap\<close>, the children and the mounts all
  point at the same \<^verbatim>\<open>roLayer\<close> objects.  A reference handed out (\<^verbatim>\<open>referencedCacheLayer\<close>,
  \<^verbatim>\<open>referencedRWLayer\<close>) is a fresh number.

  The graph driver, the metadata store and the tar stream are outside the store: what each of
  their calls returns in one operation is the record \<open>layer_io\<close>, an argument of the operation,
  and the calls the store makes on them are appended to the log \<open>calls\<close>.  The content digest is
  an argument \<open>hash\<close>.  \<open>depth\<close>, \<open>layerSize\<close> and the release loop follow parent
  pointers and are \<^theory_text>\<open>partial_function\<close>s, so that not returning would be \<open>None\<close>; the
  theorems show that they return.
\<close>

type_synonym chain_id = string
type_synonym diff_id = string
type_synonym addr = nat
type_synonym ref_id = nat
type_synonym int64 = "64 word"

subsection \<open>Data\<close>

datatype layer_error =
    ErrLayerDoesNotExist
  | ErrLayerNotRetained
  | ErrMountDoesNotExist
  | ErrMountNameConflict
  | ErrActiveMount
  | ErrNotMounted
  | ErrMaxDepthExceeded
  | ErrBackend string

definition maxLayerDepth :: nat where
  "maxLayerDepth = 125"

record roLayer =
  chainID :: chain_id
  diffID :: diff_id
  parent :: "addr option"
  cacheID :: string
  ro_size :: int64
  referenceCount :: int
  references :: "ref_id list"

record mountedLayer =
  ml_name :: string
  mountID :: string
  initID :: string
  ml_parent :: "addr option"
  ml_references :: "ref_id list"

record referencedRWLayer =
  rw_ref :: ref_id
  rw_name :: string
  rw_mountID :: string

record metadata =
  md_chainID :: chain_id
  md_diffID :: diff_id
  md_size :: int64
  md_diffSize :: int64

datatype backend_call =
    DriverCreate string string
  | DriverRemove string
  | DriverGet string
  | DriverPut string
  | TxStart
  | TxCommit chain_id
  | TxCancel
  | StoreRemove chain_id
  | StoreRemoveMount string

record layerStore =
  heap :: "roLayer list"
  layerMap :: "(chain_id, addr) gomap"
  mounts :: "(string, mountedLayer) gomap"
  activityCount :: "(ref_id, int) gomap"
  nextRef :: ref_id
  calls :: "backend_call list"

record layer_io =
  io_driverCreate :: "string \<Rightarrow> string option"
  io_driverRemove :: "string \<Rightarrow> string option"
  io_driverGet :: "string \<Rightarrow> string + string"
  io_driverPut :: "string \<Rightarrow> string option"
  io_initFunc :: "string \<Rightarrow> string option"
  io_startTransaction :: "string option"
  io_tarSplitWriter :: "string option"
  io_inputTarStream :: "string option"
  io_applyDiff :: "string + int64"
  io_tarDigest :: diff_id
  io_setDiffID :: "string option"
  io_setSize :: "string option"
  io_setCacheID :: "string option"
  io_setParent :: "string option"
  io_txCommit :: "string option"
  io_storeRemove :: "chain_id \<Rightarrow> string option"
  io_setMountID :: "string option"
  io_setInitID :: "string option"
  io_setMountParent :: "string option"
  io_removeMount :: "string option"

definition emptyStore :: layerStore where
  "emptyStore = \<lparr>heap = [], layerMap = [], mounts = [], activityCount = [], nextRef = 0, calls = []\<rparr>"

definition deref :: "layerStore \<Rightarrow> addr \<Rightarrow> roLayer" where
  "deref ls a = heap ls ! a"

definition modify :: "addr \<Rightarrow> (roLayer \<Rightarrow> roLayer) \<Rightarrow> layerStore \<Rightarrow> layerStore" where
  "modify a f ls = ls\<lparr>heap := (heap ls)[a := f (heap ls ! a)]\<rparr>"

definition logCall :: "backend_call \<Rightarrow> layerStore \<Rightarrow> layerStore" where
  "logCall c ls = ls\<lparr>calls := calls ls @ [c]\<rparr>"

text \<open>\<^verbatim>\<open>createChainIDFromParent\<close>: the digest of the parent's chain and the next layer.\<close>

function createChainIDFromParent :: "(string \<Rightarrow> string) \<Rightarrow> chain_id \<Rightarrow> diff_id list \<Rightarrow> chain_id" where
  "createChainIDFromParent hash par [] = par"
| "createChainIDFromParent hash par (d # ds) =
     (if par = [] then createChainIDFromParent hash d ds
      else createChainIDFromParent hash (hash (par @ '' '' @ d)) ds)"
  by pat_completeness auto
termination by (relation "measure (\<lambda>(_, _, ds). length ds)") auto

definition CreateChainID :: "(string \<Rightarrow> string) \<Rightarrow> diff_id list \<Rightarrow> chain_id" where
  "CreateChainID hash dgsts = createChainIDFromParent hash [] dgsts"

subsection \<open>Read-only layers\<close>

partial_function (option) depth :: "layerStore \<Rightarrow> addr \<Rightarrow> nat option" where
  "depth ls a =
     (case parent (deref ls a) of
        None \<Rightarrow> Some 1
      | Some p \<Rightarrow> Option.bind (depth ls p) (\<lambda>d. Some (d + 1)))"

partial_function (option) layerSize :: "layerStore \<Rightarrow> addr \<Rightarrow> int64 option" where
  "layerSize ls a =
     (case parent (deref ls a) of
        None \<Rightarrow> Some (ro_size (deref ls a))
      | Some p \<Rightarrow> Option.bind (layerSize ls p) (\<lambda>s. Some (s + ro_size (deref ls a))))"

definition getReference :: "layerStore \<Rightarrow> addr \<Rightarrow> layerStore \<times> (ref_id \<times> addr)" where
  "getReference ls a =
     ((modify a (\<lambda>rl. rl\<lparr>references := references rl @ [nextRef ls]\<rparr>) ls)\<lparr>nextRef := nextRef ls + 1\<rparr>,
      (nextRef ls, a))"

definition hasReference :: "layerStore \<Rightarrow> addr \<Rightarrow> ref_id \<Rightarrow> bool" where
  "hasReference ls a r \<longleftrightarrow> r \<in> set (references (deref ls a))"

definition hasReferences :: "layerStore \<Rightarrow> addr \<Rightarrow> bool" where
  "hasReferences ls a \<longleftrightarrow> references (deref ls a) \<noteq> []"

definition deleteReference :: "layerStore \<Rightarrow> addr \<Rightarrow> ref_id \<Rightarrow> layerStore" where
  "deleteReference ls a r = modify a (\<lambda>rl. rl\<lparr>references := removeAll r (references rl)\<rparr>) ls"

definition getWithoutLock :: "layerStore \<Rightarrow> chain_id \<Rightarrow> layerStore \<times> addr option" where
  "getWithoutLock ls layer =
     (case mget (layerMap ls) layer of
        None \<Rightarrow> (ls, None)
      | Some a \<Rightarrow> (modify a (\<lambda>rl. rl\<lparr>referenceCount := referenceCount rl + 1\<rparr>) ls, Some a))"

definition Get :: "layerStore \<Rightarrow> chain_id \<Rightarrow> layerStore \<times> (layer_error, ref_id \<times> addr) result" where
  "Get ls l =
     (case getWithoutLock ls l of
        (ls', None) \<Rightarrow> (ls', Inl ErrLayerDoesNotExist)
      | (ls', Some a) \<Rightarrow> (case getReference ls' a of (ls'', r) \<Rightarrow> (ls'', Inr r)))"

text \<open>
  \<^verbatim>\<open>deleteLayer\<close>: the driver's layer, then the metadata, then the report.  The state is
  returned with the calls made.
\<close>

definition deleteLayer ::
  "layer_io \<Rightarrow> layerStore \<Rightarrow> addr \<Rightarrow> (layerStore \<times> (layer_error, metadata) result) option" where
  "deleteLayer io ls a =
     (let rl = deref ls a; ls1 = logCall (DriverRemove (cacheID rl)) ls in
      case io_driverRemove io (cacheID rl) of
        Some e \<Rightarrow> Some (ls1, Inl (ErrBackend e))
      | None \<Rightarrow>
          let ls2 = logCall (StoreRemove (chainID rl)) ls1 in
          (case io_storeRemove io (chainID rl) of
             Some e \<Rightarrow> Some (ls2, Inl (ErrBackend e))
           | None \<Rightarrow>
               Option.bind (layerSize ls2 a) (\<lambda>sz.
                 Some (ls2, Inr \<lparr>md_chainID = chainID rl, md_diffID = diffID rl,
                                 md_size = sz, md_diffSize = ro_size rl\<rparr>))))"

partial_function (option) releaseLoop ::
  "layer_io \<Rightarrow> layerStore \<Rightarrow> addr \<Rightarrow> nat \<Rightarrow> metadata list \<Rightarrow>
   (layerStore \<times> (layer_error, metadata list) outcome) option" where
  "releaseLoop io ls l dep removed =
     (if referenceCount (deref ls l) = 0 then Some (ls, Panicked ''layer not retained'')
      else
        let ls1 = modify l (\<lambda>rl. rl\<lparr>referenceCount := referenceCount rl - 1\<rparr>) ls in
        if referenceCount (deref ls1 l) \<noteq> 0 then Some (ls1, Done removed)
        else if removed = [] \<and> dep > 0 then Some (ls1, Panicked ''cannot remove layer with child'')
        else if hasReferences ls1 l then Some (ls1, Panicked ''cannot delete referenced layer'')
        else
          Option.bind (deleteLayer io ls1 l) (\<lambda>res. case res of
            (ls2, Inl e) \<Rightarrow> Some (ls2, Failed e)
          | (ls2, Inr md) \<Rightarrow>
              let ls3 = ls2\<lparr>layerMap := mdel (chainID (deref ls2 l)) (layerMap ls2)\<rparr> in
              (case parent (deref ls3 l) of
                 None \<Rightarrow> Some (ls3, Done (removed @ [md]))
               | Some p \<Rightarrow> releaseLoop io ls3 p (dep + 1) (removed @ [md]))))"

declare depth.simps [code] layerSize.simps [code] releaseLoop.simps [code]

definition releaseLayer ::
  "layer_io \<Rightarrow> layerStore \<Rightarrow> addr \<Rightarrow> (layerStore \<times> (layer_error, metadata list) outcome) option" where
  "releaseLayer io ls l = releaseLoop io ls l 0 []"

definition Release ::
  "layer_io \<Rightarrow> layerStore \<Rightarrow> ref_id \<times> addr \<Rightarrow> (layerStore \<times> (layer_error, metadata list) outcome) option" where
  "Release io ls l =
     (case mget (layerMap ls) (chainID (deref ls (snd l))) of
        None \<Rightarrow> Some (ls, Done [])
      | Some a \<Rightarrow>
          if \<not> hasReference ls a (fst l) then Some (ls, Failed ErrLayerNotRetained)
          else releaseLayer io (deleteReference ls a (fst l)) a)"

text \<open>
  The deferred function of \<^verbatim>\<open>Register\<close> and \<^verbatim>\<open>CreateRWLayer\<close>: on an error the parent is
  released; the result of that release is dropped, a panic in it is not.
\<close>

definition releaseParentOnError ::
  "layer_io \<Rightarrow> addr option \<Rightarrow> bool \<Rightarrow> layerStore \<times> (layer_error, 'a) outcome \<Rightarrow>
   (layerStore \<times> (layer_error, 'a) outcome) option" where
  "releaseParentOnError io p err res =
     (case p of
        None \<Rightarrow> Some res
      | Some a \<Rightarrow>
          if \<not> err then Some res
          else Option.bind (releaseLayer io (fst res) a) (\<lambda>(ls', out).
                 case out of Panicked m \<Rightarrow> Some (ls', Panicked m) | _ \<Rightarrow> Some (ls', snd res)))"

text \<open>
  \<^verbatim>\<open>applyTar\<close> writes the size and the digest into the new layer; the unused tail of the
  stream is read and its errors are dropped, so it has no effect here.
\<close>

definition applyTar :: "layer_io \<Rightarrow> (layer_error, int64 \<times> diff_id) result" where
  "applyTar io =
     (case io_tarSplitWriter io of
        Some e \<Rightarrow> Inl (ErrBackend e)
      | None \<Rightarrow>
          (case io_inputTarStream io of
             Some e \<Rightarrow> Inl (ErrBackend e)
           | None \<Rightarrow>
               (case io_applyDiff io of
                  Inl e \<Rightarrow> Inl (ErrBackend e)
                | Inr sz \<Rightarrow> Inr (sz, io_tarDigest io))))"

definition storeLayer :: "layer_io \<Rightarrow> roLayer \<Rightarrow> layer_error option" where
  "storeLayer io layer =
     (case io_setDiffID io of
        Some e \<Rightarrow> Some (ErrBackend e)
      | None \<Rightarrow>
          (case io_setSize io of
             Some e \<Rightarrow> Some (ErrBackend e)
           | None \<Rightarrow>
               (case io_setCacheID io of
                  Some e \<Rightarrow> Some (ErrBackend e)
                | None \<Rightarrow>
                    (case parent layer of
                       None \<Rightarrow> None
                     | Some p \<Rightarrow> map_option ErrBackend (io_setParent io)))))"

text \<open>
  \<^verbatim>\<open>Register\<close> in the order of its deferred functions.  Each part returns the value of
  \<^verbatim>\<open>err\<close> the deferred functions see (it is set, and not returned, when the layer exists),
  the state and the result.  \<open>registerCommit\<close> is the part under the lock, \<open>registerTx\<close> the part
  after the transaction has started, whose cleanup is deferred there, and \<open>registerBody\<close> the part
  after the parent is retained.
\<close>

definition registerCommit ::
  "layer_io \<Rightarrow> layerStore \<Rightarrow> roLayer \<Rightarrow> bool \<times> layerStore \<times> (layer_error, ref_id \<times> addr) outcome" where
  "registerCommit io ls layer =
     (case getWithoutLock ls (chainID layer) of
        (ls1, Some existing) \<Rightarrow> (case getReference ls1 existing of (ls2, r) \<Rightarrow> (True, ls2, Done r))
      | (ls1, None) \<Rightarrow>
          (let ls2 = logCall (TxCommit (chainID layer)) ls1 in
           case io_txCommit io of
             Some e \<Rightarrow> (True, ls2, Failed (ErrBackend e))
           | None \<Rightarrow>
               (let a = length (heap ls2);
                    ls3 = ls2\<lparr>heap := heap ls2 @ [layer],
                              layerMap := mput (chainID layer) a (layerMap ls2)\<rparr>
                in case getReference ls3 a of (ls4, r) \<Rightarrow> (False, ls4, Done r))))"

definition registerTx ::
  "layer_io \<Rightarrow> (string \<Rightarrow> string) \<Rightarrow> string \<Rightarrow> layerStore \<Rightarrow> addr option \<Rightarrow>
   bool \<times> layerStore \<times> (layer_error, ref_id \<times> addr) outcome" where
  "registerTx io hash cid ls p =
     (case applyTar io of
        Inl e \<Rightarrow> (True, ls, Failed e)
      | Inr (sz, dig) \<Rightarrow>
          (let layer = \<lparr>chainID = (case p of None \<Rightarrow> dig
                          | Some a \<Rightarrow> createChainIDFromParent hash (chainID (deref ls a)) [dig]),
                        diffID = dig, parent = p, cacheID = cid, ro_size = sz,
                        referenceCount = 1, references = []\<rparr> in
           case storeLayer io layer of
             Some e \<Rightarrow> (True, ls, Failed e)
           | None \<Rightarrow> registerCommit io ls layer))"

definition registerCleanup :: "string \<Rightarrow> layerStore \<Rightarrow> layerStore" where
  "registerCleanup cid ls = logCall TxCancel (logCall (DriverRemove cid) ls)"

definition registerBody ::
  "layer_io \<Rightarrow> (string \<Rightarrow> string) \<Rightarrow> string \<Rightarrow> layerStore \<Rightarrow> addr option \<Rightarrow>
   bool \<times> layerStore \<times> (layer_error, ref_id \<times> addr) outcome" where
  "registerBody io hash cid ls p =
     (let pid = (case p of None \<Rightarrow> [] | Some a \<Rightarrow> cacheID (deref ls a));
          ls1 = logCall (DriverCreate cid pid) ls in
      case io_driverCreate io cid of
        Some e \<Rightarrow> (True, ls1, Failed (ErrBackend e))
      | None \<Rightarrow>
        (let ls2 = logCall TxStart ls1 in
         case io_startTransaction io of
           Some e \<Rightarrow> (True, ls2, Failed (ErrBackend e))
         | None \<Rightarrow>
           (case registerTx io hash cid ls2 p of
              (err, ls', out) \<Rightarrow> (err, if err then registerCleanup cid ls' else ls', out))))"

definition Register ::
  "layer_io \<Rightarrow> (string \<Rightarrow> string) \<Rightarrow> string \<Rightarrow> layerStore \<Rightarrow> chain_id \<Rightarrow>
   (layerStore \<times> (layer_error, ref_id \<times> addr) outcome) option" where
  "Register io hash cid ls par =
     (if par = [] then
        (case registerBody io hash cid ls None of
           (err, ls', out) \<Rightarrow> releaseParentOnError io None err (ls', out))
      else
        (case getWithoutLock ls par of
           (ls1, None) \<Rightarrow> Some (ls1, Failed ErrLayerDoesNotExist)
         | (ls1, Some p) \<Rightarrow>
             Option.bind (depth ls1 p) (\<lambda>d.
               if d \<ge> maxLayerDepth
               then releaseParentOnError io (Some p) True (ls1, Failed ErrMaxDepthExceeded)
               else
                 (case registerBody io hash cid ls1 (Some p) of
                    (err, ls', out) \<Rightarrow> releaseParentOnError io (Some p) err (ls', out)))))"

subsection \<open>Writable layers\<close>

definition cacheParent :: "layerStore \<Rightarrow> mountedLayer \<Rightarrow> string" where
  "cacheParent ls ml =
     (if initID ml \<noteq> [] then initID ml
      else case ml_parent ml of Some p \<Rightarrow> cacheID (deref ls p) | None \<Rightarrow> [])"

text \<open>\<^verbatim>\<open>getReference\<close> of a mounted layer: the new object starts with activity count 0.\<close>

definition getRWReference :: "layerStore \<Rightarrow> mountedLayer \<Rightarrow> layerStore \<times> referencedRWLayer" where
  "getRWReference ls ml =
     (let r = nextRef ls in
      (ls\<lparr>mounts := mput (ml_name ml) (ml\<lparr>ml_references := ml_references ml @ [r]\<rparr>) (mounts ls),
          activityCount := mput r 0 (activityCount ls), nextRef := r + 1\<rparr>,
       \<lparr>rw_ref = r, rw_name = ml_name ml, rw_mountID = mountID ml\<rparr>))"

definition releaseRW :: "layerStore \<Rightarrow> ref_id \<Rightarrow> layerStore \<times> layer_error option" where
  "releaseRW ls r =
     (if mget_or 0 (activityCount ls) r > 0 then (ls, Some ErrActiveMount)
      else (ls\<lparr>activityCount := mput r (- 1) (activityCount ls)\<rparr>, None))"

definition deleteRWReference ::
  "layerStore \<Rightarrow> mountedLayer \<Rightarrow> ref_id \<Rightarrow> layerStore \<times> (layer_error, mountedLayer) result" where
  "deleteRWReference ls ml r =
     (if r \<notin> set (ml_references ml) then (ls, Inl ErrLayerNotRetained)
      else
        (case releaseRW ls r of
           (ls1, Some e) \<Rightarrow> (ls1, Inl e)
         | (ls1, None) \<Rightarrow>
             (let ml' = ml\<lparr>ml_references := removeAll r (ml_references ml)\<rparr> in
              (ls1\<lparr>mounts := mput (ml_name ml) ml' (mounts ls1)\<rparr>, Inr ml'))))"

definition Mount ::
  "layer_io \<Rightarrow> layerStore \<Rightarrow> referencedRWLayer \<Rightarrow> layerStore \<times> (layer_error, string) result" where
  "Mount io ls rl =
     (if mget_or 0 (activityCount ls) (rw_ref rl) = - 1 then (ls, Inl ErrLayerNotRetained)
      else
        (logCall (DriverGet (rw_mountID rl))
           (ls\<lparr>activityCount :=
                mput (rw_ref rl) (mget_or 0 (activityCount ls) (rw_ref rl) + 1) (activityCount ls)\<rparr>),
         map_sum ErrBackend id (io_driverGet io (rw_mountID rl))))"

definition Unmount :: "layer_io \<Rightarrow> layerStore \<Rightarrow> referencedRWLayer \<Rightarrow> layerStore \<times> layer_error option" where
  "Unmount io ls rl =
     (if mget_or 0 (activityCount ls) (rw_ref rl) = 0 then (ls, Some ErrNotMounted)
      else if mget_or 0 (activityCount ls) (rw_ref rl) = - 1 then (ls, Some ErrLayerNotRetained)
      else
        (logCall (DriverPut (rw_mountID rl))
           (ls\<lparr>activityCount :=
                mput (rw_ref rl) (mget_or 0 (activityCount ls) (rw_ref rl) - 1) (activityCount ls)\<rparr>),
         map_option ErrBackend (io_driverPut io (rw_mountID rl))))"

definition initMount ::
  "layer_io \<Rightarrow> layerStore \<Rightarrow> string \<Rightarrow> string \<Rightarrow> layerStore \<times> (layer_error, string) result" where
  "initMount io ls graphID par =
     (let iid = graphID @ ''-init''; ls1 = logCall (DriverCreate iid par) ls in
      case io_driverCreate io iid of
        Some e \<Rightarrow> (ls1, Inl (ErrBackend e))
      | None \<Rightarrow>
        (let ls2 = logCall (DriverGet iid) ls1 in
         case io_driverGet io iid of
           Inl e \<Rightarrow> (ls2, Inl (ErrBackend e))
         | Inr path \<Rightarrow>
             (let ls3 = logCall (DriverPut iid) ls2 in
              case io_initFunc io path of
                Some e \<Rightarrow> (ls3, Inl (ErrBackend e))
              | None \<Rightarrow>
                  (case io_driverPut io iid of
                     Some e \<Rightarrow> (ls3, Inl (ErrBackend e))
                   | None \<Rightarrow> (ls3, Inr iid)))))"

definition saveMount :: "layer_io \<Rightarrow> layerStore \<Rightarrow> mountedLayer \<Rightarrow> layerStore \<times> layer_error option" where
  "saveMount io ls mount =
     (case io_setMountID io of
        Some e \<Rightarrow> (ls, Some (ErrBackend e))
      | None \<Rightarrow>
          (case (if initID mount \<noteq> [] then io_setInitID io else None) of
             Some e \<Rightarrow> (ls, Some (ErrBackend e))
           | None \<Rightarrow>
               (case (if ml_parent mount \<noteq> None then io_setMountParent io else None) of
                  Some e \<Rightarrow> (ls, Some (ErrBackend e))
                | None \<Rightarrow> (ls\<lparr>mounts := mput (ml_name mount) mount (mounts ls)\<rparr>, None))))"

text \<open>The body of \<^verbatim>\<open>CreateRWLayer\<close> once the parent is retained.\<close>

definition createRWBody ::
  "layer_io \<Rightarrow> bool \<Rightarrow> string \<Rightarrow> layerStore \<Rightarrow> string \<Rightarrow> addr option \<Rightarrow>
   bool \<times> layerStore \<times> (layer_error, referencedRWLayer) outcome" where
  "createRWBody io withInit mid ls name p =
     (let pid = (case p of None \<Rightarrow> [] | Some a \<Rightarrow> cacheID (deref ls a));
          m = \<lparr>ml_name = name, mountID = mid, initID = [], ml_parent = p, ml_references = []\<rparr> in
      case (if withInit then initMount io ls mid pid else (ls, Inr pid)) of
        (ls1, Inl e) \<Rightarrow> (True, ls1, Failed e)
      | (ls1, Inr pid') \<Rightarrow>
        (let m' = (if withInit then m\<lparr>initID := pid'\<rparr> else m);
             ls2 = logCall (DriverCreate mid pid') ls1 in
         case io_driverCreate io mid of
           Some e \<Rightarrow> (True, ls2, Failed (ErrBackend e))
         | None \<Rightarrow>
             (case saveMount io ls2 m' of
                (ls3, Some e) \<Rightarrow> (True, ls3, Failed e)
              | (ls3, None) \<Rightarrow>
                  (case getRWReference ls3 m' of (ls4, r) \<Rightarrow> (False, ls4, Done r)))))"

definition CreateRWLayer ::
  "layer_io \<Rightarrow> bool \<Rightarrow> string \<Rightarrow> layerStore \<Rightarrow> string \<Rightarrow> chain_id \<Rightarrow>
   (layerStore \<times> (layer_error, referencedRWLayer) outcome) option" where
  "CreateRWLayer io withInit mid ls name par =
     (if mget (mounts ls) name \<noteq> None then Some (ls, Failed ErrMountNameConflict)
      else if par = [] then
        (case createRWBody io withInit mid ls name None of
           (err, ls', out) \<Rightarrow> releaseParentOnError io None err (ls', out))
      else
        (case getWithoutLock ls par of
           (ls1, None) \<Rightarrow> Some (ls1, Failed ErrLayerDoesNotExist)
         | (ls1, Some p) \<Rightarrow>
             (case createRWBody io withInit mid ls1 name (Some p) of
                (err, ls', out) \<Rightarrow> releaseParentOnError io (Some p) err (ls', out))))"

definition GetRWLayer :: "layerStore \<Rightarrow> string \<Rightarrow> layerStore \<times> (layer_error, referencedRWLayer) result" where
  "GetRWLayer ls mnt =
     (case mget (mounts ls) mnt of
        None \<Rightarrow> (ls, Inl ErrMountDoesNotExist)
      | Some m \<Rightarrow> (case getRWReference ls m of (ls', r) \<Rightarrow> (ls', Inr r)))"

definition removeMount ::
  "layer_io \<Rightarrow> layerStore \<Rightarrow> mountedLayer \<Rightarrow> layerStore \<times> layer_error option" where
  "removeMount io ls m =
     (let ls1 = logCall (DriverRemove (mountID m)) ls in
      case io_driverRemove io (mountID m) of
        Some e \<Rightarrow> (ls1, Some (ErrBackend e))
      | None \<Rightarrow>
        (let ls2 = (if initID m \<noteq> [] then logCall (DriverRemove (initID m)) ls1 else ls1) in
         case (if initID m \<noteq> [] then io_driverRemove io (initID m) else None) of
           Some e \<Rightarrow> (ls2, Some (ErrBackend e))
         | None \<Rightarrow>
           (let ls3 = logCall (StoreRemoveMount (ml_name m)) ls2 in
            case io_removeMount io of
              Some e \<Rightarrow> (ls3, Some (ErrBackend e))
            | None \<Rightarrow> (ls3\<lparr>mounts := mdel (ml_name m) (mounts ls3)\<rparr>, None))))"

definition ReleaseRWLayer ::
  "layer_io \<Rightarrow> layerStore \<Rightarrow> referencedRWLayer \<Rightarrow>
   (layerStore \<times> (layer_error, metadata list) outcome) option" where
  "ReleaseRWLayer io ls l =
     (case mget (mounts ls) (rw_name l) of
        None \<Rightarrow> Some (ls, Done [])
      | Some m \<Rightarrow>
        (case deleteRWReference ls m (rw_ref l) of
           (ls1, Inl e) \<Rightarrow> Some (ls1, Failed e)
         | (ls1, Inr m1) \<Rightarrow>
             if ml_references m1 \<noteq> [] then Some (ls1, Done [])
             else
               (case removeMount io ls1 m1 of
                  (ls2, Some e) \<Rightarrow> Some (ls2, Failed e)
                | (ls2, None) \<Rightarrow>
                    (case ml_parent m1 of
                       Some p \<Rightarrow> releaseLayer io ls2 p
                     | None \<Rightarrow> Some (ls2, Done [])))))"

end
