(* ===== verification/Layer_Refcount.thy ===== *)
theory Layer_Refcount
  imports Layer_Store
begin

section \<open>Reference counts of the layer store\<close>

text \<open>
  The invariant of \<^verbatim>\<open>layer/\<close>: a layer's count is the number of references handed out on it,
  plus its children, plus the mounts on top of it, plus the holds of the operations in flight
  (\<open>H\<close>).  Each elementary change of the store is one lemma; the operations are
  compositions of them.
\<close>

definition live :: "layerStore \<Rightarrow> addr \<Rightarrow> bool" where
  "live ls a \<longleftrightarrow> a < length (heap ls) \<and> mget (layerMap ls) (chainID (deref ls a)) = Some a"

definition nchildren :: "layerStore \<Rightarrow> addr \<Rightarrow> nat" where
  "nchildren ls p = mcount (\<lambda>e. parent (deref ls (snd e)) = Some p) (layerMap ls)"

definition nmounts :: "layerStore \<Rightarrow> addr \<Rightarrow> nat" where
  "nmounts ls p = mcount (\<lambda>e. ml_parent (snd e) = Some p) (mounts ls)"

type_synonym holds = "addr \<Rightarrow> nat"

definition hold :: "holds \<Rightarrow> addr option \<Rightarrow> holds" where
  "hold H p = (case p of None \<Rightarrow> H | Some a \<Rightarrow> H(a := H a + 1))"

definition shape_ok :: "layerStore \<Rightarrow> bool" where
  "shape_ok ls \<longleftrightarrow>
     wf_map (layerMap ls) \<and> wf_map (mounts ls) \<and>
     (\<forall>e \<in> set (layerMap ls). live ls (snd e) \<and> chainID (deref ls (snd e)) = fst e) \<and>
     (\<forall>a p. live ls a \<and> parent (deref ls a) = Some p \<longrightarrow> p < a \<and> live ls p) \<and>
     (\<forall>e \<in> set (mounts ls). ml_name (snd e) = fst e \<and>
        (\<forall>p. ml_parent (snd e) = Some p \<longrightarrow> live ls p))"

definition counts_ok :: "holds \<Rightarrow> layerStore \<Rightarrow> bool" where
  "counts_ok H ls \<longleftrightarrow>
     (\<forall>a. live ls a \<longrightarrow>
        referenceCount (deref ls a) =
          int (length (references (deref ls a)) + nchildren ls a + nmounts ls a + H a) \<and>
        distinct (references (deref ls a)) \<and> (\<forall>r \<in> set (references (deref ls a)). r < nextRef ls)) \<and>
     (\<forall>a. 0 < H a \<longrightarrow> live ls a)"

definition layer_inv :: "holds \<Rightarrow> layerStore \<Rightarrow> bool" where
  "layer_inv H ls \<longleftrightarrow> shape_ok ls \<and> counts_ok H ls"

subsection \<open>Elementary facts\<close>

lemma deref_modify [simp]:
  "a < length (heap ls) \<Longrightarrow> deref (modify a f ls) b = (if b = a then f (deref ls a) else deref ls b)"
  by (auto simp: deref_def modify_def)

lemma modify_fields [simp]:
  "length (heap (modify a f ls)) = length (heap ls)" "layerMap (modify a f ls) = layerMap ls"
  "mounts (modify a f ls) = mounts ls" "nextRef (modify a f ls) = nextRef ls"
  "activityCount (modify a f ls) = activityCount ls" "calls (modify a f ls) = calls ls"
  by (simp_all add: modify_def)

lemma logCall_fields [simp]:
  "heap (logCall c ls) = heap ls" "layerMap (logCall c ls) = layerMap ls"
  "mounts (logCall c ls) = mounts ls" "nextRef (logCall c ls) = nextRef ls"
  "activityCount (logCall c ls) = activityCount ls" "calls (logCall c ls) = calls ls @ [c]"
  by (simp_all add: logCall_def)

text \<open>The invariant reads only the heap, the two maps and the reference counter.\<close>

lemma deref_cong: "heap ls' = heap ls \<Longrightarrow> deref ls' a = deref ls a"
  by (simp add: deref_def)

lemma layer_inv_cong:
  assumes "heap ls' = heap ls" "layerMap ls' = layerMap ls" "mounts ls' = mounts ls" "nextRef ls' = nextRef ls"
  shows "layer_inv H ls' = layer_inv H ls"
proof -
  have d: "deref ls' = deref ls" using assms by (auto simp: deref_def)
  have l: "live ls' = live ls" using assms d by (auto simp: live_def)
  show ?thesis
    using assms by (simp add: layer_inv_def shape_ok_def counts_ok_def nchildren_def nmounts_def d l)
qed

lemma shape_ok_cong:
  assumes "heap ls' = heap ls" "layerMap ls' = layerMap ls" "mounts ls' = mounts ls"
  shows "shape_ok ls' = shape_ok ls"
proof -
  have d: "deref ls' = deref ls" using assms by (auto simp: deref_def)
  have l: "live ls' = live ls" using assms d by (auto simp: live_def)
  show ?thesis by (simp only: shape_ok_def d l assms)
qed

lemma layer_inv_logCall [simp]: "layer_inv H (logCall c ls) = layer_inv H ls"
  by (rule layer_inv_cong) simp_all

lemma layer_inv_activity [simp]: "layer_inv H (ls\<lparr>activityCount := ac\<rparr>) = layer_inv H ls"
  by (rule layer_inv_cong) simp_all

lemma live_logCall [simp]: "live (logCall c ls) a = live ls a"
  by (simp add: live_def deref_def)

lemma deref_logCall [simp]: "deref (logCall c ls) a = deref ls a"
  by (simp add: deref_def)

lemma lookup_live:
  "shape_ok ls \<Longrightarrow> mget (layerMap ls) c = Some a \<Longrightarrow> live ls a \<and> chainID (deref ls a) = c"
  unfolding shape_ok_def by (metis fst_conv map_of_SomeD snd_conv)

lemma live_inj: "live ls a \<Longrightarrow> live ls b \<Longrightarrow> chainID (deref ls a) = chainID (deref ls b) \<Longrightarrow> a = b"
  by (simp add: live_def)

lemma live_bound: "live ls a \<Longrightarrow> a < length (heap ls)"
  by (simp add: live_def)

lemma parent_live:
  "shape_ok ls \<Longrightarrow> live ls a \<Longrightarrow> parent (deref ls a) = Some p \<Longrightarrow> p < a \<and> live ls p"
  by (simp add: shape_ok_def)

lemma mount_parent_live:
  "shape_ok ls \<Longrightarrow> mget (mounts ls) n = Some m \<Longrightarrow> ml_name m = n \<and> (\<forall>p. ml_parent m = Some p \<longrightarrow> live ls p)"
  unfolding shape_ok_def by (metis fst_conv map_of_SomeD snd_conv)

lemma mount_entry:
  "shape_ok ls \<Longrightarrow> e \<in> set (mounts ls) \<Longrightarrow> ml_parent (snd e) = Some p \<Longrightarrow> live ls p"
  unfolding shape_ok_def by blast

lemma inv_shape: "layer_inv H ls \<Longrightarrow> shape_ok ls"
  by (simp add: layer_inv_def)

lemma inv_count:
  "layer_inv H ls \<Longrightarrow> live ls a \<Longrightarrow>
   referenceCount (deref ls a) =
     int (length (references (deref ls a)) + nchildren ls a + nmounts ls a + H a)"
  by (simp add: layer_inv_def counts_ok_def)

lemma inv_refs:
  "layer_inv H ls \<Longrightarrow> live ls a \<Longrightarrow>
   distinct (references (deref ls a)) \<and> (\<forall>r \<in> set (references (deref ls a)). r < nextRef ls)"
  by (simp add: layer_inv_def counts_ok_def)

lemma inv_hold_live: "layer_inv H ls \<Longrightarrow> 0 < H a \<Longrightarrow> live ls a"
  by (simp add: layer_inv_def counts_ok_def)

lemma hold_None [simp]: "hold H None = H"
  by (simp add: hold_def)

lemma hold_Some: "hold H (Some a) = H(a := H a + 1)"
  by (simp add: hold_def)

subsection \<open>One layer's count and references change\<close>

lemma modify_same_shape:
  assumes "a < length (heap ls)" "chainID (f (deref ls a)) = chainID (deref ls a)"
    "parent (f (deref ls a)) = parent (deref ls a)"
  shows "live (modify a f ls) b = live ls b" "shape_ok (modify a f ls) = shape_ok ls"
    "nchildren (modify a f ls) p = nchildren ls p" "nmounts (modify a f ls) p = nmounts ls p"
proof -
  have c: "chainID (deref (modify a f ls) b) = chainID (deref ls b)"
    and p: "parent (deref (modify a f ls) b) = parent (deref ls b)" for b
    using assms by auto
  have l: "live (modify a f ls) b = live ls b" for b by (simp only: live_def c modify_fields)
  show "live (modify a f ls) b = live ls b" by (rule l)
  show "shape_ok (modify a f ls) = shape_ok ls" by (simp only: shape_ok_def l c p modify_fields)
  show "nchildren (modify a f ls) p = nchildren ls p"
    "nmounts (modify a f ls) p = nmounts ls p"
    by (simp_all only: nchildren_def nmounts_def p modify_fields)
qed

lemma modify_inv:
  assumes inv: "layer_inv H ls" and live: "live ls a"
    and keep: "chainID (f (deref ls a)) = chainID (deref ls a)" "parent (f (deref ls a)) = parent (deref ls a)"
    and refs: "distinct (references (f (deref ls a)))" "\<forall>r \<in> set (references (f (deref ls a))). r < nextRef ls"
    and count: "referenceCount (f (deref ls a)) - int (length (references (f (deref ls a)))) - int (H' a) =
                referenceCount (deref ls a) - int (length (references (deref ls a))) - int (H a)"
    and others: "\<And>b. b \<noteq> a \<Longrightarrow> H' b = H b"
  shows "layer_inv H' (modify a f ls)"
proof -
  note s = modify_same_shape [of a ls f, OF live_bound [OF live] keep]
  have "counts_ok H' (modify a f ls)"
    unfolding counts_ok_def s modify_fields
  proof (intro conjI allI impI)
    fix b assume b: "live ls b"
    show "referenceCount (deref (modify a f ls) b) =
        int (length (references (deref (modify a f ls) b)) + nchildren ls b + nmounts ls b + H' b)"
      using count others [of b] inv_count [OF inv b] live_bound [OF live] by (cases "b = a") auto
    show "distinct (references (deref (modify a f ls) b))"
      using refs inv_refs [OF inv b] live_bound [OF live] by simp
    show "\<forall>r \<in> set (references (deref (modify a f ls) b)). r < nextRef ls"
      using refs inv_refs [OF inv b] live_bound [OF live] by simp
  next
    fix b assume "0 < H' b"
    then show "live ls b" using others [of b] inv_hold_live [OF inv, of b] live by (cases "b = a") auto
  qed
  then show ?thesis using inv s by (simp add: layer_inv_def)
qed

lemma nextRef_inv: "layer_inv H ls \<Longrightarrow> nextRef ls \<le> n \<Longrightarrow> layer_inv H (ls\<lparr>nextRef := n\<rparr>)"
proof -
  assume inv: "layer_inv H ls" and n: "nextRef ls \<le> n"
  have same: "deref (ls\<lparr>nextRef := n\<rparr>) = deref ls" "live (ls\<lparr>nextRef := n\<rparr>) = live ls"
    "nchildren (ls\<lparr>nextRef := n\<rparr>) = nchildren ls" "nmounts (ls\<lparr>nextRef := n\<rparr>) = nmounts ls"
    by (auto simp: fun_eq_iff live_def nchildren_def nmounts_def deref_def)
  have "r < n" if "live ls a" "r \<in> set (references (deref ls a))" for a r
    using inv_refs [OF inv that(1)] that(2) n by auto
  then have "counts_ok H (ls\<lparr>nextRef := n\<rparr>)"
    unfolding counts_ok_def same using inv_count [OF inv] inv_refs [OF inv] inv_hold_live [OF inv] by simp
  moreover have "shape_ok (ls\<lparr>nextRef := n\<rparr>) = shape_ok ls" by (simp only: shape_ok_def same) simp
  ultimately show ?thesis using inv by (simp add: layer_inv_def)
qed

lemma retain_inv:
  "layer_inv H ls \<Longrightarrow> live ls a \<Longrightarrow>
   layer_inv (hold H (Some a)) (modify a (\<lambda>rl. rl\<lparr>referenceCount := referenceCount rl + 1\<rparr>) ls)"
  by (rule modify_inv) (auto simp: hold_Some dest: inv_refs)

lemma getReference_inv:
  assumes "layer_inv (hold H (Some a)) ls"
  shows "layer_inv H (fst (getReference ls a))"
proof -
  let ?ls = "ls\<lparr>nextRef := nextRef ls + 1\<rparr>"
  have l: "live ls a" using inv_hold_live [OF assms, of a] by (simp add: hold_Some)
  have inv: "layer_inv (hold H (Some a)) ?ls" using assms by (rule nextRef_inv) simp
  have *: "live ?ls a" "deref ?ls a = deref ls a" using l by (simp_all add: live_def deref_def)
  note refs = inv_refs [OF assms l]
  have eq: "fst (getReference ls a) = modify a (\<lambda>rl. rl\<lparr>references := references rl @ [nextRef ls]\<rparr>) ?ls"
    by (simp add: getReference_def modify_def)
  show ?thesis unfolding eq
    by (rule modify_inv [OF inv *(1)]) (use refs *(2) in \<open>auto simp: hold_Some less_Suc_eq\<close>)
qed

lemma deleteReference_inv:
  assumes "layer_inv H ls" "live ls a" "hasReference ls a r"
  shows "layer_inv (hold H (Some a)) (deleteReference ls a r)"
  unfolding deleteReference_def
proof -
  let ?rs = "references (deref ls a)"
  have r: "r \<in> set ?rs" using assms(3) by (simp add: hasReference_def)
  have d: "distinct ?rs" using inv_refs [OF assms(1,2)] by simp
  have "length (removeAll r ?rs) + 1 = length ?rs"
    using r d length_pos_if_in_set [OF r]
    by (simp add: distinct_remove1_removeAll [symmetric] length_remove1)
  then show "layer_inv (hold H (Some a)) (modify a (\<lambda>rl. rl\<lparr>references := removeAll r (references rl)\<rparr>) ls)"
    using inv_refs [OF assms(1,2)] by (intro modify_inv [OF assms(1,2)]) (auto simp: hold_Some distinct_removeAll)
qed


lemma drop_inv:
  assumes "layer_inv (hold H (Some a)) ls"
  shows "layer_inv H (modify a (\<lambda>rl. rl\<lparr>referenceCount := referenceCount rl - 1\<rparr>) ls)"
proof -
  have l: "live ls a" using inv_hold_live [OF assms, of a] by (simp add: hold_Some)
  then show ?thesis
    using inv_refs [OF assms l] by (intro modify_inv [OF assms l]) (auto simp: hold_Some)
qed

subsection \<open>Layers enter and leave the map\<close>

lemma zero_count:
  assumes "layer_inv H ls" "live ls a" "referenceCount (deref ls a) = 0"
  shows "references (deref ls a) = [] \<and> nchildren ls a = 0 \<and> nmounts ls a = 0 \<and> H a = 0"
proof -
  have "length (references (deref ls a)) + nchildren ls a + nmounts ls a + H a = 0"
    using inv_count [OF assms(1,2)] assms(3) by linarith
  then show ?thesis by simp
qed

lemma child_counted:
  assumes "shape_ok ls" "live ls b" "parent (deref ls b) = Some a"
  shows "0 < nchildren ls a"
proof -
  have "(chainID (deref ls b), b) \<in> set (layerMap ls)"
    using assms(2) by (auto simp: live_def dest: map_of_SomeD)
  then show ?thesis unfolding nchildren_def by (rule mcount_pos) (simp add: assms)
qed

lemma mount_counted:
  assumes "e \<in> set (mounts ls)" "ml_parent (snd e) = Some a"
  shows "0 < nmounts ls a"
  unfolding nmounts_def by (rule mcount_pos [OF assms(1)]) (rule assms(2))

lemma unmap_inv:
  assumes inv: "layer_inv H ls" and live: "live ls a" and zero: "referenceCount (deref ls a) = 0"
  defines "ls' \<equiv> ls\<lparr>layerMap := mdel (chainID (deref ls a)) (layerMap ls)\<rparr>"
  shows "layer_inv (hold H (parent (deref ls a))) ls'"
    and "live ls' b \<longleftrightarrow> live ls b \<and> b \<noteq> a"
proof -
  let ?c = "chainID (deref ls a)"
  note sh = inv_shape [OF inv]
  note z = zero_count [OF inv live zero]
  have d: "deref ls' = deref ls" by (simp add: ls'_def deref_def fun_eq_iff)
  have lm: "layerMap ls' = mdel ?c (layerMap ls)" "heap ls' = heap ls" by (simp_all add: ls'_def)
  have at: "mget (layerMap ls) ?c = Some a" using live by (simp add: live_def)
  have l: "live ls' b \<longleftrightarrow> live ls b \<and> b \<noteq> a" for b
    using at by (auto simp: live_def d lm)
  have wf: "wf_map (layerMap ls)" using sh by (simp add: shape_ok_def)
  have nc: "nchildren ls p = (if parent (deref ls a) = Some p then 1 else 0) + nchildren ls' p" for p
    using mcount_mdel [OF wf at, of "\<lambda>e. parent (deref ls (snd e)) = Some p"]
    by (simp add: nchildren_def d) (simp add: ls'_def)
  have nm: "nmounts ls' p = nmounts ls p" for p by (simp add: nmounts_def ls'_def)
  have "shape_ok ls'"
    unfolding shape_ok_def
  proof (intro conjI ballI allI impI)
    show "wf_map (layerMap ls')" "wf_map (mounts ls')" using sh by (simp_all add: shape_ok_def ls'_def)
  next
    fix e assume "e \<in> set (layerMap ls')"
    then have e: "e \<in> set (layerMap ls)" "fst e \<noteq> ?c" by (simp_all add: ls'_def set_mdel [OF wf])
    then have "live ls (snd e)" "chainID (deref ls (snd e)) = fst e" using sh by (simp_all add: shape_ok_def)
    then show "live ls' (snd e)" "chainID (deref ls' (snd e)) = fst e" using e(2) by (auto simp: l d)
  next
    fix b p assume b: "live ls' b \<and> parent (deref ls' b) = Some p"
    then show "p < b" using parent_live [OF sh, of b p] by (simp add: l d)
    show "live ls' p" using parent_live [OF sh, of b p] child_counted [OF sh, of b p] b z by (auto simp: l d)
  next
    fix e assume e: "e \<in> set (mounts ls')"
    then have e': "e \<in> set (mounts ls)" by (simp add: ls'_def)
    then show "ml_name (snd e) = fst e" using sh by (simp add: shape_ok_def)
    fix p assume "ml_parent (snd e) = Some p"
    then show "live ls' p" using sh e' z mount_counted [OF e', of p] by (auto simp: shape_ok_def l)
  qed
  moreover have "counts_ok (hold H (parent (deref ls a))) ls'"
    unfolding counts_ok_def
  proof (intro conjI allI impI)
    fix b assume "live ls' b"
    then have b: "live ls b" by (simp add: l)
    show "referenceCount (deref ls' b) = int (length (references (deref ls' b)) + nchildren ls' b +
            nmounts ls' b + hold H (parent (deref ls a)) b)"
      using inv_count [OF inv b] nc [of b] by (simp add: d nm hold_def split: option.splits)
    show "distinct (references (deref ls' b))" "\<forall>r \<in> set (references (deref ls' b)). r < nextRef ls'"
      using inv_refs [OF inv b] by (simp_all add: d) (simp add: ls'_def)
  next
    fix b assume "0 < hold H (parent (deref ls a)) b"
    then have "0 < H b \<or> parent (deref ls a) = Some b" by (auto simp: hold_def split: option.splits if_splits)
    then show "live ls' b"
      using inv_hold_live [OF inv, of b] parent_live [OF sh live, of b] z by (auto simp: l)
  qed
  ultimately show "layer_inv (hold H (parent (deref ls a))) ls'" by (simp add: layer_inv_def)
  show "live ls' b \<longleftrightarrow> live ls b \<and> b \<noteq> a" by (rule l)
qed

text \<open>A new layer on top of the heap, under a chain that is not mapped yet.\<close>

lemma map_shape:
  assumes sh: "shape_ok ls" and fresh: "mget (layerMap ls) (chainID layer) = None"
    and hp: "\<And>q. parent layer = Some q \<Longrightarrow> live ls q"
  defines "a \<equiv> length (heap ls)"
  defines "ls' \<equiv> ls\<lparr>heap := heap ls @ [layer], layerMap := mput (chainID layer) a (layerMap ls)\<rparr>"
  shows "shape_ok ls'" "live ls' b \<longleftrightarrow> live ls b \<or> b = a" "b < a \<Longrightarrow> deref ls' b = deref ls b" "deref ls' a = layer"
    "layerMap ls' = layerMap ls @ [(chainID layer, a)]"
proof -
  show da: "deref ls' a = layer" by (simp add: ls'_def deref_def a_def)
  show d: "deref ls' b = deref ls b" if "b < a" for b
    using that by (simp add: ls'_def deref_def a_def nth_append)
  have bound: "b < a" if "live ls b" for b using that by (simp add: live_def a_def)
  have len: "length (heap ls') = Suc a" by (simp add: ls'_def a_def)
  show l: "live ls' b \<longleftrightarrow> live ls b \<or> b = a" for b
  proof (cases "b < a")
    case True
    with fresh show ?thesis by (auto simp: live_def d len a_def [symmetric]) (auto simp: ls'_def split: if_splits)
  next
    case False
    with da show ?thesis by (auto simp: live_def len a_def [symmetric]) (auto simp: ls'_def)
  qed
  have ent: "live ls (snd e)" "chainID (deref ls (snd e)) = fst e" if "e \<in> set (layerMap ls)" for e
    using sh that by (simp_all add: shape_ok_def)
  show lm: "layerMap ls' = layerMap ls @ [(chainID layer, a)]"
    by (simp add: ls'_def mput_fresh [OF fresh])
  show "shape_ok ls'"
    unfolding shape_ok_def
  proof (intro conjI ballI allI impI)
    show "wf_map (layerMap ls')" "wf_map (mounts ls')" using sh by (simp_all add: shape_ok_def ls'_def)
  next
    fix e assume "e \<in> set (layerMap ls')"
    then have "e \<in> set (layerMap ls) \<or> e = (chainID layer, a)" by (auto simp: lm)
    then show "live ls' (snd e)" "chainID (deref ls' (snd e)) = fst e"
      using ent [of e] d [of "snd e"] bound [of "snd e"] by (auto simp: l da)
  next
    fix b q assume b: "live ls' b \<and> parent (deref ls' b) = Some q"
    then show "q < b" "live ls' q"
      using parent_live [OF sh, of b q] hp [of q] bound d da by (auto simp: l)
  next
    fix e assume "e \<in> set (mounts ls')"
    then have e': "e \<in> set (mounts ls)" by (simp add: ls'_def)
    then show "ml_name (snd e) = fst e" using sh by (simp add: shape_ok_def)
    fix q assume "ml_parent (snd e) = Some q"
    then show "live ls' q" using sh e' by (auto simp: shape_ok_def l)
  qed
qed

lemma map_inv:
  assumes inv: "layer_inv (hold H p) ls" and fresh: "mget (layerMap ls) (chainID layer) = None"
    and layer: "parent layer = p" "referenceCount layer = 1" "references layer = []"
  defines "a \<equiv> length (heap ls)"
  defines "ls' \<equiv> ls\<lparr>heap := heap ls @ [layer], layerMap := mput (chainID layer) a (layerMap ls)\<rparr>"
  shows "layer_inv (hold H (Some a)) ls'"
    and "live ls' b \<longleftrightarrow> live ls b \<or> b = a"
    and "b < a \<Longrightarrow> deref ls' b = deref ls b"
proof -
  note sh = inv_shape [OF inv]
  have hp: "live ls q" if "parent layer = Some q" for q
    using that inv_hold_live [OF inv, of q] layer(1) by (simp add: hold_Some)
  note mapped = map_shape [OF sh fresh hp, folded a_def, folded ls'_def]
  have da: "deref ls' a = layer" by (rule mapped(4))
  have lm: "layerMap ls' = layerMap ls @ [(chainID layer, a)]" by (simp add: ls'_def mput_fresh [OF fresh])
  have d: "deref ls' b = deref ls b" if "b < a" for b by (rule mapped(3) [OF _ that])
  have l: "live ls' b \<longleftrightarrow> live ls b \<or> b = a" for b by (rule mapped(2))
  have bound: "b < a" if "live ls b" for b using that by (simp add: live_def a_def)
  have ent: "live ls (snd e)" "chainID (deref ls (snd e)) = fst e" if "e \<in> set (layerMap ls)" for e
    using sh that by (simp_all add: shape_ok_def)
  have nc: "nchildren ls' q = nchildren ls q + (if p = Some q then 1 else 0)" for q
  proof -
    have "mcount (\<lambda>e. parent (deref ls' (snd e)) = Some q) (layerMap ls) = nchildren ls q"
      unfolding nchildren_def by (rule mcount_cong) (simp add: d bound ent)
    then show ?thesis unfolding nchildren_def [of ls'] lm by (simp add: da layer)
  qed
  have nm: "nmounts ls' q = nmounts ls q" for q by (simp add: nmounts_def ls'_def)
  have new: "nchildren ls a = 0" "nmounts ls a = 0"
  proof -
    have "\<not> live ls a" by (simp add: live_def a_def)
    then show "nchildren ls a = 0" "nmounts ls a = 0"
      unfolding nchildren_def nmounts_def mcount_zero_iff
      using ent(1) parent_live [OF sh] mount_entry [OF sh] by blast+
  qed
  have "shape_ok ls'" by (rule mapped(1))
  moreover have "counts_ok (hold H (Some a)) ls'"
    unfolding counts_ok_def
  proof (intro conjI allI impI)
    fix b assume "live ls' b"
    then consider "live ls b" "b < a" | "b = a" using l bound by auto
    then show "referenceCount (deref ls' b) =
        int (length (references (deref ls' b)) + nchildren ls' b + nmounts ls' b + hold H (Some a) b)"
    proof cases
      case 1
      then show ?thesis
        using inv_count [OF inv 1(1)] by (simp add: d nc nm hold_def split: option.splits)
    next
      case 2
      have "\<not> live ls a" using bound by blast
      then have "hold H p a = 0" using inv_hold_live [OF inv, of a] by auto
      then have "H a = 0" "p \<noteq> Some a" by (auto simp: hold_def split: option.splits if_splits)
      with 2 show ?thesis by (simp add: da layer nc nm new hold_Some)
    qed
    have "references (deref ls' b) = [] \<or> live ls b \<and> deref ls' b = deref ls b"
      using \<open>live ls' b\<close> l bound d da layer by auto
    then show "distinct (references (deref ls' b))" "\<forall>r \<in> set (references (deref ls' b)). r < nextRef ls'"
      using inv_refs [OF inv, of b] by (auto simp: ls'_def)
  next
    fix b assume "0 < hold H (Some a) b"
    then have "b = a \<or> 0 < hold H p b" by (auto simp: hold_def split: option.splits if_splits)
    then show "live ls' b" using inv_hold_live [OF inv, of b] by (auto simp: l)
  qed
  ultimately show "layer_inv (hold H (Some a)) ls'" by (simp add: layer_inv_def)
  show "live ls' b \<longleftrightarrow> live ls b \<or> b = a" by (rule l)
  show "b < a \<Longrightarrow> deref ls' b = deref ls b" by (rule d)
qed


subsection \<open>Mounts\<close>

lemma mounts_inv:
  assumes inv: "layer_inv H ls" and wf: "wf_map ms"
    and ent: "\<And>e. e \<in> set ms \<Longrightarrow> e \<in> set (mounts ls) \<or> ml_name (snd e) = fst e \<and> (\<forall>p. ml_parent (snd e) = Some p \<longrightarrow> live ls p)"
    and cnt: "\<And>p. mcount (\<lambda>e. ml_parent (snd e) = Some p) ms + H' p = nmounts ls p + H p"
    and held: "\<And>p. 0 < H' p \<Longrightarrow> live ls p"
  shows "layer_inv H' (ls\<lparr>mounts := ms\<rparr>)"
proof -
  let ?ls = "ls\<lparr>mounts := ms\<rparr>"
  note sh = inv_shape [OF inv]
  have same: "deref ?ls = deref ls" "live ?ls = live ls" "nchildren ?ls = nchildren ls"
    by (auto simp: fun_eq_iff live_def nchildren_def deref_def)
  have nm: "nmounts ?ls p = mcount (\<lambda>e. ml_parent (snd e) = Some p) ms" for p by (simp add: nmounts_def)
  have "counts_ok H' ?ls"
    unfolding counts_ok_def same nm
  proof (intro conjI allI impI)
    fix a assume a: "live ls a"
    show "referenceCount (deref ls a) = int (length (references (deref ls a)) + nchildren ls a +
        mcount (\<lambda>e. ml_parent (snd e) = Some a) ms + H' a)"
      using inv_count [OF inv a] cnt [of a] by (simp add: add.assoc)
    show "distinct (references (deref ls a))" "\<forall>r \<in> set (references (deref ls a)). r < nextRef ?ls"
      using inv_refs [OF inv a] by simp_all
  qed (rule held)
  moreover have "ml_name (snd e) = fst e \<and> (\<forall>p. ml_parent (snd e) = Some p \<longrightarrow> live ls p)"
    if "e \<in> set ms" for e
    using ent [OF that] sh unfolding shape_ok_def by blast
  then have "shape_ok ?ls" using wf sh unfolding shape_ok_def same by simp
  ultimately show ?thesis by (simp add: layer_inv_def)
qed

lemma inv_wf_mounts: "layer_inv H ls \<Longrightarrow> wf_map (mounts ls)"
  by (simp add: layer_inv_def shape_ok_def)

lemma set_mput: "e \<in> set (mput k v m) \<Longrightarrow> e \<in> set m \<or> e = (k, v)"
  by (induction m) (auto split: if_splits)

lemma add_mount_inv:
  assumes inv: "layer_inv (hold H (ml_parent m)) ls" and fresh: "mget (mounts ls) (ml_name m) = None"
  shows "layer_inv H (ls\<lparr>mounts := mput (ml_name m) m (mounts ls)\<rparr>)"
proof (rule mounts_inv [OF inv])
  show "wf_map (mput (ml_name m) m (mounts ls))" using inv_wf_mounts [OF inv] by simp
  have "live ls p" if "ml_parent m = Some p" for p
    using inv_hold_live [OF inv, of p] that by (simp add: hold_Some)
  then show "e \<in> set (mounts ls) \<or> ml_name (snd e) = fst e \<and> (\<forall>p. ml_parent (snd e) = Some p \<longrightarrow> live ls p)"
    if "e \<in> set (mput (ml_name m) m (mounts ls))" for e
    using set_mput [OF that] by auto
  show "mcount (\<lambda>e. ml_parent (snd e) = Some p) (mput (ml_name m) m (mounts ls)) + H p =
      nmounts ls p + hold H (ml_parent m) p" for p
    by (simp add: mcount_mput_fresh [OF fresh] nmounts_def hold_def split: option.splits)
  show "live ls p" if "0 < H p" for p
    by (rule inv_hold_live [OF inv]) (use that in \<open>simp add: hold_def split: option.splits\<close>)
qed

lemma mcount_mput_same:
  assumes "wf_map m" "mget m k = Some v" "P (k, v') = P (k, v)"
  shows "mcount P (mput k v' m) = mcount P m"
  using mcount_mdel [OF assms(1,2), of P] mcount_mdel [of "mput k v' m" k v' P] assms
  by (simp add: delete_update_same)

lemma set_mount_inv:
  assumes inv: "layer_inv H ls" and at: "mget (mounts ls) (ml_name m) = Some m0"
    and same: "ml_parent m = ml_parent m0"
  shows "layer_inv H (ls\<lparr>mounts := mput (ml_name m) m (mounts ls)\<rparr>)"
proof (rule mounts_inv [OF inv])
  show "wf_map (mput (ml_name m) m (mounts ls))" using inv_wf_mounts [OF inv] by simp
  show "e \<in> set (mounts ls) \<or> ml_name (snd e) = fst e \<and> (\<forall>p. ml_parent (snd e) = Some p \<longrightarrow> live ls p)"
    if "e \<in> set (mput (ml_name m) m (mounts ls))" for e
    using set_mput [OF that] same mount_parent_live [OF inv_shape [OF inv] at] by auto
  show "mcount (\<lambda>e. ml_parent (snd e) = Some p) (mput (ml_name m) m (mounts ls)) + H p = nmounts ls p + H p" for p
    using mcount_mput_same [OF inv_wf_mounts [OF inv] at, of "\<lambda>e. ml_parent (snd e) = Some p" m] same
    by (simp add: nmounts_def)
  show "live ls p" if "0 < H p" for p by (rule inv_hold_live [OF inv that])
qed

lemma del_mount_inv:
  assumes inv: "layer_inv H ls" and at: "mget (mounts ls) n = Some m"
  shows "layer_inv (hold H (ml_parent m)) (ls\<lparr>mounts := mdel n (mounts ls)\<rparr>)"
proof (rule mounts_inv [OF inv])
  show "wf_map (mdel n (mounts ls))" using inv_wf_mounts [OF inv] by simp
  show "e \<in> set (mounts ls) \<or> ml_name (snd e) = fst e \<and> (\<forall>p. ml_parent (snd e) = Some p \<longrightarrow> live ls p)"
    if "e \<in> set (mdel n (mounts ls))" for e
    using that by (simp add: set_mdel [OF inv_wf_mounts [OF inv]])
  show "mcount (\<lambda>e. ml_parent (snd e) = Some p) (mdel n (mounts ls)) + hold H (ml_parent m) p =
      nmounts ls p + H p" for p
    using mcount_mdel [OF inv_wf_mounts [OF inv] at, of "\<lambda>e. ml_parent (snd e) = Some p"]
    by (simp add: nmounts_def hold_def split: option.splits)
  show "live ls p" if "0 < hold H (ml_parent m) p" for p
    using that inv_hold_live [OF inv, of p] mount_parent_live [OF inv_shape [OF inv] at]
    by (auto simp: hold_def split: option.splits if_splits)
qed

subsection \<open>Following parent pointers ends\<close>

lemma depth_total:
  assumes "shape_ok ls" "live ls a"
  shows "\<exists>d. depth ls a = Some d \<and> 0 < d"
  using assms(2)
proof (induction a rule: less_induct)
  case (less a)
  show ?case
  proof (cases "parent (deref ls a)")
    case None
    then show ?thesis by (simp add: depth.simps [of ls a])
  next
    case (Some p)
    with less parent_live [OF assms(1) less.prems Some] obtain d where "depth ls p = Some d" by blast
    with Some show ?thesis by (simp add: depth.simps [of ls a])
  qed
qed

lemma layerSize_total:
  assumes "shape_ok ls" "live ls a"
  shows "\<exists>s. layerSize ls a = Some s"
  using assms(2)
proof (induction a rule: less_induct)
  case (less a)
  show ?case
  proof (cases "parent (deref ls a)")
    case None
    then show ?thesis by (simp add: layerSize.simps [of ls a])
  next
    case (Some p)
    with less parent_live [OF assms(1) less.prems Some] obtain s where "layerSize ls p = Some s" by blast
    with Some show ?thesis by (simp add: layerSize.simps [of ls a])
  qed
qed


subsection \<open>What an operation leaves alone\<close>

text \<open>
  The identity of a layer is written once; \<open>frozen\<close> says so from one state to a later one.  A
  release moreover keeps the references, the mounts and the reference counter.
\<close>

definition identity :: "roLayer \<Rightarrow> chain_id \<times> diff_id \<times> addr option \<times> string \<times> int64" where
  "identity rl = (chainID rl, diffID rl, parent rl, cacheID rl, ro_size rl)"

definition frozen :: "layerStore \<Rightarrow> layerStore \<Rightarrow> bool" where
  "frozen ls ls' \<longleftrightarrow> length (heap ls) \<le> length (heap ls') \<and>
     (\<forall>b < length (heap ls). identity (deref ls' b) = identity (deref ls b))"

definition release_frame :: "layerStore \<Rightarrow> layerStore \<Rightarrow> bool" where
  "release_frame ls ls' \<longleftrightarrow> frozen ls ls' \<and> length (heap ls') = length (heap ls) \<and>
     (\<forall>b < length (heap ls). references (deref ls' b) = references (deref ls b)) \<and>
     mounts ls' = mounts ls \<and> nextRef ls' = nextRef ls \<and> activityCount ls' = activityCount ls \<and>
     (\<forall>b. live ls' b \<longrightarrow> live ls b) \<and>
     (\<forall>b. live ls b \<longrightarrow> live ls' b \<or> references (deref ls b) = [])"

lemma frozen_refl [simp]: "frozen ls ls"
  by (simp add: frozen_def)

lemma frozen_trans: "frozen a b \<Longrightarrow> frozen b c \<Longrightarrow> frozen a c"
  by (auto simp: frozen_def)

lemma release_frame_trans:
  assumes "release_frame a b" "release_frame b c"
  shows "release_frame a c"
proof -
  have "live c x \<or> references (deref a x) = []" if "live a x" for x
    using that live_bound [OF that] assms unfolding release_frame_def by metis
  then show ?thesis
    using assms frozen_trans [of a b c] unfolding release_frame_def by auto
qed

lemma release_frame_modify:
  assumes "a < length (heap ls)" "identity (f (deref ls a)) = identity (deref ls a)"
    "references (f (deref ls a)) = references (deref ls a)"
  shows "release_frame ls (modify a f ls)"
proof -
  have "live (modify a f ls) b = live ls b" for b
    by (rule modify_same_shape) (use assms in \<open>simp_all add: identity_def\<close>)
  then show ?thesis using assms by (simp add: release_frame_def frozen_def)
qed

lemma frozen_modify:
  "a < length (heap ls) \<Longrightarrow> identity (f (deref ls a)) = identity (deref ls a) \<Longrightarrow> frozen ls (modify a f ls)"
  by (simp add: frozen_def)

lemma frozen_parent:
  "frozen ls ls' \<Longrightarrow> b < length (heap ls) \<Longrightarrow>
   parent (deref ls' b) = parent (deref ls b) \<and> chainID (deref ls' b) = chainID (deref ls b)"
  by (auto simp: frozen_def identity_def)

subsection \<open>Releasing a layer\<close>

lemma deleteLayer_result:
  assumes "shape_ok ls" "live ls a"
  shows "\<exists>cs res. deleteLayer io ls a = Some (ls\<lparr>calls := cs\<rparr>, res) \<and>
     (\<forall>md. res = Inr md \<longrightarrow> md_chainID md = chainID (deref ls a))"
proof -
  let ?ls = "logCall (StoreRemove (chainID (deref ls a))) (logCall (DriverRemove (cacheID (deref ls a))) ls)"
  have "shape_ok ?ls = shape_ok ls" by (rule shape_ok_cong) simp_all
  then obtain sz where "layerSize ?ls a = Some sz" using layerSize_total [of ?ls a] assms by auto
  moreover have "logCall c s = s\<lparr>calls := calls s @ [c]\<rparr>" for c s by (simp add: logCall_def)
  ultimately show ?thesis
    by (auto simp: deleteLayer_def Let_def split: option.splits) (auto simp: logCall_def)
qed

lemma layer_inv_calls [simp]: "layer_inv H (ls\<lparr>calls := cs\<rparr>) = layer_inv H ls"
  by (rule layer_inv_cong) simp_all

lemma deref_calls [simp]: "deref (ls\<lparr>calls := cs\<rparr>) = deref ls"
  by (simp add: deref_def fun_eq_iff)

lemma live_calls [simp]: "live (ls\<lparr>calls := cs\<rparr>) = live ls"
  by (simp add: live_def fun_eq_iff)

definition removed_exactly :: "layerStore \<Rightarrow> layerStore \<Rightarrow> metadata list \<Rightarrow> bool" where
  "removed_exactly ls ls' mds \<longleftrightarrow>
     (\<forall>b. live ls b \<longrightarrow> (live ls' b \<longleftrightarrow> chainID (deref ls b) \<notin> md_chainID ` set mds))"

lemma removed_exactly_Cons:
  assumes "removed_exactly ls ls1 [m]" "removed_exactly ls1 ls2 ms" "release_frame ls ls1" "release_frame ls1 ls2"
  shows "removed_exactly ls ls2 (m # ms)"
  unfolding removed_exactly_def
proof (intro allI impI)
  fix b assume b: "live ls b"
  then have "chainID (deref ls1 b) = chainID (deref ls b)"
    using assms(3) live_bound [OF b] frozen_parent by (auto simp: release_frame_def)
  moreover have "live ls1 b \<longleftrightarrow> chainID (deref ls b) \<noteq> md_chainID m"
    using assms(1) b by (simp add: removed_exactly_def)
  moreover have "live ls1 b \<Longrightarrow> live ls2 b \<longleftrightarrow> chainID (deref ls1 b) \<notin> md_chainID ` set ms"
    using assms(2) by (simp add: removed_exactly_def)
  moreover have "live ls2 b \<Longrightarrow> live ls1 b" using assms(4) by (simp add: release_frame_def)
  ultimately show "live ls2 b \<longleftrightarrow> chainID (deref ls b) \<notin> md_chainID ` set (m # ms)" by auto
qed

lemma releaseLoop_ok:
  assumes "layer_inv (hold H (Some a)) ls" "0 < dep \<longrightarrow> removed \<noteq> []"
  shows "\<exists>ls' out. releaseLoop io ls a dep removed = Some (ls', out) \<and> no_panic out \<and>
     layer_inv H ls' \<and> release_frame ls ls' \<and>
     (\<forall>mds. out = Done mds \<longrightarrow> (\<exists>new. mds = removed @ new \<and> removed_exactly ls ls' new))"
  using assms
proof (induction a arbitrary: H ls dep removed rule: less_induct)
  case (less a)
  note inv = less.prems(1)
  define ls1 where "ls1 = modify a (\<lambda>rl. rl\<lparr>referenceCount := referenceCount rl - 1\<rparr>) ls"
  have live: "live ls a" using inv_hold_live [OF inv, of a] by (simp add: hold_Some)
  have pos: "referenceCount (deref ls a) > 0" using inv_count [OF inv live] by (simp add: hold_Some)
  have inv1: "layer_inv H ls1" unfolding ls1_def by (rule drop_inv [OF inv])
  have live1: "live ls1 b = live ls b" for b
    unfolding ls1_def by (rule modify_same_shape) (use live in \<open>simp_all add: live_def\<close>)
  have fr1: "release_frame ls ls1"
    unfolding ls1_def by (rule release_frame_modify) (use live in \<open>simp_all add: live_def identity_def\<close>)
  have step: "releaseLoop io ls a dep removed =
     (if referenceCount (deref ls1 a) \<noteq> 0 then Some (ls1, Done removed)
      else if hasReferences ls1 a then Some (ls1, Panicked ''cannot delete referenced layer'')
      else
        Option.bind (deleteLayer io ls1 a) (\<lambda>res. case res of
          (ls2, Inl e) \<Rightarrow> Some (ls2, Failed e)
        | (ls2, Inr md) \<Rightarrow>
            (let ls3 = ls2\<lparr>layerMap := mdel (chainID (deref ls2 a)) (layerMap ls2)\<rparr> in
             case parent (deref ls3 a) of
               None \<Rightarrow> Some (ls3, Done (removed @ [md]))
             | Some p \<Rightarrow> releaseLoop io ls3 p (dep + 1) (removed @ [md]))))"
  proof -
    have np: "(removed = [] \<and> 0 < dep) = False" using less.prems(2) by auto
    show ?thesis using pos by (subst releaseLoop.simps) (simp add: Let_def ls1_def np)
  qed
  show ?case
  proof (cases "referenceCount (deref ls1 a) = 0")
    case False
    then show ?thesis using inv1 fr1 live1 by (simp add: step removed_exactly_def)
  next
    case True
    have la: "live ls1 a" using live live1 by simp
    have refs: "\<not> hasReferences ls1 a" using zero_count [OF inv1 la True] by (simp add: hasReferences_def)
    obtain cs res where del: "deleteLayer io ls1 a = Some (ls1\<lparr>calls := cs\<rparr>, res)"
      and md: "\<forall>md. res = Inr md \<longrightarrow> md_chainID md = chainID (deref ls1 a)"
      using deleteLayer_result [OF inv_shape [OF inv1] la, of io] by auto
    show ?thesis
    proof (cases res)
      case (Inl e)
      have "release_frame ls1 (ls1\<lparr>calls := cs\<rparr>)" by (simp add: release_frame_def frozen_def)
      then have "release_frame ls (ls1\<lparr>calls := cs\<rparr>)" by (rule release_frame_trans [OF fr1])
      then show ?thesis using Inl True refs del inv1 by (simp add: step)
    next
      case (Inr m)
      define ls3 where "ls3 = ls1\<lparr>calls := cs, layerMap := mdel (chainID (deref ls1 a)) (layerMap ls1)\<rparr>"
      have u: "layer_inv (hold H (parent (deref ls1 a))) ls3"
        and l3: "live ls3 b \<longleftrightarrow> live ls b \<and> b \<noteq> a" for b
        using unmap_inv [of H "ls1\<lparr>calls := cs\<rparr>" a] inv1 la live1 True by (simp_all add: ls3_def)
      have d3: "deref ls3 = deref ls1" by (simp add: deref_def fun_eq_iff ls3_def)
      have refs0: "references (deref ls a) = []"
        using refs live by (simp add: hasReferences_def ls1_def live_def)
      have fr3: "release_frame ls ls3"
        using fr1 l3 refs0 by (simp add: release_frame_def frozen_def d3) (simp add: ls3_def)
      have one: "removed_exactly ls ls3 [m]"
        unfolding removed_exactly_def l3
      proof (intro allI impI)
        fix b assume b: "live ls b"
        have "md_chainID m = chainID (deref ls a)"
          using md Inr live by (simp add: ls1_def live_def)
        then show "live ls b \<and> b \<noteq> a \<longleftrightarrow> chainID (deref ls b) \<notin> md_chainID ` set [m]"
          using live_inj [OF b live] b by auto
      qed
      have step3: "releaseLoop io ls a dep removed =
          (case parent (deref ls1 a) of None \<Rightarrow> Some (ls3, Done (removed @ [m]))
           | Some p \<Rightarrow> releaseLoop io ls3 p (dep + 1) (removed @ [m]))"
        using True refs del Inr d3 by (simp add: step Let_def ls3_def split: option.split)
      show ?thesis
      proof (cases "parent (deref ls1 a)")
        case None
        then show ?thesis using step3 u fr3 one by simp
      next
        case (Some p)
        have "p < a" using parent_live [OF inv_shape [OF inv1] la Some] by simp
        moreover have "layer_inv (hold H (Some p)) ls3" using u Some by simp
        ultimately obtain ls' out where r:
          "releaseLoop io ls3 p (dep + 1) (removed @ [m]) = Some (ls', out)" "no_panic out"
          "layer_inv H ls'" "release_frame ls3 ls'"
          "\<forall>mds. out = Done mds \<longrightarrow> (\<exists>new. mds = (removed @ [m]) @ new \<and> removed_exactly ls3 ls' new)"
          using less.IH [of p H ls3 "dep + 1" "removed @ [m]"] by auto
        have "removed_exactly ls ls' (m # new)" if "removed_exactly ls3 ls' new" for new
          using one that fr3 r(4) by (rule removed_exactly_Cons)
        then have "\<forall>mds. out = Done mds \<longrightarrow> (\<exists>new. mds = removed @ new \<and> removed_exactly ls ls' new)"
          using r(5) by (metis append.assoc append_Cons append_Nil)
        then show ?thesis
          using step3 Some r(1-3) release_frame_trans [OF fr3 r(4)] by simp
      qed
    qed
  qed
qed

lemma releaseLayer_ok:
  assumes "layer_inv (hold H (Some a)) ls"
  shows "\<exists>ls' out. releaseLayer io ls a = Some (ls', out) \<and> no_panic out \<and> layer_inv H ls' \<and>
     release_frame ls ls' \<and> (\<forall>mds. out = Done mds \<longrightarrow> removed_exactly ls ls' mds)"
  using releaseLoop_ok [OF assms, of 0 "[]" io] by (auto simp: releaseLayer_def)


subsection \<open>The operations\<close>

text \<open>
  From one state to the next: identities are frozen, a layer that is dead stays dead and gets no
  references, and a layer dies only without references.
\<close>

definition step_frame :: "layerStore \<Rightarrow> layerStore \<Rightarrow> bool" where
  "step_frame ls ls' \<longleftrightarrow> frozen ls ls' \<and> nextRef ls \<le> nextRef ls' \<and>
     (\<forall>b < length (heap ls). live ls b \<or> \<not> live ls' b \<and> references (deref ls' b) = references (deref ls b)) \<and>
     (\<forall>b. live ls b \<longrightarrow> live ls' b \<or> references (deref ls' b) = [])"

lemma step_frame_refl [simp]: "step_frame ls ls"
  by (simp add: step_frame_def)

lemma step_frame_trans:
  assumes "step_frame a b" "step_frame b c"
  shows "step_frame a c"
proof -
  have len: "length (heap a) \<le> length (heap b)" using assms(1) by (simp add: step_frame_def frozen_def)
  have "live a x \<or> \<not> live c x \<and> references (deref c x) = references (deref a x)" if "x < length (heap a)" for x
    using that len assms unfolding step_frame_def by (metis less_le_trans)
  moreover have "live c x \<or> references (deref c x) = []" if "live a x" for x
    using live_bound [OF that] that len assms unfolding step_frame_def by (metis less_le_trans)
  ultimately show ?thesis
    using assms frozen_trans unfolding step_frame_def by (meson le_trans)
qed

lemma step_frame_logCall [simp]: "step_frame ls (logCall c ls') = step_frame ls ls'"
  by (simp add: step_frame_def frozen_def)

lemma step_frame_other:
  assumes "heap ls' = heap ls" "layerMap ls' = layerMap ls" "nextRef ls \<le> nextRef ls'"
  shows "step_frame ls ls'"
proof -
  have d: "deref ls' = deref ls" using assms by (auto simp: deref_def)
  have l: "live ls' = live ls" using assms d by (auto simp: live_def)
  show ?thesis using assms by (simp add: step_frame_def frozen_def d l)
qed

lemma step_frame_release:
  assumes "release_frame ls ls'"
  shows "step_frame ls ls'"
proof -
  have "live ls' b \<or> references (deref ls' b) = []" if "live ls b" for b
    using that live_bound [OF that] assms unfolding release_frame_def by metis
  then show ?thesis using assms unfolding step_frame_def release_frame_def by auto
qed

lemma step_frame_modify:
  assumes "live ls a" "identity (f (deref ls a)) = identity (deref ls a)"
  shows "step_frame ls (modify a f ls)"
proof -
  have l: "live (modify a f ls) b = live ls b" for b
    by (rule modify_same_shape) (use assms in \<open>simp_all add: identity_def live_def\<close>)
  have "frozen ls (modify a f ls)" by (rule frozen_modify) (use assms in \<open>simp_all add: live_def\<close>)
  then show ?thesis using live_bound [OF assms(1)] assms(1) unfolding step_frame_def l by auto
qed

lemma getWithoutLock_ok:
  assumes "layer_inv H ls"
  shows "case getWithoutLock ls c of
      (ls1, None) \<Rightarrow> ls1 = ls \<and> mget (layerMap ls) c = None
    | (ls1, Some a) \<Rightarrow> layer_inv (hold H (Some a)) ls1 \<and> step_frame ls ls1 \<and> live ls1 a \<and>
        mget (layerMap ls) c = Some a \<and> mounts ls1 = mounts ls"
proof (cases "mget (layerMap ls) c")
  case None
  then show ?thesis by (simp add: getWithoutLock_def)
next
  case (Some a)
  then have a: "live ls a" using lookup_live [OF inv_shape [OF assms]] by simp
  let ?inc = "\<lambda>rl. rl\<lparr>referenceCount := referenceCount rl + 1\<rparr>"
  have "live (modify a ?inc ls) a" using modify_same_shape(1) [of a ls ?inc a] a live_bound [OF a] by simp
  moreover have "step_frame ls (modify a ?inc ls)"
    by (rule step_frame_modify [OF a]) (simp add: identity_def)
  ultimately show ?thesis
    using Some retain_inv [OF assms a] by (simp add: getWithoutLock_def)
qed

lemma getReference_frame:
  assumes "live ls a"
  shows "step_frame ls (fst (getReference ls a))"
proof -
  let ?f = "\<lambda>rl. rl\<lparr>references := references rl @ [nextRef ls]\<rparr>"
  have "step_frame ls (modify a ?f ls)" by (rule step_frame_modify [OF assms]) (simp add: identity_def)
  moreover have "step_frame (modify a ?f ls) (fst (getReference ls a))"
    by (rule step_frame_other) (simp_all add: getReference_def)
  ultimately show ?thesis by (rule step_frame_trans)
qed

lemma held_live: "layer_inv (hold H (Some a)) ls \<Longrightarrow> live ls a"
  using inv_hold_live [of "hold H (Some a)" ls a] by (simp add: hold_Some)

lemma Get_ok:
  assumes "layer_inv H ls"
  shows "layer_inv H (fst (Get ls c)) \<and> step_frame ls (fst (Get ls c))"
proof (cases "getWithoutLock ls c")
  case (Pair ls1 r)
  show ?thesis
  proof (cases r)
    case None
    then show ?thesis using assms Pair getWithoutLock_ok [OF assms, of c] by (simp add: Get_def)
  next
    case (Some a)
    then have 1: "layer_inv (hold H (Some a)) ls1" "step_frame ls ls1"
      using Pair getWithoutLock_ok [OF assms, of c] by simp_all
    from getReference_inv [OF 1(1)] step_frame_trans [OF 1(2) getReference_frame [OF held_live [OF 1(1)]]]
    show ?thesis using Pair Some by (auto simp: Get_def split: prod.split)
  qed
qed


definition op_ok :: "holds \<Rightarrow> layerStore \<Rightarrow> (layerStore \<times> (layer_error, 'a) outcome) option \<Rightarrow> bool" where
  "op_ok H ls res \<longleftrightarrow>
     (\<exists>ls' out. res = Some (ls', out) \<and> no_panic out \<and> layer_inv H ls' \<and> step_frame ls ls')"

lemma op_okI: "layer_inv H ls' \<Longrightarrow> step_frame ls ls' \<Longrightarrow> no_panic out \<Longrightarrow> op_ok H ls (Some (ls', out))"
  by (simp add: op_ok_def)

lemma op_ok_after: "step_frame ls ls1 \<Longrightarrow> op_ok H ls1 res \<Longrightarrow> op_ok H ls res"
  by (auto simp: op_ok_def intro: step_frame_trans)

lemma releaseLayer_op_ok: "layer_inv (hold H (Some a)) ls \<Longrightarrow> op_ok H ls (releaseLayer io ls a)"
  using releaseLayer_ok [of H a ls io] step_frame_release by (auto simp: op_ok_def)

lemma Release_ok:
  assumes "layer_inv H ls"
  shows "op_ok H ls (Release io ls l)"
proof (cases "mget (layerMap ls) (chainID (deref ls (snd l)))")
  case None
  then show ?thesis using assms by (simp add: Release_def op_okI)
next
  case (Some a)
  then have a: "live ls a" using lookup_live [OF inv_shape [OF assms]] by simp
  show ?thesis
  proof (cases "hasReference ls a (fst l)")
    case True
    have "step_frame ls (deleteReference ls a (fst l))"
      unfolding deleteReference_def by (rule step_frame_modify [OF a]) (simp add: identity_def)
    then show ?thesis
      using Some True releaseLayer_op_ok [OF deleteReference_inv [OF assms a True]]
      by (simp add: Release_def op_ok_after)
  next
    case False
    then show ?thesis using Some assms by (simp add: Release_def op_okI)
  qed
qed

lemma releaseParentOnError_ok:
  assumes "layer_inv (hold H (if err then p else None)) ls'" "step_frame ls ls'" "no_panic out"
  shows "op_ok H ls (releaseParentOnError io p err (ls', out))"
proof (cases "p = None \<or> \<not> err")
  case True
  then have "releaseParentOnError io p err (ls', out) = Some (ls', out)"
    by (auto simp: releaseParentOnError_def split: option.split)
  moreover have "layer_inv H ls'" using assms(1) True by (cases err) auto
  ultimately show ?thesis using assms by (simp add: op_okI)
next
  case False
  then obtain a where a: "p = Some a" and err by auto
  then obtain ls'' out' where r: "releaseLayer io ls' a = Some (ls'', out')" "no_panic out'"
    "layer_inv H ls''" "step_frame ls' ls''"
    using releaseLayer_op_ok [of H a ls' io] assms(1) by (auto simp: op_ok_def)
  then have "releaseParentOnError io p err (ls', out) = Some (ls'', out)"
    using a \<open>err\<close> by (cases out') (auto simp: releaseParentOnError_def)
  then show ?thesis using r assms step_frame_trans by (auto intro: op_okI)
qed

definition body_ok ::
  "holds \<Rightarrow> addr option \<Rightarrow> layerStore \<Rightarrow> bool \<times> layerStore \<times> (layer_error, 'a) outcome \<Rightarrow> bool" where
  "body_ok H p ls res \<longleftrightarrow>
     (case res of (err, ls', out) \<Rightarrow>
        layer_inv (hold H (if err then p else None)) ls' \<and> step_frame ls ls' \<and> no_panic out)"

lemma body_then_release:
  assumes "body_ok H p ls res"
  shows "op_ok H ls (case res of (err, ls', out) \<Rightarrow> releaseParentOnError io p err (ls', out))"
  using assms by (cases res) (auto simp: body_ok_def intro: releaseParentOnError_ok)

lemma body_error: "layer_inv (hold H p) ls' \<Longrightarrow> step_frame ls ls' \<Longrightarrow> body_ok H p ls (True, ls', Failed e)"
  by (simp add: body_ok_def)

lemma map_frame:
  assumes "layer_inv (hold H (parent layer)) ls" "mget (layerMap ls) (chainID layer) = None"
    "referenceCount layer = 1" "references layer = []"
  shows "step_frame ls (ls\<lparr>heap := heap ls @ [layer],
     layerMap := mput (chainID layer) (length (heap ls)) (layerMap ls)\<rparr>)"
proof -
  define ls' where "ls' = ls\<lparr>heap := heap ls @ [layer],
     layerMap := mput (chainID layer) (length (heap ls)) (layerMap ls)\<rparr>"
  have l: "live ls' b \<longleftrightarrow> live ls b \<or> b = length (heap ls)"
    and d: "b < length (heap ls) \<Longrightarrow> deref ls' b = deref ls b" for b
    unfolding ls'_def by (rule map_inv [OF assms(1,2) refl assms(3,4)], assumption?)+
  have "frozen ls ls'" using d by (simp add: frozen_def) (simp add: ls'_def)
  then show ?thesis unfolding ls'_def [symmetric] step_frame_def l using d by (auto simp: ls'_def)
qed

lemma registerNew_ok:
  assumes inv: "layer_inv (hold H p) ls" and fresh: "mget (layerMap ls) (chainID layer) = None"
    and layer: "parent layer = p" "referenceCount layer = 1" "references layer = []"
  defines "a \<equiv> length (heap ls)"
  defines "ls' \<equiv> ls\<lparr>heap := heap ls @ [layer], layerMap := mput (chainID layer) a (layerMap ls)\<rparr>"
  shows "layer_inv H (fst (getReference ls' a)) \<and> step_frame ls (fst (getReference ls' a))"
proof -
  have inv': "layer_inv (hold H (Some a)) ls'"
    unfolding ls'_def a_def by (rule map_inv(1) [OF inv fresh layer])
  have "step_frame ls ls'"
    unfolding ls'_def a_def by (rule map_frame) (use inv fresh layer in simp_all)
  then show ?thesis
    using getReference_inv [OF inv'] step_frame_trans [OF _ getReference_frame [OF held_live [OF inv']]]
    by blast
qed

lemma registerCommit_ok:
  assumes inv: "layer_inv (hold H (parent layer)) ls"
    and layer: "referenceCount layer = 1" "references layer = []"
  shows "body_ok H (parent layer) ls (registerCommit io ls layer)"
proof (cases "getWithoutLock ls (chainID layer)")
  case (Pair ls1 found)
  show ?thesis
  proof (cases found)
    case None
    then have ls1: "ls1 = ls" "mget (layerMap ls) (chainID layer) = None"
      using getWithoutLock_ok [OF inv, of "chainID layer"] Pair by simp_all
    let ?ls2 = "logCall (TxCommit (chainID layer)) ls"
    let ?ls3 = "?ls2\<lparr>heap := heap ?ls2 @ [layer], layerMap := mput (chainID layer) (length (heap ?ls2)) (layerMap ?ls2)\<rparr>"
    have new: "layer_inv H (fst (getReference ?ls3 (length (heap ?ls2)))) \<and>
        step_frame ?ls2 (fst (getReference ?ls3 (length (heap ?ls2))))"
      by (rule registerNew_ok) (use inv ls1 layer in simp_all)
    then have "step_frame ls (fst (getReference ?ls3 (length (heap ?ls2))))"
      using step_frame_trans [of ls ?ls2] by simp
    with new show ?thesis
      using Pair None ls1 inv
      by (auto simp: registerCommit_def Let_def body_ok_def split: option.split prod.split)
  next
    case (Some a)
    have g: "layer_inv (hold (hold H (parent layer)) (Some a)) ls1" "step_frame ls ls1"
      using getWithoutLock_ok [OF inv, of "chainID layer"] Pair Some by simp_all
    from getReference_inv [OF g(1)] step_frame_trans [OF g(2) getReference_frame [OF held_live [OF g(1)]]]
    show ?thesis using Pair Some by (auto simp: registerCommit_def body_ok_def split: prod.split)
  qed
qed

lemma registerTx_ok:
  assumes "layer_inv (hold H p) ls"
  shows "body_ok H p ls (registerTx io hash cid ls p)"
proof -
  have "body_ok H p ls (registerCommit io ls layer)"
    if "parent layer = p" "referenceCount layer = 1" "references layer = []" for layer
    using registerCommit_ok [of H layer ls io] assms that by simp
  then show ?thesis
    using assms by (simp add: registerTx_def Let_def body_error split: sum.split option.split prod.split)
qed

lemma body_ok_cleanup:
  assumes "body_ok H p ls (err, ls', out)"
  shows "body_ok H p ls (err, if err then registerCleanup cid ls' else ls', out)"
  using assms by (cases err) (simp_all add: body_ok_def registerCleanup_def)

lemma body_ok_before: "step_frame ls ls1 \<Longrightarrow> body_ok H p ls1 res \<Longrightarrow> body_ok H p ls res"
  by (auto simp: body_ok_def split: prod.splits intro: step_frame_trans)

lemma registerBody_ok:
  assumes inv: "layer_inv (hold H p) ls"
  shows "body_ok H p ls (registerBody io hash cid ls p)"
proof -
  define ls2 where "ls2 = logCall TxStart (logCall (DriverCreate cid (case p of None \<Rightarrow> [] | Some a \<Rightarrow> cacheID (deref ls a))) ls)"
  have 2: "layer_inv (hold H p) ls2" "step_frame ls ls2" using inv by (simp_all add: ls2_def)
  have "body_ok H p ls (registerTx io hash cid ls2 p)"
    by (rule body_ok_before [OF 2(2)]) (rule registerTx_ok [OF 2(1)])
  then have "body_ok H p ls (case registerTx io hash cid ls2 p of
      (err, ls', out) \<Rightarrow> (err, if err then registerCleanup cid ls' else ls', out))"
    by (cases "registerTx io hash cid ls2 p") (simp only: prod.case body_ok_cleanup)
  then show ?thesis
    using inv 2 unfolding registerBody_def Let_def ls2_def [symmetric]
    by (simp add: body_error split: option.split)
qed

lemma Register_ok:
  assumes inv: "layer_inv H ls"
  shows "op_ok H ls (Register io hash cid ls par)"
proof (cases "par = []")
  case True
  then show ?thesis
    using body_then_release [OF registerBody_ok [of H None ls io hash cid], of io] inv
    by (simp add: Register_def)
next
  case False
  show ?thesis
  proof (cases "getWithoutLock ls par")
    case (Pair ls1 found)
    show ?thesis
    proof (cases found)
      case None
      then show ?thesis
        using False Pair inv getWithoutLock_ok [OF inv, of par] by (simp add: Register_def op_okI)
    next
      case (Some p)
      have g: "layer_inv (hold H (Some p)) ls1" "step_frame ls ls1"
        using getWithoutLock_ok [OF inv, of par] Pair Some by simp_all
      obtain d where d: "depth ls1 p = Some d"
        using depth_total [OF inv_shape [OF g(1)] held_live [OF g(1)]] by blast
      have "op_ok H ls (releaseParentOnError io (Some p) True
          (ls1, Failed ErrMaxDepthExceeded :: (layer_error, ref_id \<times> addr) outcome))"
        by (rule releaseParentOnError_ok) (use g in simp_all)
      moreover note op_ok_after [OF g(2) body_then_release [OF registerBody_ok [OF g(1), of io hash cid], of io]]
      ultimately show ?thesis
        using False Pair Some d by (simp add: Register_def)
    qed
  qed
qed

subsection \<open>Writable layers\<close>

lemma getRWReference_ok:
  assumes inv: "layer_inv H ls" and at: "mget (mounts ls) (ml_name m) = Some m"
  shows "layer_inv H (fst (getRWReference ls m)) \<and> step_frame ls (fst (getRWReference ls m))"
proof -
  let ?m = "m\<lparr>ml_references := ml_references m @ [nextRef ls]\<rparr>"
  let ?ls = "ls\<lparr>mounts := mput (ml_name ?m) ?m (mounts ls)\<rparr>"
  have i: "layer_inv H ?ls" by (rule set_mount_inv [OF inv]) (use at in simp_all)
  have "layer_inv H (?ls\<lparr>nextRef := nextRef ls + 1\<rparr>)" by (rule nextRef_inv [OF i]) simp
  moreover have "layer_inv H (fst (getRWReference ls m)) = layer_inv H (?ls\<lparr>nextRef := nextRef ls + 1\<rparr>)"
    by (rule layer_inv_cong) (simp_all add: getRWReference_def Let_def)
  moreover have "step_frame ls (fst (getRWReference ls m))"
    by (rule step_frame_other) (simp_all add: getRWReference_def Let_def)
  ultimately show ?thesis by simp
qed

lemma initMount_ok:
  "layer_inv H (fst (initMount io ls g par)) = layer_inv H ls"
  "step_frame ls (fst (initMount io ls g par))"
  "mounts (fst (initMount io ls g par)) = mounts ls"
  by (auto simp: initMount_def Let_def split: option.split sum.split)

lemma saveMount_ok:
  assumes "layer_inv (hold H (ml_parent m)) ls" "mget (mounts ls) (ml_name m) = None"
  shows "case saveMount io ls m of
      (ls', Some e) \<Rightarrow> ls' = ls
    | (ls', None) \<Rightarrow> layer_inv H ls' \<and> step_frame ls ls' \<and> mget (mounts ls') (ml_name m) = Some m"
proof -
  have "step_frame ls (ls\<lparr>mounts := mput (ml_name m) m (mounts ls)\<rparr>)" by (rule step_frame_other) simp_all
  then show ?thesis
    using add_mount_inv [OF assms] by (auto simp: saveMount_def split: option.split)
qed


lemma createRWBody_ok:
  assumes inv: "layer_inv (hold H p) ls" and fresh: "mget (mounts ls) name = None"
  shows "body_ok H p ls (createRWBody io withInit mid ls name p)"
proof -
  define pid where "pid = (case p of None \<Rightarrow> [] | Some a \<Rightarrow> cacheID (deref ls a))"
  obtain ls1 r where init: "(if withInit then initMount io ls mid pid else (ls, Inr pid)) = (ls1, r)"
    by (cases "if withInit then initMount io ls mid pid else (ls, Inr pid)")
  have 1: "layer_inv (hold H p) ls1" "step_frame ls ls1" "mounts ls1 = mounts ls"
    using init inv initMount_ok [where io = io and ls = ls and g = mid and par = pid] by (auto split: if_splits)
  have "body_ok H p ls (case saveMount io (logCall c ls1) m of
                (ls3, Some e) \<Rightarrow> (True, ls3, Failed e)
              | (ls3, None) \<Rightarrow> (case getRWReference ls3 m of (ls4, r) \<Rightarrow> (False, ls4, Done r)))"
    if m: "ml_parent m = p" "ml_name m = name" for m c
  proof (cases "saveMount io (logCall c ls1) m")
    case (Pair ls3 err)
    have s: "case saveMount io (logCall c ls1) m of (ls', Some e) \<Rightarrow> ls' = logCall c ls1
      | (ls', None) \<Rightarrow> layer_inv H ls' \<and> step_frame (logCall c ls1) ls' \<and> mget (mounts ls') (ml_name m) = Some m"
      by (rule saveMount_ok) (use 1 m fresh in simp_all)
    show ?thesis
    proof (cases err)
      case None
      then have 3: "layer_inv H ls3" "step_frame (logCall c ls1) ls3" "mget (mounts ls3) (ml_name m) = Some m"
        using s Pair by simp_all
      have "step_frame ls ls3" using 1(2) step_frame_trans [OF _ 3(2), of ls] by simp
      with getRWReference_ok [OF 3(1,3)] step_frame_trans [of ls ls3]
      show ?thesis using Pair None by (auto simp: body_ok_def split: prod.split)
    next
      case (Some e)
      then show ?thesis using s Pair 1 by (simp add: body_error)
    qed
  qed
  then show ?thesis
    using 1 init unfolding createRWBody_def Let_def pid_def [symmetric]
    by (auto simp: body_error split: sum.split option.split)
qed

lemma CreateRWLayer_ok:
  assumes inv: "layer_inv H ls"
  shows "op_ok H ls (CreateRWLayer io withInit mid ls name par)"
proof (cases "mget (mounts ls) name")
  case (Some m)
  then show ?thesis using inv by (simp add: CreateRWLayer_def op_okI)
next
  case fresh: None
  show ?thesis
  proof (cases "par = []")
    case True
    then show ?thesis
      using fresh body_then_release [OF createRWBody_ok [of H None ls name io withInit mid], of io] inv
      by (simp add: CreateRWLayer_def)
  next
    case False
    obtain ls1 found where Pair: "getWithoutLock ls par = (ls1, found)"
      by (cases "getWithoutLock ls par")
    show ?thesis
    proof (cases found)
      case None
      then show ?thesis
        using False fresh Pair inv getWithoutLock_ok [OF inv, of par] by (simp add: CreateRWLayer_def op_okI)
    next
      case (Some p)
      have g: "layer_inv (hold H (Some p)) ls1" "step_frame ls ls1" "mget (mounts ls1) name = None"
        using getWithoutLock_ok [OF inv, of par] Pair Some fresh by simp_all
      from op_ok_after [OF g(2) body_then_release [OF createRWBody_ok [OF g(1,3), of io withInit mid], of io]]
      show ?thesis using False fresh Pair Some by (simp add: CreateRWLayer_def)
    qed
  qed
qed

lemma GetRWLayer_ok:
  assumes "layer_inv H ls"
  shows "layer_inv H (fst (GetRWLayer ls n)) \<and> step_frame ls (fst (GetRWLayer ls n))"
proof (cases "mget (mounts ls) n")
  case (Some m)
  then have "ml_name m = n" using mount_parent_live [OF inv_shape [OF assms]] by simp
  with Some getRWReference_ok [OF assms, of m] show ?thesis
    by (auto simp: GetRWLayer_def split: prod.split)
qed (use assms in \<open>simp add: GetRWLayer_def\<close>)

lemma Mount_ok: "layer_inv H (fst (Mount io ls rl)) = layer_inv H ls \<and> step_frame ls (fst (Mount io ls rl))"
  by (auto simp: Mount_def intro: step_frame_other)

lemma Unmount_ok: "layer_inv H (fst (Unmount io ls rl)) = layer_inv H ls \<and> step_frame ls (fst (Unmount io ls rl))"
  by (auto simp: Unmount_def intro: step_frame_other)

lemma deleteRWReference_ok:
  assumes "layer_inv H ls" "mget (mounts ls) (ml_name m) = Some m"
  shows "case deleteRWReference ls m r of
      (ls', Inl e) \<Rightarrow> ls' = ls
    | (ls', Inr m') \<Rightarrow> layer_inv H ls' \<and> step_frame ls ls' \<and> ml_name m' = ml_name m \<and>
        ml_parent m' = ml_parent m \<and> mget (mounts ls') (ml_name m) = Some m'"
proof -
  let ?m = "m\<lparr>ml_references := removeAll r (ml_references m)\<rparr>"
  let ?ls = "ls\<lparr>activityCount := mput r (- 1) (activityCount ls)\<rparr>"
  let ?ls2 = "?ls\<lparr>mounts := mput (ml_name m) ?m (mounts ?ls)\<rparr>"
  have "layer_inv H (?ls\<lparr>mounts := mput (ml_name ?m) ?m (mounts ?ls)\<rparr>)"
    by (rule set_mount_inv) (use assms in simp_all)
  moreover have "step_frame ls ?ls2" by (rule step_frame_other) simp_all
  ultimately show ?thesis
    by (auto simp: deleteRWReference_def releaseRW_def Let_def)
qed

lemma removeMount_ok:
  assumes "layer_inv H ls" "mget (mounts ls) (ml_name m) = Some m"
  shows "case removeMount io ls m of
      (ls', Some e) \<Rightarrow> layer_inv H ls' \<and> step_frame ls ls'
    | (ls', None) \<Rightarrow> layer_inv (hold H (ml_parent m)) ls' \<and> step_frame ls ls'"
proof -
  have del: "layer_inv (hold H (ml_parent m)) (s\<lparr>mounts := mdel (ml_name m) (mounts s)\<rparr>)"
    if "layer_inv H s" "mounts s = mounts ls" for s
    by (rule del_mount_inv) (use that assms in simp_all)
  have fr: "step_frame ls (s\<lparr>mounts := ms\<rparr>)" if "heap s = heap ls" "layerMap s = layerMap ls" "nextRef s = nextRef ls" for s ms
    by (rule step_frame_other) (use that in simp_all)
  show ?thesis
    using assms(1) del fr by (auto simp: removeMount_def Let_def split: option.split)
qed

lemma ReleaseRWLayer_ok:
  assumes inv: "layer_inv H ls"
  shows "op_ok H ls (ReleaseRWLayer io ls l)"
proof (cases "mget (mounts ls) (rw_name l)")
  case None
  then show ?thesis using inv by (simp add: ReleaseRWLayer_def op_okI)
next
  case (Some m)
  have n: "ml_name m = rw_name l" using mount_parent_live [OF inv_shape [OF inv] Some] by simp
  obtain ls1 r where del: "deleteRWReference ls m (rw_ref l) = (ls1, r)"
    by (cases "deleteRWReference ls m (rw_ref l)")
  note d = deleteRWReference_ok [OF inv, of m "rw_ref l", unfolded del n, OF Some]
  show ?thesis
  proof (cases r)
    case (Inl e)
    then show ?thesis using Some del d inv by (simp add: ReleaseRWLayer_def op_okI)
  next
    case (Inr m1)
    then have d1: "layer_inv H ls1" "step_frame ls ls1" "mget (mounts ls1) (ml_name m1) = Some m1"
      using d by auto
    obtain ls2 err where rem: "removeMount io ls1 m1 = (ls2, err)" by (cases "removeMount io ls1 m1")
    note r = removeMount_ok [OF d1(1,3), of io, unfolded rem]
    have fr: "step_frame ls ls2" using r step_frame_trans [OF d1(2), of ls2] by (auto split: option.splits)
    have "op_ok H ls (releaseLayer io ls2 p)" if "err = None" "ml_parent m1 = Some p" for p
      by (rule op_ok_after [OF fr]) (rule releaseLayer_op_ok, use r that in simp)
    then show ?thesis
      using Some del Inr d1 rem r fr by (auto simp: ReleaseRWLayer_def op_okI split: option.split)
  qed
qed

end
