(* ===== verification/Layer_Properties.thy ===== *)
theory Layer_Properties
  imports Layer_Refcount
begin

section \<open>Properties of the layer store\<close>

text \<open>
  Runs of the layer store: any sequence of operations, each with any answers of the graph driver
  and of the metadata store.  The reference counts stay exact, no operation panics, a held
  reference pins the layer and the chain below it, and no chain grows past \<open>maxLayerDepth\<close>.
\<close>

datatype layer_op =
    OpGet chain_id
  | OpRelease layer_io "ref_id \<times> addr"
  | OpRegister layer_io "string \<Rightarrow> string" string chain_id
  | OpCreateRW layer_io bool string string chain_id
  | OpGetRW string
  | OpReleaseRW layer_io referencedRWLayer
  | OpMount layer_io referencedRWLayer
  | OpUnmount layer_io referencedRWLayer

text \<open>The state after an operation, with whether it returned and did not panic.\<close>

definition settle :: "layerStore \<Rightarrow> (layerStore \<times> (layer_error, 'a) outcome) option \<Rightarrow> layerStore \<times> bool" where
  "settle ls res = (case res of None \<Rightarrow> (ls, False) | Some (ls', out) \<Rightarrow> (ls', no_panic out))"

fun layer_exec :: "layerStore \<Rightarrow> layer_op \<Rightarrow> layerStore \<times> bool" where
  "layer_exec ls (OpGet c) = (fst (Get ls c), True)"
| "layer_exec ls (OpRelease io l) = settle ls (Release io ls l)"
| "layer_exec ls (OpRegister io hash cid par) = settle ls (Register io hash cid ls par)"
| "layer_exec ls (OpCreateRW io i mid name par) = settle ls (CreateRWLayer io i mid ls name par)"
| "layer_exec ls (OpGetRW n) = (fst (GetRWLayer ls n), True)"
| "layer_exec ls (OpReleaseRW io l) = settle ls (ReleaseRWLayer io ls l)"
| "layer_exec ls (OpMount io rl) = (fst (Mount io ls rl), True)"
| "layer_exec ls (OpUnmount io rl) = (fst (Unmount io ls rl), True)"

definition layer_step :: "layerStore \<Rightarrow> layer_op \<Rightarrow> layerStore" where
  "layer_step ls op = fst (layer_exec ls op)"

lemma settle_ok:
  "op_ok H ls res \<Longrightarrow> layer_inv H (fst (settle ls res)) \<and> step_frame ls (fst (settle ls res)) \<and> snd (settle ls res)"
  by (auto simp: op_ok_def settle_def)

lemma layer_exec_ok:
  assumes "layer_inv H ls"
  shows "layer_inv H (fst (layer_exec ls op)) \<and> step_frame ls (fst (layer_exec ls op)) \<and> snd (layer_exec ls op)"
  using assms
  by (cases op) (simp_all add: Get_ok GetRWLayer_ok Mount_ok Unmount_ok settle_ok [OF Release_ok [OF assms]]
      settle_ok [OF Register_ok [OF assms]] settle_ok [OF CreateRWLayer_ok [OF assms]]
      settle_ok [OF ReleaseRWLayer_ok [OF assms]])

subsection \<open>References kept, layers added\<close>

definition touches :: "ref_id set \<Rightarrow> layerStore \<Rightarrow> layerStore \<Rightarrow> bool" where
  "touches X ls ls' \<longleftrightarrow> length (heap ls') = length (heap ls) \<and>
     (\<forall>b < length (heap ls). set (references (deref ls b)) - X \<subseteq> set (references (deref ls' b)))"

lemma touches_refl [simp]: "touches X ls ls"
  by (simp add: touches_def)

lemma touches_trans: "touches X a b \<Longrightarrow> touches X b c \<Longrightarrow> touches X a c"
  unfolding touches_def by (simp add: subset_eq)

lemma touches_heap: "heap ls' = heap ls \<Longrightarrow> touches X ls ls'"
  by (simp add: touches_def deref_def)

lemma touches_modify:
  "(\<And>rl. set (references rl) - X \<subseteq> set (references (f rl))) \<Longrightarrow> touches X ls (modify a f ls)"
  by (cases "a < length (heap ls)") (auto simp: touches_def, auto simp: modify_def deref_def)

lemma touches_getWithoutLock: "touches X ls (fst (getWithoutLock ls c))"
  by (auto simp: getWithoutLock_def intro: touches_modify split: option.split)

lemma touches_getReference: "touches X ls (fst (getReference ls a))"
proof -
  let ?m = "modify a (\<lambda>rl. rl\<lparr>references := references rl @ [nextRef ls]\<rparr>) ls"
  have "touches X ls ?m" by (rule touches_modify) auto
  moreover have "touches X ?m (fst (getReference ls a))" by (rule touches_heap) (simp add: getReference_def)
  ultimately show ?thesis by (rule touches_trans)
qed

lemma touches_release: "release_frame ls ls' \<Longrightarrow> touches X ls ls'"
  by (auto simp: release_frame_def touches_def)

lemma touches_releaseLayer:
  assumes "layer_inv (hold H (Some a)) ls" "releaseLayer io ls a = Some (ls', out)"
  shows "touches X ls ls'"
  using releaseLayer_ok [OF assms(1), of io] assms(2) by (auto intro: touches_release)


text \<open>A layer enters the heap in one place, on top of the parent that was retained.\<close>

definition extends_by :: "addr option \<Rightarrow> layerStore \<Rightarrow> layerStore \<Rightarrow> bool" where
  "extends_by p ls ls' \<longleftrightarrow> length (heap ls') = Suc (length (heap ls)) \<and>
     (\<forall>b < length (heap ls). set (references (deref ls b)) \<subseteq> set (references (deref ls' b))) \<and>
     parent (deref ls' (length (heap ls))) = p"

lemma extends_by_trans_left: "touches {} a b \<Longrightarrow> extends_by p b c \<Longrightarrow> extends_by p a c"
  unfolding touches_def extends_by_def by (simp add: subset_eq)

lemma extends_by_release:
  assumes "extends_by p a b" "release_frame b c"
  shows "extends_by p a c"
  using assms unfolding extends_by_def release_frame_def frozen_def identity_def by auto

lemma registerCommit_grows:
  assumes "registerCommit io ls layer = (err, ls', out)"
  shows "touches {} ls ls' \<or> extends_by (parent layer) ls ls'"
proof (cases "getWithoutLock ls (chainID layer)")
  case (Pair ls1 found)
  then have 1: "touches {} ls ls1" using touches_getWithoutLock [of "{}" ls "chainID layer"] by simp
  show ?thesis
  proof (cases "found = None \<and> io_txCommit io = None")
    case False
    moreover have "touches {} ls (fst (getReference ls1 a))" for a
      by (rule touches_trans [OF 1 touches_getReference])
    moreover have "touches {} ls (logCall c ls1)" for c
      by (rule touches_trans [OF 1]) (simp add: touches_heap)
    ultimately show ?thesis
      using assms Pair by (auto simp: registerCommit_def Let_def split: option.splits prod.splits)
        (metis fst_conv)
  next
    case True
    let ?ls2 = "logCall (TxCommit (chainID layer)) ls1"
    let ?a = "length (heap ?ls2)"
    let ?ls3 = "?ls2\<lparr>heap := heap ?ls2 @ [layer], layerMap := mput (chainID layer) ?a (layerMap ?ls2)\<rparr>"
    have "ls' = fst (getReference ?ls3 ?a)"
      using assms Pair True by (auto simp: registerCommit_def Let_def split: prod.splits)
    moreover have "?ls3 = ls1\<lparr>calls := calls ?ls2, heap := heap ls1 @ [layer], layerMap := layerMap ?ls3\<rparr>"
      by (simp add: logCall_def)
    ultimately have "extends_by (parent layer) ls1 ls'"
      by (auto simp: extends_by_def getReference_def modify_def deref_def nth_append nth_list_update)
    then show ?thesis using extends_by_trans_left [OF 1] by blast
  qed
qed

lemma registerBody_grows:
  assumes "registerBody io hash cid ls p = (err, ls', out)"
  shows "touches {} ls ls' \<or> extends_by p ls ls'"
proof -
  define ls2 where "ls2 = logCall TxStart (logCall (DriverCreate cid (case p of None \<Rightarrow> [] | Some a \<Rightarrow> cacheID (deref ls a))) ls)"
  have log: "touches {} s (logCall c t) = touches {} s t" "extends_by q s (logCall c t) = extends_by q s t"
    "touches {} (logCall c s) t = touches {} s t" "extends_by q (logCall c s) t = extends_by q s t" for c s t q
    by (simp_all add: touches_def extends_by_def)
  have tx: "touches {} ls2 s \<or> extends_by p ls2 s" if "registerTx io hash cid ls2 p = (e, s, o')" for e s o'
    using that by (auto simp: registerTx_def Let_def split: sum.splits option.splits dest!: registerCommit_grows)
  show ?thesis
    using assms tx unfolding registerBody_def Let_def ls2_def [symmetric]
    by (auto simp: ls2_def log registerCleanup_def split: option.splits prod.splits if_splits)
qed


lemma releaseParentOnError_frame:
  assumes "layer_inv (hold H (if err then p else None)) ls'"
    "releaseParentOnError io p err (ls', out) = Some (ls'', out')"
  shows "release_frame ls' ls''"
proof (cases "p = None \<or> \<not> err")
  case True
  then show ?thesis
    using assms(2) by (auto simp: releaseParentOnError_def release_frame_def split: option.splits if_splits)
next
  case False
  then obtain a where a: "p = Some a" and err by auto
  then obtain ls3 out3 where r: "releaseLayer io ls' a = Some (ls3, out3)" "release_frame ls' ls3"
    using releaseLayer_ok [of H a ls' io] assms(1) by auto
  then have "ls'' = ls3"
    using a \<open>err\<close> assms(2) by (cases out3) (auto simp: releaseParentOnError_def)
  with r show ?thesis by simp
qed

lemma depth_stable:
  assumes "frozen ls ls'" "shape_ok ls" "live ls a"
  shows "depth ls' a = depth ls a"
  using assms(3)
proof (induction a rule: less_induct)
  case (less a)
  have "parent (deref ls' a) = parent (deref ls a)"
    using frozen_parent [OF assms(1) live_bound [OF less.prems]] by simp
  then show ?case
    using less.IH parent_live [OF assms(2) less.prems]
    by (simp add: depth.simps [of ls' a] depth.simps [of ls a] split: option.split)
qed

definition below_max :: "layerStore \<Rightarrow> addr option \<Rightarrow> bool" where
  "below_max ls p \<longleftrightarrow> (case p of None \<Rightarrow> True
     | Some a \<Rightarrow> live ls a \<and> (case depth ls a of None \<Rightarrow> False | Some d \<Rightarrow> d < maxLayerDepth))"

lemma Register_grows:
  assumes inv: "layer_inv H ls" and res: "Register io hash cid ls par = Some (ls', out)"
  shows "touches {} ls ls' \<or> (\<exists>p. extends_by p ls ls' \<and> below_max ls p)"
proof -
  have tail: "touches {} ls1 ls' \<or> extends_by p ls1 ls'"
    if "layer_inv (hold H p) ls1"
      "(case registerBody io hash cid ls1 p of (err, s, o') \<Rightarrow> releaseParentOnError io p err (s, o')) = Some (ls', out)"
    for p ls1
  proof -
    obtain err s o' where b: "registerBody io hash cid ls1 p = (err, s, o')" by (cases "registerBody io hash cid ls1 p")
    then have "layer_inv (hold H (if err then p else None)) s"
      using registerBody_ok [OF that(1), of io hash cid] by (simp add: body_ok_def)
    then have "release_frame s ls'" using releaseParentOnError_frame that(2) b by (metis case_prod_conv)
    then show ?thesis
      using registerBody_grows [OF b] touches_trans [OF _ touches_release] extends_by_release by blast
  qed
  show ?thesis
  proof (cases "par = []")
    case True
    then have "touches {} ls ls' \<or> extends_by None ls ls'"
      by (intro tail) (use inv res in \<open>simp_all add: Register_def\<close>)
    then show ?thesis by (auto simp: below_max_def)
  next
    case False
    obtain ls1 found where Pair: "getWithoutLock ls par = (ls1, found)" by (cases "getWithoutLock ls par")
    note g = getWithoutLock_ok [OF inv, of par, unfolded Pair]
    have t1: "touches {} ls ls1" using touches_getWithoutLock [of "{}" ls par] Pair by simp
    show ?thesis
    proof (cases found)
      case None
      then show ?thesis using res False Pair t1 by (simp add: Register_def)
    next
      case (Some p)
      have g1: "layer_inv (hold H (Some p)) ls1" "step_frame ls ls1" "live ls p"
        using g Some lookup_live [OF inv_shape [OF inv], of par p] by simp_all
      obtain d where d: "depth ls1 p = Some d"
        using depth_total [OF inv_shape [OF g1(1)] held_live [OF g1(1)]] by blast
      have "frozen ls ls1" using g1(2) unfolding step_frame_def by blast
      then have d0: "depth ls p = Some d"
        using depth_stable [OF _ inv_shape [OF inv] g1(3)] d by metis
      show ?thesis
      proof (cases "d \<ge> maxLayerDepth")
        case True
        then have "release_frame ls1 ls'"
          using res False Pair Some d g1 by (intro releaseParentOnError_frame [of H True "Some p"]) (simp_all add: Register_def)
        then show ?thesis using touches_trans [OF t1 touches_release] by blast
      next
        case low: False
        then have "touches {} ls1 ls' \<or> extends_by (Some p) ls1 ls'"
          using res False Pair Some d by (intro tail [OF g1(1)]) (simp add: Register_def)
        moreover have "below_max ls (Some p)" using g1(3) d0 low by (simp add: below_max_def)
        ultimately show ?thesis
          using touches_trans [OF t1] extends_by_trans_left [OF t1] by blast
      qed
    qed
  qed
qed


lemma Release_touches:
  assumes inv: "layer_inv H ls" and res: "Release io ls l = Some (ls', out)"
  shows "touches {fst l} ls ls'"
proof (cases "mget (layerMap ls) (chainID (deref ls (snd l)))")
  case None
  then show ?thesis using res by (simp add: Release_def)
next
  case (Some a)
  then have a: "live ls a" using lookup_live [OF inv_shape [OF inv]] by simp
  have t: "touches {fst l} ls (deleteReference ls a (fst l))"
    unfolding deleteReference_def by (rule touches_modify) auto
  show ?thesis
    using Some res touches_trans [OF t touches_releaseLayer [OF deleteReference_inv [OF inv a]]]
    by (auto simp: Release_def split: if_splits)
qed

lemma createRWBody_touches:
  assumes "createRWBody io withInit mid ls name p = (err, ls', out)"
  shows "touches X ls ls'"
proof -
  have init: "heap (fst (initMount io s g q)) = heap s" for s g q
    by (auto simp: initMount_def Let_def split: option.split sum.split)
  have save: "heap (fst (saveMount io s m)) = heap s" for s m
    by (auto simp: saveMount_def split: option.split)
  have ref: "heap (fst (getRWReference s m)) = heap s" for s m
    by (simp add: getRWReference_def Let_def)
  have "heap ls' = heap ls"
    using assms init save ref
    by (auto simp: createRWBody_def Let_def split: sum.splits option.splits prod.splits if_splits)
      (metis fst_conv logCall_fields(1))+
  then show ?thesis by (rule touches_heap)
qed

lemma CreateRWLayer_touches:
  assumes inv: "layer_inv H ls" and res: "CreateRWLayer io withInit mid ls name par = Some (ls', out)"
  shows "touches X ls ls'"
proof (cases "mget (mounts ls) name")
  case (Some m)
  then show ?thesis using res by (simp add: CreateRWLayer_def)
next
  case fresh: None
  have tail: "touches X s ls'"
    if "layer_inv (hold H p) s" "mget (mounts s) name = None"
      "(case createRWBody io withInit mid s name p of (err, t, o') \<Rightarrow> releaseParentOnError io p err (t, o')) = Some (ls', out)"
    for p s
  proof -
    obtain err t o' where b: "createRWBody io withInit mid s name p = (err, t, o')"
      by (cases "createRWBody io withInit mid s name p")
    then have "layer_inv (hold H (if err then p else None)) t"
      using createRWBody_ok [OF that(1,2), of io withInit mid] by (simp add: body_ok_def)
    then have "release_frame t ls'" using releaseParentOnError_frame that(3) b by (metis case_prod_conv)
    then show ?thesis using createRWBody_touches [OF b] touches_trans [OF _ touches_release] by blast
  qed
  show ?thesis
  proof (cases "par = []")
    case True
    then show ?thesis by (intro tail [of None]) (use inv fresh res in \<open>simp_all add: CreateRWLayer_def\<close>)
  next
    case False
    obtain s found where Pair: "getWithoutLock ls par = (s, found)" by (cases "getWithoutLock ls par")
    note g = getWithoutLock_ok [OF inv, of par, unfolded Pair]
    have t1: "touches X ls s" using touches_getWithoutLock [of X ls par] Pair by simp
    show ?thesis
    proof (cases found)
      case None
      then show ?thesis using res False fresh Pair t1 by (simp add: CreateRWLayer_def)
    next
      case (Some p)
      have "touches X s ls'"
        by (rule tail [of "Some p"]) (use g Some fresh False res Pair in \<open>simp_all add: CreateRWLayer_def\<close>)
      then show ?thesis by (rule touches_trans [OF t1])
    qed
  qed
qed

lemma ReleaseRWLayer_touches:
  assumes inv: "layer_inv H ls" and res: "ReleaseRWLayer io ls l = Some (ls', out)"
  shows "touches X ls ls'"
proof (cases "mget (mounts ls) (rw_name l)")
  case None
  then show ?thesis using res by (simp add: ReleaseRWLayer_def)
next
  case (Some m)
  have n: "ml_name m = rw_name l" using mount_parent_live [OF inv_shape [OF inv] Some] by simp
  obtain ls1 r where del: "deleteRWReference ls m (rw_ref l) = (ls1, r)"
    by (cases "deleteRWReference ls m (rw_ref l)")
  note d = deleteRWReference_ok [OF inv, of m "rw_ref l", unfolded del n, OF Some]
  have h1: "touches X ls ls1"
    using del by (intro touches_heap) (auto simp: deleteRWReference_def releaseRW_def Let_def split: if_splits)
  show ?thesis
  proof (cases r)
    case (Inl e)
    then show ?thesis using Some del h1 res by (simp add: ReleaseRWLayer_def)
  next
    case (Inr m1)
    then have d1: "layer_inv H ls1" "mget (mounts ls1) (ml_name m1) = Some m1" using d by auto
    obtain ls2 err where rem: "removeMount io ls1 m1 = (ls2, err)" by (cases "removeMount io ls1 m1")
    note r = removeMount_ok [OF d1, of io, unfolded rem]
    have h2: "touches X ls ls2"
      using rem by (intro touches_trans [OF h1] touches_heap)
        (auto simp: removeMount_def Let_def split: if_splits option.splits)
    have "touches X ls2 ls'" if "err = None" "ml_parent m1 = Some p" "releaseLayer io ls2 p = Some (ls', out)" for p
      by (rule touches_releaseLayer [of H, OF _ that(3)]) (use r that in simp)
    then show ?thesis
      using Some del Inr h1 h2 rem res touches_trans [OF h2]
      by (auto simp: ReleaseRWLayer_def split: option.splits if_splits)
  qed
qed


subsection \<open>Runs\<close>

fun releases :: "ref_id \<Rightarrow> layer_op \<Rightarrow> bool" where
  "releases r (OpRelease io l) = (fst l = r)"
| "releases r op = False"

definition depth_ok :: "layerStore \<Rightarrow> bool" where
  "depth_ok ls \<longleftrightarrow> (\<forall>a. live ls a \<longrightarrow> (case depth ls a of None \<Rightarrow> False | Some d \<Rightarrow> 1 \<le> d \<and> d \<le> maxLayerDepth))"

lemma layer_step_grows:
  assumes "layer_inv H ls"
  shows "(\<exists>X. touches X ls (layer_step ls op) \<and> (\<forall>r \<in> X. releases r op)) \<or>
         (\<exists>p. extends_by p ls (layer_step ls op) \<and> below_max ls p)"
proof (cases op)
  case (OpGet c)
  have "touches {} ls (fst (Get ls c))"
    using touches_getWithoutLock [of "{}" ls c] touches_trans [OF _ touches_getReference, of "{}" ls]
    by (auto simp: Get_def split: prod.split option.split) (metis fst_conv)+
  then show ?thesis using OpGet by (auto simp: layer_step_def)
next
  case (OpRelease io l)
  obtain ls' out where r: "Release io ls l = Some (ls', out)" using Release_ok [OF assms, of io l] by (auto simp: op_ok_def)
  then show ?thesis using Release_touches [OF assms r] OpRelease by (auto simp: layer_step_def settle_def intro!: exI [of _ "{fst l}"])
next
  case (OpRegister io hash cid par)
  obtain ls' out where r: "Register io hash cid ls par = Some (ls', out)"
    using Register_ok [OF assms, of io hash cid par] by (auto simp: op_ok_def)
  then show ?thesis using Register_grows [OF assms r] OpRegister by (auto simp: layer_step_def settle_def)
next
  case (OpCreateRW io i mid name par)
  obtain ls' out where r: "CreateRWLayer io i mid ls name par = Some (ls', out)"
    using CreateRWLayer_ok [OF assms, of io i mid name par] by (auto simp: op_ok_def)
  then show ?thesis using CreateRWLayer_touches [OF assms r, of "{}"] OpCreateRW by (auto simp: layer_step_def settle_def)
next
  case (OpGetRW n)
  have "heap (fst (GetRWLayer ls n)) = heap ls"
    by (auto simp: GetRWLayer_def getRWReference_def Let_def split: option.split)
  then show ?thesis using touches_heap [of _ ls "{}"] OpGetRW by (auto simp: layer_step_def)
next
  case (OpReleaseRW io l)
  obtain ls' out where r: "ReleaseRWLayer io ls l = Some (ls', out)"
    using ReleaseRWLayer_ok [OF assms, of io l] by (auto simp: op_ok_def)
  then show ?thesis using ReleaseRWLayer_touches [OF assms r, of "{}"] OpReleaseRW by (auto simp: layer_step_def settle_def)
next
  case (OpMount io rl)
  have "heap (fst (Mount io ls rl)) = heap ls" by (simp add: Mount_def)
  then show ?thesis using touches_heap [of _ ls "{}"] OpMount by (auto simp: layer_step_def)
next
  case (OpUnmount io rl)
  have "heap (fst (Unmount io ls rl)) = heap ls" by (simp add: Unmount_def)
  then show ?thesis using touches_heap [of _ ls "{}"] OpUnmount by (auto simp: layer_step_def)
qed

lemma depth_ok_step:
  assumes inv: "layer_inv H ls" and ok: "depth_ok ls"
  shows "depth_ok (layer_step ls op)"
  unfolding depth_ok_def
proof (intro allI impI)
  let ?ls = "layer_step ls op"
  have ex: "layer_inv H ?ls" "step_frame ls ?ls" using layer_exec_ok [OF inv, of op] by (simp_all add: layer_step_def)
  then have fr: "frozen ls ?ls" unfolding step_frame_def by blast
  have old: "case depth ?ls a of None \<Rightarrow> False | Some d \<Rightarrow> 1 \<le> d \<and> d \<le> maxLayerDepth" if "live ls a" for a
    unfolding depth_stable [OF fr inv_shape [OF inv] that] using ok that by (simp add: depth_ok_def)
  fix a assume a: "live ?ls a"
  show "case depth ?ls a of None \<Rightarrow> False | Some d \<Rightarrow> 1 \<le> d \<and> d \<le> maxLayerDepth"
  proof (cases "a < length (heap ls)")
    case True
    then have "live ls a" using a ex(2) unfolding step_frame_def by blast
    then show ?thesis by (rule old)
  next
    case False
    then obtain p where p: "extends_by p ls ?ls" "below_max ls p"
      using layer_step_grows [OF inv, of op] live_bound [OF a] by (auto simp: touches_def)
    then have "a = length (heap ls)" using False live_bound [OF a] by (simp add: extends_by_def)
    then have par: "parent (deref ?ls a) = p" using p by (simp add: extends_by_def)
    show ?thesis
    proof (cases p)
      case None
      then show ?thesis using par by (simp add: depth.simps [of ?ls a] maxLayerDepth_def)
    next
      case (Some q)
      then have "live ls q" "depth ls q \<noteq> None" "the (depth ls q) < maxLayerDepth"
        using p(2) by (auto simp: below_max_def split: option.splits)
      then show ?thesis
        using depth_stable [OF fr inv_shape [OF inv]] par Some by (auto simp: depth.simps [of ?ls a])
    qed
  qed
qed

lemma empty_inv: "layer_inv (\<lambda>_. 0) emptyStore \<and> depth_ok emptyStore"
  by (simp add: layer_inv_def shape_ok_def counts_ok_def depth_ok_def live_def emptyStore_def)

interpretation layers: step_system emptyStore layer_step "\<lambda>ls. layer_inv (\<lambda>_. 0) ls \<and> depth_ok ls"
proof unfold_locales
  show "layer_inv (\<lambda>_. 0) emptyStore \<and> depth_ok emptyStore" by (rule empty_inv)
  show "layer_inv (\<lambda>_. 0) (layer_step s op) \<and> depth_ok (layer_step s op)"
    if "layer_inv (\<lambda>_. 0) s \<and> depth_ok s" for s op
    using that layer_exec_ok [of _ s op] depth_ok_step [of _ s op] by (auto simp: layer_step_def)
qed


lemma run_inv: "layer_inv (\<lambda>_. 0) (foldl layer_step emptyStore ops)"
  using layers.inv_run [of ops] by simp

text \<open>
  C1: after any sequence of operations on the layer store, whatever the graph driver and the
  metadata store answer, the maps and parent pointers are consistent and the reference count of
  every layer is exactly the number of references handed out plus its children plus the mounts on
  it; and from such a state every operation returns and none reaches one of the three panics of
  \<^verbatim>\<open>releaseLayer\<close>.
\<close>

theorem layer_counts_exact:
  "layer_inv (\<lambda>_. 0) (foldl layer_step emptyStore ops) \<and>
   (\<forall>op. snd (layer_exec (foldl layer_step emptyStore ops) op))"
  using run_inv layer_exec_ok [OF run_inv] by blast

text \<open>
  No chain of layers is longer than \<^verbatim>\<open>maxLayerDepth\<close>, and \<^verbatim>\<open>depth\<close> ends on every
  layer of the map.
\<close>

theorem layer_depth_bounded: "depth_ok (foldl layer_step emptyStore ops)"
  using layers.inv_run [of ops] by simp

definition below :: "layerStore \<Rightarrow> (addr \<times> addr) set" where
  "below ls = {(a, p). parent (deref ls a) = Some p}"

lemma chain_live:
  assumes "shape_ok ls" "live ls a" "(a, p) \<in> (below ls)\<^sup>*"
  shows "live ls p"
  using assms(3,2)
proof (induction rule: rtrancl_induct)
  case (step y z)
  then show ?case using parent_live [OF assms(1), of y z] by (simp add: below_def)
qed

lemma reference_step:
  assumes inv: "layer_inv H ls" and a: "live ls a" "hasReference ls a r" and op: "\<not> releases r op"
  shows "live (layer_step ls op) a \<and> hasReference (layer_step ls op) a r \<and>
     identity (deref (layer_step ls op) a) = identity (deref ls a)"
proof -
  have fr: "step_frame ls (layer_step ls op)" using layer_exec_ok [OF inv, of op] by (simp add: layer_step_def)
  have "r \<in> set (references (deref (layer_step ls op) a))"
    using layer_step_grows [OF inv, of op] a op live_bound [OF a(1)]
    unfolding touches_def extends_by_def hasReference_def by blast
  then show ?thesis
    using fr a(1) live_bound [OF a(1)] unfolding step_frame_def frozen_def hasReference_def
    by (metis empty_iff empty_set)
qed

lemma reference_run:
  assumes "layer_inv H ls" "live ls a" "hasReference ls a r" "\<forall>op \<in> set later. \<not> releases r op"
  shows "layer_inv H (foldl layer_step ls later) \<and> live (foldl layer_step ls later) a \<and>
     hasReference (foldl layer_step ls later) a r \<and>
     identity (deref (foldl layer_step ls later) a) = identity (deref ls a)"
  using assms
proof (induction later arbitrary: ls)
  case (Cons op later)
  have "layer_inv H (layer_step ls op)" using layer_exec_ok [OF Cons.prems(1), of op] by (simp add: layer_step_def)
  with Cons reference_step [OF Cons.prems(1-3), of op] show ?case by simp
qed simp

text \<open>
  C2: a reference that was handed out and is not released keeps its layer and every layer of the
  chain below it in the map, with its identity unchanged, whatever other operations follow.
\<close>

theorem held_reference_pins_chain:
  assumes "live (foldl layer_step emptyStore ops) a"
    and "hasReference (foldl layer_step emptyStore ops) a r"
    and "\<forall>op \<in> set later. \<not> releases r op"
  shows "let ls = foldl layer_step emptyStore ops; ls' = foldl layer_step ls later in
     hasReference ls' a r \<and> identity (deref ls' a) = identity (deref ls a) \<and>
     mget (layerMap ls') (chainID (deref ls a)) = Some a \<and> (\<forall>p. (a, p) \<in> (below ls')\<^sup>* \<longrightarrow> live ls' p)"
proof -
  note r = reference_run [OF run_inv assms]
  then have "mget (layerMap (foldl layer_step (foldl layer_step emptyStore ops) later))
      (chainID (deref (foldl layer_step emptyStore ops) a)) = Some a"
    unfolding live_def identity_def by (metis prod.inject)
  with r show ?thesis
    using chain_live [OF inv_shape] by (auto simp: Let_def)
qed

definition okIO :: layer_io where
  "okIO = \<lparr>io_driverCreate = (\<lambda>_. None), io_driverRemove = (\<lambda>_. None), io_driverGet = (\<lambda>_. Inr ''/mnt''),
     io_driverPut = (\<lambda>_. None), io_initFunc = (\<lambda>_. None), io_startTransaction = None,
     io_tarSplitWriter = None, io_inputTarStream = None, io_applyDiff = Inr 7, io_tarDigest = ''d'',
     io_setDiffID = None, io_setSize = None, io_setCacheID = None, io_setParent = None,
     io_txCommit = None, io_storeRemove = (\<lambda>_. None), io_setMountID = None, io_setInitID = None,
     io_setMountParent = None, io_removeMount = None\<rparr>"

theorem held_reference_pins_chain_witness:
  "mget (layerMap (foldl layer_step (foldl layer_step emptyStore
      [OpRegister okIO (\<lambda>s. ''h'') ''c1'' [], OpRegister okIO (\<lambda>s. ''h'') ''c2'' ''d''])
      [OpGet ''h'', OpRelease okIO (0, 0), OpRelease okIO (2, 1)])) ''h'' = Some 1"
proof -
  let ?ops = "[OpRegister okIO (\<lambda>s. ''h'') ''c1'' [], OpRegister okIO (\<lambda>s. ''h'') ''c2'' ''d'']"
  have "live (foldl layer_step emptyStore ?ops) 1" by code_simp
  moreover have "hasReference (foldl layer_step emptyStore ?ops) 1 1" by code_simp
  moreover have "chainID (deref (foldl layer_step emptyStore ?ops) 1) = ''h''" by code_simp
  ultimately show ?thesis
    using held_reference_pins_chain [of ?ops 1 1 "[OpGet ''h'', OpRelease okIO (0, 0), OpRelease okIO (2, 1)]"]
    by (simp add: Let_def)
qed


text \<open>A release fails only with the error of the driver or of the metadata store.\<close>

lemma deleteLayer_error:
  "deleteLayer io ls a = Some (ls', Inl e) \<Longrightarrow> \<exists>msg. e = ErrBackend msg"
  by (auto simp: deleteLayer_def Let_def split: option.splits Option.bind_splits)

definition backend_failure :: "layerStore \<times> (layer_error, 'a) outcome \<Rightarrow> bool" where
  "backend_failure y \<longleftrightarrow> (case snd y of Failed e \<Rightarrow> \<exists>msg. e = ErrBackend msg | _ \<Rightarrow> True)"

lemma backend_failure_simps [simp]:
  "backend_failure (s, Panicked m)" "backend_failure (s, Done d)"
  "backend_failure (s, Failed e) \<longleftrightarrow> (\<exists>msg. e = ErrBackend msg)"
  by (simp_all add: backend_failure_def)

lemma releaseLoop_error:
  assumes "releaseLoop io ls a dep removed = Some y"
  shows "backend_failure y"
proof (rule releaseLoop.raw_induct [OF _ assms], goal_cases)
  case (1 loop io ls a dep removed y)
  define ls1 where "ls1 = modify a (\<lambda>rl. rl\<lparr>referenceCount := referenceCount rl - 1\<rparr>) ls"
  note eq = 1(2) [unfolded Let_def, folded ls1_def]
  show ?case
  proof (cases "deleteLayer io ls1 a")
    case None
    then show ?thesis using eq by (auto split: if_splits)
  next
    case (Some r)
    obtain ls2 q where r: "r = (ls2, q)" by (cases r)
    show ?thesis
    proof (cases q)
      case (Inl e)
      then show ?thesis using eq Some r deleteLayer_error [of io ls1 a ls2 e] by (auto split: if_splits)
    next
      case (Inr m)
      then show ?thesis using eq Some r 1(1) by (auto split: if_splits option.splits)
    qed
  qed
qed

lemma releaseLayer_error:
  "releaseLayer io ls a = Some (ls', Failed e) \<Longrightarrow> \<exists>msg. e = ErrBackend msg"
  using releaseLoop_error [of io ls a 0 "[]" "(ls', Failed e)"]
  by (simp add: releaseLayer_def backend_failure_def)

lemma live_deleteReference: "live (deleteReference ls a r) b = live ls b"
proof (cases "a < length (heap ls)")
  case True
  then show ?thesis unfolding deleteReference_def by (intro modify_same_shape) simp_all
next
  case False
  then show ?thesis by (simp add: deleteReference_def modify_def live_def deref_def list_update_beyond not_less)
qed

lemma chainID_deleteReference: "chainID (deref (deleteReference ls a r) b) = chainID (deref ls b)"
  by (cases "a < length (heap ls)") (auto simp: deleteReference_def, simp add: modify_def deref_def list_update_beyond not_less)

text \<open>
  \<^verbatim>\<open>Release\<close> succeeds with a report that lists exactly the layers that left the store,
  or fails without a panic; it fails with \<^verbatim>\<open>ErrLayerNotRetained\<close>, changing nothing, exactly
  when the layer is in the map and the reference is not one that was handed out on it.
\<close>

theorem release_reports_removed:
  "let ls = foldl layer_step emptyStore ops in
   case Release io ls l of
     None \<Rightarrow> False
   | Some (ls', Panicked m) \<Rightarrow> False
   | Some (ls', Failed e) \<Rightarrow>
       e = ErrLayerNotRetained \<and> ls' = ls \<and>
         (\<exists>a. mget (layerMap ls) (chainID (deref ls (snd l))) = Some a \<and> \<not> hasReference ls a (fst l))
       \<or> (\<exists>msg. e = ErrBackend msg)
   | Some (ls', Done mds) \<Rightarrow> removed_exactly ls ls' mds"
proof -
  define ls where "ls = foldl layer_step emptyStore ops"
  have inv: "layer_inv (\<lambda>_. 0) ls" by (simp add: ls_def run_inv)
  show ?thesis
  proof (cases "mget (layerMap ls) (chainID (deref ls (snd l)))")
    case None
    then show ?thesis by (simp add: ls_def [symmetric] Release_def removed_exactly_def)
  next
    case (Some a)
    then have a: "live ls a" using lookup_live [OF inv_shape [OF inv]] by simp
    show ?thesis
    proof (cases "hasReference ls a (fst l)")
      case True
      let ?ls1 = "deleteReference ls a (fst l)"
      obtain ls' out where r: "releaseLayer io ?ls1 a = Some (ls', out)" "no_panic out"
        "\<forall>mds. out = Done mds \<longrightarrow> removed_exactly ?ls1 ls' mds"
        using releaseLayer_ok [OF deleteReference_inv [OF inv a True], of io] by auto
      then show ?thesis
        using Some True releaseLayer_error [of io ?ls1 a ls']
        by (cases out) (auto simp: ls_def [symmetric] Release_def removed_exactly_def live_deleteReference
            chainID_deleteReference)
    next
      case False
      then show ?thesis using Some by (simp add: ls_def [symmetric] Release_def)
    qed
  qed
qed


subsection \<open>Writable layers and failed registrations\<close>

text \<open>
  A writable layer that is mounted through a reference cannot be released through it: after
  \<^verbatim>\<open>Mount\<close> the release fails with \<^verbatim>\<open>ErrActiveMount\<close> and changes nothing, and
  \<^verbatim>\<open>Unmount\<close> brings the activity count back to what it was.
\<close>

theorem mounted_layer_not_released:
  assumes "mget (mounts ls) (rw_name l) = Some m" "rw_ref l \<in> set (ml_references m)"
    and "0 \<le> mget_or 0 (activityCount ls) (rw_ref l)"
  shows "let ls1 = fst (Mount io ls l) in
     ReleaseRWLayer io' ls1 l = Some (ls1, Failed ErrActiveMount) \<and>
     mget_or 0 (activityCount (fst (Unmount io'' ls1 l))) (rw_ref l) = mget_or 0 (activityCount ls) (rw_ref l) \<and>
     snd (Unmount io'' ls1 l) = map_option ErrBackend (io_driverPut io'' (rw_mountID l))"
  using assms
  by (auto simp: Mount_def Unmount_def ReleaseRWLayer_def deleteRWReference_def releaseRW_def Let_def)

definition mountRun :: "layerStore \<times> referencedRWLayer" where
  "mountRun =
     (case CreateRWLayer okIO True ''m'' emptyStore ''box'' [] of
        Some (ls, Done l) \<Rightarrow> (ls, l)
      | _ \<Rightarrow> (emptyStore, \<lparr>rw_ref = 9, rw_name = [], rw_mountID = []\<rparr>))"

theorem mounted_layer_not_released_witness:
  "ReleaseRWLayer okIO (fst (Mount okIO (fst mountRun) (snd mountRun))) (snd mountRun) =
     Some (fst (Mount okIO (fst mountRun) (snd mountRun)), Failed ErrActiveMount)"
proof -
  have "mget (mounts (fst mountRun)) (rw_name (snd mountRun)) =
      Some \<lparr>ml_name = ''box'', mountID = ''m'', initID = ''m-init'', ml_parent = None, ml_references = [0]\<rparr>"
    by code_simp
  moreover have "rw_ref (snd mountRun) = 0" by code_simp
  moreover have "mget_or 0 (activityCount (fst mountRun)) 0 = 0" by code_simp
  ultimately show ?thesis
    using mounted_layer_not_released [of "fst mountRun" "snd mountRun" _ okIO okIO okIO] by (simp add: Let_def)
qed

lemma registerTx_log:
  assumes "registerTx io hash cid ls p = (err, ls', out)"
  shows "\<exists>mid. calls ls' = calls ls @ mid"
  using assms
  by (auto simp: registerTx_def registerCommit_def getWithoutLock_def getReference_def Let_def
      split: sum.splits option.splits if_splits)


definition noTxIO :: layer_io where
  "noTxIO = okIO\<lparr>io_startTransaction := Some ''disk full''\<rparr>"


end
