(* ===== verification/Image_Store.thy ===== *)
theory Image_Store
  imports Layer_Properties
begin

section \<open>The image store (\<^verbatim>\<open>image/store.go\<close>, \<^verbatim>\<open>image/fs.go\<close>)\<close>

text \<open>
  The file backend keeps the configurations under their digests, with a metadata directory per
  image; the store keeps, for every image, the reference it took on its top layer and the set of
  its children.  The digest is an argument \<open>hash\<close>, the JSON decoder an argument \<open>unmarshal\<close> (the
  root file system of an image may be missing from the JSON), and the outcome of each system call
  and of the third-party digest set is a field of \<open>fs_io\<close>.  The image store calls the layer store
  through \<^verbatim>\<open>LayerGetReleaser\<close>, whose contract is the locale \<open>layer_get_releaser\<close>.
\<close>

subsection \<open>The file backend\<close>

type_synonym bytes = string

datatype image_error =
    ErrIO string
  | ErrNotExist
  | ErrVerify
  | ErrEmptyData
  | ErrJSON
  | ErrNoRootFS
  | ErrTooManyLayers
  | ErrUnrecognizedImage
  | ErrUnknownParent
  | ErrLayer layer_error
  | ErrDigestSet string

record fs_io =
  io_write :: "string option"
  io_rename :: "string option"
  io_mkdir :: "string option"
  io_removeAll :: "string option"
  io_remove :: "string option"
  io_digestAdd :: "string option"

record fs =
  content :: "(string, bytes) gomap"
  meta :: "(string, (string, bytes) gomap) gomap"

definition fs_get :: "(bytes \<Rightarrow> string) \<Rightarrow> fs \<Rightarrow> string \<Rightarrow> (image_error, bytes) result" where
  "fs_get hash s i =
     (case mget (content s) i of
        None \<Rightarrow> Inl ErrNotExist
      | Some c \<Rightarrow> if hash c \<noteq> i then Inl ErrVerify else Inr c)"

definition fs_Set :: "fs_io \<Rightarrow> (bytes \<Rightarrow> string) \<Rightarrow> fs \<Rightarrow> bytes \<Rightarrow> fs \<times> (image_error, string) result" where
  "fs_Set io hash s data =
     (if data = [] then (s, Inl ErrEmptyData)
      else
        case io_write io of
          Some e \<Rightarrow> (s, Inl (ErrIO e))
        | None \<Rightarrow>
            (case io_rename io of
               Some e \<Rightarrow> (s, Inl (ErrIO e))
             | None \<Rightarrow> (s\<lparr>content := mput (hash data) data (content s)\<rparr>, Inr (hash data))))"

definition fs_Delete :: "fs_io \<Rightarrow> fs \<Rightarrow> string \<Rightarrow> fs \<times> image_error option" where
  "fs_Delete io s i =
     (case io_removeAll io of
        Some e \<Rightarrow> (s, Some (ErrIO e))
      | None \<Rightarrow>
          (let s1 = s\<lparr>meta := mdel i (meta s)\<rparr> in
           if mget (content s1) i = None then (s1, Some ErrNotExist)
           else
             case io_remove io of
               Some e \<Rightarrow> (s1, Some (ErrIO e))
             | None \<Rightarrow> (s1\<lparr>content := mdel i (content s1)\<rparr>, None)))"

definition fs_SetMetadata ::
  "fs_io \<Rightarrow> (bytes \<Rightarrow> string) \<Rightarrow> fs \<Rightarrow> string \<Rightarrow> string \<Rightarrow> bytes \<Rightarrow> fs \<times> image_error option" where
  "fs_SetMetadata io hash s i key data =
     (case fs_get hash s i of
        Inl e \<Rightarrow> (s, Some e)
      | Inr c \<Rightarrow>
          (case io_mkdir io of
             Some e \<Rightarrow> (s, Some (ErrIO e))
           | None \<Rightarrow>
               (case io_write io of
                  Some e \<Rightarrow> (s, Some (ErrIO e))
                | None \<Rightarrow>
                    (case io_rename io of
                       Some e \<Rightarrow> (s, Some (ErrIO e))
                     | None \<Rightarrow> (s\<lparr>meta := nput i key data (meta s)\<rparr>, None)))))"

definition fs_GetMetadata :: "(bytes \<Rightarrow> string) \<Rightarrow> fs \<Rightarrow> string \<Rightarrow> string \<Rightarrow> (image_error, bytes) result" where
  "fs_GetMetadata hash s i key =
     (case fs_get hash s i of
        Inl e \<Rightarrow> Inl e
      | Inr c \<Rightarrow> (case nget (meta s) i key of None \<Rightarrow> Inl ErrNotExist | Some d \<Rightarrow> Inr d))"

definition fs_DeleteMetadata :: "fs_io \<Rightarrow> fs \<Rightarrow> string \<Rightarrow> string \<Rightarrow> fs \<times> image_error option" where
  "fs_DeleteMetadata io s i key =
     (case io_removeAll io of
        Some e \<Rightarrow> (s, Some (ErrIO e))
      | None \<Rightarrow> (s\<lparr>meta := ndel i key (meta s)\<rparr>, None))"

subsection \<open>The store\<close>

record image =
  img_diffIDs :: "diff_id list option"
  img_history :: "bool list"

record imageMeta =
  im_layer :: "(ref_id \<times> addr) option"
  im_children :: "string list"

record image_store =
  images :: "(string, imageMeta) gomap"
  backend :: fs
  layers_of :: layerStore

text \<open>\<^verbatim>\<open>imageMeta.children\<close> is a map to the empty struct: a set, kept as a list without duplicates.\<close>

definition add_child :: "string \<Rightarrow> imageMeta \<Rightarrow> imageMeta" where
  "add_child i im = im\<lparr>im_children := List.insert i (im_children im)\<rparr>"

definition del_child :: "string \<Rightarrow> imageMeta \<Rightarrow> imageMeta" where
  "del_child i im = im\<lparr>im_children := removeAll i (im_children im)\<rparr>"

definition GetParent :: "(bytes \<Rightarrow> string) \<Rightarrow> image_store \<Rightarrow> string \<Rightarrow> (image_error, string) result" where
  "GetParent hash st i = fs_GetMetadata hash (backend st) i ''parent''"

text \<open>\<^verbatim>\<open>NewFromJSON\<close> rejects a configuration without a root file system.\<close>

definition NewFromJSON :: "(bytes \<Rightarrow> image option) \<Rightarrow> bytes \<Rightarrow> (image_error, image) result" where
  "NewFromJSON unmarshal src =
     (case unmarshal src of
        None \<Rightarrow> Inl ErrJSON
      | Some img \<Rightarrow> if img_diffIDs img = None then Inl ErrNoRootFS else Inr img)"

definition GetImage ::
  "(bytes \<Rightarrow> image option) \<Rightarrow> (bytes \<Rightarrow> string) \<Rightarrow> image_store \<Rightarrow> string \<Rightarrow>
   (image_error, image \<times> string) result" where
  "GetImage unmarshal hash st i =
     (case fs_get hash (backend st) i of
        Inl e \<Rightarrow> Inl e
      | Inr config \<Rightarrow>
          (case NewFromJSON unmarshal config of
             Inl e \<Rightarrow> Inl e
           | Inr img \<Rightarrow>
               Inr (img, case GetParent hash st i of Inl e \<Rightarrow> [] | Inr p \<Rightarrow> p)))"

definition layerCounter :: "image \<Rightarrow> nat" where
  "layerCounter img = length (filter (\<lambda>emptyLayer. \<not> emptyLayer) (img_history img))"

text \<open>
  \<^verbatim>\<open>Create\<close>.  It decodes the configuration itself and reads \<^verbatim>\<open>img.RootFS.DiffIDs\<close> without
  the check of \<^verbatim>\<open>NewFromJSON\<close>: a missing root file system is a nil dereference.
\<close>

definition registerImage ::
  "fs_io \<Rightarrow> (bytes \<Rightarrow> string) \<Rightarrow> image_store \<Rightarrow> string \<Rightarrow> diff_id list \<Rightarrow>
   image_store \<times> (image_error, string) outcome" where
  "registerImage io hash st imageID ds =
     (if mget (images st) imageID \<noteq> None then (st, Done imageID)
      else
        let layerID = CreateChainID hash ds;
            (ls', got) = (if layerID \<noteq> [] then (case Layer_Store.Get (layers_of st) layerID of
                              (ls', Inl e) \<Rightarrow> (ls', Inl e) | (ls', Inr r) \<Rightarrow> (ls', Inr (Some r)))
                          else (layers_of st, Inr None));
            st1 = st\<lparr>layers_of := ls'\<rparr>
        in case got of
             Inl e \<Rightarrow> (st1, Failed (ErrLayer e))
           | Inr l \<Rightarrow>
               (case io_digestAdd io of
                  Some e \<Rightarrow> (st1\<lparr>images := mdel imageID (mput imageID \<lparr>im_layer = l, im_children = []\<rparr> (images st1))\<rparr>,
                             Failed (ErrDigestSet e))
                | None \<Rightarrow> (st1\<lparr>images := mput imageID \<lparr>im_layer = l, im_children = []\<rparr> (images st1)\<rparr>,
                           Done imageID)))"

definition CreateImage ::
  "fs_io \<Rightarrow> (bytes \<Rightarrow> image option) \<Rightarrow> (bytes \<Rightarrow> string) \<Rightarrow> image_store \<Rightarrow> bytes \<Rightarrow>
   image_store \<times> (image_error, string) outcome" where
  "CreateImage io unmarshal hash st config =
     (case unmarshal config of
        None \<Rightarrow> (st, Failed ErrJSON)
      | Some img \<Rightarrow>
          (case img_diffIDs img of
             None \<Rightarrow> (st, Panicked ''nil pointer dereference'')
           | Some ds \<Rightarrow>
               if layerCounter img > length ds then (st, Failed ErrTooManyLayers)
               else
                 (case fs_Set io hash (backend st) config of
                    (b, Inl e) \<Rightarrow> (st\<lparr>backend := b\<rparr>, Failed e)
                  | (b, Inr dgst) \<Rightarrow> registerImage io hash (st\<lparr>backend := b\<rparr>) dgst ds)))"

text \<open>The errors of the backend in \<^verbatim>\<open>Delete\<close> are dropped, as in the code.\<close>

definition deleteChildLinks :: "fs_io \<Rightarrow> string list \<Rightarrow> fs \<Rightarrow> fs" where
  "deleteChildLinks io cs s = fold (\<lambda>c s. fst (fs_DeleteMetadata io s c ''parent'')) cs s"

definition unlinkFromParent :: "(bytes \<Rightarrow> string) \<Rightarrow> image_store \<Rightarrow> string \<Rightarrow> image_store" where
  "unlinkFromParent hash st i =
     (case GetParent hash st i of
        Inl e \<Rightarrow> st
      | Inr p \<Rightarrow>
          (case mget (images st) p of
             None \<Rightarrow> st
           | Some pm \<Rightarrow> st\<lparr>images := mput p (del_child i pm) (images st)\<rparr>))"

definition DeleteImage ::
  "fs_io \<Rightarrow> layer_io \<Rightarrow> (bytes \<Rightarrow> string) \<Rightarrow> image_store \<Rightarrow> string \<Rightarrow>
   (image_store \<times> (image_error, metadata list) outcome) option" where
  "DeleteImage io lio hash st i =
     (case mget (images st) i of
        None \<Rightarrow> Some (st, Failed ErrUnrecognizedImage)
      | Some im \<Rightarrow>
          (let st1 = st\<lparr>backend := deleteChildLinks io (im_children im) (backend st)\<rparr>;
               st2 = unlinkFromParent hash st1 i;
               st3 = st2\<lparr>images := mdel i (images st2), backend := fst (fs_Delete io (backend st2) i)\<rparr>
           in case im_layer im of
                None \<Rightarrow> Some (st3, Done [])
              | Some l \<Rightarrow>
                  Option.bind (Layer_Store.Release lio (layers_of st3) l) (\<lambda>(ls', out).
                    Some (st3\<lparr>layers_of := ls'\<rparr>,
                          case out of Panicked m \<Rightarrow> Panicked m | Failed e \<Rightarrow> Failed (ErrLayer e) | Done mds \<Rightarrow> Done mds))))"

definition SetParent ::
  "fs_io \<Rightarrow> (bytes \<Rightarrow> string) \<Rightarrow> image_store \<Rightarrow> string \<Rightarrow> string \<Rightarrow> image_store \<times> image_error option" where
  "SetParent io hash st i p =
     (case mget (images st) p of
        None \<Rightarrow> (st, Some ErrUnknownParent)
      | Some pm \<Rightarrow>
          (case fs_SetMetadata io hash (backend st) i ''parent'' p of
             (b, err) \<Rightarrow> (st\<lparr>images := mput p (add_child i pm) (images st), backend := b\<rparr>, err)))"

definition Children :: "image_store \<Rightarrow> string \<Rightarrow> string list" where
  "Children st i = (case mget (images st) i of None \<Rightarrow> [] | Some im \<Rightarrow> im_children im)"

definition imagesMap ::
  "(bytes \<Rightarrow> image option) \<Rightarrow> (bytes \<Rightarrow> string) \<Rightarrow> image_store \<Rightarrow> bool \<Rightarrow> (string, image \<times> string) gomap" where
  "imagesMap unmarshal hash st allImages =
     fold (\<lambda>i acc.
             if \<not> allImages \<and> Children st i \<noteq> [] then acc
             else case GetImage unmarshal hash st i of Inl e \<Rightarrow> acc | Inr img \<Rightarrow> mput i img acc)
       (mkeys (images st)) []"

definition Heads ::
  "(bytes \<Rightarrow> image option) \<Rightarrow> (bytes \<Rightarrow> string) \<Rightarrow> image_store \<Rightarrow> (string, image \<times> string) gomap" where
  "Heads unmarshal hash st = imagesMap unmarshal hash st False"


subsection \<open>The contract of \<^verbatim>\<open>LayerGetReleaser\<close>\<close>

locale layer_get_releaser =
  fixes get :: "'s \<Rightarrow> 'c \<Rightarrow> 's \<times> ('e + 'r)"
    and release :: "'s \<Rightarrow> 'r \<Rightarrow> 's"
    and held :: "'s \<Rightarrow> 'r \<Rightarrow> bool"
    and inv :: "'s \<Rightarrow> bool"
    and key :: "'r \<Rightarrow> 'k"
  assumes get_inv: "inv s \<Longrightarrow> inv (fst (get s c))"
    and get_new: "inv s \<Longrightarrow> get s c = (s', Inr r) \<Longrightarrow> held s' r"
    and get_fresh: "inv s \<Longrightarrow> get s c = (s', Inr r) \<Longrightarrow> held s r' \<Longrightarrow> key r' \<noteq> key r"
    and get_keeps: "inv s \<Longrightarrow> held s r \<Longrightarrow> held (fst (get s c)) r"
    and release_inv: "inv s \<Longrightarrow> inv (release s r)"
    and release_keeps: "inv s \<Longrightarrow> held s r' \<Longrightarrow> key r' \<noteq> key r \<Longrightarrow> held (release s r) r'"
begin

definition owns :: "'s \<Rightarrow> 'r set \<Rightarrow> bool" where
  "owns s R \<longleftrightarrow> inv s \<and> (\<forall>r \<in> R. held s r) \<and> inj_on key R"

lemma owns_get: "owns s R \<Longrightarrow> get s c = (s', Inr r) \<Longrightarrow> owns s' (insert r R)"
  using get_inv [of s c] get_new [of s c s' r] get_keeps [of s _ c] get_fresh [of s c s' r]
  by (auto simp: owns_def inj_on_def) metis+

lemma owns_get_error: "owns s R \<Longrightarrow> owns (fst (get s c)) R"
  using get_inv [of s c] get_keeps [of s _ c] by (auto simp: owns_def)

lemma owns_release:
  assumes "owns s R" "r \<in> R"
  shows "owns (release s r) (R - {r})"
proof -
  have "held (release s r) r'" if "r' \<in> R - {r}" for r'
    using release_keeps [of s r' r] assms that by (auto simp: owns_def inj_on_def)
  then show ?thesis using assms release_inv [of s r] by (auto simp: owns_def inj_on_def)
qed

end

definition held_layer :: "layerStore \<Rightarrow> ref_id \<times> addr \<Rightarrow> bool" where
  "held_layer ls l \<longleftrightarrow> live ls (snd l) \<and> hasReference ls (snd l) (fst l)"

definition released :: "layer_io \<Rightarrow> layerStore \<Rightarrow> ref_id \<times> addr \<Rightarrow> layerStore" where
  "released io ls l = (case Layer_Store.Release io ls l of None \<Rightarrow> ls | Some (ls', out) \<Rightarrow> ls')"

lemma released_step: "released io ls l = layer_step ls (OpRelease io l)"
  by (simp add: released_def layer_step_def settle_def split: option.split prod.split)

lemma fresh_ref: "layer_inv H ls \<Longrightarrow> live ls a \<Longrightarrow> \<not> hasReference ls a (nextRef ls)"
  using inv_refs [of H ls a] by (auto simp: hasReference_def)

lemma Get_new:
  assumes inv: "layer_inv H ls" and got: "Layer_Store.Get ls c = (ls', Inr l)"
  shows "held_layer ls' l \<and> fst l = nextRef ls"
proof -
  obtain ls1 a where g: "getWithoutLock ls c = (ls1, Some a)" and l: "getReference ls1 a = (ls', l)"
    using got by (auto simp: Get_def split: prod.splits option.splits)
  have o: "layer_inv (hold H (Some a)) ls1" "nextRef ls1 = nextRef ls"
    using getWithoutLock_ok [OF inv, of c] g by (auto simp: getWithoutLock_def split: option.splits)
  have a: "live ls1 a" by (rule held_live [OF o(1)])
  have r: "l = (nextRef ls1, a)" "hasReference ls' a (nextRef ls1)"
    using l live_bound [OF a] by (auto simp: getReference_def hasReference_def modify_def deref_def)
  have "live ls' a"
    using getReference_frame [OF a] r a l unfolding step_frame_def hasReference_def by auto
  with r o show ?thesis by (simp add: held_layer_def)
qed

lemma held_fresh: "layer_inv H ls \<Longrightarrow> held_layer ls l \<Longrightarrow> fst l < nextRef ls"
  using inv_refs [of H ls "snd l"] by (auto simp: held_layer_def hasReference_def)

lemma held_step:
  assumes "layer_inv H ls" "held_layer ls l" "\<not> releases (fst l) op"
  shows "held_layer (layer_step ls op) l"
  using reference_step [of H ls "snd l" "fst l" op] assms by (simp add: held_layer_def)


interpretation lgr: layer_get_releaser Layer_Store.Get "released io" held_layer "layer_inv H" fst for io H
proof unfold_locales
  fix s c and s' :: layerStore and r r' :: "ref_id \<times> addr"
  assume inv: "layer_inv H s"
  show "layer_inv H (fst (Layer_Store.Get s c))" using Get_ok [OF inv] by simp
  show "held_layer s' r" if "Layer_Store.Get s c = (s', Inr r)" using Get_new [OF inv that] by simp
  show "fst r' \<noteq> fst r" if "Layer_Store.Get s c = (s', Inr r)" "held_layer s r'"
    using Get_new [OF inv that(1)] held_fresh [OF inv that(2)] by simp
  show "held_layer (fst (Layer_Store.Get s c)) r" if "held_layer s r"
    using held_step [OF inv that, of "OpGet c"] by (simp add: layer_step_def)
  show "layer_inv H (released io s r)" using layer_exec_ok [OF inv, of "OpRelease io r"]
    by (simp add: released_step layer_step_def)
  show "held_layer (released io s r) r'" if "held_layer s r'" "fst r' \<noteq> fst r"
    using held_step [OF inv that(1), of "OpRelease io r"] that(2) by (auto simp: released_step)
qed

subsection \<open>Every image pins its layers\<close>

definition layer_at :: "image_store \<Rightarrow> string \<Rightarrow> (ref_id \<times> addr) option" where
  "layer_at st i = (case mget (images st) i of None \<Rightarrow> None | Some im \<Rightarrow> im_layer im)"

definition image_refs :: "image_store \<Rightarrow> (ref_id \<times> addr) set" where
  "image_refs st = {l. \<exists>i. layer_at st i = Some l}"

text \<open>The references of the images are held, and no two images own the same one.\<close>

definition image_inv :: "image_store \<Rightarrow> bool" where
  "image_inv st \<longleftrightarrow> lgr.owns (\<lambda>_. 0) (layers_of st) (image_refs st) \<and>
     (\<forall>i j l. layer_at st i = Some l \<and> layer_at st j = Some l \<longrightarrow> i = j)"

lemma image_inv_same:
  "image_inv st \<Longrightarrow> layers_of st' = layers_of st \<Longrightarrow> (\<And>i. layer_at st' i = layer_at st i) \<Longrightarrow> image_inv st'"
  by (simp add: image_inv_def image_refs_def)

lemma layer_at_fields [simp]:
  "layer_at (st\<lparr>backend := b\<rparr>) i = layer_at st i" "layer_at (st\<lparr>layers_of := ls\<rparr>) i = layer_at st i"
  by (simp_all add: layer_at_def)

lemma image_refs_upd:
  assumes "\<And>j. layer_at st' j = (if j = i then l else layer_at st j)"
  shows "x \<in> image_refs st' \<longleftrightarrow> l = Some x \<or> (\<exists>j. j \<noteq> i \<and> layer_at st j = Some x)"
  unfolding image_refs_def mem_Collect_eq assms by (metis option.distinct(1))

lemma image_inv_new:
  assumes inv: "image_inv st" and none: "layer_at st i = None"
    and own: "lgr.owns (\<lambda>_. 0) ls (case l of None \<Rightarrow> image_refs st | Some r \<Rightarrow> insert r (image_refs st))"
    and new: "\<And>r. l = Some r \<Longrightarrow> r \<notin> image_refs st"
    and st': "layers_of st' = ls" "\<And>j. layer_at st' j = (if j = i then l else layer_at st j)"
  shows "image_inv st'"
proof -
  have "image_refs st' = (case l of None \<Rightarrow> image_refs st | Some r \<Rightarrow> insert r (image_refs st))"
  proof (rule set_eqI)
    fix x
    have "(\<exists>j. j \<noteq> i \<and> layer_at st j = Some x) \<longleftrightarrow> x \<in> image_refs st"
      unfolding image_refs_def mem_Collect_eq using none by (metis option.distinct(1))
    then show "x \<in> image_refs st' \<longleftrightarrow> x \<in> (case l of None \<Rightarrow> image_refs st | Some r \<Rightarrow> insert r (image_refs st))"
      unfolding image_refs_upd [OF st'(2)] by (auto split: option.split)
  qed
  with own have "lgr.owns (\<lambda>_. 0) (layers_of st') (image_refs st')" by (simp add: st')
  moreover have "j = k" if "layer_at st' j = Some r \<and> layer_at st' k = Some r" for j k r
    using that new inv by (auto simp: st' image_inv_def image_refs_def split: if_splits)
  ultimately show ?thesis by (simp add: image_inv_def)
qed

lemma owned_live: "image_inv st \<Longrightarrow> layer_inv (\<lambda>_. 0) (layers_of st)"
  by (simp add: image_inv_def lgr.owns_def)

lemma registerImage_inv:
  assumes inv: "image_inv st"
  shows "image_inv (fst (registerImage io hash st i ds))"
proof (cases "mget (images st) i")
  case (Some im)
  then show ?thesis using inv by (simp add: registerImage_def)
next
  case None
  then have none: "layer_at st i = None" by (simp add: layer_at_def)
  note own = inv [unfolded image_inv_def, THEN conjunct1]
  have at: "layer_at (s\<lparr>images := mput i \<lparr>im_layer = l, im_children = []\<rparr> (images s)\<rparr>) j =
      (if j = i then l else layer_at s j)" for s l j
    by (simp add: layer_at_def)
  have gone: "layer_at (s\<lparr>images := mdel i (mput i im (images s))\<rparr>) j = (if j = i then None else layer_at s j)" for s im j
    by (simp add: layer_at_def)
  show ?thesis
  proof (cases "CreateChainID hash ds = []")
    case True
    have "image_inv (st\<lparr>images := mput i \<lparr>im_layer = None, im_children = []\<rparr> (images st)\<rparr>)"
      by (rule image_inv_new [OF inv none, of _ None]) (use own in \<open>simp_all add: at\<close>)
    moreover have "image_inv (st\<lparr>images := mdel i (mput i im (images st))\<rparr>)" for im
      by (rule image_inv_new [OF inv none, of _ None]) (use own in \<open>simp_all add: gone\<close>)
    ultimately show ?thesis using None True by (simp add: registerImage_def split: option.split)
  next
    case False
    obtain ls' r where g: "Layer_Store.Get (layers_of st) (CreateChainID hash ds) = (ls', r)" by fastforce
    show ?thesis
    proof (cases r)
      case (Inl e)
      have "lgr.owns (\<lambda>_. 0) ls' (image_refs st)" using lgr.owns_get_error [OF own, of "CreateChainID hash ds"] g by simp
      then have "image_inv (st\<lparr>layers_of := ls'\<rparr>)"
        using inv by (simp add: image_inv_def image_refs_def)
      then show ?thesis using None False g Inl by (simp add: registerImage_def)
    next
      case (Inr l)
      then have own': "lgr.owns (\<lambda>_. 0) ls' (insert l (image_refs st))" using lgr.owns_get [OF own] g by simp
      have new: "l \<notin> image_refs st"
        using own Get_new [OF owned_live [OF inv], of "CreateChainID hash ds" ls' l] g Inr
          held_fresh [OF owned_live [OF inv], of l] by (auto simp: lgr.owns_def)
      have "image_inv (st\<lparr>layers_of := ls', images := mput i \<lparr>im_layer = Some l, im_children = []\<rparr> (images st)\<rparr>)"
        by (rule image_inv_new [OF inv none, of _ "Some l"])
          (use own' new in \<open>simp_all add: layer_at_def\<close>)
      moreover have "lgr.owns (\<lambda>_. 0) ls' (image_refs st)" using own' by (auto simp: lgr.owns_def inj_on_def)
      then have "image_inv (st\<lparr>layers_of := ls', images := mdel i (mput i im (images st))\<rparr>)" for im
        by (intro image_inv_new [OF inv none, of _ None]) (simp_all add: layer_at_def)
      ultimately show ?thesis using None False g Inr by (simp add: registerImage_def Let_def split: option.split)
    qed
  qed
qed

lemma CreateImage_inv:
  assumes "image_inv st"
  shows "image_inv (fst (CreateImage io unmarshal hash st config))"
proof -
  have b: "image_inv (st\<lparr>backend := b\<rparr>)" for b by (rule image_inv_same [OF assms]) simp_all
  show ?thesis
    using assms b registerImage_inv [OF b] by (auto simp: CreateImage_def split: option.split prod.split sum.split)
qed

lemma SetParent_inv:
  assumes "image_inv st"
  shows "image_inv (fst (SetParent io hash st i p))"
proof -
  have "image_inv (st\<lparr>images := mput p (add_child i pm) (images st), backend := b\<rparr>)" if "mget (images st) p = Some pm" for pm b
    by (rule image_inv_same [OF assms]) (use that in \<open>simp_all add: layer_at_def add_child_def\<close>)
  then show ?thesis using assms by (auto simp: SetParent_def split: option.split prod.split)
qed

lemma unlink_layers: "layer_at (unlinkFromParent hash st i) j = layer_at st j"
  "layers_of (unlinkFromParent hash st i) = layers_of st"
  by (auto simp: unlinkFromParent_def layer_at_def del_child_def split: sum.split option.split)

lemma DeleteImage_inv:
  assumes inv: "image_inv st"
  shows "\<exists>st' out. DeleteImage io lio hash st i = Some (st', out) \<and> no_panic out \<and> image_inv st'"
proof (cases "mget (images st) i")
  case None
  then show ?thesis using inv by (simp add: DeleteImage_def)
next
  case (Some im)
  define st2 where "st2 = unlinkFromParent hash (st\<lparr>backend := deleteChildLinks io (im_children im) (backend st)\<rparr>) i"
  define st3 where "st3 = st2\<lparr>images := mdel i (images st2), backend := fst (fs_Delete io (backend st2) i)\<rparr>"
  have at: "layer_at st3 j = (if j = i then None else layer_at st j)" for j
    using unlink_layers(1) [of hash "st\<lparr>backend := deleteChildLinks io (im_children im) (backend st)\<rparr>" i j]
    by (simp add: st3_def st2_def layer_at_def)
  have ls: "layers_of st3 = layers_of st" by (simp add: st3_def st2_def unlink_layers)
  have at_i: "layer_at st i = im_layer im" using Some by (simp add: layer_at_def)
  note own = inv [unfolded image_inv_def, THEN conjunct1]
  have refs: "image_refs st3 = image_refs st - (case im_layer im of None \<Rightarrow> {} | Some l \<Rightarrow> {l})"
  proof (rule set_eqI)
    fix x
    have "(\<exists>j. j \<noteq> i \<and> layer_at st j = Some x) \<longleftrightarrow> x \<in> image_refs st \<and> im_layer im \<noteq> Some x"
      using inv at_i unfolding image_refs_def image_inv_def mem_Collect_eq by metis
    then show "x \<in> image_refs st3 \<longleftrightarrow> x \<in> image_refs st - (case im_layer im of None \<Rightarrow> {} | Some l \<Rightarrow> {l})"
      unfolding image_refs_upd [OF at] by (auto split: option.split)
  qed
  have uniq: "\<forall>j k l. layer_at st3 j = Some l \<and> layer_at st3 k = Some l \<longrightarrow> j = k"
    using inv by (auto simp: at image_inv_def)
  have D: "DeleteImage io lio hash st i = (case im_layer im of None \<Rightarrow> Some (st3, Done [])
      | Some l \<Rightarrow> Option.bind (Layer_Store.Release lio (layers_of st3) l) (\<lambda>(ls', out). Some (st3\<lparr>layers_of := ls'\<rparr>,
           case out of Panicked m \<Rightarrow> Panicked m | Failed e \<Rightarrow> Failed (ErrLayer e) | Done mds \<Rightarrow> Done mds)))"
    using Some by (simp add: DeleteImage_def Let_def st3_def st2_def split: option.split)
  show ?thesis
  proof (cases "im_layer im")
    case None
    then have "image_inv st3" using own refs uniq ls by (simp add: image_inv_def)
    then show ?thesis using D None by simp
  next
    case (Some l)
    have l: "l \<in> image_refs st" using at_i Some by (auto simp: image_refs_def)
    obtain ls' out where r: "Layer_Store.Release lio (layers_of st) l = Some (ls', out)" "no_panic out"
      using Release_ok [OF owned_live [OF inv], of lio l] by (auto simp: op_ok_def)
    have "lgr.owns (\<lambda>_. 0) ls' (image_refs st - {l})"
      using lgr.owns_release [OF own l, of lio] r by (simp add: released_def)
    then have "image_inv (st3\<lparr>layers_of := ls'\<rparr>)"
      using refs uniq Some by (simp add: image_inv_def image_refs_def [of "st3\<lparr>layers_of := ls'\<rparr>"] image_refs_def [of st3])
    then show ?thesis using D Some r ls by (cases out) simp_all
  qed
qed


subsection \<open>Runs of the image store beside other users of the layer store\<close>

text \<open>
  The image store shares the layer store with pulls, builds and containers: between its own
  operations any other layer operation may run that does not release a reference an image owns.
\<close>

inductive image_step :: "image_store \<Rightarrow> image_store \<Rightarrow> bool" where
  create: "image_step st (fst (CreateImage io unmarshal hash st config))"
| delete: "DeleteImage io lio hash st i = Some (st', out) \<Longrightarrow> image_step st st'"
| set_parent: "image_step st (fst (SetParent io hash st i p))"
| layer: "\<forall>l \<in> image_refs st. \<not> releases (fst l) op \<Longrightarrow>
          image_step st (st\<lparr>layers_of := layer_step (layers_of st) op\<rparr>)"

definition emptyImageStore :: image_store where
  "emptyImageStore = \<lparr>images = [], backend = \<lparr>content = [], meta = []\<rparr>, layers_of = emptyStore\<rparr>"

lemma image_step_inv: "image_step st st' \<Longrightarrow> image_inv st \<Longrightarrow> image_inv st'"
proof (induction rule: image_step.induct)
  case (delete io lio hash st i st' out)
  then show ?case using DeleteImage_inv [of st io lio hash i] by auto
next
  case (layer st op)
  have inv: "layer_inv (\<lambda>_. 0) (layers_of st)" by (rule owned_live [OF layer.prems])
  have "layer_inv (\<lambda>_. 0) (layer_step (layers_of st) op)"
    using layer_exec_ok [OF inv, of op] by (simp add: layer_step_def)
  moreover have "held_layer (layer_step (layers_of st) op) l" if "l \<in> image_refs st" for l
    using held_step [OF inv, of l op] layer that by (auto simp: image_inv_def lgr.owns_def)
  ultimately show ?case
    using layer.prems by (simp add: image_inv_def lgr.owns_def image_refs_def)
qed (simp_all add: CreateImage_inv SetParent_inv)

lemma image_run_inv: "image_step\<^sup>*\<^sup>* st st' \<Longrightarrow> image_inv st \<Longrightarrow> image_inv st'"
  by (induction rule: rtranclp_induct) (simp_all add: image_step_inv)

lemma empty_image_inv: "image_inv emptyImageStore"
  using empty_inv by (simp add: image_inv_def lgr.owns_def image_refs_def emptyImageStore_def layer_at_def)


definition okFS :: fs_io where
  "okFS = \<lparr>io_write = None, io_rename = None, io_mkdir = None, io_removeAll = None, io_remove = None, io_digestAdd = None\<rparr>"

definition oneLayer :: "bytes \<Rightarrow> image option" where
  "oneLayer c = Some \<lparr>img_diffIDs = Some [''d''], img_history = [False]\<rparr>"

definition imageRun :: image_store where
  "imageRun = fst (CreateImage okFS oneLayer id
     (emptyImageStore\<lparr>layers_of := layer_step emptyStore (OpRegister okIO id ''c1'' [])\<rparr>) ''cfg'')"



subsection \<open>Parent links\<close>

datatype image_op =
    OpCreateImage fs_io bytes
  | OpDeleteImage fs_io layer_io string
  | OpSetParent fs_io string string

fun image_exec :: "(bytes \<Rightarrow> image option) \<Rightarrow> (bytes \<Rightarrow> string) \<Rightarrow> image_store \<Rightarrow> image_op \<Rightarrow> image_store" where
  "image_exec unmarshal hash st (OpCreateImage io config) = fst (CreateImage io unmarshal hash st config)"
| "image_exec unmarshal hash st (OpDeleteImage io lio i) =
     (case DeleteImage io lio hash st i of None \<Rightarrow> st | Some (st', out) \<Rightarrow> st')"
| "image_exec unmarshal hash st (OpSetParent io i p) = fst (SetParent io hash st i p)"

fun removal_works :: "image_op \<Rightarrow> bool" where
  "removal_works (OpDeleteImage io lio i) = (io_removeAll io = None)"
| "removal_works op = True"

definition child_of :: "image_store \<Rightarrow> string \<Rightarrow> string \<Rightarrow> bool" where
  "child_of st p x \<longleftrightarrow> (case mget (images st) p of None \<Rightarrow> False | Some pm \<Rightarrow> x \<in> set (im_children pm))"

definition links_ok :: "image_store \<Rightarrow> bool" where
  "links_ok st \<longleftrightarrow> (\<forall>x p. nget (meta (backend st)) x ''parent'' = Some p \<longrightarrow> child_of st p x)"

lemma links_mono:
  "links_ok st \<Longrightarrow> (\<And>x. nget (meta (backend st')) x ''parent'' = nget (meta (backend st)) x ''parent'') \<Longrightarrow>
   (\<And>p x. child_of st p x \<Longrightarrow> child_of st' p x) \<Longrightarrow> links_ok st'"
  by (simp add: links_ok_def)

lemma fs_Set_meta: "meta (fst (fs_Set io hash s data)) = meta s"
  by (auto simp: fs_Set_def split: option.split)

lemma registerImage_links:
  assumes "links_ok st"
  shows "links_ok (fst (registerImage io hash st i ds))"
proof (cases "mget (images st) i")
  case (Some im)
  then show ?thesis using assms by (simp add: registerImage_def)
next
  case None
  have *: "links_ok (st\<lparr>layers_of := ls, images := ms\<rparr>)" if "\<And>p. p \<noteq> i \<Longrightarrow> mget ms p = mget (images st) p" for ls ms
  proof (rule links_mono [OF assms])
    show "child_of (st\<lparr>layers_of := ls, images := ms\<rparr>) p x" if "child_of st p x" for p x
    proof -
      have "p \<noteq> i" using None that by (auto simp: child_of_def)
      then show ?thesis using that \<open>\<And>p. p \<noteq> i \<Longrightarrow> mget ms p = mget (images st) p\<close> by (simp add: child_of_def)
    qed
  qed simp
  have **: "links_ok (st\<lparr>images := ms\<rparr>)" if "\<And>p. p \<noteq> i \<Longrightarrow> mget ms p = mget (images st) p" for ms
    using * [of ms "layers_of st"] that by simp
  have "links_ok (st\<lparr>layers_of := ls\<rparr>)" for ls by (rule links_mono [OF assms]) (simp_all add: child_of_def)
  then show ?thesis
    using * ** None by (auto simp: registerImage_def Let_def split: prod.split sum.split option.split)
qed

lemma CreateImage_links: "links_ok st \<Longrightarrow> links_ok (fst (CreateImage io unmarshal hash st config))"
proof -
  assume l: "links_ok st"
  have b: "links_ok (st\<lparr>backend := b\<rparr>)" if "meta b = meta (backend st)" for b
    by (rule links_mono [OF l]) (simp_all add: that child_of_def)
  show ?thesis
    using l b fs_Set_meta [of io hash "backend st" config] registerImage_links
    by (auto simp: CreateImage_def split: option.split prod.split sum.split)
qed

lemma SetParent_links:
  assumes "links_ok st"
  shows "links_ok (fst (SetParent io hash st i p))"
proof (cases "mget (images st) p")
  case None
  then show ?thesis using assms by (simp add: SetParent_def)
next
  case (Some pm)
  obtain b err where b: "fs_SetMetadata io hash (backend st) i ''parent'' p = (b, err)" by fastforce
  have m: "meta b = meta (backend st) \<or> meta b = nput i ''parent'' p (meta (backend st))"
    using b by (auto simp: fs_SetMetadata_def split: sum.splits option.splits)
  define st' where "st' = st\<lparr>images := mput p (add_child i pm) (images st), backend := b\<rparr>"
  have keep: "child_of st' q x" if "child_of st q x" for q x
    using that Some by (auto simp: child_of_def add_child_def st'_def)
  have new: "child_of st' p i" by (simp add: child_of_def add_child_def st'_def)
  have "child_of st' q x" if "nget (meta b) x ''parent'' = Some q" for x q
    using that m new keep assms by (auto simp: links_ok_def split: if_splits)
  then have "links_ok st'" by (simp add: links_ok_def st'_def)
  then show ?thesis using Some b by (simp add: SetParent_def st'_def)
qed

lemma deleteChildLinks_get:
  "io_removeAll io = None \<Longrightarrow>
   nget (meta (deleteChildLinks io cs s)) x ''parent'' =
     (if x \<in> set cs then None else nget (meta s) x ''parent'')"
  unfolding deleteChildLinks_def
  by (induction cs arbitrary: s) (auto simp: fs_DeleteMetadata_def)

lemma fs_Delete_meta:
  "io_removeAll io = None \<Longrightarrow>
   nget (meta (fst (fs_Delete io s i))) x k = (if x = i then None else nget (meta s) x k)"
  by (auto simp: fs_Delete_def Let_def nget_def split: option.split)


lemma child_unlink:
  "child_of st p x \<Longrightarrow> x \<noteq> i \<Longrightarrow> child_of (unlinkFromParent hash st i) p x"
  by (auto simp: child_of_def unlinkFromParent_def del_child_def split: sum.split option.split option.splits)

lemma unlink_backend: "backend (unlinkFromParent hash st i) = backend st"
  by (auto simp: unlinkFromParent_def split: sum.split option.split)

lemma DeleteImage_links:
  assumes l: "links_ok st" and io: "io_removeAll io = None" and d: "DeleteImage io lio hash st i = Some (st', out)"
  shows "links_ok st'"
proof (cases "mget (images st) i")
  case None
  then show ?thesis using l d by (simp add: DeleteImage_def)
next
  case (Some im)
  define st1 where "st1 = st\<lparr>backend := deleteChildLinks io (im_children im) (backend st)\<rparr>"
  define st2 where "st2 = unlinkFromParent hash st1 i"
  define st3 where "st3 = st2\<lparr>images := mdel i (images st2), backend := fst (fs_Delete io (backend st2) i)\<rparr>"
  have st': "images st' = images st3" "backend st' = backend st3"
    using d Some unfolding DeleteImage_def
    by (auto simp: Let_def st1_def st2_def st3_def split: option.splits Option.bind_splits)
  have "child_of st3 p x" if x: "nget (meta (backend st3)) x ''parent'' = Some p" for x p
  proof -
    have x': "x \<noteq> i" "nget (meta (backend st1)) x ''parent'' = Some p"
      using x io by (auto simp: st3_def st2_def fs_Delete_meta unlink_backend split: if_splits)
    then have "nget (meta (backend st)) x ''parent'' = Some p" "x \<notin> set (im_children im)"
      using io by (auto simp: st1_def deleteChildLinks_get split: if_splits)
    moreover from this have c1: "child_of st p x" using l by (simp add: links_ok_def)
    ultimately have c: "child_of st p x" "p \<noteq> i" using Some by (auto simp: child_of_def)
    then have "child_of st1 p x" by (simp add: st1_def child_of_def)
    then have "child_of st2 p x" unfolding st2_def using x'(1) by (rule child_unlink)
    then show ?thesis using c(2) by (simp add: st3_def child_of_def)
  qed
  then show ?thesis by (simp add: links_ok_def child_of_def st')
qed

lemma image_exec_links: "links_ok st \<Longrightarrow> removal_works op \<Longrightarrow> links_ok (image_exec unmarshal hash st op)"
  by (cases op) (auto simp: CreateImage_links SetParent_links split: option.split intro: DeleteImage_links)

interpretation links: guarded_system emptyImageStore "image_exec unmarshal hash" links_ok removal_works
  for unmarshal hash
  by unfold_locales (simp_all add: image_exec_links, simp add: links_ok_def emptyImageStore_def)

text \<open>
  C22: as long as the file system can remove metadata, a parent link never dangles: the parent an
  image names is in the store and counts the image among its children, after any sequence of
  creations, deletions and re-parentings.
\<close>

theorem parent_links_never_dangle:
  assumes "list_all removal_works ops"
    and "GetParent hash (foldl (image_exec unmarshal hash) emptyImageStore ops) x = Inr p"
  shows "x \<in> set (Children (foldl (image_exec unmarshal hash) emptyImageStore ops) p)"
proof -
  let ?st = "foldl (image_exec unmarshal hash) emptyImageStore ops"
  have "nget (meta (backend ?st)) x ''parent'' = Some p"
    using assms(2) by (auto simp: GetParent_def fs_GetMetadata_def split: sum.splits option.splits)
  then have "child_of ?st p x" using links.guarded_run [OF assms(1)] by (simp add: links_ok_def)
  then show ?thesis by (simp add: child_of_def Children_def split: option.splits)
qed

definition scratchImage :: "bytes \<Rightarrow> image option" where
  "scratchImage c = Some \<lparr>img_diffIDs = Some [], img_history = []\<rparr>"

definition family :: "image_op list" where
  "family = [OpCreateImage okFS ''p1'', OpCreateImage okFS ''p2'', OpCreateImage okFS ''c'',
     OpSetParent okFS ''c'' ''p1'', OpSetParent okFS ''c'' ''p2'']"

theorem parent_links_never_dangle_witness:
  "''c'' \<in> set (Children (foldl (image_exec scratchImage id) emptyImageStore family) ''p2'')"
proof (rule parent_links_never_dangle)
  show "list_all removal_works family" by (simp add: family_def)
  show "GetParent id (foldl (image_exec scratchImage id) emptyImageStore family) ''c'' = Inr ''p2''" by code_simp
qed

text \<open>
  Re-parenting an image leaves it among the children of its old parent, so deleting the old
  parent removes the link to the new one: the image loses its parent although the new parent still
  counts it as a child.
\<close>

theorem reparenting_leaves_stale_child:
  "let st = foldl (image_exec scratchImage id) emptyImageStore family;
       st' = image_exec scratchImage id st (OpDeleteImage okFS okIO ''p1'') in
   GetParent id st ''c'' = Inr ''p2'' \<and> ''c'' \<in> set (Children st ''p1'') \<and>
   GetParent id st' ''c'' = Inl ErrNotExist \<and> ''c'' \<in> set (Children st' ''p2'')"
  by code_simp

text \<open>
  \<^verbatim>\<open>Create\<close> on a configuration without a root file system panics, although
  \<^verbatim>\<open>NewFromJSON\<close> turns the same configuration down with an error.
\<close>

theorem create_without_rootfs_panics:
  assumes "unmarshal config = Some img" "img_diffIDs img = None"
  shows "CreateImage io unmarshal hash st config = (st, Panicked ''nil pointer dereference'') \<and>
     NewFromJSON unmarshal config = Inl ErrNoRootFS"
  using assms by (simp add: CreateImage_def NewFromJSON_def)

definition noRootFS :: "bytes \<Rightarrow> image option" where
  "noRootFS c = Some \<lparr>img_diffIDs = None, img_history = []\<rparr>"

theorem create_without_rootfs_panics_witness:
  "\<not> no_panic (snd (CreateImage okFS noRootFS id emptyImageStore ''{}''))"
  using create_without_rootfs_panics [of noRootFS "''{}''" "\<lparr>img_diffIDs = None, img_history = []\<rparr>" okFS id emptyImageStore]
  by (simp add: noRootFS_def)

end
