(* ===== verification/Reference_Store.thy ===== *)
theory Reference_Store
  imports Go_Strings "HOL-Library.List_Lexorder" "HOL-Library.Char_ord"
begin

section \<open>Image references and the reference store (\<^verbatim>\<open>reference/\<close>)\<close>

text \<open>
  \<^verbatim>\<open>reference.go\<close>: names, tags and digests, and the normal form of a repository name.
  \<^verbatim>\<open>store.go\<close>: the repositories with their references and the cache of references by image.
  The grammar of the package \<^verbatim>\<open>docker/distribution/reference\<close> is third-party: its parser and
  its three validity checks are arguments (\<open>dist\<close>, \<open>validName\<close>).  The outcome of writing the JSON
  file is an argument of the operations that save.
\<close>

subsection \<open>References\<close>

datatype ref_kind = NameOnly | Tagged string | Digested string

record named =
  refName :: string
  refKind :: ref_kind

definition refString :: "named \<Rightarrow> string" where
  "refString r =
     (case refKind r of
        NameOnly \<Rightarrow> refName r
      | Tagged t \<Rightarrow> refName r @ '':'' @ t
      | Digested d \<Rightarrow> refName r @ ''@'' @ d)"

definition DefaultTag :: string where "DefaultTag = ''latest''"
definition DefaultHostname :: string where "DefaultHostname = ''docker.io''"
definition LegacyDefaultHostname :: string where "LegacyDefaultHostname = ''index.docker.io''"
definition DefaultRepoPrefix :: string where "DefaultRepoPrefix = ''library/''"

definition IsNameOnly :: "named \<Rightarrow> bool" where
  "IsNameOnly r \<longleftrightarrow> (case refKind r of NameOnly \<Rightarrow> True | _ \<Rightarrow> False)"

definition isCanonical :: "named \<Rightarrow> bool" where
  "isCanonical r \<longleftrightarrow> (case refKind r of Digested d \<Rightarrow> True | _ \<Rightarrow> False)"

definition WithDefaultTag :: "named \<Rightarrow> named" where
  "WithDefaultTag r = (if IsNameOnly r then r\<lparr>refKind := Tagged DefaultTag\<rparr> else r)"

definition splitHostname :: "string \<Rightarrow> string \<times> string" where
  "splitHostname name =
     (let (hostname, remoteName) =
            (if CHR ''/'' \<notin> set name \<or>
                (CHR ''.'' \<notin> set (before CHR ''/'' name) \<and> CHR '':'' \<notin> set (before CHR ''/'' name)
                 \<and> before CHR ''/'' name \<noteq> ''localhost'')
             then (DefaultHostname, name)
             else (before CHR ''/'' name, after CHR ''/'' name));
          hostname = (if hostname = LegacyDefaultHostname then DefaultHostname else hostname);
          remoteName = (if hostname = DefaultHostname \<and> CHR ''/'' \<notin> set remoteName
                        then DefaultRepoPrefix @ remoteName else remoteName)
      in (hostname, remoteName))"

definition normalize :: "string \<Rightarrow> string" where
  "normalize name =
     (let (host, remoteName) = splitHostname name in
      if host = DefaultHostname
      then (if has_prefix remoteName DefaultRepoPrefix then trim_prefix remoteName DefaultRepoPrefix
            else remoteName)
      else name)"

definition FullName :: "named \<Rightarrow> string" where
  "FullName r = (case splitHostname (refName r) of (h, n) \<Rightarrow> h @ ''/'' @ n)"

definition Hostname :: "named \<Rightarrow> string" where
  "Hostname r = fst (splitHostname (refName r))"

definition RemoteName :: "named \<Rightarrow> string" where
  "RemoteName r = snd (splitHostname (refName r))"

datatype ref_error =
    ErrDoesNotExist
  | ErrParsing string
  | ErrInvalidHexName string
  | ErrReferenceInvalidFormat
  | ErrDigestAsTag
  | ErrAmbiguousName
  | ErrOverwriteDigest string
  | ErrTagConflict string string
  | ErrSave string

definition ValidateID :: "string \<Rightarrow> bool" where
  "ValidateID i \<longleftrightarrow> length i = 64 \<and>
     list_all (\<lambda>c. is_digit c \<or> (97 \<le> (of_char c :: nat) \<and> (of_char c :: nat) \<le> 102)) i"

definition validateName :: "string \<Rightarrow> ref_error option" where
  "validateName name = (if ValidateID name then Some (ErrInvalidHexName name) else None)"

definition WithName :: "(string \<Rightarrow> bool) \<Rightarrow> string \<Rightarrow> (ref_error, named) result" where
  "WithName validName name =
     (let name = normalize name in
      case validateName name of
        Some e \<Rightarrow> Inl e
      | None \<Rightarrow> if validName name then Inr \<lparr>refName = name, refKind = NameOnly\<rparr>
                else Inl ErrReferenceInvalidFormat)"

text \<open>
  \<^verbatim>\<open>ParseNamed\<close>.  The tag or digest the third-party parser returned is accepted again by
  \<^verbatim>\<open>WithTag\<close> and \<^verbatim>\<open>WithDigest\<close>, which check it with the same expressions.
\<close>

definition ParseNamed ::
  "(string \<Rightarrow> named option) \<Rightarrow> (string \<Rightarrow> bool) \<Rightarrow> string \<Rightarrow> (ref_error, named) result" where
  "ParseNamed dist validName s =
     (case dist s of
        None \<Rightarrow> Inl (ErrParsing s)
      | Some n \<Rightarrow>
          (case WithName validName (refName n) of
             Inl e \<Rightarrow> Inl e
           | Inr r \<Rightarrow> Inr (r\<lparr>refKind := refKind n\<rparr>)))"

subsection \<open>The store\<close>

type_synonym image_id = string

record ref_store =
  Repositories :: "(string, (string, image_id) gomap) gomap"
  referencesByIDCache :: "(image_id, (string, named) gomap) gomap"

definition emptyRefStore :: ref_store where
  "emptyRefStore = \<lparr>Repositories = [], referencesByIDCache = []\<rparr>"

definition addReference ::
  "string option \<Rightarrow> ref_store \<Rightarrow> named \<Rightarrow> image_id \<Rightarrow> bool \<Rightarrow> ref_store \<times> ref_error option" where
  "addReference saved st ref i force =
     (if refName ref = ''sha256'' then (st, Some ErrAmbiguousName)
      else
        let refStr = refString ref in
        case nget (Repositories st) (refName ref) refStr of
          Some oldID \<Rightarrow>
            (case refKind ref of
               Digested d \<Rightarrow> (st, Some (ErrOverwriteDigest d))
             | _ \<Rightarrow>
                 if \<not> force then (st, Some (ErrTagConflict refStr oldID))
                 else
                   (st\<lparr>Repositories := nput (refName ref) refStr i (Repositories st),
                       referencesByIDCache :=
                         nput i refStr ref (ndel oldID refStr (referencesByIDCache st))\<rparr>,
                    map_option ErrSave saved))
        | None \<Rightarrow>
            (st\<lparr>Repositories := nput (refName ref) refStr i (Repositories st),
                referencesByIDCache := nput i refStr ref (referencesByIDCache st)\<rparr>,
             map_option ErrSave saved))"

definition AddTag ::
  "string option \<Rightarrow> ref_store \<Rightarrow> named \<Rightarrow> image_id \<Rightarrow> bool \<Rightarrow> ref_store \<times> ref_error option" where
  "AddTag saved st ref i force =
     (if isCanonical ref then (st, Some ErrDigestAsTag)
      else addReference saved st (WithDefaultTag ref) i force)"

definition AddDigest ::
  "string option \<Rightarrow> ref_store \<Rightarrow> named \<Rightarrow> image_id \<Rightarrow> bool \<Rightarrow> ref_store \<times> ref_error option" where
  "AddDigest saved st ref i force = addReference saved st ref i force"

definition DeleteRef :: "string option \<Rightarrow> ref_store \<Rightarrow> named \<Rightarrow> ref_store \<times> bool \<times> ref_error option" where
  "DeleteRef saved st ref0 =
     (let ref = WithDefaultTag ref0; refStr = refString ref in
      case mget (Repositories st) (refName ref) of
        None \<Rightarrow> (st, False, Some ErrDoesNotExist)
      | Some repository \<Rightarrow>
          (case mget repository refStr of
             Some i \<Rightarrow>
               (st\<lparr>Repositories := ndel (refName ref) refStr (Repositories st),
                   referencesByIDCache := ndel i refStr (referencesByIDCache st)\<rparr>,
                True, map_option ErrSave saved)
           | None \<Rightarrow> (st, False, Some ErrDoesNotExist)))"

definition GetRef :: "ref_store \<Rightarrow> named \<Rightarrow> (ref_error, image_id) result" where
  "GetRef st ref0 =
     (let ref = WithDefaultTag ref0 in
      case mget (Repositories st) (refName ref) of
        None \<Rightarrow> Inl ErrDoesNotExist
      | Some repository \<Rightarrow>
          (case mget repository (refString ref) of None \<Rightarrow> Inl ErrDoesNotExist | Some i \<Rightarrow> Inr i))"

definition References :: "ref_store \<Rightarrow> image_id \<Rightarrow> named list" where
  "References st i = sort_key refString (map snd (mget_or [] (referencesByIDCache st) i))"

fun associations ::
  "(string \<Rightarrow> (ref_error, named) result) \<Rightarrow> (string, image_id) gomap \<Rightarrow> (named \<times> image_id) list option" where
  "associations parse [] = Some []"
| "associations parse ((refStr, refID) # es) =
     (case parse refStr of
        Inl e \<Rightarrow> None
      | Inr ref \<Rightarrow> map_option (Cons (ref, refID)) (associations parse es))"

definition ReferencesByName ::
  "(string \<Rightarrow> (ref_error, named) result) \<Rightarrow> ref_store \<Rightarrow> named \<Rightarrow> (named \<times> image_id) list" where
  "ReferencesByName parse st ref =
     (case mget (Repositories st) (refName ref) of
        None \<Rightarrow> []
      | Some repository \<Rightarrow>
          (case associations parse repository of
             None \<Rightarrow> []
           | Some as \<Rightarrow> sort_key (\<lambda>a. refString (fst a)) as))"

text \<open>The loops of \<^verbatim>\<open>reload\<close> over the repositories that the file holds.\<close>

fun reloadRepository ::
  "(string \<Rightarrow> (ref_error, named) result) \<Rightarrow> (string, image_id) gomap \<Rightarrow>
   (image_id, (string, named) gomap) gomap \<Rightarrow> (image_id, (string, named) gomap) gomap" where
  "reloadRepository parse [] cache = cache"
| "reloadRepository parse ((refStr, refID) # es) cache =
     (case parse refStr of
        Inl e \<Rightarrow> reloadRepository parse es cache
      | Inr ref \<Rightarrow> reloadRepository parse es (nput refID refStr ref cache))"

fun reloadAll ::
  "(string \<Rightarrow> (ref_error, named) result) \<Rightarrow> (string, (string, image_id) gomap) gomap \<Rightarrow>
   (image_id, (string, named) gomap) gomap \<Rightarrow> (image_id, (string, named) gomap) gomap" where
  "reloadAll parse [] cache = cache"
| "reloadAll parse ((n, repository) # rs) cache = reloadAll parse rs (reloadRepository parse repository cache)"

definition reload :: "(string \<Rightarrow> (ref_error, named) result) \<Rightarrow> (string, (string, image_id) gomap) gomap \<Rightarrow> ref_store" where
  "reload parse repos = \<lparr>Repositories = repos, referencesByIDCache = reloadAll parse repos []\<rparr>"


subsection \<open>References are determined by their strings\<close>

definition valid_ref :: "named \<Rightarrow> bool" where
  "valid_ref r \<longleftrightarrow> CHR ''@'' \<notin> set (refName r) \<and>
     (case refKind r of
        NameOnly \<Rightarrow> True
      | Tagged t \<Rightarrow> CHR '':'' \<notin> set t \<and> CHR ''@'' \<notin> set t
      | Digested d \<Rightarrow> CHR ''@'' \<notin> set d)"

definition storable :: "named \<Rightarrow> bool" where
  "storable r \<longleftrightarrow> valid_ref r \<and> \<not> IsNameOnly r"

lemma sep_unique_first:
  assumes "a @ (c :: char) # x = b @ c # y" "c \<notin> set a" "c \<notin> set b"
  shows "a = b \<and> x = y"
  using arg_cong [OF assms(1), of "before c"] arg_cong [OF assms(1), of "after c"] assms(2,3) by simp

lemma sep_unique_last:
  assumes "a @ (c :: char) # x = b @ c # y" "c \<notin> set x" "c \<notin> set y"
  shows "a = b \<and> x = y"
proof -
  have "rev x @ c # rev a = rev y @ c # rev b" using arg_cong [OF assms(1), of rev] by simp
  then show ?thesis using sep_unique_first [of "rev x" c "rev a" "rev y" "rev b"] assms by simp
qed

lemma refString_inj:
  assumes "storable r" "storable r'" "refString r = refString r'"
  shows "r = r'"
proof (cases "refKind r")
  case NameOnly
  then show ?thesis using assms by (simp add: storable_def IsNameOnly_def)
next
  case r: (Tagged t)
  then have no: "CHR ''@'' \<notin> set (refString r)" using assms(1) by (simp add: storable_def valid_ref_def refString_def)
  show ?thesis
  proof (cases "refKind r'")
    case (Tagged t')
    then show ?thesis
      using r assms sep_unique_last [of "refName r" "CHR '':''" t "refName r'" t']
      by (simp add: storable_def valid_ref_def refString_def)
  qed (use assms r no in \<open>auto simp: storable_def IsNameOnly_def refString_def\<close>)
next
  case r: (Digested d)
  show ?thesis
  proof (cases "refKind r'")
    case (Digested d')
    then show ?thesis
      using r assms sep_unique_first [of "refName r" "CHR ''@''" d "refName r'" d']
      by (simp add: storable_def valid_ref_def refString_def)
  next
    case (Tagged t')
    then have "CHR ''@'' \<notin> set (refString r')"
      using assms(2) by (simp add: storable_def valid_ref_def refString_def)
    moreover have "CHR ''@'' \<in> set (refString r)" using r by (simp add: refString_def)
    ultimately show ?thesis using assms(3) by simp
  qed (use assms r in \<open>auto simp: storable_def IsNameOnly_def\<close>)
qed

lemma storable_default: "valid_ref r \<Longrightarrow> storable (WithDefaultTag r)"
  by (auto simp: storable_def valid_ref_def WithDefaultTag_def IsNameOnly_def DefaultTag_def
      split: ref_kind.splits)

subsection \<open>The store represents one map from references to images\<close>

definition rs_inv :: "ref_store \<Rightarrow> bool" where
  "rs_inv st \<longleftrightarrow> wf_nmap (Repositories st) \<and> wf_nmap (referencesByIDCache st) \<and>
     (\<forall>i s r. nget (referencesByIDCache st) i s = Some r \<longleftrightarrow>
        storable r \<and> refString r = s \<and> nget (Repositories st) (refName r) s = Some i) \<and>
     (\<forall>n s. nget (Repositories st) n s \<noteq> None \<longrightarrow> (\<exists>r. storable r \<and> refName r = n \<and> refString r = s))"

definition stored :: "ref_store \<Rightarrow> named \<Rightarrow> image_id option" where
  "stored st r = nget (Repositories st) (refName r) (refString r)"

lemma put_inv:
  assumes inv: "rs_inv st" and r: "storable r" and free: "stored st r = None"
  shows "rs_inv (st\<lparr>Repositories := nput (refName r) (refString r) i (Repositories st),
     referencesByIDCache := nput i (refString r) r (referencesByIDCache st)\<rparr>)"
proof -
  have "r' = r" if "storable r'" "refString r' = refString r" for r'
    using refString_inj [OF that(1) r that(2)] .
  then show ?thesis
    using inv r free unfolding rs_inv_def stored_def by (auto split: if_splits)
qed

lemma del_inv:
  assumes inv: "rs_inv st" and r: "storable r" and at: "stored st r = Some i"
  shows "rs_inv (st\<lparr>Repositories := ndel (refName r) (refString r) (Repositories st),
     referencesByIDCache := ndel i (refString r) (referencesByIDCache st)\<rparr>)"
proof -
  have "r' = r" if "storable r'" "refString r' = refString r" for r'
    using refString_inj [OF that(1) r that(2)] .
  then show ?thesis
    using inv r at unfolding rs_inv_def stored_def by (auto split: if_splits)
qed


datatype ref_op =
    OpAddTag "string option" named image_id bool
  | OpAddDigest "string option" named image_id bool
  | OpDeleteRef "string option" named

fun ref_op_ok :: "ref_op \<Rightarrow> bool" where
  "ref_op_ok (OpAddTag sv r i f) = valid_ref r"
| "ref_op_ok (OpAddDigest sv r i f) = (valid_ref r \<and> isCanonical r)"
| "ref_op_ok (OpDeleteRef sv r) = valid_ref r"

fun ref_step :: "ref_store \<Rightarrow> ref_op \<Rightarrow> ref_store" where
  "ref_step st (OpAddTag sv r i f) = fst (AddTag sv st r i f)"
| "ref_step st (OpAddDigest sv r i f) = fst (AddDigest sv st r i f)"
| "ref_step st (OpDeleteRef sv r) = fst (DeleteRef sv st r)"

text \<open>The abstract store: one map from references to images; a digest is never overwritten.\<close>

definition spec_add :: "(named \<rightharpoonup> image_id) \<Rightarrow> named \<Rightarrow> image_id \<Rightarrow> bool \<Rightarrow> (named \<rightharpoonup> image_id)" where
  "spec_add m r i force =
     (if refName r = ''sha256'' \<or> m r \<noteq> None \<and> (isCanonical r \<or> \<not> force) then m else m(r \<mapsto> i))"

fun ref_spec :: "(named \<rightharpoonup> image_id) \<Rightarrow> ref_op \<Rightarrow> (named \<rightharpoonup> image_id)" where
  "ref_spec m (OpAddTag sv r i f) = (if isCanonical r then m else spec_add m (WithDefaultTag r) i f)"
| "ref_spec m (OpAddDigest sv r i f) = spec_add m r i f"
| "ref_spec m (OpDeleteRef sv r) = m(WithDefaultTag r := None)"

definition ref_abs :: "ref_store \<Rightarrow> (named \<rightharpoonup> image_id)" where
  "ref_abs st = (\<lambda>r. if storable r then stored st r else None)"

lemma replace_inv:
  assumes inv: "rs_inv st" and r: "storable r" and at: "stored st r = Some old"
  shows "rs_inv (st\<lparr>Repositories := nput (refName r) (refString r) i (Repositories st),
     referencesByIDCache := nput i (refString r) r (ndel old (refString r) (referencesByIDCache st))\<rparr>)"
proof -
  have "r' = r" if "storable r'" "refString r' = refString r" for r'
    using refString_inj [OF that(1) r that(2)] .
  then show ?thesis
    using inv r at unfolding rs_inv_def stored_def by (auto split: if_splits)
qed

lemma addReference_inv:
  assumes inv: "rs_inv st" and r: "storable r"
  shows "rs_inv (fst (addReference sv st r i f)) \<and>
    ref_abs (fst (addReference sv st r i f)) = spec_add (ref_abs st) r i f"
proof -
  have "r' = r" if "storable r'" "refString r' = refString r" for r'
    using refString_inj [OF that(1) r that(2)] .
  then show ?thesis
    using inv put_inv [OF inv r, of i] replace_inv [OF inv r, of _ i] r
    by (auto simp: addReference_def Let_def spec_add_def ref_abs_def stored_def isCanonical_def fun_eq_iff
        split: option.splits ref_kind.splits)
qed

lemma DeleteRef_found:
  "fst (DeleteRef sv st r) =
     (case stored st (WithDefaultTag r) of
        None \<Rightarrow> st
      | Some i \<Rightarrow> st\<lparr>Repositories := ndel (refName (WithDefaultTag r)) (refString (WithDefaultTag r)) (Repositories st),
                    referencesByIDCache := ndel i (refString (WithDefaultTag r)) (referencesByIDCache st)\<rparr>)"
  by (auto simp: DeleteRef_def Let_def stored_def nget_def mget_or_def split: option.split)

lemma DeleteRef_inv:
  assumes inv: "rs_inv st" and r: "valid_ref r"
  shows "rs_inv (fst (DeleteRef sv st r)) \<and>
    ref_abs (fst (DeleteRef sv st r)) = (ref_abs st)(WithDefaultTag r := None)"
proof -
  note s = storable_default [OF r]
  have "r' = WithDefaultTag r" if "storable r'" "refString r' = refString (WithDefaultTag r)" for r'
    using refString_inj [OF that(1) s that(2)] .
  then show ?thesis
    using del_inv [OF inv s] s inv unfolding DeleteRef_found
    by (auto simp: ref_abs_def stored_def fun_eq_iff split: option.splits)
qed

lemma ref_step_ok:
  assumes "rs_inv st" "ref_op_ok op"
  shows "rs_inv (ref_step st op) \<and> ref_abs (ref_step st op) = ref_spec (ref_abs st) op"
proof -
  have can: "storable r" if "valid_ref r" "isCanonical r" for r
    using that by (auto simp: storable_def isCanonical_def IsNameOnly_def split: ref_kind.splits)
  show ?thesis
    using assms addReference_inv [OF assms(1)] DeleteRef_inv [OF assms(1)] storable_default can
    by (cases op) (auto simp: AddTag_def AddDigest_def)
qed

lemma empty_rs_inv: "rs_inv emptyRefStore \<and> ref_abs emptyRefStore = Map.empty"
  by (simp add: rs_inv_def emptyRefStore_def ref_abs_def stored_def fun_eq_iff)

interpretation refs: guarded_system emptyRefStore ref_step rs_inv ref_op_ok
  by unfold_locales (use empty_rs_inv ref_step_ok in blast)+

lemma ref_run_abs:
  "rs_inv st \<Longrightarrow> list_all ref_op_ok ops \<Longrightarrow> ref_abs (foldl ref_step st ops) = foldl ref_spec (ref_abs st) ops"
  by (induction ops arbitrary: st) (simp_all add: ref_step_ok)

lemma References_cases:
  assumes "rs_inv st"
  shows "set (References st i) = {r. ref_abs st r = Some i}" and "distinct (map refString (References st i))"
proof -
  let ?c = "mget_or [] (referencesByIDCache st) i"
  have wf: "wf_map ?c" using assms by (simp add: rs_inv_def wf_nmap_def)
  have mem: "(s, r) \<in> set ?c \<longleftrightarrow> storable r \<and> refString r = s \<and> stored st r = Some i" for s r
    using assms wf_map_mem [OF wf, of s r] by (auto simp: rs_inv_def nget_def stored_def)
  have "r \<in> snd ` set ?c \<longleftrightarrow> (\<exists>s. (s, r) \<in> set ?c)" for r by (auto simp: image_iff) (metis snd_conv)
  then have "r \<in> snd ` set ?c \<longleftrightarrow> storable r \<and> stored st r = Some i" for r by (simp add: mem)
  then show "set (References st i) = {r. ref_abs st r = Some i}"
    by (simp add: References_def ref_abs_def set_eq_iff)
  have eq: "map refString (map snd ?c) = map fst ?c"
    using mem by (simp add: map_eq_conv split_paired_all)
  have "distinct (map refString (map snd ?c))" unfolding eq using wf by (simp add: wf_map_def)
  then show "distinct (map refString (References st i))"
    unfolding References_def distinct_map [of refString] by (simp only: distinct_sort set_sort)
qed

lemma GetRef_abs:
  "valid_ref r \<Longrightarrow> GetRef st r =
     (case ref_abs st (WithDefaultTag r) of None \<Rightarrow> Inl ErrDoesNotExist | Some i \<Rightarrow> Inr i)"
  using storable_default [of r]
  by (auto simp: GetRef_def Let_def ref_abs_def stored_def nget_def mget_or_def split: option.split)

text \<open>
  C18: after any sequence of tag, digest and delete operations on valid references, whatever saving
  the file returned, the store represents one map from references to images in which a digest is
  never overwritten: \<^verbatim>\<open>Get\<close> reads it and \<^verbatim>\<open>References\<close> lists exactly the references of
  the image, each once and in the order of their strings.
\<close>

theorem reference_store_refines_map:
  assumes "list_all ref_op_ok ops"
  shows "let st = foldl ref_step emptyRefStore ops; m = foldl ref_spec Map.empty ops in
     (\<forall>r. valid_ref r \<longrightarrow> GetRef st r =
        (case m (WithDefaultTag r) of None \<Rightarrow> Inl ErrDoesNotExist | Some i \<Rightarrow> Inr i)) \<and>
     (\<forall>i. set (References st i) = {r. m r = Some i} \<and> distinct (References st i) \<and>
        sorted (map refString (References st i)))"
proof -
  let ?st = "foldl ref_step emptyRefStore ops"
  have inv: "rs_inv ?st" by (rule refs.guarded_run [OF assms])
  have abs: "foldl ref_spec Map.empty ops = ref_abs ?st"
    using ref_run_abs [OF _ assms, of emptyRefStore] empty_rs_inv by simp
  have "distinct (References ?st i)" for i
    using References_cases(2) [OF inv, of i] by (rule distinct_map [THEN iffD1, THEN conjunct1])
  then show ?thesis
    using References_cases(1) [OF inv] GetRef_abs [of _ ?st] by (simp add: abs Let_def References_def)
qed

definition busybox :: named where
  "busybox = \<lparr>refName = ''busybox'', refKind = NameOnly\<rparr>"

theorem reference_store_refines_map_witness:
  "GetRef (foldl ref_step emptyRefStore
     [OpAddTag None busybox ''i1'' False, OpAddTag None busybox ''i2'' False,
      OpAddTag (Some ''disk full'') busybox ''i3'' True]) busybox = Inr ''i3''"
proof -
  let ?ops = "[OpAddTag None busybox ''i1'' False, OpAddTag None busybox ''i2'' False,
      OpAddTag (Some ''disk full'') busybox ''i3'' True]"
  have v: "valid_ref busybox" by (simp add: valid_ref_def busybox_def)
  have "foldl ref_spec Map.empty ?ops (WithDefaultTag busybox) = Some ''i3''"
    by (simp add: spec_add_def busybox_def isCanonical_def WithDefaultTag_def IsNameOnly_def)
  with reference_store_refines_map [of ?ops] v show ?thesis by (simp add: Let_def)
qed


subsection \<open>Normal form of repository names\<close>

definition host_like :: "string \<Rightarrow> bool" where
  "host_like s \<longleftrightarrow> CHR ''.'' \<in> set s \<or> CHR '':'' \<in> set s \<or> s = ''localhost''"

lemma splitHostname_no_host:
  "CHR ''/'' \<notin> set name \<or> \<not> host_like (before CHR ''/'' name) \<Longrightarrow>
   splitHostname name = (DefaultHostname, if CHR ''/'' \<in> set name then name else DefaultRepoPrefix @ name)"
  by (auto simp: splitHostname_def host_like_def DefaultHostname_def LegacyDefaultHostname_def)

lemma splitHostname_host:
  "CHR ''/'' \<in> set name \<Longrightarrow> host_like (before CHR ''/'' name) \<Longrightarrow>
   snd (splitHostname name) = after CHR ''/'' name \<or>
   snd (splitHostname name) = DefaultRepoPrefix @ after CHR ''/'' name"
  by (auto simp: splitHostname_def host_like_def Let_def)

lemma default_remote_slash:
  "fst (splitHostname name) = DefaultHostname \<Longrightarrow> CHR ''/'' \<in> set (snd (splitHostname name))"
  by (auto simp: splitHostname_def Let_def DefaultRepoPrefix_def split: if_splits)

lemma after_shorter: "c \<in> set s \<Longrightarrow> length (after c s) < length s"
  by (subst (2) before_after) auto

lemma default_prefix_length: "length DefaultRepoPrefix = 8"
  by (simp add: DefaultRepoPrefix_def)

lemma remote_shorter:
  assumes "CHR ''/'' \<in> set t"
  shows "length (snd (splitHostname t)) < 8 + length t"
  using splitHostname_no_host [of t] splitHostname_host [of t] assms after_shorter [OF assms]
  by (cases "host_like (before CHR ''/'' t)") (auto simp: default_prefix_length)

definition stable_name :: "string \<Rightarrow> bool" where
  "stable_name name \<longleftrightarrow>
     (let (h, r) = splitHostname name in
      h \<noteq> DefaultHostname \<or>
      (if has_prefix r DefaultRepoPrefix then CHR ''/'' \<notin> set (trim_prefix r DefaultRepoPrefix)
       else \<not> host_like (before CHR ''/'' r)))"

text \<open>
  \<^verbatim>\<open>normalize\<close> keeps the host and the remote name of a repository, and is idempotent on
  it, exactly for the names that stay on another host, name an official image
  (\<^verbatim>\<open>library/\<close> and one component), or have a first component on the default host that does not
  read as a host.  The others change: \<^verbatim>\<open>library/library/x\<close> becomes \<^verbatim>\<open>library/x\<close>, another
  repository, and \<^verbatim>\<open>docker.io/a.b/c\<close> becomes \<^verbatim>\<open>a.b/c\<close> on the host \<^verbatim>\<open>a.b\<close>.
\<close>

theorem normalize_keeps_repository:
  "(splitHostname (normalize name) = splitHostname name \<and> normalize (normalize name) = normalize name)
   \<longleftrightarrow> stable_name name"
proof -
  obtain h r where s: "splitHostname name = (h, r)" by fastforce
  show ?thesis
  proof (cases "h = DefaultHostname")
    case False
    then show ?thesis using s by (simp add: normalize_def stable_name_def)
  next
    case host: True
    have slash: "CHR ''/'' \<in> set r" using default_remote_slash [of name] s host by simp
    show ?thesis
    proof (cases "has_prefix r DefaultRepoPrefix")
      case True
      then obtain t where r: "r = DefaultRepoPrefix @ t" by (auto simp: has_prefix_iff)
      then have n: "normalize name = t" using s host by (simp add: normalize_def)
      have "splitHostname t \<noteq> (h, r)" if "CHR ''/'' \<in> set t"
        using remote_shorter [OF that] by (auto simp: r default_prefix_length)
      moreover have "splitHostname t = (h, r)" if "CHR ''/'' \<notin> set t"
        using splitHostname_no_host [of t] that host r by simp
      ultimately show ?thesis
        using s n host r by (auto simp: stable_name_def normalize_def [of t])
    next
      case False
      then have n: "normalize name = r" using s host by (simp add: normalize_def)
      have "splitHostname r = (h, r)" if "\<not> host_like (before CHR ''/'' r)"
        using splitHostname_no_host [of r] that slash host by simp
      moreover have "snd (splitHostname r) \<noteq> r" if "host_like (before CHR ''/'' r)"
        using splitHostname_host [OF slash that] after_shorter [OF slash] False
        by (auto simp: has_prefix_iff) (metis less_irrefl)+
      ultimately show ?thesis
        using s n host False by (auto simp: stable_name_def normalize_def [of r])
    qed
  qed
qed

subsection \<open>Restarting\<close>

lemma reloadRepository_get:
  assumes "wf_map es"
  shows "nget (reloadRepository parse es cache) i s =
     (case mget es s of
        Some i' \<Rightarrow> (case parse s of Inr r \<Rightarrow> if i' = i then Some r else nget cache i s | Inl e \<Rightarrow> nget cache i s)
      | None \<Rightarrow> nget cache i s)"
  using assms
proof (induction es arbitrary: cache)
  case (Cons e es)
  obtain s' i' where e: "e = (s', i')" by (cases e)
  with Cons.prems have "wf_map es" "mget es s' = None" by (auto simp: wf_map_def map_of_eq_None_iff)
  with Cons.IH e show ?case by (auto split: option.split sum.split)
qed simp


lemma reloadAll_get:
  assumes "\<forall>e \<in> set repos. wf_map (snd e)"
  shows "nget (reloadAll parse repos cache) i s =
     (if \<exists>e \<in> set repos. mget (snd e) s = Some i
      then (case parse s of Inr r \<Rightarrow> Some r | Inl e \<Rightarrow> nget cache i s) else nget cache i s)"
  using assms
proof (induction repos arbitrary: cache)
  case (Cons e repos)
  obtain n es where e: "e = (n, es)" by (cases e)
  with Cons show ?case by (auto simp: reloadRepository_get split: option.split sum.split)
qed simp

lemma wf_nmap_inner: "wf_nmap m \<Longrightarrow> e \<in> set m \<Longrightarrow> wf_map (snd e) \<and> mget_or [] m (fst e) = snd e"
  by (cases e) (auto simp: wf_nmap_def wf_map_mem mget_or_def split: option.splits)

lemma nget_entry:
  "wf_nmap m \<Longrightarrow> (\<exists>e \<in> set m. mget (snd e) b = Some v) \<longleftrightarrow> (\<exists>a. nget m a b = Some v)"
proof
  assume wf: "wf_nmap m" and "\<exists>e \<in> set m. mget (snd e) b = Some v"
  then show "\<exists>a. nget m a b = Some v" using wf_nmap_inner [OF wf] by (force simp: nget_def)
next
  assume wf: "wf_nmap m" and "\<exists>a. nget m a b = Some v"
  then obtain a inner where "mget m a = Some inner" "mget inner b = Some v"
    by (auto simp: nget_def mget_or_def split: option.splits)
  then show "\<exists>e \<in> set m. mget (snd e) b = Some v" by (metis map_of_SomeD snd_conv)
qed

text \<open>
  A restart restores the store: when the parser reads back every reference that is stored,
  reloading the saved repositories rebuilds the cache of references by image exactly.
\<close>

theorem reload_restores_cache:
  assumes "list_all ref_op_ok ops"
    and "\<forall>r. foldl ref_spec Map.empty ops r \<noteq> None \<longrightarrow> parse (refString r) = Inr r"
  shows "let st = foldl ref_step emptyRefStore ops; st' = reload parse (Repositories st) in
     Repositories st' = Repositories st \<and>
     (\<forall>i s. nget (referencesByIDCache st') i s = nget (referencesByIDCache st) i s)"
proof -
  let ?st = "foldl ref_step emptyRefStore ops"
  let ?cache = "referencesByIDCache (reload parse (Repositories ?st))"
  have inv: "rs_inv ?st" by (rule refs.guarded_run [OF assms(1)])
  have abs: "foldl ref_spec Map.empty ops = ref_abs ?st"
    using ref_run_abs [OF _ assms(1), of emptyRefStore] empty_rs_inv by simp
  have wf: "wf_nmap (Repositories ?st)" using inv by (simp add: rs_inv_def)
  have get: "nget ?cache i s = (if \<exists>n. nget (Repositories ?st) n s = Some i
      then (case parse s of Inr r \<Rightarrow> Some r | Inl e \<Rightarrow> None) else None)" for i s
    using reloadAll_get [of "Repositories ?st" parse "[]" i s] wf_nmap_inner [OF wf] nget_entry [OF wf, of s i]
    by (simp add: reload_def split: sum.split)
  have "nget ?cache i s = nget (referencesByIDCache ?st) i s" for i s
  proof (cases "\<exists>n. nget (Repositories ?st) n s = Some i")
    case True
    then obtain n r where n: "nget (Repositories ?st) n s = Some i"
      and r: "storable r" "refName r = n" "refString r = s"
      using inv unfolding rs_inv_def by (metis option.distinct(1))
    then have "parse s = Inr r" using assms(2) by (auto simp: abs ref_abs_def stored_def)
    moreover have "nget (referencesByIDCache ?st) i s = Some r" using inv n r by (simp add: rs_inv_def)
    ultimately show ?thesis using True by (simp add: get)
  next
    case False
    then have "nget (referencesByIDCache ?st) i s \<noteq> Some r" for r using inv by (auto simp: rs_inv_def)
    then show ?thesis using False by (simp add: get) (metis not_None_eq)
  qed
  then show ?thesis by (simp add: Let_def) (simp add: reload_def)
qed

theorem reload_restores_cache_witness:
  "nget (referencesByIDCache (reload (\<lambda>s. Inr (WithDefaultTag busybox))
     (Repositories (foldl ref_step emptyRefStore [OpAddTag None busybox ''i1'' False])))) ''i1'' ''busybox:latest''
   = Some (WithDefaultTag busybox)"
proof -
  let ?ops = "[OpAddTag None busybox ''i1'' False]"
  have v: "list_all ref_op_ok ?ops" by (simp add: valid_ref_def busybox_def)
  have m: "foldl ref_spec Map.empty ?ops = [WithDefaultTag busybox \<mapsto> ''i1'']"
    by (simp add: spec_add_def busybox_def isCanonical_def WithDefaultTag_def IsNameOnly_def)
  have "nget (referencesByIDCache (foldl ref_step emptyRefStore ?ops)) ''i1'' ''busybox:latest'' = Some (WithDefaultTag busybox)"
    by code_simp
  with reload_restores_cache [OF v, of "\<lambda>s. Inr (WithDefaultTag busybox)"] show ?thesis
    by (simp only: m Let_def) (simp add: fun_upd_def)
qed

end
