(* ===== verification/Mflag.thy ===== *)
theory Mflag
  imports Go_Strings "HOL-Library.List_Lexorder" "HOL-Library.Product_Lexorder" "HOL-Library.Char_ord"
begin

section \<open>Command-line flags (\<^verbatim>\<open>pkg/mflag/flag.go\<close>)\<close>

text \<open>
  A \<^verbatim>\<open>FlagSet\<close> maps every name of a flag to one shared \<^verbatim>\<open>Flag\<close> object; the objects are a
  list and the maps hold their positions, so that setting a flag through one name is seen through
  the others.  The value types are the ones of the package, without floating-point numbers and
  durations.  \<^verbatim>\<open>int\<close> and \<^verbatim>\<open>uint\<close> have 64 bits.  What goes to the terminal is
  reduced to the deprecation warnings, which are recorded.
\<close>

subsection \<open>Values\<close>

datatype flag_value =
    boolValue bool
  | intValue int
  | int64Value int
  | uintValue nat
  | uint64Value nat
  | uint16Value nat
  | stringValue string

definition parse_bool :: "string \<Rightarrow> bool \<times> num_error option" where
  "parse_bool s =
     (if s \<in> set [''1'', ''t'', ''T'', ''true'', ''TRUE'', ''True''] then (True, None)
      else if s \<in> set [''0'', ''f'', ''F'', ''false'', ''FALSE'', ''False''] then (False, None)
      else (False, Some ErrSyntax))"

text \<open>\<^verbatim>\<open>Set\<close> stores what the conversion returned even when it also returned an error.\<close>

fun Value_Set :: "flag_value \<Rightarrow> string \<Rightarrow> flag_value \<times> num_error option" where
  "Value_Set (boolValue b) s = (case parse_bool s of (v, err) \<Rightarrow> (boolValue v, err))"
| "Value_Set (intValue i) s = (case parse_int s 0 64 of (v, err) \<Rightarrow> (intValue v, err))"
| "Value_Set (int64Value i) s = (case parse_int s 0 64 of (v, err) \<Rightarrow> (int64Value v, err))"
| "Value_Set (uintValue i) s = (case parse_uint s 0 64 of (v, err) \<Rightarrow> (uintValue v, err))"
| "Value_Set (uint64Value i) s = (case parse_uint s 0 64 of (v, err) \<Rightarrow> (uint64Value v, err))"
| "Value_Set (uint16Value i) s = (case parse_uint s 0 16 of (v, err) \<Rightarrow> (uint16Value v, err))"
| "Value_Set (stringValue t) s = (stringValue s, None)"

fun Value_String :: "flag_value \<Rightarrow> string" where
  "Value_String (boolValue b) = (if b then ''true'' else ''false'')"
| "Value_String (intValue i) = itoa i"
| "Value_String (int64Value i) = itoa i"
| "Value_String (uintValue i) = dec_nat i"
| "Value_String (uint64Value i) = dec_nat i"
| "Value_String (uint16Value i) = dec_nat i"
| "Value_String (stringValue s) = s"

fun IsBoolFlag :: "flag_value \<Rightarrow> bool" where
  "IsBoolFlag (boolValue b) = True"
| "IsBoolFlag _ = False"

subsection \<open>Flag sets\<close>

datatype ErrorHandling = ContinueOnError | ExitOnError | PanicOnError

datatype nArgRequirement = Exact nat | Max nat | Min nat

datatype flag_error =
    ErrHelp
  | ErrRetry
  | BadSyntax string
  | NotDefined string
  | InvalidBool string string num_error
  | NeedsArgument string
  | InvalidValue string string num_error
  | NoSuchFlag string
  | Redefined string

record flag =
  Names :: "string list"
  Usage :: string
  Value :: flag_value
  DefValue :: string

record flagset =
  fname :: string
  parsed :: bool
  actual :: "(string, nat) gomap"
  formal :: "(string, nat) gomap"
  args :: "string list"
  errorHandling :: ErrorHandling
  nArgRequirements :: "nArgRequirement list"
  flags :: "flag list"
  warnings :: "(string \<times> string) list"

definition NewFlagSet :: "string \<Rightarrow> ErrorHandling \<Rightarrow> flagset" where
  "NewFlagSet name eh =
     \<lparr>fname = name, parsed = False, actual = [], formal = [], args = [], errorHandling = eh,
      nArgRequirements = [], flags = [], warnings = []\<rparr>"

definition Init :: "flagset \<Rightarrow> string \<Rightarrow> ErrorHandling \<Rightarrow> flagset" where
  "Init fs name eh = fs\<lparr>fname := name, errorHandling := eh\<rparr>"

definition Lookup :: "flagset \<Rightarrow> string \<Rightarrow> flag option" where
  "Lookup fs name = map_option (\<lambda>i. flags fs ! i) (mget (formal fs) name)"

definition IsSet :: "flagset \<Rightarrow> string \<Rightarrow> bool" where
  "IsSet fs name \<longleftrightarrow> mget (actual fs) name \<noteq> None"

definition NFlag :: "flagset \<Rightarrow> nat" where
  "NFlag fs = length (actual fs)"

definition NArg :: "flagset \<Rightarrow> nat" where
  "NArg fs = length (args fs)"

definition Arg :: "flagset \<Rightarrow> int \<Rightarrow> string" where
  "Arg fs i = (if i < 0 \<or> i \<ge> int (length (args fs)) then [] else args fs ! nat i)"

definition IsEmpty :: "flagset \<Rightarrow> bool" where
  "IsEmpty fs \<longleftrightarrow> length (actual fs) = 0"

definition Require :: "flagset \<Rightarrow> nArgRequirement \<Rightarrow> flagset" where
  "Require fs req = fs\<lparr>nArgRequirements := nArgRequirements fs @ [req]\<rparr>"

definition arguments :: "nat \<Rightarrow> string" where
  "arguments n = (if n = 1 then ''1 argument'' else dec_nat n @ '' arguments'')"

definition requires :: "string \<Rightarrow> string \<Rightarrow> nat \<Rightarrow> string" where
  "requires name kind n = CHR 0x22 # name @ CHR 0x22 # '' requires '' @ kind @ arguments n"

fun checkRequirements :: "string \<Rightarrow> nat \<Rightarrow> nArgRequirement list \<Rightarrow> string" where
  "checkRequirements name n [] = []"
| "checkRequirements name n (Exact m # rs) =
     (if n \<noteq> m then requires name [] m else checkRequirements name n rs)"
| "checkRequirements name n (Max m # rs) =
     (if n > m then requires name ''a maximum of '' m else checkRequirements name n rs)"
| "checkRequirements name n (Min m # rs) =
     (if n < m then requires name ''a minimum of '' m else checkRequirements name n rs)"

definition CheckArgs :: "flagset \<Rightarrow> string" where
  "CheckArgs fs = checkRequirements (fname fs) (NArg fs) (nArgRequirements fs)"

definition setFlagValue :: "flagset \<Rightarrow> nat \<Rightarrow> flag_value \<Rightarrow> flagset" where
  "setFlagValue fs i v = fs\<lparr>flags := (flags fs)[i := (flags fs ! i)\<lparr>Value := v\<rparr>]\<rparr>"

definition FlagSet_Set :: "flagset \<Rightarrow> string \<Rightarrow> string \<Rightarrow> flagset \<times> flag_error option" where
  "FlagSet_Set fs name value =
     (case mget (formal fs) name of
        None \<Rightarrow> (fs, Some (NoSuchFlag name))
      | Some i \<Rightarrow>
          (case Value_Set (Value (flags fs ! i)) value of
             (v, Some e) \<Rightarrow> (setFlagValue fs i v, Some (InvalidValue value name e))
           | (v, None) \<Rightarrow> ((setFlagValue fs i v)\<lparr>actual := mput name i (actual fs)\<rparr>, None)))"

subsection \<open>Defining flags\<close>

text \<open>\<^verbatim>\<open>Var\<close> panics at the first name that is taken; the names before it are already registered.\<close>

fun registerNames :: "flagset \<Rightarrow> nat \<Rightarrow> string list \<Rightarrow> flagset \<times> string option" where
  "registerNames fs i [] = (fs, None)"
| "registerNames fs i (n # ns) =
     (let name = trim_prefix n ''#'' in
      if mget (formal fs) name \<noteq> None then (fs, Some name)
      else registerNames (fs\<lparr>formal := mput name i (formal fs)\<rparr>) i ns)"

definition Var :: "flagset \<Rightarrow> flag_value \<Rightarrow> string list \<Rightarrow> string \<Rightarrow> flagset \<times> (flag_error, nat) outcome" where
  "Var fs value names usage =
     (let i = length (flags fs);
          flag = \<lparr>Names = names, Usage = usage, Value = value, DefValue = Value_String value\<rparr> in
      case registerNames (fs\<lparr>flags := flags fs @ [flag]\<rparr>) i names of
        (fs', Some name) \<Rightarrow>
          (fs', Panicked ((if fname fs = [] then ''flag redefined: '' else fname fs @ '' flag redefined: '') @ name))
      | (fs', None) \<Rightarrow> (fs', Done i))"

definition BoolVar :: "flagset \<Rightarrow> string list \<Rightarrow> bool \<Rightarrow> string \<Rightarrow> flagset \<times> (flag_error, nat) outcome" where
  "BoolVar fs names value usage = Var fs (boolValue value) names usage"

definition IntVar :: "flagset \<Rightarrow> string list \<Rightarrow> int \<Rightarrow> string \<Rightarrow> flagset \<times> (flag_error, nat) outcome" where
  "IntVar fs names value usage = Var fs (intValue value) names usage"

definition Int64Var :: "flagset \<Rightarrow> string list \<Rightarrow> int \<Rightarrow> string \<Rightarrow> flagset \<times> (flag_error, nat) outcome" where
  "Int64Var fs names value usage = Var fs (int64Value value) names usage"

definition UintVar :: "flagset \<Rightarrow> string list \<Rightarrow> nat \<Rightarrow> string \<Rightarrow> flagset \<times> (flag_error, nat) outcome" where
  "UintVar fs names value usage = Var fs (uintValue value) names usage"

definition Uint64Var :: "flagset \<Rightarrow> string list \<Rightarrow> nat \<Rightarrow> string \<Rightarrow> flagset \<times> (flag_error, nat) outcome" where
  "Uint64Var fs names value usage = Var fs (uint64Value value) names usage"

definition Uint16Var :: "flagset \<Rightarrow> string list \<Rightarrow> nat \<Rightarrow> string \<Rightarrow> flagset \<times> (flag_error, nat) outcome" where
  "Uint16Var fs names value usage = Var fs (uint16Value value) names usage"

definition StringVar :: "flagset \<Rightarrow> string list \<Rightarrow> string \<Rightarrow> string \<Rightarrow> flagset \<times> (flag_error, nat) outcome" where
  "StringVar fs names value usage = Var fs (stringValue value) names usage"

subsection \<open>Parsing\<close>

text \<open>
  \<^verbatim>\<open>trimQuotes\<close> slices \<^verbatim>\<open>str[1 : len(str)-1]\<close> when the first and the last byte are the
  same quote, which for a string of one quote is \<^verbatim>\<open>str[1:0]\<close>: a panic, \<open>None\<close> here.
\<close>

definition trimQuotes :: "string \<Rightarrow> string option" where
  "trimQuotes str =
     (if str = [] then Some str
      else if (hd str = CHR 0x22 \<and> last str = CHR 0x22) \<or> (hd str = CHR 0x27 \<and> last str = CHR 0x27)
        then (if length str < 2 then None else Some (butlast (tl str)))
      else Some str)"

fun replacement :: "string list \<Rightarrow> string" where
  "replacement [] = []"
| "replacement (n # ns) = (if hd n \<noteq> CHR ''#'' then n else replacement ns)"

fun deprecations :: "string \<Rightarrow> string list \<Rightarrow> (string \<times> string) list" where
  "deprecations name [] = []"
| "deprecations name (n # ns) =
     (if n = CHR ''#'' # name then [(name, replacement (n # ns))] else []) @ deprecations name ns"

definition markSet :: "flagset \<Rightarrow> string \<Rightarrow> nat \<Rightarrow> flagset" where
  "markSet fs name i =
     fs\<lparr>actual := mput name i (actual fs), warnings := warnings fs @ deprecations name (Names (flags fs ! i))\<rparr>"

datatype one_result = OnePanics string | One bool string "flag_error option"

datatype parse_end = ParsePanics string | Exits nat | Returns "flag_error option"

definition setBool :: "flagset \<Rightarrow> string \<Rightarrow> nat \<Rightarrow> string option \<Rightarrow> flagset \<times> one_result" where
  "setBool fs name i value =
     (case value of
        Some s \<Rightarrow>
          (case Value_Set (Value (flags fs ! i)) s of
             (v, Some e) \<Rightarrow> (setFlagValue fs i v, One False [] (Some (InvalidBool s name e)))
           | (v, None) \<Rightarrow> (markSet (setFlagValue fs i v) name i, One True [] None))
      | None \<Rightarrow>
          (case Value_Set (Value (flags fs ! i)) ''true'' of
             (v, err) \<Rightarrow> (markSet (setFlagValue fs i v) name i, One True [] None)))"

definition setValue :: "flagset \<Rightarrow> string \<Rightarrow> nat \<Rightarrow> string option \<Rightarrow> flagset \<times> one_result" where
  "setValue fs name i value =
     (let (fs1, value1) =
            (case value of
               None \<Rightarrow> (if args fs \<noteq> [] then (fs\<lparr>args := tl (args fs)\<rparr>, Some (hd (args fs))) else (fs, None))
             | Some s \<Rightarrow> (fs, Some s)) in
      case value1 of
        None \<Rightarrow> (fs1, One False [] (Some (NeedsArgument name)))
      | Some s \<Rightarrow>
          (case Value_Set (Value (flags fs1 ! i)) s of
             (v, Some e) \<Rightarrow> (setFlagValue fs1 i v, One False [] (Some (InvalidValue s name e)))
           | (v, None) \<Rightarrow> (markSet (setFlagValue fs1 i v) name i, One True [] None)))"

definition applyFlag :: "flagset \<Rightarrow> string \<Rightarrow> string option \<Rightarrow> flagset \<times> one_result" where
  "applyFlag fs name value =
     (case mget (formal fs) name of
        None \<Rightarrow>
          if name = ''-help'' \<or> name = ''help'' \<or> name = ''h'' then (fs, One False [] (Some ErrHelp))
          else if name \<noteq> [] \<and> hd name = CHR ''-'' then (fs, One False [] (Some (NotDefined name)))
          else (fs, One False name (Some ErrRetry))
      | Some i \<Rightarrow>
          if IsBoolFlag (Value (flags fs ! i)) then setBool fs name i value else setValue fs name i value)"

definition parseOne :: "flagset \<Rightarrow> flagset \<times> one_result" where
  "parseOne fs =
     (case args fs of
        [] \<Rightarrow> (fs, One False [] None)
      | s # rest \<Rightarrow>
          if s = [] \<or> hd s \<noteq> CHR ''-'' \<or> length s = 1 then (fs, One False [] None)
          else if s = ''--'' then (fs\<lparr>args := rest\<rparr>, One False [] None)
          else
            let name = tl s in
            if hd name = CHR ''='' then (fs, One False [] (Some (BadSyntax s)))
            else
              let fs1 = fs\<lparr>args := rest\<rparr> in
              if CHR ''='' \<in> set name then
                (case trimQuotes (after CHR ''='' name) of
                   None \<Rightarrow> (fs1, OnePanics ''slice bounds out of range'')
                 | Some value \<Rightarrow> applyFlag fs1 (before CHR ''='' name) (Some value))
              else applyFlag fs1 name None)"

text \<open>\<^verbatim>\<open>strings.Split(name, "")\<close>: the UTF-8 sequences of a valid string.\<close>

definition is_cont :: "char \<Rightarrow> bool" where
  "is_cont c \<longleftrightarrow> 128 \<le> (of_char c :: nat) \<and> (of_char c :: nat) < 192"

function explode :: "string \<Rightarrow> string list" where
  "explode [] = []"
| "explode (c # cs) = (c # takeWhile is_cont cs) # explode (dropWhile is_cont cs)"
  by pat_completeness auto
termination
  by (relation "measure length") (auto simp: le_imp_less_Suc length_dropWhile_le)

text \<open>Each letter of a group is pushed back as a flag of its own; the first that fails ends the loop.\<close>

fun parseLetters :: "flagset \<Rightarrow> string \<Rightarrow> string list \<Rightarrow> flagset \<times> parse_end" where
  "parseLetters fs name [] = (fs, Returns None)"
| "parseLetters fs name (l # ls) =
     (case parseOne (fs\<lparr>args := (CHR ''-'' # l) # args fs\<rparr>) of
        (fs1, OnePanics m) \<Rightarrow> (fs1, ParsePanics m)
      | (fs1, One seen nm err) \<Rightarrow>
          if seen then parseLetters fs1 name ls
          else if err \<noteq> None then (fs1, Returns (Some (NotDefined name)))
          else parseLetters fs1 name ls)"

definition handleError :: "flagset \<Rightarrow> flag_error \<Rightarrow> flagset \<times> parse_end" where
  "handleError fs err =
     (case errorHandling fs of
        ContinueOnError \<Rightarrow> (fs, Returns (Some err))
      | ExitOnError \<Rightarrow> (fs, Exits 125)
      | PanicOnError \<Rightarrow> (fs, ParsePanics ''flag error''))"

subsection \<open>Every round of the loop consumes arguments\<close>

lemma setBool_args: "setBool fs n i v = (fs1, r) \<Longrightarrow> args fs1 = args fs"
  by (auto simp: setBool_def setFlagValue_def markSet_def split: option.splits prod.splits)

lemma setValue_args: "setValue fs n i v = (fs1, r) \<Longrightarrow> \<exists>k \<le> 1. args fs1 = drop k (args fs)"
proof -
  assume a: "setValue fs n i v = (fs1, r)"
  have "args fs1 = args fs \<or> args fs1 = tl (args fs)"
    using a by (auto simp: setValue_def setFlagValue_def markSet_def split: option.splits prod.splits if_splits)
  then show ?thesis
  proof
    assume "args fs1 = args fs"
    then show ?thesis by (intro exI [of _ 0]) simp
  next
    assume "args fs1 = tl (args fs)"
    then show ?thesis by (intro exI [of _ 1]) (simp add: drop_Suc)
  qed
qed

lemma applyFlag_args: "applyFlag fs n v = (fs1, r) \<Longrightarrow> \<exists>k \<le> 1. args fs1 = drop k (args fs)"
  using setValue_args [of fs n _ v fs1 r] setBool_args [of fs n _ v fs1 r]
  by (auto simp: applyFlag_def split: option.splits if_splits intro: exI [of _ 0])

text \<open>A round on a flag drops it, and what it takes with it, from the front of the arguments.\<close>

lemma parseOne_flag:
  assumes "parseOne fs = (fs1, r)" "args fs = (CHR ''-'' # l) # rest" "l \<noteq> []"
  shows "r = One False [] (Some (BadSyntax (CHR ''-'' # l))) \<or> (\<exists>k. args fs1 = drop k rest)"
proof -
  have "\<exists>k. args fs1 = drop k rest" if "applyFlag (fs\<lparr>args := rest\<rparr>) n v = (fs1, r)" for n v
    using applyFlag_args [OF that] by auto
  moreover have "\<exists>k. rest = drop k rest" by (rule exI [of _ 0]) simp
  ultimately show ?thesis
    using assms unfolding parseOne_def by (auto simp: Let_def split: if_splits option.splits)
qed

lemma parseOne_no_flag:
  "(case args fs of [] \<Rightarrow> True | s # rest \<Rightarrow> s = [] \<or> hd s \<noteq> CHR ''-'' \<or> length s = 1) \<Longrightarrow>
   parseOne fs = (fs, One False [] None)"
  by (auto simp: parseOne_def split: list.splits)

lemma parseOne_shape:
  "(case args fs of [] \<Rightarrow> True | s # rest \<Rightarrow> s = [] \<or> hd s \<noteq> CHR ''-'' \<or> length s = 1) \<or>
   (\<exists>l rest. args fs = (CHR ''-'' # l) # rest \<and> l \<noteq> [])"
proof (cases "args fs")
  case (Cons s rest)
  then show ?thesis by (cases s) auto
qed simp

lemma parseOne_suffix:
  assumes "parseOne fs = (fs1, r)"
  shows "\<exists>k. args fs1 = drop k (args fs)"
  using parseOne_shape [of fs]
proof
  assume "case args fs of [] \<Rightarrow> True | s # rest \<Rightarrow> s = [] \<or> hd s \<noteq> CHR ''-'' \<or> length s = 1"
  then have "args fs1 = drop 0 (args fs)" using parseOne_no_flag [of fs] assms by simp
  then show ?thesis ..
next
  assume "\<exists>l rest. args fs = (CHR ''-'' # l) # rest \<and> l \<noteq> []"
  then obtain l rest where a: "args fs = (CHR ''-'' # l) # rest" "l \<noteq> []" by blast
  have "fs1 = fs" if "r = One False [] (Some (BadSyntax (CHR ''-'' # l)))"
    using that assms a unfolding parseOne_def applyFlag_def setBool_def setValue_def
    by (auto simp: Let_def split: if_splits option.splits prod.splits)
  then have "args fs1 = drop 0 (args fs) \<or> (\<exists>k. args fs1 = drop (Suc k) (args fs))"
    using parseOne_flag [OF assms a] a(1) by auto
  then show ?thesis by blast
qed

lemma parseOne_progress:
  assumes "parseOne fs = (fs1, One seen nm err)" "seen \<or> err = Some ErrRetry"
  shows "length (args fs1) < length (args fs)"
  using parseOne_shape [of fs]
proof
  assume "case args fs of [] \<Rightarrow> True | s # rest \<Rightarrow> s = [] \<or> hd s \<noteq> CHR ''-'' \<or> length s = 1"
  then show ?thesis using parseOne_no_flag [of fs] assms by auto
next
  assume "\<exists>l rest. args fs = (CHR ''-'' # l) # rest \<and> l \<noteq> []"
  then obtain l rest where a: "args fs = (CHR ''-'' # l) # rest" "l \<noteq> []" by blast
  show ?thesis using parseOne_flag [OF assms(1) a] assms(2) a(1) by auto
qed

lemma explode_nonempty: "l \<in> set (explode s) \<Longrightarrow> l \<noteq> []"
  by (induction s rule: explode.induct) auto

lemma parseLetters_suffix:
  "parseLetters fs name ls = (fs1, Returns None) \<Longrightarrow> \<forall>l \<in> set ls. l \<noteq> [] \<Longrightarrow>
   \<exists>k. args fs1 = drop k (args fs)"
proof (induction ls arbitrary: fs)
  case Nil
  then show ?case by (auto intro: exI [of _ 0])
next
  case (Cons l ls)
  let ?fs = "fs\<lparr>args := (CHR ''-'' # l) # args fs\<rparr>"
  obtain fs2 r where one: "parseOne ?fs = (fs2, r)" by fastforce
  have "\<exists>seen nm err. r = One seen nm err \<and> parseLetters fs2 name ls = (fs1, Returns None) \<and> (seen \<or> err = None)"
    using Cons.prems(1) one by (cases r) (auto split: if_splits)
  then obtain seen nm err where r: "r = One seen nm err" "parseLetters fs2 name ls = (fs1, Returns None)"
    "seen \<or> err = None" by blast
  have "\<exists>k. args fs2 = drop k (args fs)"
    using parseOne_flag [OF one, of l "args fs"] r Cons.prems(2) by auto
  moreover have "\<exists>k. args fs1 = drop k (args fs2)" using Cons.IH r(2) Cons.prems(2) by simp
  ultimately show ?case by (auto simp: drop_drop)
qed

function parseLoop :: "flagset \<Rightarrow> flagset \<times> parse_end" where
  "parseLoop fs =
     (case parseOne fs of
        (fs1, OnePanics m) \<Rightarrow> (fs1, ParsePanics m)
      | (fs1, One seen name err) \<Rightarrow>
          if seen then parseLoop fs1
          else
            (case err of
              None \<Rightarrow> (fs1, Returns None)
            | Some e \<Rightarrow>
                if e = ErrRetry then
                  (if length name > 1 then
                     (case parseLetters fs1 name (explode name) of
                        (fs2, Returns None) \<Rightarrow> parseLoop fs2
                      | (fs2, Returns (Some e2)) \<Rightarrow> handleError fs2 e2
                      | (fs2, r) \<Rightarrow> (fs2, r))
                   else handleError fs1 (NotDefined name))
                else handleError fs1 e))"
  by pat_completeness auto
termination
proof (relation "measure (\<lambda>fs. length (args fs))", goal_cases)
  case 1
  show ?case by simp
next
  case (2 fs fs1 r seen name err)
  then show ?case using parseOne_progress [of fs fs1 seen name err] by simp
next
  case (3 fs fs1 r seen name err e fs2 r2 e2)
  have "length (args fs1) < length (args fs)" using 3 parseOne_progress [of fs fs1 seen name err] by simp
  moreover have "\<exists>k. args fs2 = drop k (args fs1)"
    using 3 parseLetters_suffix [of fs1 name "explode name" fs2] explode_nonempty by auto
  ultimately show ?case by auto
qed

declare parseLoop.simps [simp del]

definition Parse :: "flagset \<Rightarrow> string list \<Rightarrow> flagset \<times> parse_end" where
  "Parse fs argv = parseLoop (fs\<lparr>parsed := True, args := argv\<rparr>)"


text \<open>
  \<^verbatim>\<open>ParseFlags\<close>: the help flag, the parse, and the exits of the process: status 0 when help was
  asked for, 1 when the number of arguments is wrong.
\<close>

definition ParseFlags :: "flagset \<Rightarrow> string list \<Rightarrow> bool \<Rightarrow> flagset \<times> parse_end" where
  "ParseFlags fs argv withHelp =
     (let (fs1, defined) = (if withHelp then (case BoolVar fs [''#help'', ''-help''] False ''Print usage'' of
                                (fs1, Done i) \<Rightarrow> (fs1, Inr (Some i))
                              | (fs1, Failed e) \<Rightarrow> (fs1, Inr None)
                              | (fs1, Panicked m) \<Rightarrow> (fs1, Inl m))
                            else (fs, Inr None)) in
      case defined of
        Inl m \<Rightarrow> (fs1, ParsePanics m)
      | Inr help \<Rightarrow>
          (case Parse fs1 argv of
             (fs2, Returns None) \<Rightarrow>
               if (case help of None \<Rightarrow> False | Some i \<Rightarrow> Value (flags fs2 ! i) = boolValue True) then (fs2, Exits 0)
               else if CheckArgs fs2 \<noteq> [] then (fs2, Exits 1)
               else (fs2, Returns None)
           | r \<Rightarrow> r))"

subsection \<open>Sorted listing\<close>

definition flagKey :: "string \<Rightarrow> string \<times> string" where
  "flagKey n = (let p = trim_prefix n ''-'' in (to_lower p, p))"

definition firstName :: "flag \<Rightarrow> string" where
  "firstName f = trim_prefix (hd (Names f)) ''#''"

text \<open>
  \<^verbatim>\<open>sortFlags\<close>: one entry per flag, by its first name, whatever names the map has it under.
\<close>

definition sortFlags :: "flagset \<Rightarrow> (string, nat) gomap \<Rightarrow> nat list" where
  "sortFlags fs m =
     (let nameMap = fold (\<lambda>(n, i). mput (firstName (flags fs ! i)) i) m [];
          names = remdups (map (\<lambda>(n, i). firstName (flags fs ! i)) m)
      in map (\<lambda>n. mget_or 0 nameMap n) (sort_key flagKey names))"

definition FlagCount :: "flagset \<Rightarrow> nat" where
  "FlagCount fs = length (sortFlags fs (formal fs))"

definition FlagCountUndeprecated :: "flagset \<Rightarrow> nat" where
  "FlagCountUndeprecated fs =
     length (filter (\<lambda>i. \<exists>n \<in> set (Names (flags fs ! i)). hd n \<noteq> CHR ''#'') (sortFlags fs (formal fs)))"

definition isZeroValue :: "string \<Rightarrow> bool" where
  "isZeroValue value \<longleftrightarrow> value = ''false'' \<or> value = [] \<or> value = ''0''"

subsection \<open>Values survive printing\<close>

fun in_range :: "flag_value \<Rightarrow> bool" where
  "in_range (intValue i) = (- (2 ^ 63) \<le> i \<and> i < 2 ^ 63)"
| "in_range (int64Value i) = (- (2 ^ 63) \<le> i \<and> i < 2 ^ 63)"
| "in_range (uintValue n) = (n < 2 ^ 64)"
| "in_range (uint64Value n) = (n < 2 ^ 64)"
| "in_range (uint16Value n) = (n < 2 ^ 16)"
| "in_range _ = True"

fun same_type :: "flag_value \<Rightarrow> flag_value \<Rightarrow> bool" where
  "same_type (boolValue a) (boolValue b) = True"
| "same_type (intValue a) (intValue b) = True"
| "same_type (int64Value a) (int64Value b) = True"
| "same_type (uintValue a) (uintValue b) = True"
| "same_type (uint64Value a) (uint64Value b) = True"
| "same_type (uint16Value a) (uint16Value b) = True"
| "same_type (stringValue a) (stringValue b) = True"
| "same_type _ _ = False"

text \<open>A printed number has no leading zero, so base 0 reads it in base 10.\<close>

lemma dec_nat_hd: "n \<noteq> 0 \<Longrightarrow> hd (dec_nat n) \<noteq> CHR ''0''"
proof (induction n rule: dec_nat.induct)
  case (1 n)
  show ?case
  proof (cases "n < 10")
    case True
    have "char_of (48 + n) \<noteq> CHR ''0''"
    proof
      assume "char_of (48 + n) = CHR ''0''"
      then have "(of_char (char_of (48 + n)) :: nat) = of_char CHR ''0''" by simp
      then show False using True 1(2) by simp
    qed
    with True show ?thesis by (simp add: dec_nat.simps [of n])
  next
    case False
    with 1 show ?thesis by (simp add: dec_nat.simps [of n] div_eq_0_iff)
  qed
qed

lemma dec_nat_0: "dec_nat 0 = ''0''"
  by code_simp

lemma parse_uint_dec: "n \<le> 2 ^ bits - 1 \<Longrightarrow> parse_uint (dec_nat n) 0 bits = (n, None)"
proof (cases "n = 0")
  case True
  then show ?thesis
    by (simp add: dec_nat_0 parse_uint_def Let_def has_prefix_def digit_val_def is_digit_def)
next
  case False
  assume n: "n \<le> 2 ^ bits - 1"
  have h: "hd (dec_nat n) \<noteq> CHR ''0''" by (rule dec_nat_hd [OF False])
  then have "\<not> has_prefix (dec_nat n) ''0x'' \<and> \<not> has_prefix (dec_nat n) ''0X''"
    by (cases "dec_nat n") (auto simp: has_prefix_def)
  with h parse_digits_dec [OF n] show ?thesis by (simp add: parse_uint_def Let_def)
qed

lemma parse_int_itoa:
  assumes "- (2 ^ 63) \<le> i" "i < 2 ^ 63"
  shows "parse_int (itoa i) 0 64 = (i, None)"
proof (cases "i < 0")
  case True
  then have "nat (- i) \<le> 2 ^ 64 - 1" "nat (- i) \<le> 2 ^ 63" using assms by (simp_all add: nat_le_iff)
  then show ?thesis using True parse_uint_dec [of "nat (- i)" 64]
    by (simp add: itoa_def parse_int_def Let_def)
next
  case False
  have h: "hd (dec_nat n) \<noteq> CHR ''-'' \<and> hd (dec_nat n) \<noteq> CHR ''+''" for n
    using dec_nat_digit [of "hd (dec_nat n)" n] by (auto simp: is_digit_def)
  have "nat i \<le> 2 ^ 64 - 1" "nat i < 2 ^ 63" using False assms by (simp_all add: nat_le_iff nat_less_iff)
  then show ?thesis using False h [of "nat i"] parse_uint_dec [of "nat i" 64]
    by (simp add: itoa_def parse_int_def Let_def)
qed

text \<open>
  Every value prints to a string that sets any value of the same type back to it: the default
  shown in a usage message is the default.
\<close>

theorem flag_value_roundtrip:
  assumes "same_type v0 v" "in_range v"
  shows "Value_Set v0 (Value_String v) = (v, None)"
proof -
  have u: "parse_uint (dec_nat n) 0 64 = (n, None)" if "n < 2 ^ 64" for n
    using that by (intro parse_uint_dec) simp
  have u16: "parse_uint (dec_nat n) 0 16 = (n, None)" if "n < 2 ^ 16" for n
    using that by (intro parse_uint_dec) simp
  show ?thesis
    using assms
    by (cases "(v0, v)" rule: same_type.cases)
      (simp_all add: parse_int_itoa u u16 parse_bool_def del: power_numeral)
qed

theorem flag_value_roundtrip_witness:
  "Value_Set (intValue 0) (Value_String (intValue (- 42))) = (intValue (- 42), None)"
  by (rule flag_value_roundtrip) simp_all


subsection \<open>The arguments that are left\<close>

definition same_set :: "flagset \<Rightarrow> flagset \<Rightarrow> bool" where
  "same_set fs fs1 \<longleftrightarrow> formal fs1 = formal fs \<and> parsed fs1 = parsed fs \<and> fname fs1 = fname fs \<and>
     nArgRequirements fs1 = nArgRequirements fs \<and> errorHandling fs1 = errorHandling fs"

lemma same_set_simps [simp]:
  "same_set fs fs" "same_set fs (fs1\<lparr>args := as\<rparr>) = same_set fs fs1" "same_set (fs\<lparr>args := as\<rparr>) fs1 = same_set fs fs1"
  "same_set fs (setFlagValue fs1 i v) = same_set fs fs1" "same_set fs (markSet fs1 n i) = same_set fs fs1"
  by (simp_all add: same_set_def setFlagValue_def markSet_def)

lemma setBool_keeps: "same_set fs (fst (setBool fs n i v))"
  by (auto simp: setBool_def split: option.split prod.split)

lemma setValue_keeps: "same_set fs (fst (setValue fs n i v))"
  by (auto simp: setValue_def split: option.split prod.split)

lemma applyFlag_keeps: "same_set fs (fst (applyFlag fs n v))"
  by (simp add: applyFlag_def setBool_keeps setValue_keeps split: option.split)

lemma parseOne_keeps: "parseOne fs = (fs1, r) \<Longrightarrow> same_set fs fs1"
  using applyFlag_keeps [of "fs\<lparr>args := _\<rparr>"]
  by (auto simp: parseOne_def Let_def split: list.splits if_splits option.splits) (metis fst_conv same_set_simps(3))+

lemma same_set_trans: "same_set a b \<Longrightarrow> same_set b c \<Longrightarrow> same_set a c"
  by (simp add: same_set_def)

lemma parseLetters_keeps: "parseLetters fs name ls = (fs1, r) \<Longrightarrow> same_set fs fs1"
proof (induction ls arbitrary: fs)
  case (Cons l ls)
  obtain fs2 r2 where one: "parseOne (fs\<lparr>args := (CHR ''-'' # l) # args fs\<rparr>) = (fs2, r2)" by fastforce
  have 2: "same_set fs fs2" using parseOne_keeps [OF one] by simp
  show ?case
    using Cons.prems Cons.IH [of fs2] one 2 same_set_trans [OF 2, of fs1]
    by (auto split: one_result.splits if_splits)
qed simp

lemma parseLoop_keeps:
  "parseLoop fs = (fs', Returns None) \<Longrightarrow>
   (\<exists>k. args fs' = drop k (args fs)) \<and> same_set fs fs'"
proof (induction fs rule: parseLoop.induct)
  case (1 fs)
  obtain fs1 r where one: "parseOne fs = (fs1, r)" by fastforce
  note kept = parseOne_keeps [OF one]
  obtain k1 where k1: "args fs1 = drop k1 (args fs)" using parseOne_suffix [OF one] by blast
  show ?case
  proof (cases r)
    case (OnePanics m)
    then show ?thesis using 1(3) one by (simp add: parseLoop.simps [of fs])
  next
    case (One seen name err)
    show ?thesis
    proof (cases "seen \<or> err \<noteq> Some ErrRetry")
      case True
      then show ?thesis
        using 1(1) [OF one [symmetric] One] 1(3) one One kept k1 same_set_trans [OF kept, of fs']
        by (auto simp: parseLoop.simps [of fs] handleError_def drop_drop split: if_splits option.splits ErrorHandling.splits)
    next
      case False
      then have res: "1 < length name \<and> (\<exists>fs2. parseLetters fs1 name (explode name) = (fs2, Returns None) \<and> parseLoop fs2 = (fs', Returns None))"
        using 1(3) one One
        by (auto simp: parseLoop.simps [of fs] handleError_def split: if_splits parse_end.splits option.splits ErrorHandling.splits prod.splits)
      then obtain fs2 where l: "1 < length name" "parseLetters fs1 name (explode name) = (fs2, Returns None)" "parseLoop fs2 = (fs', Returns None)"
        by blast
      obtain k2 where "args fs2 = drop k2 (args fs1)"
        using parseLetters_suffix [OF l(2)] explode_nonempty by blast
      moreover have "(\<exists>k. args fs' = drop k (args fs2)) \<and> same_set fs2 fs'"
        using 1(2) [OF one [symmetric] One _ _ refl l(1) l(2) [symmetric] refl refl l(3)] False by auto
      ultimately show ?thesis
        using k1 same_set_trans [OF kept same_set_trans [OF parseLetters_keeps [OF l(2)]]] by (auto simp: drop_drop)
    qed
  qed
qed



definition demo :: flagset where
  "demo = fst (StringVar (fst (BoolVar (fst (BoolVar (NewFlagSet ''run'' ContinueOnError)
     [''t'', ''-tty''] False ''tty'')) [''i'', ''-interactive''] False ''stdin'')) [''-name''] [] ''name'')"

definition demoRun :: "flagset \<times> parse_end" where
  "demoRun = Parse demo [''-it'', ''--name=box'', ''ubuntu'', ''-x'']"


subsection \<open>The forms of a flag\<close>

lemma parseOne_flag_eq:
  assumes "n \<noteq> []" "n \<noteq> ''-''" "CHR ''='' \<notin> set n"
  shows "parseOne (fs\<lparr>args := (CHR ''-'' # n) # rest\<rparr>) = applyFlag (fs\<lparr>args := rest\<rparr>) n None"
    and "trimQuotes v = Some w \<Longrightarrow>
      parseOne (fs\<lparr>args := (CHR ''-'' # n @ CHR ''='' # v) # rest\<rparr>) = applyFlag (fs\<lparr>args := rest\<rparr>) n (Some w)"
proof -
  have hd: "hd n \<noteq> CHR ''=''" using assms(1,3) by (cases n) auto
  show "parseOne (fs\<lparr>args := (CHR ''-'' # n) # rest\<rparr>) = applyFlag (fs\<lparr>args := rest\<rparr>) n None"
    using assms hd by (simp add: parseOne_def Let_def)
  have "CHR ''-'' # n @ CHR ''='' # v \<noteq> ''--''"
    using assms(1) by (cases n) auto
  then show "parseOne (fs\<lparr>args := (CHR ''-'' # n @ CHR ''='' # v) # rest\<rparr>) = applyFlag (fs\<lparr>args := rest\<rparr>) n (Some w)"
    if "trimQuotes v = Some w"
    using assms hd that by (simp add: parseOne_def Let_def)
qed

lemma parseLoop_cong: "parseOne fs = parseOne fs' \<Longrightarrow> parseLoop fs = parseLoop fs'"
  by (simp add: parseLoop.simps [of fs] parseLoop.simps [of fs'])

text \<open>
  For a flag that takes a value, \<^verbatim>\<open>-name=value\<close> and \<^verbatim>\<open>-name value\<close> parse alike,
  up to the quotes that the first form strips.
\<close>

theorem value_forms_agree:
  assumes "mget (formal fs) n = Some i" "\<not> IsBoolFlag (Value (flags fs ! i))"
    and "n \<noteq> []" "n \<noteq> ''-''" "CHR ''='' \<notin> set n" "trimQuotes v = Some w"
  shows "Parse fs ((CHR ''-'' # n @ CHR ''='' # v) # rest) = Parse fs ((CHR ''-'' # n) # w # rest)"
  unfolding Parse_def
  by (rule parseLoop_cong)
    (use assms parseOne_flag_eq [OF assms(3-5), where fs = "fs\<lparr>parsed := True\<rparr>"] in
      \<open>simp add: applyFlag_def setValue_def\<close>)

theorem value_forms_agree_witness:
  "Parse demo [''--name=box''] = Parse demo [''--name'', ''box'']"
proof -
  have f: "mget (formal demo) ''-name'' = Some 2" by code_simp
  have b: "\<not> IsBoolFlag (Value (flags demo ! 2))" by code_simp
  have q: "trimQuotes ''box'' = Some ''box''" by (simp add: trimQuotes_def)
  from value_forms_agree [OF f b _ _ _ q, of "[]"] show ?thesis by simp
qed

definition bool_letter :: "flagset \<Rightarrow> char \<Rightarrow> bool" where
  "bool_letter fs c \<longleftrightarrow> c \<noteq> CHR ''-'' \<and> c \<noteq> CHR ''='' \<and> \<not> is_cont c \<and>
     (case mget (formal fs) [c] of None \<Rightarrow> False | Some i \<Rightarrow> i < length (flags fs) \<and> IsBoolFlag (Value (flags fs ! i)))"

definition set_letter :: "flagset \<Rightarrow> char \<Rightarrow> flagset" where
  "set_letter fs c =
     (let i = mget_or 0 (formal fs) [c] in markSet (setFlagValue fs i (boolValue True)) [c] i)"

lemma bool_set_true: "IsBoolFlag v \<Longrightarrow> fst (Value_Set v ''true'') = boolValue True"
  by (cases v) (simp_all add: parse_bool_def)

lemma letter_step:
  assumes "bool_letter fs c"
  shows "parseOne (fs\<lparr>args := [CHR ''-'', c] # rest\<rparr>) = (set_letter (fs\<lparr>args := rest\<rparr>) c, One True [] None)"
  using parseOne_flag_eq(1) [where n = "[c]" and fs = fs and rest = rest] assms
  by (auto simp: bool_letter_def applyFlag_def setBool_def set_letter_def mget_or_def dest: bool_set_true
      split: option.splits prod.splits)

lemma set_letter_args: "set_letter (fs\<lparr>args := as\<rparr>) c = (set_letter fs c)\<lparr>args := as\<rparr>" "args (set_letter fs c) = args fs"
  by (simp_all add: set_letter_def markSet_def setFlagValue_def Let_def)

lemma bool_letter_step: "bool_letter fs d \<Longrightarrow> bool_letter (set_letter fs c) d"
proof -
  assume d: "bool_letter fs d"
  then obtain i where i: "mget (formal fs) [d] = Some i" "i < length (flags fs)" "IsBoolFlag (Value (flags fs ! i))"
    by (auto simp: bool_letter_def split: option.splits)
  have "IsBoolFlag (Value (flags (set_letter fs c) ! i))"
    using i by (cases "mget_or 0 (formal fs) [c] = i")
      (simp_all add: set_letter_def markSet_def setFlagValue_def Let_def)
  then show ?thesis
    using d i by (simp add: bool_letter_def set_letter_def markSet_def setFlagValue_def Let_def)
qed

lemma bool_letter_args: "bool_letter (fs\<lparr>args := as\<rparr>) c = bool_letter fs c"
  by (simp add: bool_letter_def split: option.split)

lemma bool_letter_parsed: "bool_letter (fs\<lparr>parsed := b\<rparr>) c = bool_letter fs c"
  by (simp add: bool_letter_def split: option.split)

lemma letters_fold:
  "\<forall>c \<in> set cs. bool_letter fs c \<Longrightarrow>
   parseLetters fs name (map (\<lambda>c. [c]) cs) = (foldl set_letter fs cs, Returns None)"
proof (induction cs arbitrary: fs)
  case (Cons c cs)
  have "fs\<lparr>args := args fs\<rparr> = fs" by simp
  with Cons letter_step [of fs c "args fs"] show ?case by (simp add: bool_letter_step)
qed simp

lemma singles_fold:
  "\<forall>c \<in> set cs. bool_letter fs c \<Longrightarrow>
   parseLoop (fs\<lparr>args := map (\<lambda>c. [CHR ''-'', c]) cs @ rest\<rparr>) = parseLoop (foldl set_letter (fs\<lparr>args := rest\<rparr>) cs)"
proof (induction cs arbitrary: fs)
  case (Cons c cs)
  have "parseLoop (fs\<lparr>args := map (\<lambda>c. [CHR ''-'', c]) (c # cs) @ rest\<rparr>) =
      parseLoop ((set_letter fs c)\<lparr>args := map (\<lambda>c. [CHR ''-'', c]) cs @ rest\<rparr>)"
    using letter_step [of fs c "map (\<lambda>c. [CHR ''-'', c]) cs @ rest"] Cons.prems
    by (simp add: parseLoop.simps [of "fs\<lparr>args := _ # _\<rparr>"] set_letter_args)
  also have "\<dots> = parseLoop (foldl set_letter ((set_letter fs c)\<lparr>args := rest\<rparr>) cs)"
    using Cons.IH [of "set_letter fs c"] Cons.prems by (simp add: bool_letter_step)
  finally show ?case by (simp add: set_letter_args)
qed simp

lemma explode_ascii: "\<forall>c \<in> set cs. \<not> is_cont c \<Longrightarrow> explode cs = map (\<lambda>c. [c]) cs"
proof (induction cs)
  case (Cons c cs)
  then have "takeWhile is_cont cs = []" "dropWhile is_cont cs = cs" by (cases cs; simp)+
  with Cons show ?case by simp
qed simp

lemma group_retry:
  assumes letters: "\<forall>c \<in> set cs. bool_letter fs c" and group: "mget (formal fs) cs = None" "1 < length cs" "cs \<noteq> ''help''"
    and one: "parseOne (fs\<lparr>args := a # rest\<rparr>) = applyFlag (fs\<lparr>args := rest\<rparr>) cs v"
  shows "parseLoop (fs\<lparr>args := a # rest\<rparr>) = parseLoop (foldl set_letter (fs\<lparr>args := rest\<rparr>) cs)"
proof -
  have hd: "hd cs \<noteq> CHR ''-''" "cs \<noteq> []" using letters group(2) by (cases cs; auto simp: bool_letter_def)+
  have "cs \<noteq> ''-help''" "cs \<noteq> ''h''" using hd group(2) by auto
  then have "applyFlag (fs\<lparr>args := rest\<rparr>) cs v = (fs\<lparr>args := rest\<rparr>, One False cs (Some ErrRetry))"
    using group hd by (simp add: applyFlag_def)
  moreover have "explode cs = map (\<lambda>c. [c]) cs" using letters by (intro explode_ascii) (auto simp: bool_letter_def)
  moreover have "parseLetters (fs\<lparr>args := rest\<rparr>) cs (map (\<lambda>c. [c]) cs) = (foldl set_letter (fs\<lparr>args := rest\<rparr>) cs, Returns None)"
    using letters by (intro letters_fold) (simp add: bool_letter_args)
  ultimately show ?thesis
    using one group(2) by (simp add: parseLoop.simps [of "fs\<lparr>args := a # rest\<rparr>"])
qed

text \<open>
  C21: a group of boolean letters, \<^verbatim>\<open>-abc\<close>, parses like \<^verbatim>\<open>-a -b -c\<close>; and so does
  \<^verbatim>\<open>-abc=value\<close>: the value of a group is dropped, and \<^verbatim>\<open>-it=false\<close> switches both flags on.
\<close>

theorem grouped_flags:
  assumes "\<forall>c \<in> set cs. bool_letter fs c" "mget (formal fs) cs = None" "1 < length cs" "cs \<noteq> ''help''"
    and "trimQuotes v \<noteq> None"
  shows "Parse fs ((CHR ''-'' # cs) # rest) = Parse fs (map (\<lambda>c. [CHR ''-'', c]) cs @ rest) \<and>
         Parse fs ((CHR ''-'' # cs @ CHR ''='' # v) # rest) = Parse fs ((CHR ''-'' # cs) # rest)"
proof -
  let ?fs = "fs\<lparr>parsed := True\<rparr>"
  have l: "\<forall>c \<in> set cs. bool_letter ?fs c" using assms(1) by (simp add: bool_letter_parsed)
  have n1: "CHR ''='' \<notin> set cs" using assms(1) unfolding bool_letter_def by blast
  have "cs \<noteq> []" "cs \<noteq> ''-''" using assms(3) by auto
  note n = this n1
  obtain w where w: "trimQuotes v = Some w" using assms(5) by blast
  note g = group_retry [OF l _ assms(3,4)]
  have "parseLoop (?fs\<lparr>args := (CHR ''-'' # cs) # rest\<rparr>) = parseLoop (foldl set_letter (?fs\<lparr>args := rest\<rparr>) cs)"
    using assms(2) by (intro g) (simp_all add: parseOne_flag_eq(1) [OF n])
  moreover have "parseLoop (?fs\<lparr>args := (CHR ''-'' # cs @ CHR ''='' # v) # rest\<rparr>) = parseLoop (foldl set_letter (?fs\<lparr>args := rest\<rparr>) cs)"
    using assms(2) by (intro g) (simp_all add: parseOne_flag_eq(2) [OF n w])
  ultimately show ?thesis using singles_fold [OF l, of rest] by (simp add: Parse_def)
qed

theorem grouped_flags_witness:
  "Parse demo [''-it=false''] = Parse demo [''-i'', ''-t'']"
proof -
  have l: "\<forall>c \<in> set ''it''. bool_letter demo c" by code_simp
  have f: "mget (formal demo) ''it'' = None" by code_simp
  have q: "trimQuotes ''false'' \<noteq> None" by (simp add: trimQuotes_def)
  from grouped_flags [OF l f _ _ q, of "[]"] show ?thesis by simp
qed


subsection \<open>Quotes and argument counts\<close>

text \<open>
  a value that is one quote character crashes the parser: \<^verbatim>\<open>-name="\<close> panics with a slice
  out of range, for every flag set and every name; any other value is sliced safely.
\<close>

theorem single_quote_panics:
  "(trimQuotes v = None \<longleftrightarrow> v = [CHR 0x22] \<or> v = [CHR 0x27]) \<and>
   (n \<noteq> [] \<and> CHR ''='' \<notin> set n \<longrightarrow>
      snd (Parse fs ((CHR ''-'' # n @ CHR ''='' # [CHR 0x22]) # rest)) = ParsePanics ''slice bounds out of range'')"
proof (intro conjI impI)
  have short: "length v < 2 \<and> v \<noteq> [] \<longleftrightarrow> (\<exists>c. v = [c])" by (cases v; cases "tl v") auto
  show "trimQuotes v = None \<longleftrightarrow> v = [CHR 0x22] \<or> v = [CHR 0x27]"
    using short by (auto simp: trimQuotes_def)
  assume n: "n \<noteq> [] \<and> CHR ''='' \<notin> set n"
  then have hd: "hd n \<noteq> CHR ''=''" by (cases n) auto
  have "CHR ''-'' # n @ CHR ''='' # [CHR 0x22] \<noteq> ''--''" using n by (cases n) auto
  then show "snd (Parse fs ((CHR ''-'' # n @ CHR ''='' # [CHR 0x22]) # rest)) = ParsePanics ''slice bounds out of range''"
    using n hd by (simp add: Parse_def parseLoop.simps [of "fs\<lparr>parsed := True, args := _\<rparr>"] parseOne_def Let_def trimQuotes_def)
qed

theorem single_quote_panics_witness:
  "snd (Parse demo [''--name='' @ [CHR 0x22]]) = ParsePanics ''slice bounds out of range''"
  using single_quote_panics [of "[]" "''-name''" demo "[]"] by simp

fun meets :: "nat \<Rightarrow> nArgRequirement \<Rightarrow> bool" where
  "meets n (Exact m) = (n = m)"
| "meets n (Max m) = (n \<le> m)"
| "meets n (Min m) = (m \<le> n)"

text \<open>
  \<^verbatim>\<open>CheckArgs\<close> returns no message exactly when the number of arguments left meets every
  requirement, and otherwise the message of the first requirement that fails.
\<close>

theorem check_args_complete:
  "(CheckArgs fs = [] \<longleftrightarrow> list_all (meets (NArg fs)) (nArgRequirements fs)) \<and>
   (CheckArgs fs \<noteq> [] \<longleftrightarrow> has_prefix (CheckArgs fs) (CHR 0x22 # fname fs @ CHR 0x22 # '' requires ''))"
proof -
  have nonempty: "requires name kind m \<noteq> []" for name kind m by (simp add: requires_def)
  have prefix: "has_prefix (requires name kind m) (CHR 0x22 # name @ CHR 0x22 # '' requires '')" for name kind m
    by (simp add: requires_def has_prefix_def)
  have "(checkRequirements name n rs = [] \<longleftrightarrow> list_all (meets n) rs) \<and>
      (checkRequirements name n rs \<noteq> [] \<longrightarrow>
         has_prefix (checkRequirements name n rs) (CHR 0x22 # name @ CHR 0x22 # '' requires ''))" for name n rs
    by (induction name n rs rule: checkRequirements.induct) (simp_all add: nonempty prefix not_less)
  moreover have "\<not> has_prefix [] (CHR 0x22 # fname fs @ CHR 0x22 # '' requires '')" by (simp add: has_prefix_def)
  ultimately show ?thesis unfolding CheckArgs_def by metis
qed

end
