(* ===== verification/Shell_Words.thy ===== *)
theory Shell_Words
  imports Go_Strings
begin

section \<open>Word processing of Dockerfile arguments (\<^verbatim>\<open>builder/dockerfile/shell_parser.go\<close>)\<close>

text \<open>
  Quotes, escapes and variable substitution in one word.  The scanner of the code delivers code
  points; here a word is a list of code points below 256, on which \<open>is_space\<close>, \<open>is_letter\<close> and
  \<open>is_digit\<close> are exact.  The three mutually recursive methods share the scanner position, so each
  model function takes the input that is left and returns what it leaves.  They are defined with
  fuel, and \<open>None\<close> is running out of it; the length of the word plus one is always enough.
\<close>

datatype shell_error = UnsupportedModifier "char option" | MissingColon

subsection \<open>Collecting words\<close>

record wordsStruct =
  ws_word :: string
  ws_words :: "string list"
  ws_inWord :: bool

definition emptyWords :: wordsStruct where
  "emptyWords = \<lparr>ws_word = [], ws_words = [], ws_inWord = False\<rparr>"

definition addRawChar :: "char \<Rightarrow> wordsStruct \<Rightarrow> wordsStruct" where
  "addRawChar c w = w\<lparr>ws_word := ws_word w @ [c], ws_inWord := True\<rparr>"

definition addChar :: "char \<Rightarrow> wordsStruct \<Rightarrow> wordsStruct" where
  "addChar c w =
     (if is_space c \<and> ws_inWord w then
        (if ws_word w \<noteq> [] then \<lparr>ws_word = [], ws_words = ws_words w @ [ws_word w], ws_inWord = False\<rparr> else w)
      else if \<not> is_space c then addRawChar c w
      else w)"

definition addString :: "string \<Rightarrow> wordsStruct \<Rightarrow> wordsStruct" where
  "addString s w = fold addChar s w"

definition addRawString :: "string \<Rightarrow> wordsStruct \<Rightarrow> wordsStruct" where
  "addRawString s w = w\<lparr>ws_word := ws_word w @ s, ws_inWord := True\<rparr>"

definition getWords :: "wordsStruct \<Rightarrow> string list" where
  "getWords w = (if ws_word w \<noteq> [] then ws_words w @ [ws_word w] else ws_words w)"

subsection \<open>Variables\<close>

fun getEnv :: "string list \<Rightarrow> string \<Rightarrow> string" where
  "getEnv [] name = []"
| "getEnv (env # envs) name =
     (if CHR ''='' \<notin> set env then (if name = env then [] else getEnv envs name)
      else if name \<noteq> before CHR ''='' env then getEnv envs name
      else after CHR ''='' env)"

definition name_char :: "char \<Rightarrow> bool" where
  "name_char c \<longleftrightarrow> is_letter c \<or> is_digit c \<or> c = CHR ''_''"

text \<open>\<^verbatim>\<open>processName\<close>: a single digit, or a run of letters, digits and underscores.\<close>

definition processName :: "string \<Rightarrow> string \<times> string" where
  "processName inp =
     (case inp of
        [] \<Rightarrow> ([], [])
      | c # cs \<Rightarrow> if is_digit c then ([c], cs) else (takeWhile name_char inp, dropWhile name_char inp))"

definition processSingleQuote :: "string \<Rightarrow> string \<times> string" where
  "processSingleQuote inp = (before CHR 0x27 inp, after CHR 0x27 inp)"

subsection \<open>The word processor\<close>

text \<open>
  \<open>stopOn\<close> is \<^verbatim>\<open>processStopOn\<close> with its loop variables (the result so far and the words so
  far), \<open>doubleQuote\<close> and \<open>dollar\<close> are called after the quote or the dollar has been read.
\<close>

function (sequential) stopOn :: "nat \<Rightarrow> string list \<Rightarrow> char option \<Rightarrow> string \<Rightarrow> wordsStruct \<Rightarrow> string \<Rightarrow>
      (shell_error + (string \<times> string list) \<times> string) option"
  and doubleQuote :: "nat \<Rightarrow> string list \<Rightarrow> string \<Rightarrow> string \<Rightarrow> (shell_error + string \<times> string) option"
  and dollar :: "nat \<Rightarrow> string list \<Rightarrow> string \<Rightarrow> (shell_error + string \<times> string) option" where
  "stopOn 0 envs stop acc w inp = None"
| "stopOn (Suc n) envs stop acc w inp =
     (case inp of
        [] \<Rightarrow> Some (Inr ((acc, getWords w), []))
      | c # cs \<Rightarrow>
          if stop = Some c then Some (Inr ((acc, getWords w), cs))
          else if c = CHR 0x27 then
            (case processSingleQuote cs of (tmp, rest) \<Rightarrow> stopOn n envs stop (acc @ tmp) (addRawString tmp w) rest)
          else if c = CHR 0x22 then
            (case doubleQuote n envs [] cs of
               None \<Rightarrow> None
             | Some (Inl e) \<Rightarrow> Some (Inl e)
             | Some (Inr (tmp, rest)) \<Rightarrow> stopOn n envs stop (acc @ tmp) (addRawString tmp w) rest)
          else if c = CHR ''$'' then
            (case dollar n envs cs of
               None \<Rightarrow> None
             | Some (Inl e) \<Rightarrow> Some (Inl e)
             | Some (Inr (tmp, rest)) \<Rightarrow> stopOn n envs stop (acc @ tmp) (addString tmp w) rest)
          else if c = CHR 0x5C then
            (case cs of
               [] \<Rightarrow> Some (Inr ((acc, getWords w), []))
             | d # ds \<Rightarrow> stopOn n envs stop (acc @ [d]) (addRawChar d w) ds)
          else stopOn n envs stop (acc @ [c]) (addChar c w) cs)"
| "doubleQuote 0 envs acc inp = None"
| "doubleQuote (Suc n) envs acc inp =
     (case inp of
        [] \<Rightarrow> Some (Inr (acc, []))
      | c # cs \<Rightarrow>
          if c = CHR 0x22 then Some (Inr (acc, cs))
          else if c = CHR ''$'' then
            (case dollar n envs cs of
               None \<Rightarrow> None
             | Some (Inl e) \<Rightarrow> Some (Inl e)
             | Some (Inr (tmp, rest)) \<Rightarrow> doubleQuote n envs (acc @ tmp) rest)
          else if c = CHR 0x5C then
            (case cs of
               [] \<Rightarrow> Some (Inr (acc, []))
             | d # ds \<Rightarrow>
                 if d = CHR 0x22 \<or> d = CHR ''$'' then doubleQuote n envs (acc @ [d]) ds
                 else doubleQuote n envs (acc @ [c]) cs)
          else doubleQuote n envs (acc @ [c]) cs)"
| "dollar 0 envs inp = None"
| "dollar (Suc n) envs inp =
     (if inp \<noteq> [] \<and> hd inp = CHR ''{'' then
        (case processName (tl inp) of
           (name, rest) \<Rightarrow>
             if rest \<noteq> [] \<and> hd rest = CHR ''}'' then Some (Inr (getEnv envs name, tl rest))
             else if rest \<noteq> [] \<and> hd rest = CHR '':'' then
               (let modifier = (if tl rest = [] then None else Some (hd (tl rest))) in
                case stopOn n envs (Some CHR ''}'') [] emptyWords (drop 2 rest) of
                  None \<Rightarrow> None
                | Some (Inl e) \<Rightarrow> Some (Inl e)
                | Some (Inr ((word, ws), rest')) \<Rightarrow>
                    (let value = getEnv envs name in
                     if modifier = Some CHR ''+'' then Some (Inr (if value \<noteq> [] then word else value, rest'))
                     else if modifier = Some CHR ''-'' then Some (Inr (if value = [] then word else value, rest'))
                     else Some (Inl (UnsupportedModifier modifier))))
             else Some (Inl MissingColon))
      else
        (case processName inp of
           (name, rest) \<Rightarrow> if name = [] then Some (Inr (''$'', rest)) else Some (Inr (getEnv envs name, rest))))"

  by pat_completeness auto
termination
  by (relation "measure (case_sum (\<lambda>(n, _). n) (case_sum (\<lambda>(n, _). n) (\<lambda>(n, _). n)))") auto

definition process :: "string list \<Rightarrow> string \<Rightarrow> (shell_error + (string \<times> string list) \<times> string) option" where
  "process envs word = stopOn (Suc (length word)) envs None [] emptyWords word"

definition ProcessWord :: "string \<Rightarrow> string list \<Rightarrow> (shell_error, string) result option" where
  "ProcessWord word env = map_option (map_sum id (\<lambda>((r, ws), rest). r)) (process env word)"

definition ProcessWords :: "string \<Rightarrow> string list \<Rightarrow> (shell_error, string list) result option" where
  "ProcessWords word env = map_option (map_sum id (\<lambda>((r, ws), rest). ws)) (process env word)"


subsection \<open>Enough fuel\<close>

definition leaves :: "string \<Rightarrow> (shell_error + 'a \<times> string) option \<Rightarrow> bool" where
  "leaves inp r \<longleftrightarrow>
     (case r of None \<Rightarrow> False | Some (Inl e) \<Rightarrow> True | Some (Inr (x, rest)) \<Rightarrow> length rest \<le> length inp)"

lemma leaves_simps [simp]:
  "leaves inp (Some (Inl e))" "leaves inp (Some (Inr (x, rest))) \<longleftrightarrow> length rest \<le> length inp" "\<not> leaves inp None"
  by (simp_all add: leaves_def)

lemma leaves_mono: "leaves inp r \<Longrightarrow> length inp \<le> length inp' \<Longrightarrow> leaves inp' r"
  by (auto simp: leaves_def split: option.splits sum.splits)

lemma leaves_cases:
  assumes "leaves inp r"
  obtains e where "r = Some (Inl e)" | x rest where "r = Some (Inr (x, rest))" "length rest \<le> length inp"
  using assms by (auto simp: leaves_def split: option.splits sum.splits)

lemma after_length: "length (after c s) \<le> length s"
  by (simp add: after_def length_dropWhile_le le_diff_conv le_SucI)

lemma processSingleQuote_length: "processSingleQuote inp = (t, rest) \<Longrightarrow> length rest \<le> length inp"
  using after_length [of "CHR 0x27" inp] by (auto simp: processSingleQuote_def)

lemma processName_length: "processName inp = (n, rest) \<Longrightarrow> length rest \<le> length inp"
  by (auto simp: processName_def length_dropWhile_le le_SucI split: list.splits if_splits)

lemma fuel_suffices:
  "(\<forall>stop acc w inp. length inp < n \<longrightarrow> leaves inp (stopOn n envs stop acc w inp)) \<and>
   (\<forall>acc inp. length inp < n \<longrightarrow> leaves inp (doubleQuote n envs acc inp)) \<and>
   (\<forall>inp. length inp < n \<longrightarrow> leaves inp (dollar n envs inp))"
proof (induction n)
  case 0
  show ?case by simp
next
  case (Suc n)
  have so: "leaves inp' (stopOn n envs stop acc w inp)" if "length inp < n" "length inp \<le> length inp'" for stop acc w inp inp'
    using Suc that leaves_mono by blast
  have dq: "leaves inp' (doubleQuote n envs acc inp)" if "length inp < n" "length inp \<le> length inp'" for acc inp inp'
    using Suc that leaves_mono by blast
  have dl: "leaves inp (dollar n envs inp)" if "length inp < n" for inp using Suc that by blast
  have A: "leaves inp (stopOn (Suc n) envs stop acc w inp)" if len: "length inp < Suc n" for stop acc w inp
  proof (cases inp)
    case (Cons c cs)
    with len have cs: "length cs < n" by simp
    have q: "leaves inp (case doubleQuote n envs [] cs of None \<Rightarrow> None | Some (Inl e) \<Rightarrow> Some (Inl e)
        | Some (Inr (tmp, rest)) \<Rightarrow> stopOn n envs stop (acc @ tmp) (addRawString tmp w) rest)"
      by (rule leaves_cases [OF dq [OF cs order_refl, of "[]"]]) (use Cons cs in \<open>auto intro!: so\<close>)
    have d: "leaves inp (case dollar n envs cs of None \<Rightarrow> None | Some (Inl e) \<Rightarrow> Some (Inl e)
        | Some (Inr (tmp, rest)) \<Rightarrow> stopOn n envs stop (acc @ tmp) (addString tmp w) rest)"
      by (rule leaves_cases [OF dl [OF cs]]) (use Cons cs in \<open>auto intro!: so\<close>)
    obtain t r where sq: "processSingleQuote cs = (t, r)" by fastforce
    with Cons cs q d processSingleQuote_length [OF sq] show ?thesis
      by (cases cs) (auto intro!: so)
  qed simp
  have B: "leaves inp (doubleQuote (Suc n) envs acc inp)" if len: "length inp < Suc n" for acc inp
  proof (cases inp)
    case (Cons c cs)
    with len have cs: "length cs < n" by simp
    have d: "leaves inp (case dollar n envs cs of None \<Rightarrow> None | Some (Inl e) \<Rightarrow> Some (Inl e)
        | Some (Inr (tmp, rest)) \<Rightarrow> doubleQuote n envs (acc @ tmp) rest)"
      by (rule leaves_cases [OF dl [OF cs]]) (use Cons cs in \<open>auto intro!: dq\<close>)
    with Cons cs show ?thesis by (cases cs) (auto intro!: dq)
  qed simp
  have C: "leaves inp (dollar (Suc n) envs inp)" if len: "length inp < Suc n" for inp
  proof (cases "inp \<noteq> [] \<and> hd inp = CHR ''{''")
    case True
    then obtain cs where inp: "inp = CHR ''{'' # cs" by (cases inp) auto
    obtain name rest where nm: "processName cs = (name, rest)" by fastforce
    have l: "length rest \<le> length cs" by (rule processName_length [OF nm])
    have "leaves cs (stopOn n envs (Some CHR ''}'') [] emptyWords (drop 2 rest))"
      using len inp l by (intro so) auto
    then show ?thesis
      by (rule leaves_cases) (use inp nm l in \<open>auto simp: Let_def\<close>)
  next
    case False
    obtain name rest where nm: "processName inp = (name, rest)" by fastforce
    then show ?thesis using False processName_length [OF nm] by auto
  qed
  show ?case using A B C by blast
qed

text \<open>
  C31: the word processor returns on every word and every environment: the fuel of the model, one
  more than the length of the word, is never exhausted.
\<close>

theorem process_word_total: "\<exists>r. ProcessWord word env = Some r \<and> (\<exists>ws. ProcessWords word env = Some ws)"
proof -
  have "leaves word (process env word)" unfolding process_def using fuel_suffices by blast
  then show ?thesis by (rule leaves_cases) (auto simp: ProcessWord_def ProcessWords_def)
qed


subsection \<open>Escapes and quotes\<close>

definition escape :: "string \<Rightarrow> string" where
  "escape s = concat (map (\<lambda>c. [CHR 0x5C, c]) s)"

lemma escape_simps [simp]: "escape [] = []" "escape (c # s) = CHR 0x5C # c # escape s"
  by (simp_all add: escape_def)

lemma addRawChars: "fold addRawChar s w = w\<lparr>ws_word := ws_word w @ s, ws_inWord := s \<noteq> [] \<or> ws_inWord w\<rparr>"
  by (induction s arbitrary: w) (simp_all add: addRawChar_def)

lemma stopOn_escape:
  "length s < n \<Longrightarrow> stopOn n envs None acc w (escape s) = Some (Inr ((acc @ s, getWords (fold addRawChar s w)), []))"
proof (induction s arbitrary: n acc w)
  case Nil
  then show ?case by (cases n) simp_all
next
  case (Cons c s)
  then obtain m where "n = Suc m" "length s < m" by (cases n) auto
  with Cons.IH show ?case by simp
qed

lemma single_word: "getWords (emptyWords\<lparr>ws_word := s, ws_inWord := b\<rparr>) = (if s = [] then [] else [s])"
  by (simp add: getWords_def emptyWords_def)

lemma emptyWords_word [simp]: "ws_word emptyWords = []" "ws_words emptyWords = []" "\<not> ws_inWord emptyWords"
  by (simp_all add: emptyWords_def)

text \<open>
  C32: every string has a spelling that survives word processing in every environment: with a
  backslash before each character, or between single quotes when it has none of its own.  Both give
  the string itself, as one word.
\<close>

theorem quoting_roundtrip:
  "ProcessWord (escape s) env = Some (Inr s) \<and>
   ProcessWords (escape s) env = Some (Inr (if s = [] then [] else [s])) \<and>
   (CHR 0x27 \<notin> set s \<longrightarrow>
      ProcessWord (CHR 0x27 # s @ [CHR 0x27]) env = Some (Inr s) \<and>
      ProcessWords (CHR 0x27 # s @ [CHR 0x27]) env = Some (Inr (if s = [] then [] else [s])))"
proof -
  have len: "length s < Suc (length (escape s))" by (induction s) auto
  have e: "process env (escape s) = Some (Inr ((s, if s = [] then [] else [s]), []))"
    unfolding process_def using stopOn_escape [OF len, of env "[]" emptyWords] by (simp add: addRawChars single_word)
  have q: "process env (CHR 0x27 # s @ [CHR 0x27]) = Some (Inr ((s, if s = [] then [] else [s]), []))"
    if "CHR 0x27 \<notin> set s"
    using that by (simp add: process_def processSingleQuote_def addRawString_def single_word)
  show ?thesis using e q by (simp add: ProcessWord_def ProcessWords_def)
qed

theorem quoting_roundtrip_witness:
  "ProcessWord (CHR 0x27 # ''$HOME'' @ [CHR 0x27]) [''HOME=/root''] = Some (Inr ''$HOME'')"
  using quoting_roundtrip [of "''$HOME''" "[''HOME=/root'']"] by simp

subsection \<open>Substitution\<close>

definition plain :: "string \<Rightarrow> bool" where
  "plain s \<longleftrightarrow> list_all (\<lambda>c. c \<noteq> CHR 0x27 \<and> c \<noteq> CHR 0x22 \<and> c \<noteq> CHR ''$'' \<and> c \<noteq> CHR 0x5C \<and> c \<noteq> CHR ''}'') s"

lemma stopOn_plain:
  "plain s \<Longrightarrow> length s < n \<Longrightarrow>
   stopOn n envs (Some CHR ''}'') acc w (s @ CHR ''}'' # rest) =
     Some (Inr ((acc @ s, getWords (fold addChar s w)), rest))"
proof (induction s arbitrary: n acc w)
  case Nil
  then show ?case by (cases n) simp_all
next
  case (Cons c s)
  then obtain m where "n = Suc m" "length s < m" by (cases n) auto
  with Cons show ?case by (auto simp: plain_def)
qed

definition var_name :: "string \<Rightarrow> bool" where
  "var_name n \<longleftrightarrow> n \<noteq> [] \<and> \<not> is_digit (hd n) \<and> list_all name_char n"

lemma processName_name:
  assumes "var_name n" "rest = [] \<or> \<not> name_char (hd rest)"
  shows "processName (n @ rest) = (n, rest)"
proof -
  obtain c cs where n: "n = c # cs" using assms(1) by (cases n) (auto simp: var_name_def)
  have w: "takeWhile name_char (n @ rest) = n" "dropWhile name_char (n @ rest) = rest"
    using assms by (cases rest; auto simp: var_name_def list_all_iff takeWhile_append dropWhile_append)+
  show ?thesis using assms(1) w by (simp add: processName_def n var_name_def)
qed

lemma not_name_char [simp]: "\<not> name_char CHR ''}''" "\<not> name_char CHR '':''"
  by (simp_all add: name_char_def is_letter_def is_alpha_def is_upper_def is_lower_def is_digit_def)

lemma name_no_brace: "var_name n \<Longrightarrow> hd n \<noteq> CHR ''{''"
  by (cases n) (auto simp: var_name_def name_char_def is_letter_def is_alpha_def is_upper_def is_lower_def is_digit_def)

lemma process_dollar:
  assumes "\<And>m. 0 < m \<Longrightarrow> length cs < m \<Longrightarrow> dollar m env cs = Some (Inr (v, []))"
  shows "ProcessWord (CHR ''$'' # cs) env = Some (Inr v)"
proof -
  have "dollar (Suc (length cs)) env cs = Some (Inr (v, []))" using assms [of "Suc (length cs)"] by simp
  then show ?thesis by (simp add: ProcessWord_def process_def)
qed

text \<open>
  Variables are substituted: \<^verbatim>\<open>$name\<close> and \<^verbatim>\<open>${name}\<close> give the value of the variable,
  \<^verbatim>\<open>${name:-word}\<close> the word when it is empty or unset, and \<^verbatim>\<open>${name:+word}\<close> the word when it
  is not.
\<close>

theorem variable_substitution:
  assumes "var_name n" "plain w"
  shows "ProcessWord (''$'' @ n) env = Some (Inr (getEnv env n)) \<and>
     ProcessWord (''${'' @ n @ ''}'') env = Some (Inr (getEnv env n)) \<and>
     ProcessWord (''${'' @ n @ '':-'' @ w @ ''}'') env = Some (Inr (if getEnv env n = [] then w else getEnv env n)) \<and>
     ProcessWord (''${'' @ n @ '':+'' @ w @ ''}'') env = Some (Inr (if getEnv env n = [] then [] else w))"
proof (intro conjI)
  note name = processName_name [OF assms(1)]
  have ne: "n \<noteq> []" using assms(1) by (simp add: var_name_def)
  have mod: "dollar m env (CHR ''{'' # n @ CHR '':'' # c # w @ ''}'') =
      Some (Inr (if c = CHR ''+'' then (if getEnv env n \<noteq> [] then w else getEnv env n)
                 else (if getEnv env n = [] then w else getEnv env n), []))"
    if m: "length (CHR ''{'' # n @ CHR '':'' # c # w @ ''}'') < m" and c: "c = CHR ''+'' \<or> c = CHR ''-''" for m c
  proof -
    obtain k where k: "m = Suc k" "length w < k" using m by (cases m) auto
    have "stopOn k env (Some CHR ''}'') [] emptyWords (w @ ''}'') = Some (Inr ((w, getWords (fold addChar w emptyWords)), []))"
      using stopOn_plain [OF assms(2) k(2), of env "[]" emptyWords "[]"] by simp
    then show ?thesis using c by (auto simp: k(1) name Let_def)
  qed
  show "ProcessWord (''$'' @ n) env = Some (Inr (getEnv env n))"
    unfolding append_Cons append_Nil
    by (rule process_dollar) (use name [of "[]"] name_no_brace [OF assms(1)] ne in \<open>auto simp: gr0_conv_Suc\<close>)
  show "ProcessWord (''${'' @ n @ ''}'') env = Some (Inr (getEnv env n))"
    unfolding append_Cons append_Nil
    by (rule process_dollar) (use name [of "''}''"] in \<open>auto simp: gr0_conv_Suc\<close>)
  show "ProcessWord (''${'' @ n @ '':-'' @ w @ ''}'') env = Some (Inr (if getEnv env n = [] then w else getEnv env n))"
    unfolding append_Cons append_Nil by (rule process_dollar) (use mod [where c = "CHR ''-''"] in simp)
  show "ProcessWord (''${'' @ n @ '':+'' @ w @ ''}'') env = Some (Inr (if getEnv env n = [] then [] else w))"
    unfolding append_Cons append_Nil by (rule process_dollar) (use mod [where c = "CHR ''+''"] in simp)
qed

theorem variable_substitution_witness:
  "ProcessWord ''${HOME:-/tmp}'' [''PATH=/bin''] = Some (Inr ''/tmp'')"
proof -
  have "var_name ''HOME''"
    by (simp add: var_name_def name_char_def is_letter_def is_alpha_def is_upper_def is_digit_def)
  moreover have "plain ''/tmp''" by (simp add: plain_def)
  ultimately show ?thesis using variable_substitution [of "''HOME''" "''/tmp''" "[''PATH=/bin'']"] by (simp add: before_def)
qed

text \<open>
  An environment of \<^verbatim>\<open>name=value\<close> entries is read as the map of its first bindings.
\<close>

theorem get_env_first_binding:
  assumes "\<forall>(k, v) \<in> set kvs. CHR ''='' \<notin> set k"
  shows "getEnv (map (\<lambda>(k, v). k @ CHR ''='' # v) kvs) name = (case map_of kvs name of None \<Rightarrow> [] | Some v \<Rightarrow> v)"
  using assms by (induction kvs) (auto split: if_splits)

theorem get_env_first_binding_witness: "getEnv [''A=1'', ''B=x=y'', ''A=2''] ''A'' = ''1''"
  using get_env_first_binding [of "[(''A'', ''1''), (''B'', ''x=y''), (''A'', ''2'')]" "''A''"] by simp

end
