(* ===== verification/Dockerfile_Parser.thy ===== *)
theory Dockerfile_Parser
  imports Go_Strings
begin

section \<open>The Dockerfile parser (\<^verbatim>\<open>builder/dockerfile/parser/\<close>)\<close>

text \<open>
  Lines, continuations, comments, the splitting of a line into a command, its flags and its
  arguments, and the line parsers of the commands.  The scanners of the code read bytes and append
  \<^verbatim>\<open>string(rune(b))\<close>: a byte above 127 is written as its two-byte UTF-8 encoding (\<open>enc\<close>).  The
  JSON decoder is an argument \<open>json\<close>, which gives the elements of an array, strings or not.
\<close>

datatype json_elem = JString string | JOther

datatype parse_error =
    ErrNotStringArray
  | ErrJSONArray
  | ErrTwoArguments string
  | ErrNoEquals string

datatype node =
  Node (nValue: string) (nNext: "node option") (nChildren: "node option list") (nJson: bool)
    (nOriginal: string) (nFlags: "string list") (nStart: int) (nEnd: int)

definition leaf :: "string \<Rightarrow> node option \<Rightarrow> node" where
  "leaf v nxt = Node v nxt [] False [] [] 0 0"

text \<open>A linked list of values.\<close>

fun chain :: "string list \<Rightarrow> node option" where
  "chain [] = None"
| "chain (v # vs) = Some (leaf v (chain vs))"

type_synonym line_result = "(parse_error, node option \<times> bool) result"

subsection \<open>White space and words\<close>

text \<open>The regular expression \<^verbatim>\<open>[\t\v\f\r ]+\<close> and splitting at its matches.\<close>

definition token_ws :: "char \<Rightarrow> bool" where
  "token_ws c \<longleftrightarrow> (let n = (of_char c :: nat) in n = 9 \<or> n = 11 \<or> n = 12 \<or> n = 13 \<or> n = 32)"

definition ws_split2 :: "string \<Rightarrow> string list" where
  "ws_split2 s =
     (if list_all (\<lambda>c. \<not> token_ws c) s then [s]
      else [takeWhile (\<lambda>c. \<not> token_ws c) s, dropWhile token_ws (dropWhile (\<lambda>c. \<not> token_ws c) s)])"

function ws_split :: "string \<Rightarrow> string list" where
  "ws_split s =
     (if list_all (\<lambda>c. \<not> token_ws c) s then [s]
      else takeWhile (\<lambda>c. \<not> token_ws c) s # ws_split (dropWhile token_ws (dropWhile (\<lambda>c. \<not> token_ws c) s)))"
  by pat_completeness auto
termination
proof (relation "measure length", goal_cases)
  case 1
  show ?case by simp
next
  case (2 s)
  then obtain x xs where d: "dropWhile (\<lambda>c. \<not> token_ws c) s = x # xs" "token_ws x"
    by (metis dropWhile_eq_Nil_conv hd_dropWhile list.exhaust list.sel(1) list_all_iff)
  have "length (dropWhile token_ws xs) \<le> length xs" by (rule length_dropWhile_le)
  also have "length xs < length s" using d(1) length_dropWhile_le [of "\<lambda>c. \<not> token_ws c" s] by simp
  finally show ?case using d by simp
qed

declare ws_split.simps [simp del]

definition enc :: "char \<Rightarrow> string" where
  "enc c =
     (let n = (of_char c :: nat) in
      if n < 128 then [c] else [char_of (192 + n div 64), char_of (128 + n mod 64)])"

datatype phase = inSpaces | inWord | inQuote

definition flush :: "string \<Rightarrow> bool \<Rightarrow> string list" where
  "flush word blankOK = (if blankOK \<or> word \<noteq> [] then [word] else [])"

text \<open>The scanner of \<^verbatim>\<open>parseWords\<close>: the loop variables and the input that is left.\<close>

fun wordLoop :: "phase \<Rightarrow> string \<Rightarrow> char \<Rightarrow> bool \<Rightarrow> string \<Rightarrow> string list" where
  "wordLoop ph word quote blankOK [] = (if ph = inSpaces then [] else flush word blankOK)"
| "wordLoop ph word quote blankOK (c # cs) =
     (if ph = inSpaces \<and> is_space c then wordLoop inSpaces word quote blankOK cs
      else if ph \<noteq> inQuote then
        (if is_space c then flush word blankOK @ wordLoop inSpaces [] quote False cs
         else if c = CHR 0x27 \<or> c = CHR 0x22 then wordLoop inQuote (word @ enc c) c True cs
         else if c = CHR 0x5C then
           (case cs of
              [] \<Rightarrow> flush word blankOK
            | d # ds \<Rightarrow> wordLoop inWord (word @ enc c @ enc d) quote blankOK ds)
         else wordLoop inWord (word @ enc c) quote blankOK cs)
      else
        (if c = CHR 0x5C \<and> quote \<noteq> CHR 0x27 then
           (case cs of
              [] \<Rightarrow> flush word blankOK
            | d # ds \<Rightarrow> wordLoop inQuote (word @ enc c @ enc d) quote blankOK ds)
         else wordLoop (if c = quote then inWord else inQuote) (word @ enc c) quote blankOK cs))"

definition parseWords :: "string \<Rightarrow> string list" where
  "parseWords rest = wordLoop inSpaces [] (CHR 0x00) False rest"

text \<open>
  \<^verbatim>\<open>extractBuilderFlags\<close>: the words that start with \<^verbatim>\<open>--\<close>, without their quotes, and the rest
  of the line from the first other word on.
\<close>

fun flagLoop :: "phase \<Rightarrow> string \<Rightarrow> char \<Rightarrow> bool \<Rightarrow> string list \<Rightarrow> string \<Rightarrow> string \<times> string list" where
  "flagLoop ph word quote blankOK words [] =
     ([], if ph \<noteq> inSpaces \<and> word \<noteq> ''--'' then words @ flush word blankOK else words)"
| "flagLoop ph word quote blankOK words (c # cs) =
     (if ph = inSpaces \<and> is_space c then flagLoop inSpaces word quote blankOK words cs
      else if ph = inSpaces \<and> (c \<noteq> CHR ''-'' \<or> cs = [] \<or> hd cs \<noteq> CHR ''-'') then (c # cs, words)
      else if ph \<noteq> inQuote then
        (if is_space c then
           (if word = ''--'' then (c # cs, words)
            else flagLoop inSpaces [] quote False (words @ flush word blankOK) cs)
         else if c = CHR 0x27 \<or> c = CHR 0x22 then flagLoop inQuote word c True words cs
         else if c = CHR 0x5C then
           (case cs of
              [] \<Rightarrow> ([], if word \<noteq> ''--'' then words @ flush word blankOK else words)
            | d # ds \<Rightarrow> flagLoop inWord (word @ enc d) quote blankOK words ds)
         else flagLoop inWord (word @ enc c) quote blankOK words cs)
      else
        (if c = quote then flagLoop inWord word quote blankOK words cs
         else if c = CHR 0x5C then
           (case cs of
              [] \<Rightarrow> ([], if word \<noteq> ''--'' then words @ flush word blankOK else words)
            | d # ds \<Rightarrow> flagLoop inQuote (word @ enc d) quote blankOK words ds)
         else flagLoop inQuote (word @ enc c) quote blankOK words cs))"

definition extractBuilderFlags :: "string \<Rightarrow> string \<times> string list" where
  "extractBuilderFlags line = flagLoop inSpaces [] (CHR 0x00) False [] line"

definition splitCommand :: "string \<Rightarrow> string \<times> string list \<times> string" where
  "splitCommand line =
     (case ws_split2 (trim_space line) of
        [c, r] \<Rightarrow> (case extractBuilderFlags r of (args, flags) \<Rightarrow> (to_lower c, flags, trim_space args))
      | cmdline \<Rightarrow> (to_lower (hd cmdline), [], []))"

definition stripComments :: "string \<Rightarrow> string" where
  "stripComments line = (if line \<noteq> [] \<and> hd line = CHR ''#'' then [] else line)"

text \<open>The regular expression \<^verbatim>\<open>\\[ \t]*$\<close>: a backslash at the end, before blanks.\<close>

definition trimBlanks :: "string \<Rightarrow> string" where
  "trimBlanks line = rev (dropWhile (\<lambda>c. c = CHR '' '' \<or> c = CHR 0x09) (rev line))"

definition continued :: "string \<Rightarrow> bool" where
  "continued line \<longleftrightarrow> trimBlanks line \<noteq> [] \<and> last (trimBlanks line) = CHR 0x5C"

definition dropContinuation :: "string \<Rightarrow> string" where
  "dropContinuation line = butlast (trimBlanks line)"

subsection \<open>Line parsers\<close>

definition parseIgnore :: "string \<Rightarrow> line_result" where
  "parseIgnore rest = Inr (Some (leaf [] None), False)"

definition parseString :: "string \<Rightarrow> line_result" where
  "parseString rest = Inr (if rest = [] then None else Some (leaf rest None), False)"

definition parseStringsWhitespaceDelimited :: "string \<Rightarrow> line_result" where
  "parseStringsWhitespaceDelimited rest = Inr (if rest = [] then None else chain (ws_split rest), False)"

fun nameVals :: "string list \<Rightarrow> (parse_error, string list) result" where
  "nameVals [] = Inr []"
| "nameVals (w # ws) =
     (if CHR ''='' \<notin> set w then Inl (ErrNoEquals w)
      else case nameVals ws of Inl e \<Rightarrow> Inl e | Inr vs \<Rightarrow> Inr (before CHR ''='' w # after CHR ''='' w # vs))"

definition parseNameVal :: "string \<Rightarrow> string \<Rightarrow> line_result" where
  "parseNameVal rest key =
     (case parseWords rest of
        [] \<Rightarrow> Inr (None, False)
      | w # ws \<Rightarrow>
          if CHR ''='' \<notin> set w then
            (case ws_split2 rest of
               [a, b] \<Rightarrow> Inr (chain [a, b], False)
             | _ \<Rightarrow> Inl (ErrTwoArguments key))
          else (case nameVals (w # ws) of Inl e \<Rightarrow> Inl e | Inr vs \<Rightarrow> Inr (chain vs, False)))"

definition parseEnv :: "string \<Rightarrow> line_result" where
  "parseEnv rest = parseNameVal rest ''ENV''"

definition parseLabel :: "string \<Rightarrow> line_result" where
  "parseLabel rest = parseNameVal rest ''LABEL''"

definition parseNameOrNameVal :: "string \<Rightarrow> line_result" where
  "parseNameOrNameVal rest = Inr (chain (parseWords rest), False)"

fun jsonStrings :: "json_elem list \<Rightarrow> (parse_error, string list) result" where
  "jsonStrings [] = Inr []"
| "jsonStrings (JString s # es) = (case jsonStrings es of Inl e \<Rightarrow> Inl e | Inr ss \<Rightarrow> Inr (s # ss))"
| "jsonStrings (JOther # es) = Inl ErrNotStringArray"

definition parseJSON :: "(string \<Rightarrow> json_elem list option) \<Rightarrow> string \<Rightarrow> line_result" where
  "parseJSON json rest0 =
     (let rest = dropWhile ascii_space rest0 in
      if \<not> has_prefix rest ''['' then Inl ErrJSONArray
      else
        case json rest of
          None \<Rightarrow> Inl ErrJSONArray
        | Some es \<Rightarrow> (case jsonStrings es of Inl e \<Rightarrow> Inl e | Inr ss \<Rightarrow> Inr (chain ss, True)))"

definition parseMaybeJSON :: "(string \<Rightarrow> json_elem list option) \<Rightarrow> string \<Rightarrow> line_result" where
  "parseMaybeJSON json rest =
     (if rest = [] then Inr (None, False)
      else
        case parseJSON json rest of
          Inr r \<Rightarrow> Inr r
        | Inl e \<Rightarrow> if e = ErrNotStringArray then Inl e else Inr (Some (leaf rest None), False))"

definition parseMaybeJSONToList :: "(string \<Rightarrow> json_elem list option) \<Rightarrow> string \<Rightarrow> line_result" where
  "parseMaybeJSONToList json rest =
     (case parseJSON json rest of
        Inr r \<Rightarrow> Inr r
      | Inl e \<Rightarrow> if e = ErrNotStringArray then Inl e else parseStringsWhitespaceDelimited rest)"

text \<open>The dispatch table, without \<^verbatim>\<open>onbuild\<close>, whose parser calls \<open>parseLine\<close> again.\<close>

definition dispatch :: "(string \<Rightarrow> json_elem list option) \<Rightarrow> string \<Rightarrow> string \<Rightarrow> line_result" where
  "dispatch json cmd args =
     (if cmd \<in> set [''user'', ''workdir'', ''maintainer'', ''from'', ''stopsignal''] then parseString args
      else if cmd = ''env'' then parseEnv args
      else if cmd = ''label'' then parseLabel args
      else if cmd \<in> set [''add'', ''copy'', ''volume''] then parseMaybeJSONToList json args
      else if cmd \<in> set [''run'', ''cmd'', ''entrypoint''] then parseMaybeJSON json args
      else if cmd = ''expose'' then parseStringsWhitespaceDelimited args
      else if cmd = ''arg'' then parseNameOrNameVal args
      else parseIgnore args)"


subsection \<open>A line\<close>

lemma flagLoop_shortens: "length (fst (flagLoop ph word quote blankOK words s)) \<le> length s"
proof (induction s arbitrary: ph word quote blankOK words rule: length_induct)
  case (1 s)
  show ?case
  proof (cases s)
    case (Cons c cs)
    have cs: "length (fst (flagLoop p w q b ws cs)) \<le> Suc (length cs)" for p w q b ws
      using 1 Cons le_SucI by (metis length_Cons lessI)
    show ?thesis
    proof (cases cs)
      case Nil
      then show ?thesis using cs Cons by simp
    next
      case (Cons d ds)
      have ds: "length (fst (flagLoop p w q b ws ds)) \<le> Suc (Suc (length ds))" for p w q b ws
        using 1 \<open>s = c # cs\<close> Cons le_SucI by (metis length_Cons lessI less_SucI)
      show ?thesis
        unfolding \<open>s = c # cs\<close>
        by (subst flagLoop.simps) (use cs ds in \<open>simp add: Cons del: flagLoop.simps\<close>)
    qed
  qed simp
qed

lemma trim_by_shortens: "length (trim_by P s) \<le> length s"
  unfolding trim_by_def
  by (metis length_dropWhile_le length_rev order.trans)

lemma ws_split2_shortens:
  assumes "ws_split2 s = [c, r]"
  shows "length r < length s"
proof -
  from assms have "\<not> list_all (\<lambda>c. \<not> token_ws c) s" by (auto simp: ws_split2_def split: if_splits)
  then obtain x xs where d: "dropWhile (\<lambda>c. \<not> token_ws c) s = x # xs" "token_ws x"
    by (metis dropWhile_eq_Nil_conv hd_dropWhile list.exhaust list.sel(1) list_all_iff)
  have "r = dropWhile token_ws xs" using assms d by (auto simp: ws_split2_def split: if_splits)
  then have "length r \<le> length xs" by (simp add: length_dropWhile_le)
  also have "length xs < length s" using d(1) length_dropWhile_le [of "\<lambda>c. \<not> token_ws c" s] by simp
  finally show ?thesis .
qed

lemma splitCommand_shortens:
  assumes "splitCommand line = (cmd, flags, args)" "args \<noteq> []"
  shows "length args < length line"
proof -
  let ?s = "trim_space line"
  from assms obtain c r where c: "ws_split2 ?s = [c, r]"
    and args: "args = trim_space (fst (extractBuilderFlags r))"
    by (auto simp: splitCommand_def split: list.splits prod.splits)
  have "length args \<le> length (fst (extractBuilderFlags r))"
    unfolding args trim_space_def by (rule trim_by_shortens)
  also have "\<dots> \<le> length r" unfolding extractBuilderFlags_def by (rule flagLoop_shortens)
  also have "\<dots> < length ?s" by (rule ws_split2_shortens [OF c])
  also have "\<dots> \<le> length line" unfolding trim_space_def by (rule trim_by_shortens)
  finally show ?thesis .
qed

lemma stripComments_shortens: "length (stripComments line) \<le> length line"
  by (simp add: stripComments_def)

text \<open>
  \<open>parseLine\<close> returns the remainder of a continued line, or a node.  The argument of \<^verbatim>\<open>ONBUILD\<close>
  is a line again (\<^verbatim>\<open>parseSubCommand\<close>); when that line is a comment, the child is \<^verbatim>\<open>nil\<close>.
\<close>

function parseLine :: "(string \<Rightarrow> json_elem list option) \<Rightarrow> string \<Rightarrow> (parse_error, string \<times> node option) result" where
  "parseLine json line0 =
     (let line = stripComments line0 in
      if line = [] then Inr ([], None)
      else if continued line then Inr (dropContinuation line, None)
      else
        case splitCommand line of
          (cmd, flags, args) \<Rightarrow>
            let sexp =
              (if cmd = ''onbuild'' then
                 (if args = [] then Inr (None, False)
                  else
                    case parseLine json args of
                      Inl e \<Rightarrow> Inl e
                    | Inr (_, child) \<Rightarrow> Inr (Some (Node [] None [child] False [] [] 0 0), False))
               else dispatch json cmd args)
            in
              case sexp of
                Inl e \<Rightarrow> Inl e
              | Inr (nxt, attrs) \<Rightarrow> Inr ([], Some (Node cmd nxt [] attrs line flags 0 0)))"
  by pat_completeness auto
termination
proof (relation "measure (\<lambda>(json, line). length line)", goal_cases)
  case 1
  show ?case by simp
next
  case (2 json line0 x xa y xb ya)
  then have "length ya < length x" by (metis splitCommand_shortens)
  also have "\<dots> \<le> length line0" unfolding 2 by (rule stripComments_shortens)
  finally show ?case by simp
qed

declare parseLine.simps [simp del]

definition fullDispatch :: "(string \<Rightarrow> json_elem list option) \<Rightarrow> string \<Rightarrow> string \<Rightarrow> line_result" where
  "fullDispatch json cmd args =
     (if cmd = ''onbuild'' then
        (if args = [] then Inr (None, False)
         else
           case parseLine json args of
             Inl e \<Rightarrow> Inl e
           | Inr (_, child) \<Rightarrow> Inr (Some (Node [] None [child] False [] [] 0 0), False))
      else dispatch json cmd args)"

lemma parseLine_step:
  "parseLine json line0 =
     (let line = stripComments line0 in
      if line = [] then Inr ([], None)
      else if continued line then Inr (dropContinuation line, None)
      else
        case splitCommand line of
          (cmd, flags, args) \<Rightarrow>
            (case fullDispatch json cmd args of
               Inl e \<Rightarrow> Inl e
             | Inr (nxt, attrs) \<Rightarrow> Inr ([], Some (Node cmd nxt [] attrs line flags 0 0))))"
  by (subst parseLine.simps) (simp add: fullDispatch_def Let_def split: prod.splits)

subsection \<open>A file\<close>

text \<open>The inner loop of \<^verbatim>\<open>Parse\<close>: the line, its node, the number of the last line read, the rest.\<close>

fun contLoop ::
    "(string \<Rightarrow> json_elem list option) \<Rightarrow> string \<Rightarrow> int \<Rightarrow> string list
      \<Rightarrow> (parse_error, string \<times> node option \<times> int \<times> string list) result" where
  "contLoop json line currentLine [] = Inr (line, None, currentLine, [])"
| "contLoop json line currentLine (newline # rest) =
     (if stripComments (trim_space newline) = [] then contLoop json line (currentLine + 1) rest
      else
        case parseLine json (line @ newline) of
          Inl e \<Rightarrow> Inl e
        | Inr (line', Some child) \<Rightarrow> Inr (line', Some child, currentLine + 1, rest)
        | Inr (line', None) \<Rightarrow> contLoop json line' (currentLine + 1) rest)"

text \<open>One instruction: its first line, and the lines that continue it.\<close>

definition instruction ::
    "(string \<Rightarrow> json_elem list option) \<Rightarrow> string \<Rightarrow> int \<Rightarrow> string list
      \<Rightarrow> (parse_error, node option \<times> int \<times> string list) result" where
  "instruction json text currentLine rest =
     (case parseLine json (dropWhile ascii_space text) of
        Inl e \<Rightarrow> Inl e
      | Inr (line, child) \<Rightarrow>
          if line \<noteq> [] \<and> child = None then
            (case contLoop json line currentLine rest of
               Inl e \<Rightarrow> Inl e
             | Inr (line', child', currentLine', rest') \<Rightarrow>
                 if child' = None \<and> line' \<noteq> [] then
                   (case parseLine json line' of
                      Inl e \<Rightarrow> Inl e
                    | Inr (_, child'') \<Rightarrow> Inr (child'', currentLine', rest'))
                 else Inr (child', currentLine', rest'))
          else Inr (child, currentLine, rest))"

lemma contLoop_rest:
  "contLoop json line n rest = Inr (line', child, n', rest') \<Longrightarrow>
     \<exists>read. rest = read @ rest' \<and> n' = n + int (length read)"
proof (induction json line n rest rule: contLoop.induct)
  case (2 json line n newline rest)
  show ?case
  proof (cases "stripComments (trim_space newline) = []")
    case True
    then show ?thesis using 2 by (auto intro: exI [of _ "newline # _"])
  next
    case False
    then show ?thesis
      using 2 by (cases "parseLine json (line @ newline)")
        (fastforce split: option.splits intro: exI [of _ "newline # _"] exI [of _ "[newline]"])+
  qed
qed simp

lemma instruction_rest:
  assumes "instruction json text n rest = Inr (child, n', rest')"
  shows "\<exists>read. rest = read @ rest' \<and> n' = n + int (length read)"
  using assms contLoop_rest unfolding instruction_def
  by (fastforce split: sum.splits if_splits)

lemma instruction_shortens:
  "instruction json text n rest = Inr (child, n', rest') \<Longrightarrow> length rest' < Suc (length rest)"
  using instruction_rest by fastforce

definition located :: "node \<Rightarrow> int \<Rightarrow> int \<Rightarrow> node" where
  "located c startLine endLine =
     (case c of Node v nxt cs js orig fl _ _ \<Rightarrow> Node v nxt cs js orig fl startLine endLine)"

definition addChildNode :: "node \<Rightarrow> node \<Rightarrow> int \<Rightarrow> int \<Rightarrow> node" where
  "addChildNode root child startLine currentLine =
     (case root of
        Node v nxt cs js orig fl s e \<Rightarrow>
          Node v nxt (cs @ [Some (located child startLine currentLine)]) js orig fl
            (if s < 0 then currentLine else s) currentLine)"

function parseFile ::
    "(string \<Rightarrow> json_elem list option) \<Rightarrow> int \<Rightarrow> node \<Rightarrow> string list \<Rightarrow> (parse_error, node) result" where
  "parseFile json currentLine root [] = Inr root"
| "parseFile json currentLine root (text # rest) =
     (case instruction json text (currentLine + 1) rest of
        Inl e \<Rightarrow> Inl e
      | Inr (child, currentLine', rest') \<Rightarrow>
          parseFile json currentLine'
            (case child of None \<Rightarrow> root | Some c \<Rightarrow> addChildNode root c (currentLine + 1) currentLine') rest')"
  by pat_completeness auto
termination
  by (relation "measure (\<lambda>(json, n, root, ls). length ls)") (auto intro: instruction_shortens)

definition Parse :: "(string \<Rightarrow> json_elem list option) \<Rightarrow> string list \<Rightarrow> (parse_error, node) result" where
  "Parse json ls = parseFile json 0 (Node [] None [] False [] [] (- 1) 0) ls"


subsection \<open>Line numbers\<close>

lemma located_simps [simp]:
  "nStart (located c s e) = s" "nEnd (located c s e) = e" "located (located c s e) s' e' = located c s' e'"
  by (simp_all add: located_def split: node.splits)

lemma addChildNode_simps [simp]:
  "nChildren (addChildNode r c s e) = nChildren r @ [Some (located c s e)]"
  "nStart (addChildNode r c s e) = (if nStart r < 0 then e else nStart r)"
  "nEnd (addChildNode r c s e) = e"
  by (simp_all add: addChildNode_def split: node.splits)

text \<open>The children of the root carry increasing, disjoint line spans; so the root's own span.\<close>

definition spans_ok :: "int \<Rightarrow> node \<Rightarrow> bool" where
  "spans_ok n root \<longleftrightarrow>
     (\<exists>ns. nChildren root = map Some ns
        \<and> list_all (\<lambda>c. 1 \<le> nStart c \<and> nStart c \<le> nEnd c \<and> nEnd c \<le> n) ns
        \<and> sorted_wrt (\<lambda>a b. nEnd a < nStart b) ns
        \<and> (if ns = [] then nStart root = - 1 else nStart root = nEnd (hd ns) \<and> nEnd root = nEnd (last ns)))"

lemma spans_ok_mono: "spans_ok n root \<Longrightarrow> n \<le> m \<Longrightarrow> spans_ok m root"
  unfolding spans_ok_def by (fastforce simp: list_all_iff)

lemma spans_ok_add:
  assumes "spans_ok n root" "0 \<le> n" "n < s" "s \<le> e"
  shows "spans_ok e (addChildNode root c s e)"
proof -
  from assms obtain ns where ns: "nChildren root = map Some ns"
      "list_all (\<lambda>c. 1 \<le> nStart c \<and> nStart c \<le> nEnd c \<and> nEnd c \<le> n) ns"
      "sorted_wrt (\<lambda>a b. nEnd a < nStart b) ns"
      "if ns = [] then nStart root = - 1 else nStart root = nEnd (hd ns) \<and> nEnd root = nEnd (last ns)"
    unfolding spans_ok_def by blast
  let ?ns = "ns @ [located c s e]"
  have "list_all (\<lambda>c. 1 \<le> nStart c \<and> nStart c \<le> nEnd c \<and> nEnd c \<le> e) ?ns"
    using ns(2) assms by (fastforce simp: list_all_iff)
  moreover have "sorted_wrt (\<lambda>a b. nEnd a < nStart b) ?ns"
    using ns(2,3) assms by (fastforce simp: sorted_wrt_append list_all_iff)
  moreover have "ns \<noteq> [] \<Longrightarrow> \<not> nStart root < 0"
    using ns(2,4) by (cases ns) auto
  ultimately show ?thesis
    using ns(1,4) unfolding spans_ok_def by (intro exI [of _ ?ns]) (cases ns, auto)
qed

lemma parseFile_spans:
  assumes "parseFile json n root ls = Inr root'" "spans_ok n root" "0 \<le> n"
  shows "spans_ok (n + int (length ls)) root'"
  using assms
proof (induction json n root ls rule: parseFile.induct)
  case (2 json n root scanned rest)
  then obtain child n' rest' where i: "instruction json scanned (n + 1) rest = Inr (child, n', rest')"
    by (auto split: sum.splits)
  then obtain read where read: "rest = read @ rest'" "n' = n + 1 + int (length read)"
    using instruction_rest by blast
  let ?root = "case child of None \<Rightarrow> root | Some c \<Rightarrow> addChildNode root c (n + 1) n'"
  have "spans_ok n' ?root"
    using 2(3,4) read(2) by (auto split: option.split intro: spans_ok_mono spans_ok_add)
  moreover have "parseFile json n' ?root rest' = Inr root'" using 2(2) i by simp
  moreover have "0 \<le> n'" using 2(4) read(2) by simp
  ultimately have "spans_ok (n' + int (length rest')) root'" using 2(1) [OF i refl refl] by blast
  then show ?case using read by (simp add: algebra_simps)
qed simp

text \<open>
  Every instruction the parser returns carries the lines it was read from: within the file, in
  order and without overlap, however it was continued.  The root's last line is that of the last
  instruction, but its first line is the \<^emph>\<open>last\<close> line of the first instruction, where the comment in
  the code promises the first.
\<close>

theorem parse_line_spans:
  assumes "Parse json ls = Inr root"
  shows "\<exists>ns. nChildren root = map Some ns
        \<and> list_all (\<lambda>c. 1 \<le> nStart c \<and> nStart c \<le> nEnd c \<and> nEnd c \<le> int (length ls)) ns
        \<and> sorted_wrt (\<lambda>a b. nEnd a < nStart b) ns
        \<and> (if ns = [] then nStart root = - 1 else nStart root = nEnd (hd ns) \<and> nEnd root = nEnd (last ns))"
proof -
  have "spans_ok 0 (Node [] None [] False [] [] (- 1) 0)" by (simp add: spans_ok_def)
  then have "spans_ok (int (length ls)) root"
    using parseFile_spans [OF assms [unfolded Parse_def]] by simp
  then show ?thesis unfolding spans_ok_def .
qed


definition sample_file :: "string list" where
  "sample_file = [''FROM a'', [], ''ENV x=1 '' @ [CHR 0x5C], ''# note'', ''  y=2'', ''RUN make'']"

lemma sample_parses: "case Parse (\<lambda>_. None) sample_file of Inl _ \<Rightarrow> False | Inr root \<Rightarrow> length (nChildren root) = 3"
  by code_simp

theorem parse_line_spans_witness:
  "\<exists>root ns. Parse (\<lambda>_. None) sample_file = Inr root \<and> nChildren root = map Some ns \<and> length ns = 3
     \<and> list_all (\<lambda>c. 1 \<le> nStart c \<and> nStart c \<le> nEnd c \<and> nEnd c \<le> int (length sample_file)) ns
     \<and> sorted_wrt (\<lambda>a b. nEnd a < nStart b) ns"
proof -
  obtain root where root: "Parse (\<lambda>_. None) sample_file = Inr root" "length (nChildren root) = 3"
    using sample_parses by (cases "Parse (\<lambda>_. None) sample_file") auto
  then show ?thesis using parse_line_spans [OF root(1)] by fastforce
qed

subsection \<open>Continuation lines\<close>

text \<open>What a parse gives apart from the line numbers.\<close>

definition shape :: "(parse_error, node) result \<Rightarrow> (parse_error, node option list) result" where
  "shape r =
     (case r of
        Inl e \<Rightarrow> Inl e
      | Inr root \<Rightarrow> Inr (map (map_option (\<lambda>c. located c 0 0)) (nChildren root)))"

lemma contLoop_shift:
  "contLoop json line n rest =
     (case contLoop json line 0 rest of
        Inl e \<Rightarrow> Inl e | Inr (line', child, n', rest') \<Rightarrow> Inr (line', child, n + n', rest'))"
proof (induction rest arbitrary: line n)
  case (Cons newline rest)
  have "contLoop json l (n + 1) rest =
     (case contLoop json l 1 rest of
        Inl e \<Rightarrow> Inl e | Inr (line', child, n', rest') \<Rightarrow> Inr (line', child, n + n', rest'))" for l
    by (subst (1 2) Cons.IH) (auto split: sum.split)
  then show ?case by (auto split: sum.split option.split)
qed simp

lemma instruction_shift:
  "instruction json scanned n rest =
     (case instruction json scanned 0 rest of
        Inl e \<Rightarrow> Inl e | Inr (child, n', rest') \<Rightarrow> Inr (child, n + n', rest'))"
  unfolding instruction_def
  by (subst contLoop_shift) (simp split: sum.split prod.split)

lemma shape_parseFile:
  "shape (Inr root) = shape (Inr root') \<Longrightarrow> shape (parseFile json n root ls) = shape (parseFile json m root' ls)"
proof (induction "length ls" arbitrary: ls n m root root' rule: less_induct)
  case less
  show ?case
  proof (cases ls)
    case Nil
    then show ?thesis using less.prems by simp
  next
    case (Cons l rest)
    show ?thesis
    proof (cases "instruction json l 0 rest")
      case (Inl e)
      have "instruction json l k rest = Inl e" for k using instruction_shift [of json l k rest] Inl by simp
      then show ?thesis using Cons by (simp add: shape_def)
    next
      case (Inr r)
      then obtain child n' rest' where i: "instruction json l 0 rest = Inr (child, n', rest')"
        by (cases r) auto
      have "length rest' < length ls" using instruction_shortens [OF i] Cons by simp
      moreover have "shape (Inr (case child of None \<Rightarrow> root | Some c \<Rightarrow> addChildNode root c a b)) =
          shape (Inr (case child of None \<Rightarrow> root' | Some c \<Rightarrow> addChildNode root' c a' b'))" for a b a' b'
        using less.prems by (auto simp: shape_def split: option.split)
      ultimately have same: "shape (parseFile json a (case child of None \<Rightarrow> root | Some c \<Rightarrow> addChildNode root c a' a) rest') =
          shape (parseFile json b (case child of None \<Rightarrow> root' | Some c \<Rightarrow> addChildNode root' c b' b) rest')" for a b a' b'
        by (rule less.hyps)
      have at: "instruction json l k rest = Inr (child, k + n', rest')" for k
        using instruction_shift [of json l k rest] i by simp
      show ?thesis unfolding Cons parseFile.simps at sum.case prod.case by (rule same)
    qed
  qed
qed

lemma trimBlanks_append:
  "\<exists>c \<in> set m. \<not> (c = CHR '' '' \<or> c = CHR 0x09) \<Longrightarrow>
     trimBlanks (l @ m) = l @ trimBlanks m \<and> trimBlanks m \<noteq> []"
  by (auto simp: trimBlanks_def dropWhile_append)

lemma continued_snoc [simp]: "continued (l @ [CHR 0x5C])"
  by (simp add: continued_def trimBlanks_def)

lemma dropContinuation_snoc [simp]: "dropContinuation (l @ [CHR 0x5C]) = l"
  by (simp add: dropContinuation_def trimBlanks_def)

definition starts_instruction :: "string \<Rightarrow> bool" where
  "starts_instruction l \<longleftrightarrow> (\<exists>c cs. dropWhile ascii_space l = c # cs \<and> c \<noteq> CHR ''#'')"

lemma starts_instruction_append:
  assumes "starts_instruction l"
  shows "dropWhile ascii_space (l @ m) = dropWhile ascii_space l @ m"
    "stripComments (dropWhile ascii_space l @ m) = dropWhile ascii_space l @ m"
    "dropWhile ascii_space l \<noteq> []"
proof -
  from assms obtain c cs where c: "dropWhile ascii_space l = c # cs" "c \<noteq> CHR ''#''"
    by (auto simp: starts_instruction_def)
  then have "\<exists>x \<in> set l. \<not> ascii_space x" by (metis dropWhile_eq_Nil_conv list.distinct(1))
  then show "dropWhile ascii_space (l @ m) = dropWhile ascii_space l @ m" by (auto simp: dropWhile_append)
  show "stripComments (dropWhile ascii_space l @ m) = dropWhile ascii_space l @ m" using c by (simp add: stripComments_def)
  show "dropWhile ascii_space l \<noteq> []" using c by simp
qed

lemma instruction_backslash:
  assumes "starts_instruction l"
  shows "parseLine json (dropWhile ascii_space (l @ [CHR 0x5C])) = Inr (dropWhile ascii_space l, None)"
  using starts_instruction_append [OF assms] by (simp add: parseLine_step)

lemma remainder_not_Nil:
  assumes "starts_instruction l" "stripComments (trim_space m) \<noteq> []"
    and "parseLine json (dropWhile ascii_space l @ m) = Inr (line', None)"
  shows "line' \<noteq> []"
proof -
  let ?l = "dropWhile ascii_space l @ m"
  have "trim_space m \<noteq> []" using assms(2) by (auto simp: stripComments_def)
  then obtain c where c: "c \<in> set m" "\<not> ascii_space c"
    by (auto simp: trim_space_def trim_by_def dropWhile_eq_Nil_conv dest: set_dropWhileD)
  have "ascii_space (CHR '' '')" "ascii_space (CHR 0x09)" by (simp_all add: ascii_space_def)
  with c(2) have "\<not> (c = CHR '' '' \<or> c = CHR 0x09)" by metis
  with c(1) have "\<exists>c \<in> set m. \<not> (c = CHR '' '' \<or> c = CHR 0x09)" by (rule bexI [rotated])
  from trimBlanks_append [OF this, of "dropWhile ascii_space l"] have "2 \<le> length (trimBlanks ?l)"
    using starts_instruction_append(3) [OF assms(1)]
    by (cases "dropWhile ascii_space l"; cases "trimBlanks m") auto
  then have "dropContinuation ?l \<noteq> []"
    by (cases "trimBlanks ?l" rule: rev_cases) (auto simp: dropContinuation_def)
  moreover have "line' = dropContinuation ?l"
    using assms(3) starts_instruction_append(2,3) [OF assms(1)]
    by (auto simp: parseLine_step Let_def split: if_splits prod.splits sum.splits)
  ultimately show ?thesis by simp
qed

lemma instruction_join:
  assumes "starts_instruction l" "stripComments (trim_space m) \<noteq> []"
  shows "instruction json (l @ [CHR 0x5C]) n (m # rest) = instruction json (l @ m) (n + 1) rest"
proof -
  note l = starts_instruction_append [OF assms(1)]
  show ?thesis
    unfolding instruction_def instruction_backslash [OF assms(1)]
    using l(3) assms(2) remainder_not_Nil [OF assms]
    by (auto simp: l(1) split: sum.split option.split)
qed

lemma instruction_comment:
  assumes "starts_instruction l" "stripComments (trim_space m) = []"
  shows "instruction json (l @ [CHR 0x5C]) n (m # rest) = instruction json (l @ [CHR 0x5C]) (n + 1) rest"
  unfolding instruction_def instruction_backslash [OF assms(1)]
  using starts_instruction_append(3) [OF assms(1)] assms(2) by simp

lemma parse_from_instruction:
  assumes "\<And>n. instruction json a n (m # ls) = instruction json b (n + 1) ls"
  shows "shape (Parse json (a # m # ls)) = shape (Parse json (b # ls))"
proof -
  have a: "instruction json a 1 (m # ls) = instruction json b 2 ls" using assms [of 1] by simp
  show ?thesis
  proof (cases "instruction json b 0 ls")
    case (Inl e)
    then show ?thesis
      using a instruction_shift [of json b 1 ls] instruction_shift [of json b 2 ls] by (simp add: Parse_def)
  next
    case (Inr r)
    then obtain child n' rest' where i: "instruction json b 0 ls = Inr (child, n', rest')"
      by (cases r) auto
    let ?root = "Node [] None [] False [] [] (- 1) 0"
    have "shape (Inr (case child of None \<Rightarrow> ?root | Some c \<Rightarrow> addChildNode ?root c 1 (2 + n'))) =
        shape (Inr (case child of None \<Rightarrow> ?root | Some c \<Rightarrow> addChildNode ?root c 1 (1 + n')))"
      by (auto simp: shape_def split: option.split)
    from shape_parseFile [OF this, of json "2 + n'" rest' "1 + n'"] show ?thesis
      using a i instruction_shift [of json b 1 ls] instruction_shift [of json b 2 ls]
      by (simp add: Parse_def cong: option.case_cong)
  qed
qed

text \<open>
  C30: Inside an instruction that ends in a backslash, a blank line or a comment changes nothing
  but the line numbers; any other line is appended to the instruction, as if both had been written
  as one line, whatever follows.
\<close>

theorem continuation_joins_lines:
  assumes "starts_instruction l"
  shows "shape (Parse json ((l @ [CHR 0x5C]) # m # ls)) =
    shape (if stripComments (trim_space m) = [] then Parse json ((l @ [CHR 0x5C]) # ls)
           else Parse json ((l @ m) # ls))"
  using instruction_join [OF assms] instruction_comment [OF assms] parse_from_instruction by simp

theorem continuation_joins_lines_witness:
  "starts_instruction ''RUN a '' \<and>
   shape (Parse (\<lambda>_. None) [''RUN a '' @ [CHR 0x5C], ''  b'']) = shape (Parse (\<lambda>_. None) [''RUN a   b''])"
proof -
  have s: "starts_instruction ''RUN a ''" by (simp add: starts_instruction_def ascii_space_def)
  have "stripComments (trim_space ''  b'') \<noteq> []" by code_simp
  then show ?thesis using s continuation_joins_lines [OF s, of "\<lambda>_. None" "''  b''" "[]"] by simp
qed


subsection \<open>Words\<close>

text \<open>A word that is written as it is: bytes with no special meaning, then perhaps a quoted part.\<close>

definition bare_char :: "char \<Rightarrow> bool" where
  "bare_char c \<longleftrightarrow> (of_char c :: nat) < 128 \<and> \<not> is_space c \<and> c \<noteq> CHR 0x27 \<and> c \<noteq> CHR 0x22 \<and> c \<noteq> CHR 0x5C"

definition quoted_word :: "string \<Rightarrow> bool" where
  "quoted_word w \<longleftrightarrow> (\<exists>q b. w = q # b @ [q] \<and> (q = CHR 0x27 \<or> q = CHR 0x22)
      \<and> list_all (\<lambda>c. (of_char c :: nat) < 128 \<and> c \<noteq> q \<and> c \<noteq> CHR 0x5C) b)"

definition plain_word :: "string \<Rightarrow> bool" where
  "plain_word w \<longleftrightarrow> (\<exists>a b. w = a @ b \<and> list_all bare_char a \<and> (b = [] \<or> quoted_word b))"

lemma quote_char_facts [simp]:
  "enc (CHR 0x27) = [CHR 0x27]" "enc (CHR 0x22) = [CHR 0x22]" "\<not> is_space (CHR 0x27)" "\<not> is_space (CHR 0x22)"
  by (simp_all add: enc_def is_space_def ascii_space_def)

lemma bare_char_facts:
  assumes "bare_char c"
  shows "enc c = [c]" "\<not> is_space c" "c \<noteq> CHR 0x27" "c \<noteq> CHR 0x22" "c \<noteq> CHR 0x5C"
  using assms by (auto simp: bare_char_def enc_def)

lemma wordLoop_bare:
  "list_all bare_char a \<Longrightarrow> wordLoop inWord word q bo (a @ s) = wordLoop inWord (word @ a) q bo s"
proof (induction a arbitrary: word)
  case (Cons c a)
  then have c: "bare_char c" by simp
  have "wordLoop inWord word q bo ((c # a) @ s) = wordLoop inWord (word @ [c]) q bo (a @ s)"
    using bare_char_facts [OF c] by simp
  then show ?case using Cons by simp
qed simp

lemma wordLoop_quote:
  assumes "q = CHR 0x27 \<or> q = CHR 0x22"
  shows "list_all (\<lambda>c. (of_char c :: nat) < 128 \<and> c \<noteq> q \<and> c \<noteq> CHR 0x5C) b \<Longrightarrow>
    wordLoop inQuote word q bo (b @ q # s) = wordLoop inWord (word @ b @ [q]) q bo s"
proof (induction b arbitrary: word)
  case Nil
  have "q \<noteq> CHR 0x5C" "enc q = [q]" using assms by auto
  then show ?case by simp
next
  case (Cons c b)
  then have "enc c = [c]" by (simp add: enc_def)
  then have "wordLoop inQuote word q bo ((c # b) @ q # s) = wordLoop inQuote (word @ [c]) q bo (b @ q # s)"
    using Cons.prems by simp
  then show ?case using Cons by simp
qed

lemma wordLoop_quoted:
  assumes "quoted_word w"
  shows "\<exists>q'. wordLoop inWord word q bo (w @ s) = wordLoop inWord (word @ w) q' True s"
proof -
  from assms obtain c b where w: "w = c # b @ [c]" "c = CHR 0x27 \<or> c = CHR 0x22"
      "list_all (\<lambda>x. (of_char x :: nat) < 128 \<and> x \<noteq> c \<and> x \<noteq> CHR 0x5C) b"
    unfolding quoted_word_def by blast
  then have "wordLoop inWord word q bo (w @ s) = wordLoop inQuote (word @ [c]) c True (b @ c # s)"
    by auto
  then show ?thesis using wordLoop_quote [OF w(2,3)] w(1) by auto
qed

lemma wordLoop_plain:
  assumes "plain_word w" "w \<noteq> []"
  shows "\<exists>q' bo'. wordLoop inSpaces [] q bo (w @ s) = wordLoop inWord w q' bo' s"
proof -
  from assms obtain a b where w: "w = a @ b" "list_all bare_char a" "b = [] \<or> quoted_word b"
    unfolding plain_word_def by blast
  have "\<not> is_space (hd w)"
    using w assms(2) bare_char_facts(2) by (cases a) (auto simp: quoted_word_def)
  then have "wordLoop inSpaces [] q bo (w @ s) = wordLoop inWord [] q bo (w @ s)"
    using assms(2) by (cases w) auto
  then show ?thesis using w(1,3) wordLoop_bare [OF w(2)] wordLoop_quoted by fastforce
qed

lemma parseWords_join:
  assumes "list_all (\<lambda>w. plain_word w \<and> w \<noteq> []) ws"
  shows "parseWords (join CHR '' '' ws) = ws"
proof -
  have "wordLoop inSpaces [] q bo (join CHR '' '' ws) = ws" for q bo
    using assms
  proof (induction "CHR '' ''" ws arbitrary: q bo rule: join.induct)
    case (2 w)
    then obtain q' bo' where "wordLoop inSpaces [] q bo (w @ []) = wordLoop inWord w q' bo' []"
      using wordLoop_plain [of w q bo "[]"] by auto
    then show ?case using 2 by (simp add: flush_def)
  next
    case (3 w v ws)
    then obtain q' bo' where "wordLoop inSpaces [] q bo (w @ CHR '' '' # join CHR '' '' (v # ws)) =
        wordLoop inWord w q' bo' (CHR '' '' # join CHR '' '' (v # ws))"
      using wordLoop_plain [of w q bo "CHR '' '' # join CHR '' '' (v # ws)"] by auto
    moreover have "is_space (CHR '' '')" by (simp add: is_space_def ascii_space_def)
    ultimately show ?case using 3 by (simp add: flush_def)
  qed simp
  then show ?thesis by (simp add: parseWords_def)
qed

text \<open>
  The words of an instruction survive: separated by single blanks, they are returned as they
  were written, quotes included, for any number of non-empty words.
\<close>

theorem parse_words_roundtrip:
  assumes "list_all (\<lambda>w. plain_word w \<and> w \<noteq> []) ws"
  shows "parseWords (join CHR '' '' ws) = ws"
  by (rule parseWords_join [OF assms])

lemma sample_words: "list_all (\<lambda>w. plain_word w \<and> w \<noteq> []) [''a=1'', [CHR ''b'', CHR 0x22, CHR '' '', CHR 0x22]]"
proof -
  have "list_all bare_char ''a=1''" "list_all bare_char ''b''" by code_simp+
  moreover have "quoted_word [CHR 0x22, CHR '' '', CHR 0x22]"
    unfolding quoted_word_def by (intro exI [of _ "CHR 0x22"] exI [of _ "'' ''"]) simp
  ultimately have "plain_word (''a=1'' @ [])" "plain_word (''b'' @ [CHR 0x22, CHR '' '', CHR 0x22])"
    unfolding plain_word_def by blast+
  then show ?thesis by simp
qed

theorem parse_words_roundtrip_witness:
  "parseWords (join CHR '' '' [''a=1'', [CHR ''b'', CHR 0x22, CHR '' '', CHR 0x22]]) =
     [''a=1'', [CHR ''b'', CHR 0x22, CHR '' '', CHR 0x22]]"
  by (rule parse_words_roundtrip [OF sample_words])


text \<open>The pairs of an \<^verbatim>\<open>ENV\<close> line.\<close>

definition binding :: "string \<times> string \<Rightarrow> string" where
  "binding kv = fst kv @ CHR ''='' # snd kv"

definition binding_ok :: "string \<times> string \<Rightarrow> bool" where
  "binding_ok kv \<longleftrightarrow> fst kv \<noteq> [] \<and> list_all (\<lambda>c. bare_char c \<and> c \<noteq> CHR ''='' \<and> c \<noteq> CHR ''-'') (fst kv)
     \<and> plain_word (snd kv)"

lemma plain_word_append:
  assumes "list_all bare_char a" "plain_word w"
  shows "plain_word (a @ w)"
proof -
  from assms(2) obtain b c where "w = b @ c" "list_all bare_char b" "c = [] \<or> quoted_word c"
    unfolding plain_word_def by blast
  then show ?thesis
    unfolding plain_word_def using assms(1) by (intro exI [of _ "a @ b"] exI [of _ c]) auto
qed

lemma binding_plain:
  assumes "binding_ok kv"
  shows "plain_word (binding kv)"
proof -
  have "list_all bare_char (fst kv @ ''='')"
    using assms by (auto simp: binding_ok_def bare_char_def is_space_def ascii_space_def list_all_iff)
  from plain_word_append [OF this, of "snd kv"] show ?thesis
    using assms by (simp add: binding_ok_def binding_def)
qed

lemma plain_word_last:
  assumes "plain_word w" "w \<noteq> []"
  shows "\<not> ascii_space (last w)" "last w \<noteq> CHR 0x5C"
proof -
  from assms obtain a b where w: "w = a @ b" "list_all bare_char a" "b = [] \<or> quoted_word b"
    unfolding plain_word_def by blast
  have "bare_char (last w) \<or> last w = CHR 0x27 \<or> last w = CHR 0x22"
  proof (cases "b = []")
    case True
    then show ?thesis using w assms(2) by (simp add: list_all_iff)
  next
    case False
    then show ?thesis using w(1,3) by (auto simp: quoted_word_def)
  qed
  then show "\<not> ascii_space (last w)" "last w \<noteq> CHR 0x5C"
    by (auto simp: bare_char_def is_space_def) (simp_all add: ascii_space_def)
qed

lemma join_last: "ws \<noteq> [] \<Longrightarrow> last ws \<noteq> [] \<Longrightarrow> join c ws \<noteq> [] \<and> last (join c ws) = last (last ws)"
  by (induction c ws rule: join.induct) auto

lemma join_hd: "ws \<noteq> [] \<Longrightarrow> hd ws \<noteq> [] \<Longrightarrow> hd (join c ws) = hd (hd ws)"
  by (cases "(c, ws)" rule: join.cases) auto

lemma trim_by_id:
  assumes "s \<noteq> []" "\<not> P (hd s)" "\<not> P (last s)"
  shows "trim_by P s = s"
proof -
  have d: "dropWhile P s = s" using assms by (cases s) auto
  have "dropWhile P (rev s) = rev s" using assms by (cases s rule: rev_cases) auto
  then show ?thesis by (simp add: trim_by_def d)
qed

lemma nameVals_bindings:
  "list_all binding_ok kvs \<Longrightarrow> nameVals (map binding kvs) = Inr (concat (map (\<lambda>(k, v). [k, v]) kvs))"
proof (induction kvs)
  case (Cons kv kvs)
  have "CHR ''='' \<notin> set (fst kv)" using Cons.prems by (auto simp: binding_ok_def list_all_iff)
  then show ?case using Cons by (cases kv) (simp add: binding_def)
qed simp

lemma parseLine_env:
  assumes "kvs \<noteq> []" "list_all binding_ok kvs"
  shows "parseLine json (''ENV '' @ join CHR '' '' (map binding kvs)) =
    Inr ([], Some (Node ''env'' (chain (concat (map (\<lambda>(k, v). [k, v]) kvs))) [] False
      (''ENV '' @ join CHR '' '' (map binding kvs)) [] 0 0))"
proof -
  let ?ws = "map binding kvs" let ?b = "join CHR '' '' ?ws" let ?l = "''ENV '' @ ?b"
  have ws: "list_all (\<lambda>w. plain_word w \<and> w \<noteq> []) ?ws"
    using assms(2) binding_plain by (auto simp: list_all_iff binding_def)
  then have "plain_word (last ?ws)" "last ?ws \<noteq> []"
    using assms(1) by (auto simp: list_all_iff last_map)
  then have last: "?b \<noteq> []" "\<not> ascii_space (last ?b)" "last ?b \<noteq> CHR 0x5C"
    using join_last [of ?ws] plain_word_last assms(1) by auto
  have "binding_ok (hd kvs)" using assms by (simp add: list_all_iff)
  then have "bare_char (hd (binding (hd kvs)))" "hd (binding (hd kvs)) \<noteq> CHR ''-''" "binding (hd kvs) \<noteq> []"
    by (auto simp: binding_ok_def binding_def list_all_iff)
  moreover have "hd ?b = hd (binding (hd kvs))"
    using join_hd [of ?ws "CHR '' ''"] assms(1) by (simp add: hd_map binding_def)
  ultimately have hd: "bare_char (hd ?b)" "hd ?b \<noteq> CHR ''-''" by simp_all
  have blank: "trimBlanks ?l = ?l"
    using last by (cases ?b rule: rev_cases) (auto simp: trimBlanks_def ascii_space_def)
  have line: "stripComments ?l = ?l" "\<not> continued ?l"
    using last unfolding continued_def blank by (simp_all add: stripComments_def)
  have "trim_space ?l = ?l" "trim_space ?b = ?b"
    unfolding trim_space_def using last hd
    by (auto intro!: trim_by_id simp: bare_char_def is_space_def) (simp add: ascii_space_def)
  moreover have "\<not> token_ws (hd ?b)"
    using hd(1) by (auto simp: token_ws_def bare_char_def is_space_def ascii_space_def Let_def)
  then have "ws_split2 ?l = [''ENV'', ?b]"
    using last(1) by (cases ?b) (simp_all add: ws_split2_def token_ws_def)
  moreover have "extractBuilderFlags ?b = (?b, [])"
    using last(1) hd by (cases ?b) (simp_all add: extractBuilderFlags_def bare_char_def)
  moreover have "to_lower ''ENV'' = ''env''" by code_simp
  ultimately have split: "splitCommand ?l = (''env'', [], ?b)" by (simp add: splitCommand_def)
  have "parseWords ?b = map binding kvs" by (rule parseWords_join [OF ws])
  then have "parseEnv ?b = Inr (chain (concat (map (\<lambda>(k, v). [k, v]) kvs)), False)"
    using nameVals_bindings [OF assms(2)] assms(1) unfolding parseEnv_def parseNameVal_def
    by (cases kvs) (auto simp: binding_def simp del: nameVals.simps)
  then have "fullDispatch json ''env'' ?b = Inr (chain (concat (map (\<lambda>(k, v). [k, v]) kvs)), False)"
    by (simp add: fullDispatch_def dispatch_def)
  then show ?thesis using line split by (simp add: parseLine_step)
qed

text \<open>
  An \<^verbatim>\<open>ENV\<close> line with one or more \<^verbatim>\<open>key=value\<close> pairs parses, on every such input, to one
  node whose arguments are the keys and values in the order they were written.
\<close>

theorem env_line_parses:
  assumes "kvs \<noteq> []" "list_all binding_ok kvs"
  shows "parseLine json (''ENV '' @ join CHR '' '' (map binding kvs)) =
    Inr ([], Some (Node ''env'' (chain (concat (map (\<lambda>(k, v). [k, v]) kvs))) [] False
      (''ENV '' @ join CHR '' '' (map binding kvs)) [] 0 0))"
  by (rule parseLine_env [OF assms])

theorem env_line_parses_witness:
  "list_all binding_ok [(''a'', ''1''), (''b'', [CHR 0x22, CHR '' '', CHR 0x22])] \<and>
   parseLine (\<lambda>_. None) (''ENV '' @ join CHR '' '' (map binding [(''a'', ''1''), (''b'', [CHR 0x22, CHR '' '', CHR 0x22])])) =
    Inr ([], Some (Node ''env'' (chain [''a'', ''1'', ''b'', [CHR 0x22, CHR '' '', CHR 0x22]]) [] False
      (''ENV '' @ join CHR '' '' (map binding [(''a'', ''1''), (''b'', [CHR 0x22, CHR '' '', CHR 0x22])])) [] 0 0))"
proof -
  have "quoted_word [CHR 0x22, CHR '' '', CHR 0x22]"
    unfolding quoted_word_def by (intro exI [of _ "CHR 0x22"] exI [of _ "'' ''"]) simp
  moreover have "list_all bare_char ''1''" by code_simp
  ultimately have "plain_word ''1''" "plain_word [CHR 0x22, CHR '' '', CHR 0x22]"
    unfolding plain_word_def by (metis append_Nil2, metis append_Nil list.pred_inject(1))
  moreover have "list_all (\<lambda>c. bare_char c \<and> c \<noteq> CHR ''='' \<and> c \<noteq> CHR ''-'') ''a''"
      "list_all (\<lambda>c. bare_char c \<and> c \<noteq> CHR ''='' \<and> c \<noteq> CHR ''-'') ''b''" by code_simp+
  ultimately have ok: "list_all binding_ok [(''a'', ''1''), (''b'', [CHR 0x22, CHR '' '', CHR 0x22])]"
    by (simp add: binding_ok_def)
  show ?thesis using ok env_line_parses [OF _ ok, of "\<lambda>_. None"] by simp
qed

end
