(* ===== verification/Builder_Flags.thy ===== *)
theory Builder_Flags
  imports Go_Strings
begin

section \<open>The flags of a Dockerfile instruction (\<^verbatim>\<open>builder/dockerfile/bflag.go\<close>)\<close>

text \<open>
  A handler declares the flags it knows with \<open>AddBool\<close> and \<open>AddString\<close> and then calls \<open>Parse\<close> on
  the words \<^verbatim>\<open>--name\<close> and \<^verbatim>\<open>--name=value\<close> the parser took from the line.  A flag is reached through
  the map \<^verbatim>\<open>flags\<close>; the map \<^verbatim>\<open>used\<close> holds the same pointers, so only its keys are kept.
\<close>

datatype FlagType = boolType | stringType

datatype bflag_error =
    DuplicateDefined string
  | SettingUp bflag_error
  | ArgDashes string
  | UnknownFlag string
  | DuplicateSpecified string
  | MissingValue string
  | ExpectingBool string string

record Flag =
  fl_type :: FlagType
  fl_Value :: string

record BFlags =
  bf_Args :: "string list"
  bf_flags :: "(string, Flag) gomap"
  bf_used :: "string list"
  bf_Err :: "bflag_error option"

definition NewBFlags :: BFlags where
  "NewBFlags = \<lparr>bf_Args = [], bf_flags = [], bf_used = [], bf_Err = None\<rparr>"

definition addFlag :: "BFlags \<Rightarrow> string \<Rightarrow> FlagType \<Rightarrow> string \<Rightarrow> BFlags" where
  "addFlag bf name ty def =
     (if mget (bf_flags bf) name \<noteq> None then bf\<lparr>bf_Err := Some (DuplicateDefined name)\<rparr>
      else bf\<lparr>bf_flags := mput name \<lparr>fl_type = ty, fl_Value = def\<rparr> (bf_flags bf)\<rparr>)"

definition AddBool :: "BFlags \<Rightarrow> string \<Rightarrow> bool \<Rightarrow> BFlags" where
  "AddBool bf name def = addFlag bf name boolType (if def then ''true'' else ''false'')"

definition AddString :: "BFlags \<Rightarrow> string \<Rightarrow> string \<Rightarrow> BFlags" where
  "AddString bf name def = addFlag bf name stringType def"

definition IsUsed :: "BFlags \<Rightarrow> string \<Rightarrow> bool" where
  "IsUsed bf name \<longleftrightarrow> name \<in> set (bf_used bf)"

text \<open>\<^verbatim>\<open>IsTrue\<close> panics on a flag that is not boolean.\<close>

definition IsTrue :: "BFlags \<Rightarrow> string \<Rightarrow> bool option" where
  "IsTrue bf name =
     (case mget (bf_flags bf) name of
        None \<Rightarrow> None
      | Some fl \<Rightarrow> if fl_type fl \<noteq> boolType then None else Some (fl_Value fl = ''true''))"

text \<open>The value a word gives to a flag of a type; \<open>index\<close> is whether the word has an equals sign.\<close>

definition flagValue :: "FlagType \<Rightarrow> string \<Rightarrow> bool \<Rightarrow> string \<Rightarrow> (bflag_error, string) result" where
  "flagValue ty arg index val =
     (case ty of
        boolType \<Rightarrow>
          if index \<and> val = [] then Inl (MissingValue arg)
          else if to_lower val = [] then Inr ''true''
          else if to_lower val = ''true'' \<or> to_lower val = ''false'' then Inr (to_lower val)
          else Inl (ExpectingBool arg val)
      | stringType \<Rightarrow> if \<not> index then Inl (MissingValue arg) else Inr val)"

fun bflagLoop :: "BFlags \<Rightarrow> string list \<Rightarrow> bflag_error option \<times> BFlags" where
  "bflagLoop bf [] = (None, bf)"
| "bflagLoop bf (word # rest) =
     (if \<not> has_prefix word ''--'' then (Some (ArgDashes word), bf)
      else if word = ''--'' then (None, bf)
      else
        let a = drop 2 word; index = (CHR ''='' \<in> set a);
            val = (if index then after CHR ''='' a else []); arg = (if index then before CHR ''='' a else a) in
        case mget (bf_flags bf) arg of
          None \<Rightarrow> (Some (UnknownFlag arg), bf)
        | Some fl \<Rightarrow>
            if arg \<in> set (bf_used bf) then (Some (DuplicateSpecified arg), bf)
            else
              let bf1 = bf\<lparr>bf_used := bf_used bf @ [arg]\<rparr> in
              case flagValue (fl_type fl) arg index val of
                Inl e \<Rightarrow> (Some e, bf1)
              | Inr v \<Rightarrow> bflagLoop (bf1\<lparr>bf_flags := mput arg (fl\<lparr>fl_Value := v\<rparr>) (bf_flags bf1)\<rparr>) rest)"

definition parseBFlags :: "BFlags \<Rightarrow> bflag_error option \<times> BFlags" where
  "parseBFlags bf =
     (case bf_Err bf of Some e \<Rightarrow> (Some (SettingUp e), bf) | None \<Rightarrow> bflagLoop bf (bf_Args bf))"

subsection \<open>What a successful parse means\<close>

text \<open>The words up to a lone \<^verbatim>\<open>--\<close>, as names and values.\<close>

definition flagWords :: "string list \<Rightarrow> string list" where
  "flagWords args = takeWhile (\<lambda>w. w \<noteq> ''--'') args"

definition wordName :: "string \<Rightarrow> string" where
  "wordName w = before CHR ''='' (drop 2 w)"

definition wordValue :: "FlagType \<Rightarrow> string \<Rightarrow> (bflag_error, string) result" where
  "wordValue ty w =
     flagValue ty (wordName w) (CHR ''='' \<in> set (drop 2 w))
       (if CHR ''='' \<in> set (drop 2 w) then after CHR ''='' (drop 2 w) else [])"

text \<open>Every word starts with dashes, names a declared flag that is not yet used, and its value fits.\<close>

fun accepted :: "(string, Flag) gomap \<Rightarrow> string list \<Rightarrow> string list \<Rightarrow> bool" where
  "accepted flags used [] = True"
| "accepted flags used (w # ws) =
     (has_prefix w ''--''
      \<and> (\<exists>fl v. mget flags (wordName w) = Some fl \<and> wordValue (fl_type fl) w = Inr v)
      \<and> wordName w \<notin> set used \<and> accepted flags (used @ [wordName w]) ws)"

lemma before_absent: "c \<notin> set s \<Longrightarrow> before c s = s"
  by (auto simp: before_def takeWhile_eq_all_conv)

lemma accepted_types:
  assumes "\<And>k. map_option fl_type (mget flags k) = map_option fl_type (mget flags' k)"
  shows "accepted flags used ws = accepted flags' used ws"
proof (induction ws arbitrary: used)
  case (Cons w ws)
  have "(\<exists>fl v. mget flags (wordName w) = Some fl \<and> wordValue (fl_type fl) w = Inr v) =
      (\<exists>fl v. mget flags' (wordName w) = Some fl \<and> wordValue (fl_type fl) w = Inr v)"
    using assms [of "wordName w"] by (cases "mget flags (wordName w)"; cases "mget flags' (wordName w)") auto
  then show ?case using Cons by simp
qed simp

lemma bflagLoop_word:
  assumes "word \<noteq> ''--''"
  shows "bflagLoop bf (word # rest) =
    (if \<not> has_prefix word ''--'' then (Some (ArgDashes word), bf)
     else
       case mget (bf_flags bf) (wordName word) of
         None \<Rightarrow> (Some (UnknownFlag (wordName word)), bf)
       | Some fl \<Rightarrow>
           if wordName word \<in> set (bf_used bf) then (Some (DuplicateSpecified (wordName word)), bf)
           else
             let bf1 = bf\<lparr>bf_used := bf_used bf @ [wordName word]\<rparr> in
             case wordValue (fl_type fl) word of
               Inl e \<Rightarrow> (Some e, bf1)
             | Inr v \<Rightarrow> bflagLoop (bf1\<lparr>bf_flags := mput (wordName word) (fl\<lparr>fl_Value := v\<rparr>) (bf_flags bf1)\<rparr>) rest)"
proof -
  have name: "(if CHR ''='' \<in> set (drop 2 word) then before CHR ''='' (drop 2 word) else drop 2 word) = wordName word"
    by (simp add: wordName_def before_absent)
  show ?thesis
    unfolding bflagLoop.simps Let_def name wordValue_def using assms by simp
qed

lemma bflagLoop_accepts: "fst (bflagLoop bf ws) = None \<longleftrightarrow> accepted (bf_flags bf) (bf_used bf) (flagWords ws)"
proof (induction ws arbitrary: bf)
  case (Cons w ws)
  show ?case
  proof (cases "w = ''--''")
    case False
    show ?thesis
    proof (cases "mget (bf_flags bf) (wordName w)")
      case (Some fl)
      show ?thesis
      proof (cases "wordValue (fl_type fl) w")
        case (Inr v)
        have "accepted (mput (wordName w) (fl\<lparr>fl_Value := v\<rparr>) (bf_flags bf)) u (flagWords ws) =
            accepted (bf_flags bf) u (flagWords ws)" for u
          by (rule accepted_types) (simp add: Some)
        then show ?thesis
          using False Some Inr Cons.IH
          by (simp add: bflagLoop_word Let_def flagWords_def del: bflagLoop.simps)
      qed (use False Some in \<open>simp add: bflagLoop_word flagWords_def Let_def del: bflagLoop.simps\<close>)
    qed (use False in \<open>simp add: bflagLoop_word flagWords_def del: bflagLoop.simps\<close>)
  qed (simp add: flagWords_def has_prefix_def)
qed (simp add: flagWords_def)

text \<open>The value of a flag after the words: the one its word gives, or the default.\<close>

fun finalValue :: "(string, Flag) gomap \<Rightarrow> string list \<Rightarrow> string \<Rightarrow> Flag option" where
  "finalValue flags [] name = mget flags name"
| "finalValue flags (w # ws) name =
     (if wordName w = name
      then (case mget flags name of
              None \<Rightarrow> None
            | Some fl \<Rightarrow> (case wordValue (fl_type fl) w of Inl _ \<Rightarrow> None | Inr v \<Rightarrow> Some (fl\<lparr>fl_Value := v\<rparr>)))
      else finalValue flags ws name)"

lemma finalValue_unused:
  "accepted flags used ws \<Longrightarrow> name \<in> set used \<Longrightarrow> finalValue flags' ws name = mget flags' name"
proof (induction ws arbitrary: used)
  case (Cons w ws)
  then have "wordName w \<noteq> name" "finalValue flags' ws name = mget flags' name"
    using Cons.IH [of "used @ [wordName w]"] by auto
  then show ?case by simp
qed simp

lemma finalValue_put:
  "name \<noteq> k \<Longrightarrow> finalValue (mput k fl flags) ws name = finalValue flags ws name"
  by (induction ws) auto

lemma bflagLoop_values:
  "fst (bflagLoop bf ws) = None \<Longrightarrow>
     mget (bf_flags (snd (bflagLoop bf ws))) name = finalValue (bf_flags bf) (flagWords ws) name
     \<and> set (bf_used (snd (bflagLoop bf ws))) = set (bf_used bf) \<union> wordName ` set (flagWords ws)"
proof (induction ws arbitrary: bf)
  case (Cons w ws)
  show ?case
  proof (cases "w = ''--''")
    case False
    from Cons.prems False bflagLoop_accepts [of bf "w # ws"] obtain fl v
      where w: "has_prefix w ''--''" "mget (bf_flags bf) (wordName w) = Some fl" "wordValue (fl_type fl) w = Inr v"
        "wordName w \<notin> set (bf_used bf)" and acc: "accepted (bf_flags bf) (bf_used bf @ [wordName w]) (flagWords ws)"
      by (auto simp: flagWords_def simp del: bflagLoop.simps)
    let ?bf = "bf\<lparr>bf_used := bf_used bf @ [wordName w], bf_flags := mput (wordName w) (fl\<lparr>fl_Value := v\<rparr>) (bf_flags bf)\<rparr>"
    have step: "bflagLoop bf (w # ws) = bflagLoop ?bf ws"
      using w by (simp add: bflagLoop_word [OF False] Let_def del: bflagLoop.simps)
    have "finalValue (bf_flags ?bf) (flagWords ws) name = finalValue (bf_flags bf) (flagWords (w # ws)) name"
      using finalValue_unused [OF acc, of name] finalValue_put w(2,3) False
      by (cases "name = wordName w") (auto simp: flagWords_def)
    moreover have "set (bf_used ?bf) \<union> wordName ` set (flagWords ws) = set (bf_used bf) \<union> wordName ` set (flagWords (w # ws))"
      using False by (auto simp: flagWords_def)
    moreover have "fst (bflagLoop ?bf ws) = None" using Cons.prems step by simp
    ultimately show ?thesis using Cons.IH [of ?bf] unfolding step by simp
  qed (simp add: flagWords_def has_prefix_def)
qed (simp add: flagWords_def)

text \<open>
  The flags of an instruction are accepted exactly when the declarations had no duplicate and
  every word, up to a lone \<^verbatim>\<open>--\<close>, names a declared flag that no earlier word used, with a value its
  type allows; a flag then has the value of its word, or its default, and counts as used exactly
  when a word names it.
\<close>

theorem instruction_flags_accepted:
  assumes "bf_used bf = []"
  shows "(fst (parseBFlags bf) = None \<longleftrightarrow>
        bf_Err bf = None \<and> accepted (bf_flags bf) [] (flagWords (bf_Args bf)))
    \<and> (fst (parseBFlags bf) = None \<longrightarrow>
        (\<forall>name. mget (bf_flags (snd (parseBFlags bf))) name = finalValue (bf_flags bf) (flagWords (bf_Args bf)) name
           \<and> IsUsed (snd (parseBFlags bf)) name = (name \<in> wordName ` set (flagWords (bf_Args bf)))))"
proof (cases "bf_Err bf")
  case None
  then show ?thesis
    using assms bflagLoop_accepts [of bf "bf_Args bf"] bflagLoop_values [of bf "bf_Args bf"]
    by (simp add: parseBFlags_def IsUsed_def)
qed (simp add: parseBFlags_def)

definition sample_flags :: BFlags where
  "sample_flags = (AddString (AddBool NewBFlags ''quiet'' False) ''from'' [])\<lparr>bf_Args := [''--quiet'', ''--from=a=b'', ''--'', ''x'']\<rparr>"

theorem instruction_flags_accepted_witness:
  "bf_used sample_flags = [] \<and> fst (parseBFlags sample_flags) = None
   \<and> map_option fl_Value (mget (bf_flags (snd (parseBFlags sample_flags))) ''from'') = Some ''a=b''
   \<and> IsUsed (snd (parseBFlags sample_flags)) ''quiet''"
proof -
  have u: "bf_used sample_flags = []" "fst (parseBFlags sample_flags) = None" by code_simp+
  have v: "map_option fl_Value (finalValue (bf_flags sample_flags) (flagWords (bf_Args sample_flags)) ''from'') = Some ''a=b''"
    "''quiet'' \<in> wordName ` set (flagWords (bf_Args sample_flags))" by code_simp+
  show ?thesis using instruction_flags_accepted [OF u(1)] u v by simp
qed

end
