(* ===== verification/Go_Path.thy ===== *)
theory Go_Path
  imports Go_Strings
begin

section \<open>The functions of \<^verbatim>\<open>path/filepath\<close> on Unix\<close>

text \<open>
  \<^verbatim>\<open>filepath.Clean\<close> works on the components between slashes: it drops empty components and \<open>.\<close>, and
  lets \<open>..\<close> remove the component before it, or disappear at the root.  The lemmas show that a cleaned
  rooted path has none of these left, and that cleaning it again changes nothing.
\<close>

definition IsAbs :: "string \<Rightarrow> bool" where
  "IsAbs p \<longleftrightarrow> has_prefix p ''/''"

fun cleanParts :: "string list \<Rightarrow> string list \<Rightarrow> string list" where
  "cleanParts out [] = out"
| "cleanParts out (p # ps) =
     (if p = [] \<or> p = ''.'' then cleanParts out ps
      else if p = ''..'' then cleanParts (butlast out) ps
      else cleanParts (out @ [p]) ps)"

definition cleanRooted :: "string \<Rightarrow> string" where
  "cleanRooted p = CHR ''/'' # join CHR ''/'' (cleanParts [] (split CHR ''/'' p))"

definition joinRooted :: "string \<Rightarrow> string \<Rightarrow> string" where
  "joinRooted cur p = cleanRooted (cur @ CHR ''/'' # p)"

text \<open>A relative path keeps the \<open>..\<close> that lead out of it.\<close>

fun cleanRelParts :: "string list \<Rightarrow> string list \<Rightarrow> string list" where
  "cleanRelParts out [] = out"
| "cleanRelParts out (p # ps) =
     (if p = [] \<or> p = ''.'' then cleanRelParts out ps
      else if p = ''..'' then
        (if out = [] \<or> last out = ''..'' then cleanRelParts (out @ [p]) ps else cleanRelParts (butlast out) ps)
      else cleanRelParts (out @ [p]) ps)"

definition Clean :: "string \<Rightarrow> string" where
  "Clean p =
     (if IsAbs p then cleanRooted p
      else let r = join CHR ''/'' (cleanRelParts [] (split CHR ''/'' p)) in if r = [] then ''.'' else r)"

text \<open>\<^verbatim>\<open>Join\<close> of both \<^verbatim>\<open>path\<close> and \<^verbatim>\<open>filepath\<close>.\<close>

definition JoinPath :: "string list \<Rightarrow> string" where
  "JoinPath ps = (let qs = dropWhile (\<lambda>p. p = []) ps in if qs = [] then [] else Clean (join CHR ''/'' qs))"

text \<open>\<^verbatim>\<open>Split\<close>: the part up to the last slash, and what follows it; \<^verbatim>\<open>Dir\<close> and \<^verbatim>\<open>Base\<close>.\<close>

definition pathDir :: "string \<Rightarrow> string" where
  "pathDir p = rev (dropWhile (\<lambda>c. c \<noteq> CHR ''/'') (rev p))"

definition pathBase :: "string \<Rightarrow> string" where
  "pathBase p = rev (takeWhile (\<lambda>c. c \<noteq> CHR ''/'') (rev p))"

definition DirPath :: "string \<Rightarrow> string" where
  "DirPath p = Clean (pathDir p)"

definition BasePath :: "string \<Rightarrow> string" where
  "BasePath p =
     (if p = [] then ''.''
      else
        let q = rev (dropWhile (\<lambda>c. c = CHR ''/'') (rev p)); b = pathBase q in
        if b = [] then ''/'' else b)"

text \<open>\<^verbatim>\<open>Rel\<close>: what leads from one path to another; there is no answer when the way up is not known.\<close>

fun stripCommon :: "string list \<Rightarrow> string list \<Rightarrow> string list \<times> string list" where
  "stripCommon (b # bs) (t # ts) = (if b = t then stripCommon bs ts else (b # bs, t # ts))"
| "stripCommon bs ts = (bs, ts)"

definition allParts :: "string \<Rightarrow> string list" where
  "allParts p = (if IsAbs p then cleanParts [] (split CHR ''/'' p) else cleanRelParts [] (split CHR ''/'' p))"

definition RelPath :: "string \<Rightarrow> string \<Rightarrow> string option" where
  "RelPath base targ =
     (if IsAbs base \<noteq> IsAbs targ then None
      else
        let (bs, ts) = stripCommon (allParts base) (allParts targ) in
        if bs \<noteq> [] \<and> hd bs = ''..'' then None
        else
          let r = join CHR ''/'' (map (\<lambda>_. ''..'') bs @ ts) in
          Some (if r = [] then ''.'' else r))"

subsection \<open>Cleaned components\<close>

definition plain :: "string \<Rightarrow> bool" where
  "plain p \<longleftrightarrow> p \<noteq> [] \<and> p \<noteq> ''.'' \<and> p \<noteq> ''..'' \<and> CHR ''/'' \<notin> set p"

lemma cleanParts_plain:
  "list_all plain out \<Longrightarrow> \<forall>p \<in> set ps. CHR ''/'' \<notin> set p \<Longrightarrow> list_all plain (cleanParts out ps)"
proof (induction out ps rule: cleanParts.induct)
  case (2 out p ps)
  have "list_all plain (butlast out)" using 2(4) by (auto simp: list_all_iff dest: in_set_butlastD)
  moreover have "p \<noteq> [] \<Longrightarrow> p \<noteq> ''.'' \<Longrightarrow> p \<noteq> ''..'' \<Longrightarrow> plain p" using 2(5) by (simp add: plain_def)
  ultimately show ?case using 2 by simp
qed simp

lemma cleanParts_id: "list_all plain ps \<Longrightarrow> cleanParts out ps = out @ ps"
  by (induction ps arbitrary: out) (auto simp: plain_def)

lemma split_rooted: "split CHR ''/'' (CHR ''/'' # s) = [] # split CHR ''/'' s"
  by simp

lemma cleanRooted_parts:
  obtains ps where "cleanRooted p = CHR ''/'' # join CHR ''/'' ps" "list_all plain ps"
proof
  show "cleanRooted p = CHR ''/'' # join CHR ''/'' (cleanParts [] (split CHR ''/'' p))"
    by (simp add: cleanRooted_def)
  show "list_all plain (cleanParts [] (split CHR ''/'' p))"
    by (rule cleanParts_plain) (auto dest: split_parts)
qed

lemma cleanRooted_join:
  assumes "list_all plain ps"
  shows "cleanRooted (CHR ''/'' # join CHR ''/'' ps) = CHR ''/'' # join CHR ''/'' ps"
proof (cases "ps = []")
  case True
  then show ?thesis by (simp add: cleanRooted_def)
next
  case False
  have "\<forall>s \<in> set ps. CHR ''/'' \<notin> set s" using assms by (auto simp: list_all_iff plain_def)
  from split_join [OF False this] show ?thesis
    using cleanParts_id [OF assms, of "[]"] by (simp add: cleanRooted_def)
qed

lemma IsAbs_Cons [simp]: "IsAbs (CHR ''/'' # s)"
  by (simp add: IsAbs_def)

lemma IsAbs_cleanRooted [simp]: "IsAbs (cleanRooted p)"
  by (simp add: cleanRooted_def)

text \<open>A cleaned absolute path is absolute, canonical, and made of plain components.\<close>

lemma Clean_abs:
  assumes "IsAbs p"
  obtains ps where "Clean p = CHR ''/'' # join CHR ''/'' ps" "list_all plain ps" "Clean (Clean p) = Clean p"
proof -
  obtain ps where ps: "cleanRooted p = CHR ''/'' # join CHR ''/'' ps" "list_all plain ps" by (rule cleanRooted_parts)
  have "Clean p = CHR ''/'' # join CHR ''/'' ps" using assms ps(1) by (simp add: Clean_def)
  moreover from this have "Clean (Clean p) = Clean p" using cleanRooted_join [OF ps(2)] by (simp add: Clean_def)
  ultimately show thesis using that ps(2) by blast
qed

lemma cleanParts_subset: "set (cleanParts out ps) \<subseteq> set out \<union> set ps"
  by (induction out ps rule: cleanParts.induct) (auto dest: in_set_butlastD)

lemma set_join: "x \<in> set (join c ss) \<Longrightarrow> x = c \<or> (\<exists>s \<in> set ss. x \<in> set s)"
  by (induction c ss rule: join.induct) auto

lemma set_split: "s \<in> set (split c p) \<Longrightarrow> set s \<subseteq> set p"
proof (induction p arbitrary: s)
  case (Cons x p)
  obtain y ys where "split c p = y # ys" by (cases "split c p") auto
  with Cons show ?case by (fastforce split: if_splits)
qed simp

lemma set_Clean_abs: "IsAbs p \<Longrightarrow> x \<in> set (Clean p) \<Longrightarrow> x = CHR ''/'' \<or> x \<in> set p"
  using cleanParts_subset [of "[]" "split CHR ''/'' p"] set_split [of _ "CHR ''/''" p]
  by (fastforce simp: Clean_def cleanRooted_def dest!: set_join)

definition segment :: "string \<Rightarrow> bool" where
  "segment p \<longleftrightarrow> p \<noteq> [] \<and> CHR ''/'' \<notin> set p"

lemma cleanRelParts_segments:
  "list_all segment out \<Longrightarrow> \<forall>p \<in> set ps. CHR ''/'' \<notin> set p \<Longrightarrow> list_all segment (cleanRelParts out ps)"
proof (induction out ps rule: cleanRelParts.induct)
  case (2 out p ps)
  have "list_all segment (butlast out)" using "2.prems"(1) by (auto simp: list_all_iff dest: in_set_butlastD)
  moreover have "p \<noteq> [] \<Longrightarrow> segment p" "segment ''..''" using "2.prems"(2) by (simp_all add: segment_def)
  ultimately show ?case using 2 by auto
qed simp

lemma IsAbs_Clean [simp]: "IsAbs (Clean p) \<longleftrightarrow> IsAbs p"
proof (cases "IsAbs p")
  case True
  then show ?thesis by (simp add: Clean_def)
next
  case False
  let ?ps = "cleanRelParts [] (split CHR ''/'' p)"
  have "list_all segment ?ps"
    by (rule cleanRelParts_segments) (auto dest: split_parts)
  then have "\<not> IsAbs (join CHR ''/'' ?ps)"
    by (cases "(CHR ''/'', ?ps)" rule: join.cases) (auto simp: IsAbs_def hd_append segment_def dest: hd_in_set)
  then show ?thesis using False by (auto simp: Clean_def Let_def IsAbs_def)
qed

subsection \<open>Rooted paths as lists of components\<close>

definition rooted :: "string list \<Rightarrow> string" where
  "rooted ps = CHR ''/'' # join CHR ''/'' ps"

definition pathParts :: "string \<Rightarrow> string list" where
  "pathParts s = cleanParts [] (split CHR ''/'' s)"

lemma split_append_sep: "split c (a @ c # b) = split c a @ split c b"
proof (induction a)
  case (Cons x a)
  obtain y ys where "split c a = y # ys" by (cases "split c a") auto
  with Cons show ?case by auto
qed simp

lemma cleanParts_append: "cleanParts out (xs @ ys) = cleanParts (cleanParts out xs) ys"
  by (induction out xs rule: cleanParts.induct) auto

lemma Clean_rooted: "IsAbs p \<Longrightarrow> Clean p = rooted (pathParts p)"
  by (simp add: Clean_def cleanRooted_def rooted_def pathParts_def)

lemma parts_plain: "list_all plain (pathParts s)"
  unfolding pathParts_def by (rule cleanParts_plain) (auto dest: split_parts)

lemma cleanParts_join:
  assumes "list_all plain ps"
  shows "cleanParts out (split CHR ''/'' (join CHR ''/'' ps)) = out @ ps"
proof (cases "ps = []")
  case False
  have "\<forall>s \<in> set ps. CHR ''/'' \<notin> set s" using assms by (auto simp: list_all_iff plain_def)
  then show ?thesis using split_join [OF False] cleanParts_id [OF assms] by simp
qed simp

lemma parts_slash [simp]: "pathParts (CHR ''/'' # s) = pathParts s"
  by (simp add: pathParts_def)

lemma parts_Nil [simp]: "pathParts [] = []"
  by (simp add: pathParts_def)

lemma parts_rooted [simp]: "list_all plain ps \<Longrightarrow> pathParts (rooted ps) = ps"
  using cleanParts_join [of ps "[]"] by (simp add: rooted_def pathParts_def)

lemma parts_sep: "pathParts (a @ CHR ''/'' # b) = cleanParts (pathParts a) (split CHR ''/'' b)"
  by (simp add: pathParts_def split_append_sep cleanParts_append)

lemma parts_two:
  assumes "list_all plain ps" "list_all plain qs"
  shows "pathParts (rooted ps @ rooted qs) = ps @ qs"
  using parts_sep [of "rooted ps" "join CHR ''/'' qs"] cleanParts_join [OF assms(2)] assms(1)
  by (simp add: rooted_def [of qs])

lemma IsAbs_rooted [simp]: "IsAbs (rooted ps)" "IsAbs (rooted ps @ s)"
  by (simp_all add: rooted_def)

lemma rooted_Nil [simp]: "rooted [] = ''/''"
  by (simp add: rooted_def)

lemma rooted_inj: "list_all plain ps \<Longrightarrow> list_all plain qs \<Longrightarrow> rooted ps = rooted qs \<Longrightarrow> ps = qs"
  using parts_rooted by metis

lemma Clean_rooted_two:
  "list_all plain ps \<Longrightarrow> list_all plain qs \<Longrightarrow> Clean (rooted ps @ rooted qs) = rooted (ps @ qs)"
  by (simp add: Clean_rooted parts_two)

lemma Clean_canonical [simp]: "list_all plain ps \<Longrightarrow> Clean (rooted ps) = rooted ps"
  by (simp add: Clean_rooted)

lemma join_append_last: "ss \<noteq> [] \<Longrightarrow> join c (ss @ [s]) = join c ss @ c # s"
proof (induction ss)
  case (Cons x ss)
  then show ?case by (cases "ss = []") (simp_all add: join_Cons)
qed simp

lemma rooted_snoc: "rooted (ns @ [n]) = (if ns = [] then ''/'' else rooted ns @ ''/'') @ n"
  by (simp add: rooted_def join_append_last)

lemma pathDir_sep: "CHR ''/'' \<notin> set n \<Longrightarrow> pathDir (a @ CHR ''/'' # n) = a @ ''/''"
  by (auto simp: pathDir_def dropWhile_append)

lemma pathBase_sep: "CHR ''/'' \<notin> set n \<Longrightarrow> pathBase (a @ CHR ''/'' # n) = n"
  by (auto simp: pathBase_def takeWhile_append)

lemma parts_trailing [simp]: "pathParts (a @ ''/'') = pathParts a"
  using parts_sep [of a "[]"] by simp

lemma DirPath_rooted:
  assumes "list_all plain ns" "plain n"
  shows "DirPath (rooted (ns @ [n])) = rooted ns"
proof -
  have "CHR ''/'' \<notin> set n" using assms(2) by (simp add: plain_def)
  then show ?thesis
    using pathDir_sep [of n "[]"] pathDir_sep [of n "rooted ns"] assms(1) IsAbs_rooted(2) [of ns "''/''"]
    by (simp add: DirPath_def rooted_snoc Clean_rooted)
qed

lemma BasePath_rooted:
  assumes "plain n"
  shows "BasePath (rooted (ns @ [n])) = n"
proof -
  have n: "CHR ''/'' \<notin> set n" "n \<noteq> []" using assms by (simp_all add: plain_def)
  define a where "a = (if ns = [] then [] else rooted ns)"
  have a: "rooted (ns @ [n]) = a @ CHR ''/'' # n" by (simp add: rooted_snoc a_def)
  have "dropWhile (\<lambda>c. c = CHR ''/'') (rev (rooted (ns @ [n]))) = rev (rooted (ns @ [n]))"
    unfolding a using n by (cases n rule: rev_cases) auto
  then show ?thesis using pathBase_sep [OF n(1), of a] n(2) by (simp add: BasePath_def a Let_def)
qed

lemma filter_split_rooted:
  assumes "list_all plain ns"
  shows "filter (\<lambda>e. e \<noteq> []) (split CHR ''/'' (rooted ns)) = ns"
proof (cases "ns = []")
  case False
  have "\<forall>s \<in> set ns. CHR ''/'' \<notin> set s" using assms by (auto simp: list_all_iff plain_def)
  then have "split CHR ''/'' (rooted ns) = [] # ns" using split_join [OF False] by (simp add: rooted_def)
  moreover have "filter (\<lambda>e. e \<noteq> []) ns = ns" using assms by (auto simp: list_all_iff plain_def filter_id_conv)
  ultimately show ?thesis by simp
qed simp

subsection \<open>Relative paths of plain components\<close>

lemma cleanRelParts_id: "list_all plain ps \<Longrightarrow> cleanRelParts out ps = out @ ps"
  by (induction ps arbitrary: out) (auto simp: plain_def)

lemma cleanRelParts_append: "cleanRelParts out (xs @ ys) = cleanRelParts (cleanRelParts out xs) ys"
  by (induction out xs rule: cleanRelParts.induct) auto

lemma plain_noslash: "list_all plain ns \<Longrightarrow> \<forall>s \<in> set ns. CHR ''/'' \<notin> set s"
  by (auto simp: list_all_iff plain_def)

lemma join_names:
  assumes "list_all plain ns" "ns \<noteq> []"
  shows "\<not> IsAbs (join CHR ''/'' ns)" "join CHR ''/'' ns \<noteq> []"
  using assms by (cases "(CHR ''/'', ns)" rule: join.cases; auto simp: IsAbs_def hd_append plain_def dest: hd_in_set)+

lemma Clean_join:
  assumes "list_all plain ns" "ns \<noteq> []"
  shows "Clean (join CHR ''/'' ns) = join CHR ''/'' ns" "Clean (join CHR ''/'' ns @ ''/'') = join CHR ''/'' ns"
proof -
  note j = join_names [OF assms]
  have split: "split CHR ''/'' (join CHR ''/'' ns) = ns" by (rule split_join [OF assms(2) plain_noslash [OF assms(1)]])
  have abs: "\<not> IsAbs (join CHR ''/'' ns @ ''/'')" using j by (cases "join CHR ''/'' ns") (simp_all add: IsAbs_def)
  have "split CHR ''/'' (join CHR ''/'' ns @ ''/'') = ns @ [[]]" using split_append_sep [of "CHR ''/''" "join CHR ''/'' ns" "[]"] split by simp
  then show "Clean (join CHR ''/'' ns @ ''/'') = join CHR ''/'' ns"
    using abs j(2) by (simp add: Clean_def cleanRelParts_append cleanRelParts_id [OF assms(1)])
  show "Clean (join CHR ''/'' ns) = join CHR ''/'' ns"
    using j by (simp add: Clean_def split cleanRelParts_id [OF assms(1)])
qed

lemma JoinPath_slash: "list_all plain ns \<Longrightarrow> JoinPath [''/'', join CHR ''/'' ns] = rooted ns"
  using cleanParts_join [of ns "[]"] by (simp add: JoinPath_def Clean_rooted pathParts_def)

lemma DirPath_join:
  assumes "list_all plain ns" "ns \<noteq> []"
  shows "DirPath (join CHR ''/'' ns) = (if butlast ns = [] then ''.'' else join CHR ''/'' (butlast ns))"
proof -
  obtain ms n where ns: "ns = ms @ [n]" using assms(2) by (cases ns rule: rev_cases) auto
  have n: "CHR ''/'' \<notin> set n" "list_all plain ms" using assms(1) by (simp_all add: ns plain_def)
  show ?thesis
  proof (cases "ms = []")
    case True
    have "pathDir n = []" using n(1) unfolding pathDir_def by (auto simp: dropWhile_eq_Nil_conv)
    moreover have "Clean [] = ''.''" by code_simp
    ultimately show ?thesis using True by (simp add: ns DirPath_def)
  next
    case False
    then show ?thesis
      using pathDir_sep [OF n(1), of "join CHR ''/'' ms"] Clean_join(2) [OF n(2) False] by (simp add: ns DirPath_def join_append_last)
  qed
qed

lemma JoinPath_dot: "JoinPath [''/'', ''.''] = ''/''"
  by code_simp

lemma JoinPath_DirPath:
  assumes "list_all plain ns" "ns \<noteq> []"
  shows "JoinPath [''/'', DirPath (join CHR ''/'' ns)] = rooted (butlast ns)"
proof -
  have "list_all plain (butlast ns)" using assms(1) by (auto simp: list_all_iff dest: in_set_butlastD)
  then show ?thesis using JoinPath_slash JoinPath_dot by (simp add: DirPath_join [OF assms])
qed

lemma prefix_first:
  assumes "has_prefix (join CHR ''/'' (n # ns)) pre" "CHR ''/'' \<notin> set pre"
  shows "has_prefix n pre"
proof -
  obtain r where r: "join CHR ''/'' (n # ns) = n @ r" "r = [] \<or> hd r = CHR ''/''" by (cases ns) auto
  obtain t where t: "n @ r = pre @ t" using assms(1) r(1) by (auto simp: has_prefix_iff)
  then show ?thesis
  proof (cases "length pre \<le> length n")
    case True
    then show ?thesis using t by (auto simp: has_prefix_iff append_eq_append_conv_if split: if_splits) (metis append_take_drop_id)
  next
    case False
    then obtain u where u: "pre = n @ u" "r = u @ t" "u \<noteq> []"
      using t by (auto simp: append_eq_append_conv2)
    then have "hd u = CHR ''/''" using r(2) by auto
    then show ?thesis using u assms(2) by (cases u) auto
  qed
qed

lemma RelPath_slash:
  assumes "list_all plain ns" "ns \<noteq> []"
  shows "RelPath ''/'' (rooted ns) = Some (join CHR ''/'' ns)" "\<not> has_prefix (join CHR ''/'' ns) ''../''"
proof -
  have "allParts ''/'' = []" by code_simp
  moreover have "allParts (rooted ns) = ns" using parts_rooted [OF assms(1)] by (simp add: allParts_def pathParts_def)
  moreover have "stripCommon [] ns = ([], ns)" by simp
  ultimately show "RelPath ''/'' (rooted ns) = Some (join CHR ''/'' ns)"
    using join_names(2) [OF assms] by (simp add: RelPath_def Let_def)
  show "\<not> has_prefix (join CHR ''/'' ns) ''../''"
  proof
    assume "has_prefix (join CHR ''/'' ns) ''../''"
    then obtain t where t: "join CHR ''/'' ns = ''..'' @ CHR ''/'' # t" by (auto simp: has_prefix_iff)
    have "split CHR ''/'' (''..'' @ CHR ''/'' # t) = ns" using split_join [OF assms(2) plain_noslash [OF assms(1)]] t by simp
    then have "hd ns = ''..''" using split_append_sep [of "CHR ''/''" "''..''" t] by auto
    then show False using assms by (cases ns) (auto simp: plain_def)
  qed
qed

end
