(* ===== verification/Mount_Spec.thy ===== *)
theory Mount_Spec
  imports Go_Path
begin

section \<open>Mount specifications (\<^verbatim>\<open>volume/volume.go\<close>, \<^verbatim>\<open>volume/volume_unix.go\<close>)\<close>

text \<open>
  The mount point of a container, and the parsers of \<^verbatim>\<open>source:destination:mode\<close> and of
  \<^verbatim>\<open>container:mode\<close>.  A volume is an interface; what the modelled code asks of it is its name, its
  driver's name and its path.
\<close>

record volume =
  v_Name :: string
  v_DriverName :: string
  v_Path :: string

record MountPoint =
  Source :: string
  Destination :: string
  RW :: bool
  mp_Name :: string
  Driver :: string
  Volume :: "volume option"
  Mode :: string
  Propagation :: string
  Named :: bool

datatype volume_error =
    VolumeInvalid string
  | VolumeInvalidMode string
  | VolumeAbs string
  | VolumeSlash string
  | VolumeFromBlank

definition DefaultDriverName :: string where
  "DefaultDriverName = ''local''"

definition DefaultPropagationMode :: string where
  "DefaultPropagationMode = ''rprivate''"

definition rwModes :: "string list" where
  "rwModes = [''rw'', ''ro'']"

definition labelModes :: "string list" where
  "labelModes = [''Z'', ''z'']"

definition propagationModes :: "string list" where
  "propagationModes = [''private'', ''rprivate'', ''slave'', ''rslave'', ''shared'', ''rshared'']"

definition GetPropagation :: "string \<Rightarrow> string" where
  "GetPropagation mode =
     (case find (\<lambda>o'. o' \<in> set propagationModes) (split CHR '','' mode) of
        Some o' \<Rightarrow> o'
      | None \<Rightarrow> DefaultPropagationMode)"

definition HasPropagation :: "string \<Rightarrow> bool" where
  "HasPropagation mode \<longleftrightarrow> list_ex (\<lambda>o'. o' \<in> set propagationModes) (split CHR '','' mode)"

text \<open>The counting loop of \<^verbatim>\<open>ValidMountMode\<close>.\<close>

fun modeLoop :: "nat \<Rightarrow> nat \<Rightarrow> nat \<Rightarrow> string list \<Rightarrow> bool" where
  "modeLoop rw lab prop [] = (\<not> (rw > 1 \<or> lab > 1 \<or> prop > 1))"
| "modeLoop rw lab prop (o' # os) =
     (if o' \<in> set rwModes then modeLoop (rw + 1) lab prop os
      else if o' \<in> set labelModes then modeLoop rw (lab + 1) prop os
      else if o' \<in> set propagationModes then modeLoop rw lab (prop + 1) os
      else False)"

definition ValidMountMode :: "string \<Rightarrow> bool" where
  "ValidMountMode mode = modeLoop 0 0 0 (split CHR '','' mode)"

definition ReadWrite :: "string \<Rightarrow> bool" where
  "ReadWrite mode \<longleftrightarrow> ValidMountMode mode \<and> \<not> list_ex (\<lambda>o'. o' = ''ro'') (split CHR '','' mode)"

definition BackwardsCompatible :: "MountPoint \<Rightarrow> bool" where
  "BackwardsCompatible m \<longleftrightarrow> length (Source m) > 0 \<or> Driver m = DefaultDriverName"

definition mp_Path :: "MountPoint \<Rightarrow> string" where
  "mp_Path m = (case Volume m of Some v \<Rightarrow> v_Path v | None \<Rightarrow> Source m)"

definition ParseVolumeSource :: "string \<Rightarrow> string \<times> string" where
  "ParseVolumeSource spec = (if \<not> IsAbs spec then (spec, []) else ([], spec))"

definition ParseVolumesFrom :: "string \<Rightarrow> (volume_error, string \<times> string) result" where
  "ParseVolumesFrom spec =
     (if length spec = 0 then Inl VolumeFromBlank
      else
        case splitn 2 CHR '':'' spec of
          [i, mode] \<Rightarrow>
            if \<not> ValidMountMode mode then Inl (VolumeInvalidMode mode)
            else if HasPropagation mode then Inl (VolumeInvalidMode mode)
            else Inr (i, mode)
        | parts \<Rightarrow> Inr (hd parts, ''rw''))"

text \<open>The fields of a mount specification, then the checks that follow.\<close>

definition emptyMount :: MountPoint where
  "emptyMount = \<lparr>Source = [], Destination = [], RW = True, mp_Name = [], Driver = [], Volume = None, Mode = [],
     Propagation = DefaultPropagationMode, Named = False\<rparr>"

definition mountFields :: "string \<Rightarrow> string list \<Rightarrow> (volume_error, MountPoint) result" where
  "mountFields spec arr =
     (case arr of
        [d] \<Rightarrow> Inr (emptyMount\<lparr>Destination := Clean d\<rparr>)
      | [s, d] \<Rightarrow>
          if ValidMountMode d then Inl (VolumeInvalid spec) else Inr (emptyMount\<lparr>Source := s, Destination := d\<rparr>)
      | [s, d, m] \<Rightarrow>
          if \<not> ValidMountMode m then Inl (VolumeInvalidMode m)
          else Inr (emptyMount\<lparr>Source := s, Destination := d, Mode := m, RW := ReadWrite m, Propagation := GetPropagation m\<rparr>)
      | _ \<Rightarrow> Inl (VolumeInvalid spec))"

definition mountChecks :: "string \<Rightarrow> string \<Rightarrow> MountPoint \<Rightarrow> (volume_error, MountPoint) result" where
  "mountChecks spec volumeDriver mp =
     (let dst = Clean (Destination mp) in
      if \<not> IsAbs dst then Inl (VolumeAbs dst)
      else if dst = ''/'' then Inl (VolumeSlash spec)
      else
        case ParseVolumeSource (Source mp) of
          (name, source) \<Rightarrow>
            if length source = 0 then
              (if HasPropagation (Mode mp) then Inl (VolumeInvalid spec)
               else Inr (mp\<lparr>Destination := dst, Source := [],
                 Driver := (if length volumeDriver = 0 then DefaultDriverName else volumeDriver), mp_Name := name\<rparr>))
            else Inr (mp\<lparr>Destination := dst, Source := Clean source, mp_Name := name\<rparr>))"

definition ParseMountSpec :: "string \<Rightarrow> string \<Rightarrow> (volume_error, MountPoint) result" where
  "ParseMountSpec spec volumeDriver =
     (if count_char CHR '':'' spec > 2 then Inl (VolumeInvalid spec)
      else
        let arr = splitn 3 CHR '':'' spec in
        if hd arr = [] then Inl (VolumeInvalid spec)
        else
          case mountFields spec arr of
            Inl e \<Rightarrow> Inl e
          | Inr mp \<Rightarrow> mountChecks spec volumeDriver mp)"

subsection \<open>Modes\<close>

lemma modeLoop_count:
  "modeLoop a b c os \<longleftrightarrow> set os \<subseteq> set (rwModes @ labelModes @ propagationModes)
     \<and> a + length (filter (\<lambda>x. x \<in> set rwModes) os) \<le> 1
     \<and> b + length (filter (\<lambda>x. x \<in> set labelModes) os) \<le> 1
     \<and> c + length (filter (\<lambda>x. x \<in> set propagationModes) os) \<le> 1"
proof (induction a b c os rule: modeLoop.induct)
  case (2 a b c x xs)
  have "x \<in> set rwModes \<Longrightarrow> x \<notin> set labelModes \<and> x \<notin> set propagationModes"
       "x \<in> set labelModes \<Longrightarrow> x \<notin> set propagationModes"
    by (auto simp: rwModes_def labelModes_def propagationModes_def)
  then show ?case using 2 by auto
qed auto

text \<open>A valid mode lists known options, at most one of each kind.\<close>

lemma ValidMountMode_iff:
  "ValidMountMode mode \<longleftrightarrow> (let os = split CHR '','' mode in
     set os \<subseteq> set (rwModes @ labelModes @ propagationModes)
     \<and> length (filter (\<lambda>x. x \<in> set rwModes) os) \<le> 1
     \<and> length (filter (\<lambda>x. x \<in> set labelModes) os) \<le> 1
     \<and> length (filter (\<lambda>x. x \<in> set propagationModes) os) \<le> 1)"
  by (simp add: ValidMountMode_def modeLoop_count Let_def)

lemma mode_chars:
  assumes "ValidMountMode mode"
  shows "CHR '':'' \<notin> set mode" "CHR ''/'' \<notin> set mode" "mode \<noteq> []"
proof -
  let ?os = "split CHR '','' mode"
  have known: "p \<in> set ?os \<Longrightarrow> p \<in> set (rwModes @ labelModes @ propagationModes)" for p
    using assms by (auto simp: ValidMountMode_iff Let_def)
  have "x \<in> set (join CHR '','' ss) \<Longrightarrow> x = CHR '','' \<or> (\<exists>s \<in> set ss. x \<in> set s)" for x ss
    by (induction "CHR '',''" ss rule: join.induct) auto
  from this [of _ ?os] known have "x \<in> set mode \<Longrightarrow> x = CHR '','' \<or> (\<exists>s \<in> set (rwModes @ labelModes @ propagationModes). x \<in> set s)" for x
    by (metis join_split)
  then show "CHR '':'' \<notin> set mode" "CHR ''/'' \<notin> set mode"
    by (auto simp: rwModes_def labelModes_def propagationModes_def)
  show "mode \<noteq> []"
  proof
    assume "mode = []"
    then show False using known [of "[]"] by (simp add: rwModes_def labelModes_def propagationModes_def)
  qed
qed

subsection \<open>Canonical mount points\<close>

definition canonical_path :: "string \<Rightarrow> bool" where
  "canonical_path p \<longleftrightarrow> (\<exists>ps. p = CHR ''/'' # join CHR ''/'' ps \<and> list_all plain ps)"

definition canonical_mount :: "MountPoint \<Rightarrow> bool" where
  "canonical_mount mp \<longleftrightarrow>
     canonical_path (Destination mp) \<and> Destination mp \<noteq> ''/''
     \<and> (if Source mp = [] then Driver mp \<noteq> [] \<and> \<not> HasPropagation (Mode mp) \<and> \<not> IsAbs (mp_Name mp)
        else canonical_path (Source mp) \<and> Driver mp = [] \<and> mp_Name mp = [])
     \<and> (Mode mp = [] \<or> ValidMountMode (Mode mp))
     \<and> RW mp = (''ro'' \<notin> set (split CHR '','' (Mode mp)))
     \<and> Propagation mp = GetPropagation (Mode mp)
     \<and> Volume mp = None \<and> \<not> Named mp"

lemma canonical_Clean: "IsAbs p \<Longrightarrow> canonical_path (Clean p) \<and> Clean (Clean p) = Clean p"
  by (erule Clean_abs) (auto simp: canonical_path_def)

lemma canonical_fixed: "canonical_path p \<Longrightarrow> Clean p = p \<and> IsAbs p"
  using cleanRooted_join by (auto simp: canonical_path_def Clean_def)

text \<open>The specification a mount point is read back from.\<close>

definition mountString :: "MountPoint \<Rightarrow> string" where
  "mountString mp =
     (let s = (if Source mp \<noteq> [] then Source mp else mp_Name mp) in
      if s = [] then Destination mp
      else s @ CHR '':'' # Destination mp @ (if Mode mp = [] then [] else CHR '':'' # Mode mp))"

lemma splitn3:
  "splitn 3 c s =
     (if c \<notin> set s then [s]
      else if c \<notin> set (after c s) then [before c s, after c s]
      else [before c s, before c (after c s), after c (after c s)])"
  by (simp add: numeral_3_eq_3 before_def after_def)

lemma count_before_after: "c \<in> set s \<Longrightarrow> count_char c s = Suc (count_char c (after c s))"
proof -
  assume "c \<in> set s"
  then have "count_char c s = count_char c (before c s @ c # after c s)" using before_after by metis
  also have "\<dots> = Suc (count_char c (after c s))"
    using before_no_sep [of c s] by (auto simp: count_char_def filter_empty_conv)
  finally show ?thesis .
qed

lemma count_zero_iff: "count_char c s = 0 \<longleftrightarrow> c \<notin> set s"
  by (auto simp: count_char_def filter_empty_conv)

lemma count_append: "count_char c (a @ b) = count_char c a + count_char c b" "count_char c (c # b) = Suc (count_char c b)"
  by (simp_all add: count_char_def)

lemma count_none: "c \<notin> set s \<Longrightarrow> count_char c s = 0"
  by (simp add: count_zero_iff)

text \<open>The three forms of a specification.\<close>

lemma spec_forms:
  assumes "count_char CHR '':'' spec \<le> 2" "arr = splitn 3 CHR '':'' spec" "hd arr \<noteq> []"
  obtains d where "arr = [d]" "d \<noteq> []" "CHR '':'' \<notin> set d"
  | s d where "arr = [s, d]" "s \<noteq> []" "CHR '':'' \<notin> set s" "CHR '':'' \<notin> set d"
  | s d m where "arr = [s, d, m]" "s \<noteq> []" "CHR '':'' \<notin> set s" "CHR '':'' \<notin> set d" "CHR '':'' \<notin> set m"
proof (cases "CHR '':'' \<in> set spec")
  case False
  then show thesis using assms that(1) by (simp add: splitn3)
next
  case True
  note spec = this
  let ?r = "after CHR '':'' spec"
  have "count_char CHR '':'' ?r \<le> 1" using count_before_after [OF True] assms(1) by simp
  show thesis
  proof (cases "CHR '':'' \<in> set ?r")
    case False
    then show thesis using assms True that(2) by (simp add: splitn3)
  next
    case True
    then have "count_char CHR '':'' (after CHR '':'' ?r) = 0"
      using count_before_after [OF True] \<open>count_char CHR '':'' ?r \<le> 1\<close> by simp
    then show thesis using assms spec True that(3) by (simp add: splitn3 count_zero_iff)
  qed
qed

lemma parse_forms:
  assumes "s \<noteq> []" "CHR '':'' \<notin> set s"
  shows "ParseMountSpec s drv = (case mountFields s [s] of Inl e \<Rightarrow> Inl e | Inr mp \<Rightarrow> mountChecks s drv mp)"
    and "CHR '':'' \<notin> set d \<Longrightarrow> spec = s @ CHR '':'' # d \<Longrightarrow>
      ParseMountSpec spec drv = (case mountFields spec [s, d] of Inl e \<Rightarrow> Inl e | Inr mp \<Rightarrow> mountChecks spec drv mp)"
    and "CHR '':'' \<notin> set d \<Longrightarrow> CHR '':'' \<notin> set m \<Longrightarrow> spec = s @ CHR '':'' # d @ CHR '':'' # m \<Longrightarrow>
      ParseMountSpec spec drv = (case mountFields spec [s, d, m] of Inl e \<Rightarrow> Inl e | Inr mp \<Rightarrow> mountChecks spec drv mp)"
  using assms by (auto simp: ParseMountSpec_def Let_def splitn3 count_append count_none)

lemma abs_not_mode: "IsAbs d \<Longrightarrow> \<not> ValidMountMode d"
  using mode_chars(2) [of d] by (cases d) (auto simp: IsAbs_def)

text \<open>The checks produce canonical mount points, and accept them unchanged.\<close>

definition plain_fields :: "MountPoint \<Rightarrow> bool" where
  "plain_fields mp \<longleftrightarrow>
     mp_Name mp = [] \<and> Driver mp = [] \<and> Volume mp = None \<and> \<not> Named mp
     \<and> (Mode mp = [] \<or> ValidMountMode (Mode mp)) \<and> RW mp = (''ro'' \<notin> set (split CHR '','' (Mode mp)))
     \<and> Propagation mp = GetPropagation (Mode mp)"

lemma GetPropagation_Nil [simp]: "GetPropagation [] = DefaultPropagationMode"
  by (simp add: GetPropagation_def propagationModes_def)

lemma mountFields_plain: "mountFields spec arr = Inr mp \<Longrightarrow> plain_fields mp"
  by (auto simp: mountFields_def plain_fields_def emptyMount_def ReadWrite_def list_ex_iff
      split: list.splits if_splits)

lemma mountChecks_canonical:
  assumes "mountChecks spec drv mp0 = Inr mp" "plain_fields mp0"
  shows "canonical_mount mp"
proof -
  have abs: "IsAbs (Destination mp0)" using assms(1) by (auto simp: mountChecks_def Let_def split: if_splits)
  note c = canonical_Clean [OF abs]
  show ?thesis
  proof (cases "IsAbs (Source mp0)")
    case True
    then have "Source mp0 \<noteq> []" by (auto simp: IsAbs_def)
    then show ?thesis
      using assms c canonical_Clean [OF True] True
      by (auto simp: mountChecks_def Let_def ParseVolumeSource_def canonical_mount_def plain_fields_def
          canonical_path_def split: if_splits)
  next
    case False
    then show ?thesis
      using assms c
      by (auto simp: mountChecks_def Let_def ParseVolumeSource_def canonical_mount_def plain_fields_def
          DefaultDriverName_def split: if_splits)
  qed
qed

subsection \<open>Reading a mount point back\<close>

definition origin :: "MountPoint \<Rightarrow> string" where
  "origin mp = (if Source mp \<noteq> [] then Source mp else mp_Name mp)"

definition rawMount :: "MountPoint \<Rightarrow> MountPoint" where
  "rawMount mp = mp\<lparr>Source := origin mp, mp_Name := [], Driver := []\<rparr>"

lemma mountFields_again:
  assumes "canonical_mount mp"
  shows "origin mp = [] \<Longrightarrow> Mode mp = [] \<Longrightarrow> mountFields x [Destination mp] = Inr (rawMount mp)"
    and "Mode mp = [] \<Longrightarrow> mountFields x [origin mp, Destination mp] = Inr (rawMount mp)"
    and "Mode mp \<noteq> [] \<Longrightarrow> mountFields x [origin mp, Destination mp, Mode mp] = Inr (rawMount mp)"
  using assms abs_not_mode [of "Destination mp"] canonical_fixed [of "Destination mp"]
  by (auto simp: mountFields_def rawMount_def canonical_mount_def emptyMount_def ReadWrite_def list_ex_iff
      intro!: MountPoint.equality)

lemma mountChecks_again:
  assumes "canonical_mount mp"
    and "Source mp = [] \<Longrightarrow> Driver mp = (if length drv = 0 then DefaultDriverName else drv)"
  shows "mountChecks x drv (rawMount mp) = Inr mp"
proof -
  have d: "Clean (Destination mp) = Destination mp" "IsAbs (Destination mp)"
    using assms(1) canonical_fixed by (auto simp: canonical_mount_def)
  show ?thesis
  proof (cases "Source mp = []")
    case True
    then show ?thesis using assms d
      by (auto simp: mountChecks_def rawMount_def origin_def ParseVolumeSource_def canonical_mount_def Let_def
          intro!: MountPoint.equality)
  next
    case False
    then have "Clean (Source mp) = Source mp" "IsAbs (Source mp)"
      using assms(1) canonical_fixed by (auto simp: canonical_mount_def)
    then show ?thesis using assms d False
      by (auto simp: mountChecks_def rawMount_def origin_def ParseVolumeSource_def canonical_mount_def Let_def
          intro!: MountPoint.equality)
  qed
qed

lemma mountChecks_fields:
  assumes "mountChecks spec drv mp0 = Inr mp" "plain_fields mp0"
  shows "Mode mp = Mode mp0" "origin mp = [] \<longleftrightarrow> Source mp0 = []"
    and "CHR '':'' \<notin> set (Source mp0) \<Longrightarrow> CHR '':'' \<notin> set (origin mp)"
    and "CHR '':'' \<notin> set (Destination mp0) \<Longrightarrow> CHR '':'' \<notin> set (Destination mp)"
    and "Source mp = [] \<Longrightarrow> Driver mp = (if length drv = 0 then DefaultDriverName else drv)"
proof -
  have abs: "IsAbs (Destination mp0)" using assms(1) by (auto simp: mountChecks_def Let_def split: if_splits)
  have c: "IsAbs p \<Longrightarrow> Clean p \<noteq> []" for p using IsAbs_Clean [of p] by (auto simp: IsAbs_def)
  have nil: "\<not> IsAbs []" by (simp add: IsAbs_def)
  show "Mode mp = Mode mp0" "origin mp = [] \<longleftrightarrow> Source mp0 = []"
    "Source mp = [] \<Longrightarrow> Driver mp = (if length drv = 0 then DefaultDriverName else drv)"
    using assms c [of "Source mp0"] nil
    by (auto simp: mountChecks_def Let_def ParseVolumeSource_def origin_def split: if_splits)
  show "CHR '':'' \<notin> set (Source mp0) \<Longrightarrow> CHR '':'' \<notin> set (origin mp)"
    using assms set_Clean_abs [of "Source mp0" "CHR '':''"] c [of "Source mp0"]
    by (auto simp: mountChecks_def Let_def ParseVolumeSource_def origin_def split: if_splits)
  show "CHR '':'' \<notin> set (Destination mp0) \<Longrightarrow> CHR '':'' \<notin> set (Destination mp)"
    using assms set_Clean_abs [OF abs, of "CHR '':''"]
    by (auto simp: mountChecks_def Let_def ParseVolumeSource_def split: if_splits)
qed

lemma mountFields_colons:
  assumes "mountFields spec arr = Inr mp" "\<forall>x \<in> set arr. CHR '':'' \<notin> set x" "hd arr \<noteq> []"
  shows "CHR '':'' \<notin> set (Source mp)" "IsAbs (Destination mp) \<Longrightarrow> CHR '':'' \<notin> set (Destination mp)"
    "CHR '':'' \<notin> set (Mode mp)" "Source mp = [] \<Longrightarrow> Mode mp = []"
  using assms set_Clean_abs [of "hd arr" "CHR '':''"]
  by (auto simp: mountFields_def emptyMount_def split: list.splits if_splits)

lemma parse_canonical:
  assumes "ParseMountSpec spec drv = Inr mp"
  shows "canonical_mount mp" "ParseMountSpec (mountString mp) drv = Inr mp"
proof -
  let ?arr = "splitn 3 CHR '':'' spec"
  have le: "count_char CHR '':'' spec \<le> 2" and hd: "hd ?arr \<noteq> []"
    using assms by (auto simp: ParseMountSpec_def Let_def split: if_splits)
  obtain mp0 where f: "mountFields spec ?arr = Inr mp0" and k: "mountChecks spec drv mp0 = Inr mp"
    using assms by (auto simp: ParseMountSpec_def Let_def split: if_splits sum.splits)
  have "\<forall>x \<in> set ?arr. CHR '':'' \<notin> set x" by (rule spec_forms [OF le refl hd]) auto
  note col = mountFields_colons [OF f this hd]
  note plain = mountFields_plain [OF f]
  note fl = mountChecks_fields [OF k plain]
  have abs: "IsAbs (Destination mp0)" using k by (auto simp: mountChecks_def Let_def split: if_splits)
  show can: "canonical_mount mp" by (rule mountChecks_canonical [OF k plain])
  note again = mountFields_again [OF can] mountChecks_again [OF can fl(5)]
  have c: "CHR '':'' \<notin> set (origin mp)" "CHR '':'' \<notin> set (Destination mp)" "CHR '':'' \<notin> set (Mode mp)"
      "origin mp = [] \<Longrightarrow> Mode mp = []" "Destination mp \<noteq> []"
    using col fl abs can canonical_fixed [of "Destination mp"] by (auto simp: canonical_mount_def IsAbs_def)
  have str: "mountString mp = (if origin mp = [] then Destination mp
      else origin mp @ CHR '':'' # Destination mp @ (if Mode mp = [] then [] else CHR '':'' # Mode mp))"
    by (simp add: mountString_def origin_def Let_def)
  consider "origin mp = []" "Mode mp = []" | "origin mp \<noteq> []" "Mode mp = []" | "origin mp \<noteq> []" "Mode mp \<noteq> []"
    using c(4) by blast
  then show "ParseMountSpec (mountString mp) drv = Inr mp"
  proof cases
    case 1
    then show ?thesis using c again str by (simp add: parse_forms(1))
  next
    case 2
    then show ?thesis using c again str parse_forms(2) [of "origin mp" "Destination mp" "mountString mp" drv] by simp
  next
    case 3
    then show ?thesis using c again str parse_forms(3) [of "origin mp" "Destination mp" "Mode mp" "mountString mp" drv] by simp
  qed
qed

text \<open>
  C39: An accepted mount specification denotes a canonical mount point: the destination is a cleaned
  absolute path below the root, the source is either a cleaned absolute path or a name with a driver
  and no propagation option, the mode has at most one option of each kind and decides whether the
  mount is writable and how it propagates.  Written out as \<^verbatim>\<open>source:destination:mode\<close>, it is read back
  unchanged.
\<close>

theorem mount_spec_canonical:
  assumes "ParseMountSpec spec drv = Inr mp"
  shows "canonical_mount mp \<and> ParseMountSpec (mountString mp) drv = Inr mp"
  using parse_canonical [OF assms] by blast

theorem mount_spec_canonical_witness:
  "let mp = \<lparr>Source = ''/a/c'', Destination = ''/data/x'', RW = False, mp_Name = [], Driver = [], Volume = None,
      Mode = ''z,ro'', Propagation = ''rprivate'', Named = False\<rparr> in
   ParseMountSpec ''/a//b/../c:/data/./x/:z,ro'' [] = Inr mp \<and> mountString mp = ''/a/c:/data/x:z,ro''
   \<and> canonical_mount mp \<and> ParseMountSpec ''/a/c:/data/x:z,ro'' [] = Inr mp"
proof -
  let ?mp = "\<lparr>Source = ''/a/c'', Destination = ''/data/x'', RW = False, mp_Name = [], Driver = [], Volume = None,
      Mode = ''z,ro'', Propagation = ''rprivate'', Named = False\<rparr>"
  have p: "ParseMountSpec ''/a//b/../c:/data/./x/:z,ro'' [] = Inr ?mp" by code_simp
  have s: "mountString ?mp = ''/a/c:/data/x:z,ro''" by code_simp
  show ?thesis using mount_spec_canonical [OF p] p s unfolding Let_def by simp
qed

end
