(* ===== verification/Options.thy ===== *)
theory Options
  imports Mount_Spec
begin

section \<open>Options of the command line (\<^verbatim>\<open>opts/\<close>, \<^verbatim>\<open>runconfig/opts/\<close>)\<close>

text \<open>
  The containers of option values, and the validators and parsers of the values that the commands
  take: labels, streams, variables and files of variables, restart policies, devices, links, rates
  and weights, and the splitting of volume options.  The environment of the process and the lines of
  a file are arguments.
\<close>

datatype opt_error =
    BadAttribute string
  | BadStream
  | BadVariable string
  | FileError string
  | BadLogging string
  | CountNotValid string
  | BadCountFormat
  | BadCount num_error
  | InvalidPolicy string
  | InvalidDevice string
  | EmptyLink
  | BadLink string
  | BadPath string
  | BadMode string
  | NotAbsolute string
  | BadFormat string
  | BadDevicePath string
  | InvalidRate string
  | InvalidWeight string

subsection \<open>Lists and maps of values (\<^verbatim>\<open>opts/opts.go\<close>)\<close>

type_synonym validator = "string \<Rightarrow> (opt_error, string) result"

record ListOpts =
  l_values :: "string list"
  l_validator :: "validator option"

definition NewListOpts :: "validator option \<Rightarrow> ListOpts" where
  "NewListOpts f = \<lparr>l_values = [], l_validator = f\<rparr>"

definition validated :: "validator option \<Rightarrow> string \<Rightarrow> (opt_error, string) result" where
  "validated f val = (case f of None \<Rightarrow> Inr val | Some g \<Rightarrow> g val)"

definition ListOpts_Set :: "string \<Rightarrow> ListOpts \<Rightarrow> ListOpts \<times> opt_error option" where
  "ListOpts_Set val opts =
     (case validated (l_validator opts) val of
        Inl e \<Rightarrow> (opts, Some e)
      | Inr v \<Rightarrow> (opts\<lparr>l_values := l_values opts @ [v]\<rparr>, None))"

fun deleteFirst :: "string \<Rightarrow> string list \<Rightarrow> string list" where
  "deleteFirst key [] = []"
| "deleteFirst key (k # ks) = (if k = key then ks else k # deleteFirst key ks)"

definition ListOpts_Delete :: "string \<Rightarrow> ListOpts \<Rightarrow> ListOpts" where
  "ListOpts_Delete key opts = opts\<lparr>l_values := deleteFirst key (l_values opts)\<rparr>"

definition ListOpts_GetMap :: "ListOpts \<Rightarrow> (string, unit) gomap" where
  "ListOpts_GetMap opts = foldl (\<lambda>ret k. mput k () ret) [] (l_values opts)"

definition ListOpts_Get :: "string \<Rightarrow> ListOpts \<Rightarrow> bool" where
  "ListOpts_Get key opts = list_ex (\<lambda>k. k = key) (l_values opts)"

definition ListOpts_Len :: "ListOpts \<Rightarrow> nat" where
  "ListOpts_Len opts = length (l_values opts)"

record MapOpts =
  m_values :: "(string, string) gomap"
  m_validator :: "validator option"

definition NewMapOpts :: "(string, string) gomap option \<Rightarrow> validator option \<Rightarrow> MapOpts" where
  "NewMapOpts vs f = \<lparr>m_values = (case vs of None \<Rightarrow> [] | Some m \<Rightarrow> m), m_validator = f\<rparr>"

definition putKV :: "string \<Rightarrow> (string, string) gomap \<Rightarrow> (string, string) gomap" where
  "putKV val m = (case splitn 2 CHR ''='' val of [k, v] \<Rightarrow> mput k v m | kv \<Rightarrow> mput (hd kv) [] m)"

definition MapOpts_Set :: "string \<Rightarrow> MapOpts \<Rightarrow> MapOpts \<times> opt_error option" where
  "MapOpts_Set val opts =
     (case validated (m_validator opts) val of
        Inl e \<Rightarrow> (opts, Some e)
      | Inr v \<Rightarrow> (opts\<lparr>m_values := putKV v (m_values opts)\<rparr>, None))"

definition ValidateLabel :: validator where
  "ValidateLabel val = (if count_char CHR ''='' val < 1 then Inl (BadAttribute val) else Inr val)"

subsection \<open>Streams and variables (\<^verbatim>\<open>runconfig/opts/opts.go\<close>, \<^verbatim>\<open>envfile.go\<close>)\<close>

definition ValidateAttach :: validator where
  "ValidateAttach val =
     (let s = to_lower val in if s \<in> {''stdin'', ''stdout'', ''stderr''} then Inr s else Inl BadStream)"

definition doesEnvExist :: "string list \<Rightarrow> string \<Rightarrow> bool" where
  "doesEnvExist environ name = list_ex (\<lambda>entry. hd (splitn 2 CHR ''='' entry) = name) environ"

definition Getenv :: "string list \<Rightarrow> string \<Rightarrow> string" where
  "Getenv environ name =
     (case find (\<lambda>entry. has_prefix entry (name @ ''='')) environ of
        Some entry \<Rightarrow> drop (length name + 1) entry
      | None \<Rightarrow> [])"

definition ValidateEnv :: "string list \<Rightarrow> string \<Rightarrow> string" where
  "ValidateEnv environ val =
     (if length (split CHR ''='' val) > 1 then val
      else if \<not> doesEnvExist environ val then val
      else val @ ''='' @ Getenv environ val)"

definition whiteSpaces :: string where
  "whiteSpaces = '' '' @ [CHR 0x09]"

fun envLines :: "string list \<Rightarrow> string list \<Rightarrow> string list \<Rightarrow> (opt_error, string list) result" where
  "envLines environ [] out = Inr out"
| "envLines environ (l # ls) out =
     (let line = trim_left l whiteSpaces in
      if length line > 0 \<and> \<not> has_prefix line ''#'' then
        (let data = splitn 2 CHR ''='' line; variable = trim_left (hd data) whiteSpaces in
         if list_ex (\<lambda>c. c \<in> set whiteSpaces) variable then Inl (BadVariable variable)
         else envLines environ ls
           (out @ [if length data > 1 then variable @ ''='' @ (data ! 1) else trim_space line @ ''='' @ Getenv environ line]))
      else envLines environ ls out)"

definition ParseEnvFile :: "string list \<Rightarrow> (string \<Rightarrow> (string, string list) result) \<Rightarrow> string \<Rightarrow> (opt_error, string list) result" where
  "ParseEnvFile environ file name = (case file name of Inl e \<Rightarrow> Inl (FileError e) | Inr ls \<Rightarrow> envLines environ ls [])"

fun readFiles :: "string list \<Rightarrow> (string \<Rightarrow> (string, string list) result) \<Rightarrow> string list \<Rightarrow> string list \<Rightarrow> (opt_error, string list) result" where
  "readFiles environ file [] acc = Inr acc"
| "readFiles environ file (f # fs) acc =
     (case ParseEnvFile environ file f of Inl e \<Rightarrow> Inl e | Inr vs \<Rightarrow> readFiles environ file fs (acc @ vs))"

definition readKVStrings ::
    "string list \<Rightarrow> (string \<Rightarrow> (string, string list) result) \<Rightarrow> string list \<Rightarrow> string list \<Rightarrow> (opt_error, string list) result" where
  "readKVStrings environ file files override =
     (case readFiles environ file files [] of Inl e \<Rightarrow> Inl e | Inr vs \<Rightarrow> Inr (vs @ override))"

fun ConvertKVStringsToMap :: "string list \<Rightarrow> (string, string) gomap \<Rightarrow> (string, string) gomap" where
  "ConvertKVStringsToMap [] m = m"
| "ConvertKVStringsToMap (v # vs) m =
     ConvertKVStringsToMap vs
       (if CHR ''='' \<in> set v then mput (before CHR ''='' v) (after CHR ''='' v) m else mput v [] m)"

definition parseLoggingOpts :: "string \<Rightarrow> string list \<Rightarrow> (opt_error, (string, string) gomap) result" where
  "parseLoggingOpts loggingDriver loggingOpts =
     (if loggingDriver = ''none'' \<and> length loggingOpts > 0 then Inl (BadLogging loggingDriver)
      else Inr (ConvertKVStringsToMap loggingOpts []))"

subsection \<open>Restart policies\<close>

record restart_policy =
  rp_Name :: string
  rp_MaximumRetryCount :: int

definition ParseRestartPolicy :: "string \<Rightarrow> (opt_error, restart_policy) result" where
  "ParseRestartPolicy policy =
     (if policy = [] then Inr \<lparr>rp_Name = [], rp_MaximumRetryCount = 0\<rparr>
      else
        let parts = split CHR '':'' policy; name = hd parts; p = \<lparr>rp_Name = name, rp_MaximumRetryCount = 0\<rparr> in
        if name = ''always'' \<or> name = ''unless-stopped'' then
          (if length parts > 1 then Inl (CountNotValid name) else Inr p)
        else if name = ''no'' then Inr p
        else if name = ''on-failure'' then
          (if length parts > 2 then Inl BadCountFormat
           else if length parts = 2 then
             (case atoi (parts ! 1) of
                (count, Some e) \<Rightarrow> Inl (BadCount e)
              | (count, None) \<Rightarrow> Inr (p\<lparr>rp_MaximumRetryCount := count\<rparr>))
           else Inr p)
        else Inl (InvalidPolicy name))"

subsection \<open>Devices and links\<close>

record DeviceMapping =
  PathOnHost :: string
  PathInContainer :: string
  CgroupPermissions :: string

text \<open>Each letter is legal once: the map of legal letters shrinks.\<close>

fun deviceModeLoop :: "char list \<Rightarrow> string \<Rightarrow> bool" where
  "deviceModeLoop legal [] = True"
| "deviceModeLoop legal (c # cs) = (if c \<notin> set legal then False else deviceModeLoop (removeAll c legal) cs)"

definition ValidDeviceMode :: "string \<Rightarrow> bool" where
  "ValidDeviceMode mode = (if mode = [] then False else deviceModeLoop ''rwm'' mode)"

definition ParseDevice :: "string \<Rightarrow> (opt_error, DeviceMapping) result" where
  "ParseDevice device =
     (let arr = split CHR '':'' device; n = length arr in
      if n > 3 then Inl (InvalidDevice device)
      else
        let perm0 = (if n = 3 then arr ! 2 else ''rwm'');
            (dst, permissions) =
              (if n \<ge> 2 then (if ValidDeviceMode (arr ! 1) then ([], arr ! 1) else (arr ! 1, perm0)) else ([], perm0));
            src = arr ! 0
        in Inr \<lparr>PathOnHost = src, PathInContainer = (if dst = [] then src else dst), CgroupPermissions = permissions\<rparr>)"

definition validatePath :: "(string \<Rightarrow> bool) \<Rightarrow> string \<Rightarrow> (opt_error, string) result" where
  "validatePath valid val =
     (if count_char CHR '':'' val > 2 then Inl (BadPath val)
      else
        let parts = splitn 3 CHR '':'' val in
        if hd parts = [] then Inl (BadPath val)
        else
          case parts of
            [p] \<Rightarrow> if \<not> IsAbs p then Inl (NotAbsolute p) else Inr (Clean p)
          | [s, p] \<Rightarrow>
              if valid p then (if \<not> IsAbs s then Inl (NotAbsolute s) else Inr (Clean s @ '':'' @ p))
              else (if \<not> IsAbs p then Inl (NotAbsolute p) else Inr (s @ '':'' @ Clean p))
          | [s, p, mode] \<Rightarrow>
              if \<not> valid mode then Inl (BadMode mode)
              else if \<not> IsAbs p then Inl (NotAbsolute p)
              else Inr (s @ '':'' @ p @ '':'' @ mode)
          | _ \<Rightarrow> Inl (NotAbsolute []))"

definition ValidateDevice :: validator where
  "ValidateDevice val = validatePath ValidDeviceMode val"

definition ParseLink :: "string \<Rightarrow> (opt_error, string \<times> string) result" where
  "ParseLink val =
     (if val = [] then Inl EmptyLink
      else
        let arr = split CHR '':'' val in
        if length arr > 2 then Inl (BadLink val)
        else if length arr = 1 then Inr (val, val)
        else if has_prefix (arr ! 0) ''/'' then Inr (tl (arr ! 0), pathBase (arr ! 1))
        else Inr (arr ! 0, arr ! 1))"

definition ValidateLink :: validator where
  "ValidateLink val = (case ParseLink val of Inl e \<Rightarrow> Inl e | Inr _ \<Rightarrow> Inr val)"

subsection \<open>Rates and weights of devices\<close>

definition deviceParts :: "string \<Rightarrow> (opt_error, string \<times> string) result" where
  "deviceParts val =
     (case splitn 2 CHR '':'' val of
        [dev, rate] \<Rightarrow> if \<not> has_prefix dev ''/dev/'' then Inl (BadDevicePath val) else Inr (dev, rate)
      | _ \<Rightarrow> Inl (BadFormat val))"

text \<open>\<^verbatim>\<open>units.RAMInBytes\<close> is a function of another package.\<close>

definition ValidateThrottleBpsDevice :: "(string \<Rightarrow> int option) \<Rightarrow> string \<Rightarrow> (opt_error, string \<times> 64 word) result" where
  "ValidateThrottleBpsDevice RAMInBytes val =
     (case deviceParts val of
        Inl e \<Rightarrow> Inl e
      | Inr (dev, rate) \<Rightarrow>
          (case RAMInBytes rate of
             None \<Rightarrow> Inl (InvalidRate val)
           | Some r \<Rightarrow> if r < 0 then Inl (InvalidRate val) else Inr (dev, of_int r)))"

definition ValidateThrottleIOpsDevice :: "string \<Rightarrow> (opt_error, string \<times> 64 word) result" where
  "ValidateThrottleIOpsDevice val =
     (case deviceParts val of
        Inl e \<Rightarrow> Inl e
      | Inr (dev, rate) \<Rightarrow>
          (case parse_uint rate 10 64 of
             (r, Some e) \<Rightarrow> Inl (InvalidRate val)
           | (r, None) \<Rightarrow> Inr (dev, of_nat r)))"

definition ValidateWeightDevice :: "string \<Rightarrow> (opt_error, string \<times> 16 word) result" where
  "ValidateWeightDevice val =
     (case deviceParts val of
        Inl e \<Rightarrow> Inl e
      | Inr (dev, weight) \<Rightarrow>
          (case parse_uint weight 10 64 of
             (w, Some e) \<Rightarrow> Inl (InvalidWeight val)
           | (w, None) \<Rightarrow> if w > 0 \<and> (w < 10 \<or> w > 1000) then Inl (InvalidWeight val) else Inr (dev, of_nat w)))"

subsection \<open>Volume options\<close>

text \<open>Whether the character at \<open>right\<close> is a colon that separates, and not the colon of a drive letter.\<close>

definition isSeparator :: "string \<Rightarrow> nat \<Rightarrow> bool" where
  "isSeparator raw right \<longleftrightarrow>
     raw ! right = CHR '':''
     \<and> (if is_alpha (raw ! (right - 1)) then
           (if right > 1 then
              raw ! (right - 2) \<noteq> CHR '':'' \<and> raw ! (right - 2) \<noteq> CHR ''/'' \<and> raw ! (right - 2) \<noteq> CHR 0x5C
            else right \<noteq> length raw - 1 \<and> raw ! (right + 1) \<noteq> CHR 0x5C)
         else True)"

fun splitLoop :: "string \<Rightarrow> int \<Rightarrow> nat \<Rightarrow> nat \<Rightarrow> nat \<Rightarrow> nat \<Rightarrow> string list \<Rightarrow> nat \<times> nat \<times> string list" where
  "splitLoop raw n 0 right left numberOfParts array = (left, numberOfParts, array)"
| "splitLoop raw n (Suc k) right left numberOfParts array =
     (if n \<ge> 0 \<and> int numberOfParts \<ge> n then (left, numberOfParts, array)
      else if isSeparator raw right then
        splitLoop raw n k (right + 1) (right + 1) (numberOfParts + 1) (array @ [take (right - left) (drop left raw)])
      else splitLoop raw n k (right + 1) left numberOfParts array)"

text \<open>\<open>None\<close> is the panic of an index out of range.\<close>

definition volumeSplitN :: "string \<Rightarrow> int \<Rightarrow> string list option" where
  "volumeSplitN raw n =
     (if length raw = 0 \<or> raw ! 0 = CHR '':'' then Some []
      else
        case splitLoop raw n (length raw - 1) 1 0 0 [] of
          (left, numberOfParts, array) \<Rightarrow>
            if left < length raw then
              (if n \<ge> 0 \<and> int numberOfParts \<ge> n then
                 (if n < 1 \<or> int (length array) < n then None
                  else Some (array[nat (n - 1) := array ! nat (n - 1) @ drop (left - 1) raw]))
               else Some (array @ [drop left raw]))
            else Some array)"

subsection \<open>Values and overriding\<close>

lemma ListOpts_Set_Get:
  "l_validator opts = None \<Longrightarrow> ListOpts_Get key (fst (ListOpts_Set val opts)) \<longleftrightarrow> key = val \<or> ListOpts_Get key opts"
  by (auto simp: ListOpts_Set_def ListOpts_Get_def validated_def list_ex_iff)

lemma ListOpts_Delete_Set:
  "l_validator opts = None \<Longrightarrow> \<not> ListOpts_Get val opts \<Longrightarrow> ListOpts_Delete val (fst (ListOpts_Set val opts)) = opts"
proof -
  have "val \<notin> set vs \<Longrightarrow> deleteFirst val (vs @ [val]) = vs" for vs by (induction vs) auto
  then show "l_validator opts = None \<Longrightarrow> \<not> ListOpts_Get val opts \<Longrightarrow> ListOpts_Delete val (fst (ListOpts_Set val opts)) = opts"
    by (simp add: ListOpts_Set_def ListOpts_Get_def ListOpts_Delete_def validated_def list_ex_iff)
qed

lemma MapOpts_Set_label:
  "m_validator opts = Some ValidateLabel \<Longrightarrow> CHR ''='' \<notin> set k \<Longrightarrow>
    MapOpts_Set (k @ CHR ''='' # v) opts = (opts\<lparr>m_values := mput k v (m_values opts)\<rparr>, None)"
  by (simp add: MapOpts_Set_def validated_def ValidateLabel_def putKV_def count_char_def)

text \<open>A later binding of a variable overrides an earlier one, so \<^verbatim>\<open>--env\<close> overrides the files.\<close>

lemma ConvertKV_get:
  "mget (ConvertKVStringsToMap vs m) k =
     (case mget (ConvertKVStringsToMap vs []) k of Some x \<Rightarrow> Some x | None \<Rightarrow> mget m k)"
proof (induction vs arbitrary: m)
  case (Cons v vs)
  let ?put = "\<lambda>m. if CHR ''='' \<in> set v then mput (before CHR ''='' v) (after CHR ''='' v) m else mput v [] m"
  have "mget (?put m) k = (case mget (?put []) k of Some x \<Rightarrow> Some x | None \<Rightarrow> mget m k)" by auto
  then show ?case using Cons.IH [of "?put m"] Cons.IH [of "?put []"]
    by (auto split: option.splits)
qed simp

lemma env_override:
  assumes "readKVStrings environ file files override = Inr vs"
  shows "mget (ConvertKVStringsToMap override []) k = Some x \<Longrightarrow> mget (ConvertKVStringsToMap vs []) k = Some x"
proof -
  have app: "ConvertKVStringsToMap (a @ b) m = ConvertKVStringsToMap b (ConvertKVStringsToMap a m)" for a b m
    by (induction a arbitrary: m) auto
  obtain fs where "vs = fs @ override" using assms by (auto simp: readKVStrings_def split: sum.splits)
  then show "mget (ConvertKVStringsToMap override []) k = Some x \<Longrightarrow> mget (ConvertKVStringsToMap vs []) k = Some x"
    using ConvertKV_get [of override "ConvertKVStringsToMap fs []" k] app by simp
qed

text \<open>Restart policies.\<close>

lemma parse_on_failure:
  assumes "0 \<le> n" "n < 2 ^ 63"
  shows "ParseRestartPolicy (''on-failure:'' @ itoa n) = Inr \<lparr>rp_Name = ''on-failure'', rp_MaximumRetryCount = n\<rparr>"
proof -
  have "CHR '':'' \<notin> set (itoa n)" using assms(1) dec_nat_digit by (fastforce simp: itoa_def is_digit_def)
  then have "split CHR '':'' (join CHR '':'' [''on-failure'', itoa n]) = [''on-failure'', itoa n]"
    by (intro split_join) auto
  then show ?thesis using assms atoi_itoa [of n] by (simp add: ParseRestartPolicy_def Let_def)
qed

text \<open>The weight of a device keeps its value at 16 bits.\<close>

lemma weight_kept: "ValidateWeightDevice val = Inr (dev, w) \<Longrightarrow> unat w = 0 \<or> 10 \<le> unat w \<and> unat w \<le> 1000"
  by (auto simp: ValidateWeightDevice_def unat_of_nat split: sum.splits prod.splits option.splits if_splits)

subsection \<open>Splitting loses nothing\<close>

definition ended :: "string list \<Rightarrow> string" where
  "ended ps = concat (map (\<lambda>p. p @ '':'') ps)"

lemma ended_snoc [simp]: "ended (ps @ [p]) = ended ps @ p @ '':''"
  by (simp add: ended_def)

lemma join_snoc: "join CHR '':'' (ps @ [p]) = ended ps @ p"
proof (induction ps)
  case (Cons q ps)
  then show ?case by (cases "ps @ [p]") (auto simp: ended_def)
qed (simp add: ended_def)

lemma take_until_colon:
  assumes "left \<le> right" "right < length raw" "raw ! right = CHR '':''"
  shows "take left raw @ take (right - left) (drop left raw) @ '':'' = take (right + 1) raw"
proof -
  have "take left raw @ take (right - left) (drop left raw) = take right raw"
    using assms by (metis le_add_diff_inverse take_add)
  then show ?thesis using assms by (simp add: take_Suc_conv_app_nth flip: append_assoc)
qed

text \<open>What the loop keeps: the parts so far are what stands before \<open>left\<close>.\<close>

definition split_inv :: "string \<Rightarrow> int \<Rightarrow> nat \<Rightarrow> nat \<Rightarrow> string list \<Rightarrow> bool" where
  "split_inv raw n left cnt arr \<longleftrightarrow>
     ended arr = take left raw \<and> left \<le> length raw \<and> length arr = cnt \<and> (0 < n \<longrightarrow> int cnt \<le> n)
     \<and> (arr \<noteq> [] \<longrightarrow> 0 < left \<and> raw ! (left - 1) = CHR '':'')"

lemma splitLoop_inv:
  "splitLoop raw n k right left cnt arr = (left', cnt', arr') \<Longrightarrow> split_inv raw n left cnt arr \<Longrightarrow> left \<le> right \<Longrightarrow>
    right + k = length raw \<Longrightarrow> split_inv raw n left' cnt' arr'"
proof (induction raw n k right left cnt arr rule: splitLoop.induct)
  case (2 raw n k right left cnt arr)
  show ?case
  proof (cases "n \<ge> 0 \<and> int cnt \<ge> n")
    case True
    then show ?thesis using "2.prems" by simp
  next
    case run: False
    show ?thesis
    proof (cases "isSeparator raw right")
      case True
      then have "raw ! right = CHR '':''" by (simp add: isSeparator_def)
      then have "split_inv raw n (right + 1) (cnt + 1) (arr @ [take (right - left) (drop left raw)])"
        using "2.prems" run take_until_colon [of left right raw] by (auto simp: split_inv_def)
      then show ?thesis using "2.IH"(1) [OF run True] "2.prems" run True by simp
    next
      case False
      then show ?thesis using "2.IH"(2) [OF run False] "2.prems" run by simp
    qed
  qed
qed simp

lemma volumeSplitN_parts:
  assumes "raw \<noteq> []" "hd raw \<noteq> CHR '':''" "n \<noteq> 0"
  shows "\<exists>ps. volumeSplitN raw n = Some ps \<and> ps \<noteq> [] \<and> (0 < n \<longrightarrow> int (length ps) \<le> n)
    \<and> (join CHR '':'' ps = raw \<or> join CHR '':'' ps @ '':'' = raw)"
proof -
  obtain left cnt arr where l: "splitLoop raw n (length raw - 1) 1 0 0 [] = (left, cnt, arr)"
    by (cases "splitLoop raw n (length raw - 1) 1 0 0 []")
  have start: "split_inv raw n 0 0 []" by (simp add: split_inv_def ended_def)
  have inv: "split_inv raw n left cnt arr"
    by (rule splitLoop_inv [OF l start]) (use assms in \<open>simp_all add: Suc_leI\<close>)
  then have arr: "ended arr = take left raw" "left \<le> length raw" "length arr = cnt" "0 < n \<longrightarrow> int cnt \<le> n"
    by (auto simp: split_inv_def)
  have first: "\<not> (length raw = 0 \<or> raw ! 0 = CHR '':'')" using assms by (simp add: hd_conv_nth)
  note v = volumeSplitN_def [of raw n] first l
  show ?thesis
  proof (cases "left < length raw")
    case False
    then have "arr \<noteq> []" using arr assms(1) by (auto simp: ended_def)
    then obtain a p where a: "arr = a @ [p]" by (cases arr rule: rev_cases) auto
    then have "join CHR '':'' arr @ '':'' = raw" using arr False by (simp add: join_snoc)
    then show ?thesis using v False arr \<open>arr \<noteq> []\<close> by auto
  next
    case lt: True
    show ?thesis
    proof (cases "n \<ge> 0 \<and> int cnt \<ge> n")
      case False
      have "join CHR '':'' (arr @ [drop left raw]) = raw" using arr(1) by (simp add: join_snoc)
      then show ?thesis using v lt False arr by auto
    next
      case True
      then have n: "0 < n" "int (length arr) = n" using assms(3) arr by auto
      then obtain a p where a: "arr = a @ [p]" by (cases arr rule: rev_cases) auto
      then have idx: "nat (n - 1) = length a" using n by simp
      have "0 < left" "raw ! (left - 1) = CHR '':''" using inv a by (auto simp: split_inv_def)
      then have d: "drop (left - 1) raw = '':'' @ drop left raw"
        using lt Cons_nth_drop_Suc [of "left - 1" raw] by simp
      have "(ended a @ p @ '':'') @ drop left raw = raw" using arr(1) a by (metis append_take_drop_id ended_snoc)
      then have "join CHR '':'' (a @ [p @ drop (left - 1) raw]) = raw" using d by (simp add: join_snoc)
      moreover have "volumeSplitN raw n = Some (a @ [p @ drop (left - 1) raw])" using v lt True n a idx by simp
      ultimately show ?thesis using n a by auto
    qed
  qed
qed

text \<open>
  Splitting a volume option loses nothing.  For a limit other than zero it returns parts, at
  most as many as the limit, that joined with colons give the option back, up to one trailing colon;
  and with the limit zero it panics on every option that is not empty and does not start with a colon.
\<close>

theorem volume_split_lossless:
  assumes "raw \<noteq> []" "hd raw \<noteq> CHR '':''"
  shows "(n \<noteq> 0 \<longrightarrow> (\<exists>ps. volumeSplitN raw n = Some ps \<and> ps \<noteq> [] \<and> (0 < n \<longrightarrow> int (length ps) \<le> n)
      \<and> (join CHR '':'' ps = raw \<or> join CHR '':'' ps @ '':'' = raw)))
    \<and> volumeSplitN raw 0 = None"
proof -
  have "splitLoop raw 0 k 1 0 0 [] = (0, 0, [])" for k by (cases k) auto
  then have "volumeSplitN raw 0 = None" using assms by (simp add: volumeSplitN_def hd_conv_nth)
  then show ?thesis using volumeSplitN_parts [OF assms, of n] by blast
qed

theorem volume_split_lossless_witness:
  "volumeSplitN (''C:'' @ [CHR 0x5C] @ ''foo:D:'' @ [CHR 0x5C] @ '':rw'') 2 = Some [''C:'' @ [CHR 0x5C] @ ''foo'', ''D:'' @ [CHR 0x5C] @ '':rw'']
   \<and> volumeSplitN ''data:/a'' 0 = None"
proof
  show "volumeSplitN (''C:'' @ [CHR 0x5C] @ ''foo:D:'' @ [CHR 0x5C] @ '':rw'') 2 = Some [''C:'' @ [CHR 0x5C] @ ''foo'', ''D:'' @ [CHR 0x5C] @ '':rw'']"
    by code_simp
  show "volumeSplitN ''data:/a'' 0 = None" using volume_split_lossless [of "''data:/a''"] by simp
qed

subsection \<open>Devices\<close>

lemma deviceModeLoop_iff: "deviceModeLoop legal mode \<longleftrightarrow> set mode \<subseteq> set legal \<and> distinct mode"
  by (induction legal mode rule: deviceModeLoop.induct) auto

lemma ValidDeviceMode_iff: "ValidDeviceMode mode \<longleftrightarrow> mode \<noteq> [] \<and> set mode \<subseteq> set ''rwm'' \<and> distinct mode"
  by (simp add: ValidDeviceMode_def deviceModeLoop_iff)

lemma device_mode_chars: "ValidDeviceMode m \<Longrightarrow> CHR '':'' \<notin> set m" "ValidDeviceMode m \<Longrightarrow> \<not> IsAbs m"
proof -
  assume v: "ValidDeviceMode m"
  then show "CHR '':'' \<notin> set m" by (auto simp: ValidDeviceMode_iff)
  from v have "m \<noteq> []" "hd m \<in> set ''rwm''" by (cases m; auto simp: ValidDeviceMode_iff)+
  then show "\<not> IsAbs m" by (auto simp: IsAbs_def)
qed

lemma split_colon:
  assumes "CHR '':'' \<notin> set a"
  shows "split CHR '':'' a = [a]"
    and "CHR '':'' \<notin> set b \<Longrightarrow> split CHR '':'' (a @ CHR '':'' # b) = [a, b]"
    and "CHR '':'' \<notin> set b \<Longrightarrow> CHR '':'' \<notin> set c \<Longrightarrow> split CHR '':'' (a @ CHR '':'' # b @ CHR '':'' # c) = [a, b, c]"
  using assms split_join [of "[a]" "CHR '':''"] split_join [of "[a, b]" "CHR '':''"] split_join [of "[a, b, c]" "CHR '':''"]
  by auto

lemma Clean_no_colon: "IsAbs p \<Longrightarrow> CHR '':'' \<notin> set p \<Longrightarrow> CHR '':'' \<notin> set (Clean p)"
  using set_Clean_abs [of p "CHR '':''"] by auto

lemma Clean_not_Nil: "IsAbs p \<Longrightarrow> Clean p \<noteq> []"
  using IsAbs_Clean [of p] by (auto simp: IsAbs_def)

lemma rwm_valid: "ValidDeviceMode ''rwm''"
  by (simp add: ValidDeviceMode_iff)

text \<open>
  What the validator of device options accepts, the parser maps to a device with a path on the
  host, an absolute path in the container, and permissions that are letters of rwm, each at most
  once.
\<close>

theorem validated_device_parses:
  assumes "ValidateDevice val = Inr device"
  shows "\<exists>d. ParseDevice device = Inr d \<and> PathOnHost d \<noteq> [] \<and> IsAbs (PathInContainer d)
    \<and> CgroupPermissions d \<noteq> [] \<and> set (CgroupPermissions d) \<subseteq> set ''rwm'' \<and> distinct (CgroupPermissions d)"
proof -
  let ?parts = "splitn 3 CHR '':'' val"
  have le: "count_char CHR '':'' val \<le> 2" and hd: "hd ?parts \<noteq> []"
    using assms by (auto simp: ValidateDevice_def validatePath_def Let_def split: if_splits)
  have v: "validatePath ValidDeviceMode val = Inr device" using assms by (simp add: ValidateDevice_def)
  have "\<exists>d. ParseDevice device = Inr d \<and> PathOnHost d \<noteq> [] \<and> IsAbs (PathInContainer d) \<and> ValidDeviceMode (CgroupPermissions d)"
  proof (rule spec_forms [OF le refl hd])
    fix p assume p: "?parts = [p]" "p \<noteq> []" "CHR '':'' \<notin> set p"
    then have "device = Clean p" "IsAbs p" using v le by (auto simp: validatePath_def split: if_splits)
    then show ?thesis using split_colon(1) [OF Clean_no_colon] p(3) Clean_not_Nil rwm_valid by (simp add: ParseDevice_def Let_def)
  next
    fix s p assume p: "?parts = [s, p]" "s \<noteq> []" "CHR '':'' \<notin> set s" "CHR '':'' \<notin> set p"
    show ?thesis
    proof (cases "ValidDeviceMode p")
      case True
      then have "device = Clean s @ CHR '':'' # p" "IsAbs s" using v le p by (auto simp: validatePath_def split: if_splits)
      then show ?thesis using split_colon(2) [OF Clean_no_colon] p Clean_not_Nil True by (simp add: ParseDevice_def Let_def)
    next
      case False
      then have "device = s @ CHR '':'' # Clean p" "IsAbs p" using v le p by (auto simp: validatePath_def split: if_splits)
      moreover have "\<not> ValidDeviceMode (Clean p)" using device_mode_chars(2) [of "Clean p"] \<open>IsAbs p\<close> by auto
      ultimately show ?thesis
        using split_colon(2) [OF p(3) Clean_no_colon] p Clean_not_Nil rwm_valid by (simp add: ParseDevice_def Let_def)
    qed
  next
    fix s p m assume p: "?parts = [s, p, m]" "s \<noteq> []" "CHR '':'' \<notin> set s" "CHR '':'' \<notin> set p" "CHR '':'' \<notin> set m"
    then have "device = s @ CHR '':'' # p @ CHR '':'' # m" "IsAbs p" "ValidDeviceMode m"
      using v le by (auto simp: validatePath_def split: if_splits)
    moreover have "\<not> ValidDeviceMode p" "p \<noteq> []" using device_mode_chars(2) [of p] \<open>IsAbs p\<close> by (auto simp: IsAbs_def)
    ultimately show ?thesis using split_colon(3) [OF p(3-5)] p(2) by (simp add: ParseDevice_def Let_def)
  qed
  then show ?thesis by (simp add: ValidDeviceMode_iff)
qed

theorem validated_device_parses_witness:
  "ValidateDevice ''/dev/sda:/dev//xvda:rw'' = Inr ''/dev/sda:/dev//xvda:rw''
   \<and> (\<exists>d. ParseDevice ''/dev/sda:/dev//xvda:rw'' = Inr d \<and> IsAbs (PathInContainer d))"
proof -
  have "ValidateDevice ''/dev/sda:/dev//xvda:rw'' = Inr ''/dev/sda:/dev//xvda:rw''" by code_simp
  then show ?thesis using validated_device_parses by blast
qed

end
