(* ===== verification/Builder.thy ===== *)
theory Builder
  imports Options Shell_Words Dockerfile_Parser Builder_Flags "HOL-Library.List_Lexorder" "HOL-Library.Char_ord"
begin

section \<open>The Dockerfile builder (\<^verbatim>\<open>builder/dockerfile/\<close>)\<close>

text \<open>
  The builder walks the parse tree and dispatches each instruction to its handler
  (\<^verbatim>\<open>evaluator.go\<close>, \<^verbatim>\<open>dispatchers.go\<close>), which changes the run configuration and commits an
  image through the backend (\<^verbatim>\<open>internals.go\<close>); \<^verbatim>\<open>builder.go\<close> holds the loop.  An action of the
  builder takes its state and returns an outcome and the state it leaves, on errors too.

  The backend is an interface (\<^verbatim>\<open>builder.Backend\<close>, the daemon or a remote service): its answers are
  functions of the calls made so far, and the state of the model keeps the trace of calls and
  answers.  The record \<open>world\<close> holds them, with the other code that is not part of the builder: the
  JSON decoder, the port parser of \<^verbatim>\<open>go-connections\<close>, the reading of the build context and the hash,
  the verb \<^verbatim>\<open>%q\<close> of \<^verbatim>\<open>fmt\<close>, and whether the build is cancelled at a step.  A \<^verbatim>\<open>*strslice.StrSlice\<close>
  is an optional list.
\<close>

record config =
  cEnv :: "string list"
  cLabels :: "(string, string) gomap"
  cCmd :: "string list option"
  cEntrypoint :: "string list option"
  cExposedPorts :: "(string, unit) gomap"
  cUser :: string
  cVolumes :: "(string, unit) gomap"
  cWorkingDir :: string
  cOnBuild :: "string list"
  cStopSignal :: string
  cImage :: string
  cArgsEscaped :: bool

definition emptyConfig :: config where
  "emptyConfig = \<lparr>cEnv = [], cLabels = [], cCmd = None, cEntrypoint = None, cExposedPorts = [], cUser = [],
     cVolumes = [], cWorkingDir = [], cOnBuild = [], cStopSignal = [], cImage = [], cArgsEscaped = False\<rparr>"

type_synonym base_image = "string \<times> config option"

datatype event =
    GetImage string "base_image option"
  | PullImage string "(string, base_image option) result"
  | Probe string config "(string, string) result"
  | CreateContainer config "(string, string) result"
  | UpdateCmd string "string list" "string option"
  | Start string "string option"
  | Attach string "string option"
  | Wait string int
  | CommitContainer string string config "(string, string) result"
  | Copy string string string bool "string option"
  | Remove string "string option"
  | Tag string string "string option"

datatype build_error =
    ErrAtLeastOneArg string
  | ErrTooManyArgs string
  | ErrExactlyOneArg string
  | ErrAtLeastTwoArgs string
  | ErrChainOnBuild
  | ErrBadOnBuildCmd string
  | ErrMissingFrom
  | ErrVolumeEmpty
  | ErrOnbuildArgument
  | ErrNoImage string
  | ErrUnknownInstruction string
  | ErrFlags bflag_error
  | ErrWord "shell_error option"
  | ErrParse parse_error
  | ErrBackend string
  | ErrNonZero "string list option" int
  | ErrPorts string
  | ErrSignal string
  | ErrNoContext string
  | ErrSourceURL string
  | ErrSource string
  | ErrNoSources
  | ErrManySources string
  | ErrCancelled
  | ErrLeftoverArgs "string list"
  | ErrNoImageGenerated
  | ErrChangeCommand string

record world =
  wJson :: "string \<Rightarrow> json_elem list option"
  wQuote :: "string list option \<Rightarrow> string"
  wPorts :: "string list \<Rightarrow> (string, string list) result"
  wHash :: "string \<Rightarrow> string"
  wDownload :: "string \<Rightarrow> (string, string \<times> string option) result"
  wCopyInfo :: "string \<Rightarrow> bool \<Rightarrow> (string, (string \<times> string option \<times> bool) list) result"
  wCancelled :: "nat \<Rightarrow> bool"
  wGetImage :: "event list \<Rightarrow> string \<Rightarrow> base_image option"
  wPull :: "event list \<Rightarrow> string \<Rightarrow> (string, base_image option) result"
  wCache :: "(event list \<Rightarrow> string \<Rightarrow> config \<Rightarrow> (string, string) result) option"
  wCreate :: "event list \<Rightarrow> config \<Rightarrow> (string, string) result"
  wUpdateCmd :: "event list \<Rightarrow> string \<Rightarrow> string list \<Rightarrow> string option"
  wStart :: "event list \<Rightarrow> string \<Rightarrow> string option"
  wAttach :: "event list \<Rightarrow> string \<Rightarrow> string option"
  wWait :: "event list \<Rightarrow> string \<Rightarrow> int"
  wCommit :: "event list \<Rightarrow> string \<Rightarrow> string \<Rightarrow> config \<Rightarrow> (string, string) result"
  wCopy :: "event list \<Rightarrow> string \<Rightarrow> string \<Rightarrow> string \<Rightarrow> string option"
  wRemove :: "event list \<Rightarrow> string \<Rightarrow> string option"
  wTag :: "event list \<Rightarrow> string \<Rightarrow> string \<Rightarrow> string option"

record build_options =
  oBuildArgs :: "(string, string) gomap"
  oNoCache :: bool
  oPullParent :: bool
  oRemove :: bool
  oForceRemove :: bool

record builder =
  options :: build_options
  hasContext :: bool
  runConfig :: config
  flags :: BFlags
  tmpContainers :: "(string, unit) gomap"
  image :: string
  noBaseImage :: bool
  maintainer :: string
  cmdSet :: bool
  disableCommit :: bool
  cacheBusted :: bool
  allowedBuildArgs :: "(string, bool) gomap"
  trace :: "event list"

definition NewBuilder :: "build_options \<Rightarrow> bool \<Rightarrow> builder" where
  "NewBuilder opts ctx =
     \<lparr>options = opts, hasContext = ctx, runConfig = emptyConfig, flags = NewBFlags, tmpContainers = [], image = [],
      noBaseImage = False, maintainer = [], cmdSet = False, disableCommit = False, cacheBusted = False,
      allowedBuildArgs = [], trace = []\<rparr>"

subsection \<open>Actions\<close>

type_synonym 'a act = "builder \<Rightarrow> (build_error, 'a) outcome \<times> builder"

definition ret :: "'a \<Rightarrow> 'a act" where
  "ret a b = (Done a, b)"

definition fail :: "build_error \<Rightarrow> 'a act" where
  "fail e b = (Failed e, b)"

definition update :: "(builder \<Rightarrow> builder) \<Rightarrow> unit act" where
  "update f b = (Done (), f b)"

definition andThen :: "'a act \<Rightarrow> ('a \<Rightarrow> 'b act) \<Rightarrow> 'b act" where
  "andThen m f b =
     (case m b of
        (Done a, b') \<Rightarrow> f a b'
      | (Failed e, b') \<Rightarrow> (Failed e, b')
      | (Panicked p, b') \<Rightarrow> (Panicked p, b'))"

text \<open>A read of the state, and a deferred function.\<close>

definition reading :: "(builder \<Rightarrow> 'a act) \<Rightarrow> 'a act" where
  "reading f b = f b b"

definition deferring :: "(builder \<Rightarrow> builder) \<Rightarrow> 'a act \<Rightarrow> 'a act" where
  "deferring g m b = (case m b of (r, b') \<Rightarrow> (r, g b'))"

definition call :: "(event list \<Rightarrow> 'r) \<Rightarrow> ('r \<Rightarrow> event) \<Rightarrow> 'r act" where
  "call answer ev b = (let r = answer (trace b) in (Done r, b\<lparr>trace := trace b @ [ev r]\<rparr>))"

definition orFail :: "('e \<Rightarrow> build_error) \<Rightarrow> ('e, 'a) result \<Rightarrow> 'a act" where
  "orFail err r = (case r of Inl e \<Rightarrow> fail (err e) | Inr a \<Rightarrow> ret a)"

definition failIf :: "('e \<Rightarrow> build_error) \<Rightarrow> 'e option \<Rightarrow> unit act" where
  "failIf err r = (case r of Some e \<Rightarrow> fail (err e) | None \<Rightarrow> ret ())"

definition configure :: "(config \<Rightarrow> config) \<Rightarrow> builder \<Rightarrow> builder" where
  "configure f b = b\<lparr>runConfig := f (runConfig b)\<rparr>"

definition setCmd :: "string list option \<Rightarrow> builder \<Rightarrow> builder" where
  "setCmd c = configure (\<lambda>rc. rc\<lparr>cCmd := c\<rparr>)"

definition setEnv :: "string list \<Rightarrow> builder \<Rightarrow> builder" where
  "setEnv e = configure (\<lambda>rc. rc\<lparr>cEnv := e\<rparr>)"

definition setImage :: "string \<Rightarrow> builder \<Rightarrow> builder" where
  "setImage i b = b\<lparr>image := i\<rparr>"

subsection \<open>Containers, the cache and commits\<close>

definition parseFlags :: "unit act" where
  "parseFlags b =
     (case parseBFlags (flags b) of
        (Some e, bf) \<Rightarrow> (Failed (ErrFlags e), b\<lparr>flags := bf\<rparr>)
      | (None, bf) \<Rightarrow> (Done (), b\<lparr>flags := bf\<rparr>))"

definition probeCache :: "world \<Rightarrow> bool act" where
  "probeCache w = reading (\<lambda>b.
     case wCache w of
       None \<Rightarrow> ret False
     | Some getCached \<Rightarrow>
         if oNoCache (options b) \<or> cacheBusted b then ret False
         else
           andThen (call (\<lambda>h. getCached h (image b) (runConfig b)) (Probe (image b) (runConfig b))) (\<lambda>r.
           andThen (orFail ErrBackend r) (\<lambda>cache.
             if cache = [] then andThen (update (\<lambda>b. b\<lparr>cacheBusted := True\<rparr>)) (\<lambda>_. ret False)
             else andThen (update (setImage cache)) (\<lambda>_. ret True))))"

definition addTmp :: "string \<Rightarrow> builder \<Rightarrow> builder" where
  "addTmp c b = b\<lparr>tmpContainers := mput c () (tmpContainers b)\<rparr>"

text \<open>The call that creates a container from the run configuration and notes it for removal.\<close>

definition containerCreate :: "world \<Rightarrow> string act" where
  "containerCreate w = reading (\<lambda>b.
     andThen (call (\<lambda>h. wCreate w h (runConfig b)) (CreateContainer (runConfig b))) (\<lambda>r.
     andThen (orFail ErrBackend r) (\<lambda>c.
     andThen (update (addTmp c)) (\<lambda>_. ret c))))"

definition create :: "world \<Rightarrow> string act" where
  "create w = reading (\<lambda>b.
     if image b = [] \<and> \<not> noBaseImage b then fail (ErrNoImage ''run'')
     else
       andThen (update (configure (\<lambda>rc. rc\<lparr>cImage := image b\<rparr>))) (\<lambda>_.
       andThen (containerCreate w) (\<lambda>c.
         case cCmd (runConfig b) of
           Some (x # xs) \<Rightarrow>
             andThen (call (\<lambda>h. wUpdateCmd w h c (x # xs)) (UpdateCmd c (x # xs))) (\<lambda>r.
             andThen (failIf ErrBackend r) (\<lambda>_. ret c))
         | _ \<Rightarrow> ret c)))"

text \<open>
  The container is started, its output is awaited and its exit code read.  The goroutine that kills
  it when the build is cancelled is not modelled.
\<close>

definition runContainer :: "world \<Rightarrow> string \<Rightarrow> unit act" where
  "runContainer w c =
     andThen (call (\<lambda>h. wStart w h c) (Start c)) (\<lambda>r.
     andThen (failIf ErrBackend r) (\<lambda>_.
     andThen (call (\<lambda>h. wAttach w h c) (Attach c)) (\<lambda>r.
     andThen (failIf ErrBackend r) (\<lambda>_.
     andThen (call (\<lambda>h. wWait w h c) (Wait c)) (\<lambda>code.
       if code \<noteq> 0 then reading (\<lambda>b. fail (ErrNonZero (cCmd (runConfig b)) code)) else ret ())))))"

definition commitContainer :: "world \<Rightarrow> string \<Rightarrow> string list option \<Rightarrow> unit act" where
  "commitContainer w c autoCmd = reading (\<lambda>b.
     let cfg = (runConfig b)\<lparr>cCmd := autoCmd\<rparr> in
     andThen (call (\<lambda>h. wCommit w h c (maintainer b) cfg) (CommitContainer c (maintainer b) cfg)) (\<lambda>r.
     andThen (orFail ErrBackend r) (\<lambda>img. update (setImage img))))"

definition nop :: "string \<Rightarrow> string list option" where
  "nop comment = Some [''/bin/sh'', ''-c'', ''#(nop) '' @ comment]"

definition commit :: "world \<Rightarrow> string \<Rightarrow> string list option \<Rightarrow> string \<Rightarrow> unit act" where
  "commit w c autoCmd comment = reading (\<lambda>b.
     if disableCommit b then ret ()
     else if image b = [] \<and> \<not> noBaseImage b then fail (ErrNoImage ''commit'')
     else
       andThen (update (configure (\<lambda>rc. rc\<lparr>cImage := image b\<rparr>))) (\<lambda>_.
         if c = [] then
           deferring (setCmd (cCmd (runConfig b)))
             (andThen (update (setCmd (nop comment))) (\<lambda>_.
              andThen (probeCache w) (\<lambda>hit.
                if hit then ret ()
                else andThen (create w) (\<lambda>c. commitContainer w c autoCmd))))
         else commitContainer w c autoCmd))"

definition commitConfig :: "world \<Rightarrow> string \<Rightarrow> unit act" where
  "commitConfig w comment = reading (\<lambda>b. commit w [] (cCmd (runConfig b)) comment)"

fun clearLoop :: "world \<Rightarrow> string list \<Rightarrow> builder \<Rightarrow> builder" where
  "clearLoop w [] b = b"
| "clearLoop w (c # cs) b =
     (let r = wRemove w (trace b) c; b1 = b\<lparr>trace := trace b @ [Remove c r]\<rparr> in
      case r of
        Some e \<Rightarrow> b1
      | None \<Rightarrow> clearLoop w cs (b1\<lparr>tmpContainers := mdel c (tmpContainers b1)\<rparr>))"

definition clearTmp :: "world \<Rightarrow> builder \<Rightarrow> builder" where
  "clearTmp w b = clearLoop w (mkeys (tmpContainers b)) b"


subsection \<open>Helpers of the handlers\<close>

definition upper_char :: "char \<Rightarrow> char" where
  "upper_char c = (if is_lower c then char_of ((of_char c :: nat) - 32) else c)"

definition to_upper :: "string \<Rightarrow> string" where
  "to_upper s = map upper_char s"

definition handleJSONArgs :: "string list \<Rightarrow> bool \<Rightarrow> string list" where
  "handleJSONArgs args json = (if args = [] then [] else if json then args else [join CHR '' '' args])"

definition shellForm :: "string list \<Rightarrow> bool \<Rightarrow> string list" where
  "shellForm args json = (let a = handleJSONArgs args json in if json then a else [''/bin/sh'', ''-c''] @ a)"

text \<open>The verb \<^verbatim>\<open>%v\<close> on a slice of strings.\<close>

definition showList :: "string list \<Rightarrow> string" where
  "showList args = ''['' @ join CHR '' '' args @ '']''"

definition hasEnv :: "string list \<Rightarrow> string \<Rightarrow> bool" where
  "hasEnv env k \<longleftrightarrow> mget (ConvertKVStringsToMap env []) k \<noteq> None"

definition BuiltinAllowedBuildArgs :: "string list" where
  "BuiltinAllowedBuildArgs = [''HTTP_PROXY'', ''http_proxy'', ''HTTPS_PROXY'', ''https_proxy'', ''FTP_PROXY'',
     ''ftp_proxy'', ''NO_PROXY'', ''no_proxy'']"

definition isBuildArgAllowed :: "builder \<Rightarrow> string \<Rightarrow> bool" where
  "isBuildArgAllowed b a \<longleftrightarrow> a \<in> set BuiltinAllowedBuildArgs \<or> mget (allowedBuildArgs b) a \<noteq> None"

definition keyVal :: "string \<Rightarrow> string \<Rightarrow> string" where
  "keyVal k v = k @ CHR ''='' # v"

definition allowedArgs :: "builder \<Rightarrow> (string \<times> string) list" where
  "allowedArgs b = filter (\<lambda>(k, v). isBuildArgAllowed b k) (oBuildArgs (options b))"

definition SignalMap :: "string list" where
  "SignalMap = [''ABRT'', ''ALRM'', ''BUS'', ''CHLD'', ''CLD'', ''CONT'', ''FPE'', ''HUP'', ''ILL'', ''INT'', ''IO'',
     ''IOT'', ''KILL'', ''PIPE'', ''POLL'', ''PROF'', ''PWR'', ''QUIT'', ''SEGV'', ''STKFLT'', ''STOP'', ''SYS'', ''TERM'',
     ''TRAP'', ''TSTP'', ''TTIN'', ''TTOU'', ''UNUSED'', ''URG'', ''USR1'', ''USR2'', ''VTALRM'', ''WINCH'', ''XCPU'', ''XFSZ'',
     ''RTMIN'', ''RTMAX''] @ map (\<lambda>n. ''RTMIN+'' @ dec_nat n) [1..<16] @ map (\<lambda>n. ''RTMAX-'' @ dec_nat n) [1..<15]"

definition validSignal :: "string \<Rightarrow> bool" where
  "validSignal raw =
     (case atoi raw of
        (n, None) \<Rightarrow> n \<noteq> 0
      | (_, Some _) \<Rightarrow> trim_prefix (to_upper raw) ''SIG'' \<in> set SignalMap)"

subsection \<open>The handlers\<close>

text \<open>The first binding of a name is replaced; a new name goes to the end.\<close>

fun putEnv :: "string list \<Rightarrow> string \<Rightarrow> string \<Rightarrow> string list" where
  "putEnv [] name newVar = [newVar]"
| "putEnv (e # es) name newVar =
     (if hd (splitn 2 CHR ''='' e) = name then newVar # es else e # putEnv es name newVar)"

fun envPairs :: "string list \<Rightarrow> string list \<Rightarrow> string list" where
  "envPairs env (k # v # rest) = envPairs (putEnv env k (keyVal k v)) rest"
| "envPairs env _ = env"

fun pairsComment :: "string list \<Rightarrow> string" where
  "pairsComment (k # v # rest) = '' '' @ keyVal k v @ pairsComment rest"
| "pairsComment _ = []"

definition env_instr :: "world \<Rightarrow> string list \<Rightarrow> unit act" where
  "env_instr w args =
     (if args = [] then fail (ErrAtLeastOneArg ''ENV'')
      else if odd (length args) then fail (ErrTooManyArgs ''ENV'')
      else
        andThen parseFlags (\<lambda>_.
        andThen (update (configure (\<lambda>rc. rc\<lparr>cEnv := envPairs (cEnv rc) args\<rparr>))) (\<lambda>_.
          commitConfig w (''ENV'' @ pairsComment args))))"

definition maintainer_instr :: "world \<Rightarrow> string list \<Rightarrow> unit act" where
  "maintainer_instr w args =
     (case args of
        [a] \<Rightarrow>
          andThen parseFlags (\<lambda>_.
          andThen (update (\<lambda>b. b\<lparr>maintainer := a\<rparr>)) (\<lambda>_. commitConfig w (''MAINTAINER '' @ a)))
      | _ \<Rightarrow> fail (ErrExactlyOneArg ''MAINTAINER''))"

fun labelPairs :: "(string, string) gomap \<Rightarrow> string list \<Rightarrow> (string, string) gomap" where
  "labelPairs ls (k # v # rest) = labelPairs (mput k v ls) rest"
| "labelPairs ls _ = ls"

definition label_instr :: "world \<Rightarrow> string list \<Rightarrow> unit act" where
  "label_instr w args =
     (if args = [] then fail (ErrAtLeastOneArg ''LABEL'')
      else if odd (length args) then fail (ErrTooManyArgs ''LABEL'')
      else
        andThen parseFlags (\<lambda>_.
        andThen (update (configure (\<lambda>rc. rc\<lparr>cLabels := labelPairs (cLabels rc) args\<rparr>))) (\<lambda>_.
          commitConfig w (''LABEL'' @ pairsComment args))))"

definition IsURL :: "string \<Rightarrow> bool" where
  "IsURL s \<longleftrightarrow> has_prefix s ''http://'' \<or> has_prefix s ''https://''"

type_synonym copyInfo = "string \<times> string option \<times> bool"

text \<open>The sources of \<^verbatim>\<open>ADD\<close> and \<^verbatim>\<open>COPY\<close>: the files they name, with their hashes.\<close>

fun copyInfos :: "world \<Rightarrow> bool \<Rightarrow> bool \<Rightarrow> string \<Rightarrow> string list \<Rightarrow> (build_error, copyInfo list) result" where
  "copyInfos w allowRemote decompress cmdName [] = Inr []"
| "copyInfos w allowRemote decompress cmdName (orig # rest) =
     (if IsURL orig \<and> \<not> allowRemote then Inl (ErrSourceURL cmdName)
      else
        case (if IsURL orig then
                (case wDownload w orig of Inl e \<Rightarrow> Inl e | Inr (name, h) \<Rightarrow> Inr [(name, h, False)])
              else wCopyInfo w orig decompress) of
          Inl e \<Rightarrow> Inl (ErrSource e)
        | Inr infos \<Rightarrow>
            (case copyInfos w allowRemote decompress cmdName rest of
               Inl e \<Rightarrow> Inl e
             | Inr others \<Rightarrow> Inr (infos @ others)))"

definition srcHash :: "world \<Rightarrow> copyInfo list \<Rightarrow> string" where
  "srcHash w infos =
     (case infos of
        [(_, h, _)] \<Rightarrow> (case h of Some x \<Rightarrow> x | None \<Rightarrow> [])
      | _ \<Rightarrow> ''multi:'' @ wHash w (join CHR '','' (concat (map (\<lambda>(_, h, _). case h of Some x \<Rightarrow> [x] | None \<Rightarrow> []) infos))))"

definition origPaths :: "copyInfo list \<Rightarrow> string" where
  "origPaths infos = join CHR '' '' (map fst infos)"

fun copyLoop :: "world \<Rightarrow> string \<Rightarrow> string \<Rightarrow> copyInfo list \<Rightarrow> unit act" where
  "copyLoop w c dest [] = ret ()"
| "copyLoop w c dest ((name, h, d) # infos) =
     andThen (call (\<lambda>tr. wCopy w tr c dest name) (Copy c dest name d)) (\<lambda>r.
     andThen (failIf ErrBackend r) (\<lambda>_. copyLoop w c dest infos))"

definition copyDest :: "string \<Rightarrow> string \<Rightarrow> string" where
  "copyDest workingDir dest =
     (if IsAbs dest then dest
      else joinRooted workingDir dest @ (if has_suffix dest ''/'' then ''/'' else []))"

definition runContextCommand :: "world \<Rightarrow> string list \<Rightarrow> bool \<Rightarrow> bool \<Rightarrow> string \<Rightarrow> unit act" where
  "runContextCommand w args allowRemote decompress cmdName = reading (\<lambda>b.
     if \<not> hasContext b then fail (ErrNoContext cmdName)
     else if length args < 2 then fail (ErrAtLeastTwoArgs cmdName)
     else
       let dest = last args in
       andThen (update (configure (\<lambda>rc. rc\<lparr>cImage := image b\<rparr>))) (\<lambda>_.
       andThen (orFail id (copyInfos w allowRemote decompress cmdName (butlast args))) (\<lambda>infos.
         if infos = [] then fail ErrNoSources
         else if 1 < length infos \<and> \<not> has_suffix dest ''/'' then fail (ErrManySources cmdName)
         else
           deferring (setCmd (cCmd (runConfig b)))
             (andThen (update (setCmd (nop (cmdName @ '' '' @ srcHash w infos @ '' in '' @ dest)))) (\<lambda>_.
              andThen (probeCache w) (\<lambda>hit.
                if hit then ret ()
                else
                  andThen (containerCreate w) (\<lambda>c.
                  andThen (copyLoop w c (copyDest (cWorkingDir (runConfig b)) dest) infos) (\<lambda>_.
                    commit w c (cCmd (runConfig b)) (cmdName @ '' '' @ origPaths infos @ '' in '' @ dest)))))))))"

definition add_instr :: "world \<Rightarrow> string list \<Rightarrow> unit act" where
  "add_instr w args =
     (if length args < 2 then fail (ErrAtLeastTwoArgs ''ADD'')
      else andThen parseFlags (\<lambda>_. runContextCommand w args True True ''ADD''))"

definition copy_instr :: "world \<Rightarrow> string list \<Rightarrow> unit act" where
  "copy_instr w args =
     (if length args < 2 then fail (ErrAtLeastTwoArgs ''COPY'')
      else andThen parseFlags (\<lambda>_. runContextCommand w args False False ''COPY''))"

definition re_space :: "char \<Rightarrow> bool" where
  "re_space c \<longleftrightarrow> (let n = (of_char c :: nat) in n = 9 \<or> n = 10 \<or> n = 12 \<or> n = 13 \<or> n = 32)"

text \<open>The text of an instruction without a leading \<^verbatim>\<open>ONBUILD\<close>.\<close>

definition stripOnbuild :: "string \<Rightarrow> string" where
  "stripOnbuild original =
     (let s = dropWhile re_space original in
      if to_lower (take 7 s) = ''onbuild'' then dropWhile re_space (drop 7 s) else original)"

definition onbuild_instr :: "world \<Rightarrow> string list \<Rightarrow> string \<Rightarrow> unit act" where
  "onbuild_instr w args original =
     (if args = [] then fail (ErrAtLeastOneArg ''ONBUILD'')
      else
        andThen parseFlags (\<lambda>_.
          let trigger = to_upper (trim_space (hd args)) in
          if trigger = ''ONBUILD'' then fail ErrChainOnBuild
          else if trigger = ''MAINTAINER'' \<or> trigger = ''FROM'' then fail (ErrBadOnBuildCmd trigger)
          else
            andThen (update (configure (\<lambda>rc. rc\<lparr>cOnBuild := cOnBuild rc @ [stripOnbuild original]\<rparr>))) (\<lambda>_.
              commitConfig w (''ONBUILD '' @ stripOnbuild original))))"

definition workdir_instr :: "world \<Rightarrow> string list \<Rightarrow> unit act" where
  "workdir_instr w args =
     (case args of
        [a] \<Rightarrow>
          andThen parseFlags (\<lambda>_. reading (\<lambda>b.
            let dir = (if IsAbs a then a else joinRooted (cWorkingDir (runConfig b)) a) in
            andThen (update (configure (\<lambda>rc. rc\<lparr>cWorkingDir := dir\<rparr>))) (\<lambda>_. commitConfig w (''WORKDIR '' @ dir))))
      | _ \<Rightarrow> fail (ErrExactlyOneArg ''WORKDIR''))"

text \<open>The build arguments that \<^verbatim>\<open>RUN\<close> passes: allowed, and not set by the configuration.\<close>

definition cmdBuildEnv :: "builder \<Rightarrow> string list" where
  "cmdBuildEnv b =
     sort (map (\<lambda>(k, v). keyVal k v) (filter (\<lambda>(k, v). \<not> hasEnv (cEnv (runConfig b)) k) (allowedArgs b)))"

definition run_instr :: "world \<Rightarrow> string list \<Rightarrow> bool \<Rightarrow> unit act" where
  "run_instr w args json = reading (\<lambda>b0.
     if image b0 = [] \<and> \<not> noBaseImage b0 then fail ErrMissingFrom
     else
       andThen parseFlags (\<lambda>_. reading (\<lambda>b.
         let command = shellForm args json; rc = runConfig b; env = cEnv rc; buildEnv = cmdBuildEnv b;
             saveCmd = (if buildEnv = [] then command
                        else (CHR ''|'' # dec_nat (length buildEnv)) # buildEnv @ command) in
         deferring (setCmd (cCmd rc) \<circ> setEnv env)
           (andThen (update (setCmd (Some saveCmd))) (\<lambda>_.
            andThen (probeCache w) (\<lambda>hit.
              if hit then ret ()
              else
                andThen (update (configure (\<lambda>rc. rc\<lparr>cCmd := Some command, cEnv := env @ buildEnv, cArgsEscaped := True\<rparr>))) (\<lambda>_.
                andThen (create w) (\<lambda>c.
                andThen (runContainer w c) (\<lambda>_.
                andThen (update (setEnv env \<circ> setCmd (Some saveCmd))) (\<lambda>_.
                  commit w c (cCmd rc) ''run''))))))))))"

definition cmd_instr :: "world \<Rightarrow> string list \<Rightarrow> bool \<Rightarrow> unit act" where
  "cmd_instr w args json =
     andThen parseFlags (\<lambda>_.
     andThen (update (setCmd (Some (shellForm args json)))) (\<lambda>_.
     andThen (commitConfig w (''CMD '' @ wQuote w (Some (shellForm args json)))) (\<lambda>_.
       if args \<noteq> [] then update (\<lambda>b. b\<lparr>cmdSet := True\<rparr>) else ret ())))"

definition entrypoint_instr :: "world \<Rightarrow> string list \<Rightarrow> bool \<Rightarrow> unit act" where
  "entrypoint_instr w args json =
     andThen parseFlags (\<lambda>_.
       let parsed = handleJSONArgs args json;
           e = (if json then Some parsed else if parsed = [] then None
                else Some [''/bin/sh'', ''-c'', hd parsed]) in
       andThen (update (configure (\<lambda>rc. rc\<lparr>cEntrypoint := e\<rparr>))) (\<lambda>_.
       andThen (update (\<lambda>b. if \<not> cmdSet b then setCmd None b else b)) (\<lambda>_.
         commitConfig w (''ENTRYPOINT '' @ wQuote w e))))"

definition expose_instr :: "world \<Rightarrow> string list \<Rightarrow> unit act" where
  "expose_instr w args =
     (if args = [] then fail (ErrAtLeastOneArg ''EXPOSE'')
      else
        andThen parseFlags (\<lambda>_.
        andThen (orFail ErrPorts (wPorts w args)) (\<lambda>ports.
        andThen (update (configure (\<lambda>rc. rc\<lparr>cExposedPorts := fold (\<lambda>p. mput p ()) ports (cExposedPorts rc)\<rparr>))) (\<lambda>_.
          commitConfig w (''EXPOSE '' @ join CHR '' '' (sort ports))))))"

definition user_instr :: "world \<Rightarrow> string list \<Rightarrow> unit act" where
  "user_instr w args =
     (case args of
        [a] \<Rightarrow>
          andThen parseFlags (\<lambda>_.
          andThen (update (configure (\<lambda>rc. rc\<lparr>cUser := a\<rparr>))) (\<lambda>_. commitConfig w (''USER '' @ showList args)))
      | _ \<Rightarrow> fail (ErrExactlyOneArg ''USER''))"

fun addVolumes :: "string list \<Rightarrow> unit act" where
  "addVolumes [] = ret ()"
| "addVolumes (v # vs) =
     (if trim_space v = [] then fail ErrVolumeEmpty
      else
        andThen (update (configure (\<lambda>rc. rc\<lparr>cVolumes := mput (trim_space v) () (cVolumes rc)\<rparr>))) (\<lambda>_. addVolumes vs))"

definition volume_instr :: "world \<Rightarrow> string list \<Rightarrow> unit act" where
  "volume_instr w args =
     (if args = [] then fail (ErrAtLeastOneArg ''VOLUME'')
      else
        andThen parseFlags (\<lambda>_.
        andThen (addVolumes args) (\<lambda>_. commitConfig w (''VOLUME '' @ showList args))))"

definition stopSignal_instr :: "world \<Rightarrow> string list \<Rightarrow> unit act" where
  "stopSignal_instr w args =
     (case args of
        [sig] \<Rightarrow>
          if \<not> validSignal sig then fail (ErrSignal sig)
          else
            andThen (update (configure (\<lambda>rc. rc\<lparr>cStopSignal := sig\<rparr>))) (\<lambda>_.
              commitConfig w (''STOPSIGNAL '' @ showList args))
      | _ \<Rightarrow> fail (ErrExactlyOneArg ''STOPSIGNAL''))"

definition declareArg :: "string \<Rightarrow> builder \<Rightarrow> builder" where
  "declareArg a b =
     (let hasDefault = (CHR ''='' \<in> set a); name = (if hasDefault then before CHR ''='' a else a);
          b1 = b\<lparr>allowedBuildArgs := mput name True (allowedBuildArgs b)\<rparr> in
      if mget (oBuildArgs (options b)) name = None \<and> hasDefault
      then b1\<lparr>options := (options b1)\<lparr>oBuildArgs := mput name (after CHR ''='' a) (oBuildArgs (options b1))\<rparr>\<rparr>
      else b1)"

definition arg_instr :: "world \<Rightarrow> string list \<Rightarrow> unit act" where
  "arg_instr w args =
     (case args of
        [a] \<Rightarrow> andThen (update (declareArg a)) (\<lambda>_. commitConfig w (''ARG '' @ a))
      | _ \<Rightarrow> fail (ErrExactlyOneArg ''ARG''))"


subsection \<open>Dispatch\<close>

fun nextValues :: "node \<Rightarrow> string list" where
  "nextValues (Node v None cs js orig fl s e) = []"
| "nextValues (Node v (Some n) cs js orig fl s e) = nValue n # nextValues n"

definition replaceEnvAllowed :: "string list" where
  "replaceEnvAllowed = [''env'', ''label'', ''add'', ''copy'', ''workdir'', ''expose'', ''volume'', ''user'', ''stopsignal'', ''arg'']"

definition allowWordExpansion :: "string list" where
  "allowWordExpansion = [''expose'']"

definition wordResult :: "(shell_error, 'a) result option \<Rightarrow> (build_error, 'a) result" where
  "wordResult r =
     (case r of None \<Rightarrow> Inl (ErrWord None) | Some (Inl e) \<Rightarrow> Inl (ErrWord (Some e)) | Some (Inr a) \<Rightarrow> Inr a)"

text \<open>The arguments of an instruction, with the variables replaced where the command allows it.\<close>

fun expandArgs :: "string \<Rightarrow> string list \<Rightarrow> string list \<Rightarrow> (build_error, string list) result" where
  "expandArgs cmd envs [] = Inr []"
| "expandArgs cmd envs (str # rest) =
     (case (if cmd \<in> set replaceEnvAllowed
            then (if cmd \<in> set allowWordExpansion then wordResult (ProcessWords str envs)
                  else (case wordResult (ProcessWord str envs) of Inl e \<Rightarrow> Inl e | Inr x \<Rightarrow> Inr [x]))
            else Inr [str]) of
        Inl e \<Rightarrow> Inl e
      | Inr ws \<Rightarrow> (case expandArgs cmd envs rest of Inl e \<Rightarrow> Inl e | Inr others \<Rightarrow> Inr (ws @ others)))"

text \<open>The table of handlers; \<open>fromH\<close> is the handler of \<^verbatim>\<open>FROM\<close>, which runs the triggers of its image.\<close>

definition evaluate :: "world \<Rightarrow> (string list \<Rightarrow> unit act) \<Rightarrow> string \<Rightarrow> string list \<Rightarrow> bool \<Rightarrow> string \<Rightarrow> unit act" where
  "evaluate w fromH cmd args json original =
     (if cmd = ''env'' then env_instr w args
      else if cmd = ''label'' then label_instr w args
      else if cmd = ''maintainer'' then maintainer_instr w args
      else if cmd = ''add'' then add_instr w args
      else if cmd = ''copy'' then copy_instr w args
      else if cmd = ''from'' then fromH args
      else if cmd = ''onbuild'' then onbuild_instr w args original
      else if cmd = ''workdir'' then workdir_instr w args
      else if cmd = ''run'' then run_instr w args json
      else if cmd = ''cmd'' then cmd_instr w args json
      else if cmd = ''entrypoint'' then entrypoint_instr w args json
      else if cmd = ''expose'' then expose_instr w args
      else if cmd = ''volume'' then volume_instr w args
      else if cmd = ''user'' then user_instr w args
      else if cmd = ''stopsignal'' then stopSignal_instr w args
      else if cmd = ''arg'' then arg_instr w args
      else fail (ErrUnknownInstruction (to_upper cmd)))"

text \<open>
  The node an instruction takes its arguments from, with the words that come first.  The child of
  an \<^verbatim>\<open>ONBUILD\<close> node may be \<^verbatim>\<open>nil\<close>.
\<close>

definition argumentNode :: "node \<Rightarrow> (build_error, string list \<times> node) outcome" where
  "argumentNode ast =
     (if nValue ast = ''onbuild'' then
        (case nNext ast of
           None \<Rightarrow> Failed ErrOnbuildArgument
         | Some n \<Rightarrow>
             (case nChildren n of
                [] \<Rightarrow> Panicked ''index out of range''
              | None # _ \<Rightarrow> Panicked ''nil pointer dereference''
              | Some child # _ \<Rightarrow> Done ([nValue child], child)))
      else Done ([], ast))"

definition lift :: "(build_error, 'a) outcome \<Rightarrow> 'a act" where
  "lift r b = (r, b)"

definition buildEnvs :: "builder \<Rightarrow> string list" where
  "buildEnvs b = cEnv (runConfig b) @ map (\<lambda>(k, v). keyVal k v) (allowedArgs b)"

definition dispatchNode :: "world \<Rightarrow> (string list \<Rightarrow> unit act) \<Rightarrow> node \<Rightarrow> unit act" where
  "dispatchNode w fromH ast = reading (\<lambda>b.
     andThen (lift (argumentNode ast)) (\<lambda>(first, n).
     andThen (orFail id (expandArgs (nValue ast) (buildEnvs b) (nextValues n))) (\<lambda>rest.
     andThen (update (\<lambda>b. b\<lparr>flags := NewBFlags\<lparr>bf_Args := nFlags ast\<rparr>\<rparr>)) (\<lambda>_.
       evaluate w fromH (nValue ast) (first @ rest) (nJson ast) (nOriginal ast)))))"

subsection \<open>The base image and its triggers\<close>

definition DefaultPathEnv :: string where
  "DefaultPathEnv = ''/usr/local/sbin:/usr/local/bin:/usr/sbin:/usr/bin:/sbin:/bin''"

text \<open>The lines of a text, as \<^verbatim>\<open>bufio.Scanner\<close> returns them.\<close>

definition dropCR :: "string \<Rightarrow> string" where
  "dropCR l = (if l \<noteq> [] \<and> last l = CHR 0x0D then butlast l else l)"

definition scanLines :: "string \<Rightarrow> string list" where
  "scanLines s =
     (let ls = split (CHR 0x0A) s in map dropCR (if last ls = [] then butlast ls else ls))"

definition noFrom :: "string list \<Rightarrow> unit act" where
  "noFrom args = fail (ErrBadOnBuildCmd ''FROM'')"

text \<open>The instructions of one trigger; \<^verbatim>\<open>FROM\<close> and \<^verbatim>\<open>ONBUILD\<close> are refused, so no trigger starts another.\<close>

fun triggerNodes :: "world \<Rightarrow> node option list \<Rightarrow> unit act" where
  "triggerNodes w [] = ret ()"
| "triggerNodes w (None # ns) = lift (Panicked ''nil pointer dereference'')"
| "triggerNodes w (Some n # ns) =
     (let v = to_upper (nValue n) in
      if v = ''ONBUILD'' then fail ErrChainOnBuild
      else if v = ''MAINTAINER'' \<or> v = ''FROM'' then fail (ErrBadOnBuildCmd (nValue n))
      else andThen (dispatchNode w noFrom n) (\<lambda>_. triggerNodes w ns))"

fun triggers :: "world \<Rightarrow> string list \<Rightarrow> unit act" where
  "triggers w [] = ret ()"
| "triggers w (step # steps) =
     andThen (orFail ErrParse (Parse (wJson w) (scanLines step))) (\<lambda>ast.
     andThen (triggerNodes w (nChildren ast)) (\<lambda>_. triggers w steps))"

definition defaultPath :: "builder \<Rightarrow> builder" where
  "defaultPath = configure (\<lambda>rc.
     if hasEnv (cEnv rc) ''PATH'' then rc else rc\<lparr>cEnv := cEnv rc @ [''PATH='' @ DefaultPathEnv]\<rparr>)"

definition useImage :: "base_image \<Rightarrow> builder \<Rightarrow> builder" where
  "useImage img b =
     (case img of (i, cfg) \<Rightarrow> b\<lparr>image := i, runConfig := (case cfg of None \<Rightarrow> runConfig b | Some c \<Rightarrow> c)\<rparr>)"

definition processImageFrom :: "world \<Rightarrow> base_image option \<Rightarrow> unit act" where
  "processImageFrom w img =
     (case img of
        None \<Rightarrow> update defaultPath
      | Some i \<Rightarrow>
          andThen (update (defaultPath \<circ> useImage i)) (\<lambda>_. reading (\<lambda>b.
          andThen (update (configure (\<lambda>rc. rc\<lparr>cOnBuild := []\<rparr>))) (\<lambda>_.
            triggers w (cOnBuild (runConfig b))))))"

definition from_instr :: "world \<Rightarrow> string list \<Rightarrow> unit act" where
  "from_instr w args =
     (case args of
        [name] \<Rightarrow>
          andThen parseFlags (\<lambda>_. reading (\<lambda>b.
            if name = ''scratch'' then
              andThen (update (\<lambda>b. b\<lparr>image := [], noBaseImage := True\<rparr>)) (\<lambda>_. processImageFrom w None)
            else
              andThen (if oPullParent (options b) then ret None
                       else call (\<lambda>h. wGetImage w h name) (GetImage name)) (\<lambda>found.
                case found of
                  Some i \<Rightarrow> processImageFrom w (Some i)
                | None \<Rightarrow>
                    andThen (call (\<lambda>h. wPull w h name) (PullImage name)) (\<lambda>r.
                    andThen (orFail ErrBackend r) (\<lambda>img. processImageFrom w img)))))
      | _ \<Rightarrow> fail (ErrExactlyOneArg ''FROM''))"

subsection \<open>A build\<close>

definition cleanup :: "world \<Rightarrow> bool \<Rightarrow> builder \<Rightarrow> builder" where
  "cleanup w on b = (if on then clearTmp w b else b)"

fun buildLoop :: "world \<Rightarrow> nat \<Rightarrow> node option list \<Rightarrow> unit act" where
  "buildLoop w i [] b = (Done (), b)"
| "buildLoop w i (n # ns) b =
     (if wCancelled w i then (Failed ErrCancelled, b)
      else
        case n of
          None \<Rightarrow> (Panicked ''nil pointer dereference'', b)
        | Some ast \<Rightarrow>
            (case dispatchNode w (from_instr w) ast b of
               (Panicked p, b1) \<Rightarrow> (Panicked p, b1)
             | (Failed e, b1) \<Rightarrow> (Failed e, cleanup w (oForceRemove (options b1)) b1)
             | (Done _, b1) \<Rightarrow> buildLoop w (Suc i) ns (cleanup w (oRemove (options b1)) b1)))"

fun tagLoop :: "world \<Rightarrow> string list \<Rightarrow> unit act" where
  "tagLoop w [] = ret ()"
| "tagLoop w (t # ts) = reading (\<lambda>b.
     andThen (call (\<lambda>h. wTag w h t (image b)) (Tag t (image b))) (\<lambda>r.
     andThen (failIf ErrBackend r) (\<lambda>_. tagLoop w ts)))"

definition leftoverArgs :: "builder \<Rightarrow> string list" where
  "leftoverArgs b = filter (\<lambda>k. \<not> isBuildArgAllowed b k) (mkeys (oBuildArgs (options b)))"

text \<open>
  The build of a parsed Dockerfile; \<open>tags\<close> are the references \<^verbatim>\<open>sanitizeRepoAndTags\<close> made of the
  names the client gave.
\<close>

definition build :: "world \<Rightarrow> node \<Rightarrow> string list \<Rightarrow> string act" where
  "build w dockerfile tags =
     andThen (buildLoop w 0 (nChildren dockerfile)) (\<lambda>_. reading (\<lambda>b.
       if leftoverArgs b \<noteq> [] then fail (ErrLeftoverArgs (leftoverArgs b))
       else if image b = [] then fail ErrNoImageGenerated
       else andThen (tagLoop w tags) (\<lambda>_. ret (image b))))"

definition validCommitCommands :: "string list" where
  "validCommitCommands = [''cmd'', ''entrypoint'', ''env'', ''expose'', ''label'', ''onbuild'', ''user'', ''volume'', ''workdir'']"

fun changeLoop :: "world \<Rightarrow> node option list \<Rightarrow> unit act" where
  "changeLoop w [] = ret ()"
| "changeLoop w (None # ns) = lift (Panicked ''nil pointer dereference'')"
| "changeLoop w (Some n # ns) = andThen (dispatchNode w (from_instr w) n) (\<lambda>_. changeLoop w ns)"

definition noOptions :: build_options where
  "noOptions = \<lparr>oBuildArgs = [], oNoCache = False, oPullParent = False, oRemove = False, oForceRemove = False\<rparr>"

text \<open>
  \<^verbatim>\<open>BuildFromConfig\<close> applies the changes of a commit to a configuration.  Its builder has no
  backend: \<^verbatim>\<open>b.docker\<close> is \<^verbatim>\<open>nil\<close>, and every call through it would panic.
\<close>

definition BuildFromConfig :: "world \<Rightarrow> config \<Rightarrow> string list \<Rightarrow> (build_error, config) outcome \<times> builder" where
  "BuildFromConfig w cfg changes =
     (let b0 = (NewBuilder noOptions False)\<lparr>runConfig := cfg, disableCommit := True\<rparr> in
      case Parse (wJson w) (scanLines (join (CHR 0x0A) changes)) of
        Inl e \<Rightarrow> (Failed (ErrParse e), b0)
      | Inr ast \<Rightarrow>
          (case find (\<lambda>n. case n of None \<Rightarrow> True | Some c \<Rightarrow> nValue c \<notin> set validCommitCommands) (nChildren ast) of
             Some None \<Rightarrow> (Panicked ''nil pointer dereference'', b0)
           | Some (Some c) \<Rightarrow> (Failed (ErrChangeCommand (nValue c)), b0)
           | None \<Rightarrow> andThen (changeLoop w (nChildren ast)) (\<lambda>_. reading (\<lambda>b. ret (runConfig b))) b0))"

end
