(* ===== verification/Builder_Frames.thy ===== *)
theory Builder_Frames
  imports Builder
begin

section \<open>What the actions of the builder keep\<close>

text \<open>
  A frame is a reflexive and transitive relation between the states before and after an action, on
  every outcome.  Sequences of actions keep a frame when their parts do; so the handlers that only
  change the configuration keep every frame that a configuration change and a commit keep
  (\<open>config_frame\<close>), and every action of the builder keeps a frame that the calls of the backend
  keep (\<open>build_frame\<close>, which gives the former).
\<close>

definition keeps :: "(builder \<Rightarrow> builder \<Rightarrow> bool) \<Rightarrow> 'a act \<Rightarrow> bool" where
  "keeps R m \<longleftrightarrow> (\<forall>b. R b (snd (m b)))"

locale frame =
  fixes R :: "builder \<Rightarrow> builder \<Rightarrow> bool"
  assumes frame_refl: "R b b"
    and frame_trans: "R a b \<Longrightarrow> R b c \<Longrightarrow> R a c"
begin

lemma keeps_ret: "keeps R (ret a)"
  by (simp add: keeps_def ret_def frame_refl)

lemma keeps_fail: "keeps R (fail e)"
  by (simp add: keeps_def fail_def frame_refl)

lemma keeps_lift: "keeps R (lift r)"
  by (simp add: keeps_def lift_def frame_refl)

lemma keeps_andThen: "keeps R m \<Longrightarrow> (\<And>a. keeps R (f a)) \<Longrightarrow> keeps R (andThen m f)"
  unfolding keeps_def andThen_def
  by (auto split: prod.split outcome.split) (metis frame_trans snd_conv)+

lemma keeps_reading: "(\<And>b. keeps R (f b)) \<Longrightarrow> keeps R (reading f)"
  by (simp add: keeps_def reading_def)

lemma keeps_update: "(\<And>b. R b (f b)) \<Longrightarrow> keeps R (update f)"
  by (simp add: keeps_def update_def)

lemma keeps_deferring: "keeps R m \<Longrightarrow> (\<And>b. R b (g b)) \<Longrightarrow> keeps R (deferring g m)"
  unfolding keeps_def deferring_def
  by (auto split: prod.split) (metis frame_trans snd_conv)

lemma keeps_call: "(\<And>b r. R b (b\<lparr>trace := trace b @ [ev r]\<rparr>)) \<Longrightarrow> keeps R (call f ev)"
  by (simp add: keeps_def call_def Let_def)

lemma keeps_orFail: "keeps R (orFail err r)"
  by (cases r) (simp_all add: orFail_def keeps_fail keeps_ret)

lemma keeps_failIf: "keeps R (failIf err r)"
  by (cases r) (simp_all add: failIf_def keeps_fail keeps_ret)

lemma keeps_if: "(c \<Longrightarrow> keeps R m) \<Longrightarrow> (\<not> c \<Longrightarrow> keeps R n) \<Longrightarrow> keeps R (if c then m else n)"
  by simp

lemma keeps_Let: "(\<And>x. keeps R (f x)) \<Longrightarrow> keeps R (Let v f)"
  by simp

lemma keeps_option: "keeps R m \<Longrightarrow> (\<And>x. keeps R (f x)) \<Longrightarrow> keeps R (case_option m f v)"
  by (cases v) simp_all

lemma keeps_list: "keeps R m \<Longrightarrow> (\<And>x xs. keeps R (f x xs)) \<Longrightarrow> keeps R (case_list m f v)"
  by (cases v) simp_all

lemma keeps_prod: "(\<And>x y. keeps R (f x y)) \<Longrightarrow> keeps R (case_prod f p)"
  by (cases p) simp

lemmas keeps_seq = keeps_ret keeps_fail keeps_lift keeps_andThen keeps_reading keeps_deferring
  keeps_orFail keeps_failIf keeps_if keeps_Let keeps_option keeps_list keeps_prod

end

text \<open>Frames that a change of the configuration and a commit keep.\<close>

locale config_frame = frame +
  fixes w :: world
  assumes config_step: "R b (configure f b)"
    and flags_step: "R b (b\<lparr>flags := bf\<rparr>)"
    and cmdSet_step: "R b (b\<lparr>cmdSet := True\<rparr>)"
    and commit_step: "keeps R (commit w [] c comment)"
begin

lemma keeps_configure: "keeps R (update (configure f))"
  by (rule keeps_update) (rule config_step)

lemma keeps_setCmd: "keeps R (update (setCmd c))"
  unfolding setCmd_def by (rule keeps_configure)

lemma keeps_cmdSet: "keeps R (update (\<lambda>b. b\<lparr>cmdSet := True\<rparr>))"
  by (rule keeps_update) (rule cmdSet_step)

lemma keeps_newFlags: "keeps R (update (\<lambda>b. b\<lparr>flags := bf\<rparr>))"
  by (rule keeps_update) (rule flags_step)

lemma keeps_clearCmd: "keeps R (update (\<lambda>b. if \<not> cmdSet b then setCmd None b else b))"
  by (rule keeps_update) (simp add: setCmd_def config_step frame_refl)

lemma keeps_parseFlags: "keeps R parseFlags"
  by (auto simp: keeps_def parseFlags_def flags_step split: prod.split option.split)

lemma keeps_commitConfig: "keeps R (commitConfig w comment)"
  unfolding commitConfig_def by (rule keeps_reading) (rule commit_step)

lemmas keeps_config = keeps_seq keeps_configure keeps_setCmd keeps_cmdSet keeps_newFlags keeps_clearCmd
  keeps_parseFlags keeps_commitConfig

lemma keeps_env: "keeps R (env_instr w args)"
  unfolding env_instr_def by (intro keeps_config)

lemma keeps_label: "keeps R (label_instr w args)"
  unfolding label_instr_def by (intro keeps_config)

lemma keeps_onbuild: "keeps R (onbuild_instr w args original)"
  unfolding onbuild_instr_def by (intro keeps_config)

lemma keeps_workdir: "keeps R (workdir_instr w args)"
  unfolding workdir_instr_def by (intro keeps_config)

lemma keeps_cmd: "keeps R (cmd_instr w args json)"
  unfolding cmd_instr_def by (intro keeps_config)

lemma keeps_entrypoint: "keeps R (entrypoint_instr w args json)"
  unfolding entrypoint_instr_def by (intro keeps_config)

lemma keeps_expose: "keeps R (expose_instr w args)"
  unfolding expose_instr_def by (intro keeps_config)

lemma keeps_user: "keeps R (user_instr w args)"
  unfolding user_instr_def by (intro keeps_config)

lemma keeps_addVolumes: "keeps R (addVolumes vs)"
  by (induction vs) (auto intro!: keeps_config)

lemma keeps_volume: "keeps R (volume_instr w args)"
  unfolding volume_instr_def by (intro keeps_config keeps_addVolumes)

lemma keeps_stopSignal: "keeps R (stopSignal_instr w args)"
  unfolding stopSignal_instr_def by (intro keeps_config)

lemmas keeps_config_handlers = keeps_env keeps_label keeps_onbuild keeps_workdir keeps_cmd keeps_entrypoint
  keeps_expose keeps_user keeps_volume keeps_stopSignal

text \<open>An instruction whose handler keeps the frame keeps it.\<close>

lemma keeps_dispatchNode:
  assumes "\<And>args json original. keeps R (evaluate w fromH (nValue n) args json original)"
  shows "keeps R (dispatchNode w fromH n)"
  unfolding dispatchNode_def by (intro keeps_config assms)

end

text \<open>Frames that every call of the backend keeps.\<close>

locale build_frame = frame +
  fixes w :: world
  assumes build_config: "R b (configure f b)"
    and build_flags: "R b (b\<lparr>flags := bf\<rparr>)"
    and build_cmdSet: "R b (b\<lparr>cmdSet := True\<rparr>)"
    and build_image: "R b (setImage i b)"
    and build_base: "R b (b\<lparr>image := i, noBaseImage := True\<rparr>)"
    and build_useImage: "R b (useImage img b)"
    and build_maintainer: "R b (b\<lparr>maintainer := m\<rparr>)"
    and build_declare: "R b (declareArg a b)"
    and build_probe: "keeps R (probeCache w)"
    and build_create: "keeps R (containerCreate w)"
    and build_call: "case e of Probe _ _ _ \<Rightarrow> False | CreateContainer _ _ \<Rightarrow> False | Remove _ _ \<Rightarrow> False | _ \<Rightarrow> True
      \<Longrightarrow> R b (b\<lparr>trace := trace b @ [e]\<rparr>)"
begin

lemma keeps_backend:
  assumes "\<And>r. case ev r of Probe _ _ _ \<Rightarrow> False | CreateContainer _ _ \<Rightarrow> False | Remove _ _ \<Rightarrow> False | _ \<Rightarrow> True"
  shows "keeps R (call f ev)"
  by (rule keeps_call) (rule build_call, rule assms)

lemma keeps_calls:
  "keeps R (call f (UpdateCmd c xs))" "keeps R (call f (Start c))" "keeps R (call f (Attach c))"
  "keeps R (call g (Wait c))" "keeps R (call h (CommitContainer c m cfg))" "keeps R (call f (Copy c d n x))"
  "keeps R (call k (GetImage n))" "keeps R (call l (PullImage n))" "keeps R (call f (Tag t i))"
  by (rule keeps_backend, simp)+

lemma keeps_updates:
  "keeps R (update (configure u))" "keeps R (update (setCmd c))" "keeps R (update (setEnv e))"
  "keeps R (update (setImage i))" "keeps R (update (\<lambda>b. b\<lparr>maintainer := m\<rparr>))" "keeps R (update (declareArg a))"
  "keeps R (update (\<lambda>b. b\<lparr>image := i, noBaseImage := True\<rparr>))"
  by (rule keeps_update, simp add: setCmd_def setEnv_def build_config build_image build_maintainer build_declare build_base)+

lemma restore_step: "R b (setCmd c b)"
  by (simp add: setCmd_def build_config)

lemma restore_env_step: "R b ((setCmd c \<circ> setEnv e) b)"
  using frame_trans [OF build_config build_config] by (simp add: setCmd_def setEnv_def)

lemma keeps_resetRun: "keeps R (update (setEnv e \<circ> setCmd c))"
  using frame_trans [OF build_config build_config] by (intro keeps_update) (simp add: setCmd_def setEnv_def)

lemma keeps_newImage: "keeps R (update (defaultPath \<circ> useImage i))" "keeps R (update defaultPath)"
  unfolding defaultPath_def comp_def
  by (rule keeps_update, rule frame_trans [OF build_useImage build_config]) (rule keeps_update, rule build_config)

lemma keeps_create: "keeps R (create w)"
  unfolding create_def by (intro keeps_seq keeps_calls keeps_updates build_create)

lemma keeps_commitContainer: "keeps R (commitContainer w c autoCmd)"
  unfolding commitContainer_def by (intro keeps_seq keeps_calls keeps_updates)

lemma keeps_commit: "keeps R (commit w c autoCmd comment)"
  unfolding commit_def
  by (intro keeps_seq keeps_updates restore_step build_probe keeps_create keeps_commitContainer)

lemma keeps_runContainer: "keeps R (runContainer w c)"
  unfolding runContainer_def by (intro keeps_seq keeps_calls)

lemma keeps_copyLoop: "keeps R (copyLoop w c dest infos)"
proof (induction infos)
  case (Cons i infos)
  then show ?case by (cases i) (auto intro!: keeps_seq keeps_calls)
qed (simp add: keeps_ret)

lemma keeps_runContextCommand: "keeps R (runContextCommand w args ar dc name)"
  unfolding runContextCommand_def
  by (intro keeps_seq keeps_updates restore_step build_probe build_create keeps_copyLoop keeps_commit)

end

sublocale build_frame \<subseteq> config_frame R w
  by unfold_locales (rule build_config build_flags build_cmdSet keeps_commit)+

context build_frame
begin

lemma keeps_run: "keeps R (run_instr w args json)"
  unfolding run_instr_def
  by (intro keeps_config keeps_updates restore_env_step build_probe keeps_create keeps_runContainer keeps_resetRun keeps_commit)

lemma keeps_maintainer: "keeps R (maintainer_instr w args)"
  unfolding maintainer_instr_def by (intro keeps_config keeps_updates)

lemma keeps_add_copy: "keeps R (add_instr w args)" "keeps R (copy_instr w args)"
  unfolding add_instr_def copy_instr_def by (intro keeps_config keeps_runContextCommand)+

lemma keeps_arg: "keeps R (arg_instr w args)"
  unfolding arg_instr_def by (intro keeps_config keeps_updates)

lemma keeps_evaluate:
  assumes "\<And>args. keeps R (fromH args)"
  shows "keeps R (evaluate w fromH name args json original)"
  unfolding evaluate_def
  by (intro keeps_if keeps_fail keeps_config_handlers keeps_run keeps_maintainer keeps_add_copy keeps_arg assms)

lemma keeps_triggerNodes: "keeps R (triggerNodes w ns)"
proof (induction ns)
  case (Cons n ns)
  have "keeps R (dispatchNode w noFrom m)" for m
    by (intro keeps_dispatchNode keeps_evaluate) (simp add: noFrom_def keeps_fail)
  then show ?case using Cons by (cases n) (auto intro!: keeps_seq simp: Let_def)
qed (simp add: keeps_ret)

lemma keeps_triggers: "keeps R (triggers w steps)"
  by (induction steps) (auto intro!: keeps_seq keeps_triggerNodes)

lemma keeps_processImageFrom: "keeps R (processImageFrom w img)"
  unfolding processImageFrom_def by (intro keeps_seq keeps_newImage keeps_updates keeps_triggers)

lemma keeps_from: "keeps R (from_instr w args)"
  unfolding from_instr_def by (intro keeps_config keeps_updates keeps_calls keeps_processImageFrom)

lemma keeps_instruction: "keeps R (dispatchNode w (from_instr w) n)"
  by (intro keeps_dispatchNode keeps_evaluate keeps_from)

lemma keeps_tagLoop: "keeps R (tagLoop w ts)"
  by (induction ts) (auto intro!: keeps_seq keeps_calls)

end


text \<open>Frames that the removal of containers keeps as well: they hold of a whole build.\<close>

locale whole_frame = build_frame +
  assumes clear_step: "R b (clearLoop w cs b)"
begin

lemma cleanup_step: "R b (cleanup w on b)"
  by (simp add: cleanup_def clearTmp_def clear_step frame_refl)

lemma keeps_buildLoop: "R b (snd (buildLoop w i ns b))"
proof (induction ns arbitrary: i b)
  case (Cons n ns)
  show ?case
  proof (cases "wCancelled w i \<or> n = None")
    case False
    then obtain ast where n: "n = Some ast" and go: "\<not> wCancelled w i" by auto
    obtain r b1 where d: "dispatchNode w (from_instr w) ast b = (r, b1)" by (cases "dispatchNode w (from_instr w) ast b")
    have "R b b1" using keeps_instruction [of ast] d by (metis keeps_def snd_conv)
    then show ?thesis
      using n go d Cons.IH frame_trans cleanup_step by (cases r) (simp_all, blast+)
  qed (auto simp: frame_refl)
qed (simp add: frame_refl)

lemma keeps_build: "keeps R (build w ast tags)"
proof -
  have "keeps R (buildLoop w i ns)" for i ns unfolding keeps_def by (simp add: keeps_buildLoop)
  then show ?thesis unfolding build_def by (intro keeps_seq keeps_tagLoop)
qed

end

end
