(* ===== verification/Builder_Properties.thy ===== *)
theory Builder_Properties
  imports Builder_Frames
begin

section \<open>What the builder guarantees\<close>

text \<open>
  Three frames are interpreted on the builder: commits are disabled and nothing is called, the
  temporary containers are exactly the containers that live, and the cache is not asked again after
  a miss.  The properties of a build rest on them.
\<close>

subsection \<open>Changes applied without a backend\<close>

definition offlineR :: "builder \<Rightarrow> builder \<Rightarrow> bool" where
  "offlineR b b' \<longleftrightarrow> (disableCommit b \<longrightarrow> disableCommit b' \<and> trace b' = trace b)"

lemma commit_disabled: "keeps offlineR (commit w c autoCmd comment)"
  by (simp add: keeps_def offlineR_def commit_def reading_def ret_def)

interpretation offline: config_frame offlineR w for w :: world
  by unfold_locales (auto simp: offlineR_def configure_def commit_disabled)

lemma offline_changeLoop:
  "\<forall>n \<in> set ns. n \<noteq> None \<and> nValue (the n) \<in> set validCommitCommands \<Longrightarrow> keeps offlineR (changeLoop w ns)"
proof (induction ns)
  case (Cons n ns)
  then obtain c where c: "n = Some c" "nValue c \<in> set validCommitCommands" by auto
  have "keeps offlineR (evaluate w (from_instr w) (nValue c) args json original)" for args json original
    using c(2) by (auto simp: validCommitCommands_def evaluate_def intro: offline.keeps_config_handlers)
  then have "keeps offlineR (dispatchNode w (from_instr w) c)" by (rule offline.keeps_dispatchNode)
  moreover have "keeps offlineR (changeLoop w ns)" using Cons by simp
  ultimately show ?case unfolding c(1) changeLoop.simps by (rule offline.keeps_andThen)
qed (simp add: offline.keeps_ret)

text \<open>
  Applying the changes of a commit to a configuration makes no call of the backend, whatever
  the changes are, so the builder without a backend never dereferences it.
\<close>

theorem build_from_config_offline:
  "trace (snd (BuildFromConfig w cfg changes)) = []"
proof -
  let ?b = "(NewBuilder noOptions False)\<lparr>runConfig := cfg, disableCommit := True\<rparr>"
  let ?bad = "\<lambda>n. case n of None \<Rightarrow> True | Some c \<Rightarrow> nValue c \<notin> set validCommitCommands"
  have start: "disableCommit ?b" "trace ?b = []" by (simp_all add: NewBuilder_def)
  show ?thesis
  proof (cases "Parse (wJson w) (scanLines (join (CHR 0x0A) changes))")
    case (Inl e)
    then show ?thesis using start by (simp add: BuildFromConfig_def)
  next
    case (Inr ast)
    show ?thesis
    proof (cases "find ?bad (nChildren ast)")
      case None
      then have "keeps offlineR (changeLoop w (nChildren ast))"
        by (intro offline_changeLoop) (auto simp: find_None_iff split: option.splits)
      then have "keeps offlineR (andThen (changeLoop w (nChildren ast)) (\<lambda>_. reading (\<lambda>b. ret (runConfig b))))"
        by (intro offline.keeps_seq)
      then have "offlineR ?b (snd (andThen (changeLoop w (nChildren ast)) (\<lambda>_. reading (\<lambda>b. ret (runConfig b))) ?b))"
        unfolding keeps_def by blast
      then show ?thesis using Inr None start by (simp add: BuildFromConfig_def offlineR_def)
    next
      case (Some n)
      then show ?thesis using Inr start by (cases n) (simp_all add: BuildFromConfig_def)
    qed
  qed
qed

subsection \<open>Temporary containers\<close>

fun lives :: "string set \<Rightarrow> event \<Rightarrow> string set" where
  "lives s (CreateContainer cfg (Inr c)) = insert c s"
| "lives s (Remove c None) = s - {c}"
| "lives s e = s"

definition live :: "event list \<Rightarrow> string set" where
  "live tr = foldl lives {} tr"

lemma live_Nil [simp]: "live [] = {}"
  by (simp add: live_def)

lemma live_snoc [simp]: "live (tr @ [e]) = lives (live tr) e"
  by (simp add: live_def)

definition tracked :: "builder \<Rightarrow> bool" where
  "tracked b \<longleftrightarrow> live (trace b) = fst ` set (tmpContainers b)"

definition trackR :: "builder \<Rightarrow> builder \<Rightarrow> bool" where
  "trackR b b' \<longleftrightarrow> (tracked b \<longrightarrow> tracked b')
     \<and> oRemove (options b') = oRemove (options b) \<and> oForceRemove (options b') = oForceRemove (options b)"

interpretation track: frame trackR
  by unfold_locales (auto simp: trackR_def)

lemma track_probe: "keeps trackR (probeCache w)"
  unfolding probeCache_def
  by (intro track.keeps_seq track.keeps_call track.keeps_update) (auto simp: trackR_def tracked_def setImage_def)

lemma track_create: "keeps trackR (containerCreate w)"
  by (auto simp: keeps_def containerCreate_def reading_def andThen_def call_def Let_def orFail_def update_def ret_def
      fail_def addTmp_def trackR_def tracked_def dom_update split: sum.split prod.split)

lemma track_clear: "trackR b (clearLoop w cs b)"
proof (induction cs arbitrary: b)
  case (Cons c cs)
  show ?case
  proof (cases "wRemove w (trace b) c")
    case None
    let ?b = "b\<lparr>trace := trace b @ [Remove c None], tmpContainers := mdel c (tmpContainers b)\<rparr>"
    have "trackR b ?b" by (auto simp: trackR_def tracked_def AList.delete_eq)
    then show ?thesis using None Cons.IH [of ?b] track.frame_trans by (fastforce simp: Let_def)
  qed (simp add: trackR_def tracked_def Let_def)
qed (simp add: track.frame_refl)

lemma declareArg_options [simp]:
  "trace (declareArg a b) = trace b" "tmpContainers (declareArg a b) = tmpContainers b"
  "cacheBusted (declareArg a b) = cacheBusted b"
  "oRemove (options (declareArg a b)) = oRemove (options b)"
  "oForceRemove (options (declareArg a b)) = oForceRemove (options b)"
  by (simp_all add: declareArg_def Let_def)

interpretation containers: whole_frame trackR w for w :: world
  by unfold_locales
    (auto simp: trackR_def tracked_def configure_def setImage_def useImage_def track_probe track_create
      track_clear [unfolded trackR_def tracked_def] split: event.splits prod.splits)


lemma clearLoop_all:
  assumes "\<And>h c. wRemove w h c = None"
  shows "fst ` set (tmpContainers (clearLoop w cs b)) = fst ` set (tmpContainers b) - set cs"
proof (induction cs arbitrary: b)
  case (Cons c cs)
  show ?case by (simp add: assms Let_def Cons.IH) (auto simp: AList.delete_eq)
qed simp

definition clean :: "builder \<Rightarrow> bool" where
  "clean b \<longleftrightarrow> tracked b \<and> live (trace b) = {}"

lemma cleanup_clean:
  assumes "\<And>h c. wRemove w h c = None" "tracked b"
  shows "clean (cleanup w True b)"
proof -
  have "tracked (clearTmp w b)" using track_clear assms(2) by (auto simp: clearTmp_def trackR_def)
  moreover have "fst ` set (tmpContainers (clearTmp w b)) = {}"
    unfolding clearTmp_def clearLoop_all [OF assms(1)] by simp
  ultimately show ?thesis by (simp add: cleanup_def clean_def tracked_def)
qed

lemma buildLoop_clean:
  assumes rm: "\<And>h c. wRemove w h c = None"
    and run: "buildLoop w i ns b = (r, b')" "clean b" "oRemove (options b)"
    and r: "case r of Done _ \<Rightarrow> True | Failed _ \<Rightarrow> oForceRemove (options b) | Panicked _ \<Rightarrow> False"
  shows "clean b'"
  using run r
proof (induction ns arbitrary: i b)
  case (Cons n ns)
  show ?case
  proof (cases "wCancelled w i \<or> n = None")
    case True
    then show ?thesis using Cons.prems by (auto split: if_splits)
  next
    case False
    then obtain ast where n: "n = Some ast" "\<not> wCancelled w i" by auto
    obtain q b1 where d: "dispatchNode w (from_instr w) ast b = (q, b1)" by (cases "dispatchNode w (from_instr w) ast b")
    have "trackR b b1" using containers.keeps_instruction [of w ast] d by (metis keeps_def snd_conv)
    then have b1: "tracked b1" "oRemove (options b1)" "oForceRemove (options b1) = oForceRemove (options b)"
      using Cons.prems by (auto simp: trackR_def clean_def)
    have c: "clean (cleanup w True b1)" by (rule cleanup_clean [OF rm b1(1)])
    have o: "oRemove (options (cleanup w True b1))" "oForceRemove (options (cleanup w True b1)) = oForceRemove (options b)"
      using containers.cleanup_step [of b1 w True] b1 by (auto simp: trackR_def)
    show ?thesis
    proof (cases q)
      case (Done u)
      then have "buildLoop w (Suc i) ns (cleanup w True b1) = (r, b')" using Cons.prems(1) n d b1(2) by simp
      then show ?thesis by (rule Cons.IH) (use c o Cons.prems(4) in \<open>simp_all split: outcome.splits\<close>)
    qed (use Cons.prems n d b1 c in \<open>auto split: if_splits\<close>)
  qed
qed simp

lemma tagLoop_Cons:
  "tagLoop w (t # ts) b =
     (let b1 = b\<lparr>trace := trace b @ [Tag t (image b) (wTag w (trace b) t (image b))]\<rparr> in
      case wTag w (trace b) t (image b) of Some e \<Rightarrow> (Failed (ErrBackend e), b1) | None \<Rightarrow> tagLoop w ts b1)"
  by (cases "wTag w (trace b) t (image b)")
    (simp_all add: reading_def andThen_def call_def Let_def failIf_def fail_def ret_def del: tagLoop.simps add: tagLoop.simps(2))

lemma tagLoop_live: "live (trace (snd (tagLoop w ts b))) = live (trace b)"
proof (induction ts arbitrary: b)
  case (Cons t ts)
  then show ?case unfolding tagLoop_Cons by (simp add: Let_def split: option.split)
qed (simp add: ret_def)

text \<open>
  C27: When intermediate containers are removed after each step and removals succeed, no container
  is left behind by a build that succeeds, nor, with forced removal, by one that fails: every
  container that was created has been removed.
\<close>

theorem build_leaves_no_containers:
  assumes "\<And>h c. wRemove w h c = None" "oRemove opts"
    and "build w ast tags (NewBuilder opts ctx) = (r, b')"
    and "case r of Done _ \<Rightarrow> True | Failed _ \<Rightarrow> oForceRemove opts | Panicked _ \<Rightarrow> False"
  shows "live (trace b') = {}"
proof -
  let ?b = "NewBuilder opts ctx"
  obtain q b1 where l: "buildLoop w 0 (nChildren ast) ?b = (q, b1)" by (cases "buildLoop w 0 (nChildren ast) ?b")
  have start: "clean ?b" "oRemove (options ?b)" "options ?b = opts"
    using assms(2) by (simp_all add: NewBuilder_def clean_def tracked_def)
  show ?thesis
  proof (cases q)
    case (Done u)
    then have "clean b1" using buildLoop_clean [OF assms(1) l start(1,2)] by simp
    moreover have "live (trace b') = live (trace b1)"
      using assms(3) l Done tagLoop_live [of w tags b1]
      by (auto simp: build_def andThen_def reading_def fail_def ret_def split: if_splits prod.splits outcome.splits)
    ultimately show ?thesis by (simp add: clean_def)
  next
    case (Failed e)
    then have "r = Failed e" "b' = b1" using assms(3) l by (simp_all add: build_def andThen_def)
    then show ?thesis using buildLoop_clean [OF assms(1) l start(1,2)] Failed assms(4) start(3) by (simp add: clean_def)
  next
    case (Panicked p)
    then have "r = Panicked p" using assms(3) l by (simp add: build_def andThen_def)
    then show ?thesis using assms(4) by simp
  qed
qed


text \<open>A backend that answers every call, with fresh names.\<close>

definition sample_world :: world where
  "sample_world =
     \<lparr>wJson = (\<lambda>_. None), wQuote = (\<lambda>_. []), wPorts = (\<lambda>ps. Inr ps), wHash = (\<lambda>s. s), wDownload = (\<lambda>_. Inl []),
      wCopyInfo = (\<lambda>s d. Inr [(s, Some s, d)]), wCancelled = (\<lambda>_. False), wGetImage = (\<lambda>h n. Some (n, None)),
      wPull = (\<lambda>h n. Inl []), wCache = Some (\<lambda>h i c. Inr []), wCreate = (\<lambda>h c. Inr (CHR ''c'' # dec_nat (length h))),
      wUpdateCmd = (\<lambda>h c xs. None), wStart = (\<lambda>h c. None), wAttach = (\<lambda>h c. None), wWait = (\<lambda>h c. 0),
      wCommit = (\<lambda>h c m cfg. Inr (CHR ''i'' # dec_nat (length h))), wCopy = (\<lambda>h c d n. None), wRemove = (\<lambda>h c. None),
      wTag = (\<lambda>h t i. None)\<rparr>"

definition sample_options :: build_options where
  "sample_options = noOptions\<lparr>oBuildArgs := [(''v'', ''1'')], oRemove := True\<rparr>"

definition instr :: "string \<Rightarrow> string list \<Rightarrow> node option" where
  "instr cmd args = Some (Node cmd (chain args) [] False [] [] 0 0)"

definition sample_ast :: node where
  "sample_ast = Node [] None [instr ''from'' [''base''], instr ''arg'' [''v''], instr ''run'' [''make'']] False [] [] 1 3"

definition sample_build :: "(build_error, string) outcome \<times> builder" where
  "sample_build = build sample_world sample_ast [''t''] (NewBuilder sample_options True)"

lemma sample_build_done:
  "case fst sample_build of Done _ \<Rightarrow> True | _ \<Rightarrow> False"
  "list_ex (\<lambda>e. case e of CreateContainer _ (Inr _) \<Rightarrow> True | _ \<Rightarrow> False) (trace (snd sample_build))"
  "list_ex (\<lambda>e. case e of Probe _ _ (Inr []) \<Rightarrow> True | _ \<Rightarrow> False) (trace (snd sample_build))"
  by code_simp+

theorem build_leaves_no_containers_witness:
  "oRemove sample_options \<and> (case fst sample_build of Done _ \<Rightarrow> True | _ \<Rightarrow> False)
   \<and> list_ex (\<lambda>e. case e of CreateContainer _ (Inr _) \<Rightarrow> True | _ \<Rightarrow> False) (trace (snd sample_build))
   \<and> live (trace (snd sample_build)) = {}"
proof -
  have rm: "wRemove sample_world h c = None" for h c by (simp add: sample_world_def)
  have o: "oRemove sample_options" by (simp add: sample_options_def)
  obtain r b' where b: "build sample_world sample_ast [''t''] (NewBuilder sample_options True) = (r, b')"
    by (cases "build sample_world sample_ast [''t''] (NewBuilder sample_options True)")
  then have "case r of Done _ \<Rightarrow> True | Failed _ \<Rightarrow> oForceRemove sample_options | Panicked _ \<Rightarrow> False"
    using sample_build_done(1) by (auto simp: sample_build_def split: outcome.splits)
  from build_leaves_no_containers [OF rm o b this] show ?thesis
    using o b sample_build_done(1,2) by (simp add: sample_build_def)
qed

subsection \<open>The cache\<close>

fun is_probe :: "event \<Rightarrow> bool" where
  "is_probe (Probe i c r) = True"
| "is_probe e = False"

fun is_miss :: "event \<Rightarrow> bool" where
  "is_miss (Probe i c (Inr [])) = True"
| "is_miss e = False"

fun cache_ordered :: "event list \<Rightarrow> bool" where
  "cache_ordered [] = True"
| "cache_ordered (e # es) = ((is_miss e \<longrightarrow> \<not> list_ex is_probe es) \<and> cache_ordered es)"

lemma cache_ordered_snoc:
  "cache_ordered (tr @ [e]) \<longleftrightarrow> cache_ordered tr \<and> (is_probe e \<longrightarrow> \<not> list_ex is_miss tr)"
  by (induction tr) auto

lemma cache_ordered_split: "cache_ordered (xs @ e # ys) \<Longrightarrow> is_miss e \<Longrightarrow> \<not> list_ex is_probe ys"
  by (induction xs) auto

lemma miss_is_probe: "is_miss e \<Longrightarrow> is_probe e"
  by (cases e rule: is_probe.cases) auto

definition cacheInv :: "builder \<Rightarrow> bool" where
  "cacheInv b \<longleftrightarrow> (list_ex is_miss (trace b) \<longrightarrow> cacheBusted b) \<and> cache_ordered (trace b)"

definition cacheR :: "builder \<Rightarrow> builder \<Rightarrow> bool" where
  "cacheR b b' \<longleftrightarrow> (cacheInv b \<longrightarrow> cacheInv b')"

lemma cacheInv_other: "\<not> is_probe e \<Longrightarrow> cacheInv b \<Longrightarrow> cacheInv (b\<lparr>trace := trace b @ [e]\<rparr>)"
  using miss_is_probe [of e] by (auto simp: cacheInv_def cache_ordered_snoc)

lemma cache_probe: "keeps cacheR (probeCache w)"
proof (unfold keeps_def, intro allI)
  fix b
  show "cacheR b (snd (probeCache w b))"
  proof (cases "wCache w = None \<or> oNoCache (options b) \<or> cacheBusted b")
    case True
    then show ?thesis
      by (auto simp: probeCache_def reading_def ret_def cacheR_def split: option.split)
  next
    case False
    then obtain g where g: "wCache w = Some g" "\<not> oNoCache (options b)" "\<not> cacheBusted b" by auto
    show ?thesis
      using g by (cases "g (trace b) (image b) (runConfig b)")
        (auto simp: probeCache_def reading_def ret_def cacheR_def andThen_def call_def Let_def orFail_def fail_def
          update_def setImage_def cacheInv_def cache_ordered_snoc list_ex_iff neq_Nil_conv)
  qed
qed

lemma cache_create: "keeps cacheR (containerCreate w)"
  by (auto simp: keeps_def containerCreate_def reading_def andThen_def call_def Let_def orFail_def update_def ret_def
      fail_def addTmp_def cacheR_def cacheInv_def cache_ordered_snoc split: sum.split prod.split)

lemma cache_clear: "cacheR b (clearLoop w cs b)"
proof (induction cs arbitrary: b)
  case (Cons c cs)
  let ?r = "wRemove w (trace b) c"
  have "cacheR b (b\<lparr>trace := trace b @ [Remove c ?r]\<rparr>)" by (simp add: cacheR_def cacheInv_other)
  moreover have "cacheR (b\<lparr>trace := trace b @ [Remove c ?r]\<rparr>)
      (b\<lparr>trace := trace b @ [Remove c ?r], tmpContainers := mdel c (tmpContainers b)\<rparr>)"
    by (simp add: cacheR_def cacheInv_def)
  moreover note Cons.IH [of "b\<lparr>trace := trace b @ [Remove c ?r], tmpContainers := mdel c (tmpContainers b)\<rparr>"]
  ultimately show ?case by (cases ?r) (auto simp: Let_def cacheR_def)
qed (simp add: cacheR_def)

interpretation cache: frame cacheR
  by unfold_locales (auto simp: cacheR_def)

lemma cache_call:
  "case e of Probe _ _ _ \<Rightarrow> False | CreateContainer _ _ \<Rightarrow> False | Remove _ _ \<Rightarrow> False | _ \<Rightarrow> True \<Longrightarrow>
     cacheR b (b\<lparr>trace := trace b @ [e]\<rparr>)"
  by (cases e) (simp_all add: cacheR_def cacheInv_other)

lemma cache_same:
  "trace b' = trace b \<Longrightarrow> cacheBusted b' = cacheBusted b \<Longrightarrow> cacheR b b'"
  by (simp add: cacheR_def cacheInv_def)

interpretation caching: whole_frame cacheR w for w :: world
  by unfold_locales
    (auto intro: cache_same cache_probe cache_create cache_clear cache_call
      simp: configure_def setImage_def useImage_def split: prod.split)

text \<open>
  After a step that the cache does not have, no later step of the build asks the cache, on
  every path of the build.
\<close>

theorem cache_not_asked_after_miss:
  assumes "trace (snd (build w ast tags (NewBuilder opts ctx))) = xs @ Probe i cfg (Inr []) # ys"
  shows "\<not> list_ex is_probe ys"
proof -
  have "cacheR (NewBuilder opts ctx) (snd (build w ast tags (NewBuilder opts ctx)))"
    using caching.keeps_build unfolding keeps_def by blast
  moreover have "cacheInv (NewBuilder opts ctx)" by (simp add: cacheInv_def NewBuilder_def)
  ultimately have "cache_ordered (trace (snd (build w ast tags (NewBuilder opts ctx))))"
    by (simp add: cacheR_def cacheInv_def)
  then show ?thesis using cache_ordered_split assms by (metis is_miss.simps(1))
qed

theorem cache_not_asked_after_miss_witness:
  "\<exists>xs i cfg ys. trace (snd sample_build) = xs @ Probe i cfg (Inr []) # ys \<and> \<not> list_ex is_probe ys"
proof -
  from sample_build_done(3) obtain e where e: "e \<in> set (trace (snd sample_build))"
      "case e of Probe _ _ (Inr []) \<Rightarrow> True | _ \<Rightarrow> False"
    by (auto simp: list_ex_iff)
  then obtain i cfg where "e = Probe i cfg (Inr [])" by (auto split: event.splits sum.splits list.splits)
  then obtain xs ys where s: "trace (snd sample_build) = xs @ Probe i cfg (Inr []) # ys"
    using e(1) by (meson split_list)
  then show ?thesis using cache_not_asked_after_miss [OF s [unfolded sample_build_def]] by blast
qed


subsection \<open>RUN and the build arguments\<close>

text \<open>A committed configuration has this environment and this command.\<close>

fun commits_with :: "string list \<Rightarrow> string list option \<Rightarrow> event \<Rightarrow> bool" where
  "commits_with e c (CommitContainer i m cfg r) \<longleftrightarrow> cEnv cfg = e \<and> cCmd cfg = c"
| "commits_with e c _ \<longleftrightarrow> True"

definition commitR :: "string list \<Rightarrow> string list option \<Rightarrow> builder \<Rightarrow> builder \<Rightarrow> bool" where
  "commitR e c b b' \<longleftrightarrow> (\<exists>tr. trace b' = trace b @ tr \<and> list_all (commits_with e c) tr)"

text \<open>The same where the environment is set, and stays.\<close>

definition commitEnvR :: "string list \<Rightarrow> string list option \<Rightarrow> builder \<Rightarrow> builder \<Rightarrow> bool" where
  "commitEnvR e c b b' \<longleftrightarrow> (cEnv (runConfig b) = e \<longrightarrow> cEnv (runConfig b') = e \<and> commitR e c b b')"

interpretation committed: frame "commitR e c" for e c
  by unfold_locales (auto simp: commitR_def)

interpretation committing: frame "commitEnvR e c" for e c
  by unfold_locales (auto simp: commitEnvR_def intro: committed.frame_refl committed.frame_trans)

lemma commit_other:
  "(\<And>x m cfg r. ev \<noteq> CommitContainer x m cfg r) \<Longrightarrow> commitR e c b (b\<lparr>trace := trace b @ [ev]\<rparr>)"
  by (cases ev) (auto simp: commitR_def)

lemma commit_same: "trace b' = trace b \<Longrightarrow> commitR e c b b'"
  by (simp add: commitR_def)

lemma commitEnv_other:
  "(\<And>x m cfg r. ev \<noteq> CommitContainer x m cfg r) \<Longrightarrow> commitEnvR e c b (b\<lparr>trace := trace b @ [ev]\<rparr>)"
  using commit_other by (simp add: commitEnvR_def)

lemma commitEnv_same:
  "trace b' = trace b \<Longrightarrow> cEnv (runConfig b') = cEnv (runConfig b) \<Longrightarrow> commitEnvR e c b b'"
  by (simp add: commitEnvR_def commit_same)

lemmas commitEnv_parts = committing.keeps_seq committing.keeps_call committing.keeps_update commitEnv_other commitEnv_same

lemma commitEnv_probe: "keeps (commitEnvR e c) (probeCache w)"
  unfolding probeCache_def by (intro commitEnv_parts) (simp_all add: setImage_def)

lemma commitEnv_containerCreate: "keeps (commitEnvR e c) (containerCreate w)"
  unfolding containerCreate_def by (intro commitEnv_parts) (simp_all add: addTmp_def)

lemma commitEnv_create: "keeps (commitEnvR e c) (create w)"
  unfolding create_def
  by (intro commitEnv_containerCreate commitEnv_parts) (simp_all add: configure_def)

lemma commitEnv_commitContainer: "keeps (commitEnvR e c) (commitContainer w i c)"
  by (auto simp: keeps_def commitContainer_def reading_def andThen_def call_def Let_def orFail_def fail_def ret_def
      update_def setImage_def commitEnvR_def commitR_def split: sum.split prod.split)

lemma commitEnv_commit: "keeps (commitEnvR e c) (commit w i c comment)"
  unfolding commit_def
  by (intro commitEnv_probe commitEnv_create commitEnv_commitContainer commitEnv_parts)
    (simp_all add: configure_def setCmd_def)

lemma committed_final: "keeps (commitR e c) (andThen (update (setEnv e \<circ> setCmd x)) (\<lambda>_. commit w i c comment))"
proof (unfold keeps_def, intro allI)
  fix b
  let ?b = "setEnv e (setCmd x b)"
  have "commitEnvR e c ?b (snd (commit w i c comment ?b))" using commitEnv_commit unfolding keeps_def by blast
  then have "commitR e c ?b (snd (commit w i c comment ?b))" by (simp add: commitEnvR_def setEnv_def configure_def)
  moreover have "commitR e c b ?b" by (rule commit_same) (simp add: setEnv_def setCmd_def configure_def)
  ultimately show "commitR e c b (snd (andThen (update (setEnv e \<circ> setCmd x)) (\<lambda>_. commit w i c comment) b))"
    using committed.frame_trans by (simp add: andThen_def update_def)
qed

lemmas committed_parts = committed.keeps_seq committed.keeps_call committed.keeps_update commit_other commit_same

lemma committed_probe: "keeps (commitR e c) (probeCache w)"
  unfolding probeCache_def by (intro committed_parts) (simp_all add: setImage_def)

lemma committed_create: "keeps (commitR e c) (create w)"
  unfolding create_def containerCreate_def by (intro committed_parts) (simp_all add: addTmp_def configure_def)

lemma committed_runContainer: "keeps (commitR e c) (runContainer w i)"
  unfolding runContainer_def by (intro committed_parts) simp_all

lemma parseFlags_same:
  "trace (snd (parseFlags b)) = trace b \<and> runConfig (snd (parseFlags b)) = runConfig b"
  by (simp add: parseFlags_def split: prod.split option.split)



subsection \<open>ENV, from the line to the environment\<close>

lemma stopOn_end:
  "plain s \<Longrightarrow> length s < n \<Longrightarrow>
   \<exists>ws. stopOn n envs None acc w s = Some (Inr ((acc @ s, ws), []))"
proof (induction s arbitrary: n acc w)
  case Nil
  then show ?case by (cases n) simp_all
next
  case (Cons c s)
  then obtain m where "n = Suc m" "length s < m" by (cases n) auto
  with Cons.prems Cons.IH [of m "acc @ [c]" "addChar c w"] show ?case by (simp add: plain_def)
qed

lemma ProcessWord_plain: "plain s \<Longrightarrow> ProcessWord s envs = Some (Inr s)"
  using stopOn_end [of s "Suc (length s)" envs "[]" emptyWords] by (auto simp: ProcessWord_def process_def)

lemma expandArgs_plain:
  assumes "cmd \<notin> set allowWordExpansion"
  shows "list_all plain vs \<Longrightarrow> expandArgs cmd envs vs = Inr vs"
proof (induction vs)
  case (Cons v vs)
  then show ?case using assms by (simp add: ProcessWord_plain wordResult_def)
qed simp

lemma nextValues_chain: "nextValues (Node v (chain vs) cs js orig fl s e) = vs"
proof (induction vs arbitrary: v cs js orig fl s e)
  case (Cons x xs)
  then show ?case by (simp add: leaf_def)
qed simp

lemma getEnv_putEnv:
  assumes "CHR ''='' \<notin> set name"
  shows "getEnv (putEnv env name (keyVal name v)) k = (if k = name then v else getEnv env k)"
  using assms by (induction env) (auto simp: keyVal_def)

text \<open>The last binding of a name wins.\<close>

definition bound :: "(string \<times> string) list \<Rightarrow> string list \<Rightarrow> string \<Rightarrow> string" where
  "bound kvs env k = (case map_of (rev kvs) k of Some v \<Rightarrow> v | None \<Rightarrow> getEnv env k)"

lemma getEnv_envPairs:
  "\<forall>kv \<in> set kvs. CHR ''='' \<notin> set (fst kv) \<Longrightarrow>
     getEnv (envPairs env (concat (map (\<lambda>(k, v). [k, v]) kvs))) k = bound kvs env k"
proof (induction kvs arbitrary: env)
  case (Cons kv kvs)
  obtain x v where kv: "kv = (x, v)" by (cases kv)
  have "getEnv (envPairs env (concat (map (\<lambda>(k, v). [k, v]) (kv # kvs)))) k = bound kvs (putEnv env x (keyVal x v)) k"
    using Cons by (simp add: kv)
  also have "\<dots> = bound (kv # kvs) env k"
    using getEnv_putEnv [of x env v k] Cons.prems kv
    by (auto simp: bound_def map_add_def split: option.split)
  finally show ?case .
qed (simp add: bound_def)

lemma commitConfig_env: "cEnv (runConfig (snd (commitConfig w comment b))) = cEnv (runConfig b)"
proof -
  have "commitEnvR (cEnv (runConfig b)) (cCmd (runConfig b)) b (snd (commit w [] (cCmd (runConfig b)) comment b))"
    using commitEnv_commit unfolding keeps_def by blast
  then show ?thesis by (simp add: commitConfig_def reading_def commitEnvR_def)
qed

lemma parseFlags_none: "bf_Args (flags b) = [] \<Longrightarrow> bf_Err (flags b) = None \<Longrightarrow> parseFlags b = (Done (), b)"
  by (simp add: parseFlags_def parseBFlags_def)

lemma env_instr_env:
  assumes "args \<noteq> []" "even (length args)" "bf_Args (flags b) = []" "bf_Err (flags b) = None"
  shows "cEnv (runConfig (snd (env_instr w args b))) = envPairs (cEnv (runConfig b)) args"
  using assms commitConfig_env
  by (simp add: env_instr_def andThen_def parseFlags_none update_def configure_def)

text \<open>
  C29: An \<^verbatim>\<open>ENV\<close> line sets what it says: for pairs of a name and a value without quotes, escapes
  or variables, the line parses, and executing it gives an environment in which each name has its
  last value on the line and every other variable is unchanged, whether the commit succeeds or not.
\<close>

theorem env_line_sets_variables:
  assumes "kvs \<noteq> []" "list_all binding_ok kvs" "list_all (\<lambda>kv. plain (fst kv) \<and> plain (snd kv)) kvs"
  shows "\<exists>n. parseLine json (''ENV '' @ join CHR '' '' (map binding kvs)) = Inr ([], Some n)
    \<and> (\<forall>k. getEnv (cEnv (runConfig (snd (dispatchNode w fromH n b)))) k = bound kvs (cEnv (runConfig b)) k)"
proof -
  let ?args = "concat (map (\<lambda>(k, v). [k, v]) kvs)"
  let ?n = "Node ''env'' (chain ?args) [] False (''ENV '' @ join CHR '' '' (map binding kvs)) [] 0 0"
  let ?b = "b\<lparr>flags := NewBFlags\<lparr>bf_Args := []\<rparr>\<rparr>"
  have parse: "parseLine json (''ENV '' @ join CHR '' '' (map binding kvs)) = Inr ([], Some ?n)"
    by (rule parseLine_env [OF assms(1,2)])
  have "list_all plain ?args" using assms(3) by (induction kvs) (auto split: prod.splits)
  then have expand: "expandArgs ''env'' envs ?args = Inr ?args" for envs
    by (intro expandArgs_plain) (simp_all add: allowWordExpansion_def)
  have args: "?args \<noteq> []" using assms(1) by (cases kvs) auto
  have "even (length ?args)" by (induction kvs) (auto split: prod.splits)
  then have env: "cEnv (runConfig (snd (env_instr w ?args ?b))) = envPairs (cEnv (runConfig b)) ?args"
    using env_instr_env [OF args, of ?b w] by (simp add: NewBFlags_def)
  have "dispatchNode w fromH ?n b = env_instr w ?args ?b"
    unfolding dispatchNode_def reading_def argumentNode_def
    by (simp add: andThen_def lift_def nextValues_chain expand orFail_def ret_def update_def evaluate_def)
  moreover have "\<forall>kv \<in> set kvs. CHR ''='' \<notin> set (fst kv)"
    using assms(2) by (auto simp: binding_ok_def list_all_iff)
  ultimately show ?thesis using parse env getEnv_envPairs by auto
qed

theorem env_line_sets_variables_witness:
  "\<exists>n. parseLine (\<lambda>_. None) (''ENV '' @ join CHR '' '' (map binding [(''a'', ''1''), (''b'', ''2''), (''a'', ''3'')])) = Inr ([], Some n)
    \<and> getEnv (cEnv (runConfig (snd (dispatchNode sample_world noFrom n (NewBuilder sample_options True))))) ''a'' = ''3''"
proof -
  let ?kvs = "[(''a'', ''1''), (''b'', ''2''), (''a'', ''3'')]"
  have "list_all bare_char v \<Longrightarrow> plain_word v" for v unfolding plain_word_def by (intro exI [of _ v] exI [of _ "[]"]) simp
  moreover have "list_all bare_char ''1''" "list_all bare_char ''2''" "list_all bare_char ''3''"
    "list_all (\<lambda>c. bare_char c \<and> c \<noteq> CHR ''='' \<and> c \<noteq> CHR ''-'') ''a''"
    "list_all (\<lambda>c. bare_char c \<and> c \<noteq> CHR ''='' \<and> c \<noteq> CHR ''-'') ''b''" by code_simp+
  ultimately have ok: "list_all binding_ok ?kvs" by (simp add: binding_ok_def)
  have pl: "list_all (\<lambda>kv. plain (fst kv) \<and> plain (snd kv)) ?kvs" by (simp add: plain_def)
  have "bound ?kvs env ''a'' = ''3''" for env by (simp add: bound_def)
  then show ?thesis
    using env_line_sets_variables [OF _ ok pl, of "\<lambda>_. None" sample_world noFrom "NewBuilder sample_options True"] by auto
qed

subsection \<open>A comment after ONBUILD\<close>

lemma ws_split2_onbuild:
  "t = [] \<or> \<not> token_ws (hd t) \<Longrightarrow> ws_split2 (''ONBUILD '' @ t) = [''ONBUILD'', t]"
  by (cases t) (simp_all add: ws_split2_def token_ws_def)

text \<open>
  A line \<^verbatim>\<open>ONBUILD # text\<close> parses, to a node with a \<^verbatim>\<open>nil\<close> child, and executing it panics: the
  builder reads the value of the child without a check.
\<close>

theorem onbuild_comment_panics:
  assumes "t \<noteq> []" "\<not> ascii_space (last t)" "last t \<noteq> CHR 0x5C"
  shows "\<exists>n. parseLine json (''ONBUILD #'' @ t) = Inr ([], Some n)
    \<and> fst (dispatchNode w fromH n b) = Panicked ''nil pointer dereference''"
proof -
  let ?l = "''ONBUILD #'' @ t" let ?c = "CHR ''#'' # t"
  have blank: "trimBlanks ?l = ?l"
    using assms by (cases t rule: rev_cases) (auto simp: trimBlanks_def ascii_space_def)
  have line: "stripComments ?l = ?l" "\<not> continued ?l"
    using assms unfolding continued_def blank by (simp_all add: stripComments_def)
  have "trim_space ?l = ?l" "trim_space ?c = ?c"
    unfolding trim_space_def using assms by (auto intro!: trim_by_id) (simp_all add: ascii_space_def)
  moreover have "ws_split2 ?l = [''ONBUILD'', ?c]"
    using ws_split2_onbuild [of ?c] by (simp add: token_ws_def)
  moreover have "extractBuilderFlags ?c = (?c, [])"
    by (simp add: extractBuilderFlags_def is_space_def ascii_space_def)
  moreover have "to_lower ''ONBUILD'' = ''onbuild''" by code_simp
  ultimately have split: "splitCommand ?l = (''onbuild'', [], ?c)" by (simp add: splitCommand_def)
  have "parseLine json ?c = Inr ([], None)" by (simp add: parseLine_step stripComments_def)
  then have "parseLine json ?l =
      Inr ([], Some (Node ''onbuild'' (Some (Node [] None [None] False [] [] 0 0)) [] False ?l [] 0 0))"
    unfolding parseLine_step [of json ?l] line(1) Let_def using line(2) split by (simp add: fullDispatch_def)
  then show ?thesis by (auto simp: dispatchNode_def reading_def argumentNode_def andThen_def lift_def)
qed

theorem onbuild_comment_panics_witness:
  "\<exists>n. parseLine (\<lambda>_. None) (''ONBUILD #'' @ ''x'') = Inr ([], Some n)
    \<and> fst (dispatchNode sample_world noFrom n (NewBuilder sample_options True)) = Panicked ''nil pointer dereference''"
  by (rule onbuild_comment_panics) (simp_all add: ascii_space_def)

end
