(* ===== verification/Stdcopy.thy ===== *)
theory Stdcopy
  imports Go_Prelude
begin

section \<open>The multiplexed output stream (\<^verbatim>\<open>pkg/stdcopy/stdcopy.go\<close>)\<close>

text \<open>
  A writer of a stream puts a header before each block: the number of the stream and the length as
  a 32-bit big-endian number.  \<open>StdCopy\<close> reads such a stream, in whatever pieces the reader hands it
  out, and writes the blocks to two outputs.  Lengths are kept at their 32 bits; a reader is the
  list of the pieces its reads return and the way it ends.
\<close>

unbundle bit_operations_syntax

type_synonym byte = "8 word"

datatype read_error = EOF | ReadError string

datatype copy_error = WriterError string | UnrecognizedHeader byte | ShortWrite | ReaderError string

definition stdWriterPrefixLen :: nat where
  "stdWriterPrefixLen = 8"

definition startingBufLen :: nat where
  "startingBufLen = 32 * 1024 + stdWriterPrefixLen + 1"

text \<open>\<^verbatim>\<open>binary.BigEndian\<close> on 32 bits.\<close>

definition PutUint32 :: "32 word \<Rightarrow> byte list" where
  "PutUint32 v = [ucast (drop_bit 24 v), ucast (drop_bit 16 v), ucast (drop_bit 8 v), ucast v]"

definition Uint32 :: "byte list \<Rightarrow> 32 word" where
  "Uint32 b = ucast (b ! 3) OR push_bit 8 (ucast (b ! 2)) OR push_bit 16 (ucast (b ! 1)) OR push_bit 24 (ucast (b ! 0))"

definition frame :: "byte \<Rightarrow> byte list \<Rightarrow> byte list" where
  "frame prefix buf = [prefix, 0, 0, 0] @ PutUint32 (of_nat (length buf)) @ buf"

text \<open>
  \<^verbatim>\<open>stdWriter.Write\<close>: the writer and the buffer may be nil.  The writer below answers how much of the
  line it took and with which error; the result has the bytes that went out as well.
\<close>

definition stdWrite ::
    "(byte list \<Rightarrow> nat \<times> string option) option \<Rightarrow> byte \<Rightarrow> byte list option \<Rightarrow> nat \<times> string option \<times> byte list" where
  "stdWrite writer prefix buf =
     (case writer of
        None \<Rightarrow> (0, Some ''Writer not instantiated'', [])
      | Some w \<Rightarrow>
          (case buf of
             None \<Rightarrow> (0, None, [])
           | Some b \<Rightarrow>
               (let line = frame prefix b in
                case w line of (n, err) \<Rightarrow> (n - stdWriterPrefixLen, err, take n line))))"

subsection \<open>Readers\<close>

text \<open>
  The pieces, and the last piece, which comes with the end of the stream or an error: a read may
  return bytes and the end at once.
\<close>

record reader =
  pieces :: "byte list list"
  lastPiece :: "byte list"
  ending :: read_error

definition Read :: "nat \<Rightarrow> reader \<Rightarrow> byte list \<times> read_error option \<times> reader" where
  "Read n rd =
     (case pieces rd of
        p # ps \<Rightarrow>
          if length p \<le> n then (p, None, rd\<lparr>pieces := ps\<rparr>)
          else (take n p, None, rd\<lparr>pieces := drop n p # ps\<rparr>)
      | [] \<Rightarrow>
          if length (lastPiece rd) \<le> n then (lastPiece rd, Some (ending rd), rd\<lparr>lastPiece := []\<rparr>)
          else (take n (lastPiece rd), None, rd\<lparr>lastPiece := drop n (lastPiece rd)\<rparr>))"

text \<open>
  The two reading loops of \<open>StdCopy\<close>: read into the free part of the buffer until enough bytes are
  there.  A read into no space would never end.
\<close>

partial_function (option) readUntil ::
    "nat \<Rightarrow> nat \<Rightarrow> byte list \<Rightarrow> reader \<Rightarrow> (byte list \<times> read_error option \<times> reader) option" where
  "readUntil need bufLen buf rd =
     (if need \<le> length buf then Some (buf, None, rd)
      else
        case Read (bufLen - length buf) rd of
          (b, None, rd1) \<Rightarrow> readUntil need bufLen (buf @ b) rd1
        | (b, Some e, rd1) \<Rightarrow> Some (buf @ b, Some e, rd1))"

declare readUntil.simps [code]

record copy_state =
  toOut :: "byte list"
  toErr :: "byte list"
  written :: nat

type_synonym copy_result = "(copy_error, nat) result \<times> copy_state"

definition select :: "byte \<Rightarrow> bool option" where
  "select b = (if b = 0 \<or> b = 1 then Some True else if b = 2 then Some False else None)"

definition emit :: "bool \<Rightarrow> byte list \<Rightarrow> copy_state \<Rightarrow> copy_state" where
  "emit out bs st = (if out then st\<lparr>toOut := toOut st @ bs\<rparr> else st\<lparr>toErr := toErr st @ bs\<rparr>)"

partial_function (option) copyLoop ::
    "(bool \<Rightarrow> byte list \<Rightarrow> nat \<times> string option) \<Rightarrow> nat \<Rightarrow> byte list \<Rightarrow> reader \<Rightarrow> copy_state \<Rightarrow> copy_result option" where
  "copyLoop sink bufLen buf rd st =
     Option.bind (readUntil stdWriterPrefixLen bufLen buf rd) (\<lambda>(buf1, er1, rd1).
       case er1 of
         Some (ReadError x) \<Rightarrow> Some (Inl (ReaderError x), st)
       | _ \<Rightarrow>
         if length buf1 < stdWriterPrefixLen then Some (Inr (written st), st)
         else
           (case select (buf1 ! 0) of
              None \<Rightarrow> Some (Inl (UnrecognizedHeader (buf1 ! 0)), st)
            | Some out \<Rightarrow>
                (let frameSize = unat (Uint32 (take 4 (drop 4 buf1)));
                     bufLen1 = (if frameSize + stdWriterPrefixLen > bufLen then frameSize + stdWriterPrefixLen + 1 else bufLen) in
                 Option.bind (readUntil (frameSize + stdWriterPrefixLen) bufLen1 buf1 rd1) (\<lambda>(buf2, er2, rd2).
                   case er2 of
                     Some (ReadError x) \<Rightarrow> Some (Inl (ReaderError x), st)
                   | _ \<Rightarrow>
                     if length buf2 < frameSize + stdWriterPrefixLen then Some (Inr (written st), st)
                     else
                       let payload = take frameSize (drop stdWriterPrefixLen buf2) in
                       (case sink out payload of
                          (nw, ew) \<Rightarrow>
                            let st1 = emit out (take nw payload) st in
                            (case ew of
                               Some x \<Rightarrow> Some (Inl (WriterError x), st1)
                             | None \<Rightarrow>
                                 if nw \<noteq> frameSize then Some (Inl ShortWrite, st1)
                                 else
                                   copyLoop sink bufLen1 (drop (frameSize + stdWriterPrefixLen) buf2) rd2
                                     (st1\<lparr>written := written st1 + nw\<rparr>)))))))"

declare copyLoop.simps [code]

definition StdCopy :: "(bool \<Rightarrow> byte list \<Rightarrow> nat \<times> string option) \<Rightarrow> reader \<Rightarrow> copy_result option" where
  "StdCopy sink rd = copyLoop sink startingBufLen [] rd \<lparr>toOut = [], toErr = [], written = 0\<rparr>"

subsection \<open>Headers\<close>

lemma Uint32_PutUint32 [simp]: "Uint32 (PutUint32 v) = v"
proof (rule bit_word_eqI)
  fix n assume n: "n < LENGTH(32)"
  then consider "n < 8" | "8 \<le> n" "n < 16" | "16 \<le> n" "n < 24" | "24 \<le> n" "n < 32" by fastforce
  then show "bit (Uint32 (PutUint32 v)) n = bit v n"
    by cases (use n in \<open>auto simp: Uint32_def PutUint32_def bit_or_iff bit_push_bit_iff bit_ucast_iff bit_drop_bit_eq\<close>)
qed

lemma length_PutUint32 [simp]: "length (PutUint32 v) = 4"
  by (simp add: PutUint32_def)

lemma length_frame [simp]: "length (frame p b) = 8 + length b"
  by (simp add: frame_def)


definition known :: "byte \<times> byte list \<Rightarrow> bool" where
  "known w \<longleftrightarrow> fst w \<in> {0, 1, 2} \<and> length (snd w) < 2 ^ 32"

lemma header_of:
  assumes "b @ c = frame t buf @ y" "8 \<le> length b" "length buf < 2 ^ 32"
  shows "b ! 0 = t" "unat (Uint32 (take 4 (drop 4 b))) = length buf"
proof -
  have "take 8 (b @ c) = take 8 b" using assms(2) by simp
  moreover have "take 8 (frame t buf @ y) = [t, 0, 0, 0] @ PutUint32 (of_nat (length buf))"
    by (simp add: frame_def)
  ultimately have t8: "take 8 b = [t, 0, 0, 0] @ PutUint32 (of_nat (length buf))" using assms(1) by simp
  have "b ! 0 = take 8 b ! 0" by simp
  then show "b ! 0 = t" by (simp add: t8)
  have "take 4 (drop 4 b) = drop 4 (take 8 b)" by (simp add: drop_take)
  then have "Uint32 (take 4 (drop 4 b)) = of_nat (length buf)" by (simp add: t8)
  then show "unat (Uint32 (take 4 (drop 4 b))) = length buf"
    using assms(3) by (simp add: unat_of_nat)
qed

subsection \<open>Reading in pieces\<close>

definition content :: "reader \<Rightarrow> byte list" where
  "content rd = concat (pieces rd) @ lastPiece rd"

lemma Read_content:
  assumes "Read n rd = (b, e, rd')"
  shows "content rd = b @ content rd'" "ending rd' = ending rd"
    "e \<noteq> None \<Longrightarrow> e = Some (ending rd) \<and> content rd' = []"
    "e = None \<Longrightarrow> 0 < n \<Longrightarrow>
       length (content rd') + length (pieces rd') < length (content rd) + length (pieces rd)"
  using assms
  by (auto simp: Read_def content_def split: list.splits if_splits)

lemma readUntil_returns:
  assumes "need \<le> bufLen"
  shows "\<exists>b e rd'. readUntil need bufLen buf rd = Some (b, e, rd')
    \<and> buf @ content rd = b @ content rd' \<and> ending rd' = ending rd
    \<and> (e = None \<longrightarrow> need \<le> length b) \<and> (e \<noteq> None \<longrightarrow> e = Some (ending rd) \<and> content rd' = [])"
proof (induction "length (content rd) + length (pieces rd)" arbitrary: buf rd rule: less_induct)
  case less
  show ?case
  proof (cases "need \<le> length buf")
    case True
    then show ?thesis by (simp add: readUntil.simps)
  next
    case False
    obtain b e rd1 where r: "Read (bufLen - length buf) rd = (b, e, rd1)" by (cases "Read (bufLen - length buf) rd")
    note c = Read_content [OF r]
    have pos: "0 < bufLen - length buf" using False assms by simp
    show ?thesis
    proof (cases e)
      case None
      from less [OF c(4) [OF None pos], of "buf @ b"] show ?thesis
        using False r None c(1,2) by (subst readUntil.simps) simp
    next
      case (Some x)
      then show ?thesis using False r c(1,2) c(3) by (subst readUntil.simps) simp
    qed
  qed
qed

subsection \<open>The round trip\<close>

definition stdoutOf :: "(byte \<times> byte list) list \<Rightarrow> byte list" where
  "stdoutOf ws = concat (map snd (filter (\<lambda>w. fst w \<noteq> 2) ws))"

definition stderrOf :: "(byte \<times> byte list) list \<Rightarrow> byte list" where
  "stderrOf ws = concat (map snd (filter (\<lambda>w. fst w = 2) ws))"

definition stream :: "(byte \<times> byte list) list \<Rightarrow> byte list" where
  "stream ws = concat (map (\<lambda>(t, b). snd (snd (stdWrite (Some (\<lambda>l. (length l, None))) t (Some b)))) ws)"

lemma stream_simps [simp]: "stream [] = []" "stream (w # ws) = frame (fst w) (snd w) @ stream ws"
  by (simp_all add: stream_def stdWrite_def Let_def split: prod.split)

definition cut_frame :: "byte list \<Rightarrow> bool" where
  "cut_frame rest \<longleftrightarrow> (\<exists>w x. known w \<and> x \<noteq> [] \<and> rest @ x = frame (fst w) (snd w))"

definition received :: "(byte \<times> byte list) list \<Rightarrow> copy_state \<Rightarrow> copy_state" where
  "received ws st = \<lparr>toOut = toOut st @ stdoutOf ws, toErr = toErr st @ stderrOf ws,
     written = written st + length (concat (map snd ws))\<rparr>"

lemma received_Nil [simp]: "received [] st = st"
  by (simp add: received_def stdoutOf_def stderrOf_def)

lemma received_Cons:
  "received (w # ws) st =
     received ws ((emit (fst w \<noteq> 2) (snd w) st)\<lparr>written := written (emit (fst w \<noteq> 2) (snd w) st) + length (snd w)\<rparr>)"
  by (simp add: received_def stdoutOf_def stderrOf_def emit_def)

lemma select_known: "known w \<Longrightarrow> select (fst w) = Some (fst w \<noteq> 2)"
  by (auto simp: known_def select_def)

lemma copyLoop_cut:
  assumes "ending rd = EOF" "8 \<le> bufLen" "buf @ content rd = rest" "cut_frame rest"
  shows "copyLoop sink bufLen buf rd st = Some (Inr (written st), st)"
proof -
  obtain b e rd1 where r: "readUntil 8 bufLen buf rd = Some (b, e, rd1)"
      "buf @ content rd = b @ content rd1" "ending rd1 = EOF"
      "e = None \<longrightarrow> 8 \<le> length b" "e \<noteq> None \<longrightarrow> e = Some EOF \<and> content rd1 = []"
    using readUntil_returns [OF assms(2), of buf rd] assms(1) by auto
  show ?thesis
  proof (cases "8 \<le> length b")
    case False
    then show ?thesis using r by (subst copyLoop.simps) (auto simp: stdWriterPrefixLen_def)
  next
    case True
    from assms(4) obtain w x where w: "known w" "x \<noteq> []" "rest @ x = frame (fst w) (snd w)"
      by (auto simp: cut_frame_def)
    have "b @ content rd1 @ x = frame (fst w) (snd w) @ []"
      using assms(3) r(2) w(3) by (metis append.assoc append_Nil2)
    note h = header_of [OF this True] w(1)
    let ?n = "length (snd w) + 8"
    let ?len = "if bufLen < ?n then ?n + 1 else bufLen"
    have "?n \<le> ?len" by simp
    from readUntil_returns [OF this, of b rd1] obtain b2 e2 rd2 where
      r2: "readUntil ?n ?len b rd1 = Some (b2, e2, rd2)" "b @ content rd1 = b2 @ content rd2"
        "e2 \<noteq> None \<longrightarrow> e2 = Some EOF" using r(3) by auto
    have "length rest < ?n" using w(2,3) by (metis add.commute length_append length_frame length_greater_0_conv less_add_same_cancel1)
    then have "length b2 < ?n" using r(2) r2(2) assms(3) by (metis length_append trans_le_add1 not_less)
    then show ?thesis
      using r True r2 h select_known [OF w(1)]
      by (subst copyLoop.simps) (auto simp: stdWriterPrefixLen_def known_def Let_def)
  qed
qed

lemma copyLoop_frame:
  assumes "ending rd = EOF" "8 \<le> bufLen" "buf @ content rd = frame (fst w) (snd w) @ rest" "known w"
    and sink: "\<And>o' b. sink o' b = (length b, None)"
  shows "\<exists>len buf' rd'. ending rd' = EOF \<and> 8 \<le> len \<and> buf' @ content rd' = rest
    \<and> copyLoop sink bufLen buf rd st = copyLoop sink len buf' rd' (received [w] st)"
proof -
  obtain b e rd1 where r: "readUntil 8 bufLen buf rd = Some (b, e, rd1)"
      "buf @ content rd = b @ content rd1" "ending rd1 = EOF"
      "e = None \<longrightarrow> 8 \<le> length b" "e \<noteq> None \<longrightarrow> e = Some EOF \<and> content rd1 = []"
    using readUntil_returns [OF assms(2), of buf rd] assms(1) by auto
  have len: "8 \<le> length b"
  proof (cases e)
    case (Some x)
    then have "b = frame (fst w) (snd w) @ rest" using r assms(3) by simp
    then show ?thesis by simp
  qed (use r in simp)
  have eq: "b @ content rd1 = frame (fst w) (snd w) @ rest" using assms(3) r(2) by simp
  note h = header_of [OF eq len]
  let ?n = "length (snd w) + 8"
  let ?len = "if bufLen < ?n then ?n + 1 else bufLen"
  have "?n \<le> ?len" by simp
  from readUntil_returns [OF this, of b rd1] r(3) obtain b2 e2 rd2 where
    r2: "readUntil ?n ?len b rd1 = Some (b2, e2, rd2)" "b @ content rd1 = b2 @ content rd2" "ending rd2 = EOF"
      "e2 = None \<longrightarrow> ?n \<le> length b2" "e2 \<noteq> None \<longrightarrow> e2 = Some EOF \<and> content rd2 = []" by auto
  have len2: "?n \<le> length b2"
  proof (cases e2)
    case (Some x)
    then have "b2 = frame (fst w) (snd w) @ rest" using r2 eq by simp
    then show ?thesis by simp
  qed (use r2 in simp)
  have eq2: "b2 @ content rd2 = frame (fst w) (snd w) @ rest" using r2(2) eq by simp
  have "take ?n (b2 @ content rd2) = frame (fst w) (snd w)" unfolding eq2 by simp
  then have b2: "take ?n b2 = frame (fst w) (snd w)" using len2 by simp
  have pay: "take (length (snd w)) (drop 8 b2) = snd w"
    using arg_cong [OF b2, of "drop 8"] by (simp add: drop_take frame_def)
  have rest: "drop ?n b2 @ content rd2 = rest"
  proof -
    have "drop ?n (b2 @ content rd2) = rest" unfolding eq2 by simp
    then show ?thesis using len2 by simp
  qed
  have "copyLoop sink bufLen buf rd st = copyLoop sink ?len (drop ?n b2) rd2 (received [w] st)"
    using r len r2 len2 h select_known [OF assms(4)] assms(4) pay sink received_Cons [of w "[]"]
    by (subst copyLoop.simps) (auto simp: stdWriterPrefixLen_def known_def Let_def)
  then show ?thesis using r2(3) rest assms(2) by (intro exI conjI) auto
qed

lemma copyLoop_stream:
  assumes sink: "\<And>o' b. sink o' b = (length b, None)" and "list_all known ws" "cut_frame rest"
  shows "ending rd = EOF \<Longrightarrow> 8 \<le> bufLen \<Longrightarrow> buf @ content rd = stream ws @ rest \<Longrightarrow>
    copyLoop sink bufLen buf rd st = Some (Inr (written (received ws st)), received ws st)"
  using assms(2)
proof (induction ws arbitrary: buf rd bufLen st)
  case Nil
  then show ?case using copyLoop_cut [OF _ _ _ assms(3)] by simp
next
  case (Cons w ws)
  have "buf @ content rd = frame (fst w) (snd w) @ stream ws @ rest"
    using Cons.prems(3) by simp
  from copyLoop_frame [OF Cons.prems(1,2) this _, where sink = sink and st = st] sink Cons.prems(4) obtain len buf' rd' where
    n: "ending rd' = EOF" "8 \<le> len" "buf' @ content rd' = stream ws @ rest"
      "copyLoop sink bufLen buf rd st = copyLoop sink len buf' rd' (received [w] st)"
    by auto
  moreover have "received (w # ws) st = received ws (received [w] st)" by (simp add: received_Cons)
  ultimately show ?case using Cons.IH [OF n(1-3)] Cons.prems(4) by simp
qed

text \<open>
  C35: Demultiplexing undoes multiplexing.  Whatever pieces the reader hands out, what the writers of the
  two outputs send for blocks below 4 GB, complete or cut anywhere inside a last block, is copied to the end: each output
  receives its complete blocks in order, the bytes are counted, and no error is reported.
\<close>

theorem stdcopy_roundtrip:
  assumes "\<And>o' b. sink o' b = (length b, None)" "ending rd = EOF"
    and "list_all known ws" "cut_frame rest" "content rd = stream ws @ rest"
  shows "StdCopy sink rd =
    Some (Inr (length (concat (map snd ws))),
      \<lparr>toOut = stdoutOf ws, toErr = stderrOf ws, written = length (concat (map snd ws))\<rparr>)"
proof -
  have "8 \<le> startingBufLen" by (simp add: startingBufLen_def stdWriterPrefixLen_def)
  from copyLoop_stream [OF assms(1) assms(3,4) assms(2) this, of "[]"] show ?thesis
    using assms(5) by (simp add: StdCopy_def received_def)
qed

lemma cut_frame_Nil: "cut_frame []"
  unfolding cut_frame_def by (intro exI [of _ "(0, [])"] exI [of _ "frame 0 []"]) (simp add: known_def frame_def)

theorem stdcopy_roundtrip_witness:
  "StdCopy (\<lambda>_ b. (length b, None)) \<lparr>pieces = [[1, 0, 0], [0, 0, 0, 0, 2, 65, 66, 2, 0]], lastPiece = [0, 0, 0, 0, 0, 1, 67], ending = EOF\<rparr>
    = Some (Inr 3, \<lparr>toOut = [65, 66], toErr = [67], written = 3\<rparr>)"
proof -
  let ?rd = "\<lparr>pieces = [[1, 0, 0], [0, 0, 0, 0, 2, 65, 66, 2, 0]], lastPiece = [0, 0, 0, 0, 0, 1, 67], ending = EOF\<rparr>"
  have "content ?rd = stream [(1, [65, 66]), (2, [67])] @ []"
    by (simp add: content_def frame_def PutUint32_def)
  moreover have "list_all known [(1, [65, 66]), (2, [67])]" by (simp add: known_def)
  ultimately show ?thesis
    using stdcopy_roundtrip [of "\<lambda>_ b. (length b, None)" ?rd "[(1, [65, 66]), (2, [67])]" "[]"] cut_frame_Nil
    by (simp add: stdoutOf_def stderrOf_def)
qed

end
