(* ===== verification/Container_State.thy ===== *)
theory Container_State
  imports Go_Strings
begin

section \<open>The state of a container (\<^verbatim>\<open>container/state.go\<close>, \<^verbatim>\<open>container/memory_store.go\<close>)\<close>

text \<open>
  The flags of a container, the transitions that set them, the waiters that block on a transition,
  and the store of containers.  A time is a number, zero for the zero time.  A channel is a number:
  \<^verbatim>\<open>waitChan\<close> is the current one, and \<open>closed\<close> holds those that have been closed.
\<close>

record State =
  Running :: bool
  Paused :: bool
  Restarting :: bool
  OOMKilled :: bool
  RemovalInProgress :: bool
  Dead :: bool
  Pid :: int
  ExitCode :: int
  Error :: string
  StartedAt :: nat
  FinishedAt :: nat
  waitChan :: nat
  closed :: "nat list"
  nextChan :: nat

record ExitStatus =
  es_ExitCode :: int
  es_OOMKilled :: bool

datatype state_error =
    TimedOut
  | AlreadyRemoving
  | NotRunning
  | AlreadyPaused
  | NotPaused
  | ContainerRestarting
  | DriverFailed string

definition NewState :: State where
  "NewState = \<lparr>Running = False, Paused = False, Restarting = False, OOMKilled = False, RemovalInProgress = False,
     Dead = False, Pid = 0, ExitCode = 0, Error = [], StartedAt = 0, FinishedAt = 0, waitChan = 0, closed = [], nextChan = 1\<rparr>"

definition StateString :: "State \<Rightarrow> string" where
  "StateString s =
     (if Running s then (if Paused s then ''paused'' else if Restarting s then ''restarting'' else ''running'')
      else if Dead s then ''dead''
      else if StartedAt s = 0 then ''created''
      else ''exited'')"

definition IsValidStateString :: "string \<Rightarrow> bool" where
  "IsValidStateString s \<longleftrightarrow>
     \<not> (s \<noteq> ''paused'' \<and> s \<noteq> ''restarting'' \<and> s \<noteq> ''running'' \<and> s \<noteq> ''dead'' \<and> s \<noteq> ''created'' \<and> s \<noteq> ''exited'')"

text \<open>\<^verbatim>\<open>close(s.waitChan); s.waitChan = make(...)\<close>: closing a closed channel panics.\<close>

definition fireWaiters :: "State \<Rightarrow> State option" where
  "fireWaiters s =
     (if waitChan s \<in> set (closed s) then None
      else Some (s\<lparr>closed := closed s @ [waitChan s], waitChan := nextChan s, nextChan := nextChan s + 1\<rparr>))"

definition setFromExitStatus :: "State \<Rightarrow> ExitStatus \<Rightarrow> State" where
  "setFromExitStatus s es = s\<lparr>ExitCode := es_ExitCode es, OOMKilled := es_OOMKilled es\<rparr>"

definition SetRunning :: "State \<Rightarrow> int \<Rightarrow> nat \<Rightarrow> State option" where
  "SetRunning s pid now =
     fireWaiters (s\<lparr>Error := [], Running := True, Paused := False, Restarting := False, ExitCode := 0, Pid := pid,
       StartedAt := now\<rparr>)"

definition SetStopped :: "State \<Rightarrow> ExitStatus \<Rightarrow> nat \<Rightarrow> State option" where
  "SetStopped s es now =
     fireWaiters (setFromExitStatus (s\<lparr>Running := False, Restarting := False, Pid := 0, FinishedAt := now\<rparr>) es)"

definition SetRestarting :: "State \<Rightarrow> ExitStatus \<Rightarrow> nat \<Rightarrow> State option" where
  "SetRestarting s es now =
     fireWaiters (setFromExitStatus (s\<lparr>Running := True, Restarting := True, Pid := 0, FinishedAt := now\<rparr>) es)"

definition SetError :: "State \<Rightarrow> string \<Rightarrow> State" where
  "SetError s err = s\<lparr>Error := err\<rparr>"

definition SetRemovalInProgress :: "State \<Rightarrow> State \<times> state_error option" where
  "SetRemovalInProgress s =
     (if RemovalInProgress s then (s, Some AlreadyRemoving) else (s\<lparr>RemovalInProgress := True\<rparr>, None))"

definition ResetRemovalInProgress :: "State \<Rightarrow> State" where
  "ResetRemovalInProgress s = s\<lparr>RemovalInProgress := False\<rparr>"

definition SetDead :: "State \<Rightarrow> State" where
  "SetDead s = s\<lparr>Dead := True\<rparr>"

text \<open>\<^verbatim>\<open>containerPause\<close> and \<^verbatim>\<open>containerUnpause\<close> of the daemon; \<open>driver\<close> is the answer of the driver.\<close>

definition containerPause :: "State \<Rightarrow> string option \<Rightarrow> State \<times> state_error option" where
  "containerPause s driver =
     (if \<not> Running s then (s, Some NotRunning)
      else if Paused s then (s, Some AlreadyPaused)
      else if Restarting s then (s, Some ContainerRestarting)
      else case driver of Some e \<Rightarrow> (s, Some (DriverFailed e)) | None \<Rightarrow> (s\<lparr>Paused := True\<rparr>, None))"

definition containerUnpause :: "State \<Rightarrow> string option \<Rightarrow> State \<times> state_error option" where
  "containerUnpause s driver =
     (if \<not> Running s then (s, Some NotRunning)
      else if \<not> Paused s then (s, Some NotPaused)
      else case driver of Some e \<Rightarrow> (s, Some (DriverFailed e)) | None \<Rightarrow> (s\<lparr>Paused := False\<rparr>, None))"

subsection \<open>Waiting\<close>

text \<open>
  A waiter takes the lock once to look at the state and to pick up the channel, blocks without it,
  and takes it again to read its result; other operations run in between.
\<close>

datatype wait_for = ForRunning | ForStop

datatype waiter =
    Blocked wait_for nat
  | Returned wait_for int
  | TimedOutWaiter wait_for

definition beginWait :: "State \<Rightarrow> wait_for \<Rightarrow> waiter" where
  "beginWait s k =
     (case k of
        ForRunning \<Rightarrow> if Running s then Returned k (Pid s) else Blocked k (waitChan s)
      | ForStop \<Rightarrow> if \<not> Running s then Returned k (ExitCode s) else Blocked k (waitChan s))"

definition endWait :: "State \<Rightarrow> wait_for \<Rightarrow> waiter" where
  "endWait s k = Returned k (case k of ForRunning \<Rightarrow> Pid s | ForStop \<Rightarrow> ExitCode s)"

datatype state_op =
    DoRunning int nat
  | DoStopped ExitStatus nat
  | DoRestarting ExitStatus nat
  | DoError string
  | DoRemoval
  | DoResetRemoval
  | DoDead
  | DoPause "string option"
  | DoUnpause "string option"

definition doState :: "State \<Rightarrow> state_op \<Rightarrow> State option" where
  "doState s p =
     (case p of
        DoRunning pid now \<Rightarrow> SetRunning s pid now
      | DoStopped es now \<Rightarrow> SetStopped s es now
      | DoRestarting es now \<Rightarrow> SetRestarting s es now
      | DoError e \<Rightarrow> Some (SetError s e)
      | DoRemoval \<Rightarrow> Some (fst (SetRemovalInProgress s))
      | DoResetRemoval \<Rightarrow> Some (ResetRemovalInProgress s)
      | DoDead \<Rightarrow> Some (SetDead s)
      | DoPause d \<Rightarrow> Some (fst (containerPause s d))
      | DoUnpause d \<Rightarrow> Some (fst (containerUnpause s d)))"

fun fires :: "state_op \<Rightarrow> bool" where
  "fires (DoRunning pid now) = True"
| "fires (DoStopped es now) = True"
| "fires (DoRestarting es now) = True"
| "fires _ = False"

text \<open>A container and the goroutines that wait on it; \<open>None\<close> is a panic.\<close>

record system =
  container :: State
  waiters :: "waiter list"

inductive sys_step :: "system \<Rightarrow> system option \<Rightarrow> bool" where
  sys_op: "doState (container y) p = Some s \<Longrightarrow> sys_step y (Some (y\<lparr>container := s\<rparr>))"
| sys_panic: "doState (container y) p = None \<Longrightarrow> sys_step y None"
| sys_wait: "sys_step y (Some (y\<lparr>waiters := waiters y @ [beginWait (container y) k]\<rparr>))"
| sys_wake: "i < length (waiters y) \<Longrightarrow> waiters y ! i = Blocked k c \<Longrightarrow> c \<in> set (closed (container y)) \<Longrightarrow>
    sys_step y (Some (y\<lparr>waiters := (waiters y)[i := endWait (container y) k]\<rparr>))"
| sys_timeout: "i < length (waiters y) \<Longrightarrow> waiters y ! i = Blocked k c \<Longrightarrow>
    sys_step y (Some (y\<lparr>waiters := (waiters y)[i := TimedOutWaiter k]\<rparr>))"

inductive reachable :: "system option \<Rightarrow> bool" where
  reach_init: "reachable (Some \<lparr>container = NewState, waiters = []\<rparr>)"
| reach_step: "reachable (Some y) \<Longrightarrow> sys_step y z \<Longrightarrow> reachable z"

inductive_cases sys_stepE: "sys_step y z"

subsection \<open>The store\<close>

type_synonym ('c) memoryStore = "(string, 'c) gomap"

definition mem_Add :: "'c memoryStore \<Rightarrow> string \<Rightarrow> 'c \<Rightarrow> 'c memoryStore" where
  "mem_Add st i c = mput i c st"

definition mem_Get :: "'c memoryStore \<Rightarrow> string \<Rightarrow> 'c option" where
  "mem_Get st i = mget st i"

definition mem_Delete :: "'c memoryStore \<Rightarrow> string \<Rightarrow> 'c memoryStore" where
  "mem_Delete st i = mdel i st"

definition mem_Size :: "'c memoryStore \<Rightarrow> nat" where
  "mem_Size st = length st"

definition mem_First :: "('c \<Rightarrow> bool) \<Rightarrow> 'c memoryStore \<Rightarrow> 'c option" where
  "mem_First f st = find f (map snd st)"

text \<open>The list is sorted by creation time, latest first; \<^verbatim>\<open>sort.Sort\<close> leaves the order of equal times open.\<close>

definition mem_List :: "('c \<Rightarrow> int) \<Rightarrow> 'c memoryStore \<Rightarrow> 'c list" where
  "mem_List created st = sort_key (\<lambda>c. - created c) (map snd st)"

subsection \<open>The invariant\<close>

definition state_inv :: "State \<Rightarrow> bool" where
  "state_inv s \<longleftrightarrow>
     (Restarting s \<longrightarrow> Running s \<and> Pid s = 0) \<and> (\<not> Running s \<longrightarrow> Pid s = 0)
     \<and> waitChan s \<notin> set (closed s) \<and> waitChan s < nextChan s \<and> (\<forall>c \<in> set (closed s). c < nextChan s)"

lemma fireWaiters_inv:
  assumes "state_inv s"
  shows "\<exists>s'. fireWaiters s = Some s' \<and> state_inv s' \<and> closed s' = closed s @ [waitChan s]"
  using assms by (fastforce simp: fireWaiters_def state_inv_def)

lemma state_inv_op:
  assumes "state_inv s"
  shows "\<exists>s'. doState s p = Some s' \<and> state_inv s' \<and> set (closed s) \<subseteq> set (closed s')
    \<and> (if fires p then waitChan s \<in> set (closed s') else waitChan s' = waitChan s)"
proof (cases "fires p")
  case True
  obtain t where t: "doState s p = fireWaiters t" "state_inv t" "closed t = closed s" "waitChan t = waitChan s"
    using True assms
    by (cases p) (auto simp: doState_def SetRunning_def SetStopped_def SetRestarting_def setFromExitStatus_def state_inv_def)
  show ?thesis using fireWaiters_inv [OF t(2)] t True by auto
next
  case False
  then show ?thesis
    using assms
    by (cases p) (auto simp: doState_def SetError_def SetRemovalInProgress_def ResetRemovalInProgress_def SetDead_def
        containerPause_def containerUnpause_def state_inv_def split: option.split)
qed

definition sys_inv :: "system \<Rightarrow> bool" where
  "sys_inv y \<longleftrightarrow> state_inv (container y)
     \<and> (\<forall>k c. Blocked k c \<in> set (waiters y) \<longrightarrow> c = waitChan (container y) \<or> c \<in> set (closed (container y)))"

lemma sys_inv_step:
  assumes "sys_step y z" "sys_inv y"
  shows "\<exists>y'. z = Some y' \<and> sys_inv y'"
  using assms
proof (induction rule: sys_step.induct)
  case (sys_op y p s)
  then obtain s' where "doState (container y) p = Some s'" "state_inv s'" "set (closed (container y)) \<subseteq> set (closed s')"
      "if fires p then waitChan (container y) \<in> set (closed s') else waitChan s' = waitChan (container y)"
    using state_inv_op [of "container y" p] by (auto simp: sys_inv_def)
  then show ?case using sys_op by (auto simp: sys_inv_def split: if_splits)
next
  case (sys_panic y p)
  then show ?case using state_inv_op [of "container y" p] by (auto simp: sys_inv_def)
next
  case (sys_wait y k)
  then show ?case by (auto simp: sys_inv_def beginWait_def split: wait_for.splits if_splits)
next
  case (sys_wake i y k c)
  then show ?case by (auto simp: sys_inv_def endWait_def dest!: subsetD [OF set_update_subset_insert])
next
  case (sys_timeout i y k c)
  then show ?case by (auto simp: sys_inv_def dest!: subsetD [OF set_update_subset_insert])
qed

lemma reachable_inv: "reachable z \<Longrightarrow> \<exists>y. z = Some y \<and> sys_inv y"
proof (induction rule: reachable.induct)
  case reach_init
  show ?case by (simp add: sys_inv_def state_inv_def NewState_def)
next
  case (reach_step y z)
  then show ?case using sys_inv_step by blast
qed



text \<open>
  C33: No wake-up is lost: once a container is started, stopped or restarted, every goroutine that
  was blocked before can go on, and it can from then on until it has returned.  It then reads the
  state of that moment.
\<close>

theorem waiters_are_woken:
  assumes "reachable (Some y)" "fires p" "doState (container y) p = Some s"
    and "i < length (waiters y)" "waiters y ! i = Blocked k c"
  shows "c \<in> set (closed s) \<and> (\<forall>q s'. doState s q = Some s' \<longrightarrow> c \<in> set (closed s'))
    \<and> sys_step (y\<lparr>container := s\<rparr>) (Some (y\<lparr>container := s, waiters := (waiters y)[i := endWait s k]\<rparr>))"
proof -
  have inv: "sys_inv y" using reachable_inv [OF assms(1)] by simp
  then have st: "state_inv (container y)" by (simp add: sys_inv_def)
  from state_inv_op [OF st, of p] assms(2,3) have s: "state_inv s" "set (closed (container y)) \<subseteq> set (closed s)"
      "waitChan (container y) \<in> set (closed s)" by auto
  have "Blocked k c \<in> set (waiters y)" using assms(4,5) by (metis nth_mem)
  then have c: "c \<in> set (closed s)" using inv s by (auto simp: sys_inv_def)
  moreover have "c \<in> set (closed s')" if "doState s q = Some s'" for q s'
    using state_inv_op [OF s(1), of q] that c by auto
  moreover have "sys_step (y\<lparr>container := s\<rparr>) (Some (y\<lparr>container := s, waiters := (waiters y)[i := endWait s k]\<rparr>))"
    using sys_wake [of i "y\<lparr>container := s\<rparr>" k c] assms(4,5) c by simp
  ultimately show ?thesis by blast
qed


text \<open>Runs given as lists of steps, executed.\<close>

datatype action = Op state_op | Wait wait_for | Wake nat

fun act :: "system \<Rightarrow> action \<Rightarrow> system option" where
  "act y (Op p) = map_option (\<lambda>s. y\<lparr>container := s\<rparr>) (doState (container y) p)"
| "act y (Wait k) = Some (y\<lparr>waiters := waiters y @ [beginWait (container y) k]\<rparr>)"
| "act y (Wake i) =
     (if i < length (waiters y) then
        (case waiters y ! i of
           Blocked k c \<Rightarrow>
             if c \<in> set (closed (container y)) then Some (y\<lparr>waiters := (waiters y)[i := endWait (container y) k]\<rparr>) else None
         | _ \<Rightarrow> None)
      else None)"

fun acts :: "system \<Rightarrow> action list \<Rightarrow> system option" where
  "acts y [] = Some y"
| "acts y (a # as) = Option.bind (act y a) (\<lambda>y. acts y as)"

lemma act_step: "act y a = Some z \<Longrightarrow> sys_step y (Some z)"
  by (cases a) (auto intro: sys_step.intros split: if_splits waiter.splits)

lemma acts_reachable: "reachable (Some y) \<Longrightarrow> acts y as = Some z \<Longrightarrow> reachable (Some z)"
proof (induction y as rule: acts.induct)
  case (2 y a as)
  then obtain x where x: "act y a = Some x" "acts x as = Some z" by (auto simp: bind_eq_Some_conv)
  then have "reachable (Some x)" using 2(2) act_step reach_step by blast
  then show ?case using 2(1) x by blast
qed simp

abbreviation fresh :: system where
  "fresh \<equiv> \<lparr>container = NewState, waiters = []\<rparr>"

theorem waiters_are_woken_witness:
  "\<exists>y s. reachable (Some y) \<and> waiters y ! 0 = Blocked ForRunning 0
    \<and> doState (container y) (DoRunning 7 1) = Some s \<and> 0 \<in> set (closed s)
    \<and> sys_step (y\<lparr>container := s\<rparr>) (Some (y\<lparr>container := s, waiters := (waiters y)[0 := Returned ForRunning 7]\<rparr>))"
proof -
  let ?y = "fresh\<lparr>waiters := [Blocked ForRunning 0]\<rparr>"
  have "acts fresh [Wait ForRunning] = Some ?y" by (simp add: beginWait_def NewState_def)
  then have r: "reachable (Some ?y)" by (rule acts_reachable [OF reach_init])
  obtain s where s: "doState NewState (DoRunning 7 1) = Some s" "Pid s = 7"
    by (simp add: doState_def SetRunning_def fireWaiters_def NewState_def)
  have "endWait s ForRunning = Returned ForRunning 7" using s(2) by (simp add: endWait_def)
  then show ?thesis
    using waiters_are_woken [OF r, of "DoRunning 7 1" s 0 ForRunning 0] r s(1) by (intro exI [of _ ?y] exI [of _ s]) simp
qed

text \<open>
  A wake-up does not say which transition caused it.  A goroutine that waits for the container
  to run returns process 0 when the container is stopped instead, and one that waits for a
  restarting container to stop returns exit code 0 when the container starts again, while it runs.
\<close>

theorem wait_returns_early:
  "(\<exists>y. reachable (Some y) \<and> waiters y = [Returned ForRunning 0] \<and> \<not> Running (container y) \<and> StartedAt (container y) = 0)
   \<and> (\<exists>y. reachable (Some y) \<and> waiters y = [Returned ForStop 0] \<and> Running (container y) \<and> \<not> Restarting (container y))"
proof
  let ?es = "\<lparr>es_ExitCode = 3, es_OOMKilled = False\<rparr>"
  have "\<exists>z. acts fresh [Wait ForRunning, Op (DoStopped ?es 1), Wake 0] = Some z
      \<and> waiters z = [Returned ForRunning 0] \<and> \<not> Running (container z) \<and> StartedAt (container z) = 0"
    by (simp add: beginWait_def NewState_def doState_def SetStopped_def setFromExitStatus_def fireWaiters_def endWait_def)
  then show "\<exists>y. reachable (Some y) \<and> waiters y = [Returned ForRunning 0] \<and> \<not> Running (container y) \<and> StartedAt (container y) = 0"
    using acts_reachable [OF reach_init] by blast
  have "\<exists>z. acts fresh [Op (DoRestarting ?es 1), Wait ForStop, Op (DoRunning 9 2), Wake 0] = Some z
      \<and> waiters z = [Returned ForStop 0] \<and> Running (container z) \<and> \<not> Restarting (container z)"
    by (simp add: beginWait_def NewState_def doState_def SetRestarting_def SetRunning_def setFromExitStatus_def
        fireWaiters_def endWait_def)
  then show "\<exists>y. reachable (Some y) \<and> waiters y = [Returned ForStop 0] \<and> Running (container y) \<and> \<not> Restarting (container y)"
    using acts_reachable [OF reach_init] by blast
qed

end
