(* ===== verification/Container_Monitor.thy ===== *)
theory Container_Monitor
  imports Container_State Options
begin

section \<open>The container monitor (\<^verbatim>\<open>container/monitor.go\<close>)\<close>

text \<open>
  The monitor runs the process of a container and restarts it according to the restart policy.  The
  supervisor is an interface: its answers for the \<open>n\<close>-th run are functions of \<open>n\<close>, and so are the
  requests to stop that the monitor sees after a run and after the pause before a restart.  The
  loop may run forever, so it is a partial function.  \<open>start\<close> is the goroutine of the monitor;
  the streams and the log driver that are reset between runs are left out.
\<close>

record run =
  r_pid :: "int option"
  r_status :: ExitStatus
  r_err :: "string option"
  r_long :: bool
  r_started :: nat
  r_finished :: nat

record supervisor =
  s_StartLogging :: "nat \<Rightarrow> string option"
  s_Run :: "nat \<Rightarrow> run"
  s_stopAfterRun :: "nat \<Rightarrow> bool"
  s_stopInWait :: "nat \<Rightarrow> bool"
  s_IsShuttingDown :: bool

datatype monitor_error =
    StartLoggingFailed string
  | CmdNotFound
  | CmdCouldNotBeInvoked
  | CantStart string
  | RunFailed string

record monitor =
  m_state :: State
  m_panicked :: bool
  failureCount :: int
  timeIncrement :: "64 word"
  RestartCount :: int
  HasBeenManuallyStopped :: bool
  m_afterRun :: bool
  m_exitStatus :: ExitStatus
  m_events :: "string list"
  m_cleanups :: nat

definition defaultTimeIncrement :: "64 word" where
  "defaultTimeIncrement = 100"

definition setState :: "(State \<Rightarrow> State option) \<Rightarrow> monitor \<Rightarrow> monitor" where
  "setState f m =
     (case f (m_state m) of None \<Rightarrow> m\<lparr>m_panicked := True\<rparr> | Some s \<Rightarrow> m\<lparr>m_state := s\<rparr>)"

definition logEvent :: "string \<Rightarrow> monitor \<Rightarrow> monitor" where
  "logEvent e m = m\<lparr>m_events := m_events m @ [e]\<rparr>"

definition resetMonitor :: "bool \<Rightarrow> bool \<Rightarrow> monitor \<Rightarrow> monitor" where
  "resetMonitor successful long m =
     m\<lparr>timeIncrement := (if long then defaultTimeIncrement else timeIncrement m * 2),
       failureCount := (if successful then 0 else failureCount m + 1)\<rparr>"

definition shouldRestart :: "supervisor \<Rightarrow> restart_policy \<Rightarrow> bool \<Rightarrow> int \<Rightarrow> monitor \<Rightarrow> monitor \<times> bool" where
  "shouldRestart sv pol shouldStop code m =
     (if shouldStop then (m\<lparr>HasBeenManuallyStopped := \<not> s_IsShuttingDown sv\<rparr>, False)
      else
        (m, if rp_Name pol = ''always'' \<or> rp_Name pol = ''unless-stopped'' then True
            else if rp_Name pol = ''on-failure'' then
              (if rp_MaximumRetryCount pol \<noteq> 0 \<and> failureCount m > rp_MaximumRetryCount pol then False else code \<noteq> 0)
            else False))"

text \<open>What the exit code and the error of a first run that fails are.\<close>

definition startError :: "string \<Rightarrow> int \<times> monitor_error" where
  "startError err =
     (if contains err ''executable file not found'' \<or> contains err ''no such file or directory''
         \<or> contains err ''system cannot find the file specified'' then (127, CmdNotFound)
      else if contains err ''permission denied'' then (126, CmdCouldNotBeInvoked)
      else (- 1, CantStart err))"

text \<open>The callback of a run that has started, and the deferred function at the end.\<close>

definition callback :: "run \<Rightarrow> monitor \<Rightarrow> monitor" where
  "callback r m = (case r_pid r of None \<Rightarrow> m | Some pid \<Rightarrow> setState (\<lambda>s. SetRunning s pid (r_started r)) m)"

definition finish :: "nat \<Rightarrow> monitor \<Rightarrow> monitor" where
  "finish now m =
     (let m1 = (if m_afterRun m then setState (\<lambda>s. SetStopped s (m_exitStatus m) now) m else m) in
      m1\<lparr>m_cleanups := m_cleanups m1 + 1\<rparr>)"

definition afterRun :: "run \<Rightarrow> monitor \<Rightarrow> monitor" where
  "afterRun r m =
     resetMonitor (r_err r = None \<and> es_ExitCode (r_status r) = 0) (r_long r)
       (m\<lparr>m_afterRun := True, m_exitStatus := r_status r\<rparr>)"

partial_function (option) startLoop ::
    "supervisor \<Rightarrow> restart_policy \<Rightarrow> nat \<Rightarrow> monitor \<Rightarrow> (monitor \<times> monitor_error option) option" where
  "startLoop sv pol n m0 =
     (let m1 = m0\<lparr>RestartCount := RestartCount m0 + 1\<rparr>; r = s_Run sv n in
      case s_StartLogging sv n of
        Some e \<Rightarrow> Some (finish (r_finished r) m1, Some (StartLoggingFailed e))
      | None \<Rightarrow>
          let m2 = callback r (logEvent ''start'' m1) in
          if r_err r \<noteq> None \<and> RestartCount m2 = 0 then
            (case startError (the (r_err r)) of
               (code, e) \<Rightarrow> Some (finish (r_finished r) (m2\<lparr>m_state := (m_state m2)\<lparr>ExitCode := code\<rparr>\<rparr>), Some e))
          else
            (case shouldRestart sv pol (s_stopAfterRun sv n) (es_ExitCode (r_status r)) (afterRun r m2) of
               (m3, go) \<Rightarrow>
                 if go then
                   let m4 = logEvent ''die'' (setState (\<lambda>s. SetRestarting s (r_status r) (r_finished r)) m3) in
                   if s_stopInWait sv n then Some (finish (r_finished r) m4, map_option RunFailed (r_err r))
                   else startLoop sv pol (n + 1) m4
                 else Some (finish (r_finished r) (logEvent ''die'' m3), map_option RunFailed (r_err r))))"

declare startLoop.simps [code]

definition start :: "supervisor \<Rightarrow> restart_policy \<Rightarrow> State \<Rightarrow> (monitor \<times> monitor_error option) option" where
  "start sv pol s =
     startLoop sv pol 0
       \<lparr>m_state = s, m_panicked = False, failureCount = 0, timeIncrement = defaultTimeIncrement, RestartCount = - 1,
        HasBeenManuallyStopped = False, m_afterRun = False, m_exitStatus = \<lparr>es_ExitCode = 0, es_OOMKilled = False\<rparr>,
        m_events = [], m_cleanups = 0\<rparr>"

subsection \<open>Counting\<close>

lemma setState_simps [simp]:
  "failureCount (setState f m) = failureCount m" "RestartCount (setState f m) = RestartCount m"
  "m_events (setState f m) = m_events m" "m_afterRun (setState f m) = m_afterRun m"
  "m_exitStatus (setState f m) = m_exitStatus m" "m_cleanups (setState f m) = m_cleanups m"
  by (simp_all add: setState_def split: option.split)

lemma callback_simps [simp]:
  "failureCount (callback r m) = failureCount m" "RestartCount (callback r m) = RestartCount m"
  "m_events (callback r m) = m_events m" "m_afterRun (callback r m) = m_afterRun m"
  by (simp_all add: callback_def split: option.split)

lemma logEvent_simps [simp]:
  "failureCount (logEvent e m) = failureCount m" "RestartCount (logEvent e m) = RestartCount m"
  "m_state (logEvent e m) = m_state m" "m_panicked (logEvent e m) = m_panicked m"
  "m_afterRun (logEvent e m) = m_afterRun m" "m_exitStatus (logEvent e m) = m_exitStatus m"
  by (simp_all add: logEvent_def)

lemma finish_simps [simp]: "RestartCount (finish now m) = RestartCount m" "m_cleanups (finish now m) = m_cleanups m + 1"
  by (simp_all add: finish_def Let_def)

lemma afterRun_simps [simp]:
  "RestartCount (afterRun r m) = RestartCount m" "m_state (afterRun r m) = m_state m"
  "m_panicked (afterRun r m) = m_panicked m" "m_afterRun (afterRun r m)" "m_exitStatus (afterRun r m) = r_status r"
  by (simp_all add: afterRun_def resetMonitor_def)

lemma afterRun_failed:
  "es_ExitCode (r_status r) \<noteq> 0 \<Longrightarrow> failureCount (afterRun r m) = failureCount m + 1"
  by (simp add: afterRun_def resetMonitor_def)

lemma shouldRestart_same:
  assumes "shouldRestart sv pol b code m = (m', go)"
  shows "RestartCount m' = RestartCount m" "failureCount m' = failureCount m" "m_state m' = m_state m"
    "m_panicked m' = m_panicked m" "go \<Longrightarrow> \<not> b"
  using assms by (auto simp: shouldRestart_def split: if_splits)

text \<open>A supervisor under which the process fails every time and nobody interferes.\<close>

definition always_fails :: "supervisor \<Rightarrow> bool" where
  "always_fails sv \<longleftrightarrow> (\<forall>n. s_StartLogging sv n = None \<and> r_err (s_Run sv n) = None
     \<and> es_ExitCode (r_status (s_Run sv n)) \<noteq> 0 \<and> \<not> s_stopAfterRun sv n \<and> \<not> s_stopInWait sv n)"

text \<open>The policy \<^verbatim>\<open>on-failure\<close> with a maximum: every restart follows one more failure.\<close>

lemma on_failure_loop:
  assumes "rp_Name pol = ''on-failure''" "0 < rp_MaximumRetryCount pol"
    and "failureCount m = RestartCount m + 1" "RestartCount m < rp_MaximumRetryCount pol"
  shows "\<exists>m' e. startLoop sv pol n m = Some (m', e) \<and> RestartCount m' \<le> rp_MaximumRetryCount pol
    \<and> (always_fails sv \<longrightarrow> RestartCount m' = rp_MaximumRetryCount pol)"
  using assms(3,4)
proof (induction "nat (rp_MaximumRetryCount pol - RestartCount m)" arbitrary: n m rule: less_induct)
  case less
  let ?max = "rp_MaximumRetryCount pol"
  let ?m1 = "m\<lparr>RestartCount := RestartCount m + 1\<rparr>"
  let ?r = "s_Run sv n"
  let ?m2 = "callback ?r (logEvent ''start'' ?m1)"
  obtain m3 go where g: "shouldRestart sv pol (s_stopAfterRun sv n) (es_ExitCode (r_status ?r)) (afterRun ?r ?m2) = (m3, go)"
    by (cases "shouldRestart sv pol (s_stopAfterRun sv n) (es_ExitCode (r_status ?r)) (afterRun ?r ?m2)")
  note same = shouldRestart_same [OF g]
  let ?m4 = "logEvent ''die'' (setState (\<lambda>s. SetRestarting s (r_status ?r) (r_finished ?r)) m3)"
  have again: "\<exists>m' e. startLoop sv pol (n + 1) ?m4 = Some (m', e) \<and> RestartCount m' \<le> ?max
      \<and> (always_fails sv \<longrightarrow> RestartCount m' = ?max)" if go
  proof (rule less.hyps)
    have code: "es_ExitCode (r_status ?r) \<noteq> 0" and few: "\<not> failureCount (afterRun ?r ?m2) > ?max"
      using g that assms(1,2) by (auto simp: shouldRestart_def split: if_splits)
    show "failureCount ?m4 = RestartCount ?m4 + 1"
      using same less.prems(1) afterRun_failed [OF code] by simp
    show "RestartCount ?m4 < ?max"
      using same few less.prems(1) afterRun_failed [OF code, of ?m2] by simp
    show "nat (?max - RestartCount ?m4) < nat (?max - RestartCount m)"
      using same less.prems(2) by simp
  qed
  have le: "RestartCount m + 1 \<le> ?max" using less.prems(2) by simp
  have last: "RestartCount m + 1 = ?max" if "always_fails sv" "\<not> go"
    using that g assms(1,2) less.prems afterRun_failed [of ?r ?m2]
    by (auto simp: shouldRestart_def always_fails_def split: if_splits)
  have quiet: "s_StartLogging sv n = None" "r_err ?r = None" "\<not> s_stopInWait sv n" if "always_fails sv"
    using that by (auto simp: always_fails_def)
  show ?case
    by (subst startLoop.simps)
      (use g same again le last quiet in \<open>auto simp: Let_def split: option.split prod.split\<close>)
qed

text \<open>
  With the restart policy \<^verbatim>\<open>on-failure:N\<close> the monitor ends, whatever the process does, after at
  most \<open>N\<close> restarts; and after exactly \<open>N\<close> when the process fails every time and nobody stops it.
\<close>

theorem on_failure_restarts_bounded:
  assumes "rp_Name pol = ''on-failure''" "0 < rp_MaximumRetryCount pol"
  shows "\<exists>m e. start sv pol s = Some (m, e) \<and> RestartCount m \<le> rp_MaximumRetryCount pol
    \<and> (always_fails sv \<longrightarrow> RestartCount m = rp_MaximumRetryCount pol)"
  unfolding start_def by (rule on_failure_loop) (use assms in simp_all)

definition failing_supervisor :: supervisor where
  "failing_supervisor =
     \<lparr>s_StartLogging = (\<lambda>n. None),
      s_Run = (\<lambda>n. \<lparr>r_pid = Some 7, r_status = \<lparr>es_ExitCode = 1, es_OOMKilled = False\<rparr>, r_err = None, r_long = False,
        r_started = 1, r_finished = 2\<rparr>),
      s_stopAfterRun = (\<lambda>n. False), s_stopInWait = (\<lambda>n. False), s_IsShuttingDown = False\<rparr>"

theorem on_failure_restarts_bounded_witness:
  "\<exists>m e. start failing_supervisor \<lparr>rp_Name = ''on-failure'', rp_MaximumRetryCount = 3\<rparr> NewState = Some (m, e)
    \<and> RestartCount m = 3"
proof -
  have "always_fails failing_supervisor" by (simp add: always_fails_def failing_supervisor_def)
  then show ?thesis
    using on_failure_restarts_bounded [of "\<lparr>rp_Name = ''on-failure'', rp_MaximumRetryCount = 3\<rparr>" failing_supervisor NewState]
    by auto
qed

subsection \<open>Restarting for ever\<close>

text \<open>Why a monitor with the policy \<^verbatim>\<open>always\<close> may end.\<close>

definition interrupted :: "supervisor \<Rightarrow> nat \<Rightarrow> bool" where
  "interrupted sv n \<longleftrightarrow> s_StartLogging sv n \<noteq> None \<or> s_stopAfterRun sv n \<or> s_stopInWait sv n
     \<or> (n = 0 \<and> r_err (s_Run sv n) \<noteq> None)"

lemma always_loop:
  assumes "startLoop sv pol n m = Some res"
  shows "(rp_Name pol = ''always'' \<or> rp_Name pol = ''unless-stopped'') \<and> RestartCount m = int n - 1 \<longrightarrow>
    (\<exists>k. interrupted sv k)"
proof (rule startLoop.raw_induct [OF _ assms], goal_cases)
  case (1 f sv pol n m res)
  show ?case
  proof (rule ccontr)
    assume "\<not> ?thesis"
    then have pol: "rp_Name pol = ''always'' \<or> rp_Name pol = ''unless-stopped''" and count: "RestartCount m = int n - 1"
      and quiet: "\<not> (\<exists>k. interrupted sv k)" by blast+
    let ?r = "s_Run sv n"
    let ?m2 = "callback ?r (logEvent ''start'' (m\<lparr>RestartCount := RestartCount m + 1\<rparr>))"
    let ?m3 = "afterRun ?r ?m2"
    let ?m4 = "logEvent ''die'' (setState (\<lambda>s. SetRestarting s (r_status ?r) (r_finished ?r)) ?m3)"
    have n: "s_StartLogging sv n = None" "\<not> s_stopAfterRun sv n" "\<not> s_stopInWait sv n" "n = 0 \<Longrightarrow> r_err ?r = None"
      using quiet by (auto simp: interrupted_def)
    then have first: "\<not> (r_err ?r \<noteq> None \<and> RestartCount ?m2 = 0)" using count by auto
    have "shouldRestart sv pol (s_stopAfterRun sv n) (es_ExitCode (r_status ?r)) ?m3 = (?m3, True)"
      using n(2) pol by (auto simp: shouldRestart_def)
    then have "f sv pol (n + 1) ?m4 = Some res"
      using 1(2) n(1,3) first by (simp add: Let_def split: if_splits)
    then show False using 1(1) [of sv pol "n + 1" ?m4 res] pol count quiet by auto
  qed
qed

text \<open>
  With the policies \<^verbatim>\<open>always\<close> and \<^verbatim>\<open>unless-stopped\<close> the monitor restarts the process for ever: it
  ends only when a stop was requested, when logging cannot start, or when the very first run fails
  to start.
\<close>

theorem always_restarts:
  assumes "rp_Name pol = ''always'' \<or> rp_Name pol = ''unless-stopped''" "\<forall>n. \<not> interrupted sv n"
  shows "start sv pol s = None"
proof (rule ccontr)
  assume "start sv pol s \<noteq> None"
  then obtain res where r: "start sv pol s = Some res" by blast
  from always_loop [OF r [unfolded start_def]] show False using assms by simp
qed

theorem always_restarts_witness:
  "(\<forall>n. \<not> interrupted failing_supervisor n)
   \<and> start failing_supervisor \<lparr>rp_Name = ''always'', rp_MaximumRetryCount = 0\<rparr> NewState = None"
proof -
  have q: "\<forall>n. \<not> interrupted failing_supervisor n" by (simp add: interrupted_def failing_supervisor_def)
  show ?thesis using q always_restarts [OF _ q, of "\<lparr>rp_Name = ''always'', rp_MaximumRetryCount = 0\<rparr>" NewState] by simp
qed

end
