(* ===== verification/Volume_Store.thy ===== *)
theory Volume_Store
  imports Mount_Spec
begin

section \<open>The volume store (\<^verbatim>\<open>volume/store/store.go\<close>, \<^verbatim>\<open>volume/drivers/extpoint.go\<close>)\<close>

text \<open>
  The registry of volume drivers, the store that keeps volumes and the references to them, and the
  code of the daemon that registers and removes the mount points of a container.  Volume drivers and
  plugins are outside of the program: their answers during an operation are an argument, \<open>env\<close>.  A
  driver is a handle.  The order in which the drivers answer a listing is left open by the
  goroutines that ask them; it is a part of \<open>env\<close> as well.
\<close>

type_synonym driver = nat

record env =
  e_Name :: "driver \<Rightarrow> string"
  e_Get :: "driver \<Rightarrow> string \<Rightarrow> (string, volume) result"
  e_Create :: "driver \<Rightarrow> string \<Rightarrow> (string \<times> string) list \<Rightarrow> (string, volume) result"
  e_Remove :: "driver \<Rightarrow> volume \<Rightarrow> string option"
  e_List :: "driver \<Rightarrow> (string, volume list) result"
  e_plugin :: "string \<Rightarrow> (string, driver) result"
  e_plugins :: "(string, (string \<times> driver) list) result"
  e_arrival :: "driver list \<Rightarrow> driver list"

datatype store_error =
    ErrVolumeInUse
  | ErrNoSuchVolume
  | ErrInvalidName
  | ErrNameConflict
  | DriverErr string
  | OpErr store_error string string "string list"

text \<open>\<^verbatim>\<open>OpErr.Error\<close> and the tests on errors, which look through one \<^verbatim>\<open>OpErr\<close>.\<close>

fun joinRefs :: "string list \<Rightarrow> string" where
  "joinRefs [] = []"
| "joinRefs [r] = r"
| "joinRefs (r # s # rs) = r @ '', '' @ joinRefs (s # rs)"

fun ErrorString :: "store_error \<Rightarrow> string" where
  "ErrorString ErrVolumeInUse = ''volume is in use''"
| "ErrorString ErrNoSuchVolume = ''no such volume''"
| "ErrorString ErrInvalidName = ''volume name is not valid on this platform''"
| "ErrorString ErrNameConflict = ''conflict: volume name must be unique''"
| "ErrorString (DriverErr s) = s"
| "ErrorString (OpErr e op name rs) =
     op @ (if name \<noteq> [] then '' '' @ name else []) @ '': '' @ ErrorString e
     @ (if length rs > 0 then '' - '' @ ''['' @ joinRefs rs @ '']'' else [])"

definition isErr :: "store_error \<Rightarrow> store_error \<Rightarrow> bool" where
  "isErr err expected = (case err of OpErr e op name rs \<Rightarrow> e = expected | _ \<Rightarrow> err = expected)"

definition IsInUse :: "store_error \<Rightarrow> bool" where
  "IsInUse err = isErr err ErrVolumeInUse"

definition IsNotExist :: "store_error \<Rightarrow> bool" where
  "IsNotExist err = isErr err ErrNoSuchVolume"

definition IsNameConflict :: "store_error \<Rightarrow> bool" where
  "IsNameConflict err = isErr err ErrNameConflict"

subsection \<open>The registry of drivers\<close>

type_synonym extensions = "(string, driver) gomap"

definition Register :: "driver \<Rightarrow> string \<Rightarrow> extensions \<Rightarrow> extensions \<times> bool" where
  "Register extension name ds =
     (if name = [] then (ds, False)
      else if mget ds name \<noteq> None then (ds, False)
      else (mput name extension ds, True))"

definition Unregister :: "string \<Rightarrow> extensions \<Rightarrow> extensions \<times> bool" where
  "Unregister name ds = (if mget ds name = None then (ds, False) else (mdel name ds, True))"

definition Lookup :: "env \<Rightarrow> string \<Rightarrow> extensions \<Rightarrow> extensions \<times> (string, driver) result" where
  "Lookup env name ds =
     (case mget ds name of
        Some ext \<Rightarrow> (ds, Inr ext)
      | None \<Rightarrow>
          (case e_plugin env name of
             Inl err \<Rightarrow> (ds, Inl (''Error looking up volume plugin '' @ name @ '': '' @ err))
           | Inr d \<Rightarrow> (mput name d ds, Inr d)))"

definition GetDriver :: "env \<Rightarrow> string \<Rightarrow> extensions \<Rightarrow> extensions \<times> (string, driver) result" where
  "GetDriver env name ds = Lookup env (if name = [] then DefaultDriverName else name) ds"

definition GetDriverList :: "extensions \<Rightarrow> string list" where
  "GetDriverList ds = mkeys ds"

fun addPlugins :: "(string \<times> driver) list \<Rightarrow> extensions \<Rightarrow> driver list \<Rightarrow> extensions \<times> driver list" where
  "addPlugins [] ds out = (ds, out)"
| "addPlugins ((name, d) # ps) ds out =
     (if mget ds name \<noteq> None then addPlugins ps ds out
      else addPlugins ps (mput name d ds) (out @ [d]))"

definition GetAllDrivers :: "env \<Rightarrow> extensions \<Rightarrow> extensions \<times> (string, driver list) result" where
  "GetAllDrivers env ds =
     (case e_plugins env of
        Inl err \<Rightarrow> (ds, Inl err)
      | Inr ps \<Rightarrow> (case addPlugins ps ds (map snd ds) of (ds1, out) \<Rightarrow> (ds1, Inr out)))"

subsection \<open>The store\<close>

record VolumeStore =
  vnames :: "(string, volume) gomap"
  vrefs :: "(string, string list) gomap"
  drivers :: extensions

definition NewStore :: "extensions \<Rightarrow> VolumeStore" where
  "NewStore ds = \<lparr>vnames = [], vrefs = [], drivers = ds\<rparr>"

definition normaliseVolumeName :: "string \<Rightarrow> string" where
  "normaliseVolumeName name = name"

definition IsVolumeNameValid :: "string \<Rightarrow> bool" where
  "IsVolumeNameValid name = True"

definition getNamed :: "VolumeStore \<Rightarrow> string \<Rightarrow> volume option" where
  "getNamed s name = mget (vnames s) name"

definition setNamed :: "volume \<Rightarrow> string \<Rightarrow> VolumeStore \<Rightarrow> VolumeStore" where
  "setNamed v ref s =
     (let s1 = s\<lparr>vnames := mput (v_Name v) v (vnames s)\<rparr> in
      if length ref > 0 then s1\<lparr>vrefs := mput (v_Name v) (mget_or [] (vrefs s1) (v_Name v) @ [ref]) (vrefs s1)\<rparr>
      else s1)"

definition purge :: "string \<Rightarrow> VolumeStore \<Rightarrow> VolumeStore" where
  "purge name s = s\<lparr>vnames := mdel name (vnames s), vrefs := mdel name (vrefs s)\<rparr>"

type_synonym 'a stored = "VolumeStore \<times> (store_error, 'a) outcome"

definition withDriver :: "env \<Rightarrow> string \<Rightarrow> VolumeStore \<Rightarrow> VolumeStore \<times> (string, driver) result" where
  "withDriver env name s = (case GetDriver env name (drivers s) of (ds, r) \<Rightarrow> (s\<lparr>drivers := ds\<rparr>, r))"

definition create_volume ::
    "env \<Rightarrow> string \<Rightarrow> string \<Rightarrow> (string \<times> string) list \<Rightarrow> VolumeStore \<Rightarrow> VolumeStore \<times> (store_error, volume) result" where
  "create_volume env name driverName opts s =
     (if \<not> IsVolumeNameValid name then (s, Inl (OpErr ErrInvalidName ''create'' name []))
      else
        case getNamed s name of
          Some v \<Rightarrow>
            if v_DriverName v \<noteq> driverName \<and> driverName \<noteq> [] \<and> driverName \<noteq> DefaultDriverName
            then (s, Inl ErrNameConflict)
            else (s, Inr v)
        | None \<Rightarrow>
            (case withDriver env driverName s of
               (s1, Inl err) \<Rightarrow> (s1, Inl (OpErr (DriverErr err) ''create'' name []))
             | (s1, Inr vd) \<Rightarrow>
                 (case e_Get env vd name of
                    Inr v \<Rightarrow> (s1, Inr v)
                  | Inl _ \<Rightarrow>
                      (case e_Create env vd name opts of
                         Inl err \<Rightarrow> (s1, Inl (DriverErr err))
                       | Inr v \<Rightarrow> (s1, Inr v)))))"

definition CreateWithRef ::
    "env \<Rightarrow> string \<Rightarrow> string \<Rightarrow> string \<Rightarrow> (string \<times> string) list \<Rightarrow> VolumeStore \<Rightarrow> volume stored" where
  "CreateWithRef env name0 driverName ref opts s =
     (let name = normaliseVolumeName name0 in
      case create_volume env name driverName opts s of
        (s1, Inl err) \<Rightarrow> (s1, Failed (OpErr err ''create'' name []))
      | (s1, Inr v) \<Rightarrow> (setNamed v ref s1, Done v))"

definition CreateVolume :: "env \<Rightarrow> string \<Rightarrow> string \<Rightarrow> (string \<times> string) list \<Rightarrow> VolumeStore \<Rightarrow> volume stored" where
  "CreateVolume env name0 driverName opts s =
     (let name = normaliseVolumeName name0 in
      case create_volume env name driverName opts s of
        (s1, Inl err) \<Rightarrow> (s1, Failed (OpErr err ''create'' name []))
      | (s1, Inr v) \<Rightarrow> (setNamed v [] s1, Done v))"

definition GetWithRef :: "env \<Rightarrow> string \<Rightarrow> string \<Rightarrow> string \<Rightarrow> VolumeStore \<Rightarrow> volume stored" where
  "GetWithRef env name0 driverName ref s =
     (let name = normaliseVolumeName name0 in
      case withDriver env driverName s of
        (s1, Inl err) \<Rightarrow> (s1, Failed (OpErr (DriverErr err) ''get'' name []))
      | (s1, Inr vd) \<Rightarrow>
          (case e_Get env vd name of
             Inl err \<Rightarrow> (s1, Failed (OpErr (DriverErr err) ''get'' name []))
           | Inr v \<Rightarrow> (setNamed v ref s1, Done v)))"

fun probe :: "env \<Rightarrow> string \<Rightarrow> driver list \<Rightarrow> (store_error, volume) result" where
  "probe env name [] = Inl ErrNoSuchVolume"
| "probe env name (d # ds) = (case e_Get env d name of Inl _ \<Rightarrow> probe env name ds | Inr v \<Rightarrow> Inr v)"

definition getVolume :: "env \<Rightarrow> string \<Rightarrow> VolumeStore \<Rightarrow> VolumeStore \<times> (store_error, volume) result" where
  "getVolume env name s =
     (case mget (vnames s) name of
        Some v \<Rightarrow>
          (case withDriver env (v_DriverName v) s of
             (s1, Inl err) \<Rightarrow> (s1, Inl (DriverErr err))
           | (s1, Inr vd) \<Rightarrow>
               (s1, case e_Get env vd name of Inl err \<Rightarrow> Inl (DriverErr err) | Inr v' \<Rightarrow> Inr v'))
      | None \<Rightarrow>
          (case GetAllDrivers env (drivers s) of
             (ds, Inl err) \<Rightarrow> (s\<lparr>drivers := ds\<rparr>, Inl (DriverErr err))
           | (ds, Inr all) \<Rightarrow> (s\<lparr>drivers := ds\<rparr>, probe env name all)))"

definition GetVolume :: "env \<Rightarrow> string \<Rightarrow> VolumeStore \<Rightarrow> volume stored" where
  "GetVolume env name0 s =
     (let name = normaliseVolumeName name0 in
      case getVolume env name s of
        (s1, Inl err) \<Rightarrow> (s1, Failed (OpErr err ''get'' name []))
      | (s1, Inr v) \<Rightarrow> (setNamed v [] s1, Done v))"

text \<open>When the driver is not found, \<^verbatim>\<open>Remove\<close> asks the nil driver for its name.\<close>

definition RemoveVolume :: "env \<Rightarrow> volume \<Rightarrow> VolumeStore \<Rightarrow> unit stored" where
  "RemoveVolume env v s =
     (let name = normaliseVolumeName (v_Name v); rs = mget_or [] (vrefs s) name in
      if mget (vrefs s) name \<noteq> None \<and> length rs > 0 then (s, Failed (OpErr ErrVolumeInUse ''remove'' (v_Name v) rs))
      else
        case withDriver env (v_DriverName v) s of
          (s1, Inl err) \<Rightarrow> (s1, Panicked ''invalid memory address or nil pointer dereference'')
        | (s1, Inr vd) \<Rightarrow>
            (case e_Remove env vd v of
               Some err \<Rightarrow> (s1, Failed (OpErr (DriverErr err) ''remove'' name []))
             | None \<Rightarrow> (purge name s1, Done ())))"

text \<open>
  \<^verbatim>\<open>Dereference\<close> ranges over the references as they were, and shortens the slice in place meanwhile:
  \<open>arr\<close> is the array behind both slices and \<open>len\<close> the length of the stored one.  Cutting behind the
  end of the stored slice panics, with what was done so far left in the store.
\<close>

fun derefLoop :: "string \<Rightarrow> nat \<Rightarrow> nat \<Rightarrow> string list \<Rightarrow> nat \<Rightarrow> string list \<times> nat \<times> bool" where
  "derefLoop ref 0 i arr len = (arr, len, False)"
| "derefLoop ref (Suc n) i arr len =
     (if arr ! i = ref then
        (if len < i + 1 then (arr, len, True)
         else derefLoop ref n (i + 1) (take i arr @ take (len - (i + 1)) (drop (i + 1) arr) @ drop (len - 1) arr) (len - 1))
      else derefLoop ref n (i + 1) arr len)"

definition Dereference :: "volume \<Rightarrow> string \<Rightarrow> VolumeStore \<Rightarrow> unit stored" where
  "Dereference v ref s =
     (case mget (vrefs s) (v_Name v) of
        None \<Rightarrow> (s, Done ())
      | Some rs \<Rightarrow>
          (case derefLoop ref (length rs) 0 rs (length rs) of
             (arr, len, bad) \<Rightarrow>
               (s\<lparr>vrefs := mput (v_Name v) (take len arr) (vrefs s)\<rparr>,
                if bad then Panicked ''slice bounds out of range'' else Done ())))"

definition Refs :: "volume \<Rightarrow> VolumeStore \<Rightarrow> string list" where
  "Refs v s = mget_or [] (vrefs s) (v_Name v)"

definition FilterByUsed :: "volume list \<Rightarrow> bool \<Rightarrow> VolumeStore \<Rightarrow> volume list" where
  "FilterByUsed vols used s =
     filter (\<lambda>v. let l = length (mget_or [] (vrefs s) (v_Name v)) in (used \<and> l > 0) \<or> (\<not> used \<and> l = 0)) vols"

definition FilterByDriver :: "env \<Rightarrow> string \<Rightarrow> VolumeStore \<Rightarrow> volume list stored" where
  "FilterByDriver env name s =
     (case withDriver env name s of
        (s1, Inl err) \<Rightarrow> (s1, Failed (OpErr (DriverErr err) ''list'' name []))
      | (s1, Inr vd) \<Rightarrow>
          (case e_List env vd of
             Inl err \<Rightarrow> (s1, Failed (OpErr (DriverErr err) ''list'' name []))
           | Inr ls \<Rightarrow> (s1, Done ls)))"

fun collect :: "env \<Rightarrow> driver list \<Rightarrow> volume list \<times> string list \<times> string list \<Rightarrow> volume list \<times> string list \<times> string list" where
  "collect env [] acc = acc"
| "collect env (d # ds) (ls, warnings, bad) =
     (case e_List env d of
        Inl err \<Rightarrow>
          collect env ds (ls, warnings @ [ErrorString (OpErr (DriverErr err) ''list'' (e_Name env d) [])], bad @ [e_Name env d])
      | Inr vs \<Rightarrow> collect env ds (ls @ vs, warnings, bad))"

definition list_volumes :: "env \<Rightarrow> VolumeStore \<Rightarrow> VolumeStore \<times> (string, volume list \<times> string list) result" where
  "list_volumes env s =
     (case GetAllDrivers env (drivers s) of
        (ds, Inl err) \<Rightarrow> (s\<lparr>drivers := ds\<rparr>, Inl err)
      | (ds, Inr all) \<Rightarrow>
          (case collect env (e_arrival env all) ([], [], []) of
             (ls, warnings, bad) \<Rightarrow>
               (s\<lparr>drivers := ds\<rparr>,
                Inr (ls @ filter (\<lambda>v. v_DriverName v \<in> set bad) (map snd (vnames s)), warnings))))"

fun listLoop :: "volume list \<Rightarrow> VolumeStore \<Rightarrow> volume list \<Rightarrow> VolumeStore \<times> volume list" where
  "listLoop [] s out = (s, out)"
| "listLoop (v # vs) s out =
     (case getNamed s (normaliseVolumeName (v_Name v)) of
        None \<Rightarrow> listLoop vs (setNamed v [] s) (out @ [v])
      | Some stored \<Rightarrow>
          if v_DriverName stored \<noteq> v_DriverName v then listLoop vs s out else listLoop vs s (out @ [v]))"

definition ListVolumes :: "env \<Rightarrow> VolumeStore \<Rightarrow> (volume list \<times> string list) stored" where
  "ListVolumes env s =
     (case list_volumes env s of
        (s1, Inl err) \<Rightarrow> (s1, Failed (OpErr (DriverErr err) ''list'' [] []))
      | (s1, Inr (vols, warnings)) \<Rightarrow> (case listLoop vols s1 [] of (s2, out) \<Rightarrow> (s2, Done (out, warnings))))"

subsection \<open>Dereferencing in place\<close>

lemma derefLoop_none:
  "\<forall>j < length arr. i \<le> j \<longrightarrow> arr ! j \<noteq> ref \<Longrightarrow> i + n = length arr \<Longrightarrow> derefLoop ref n i arr len = (arr, len, False)"
  by (induction n arbitrary: i) auto

lemma derefLoop_skip:
  "\<forall>j < k. arr ! (i + j) \<noteq> ref \<Longrightarrow> derefLoop ref (k + n) i arr len = derefLoop ref n (i + k) arr len"
proof (induction k arbitrary: i)
  case (Suc k)
  have "arr ! i \<noteq> ref" using Suc.prems by (metis add.right_neutral zero_less_Suc)
  moreover have "\<forall>j < k. arr ! (i + 1 + j) \<noteq> ref"
  proof (intro allI impI)
    fix j assume "j < k"
    then show "arr ! (i + 1 + j) \<noteq> ref" using Suc.prems [rule_format, of "Suc j"] by simp
  qed
  ultimately show ?case using Suc.IH [of "i + 1"] by simp
qed simp

text \<open>The first removal: the array behind the slice keeps its last element.\<close>

definition shifted :: "nat \<Rightarrow> nat \<Rightarrow> string list \<Rightarrow> string list" where
  "shifted i len arr = take i arr @ take (len - (i + 1)) (drop (i + 1) arr) @ drop (len - 1) arr"

lemma shifted_parts:
  assumes "i < len" "len \<le> length arr"
  shows "shifted i len arr = (take i arr @ drop (i + 1) (take len arr)) @ drop (len - 1) arr"
    and "length (take i arr @ drop (i + 1) (take len arr)) = len - 1"
  using assms by (auto simp: shifted_def take_drop min_def)

lemma length_shifted: "i < len \<Longrightarrow> len \<le> length arr \<Longrightarrow> length (shifted i len arr) = length arr"
  using shifted_parts [of i len arr] by (metis append_take_drop_id diff_less diff_le_self le_less_trans length_append length_drop less_numeral_extra(1) le_add_diff_inverse order.trans)

lemma last_shifted: "i < len \<Longrightarrow> len \<le> length arr \<Longrightarrow> last (shifted i len arr) = last arr"
  by (auto simp: shifted_def last_append last_drop)

lemma take_shifted:
  assumes "i < len" "len \<le> length arr"
  shows "take (len - 1) (shifted i len arr) = take i arr @ drop (i + 1) (take len arr)"
  using shifted_parts [OF assms] by (metis append_eq_conv_conj)

lemma nth_shifted_tail:
  assumes "i < len" "len \<le> length arr" "len - 1 \<le> j" "j < length arr"
  shows "shifted i len arr ! j = arr ! j"
proof -
  obtain x where "shifted i len arr = x @ drop (len - 1) arr" "length x = len - 1"
    using shifted_parts [OF assms(1,2)] by blast
  then show ?thesis using assms by (simp add: nth_append)
qed

lemma nth_shifted_prev:
  assumes "i + 1 < len" "len \<le> length arr"
  shows "shifted i len arr ! (len - 2) = arr ! (len - 1)"
proof -
  have "shifted i len arr ! (len - 2) = take (len - 1) (shifted i len arr) ! (len - 2)" using assms by simp
  also have "\<dots> = (take i arr @ drop (i + 1) (take len arr)) ! (len - 2)" using take_shifted [of i len arr] assms by simp
  also have "\<dots> = drop (i + 1) (take len arr) ! (len - 2 - i)"
  proof -
    have "\<not> len - 2 < i" using assms by simp
    then show ?thesis using assms by (simp add: nth_append)
  qed
  also have "\<dots> = arr ! (i + 1 + (len - 2 - i))" using assms by simp
  also have "i + 1 + (len - 2 - i) = len - 1" using assms by simp
  finally show ?thesis .
qed

lemma derefLoop_keeps:
  "len \<le> length arr \<Longrightarrow> derefLoop ref n i arr len = (arr', len', bad) \<Longrightarrow>
    filter (\<lambda>x. x \<noteq> ref) (take len' arr') = filter (\<lambda>x. x \<noteq> ref) (take len arr)"
proof (induction ref n i arr len rule: derefLoop.induct)
  case (2 ref n i arr len)
  show ?case
  proof (cases "arr ! i = ref \<and> i < len")
    case True
    let ?arr = "shifted i len arr"
    have "derefLoop ref n (i + 1) ?arr (len - 1) = (arr', len', bad)"
      using 2(4) True by (simp add: shifted_def)
    then have "filter (\<lambda>x. x \<noteq> ref) (take len' arr') = filter (\<lambda>x. x \<noteq> ref) (take (len - 1) ?arr)"
      using 2(1) True 2(3) length_shifted [of i len arr] by (simp add: shifted_def)
    also have "\<dots> = filter (\<lambda>x. x \<noteq> ref) (take i arr @ drop (i + 1) (take len arr))"
      using take_shifted [of i len arr] True 2(3) by simp
    also have "\<dots> = filter (\<lambda>x. x \<noteq> ref) (take i (take len arr) @ arr ! i # drop (i + 1) (take len arr))"
      using True by (simp add: min_def)
    also have "take i (take len arr) @ arr ! i # drop (i + 1) (take len arr) = take len arr"
      using id_take_nth_drop [of i "take len arr"] True 2(3) by simp
    finally show ?thesis .
  next
    case False
    then show ?thesis using 2 by (auto split: if_splits)
  qed
qed simp

text \<open>
  After a removal everything behind the stored slice is a copy of the last reference, so the loop
  panics exactly when that is the one being removed.
\<close>

lemma derefLoop_step:
  "arr ! i = ref \<Longrightarrow> i < len \<Longrightarrow> derefLoop ref (Suc n) i arr len = derefLoop ref n (i + 1) (shifted i len arr) (len - 1)"
  by (simp add: shifted_def)

definition tail_copies :: "nat \<Rightarrow> nat \<Rightarrow> string list \<Rightarrow> bool" where
  "tail_copies i len arr \<longleftrightarrow> (\<forall>j < length arr. i \<le> j \<and> len \<le> j + 1 \<longrightarrow> arr ! j = last arr)"

lemma tail_copies_shifted:
  assumes "tail_copies i len arr" "i < len" "len \<le> length arr"
  shows "tail_copies (i + 1) (len - 1) (shifted i len arr)"
  unfolding tail_copies_def
proof (intro allI impI, elim conjE)
  fix j assume j: "j < length (shifted i len arr)" "i + 1 \<le> j" "len - 1 \<le> j + 1"
  note len = length_shifted [OF assms(2,3)] and last = last_shifted [OF assms(2,3)]
  consider "len - 1 \<le> j" | "j = len - 2" "i + 1 < len" using j(2,3) assms(2) by linarith
  then show "shifted i len arr ! j = last (shifted i len arr)"
  proof cases
    case 1
    then show ?thesis using nth_shifted_tail [OF assms(2,3), of j] j len last assms(1) by (simp add: tail_copies_def)
  next
    case 2
    then show ?thesis using nth_shifted_prev [of i len arr] assms last by (simp add: tail_copies_def)
  qed
qed

lemma tail_copies_next: "tail_copies i len arr \<Longrightarrow> tail_copies (i + 1) len arr"
  by (simp add: tail_copies_def)

lemma derefLoop_panic_after:
  "tail_copies i len arr \<Longrightarrow> len < length arr \<Longrightarrow> i + n = length arr \<Longrightarrow> 0 < n \<Longrightarrow>
    snd (snd (derefLoop ref n i arr len)) \<longleftrightarrow> last arr = ref"
proof (induction n arbitrary: i arr len)
  case (Suc n)
  show ?case
  proof (cases "arr ! i = ref")
    case True
    show ?thesis
    proof (cases "i < len")
      case False
      then have "last arr = ref" using Suc.prems True by (simp add: tail_copies_def)
      then show ?thesis using True False by simp
    next
      case i: True
      let ?arr = "shifted i len arr"
      have n: "0 < n" using Suc.prems i by simp
      have len: "length ?arr = length arr" "last ?arr = last arr"
        using length_shifted last_shifted i Suc.prems(2) by auto
      have "snd (snd (derefLoop ref n (i + 1) ?arr (len - 1))) \<longleftrightarrow> last ?arr = ref"
        using Suc.IH [OF tail_copies_shifted [OF Suc.prems(1) i] _ _ n] len Suc.prems by simp
      then show ?thesis using derefLoop_step [OF True i, of n] len by simp
    qed
  next
    case False
    show ?thesis
    proof (cases "n = 0")
      case True
      then have "i = length arr - 1" "arr \<noteq> []" using Suc.prems by auto
      then have "last arr = arr ! i" by (simp add: last_conv_nth)
      then show ?thesis using False True by simp
    next
      case n: False
      then show ?thesis using False Suc.IH [OF tail_copies_next [OF Suc.prems(1)]] Suc.prems by simp
    qed
  qed
qed simp

lemma derefLoop_panic:
  "i + n = length arr \<Longrightarrow>
    snd (snd (derefLoop ref n i arr (length arr))) \<longleftrightarrow> ref \<in> set (drop i (butlast arr)) \<and> last arr = ref"
proof (induction n arbitrary: i)
  case (Suc n)
  then have i: "i < length arr" by simp
  show ?case
  proof (cases "n = 0")
    case True
    then have "drop i (butlast arr) = []" "arr \<noteq> []" using Suc.prems i by auto
    then show ?thesis using True i by simp
  next
    case False
    then have d: "drop i (butlast arr) = arr ! i # drop (i + 1) (butlast arr)"
      using Suc.prems by (subst Cons_nth_drop_Suc [symmetric]) (auto simp: nth_butlast)
    show ?thesis
    proof (cases "arr ! i = ref")
      case True
      have "j < length arr \<Longrightarrow> length arr \<le> j + 1 \<Longrightarrow> arr ! j = last arr" for j
      proof -
        assume "j < length arr" "length arr \<le> j + 1"
        then have "j = length arr - 1" "arr \<noteq> []" by auto
        then show ?thesis by (simp add: last_conv_nth)
      qed
      then have "tail_copies i (length arr) arr" by (simp add: tail_copies_def)
      then have "tail_copies (i + 1) (length arr - 1) (shifted i (length arr) arr)" using tail_copies_shifted i by simp
      then have "snd (snd (derefLoop ref n (i + 1) (shifted i (length arr) arr) (length arr - 1))) \<longleftrightarrow> last arr = ref"
        using derefLoop_panic_after [of "i + 1" "length arr - 1" "shifted i (length arr) arr" n ref] False Suc.prems i
          length_shifted [OF i order_refl] last_shifted [OF i order_refl] by simp
      then show ?thesis using True d derefLoop_step [OF True i, of n] by simp
    next
      case False
      then show ?thesis using Suc.IH [of "i + 1"] Suc.prems d by auto
    qed
  qed
qed simp

text \<open>A reference that is there once is removed; of two in a row, one stays.\<close>

lemma derefLoop_once:
  assumes "ref \<notin> set xs" "ref \<notin> set ys"
  shows "\<exists>arr. derefLoop ref (length (xs @ ref # ys)) 0 (xs @ ref # ys) (length (xs @ ref # ys)) = (arr, length (xs @ ys), False)
    \<and> take (length (xs @ ys)) arr = xs @ ys"
proof -
  let ?rs = "xs @ ref # ys" and ?i = "length xs"
  let ?arr = "shifted ?i (length ?rs) ?rs"
  have "derefLoop ref (length xs + length (ref # ys)) 0 ?rs (length ?rs) = derefLoop ref (length (ref # ys)) ?i ?rs (length ?rs)"
  proof -
    have "\<forall>j < ?i. ?rs ! (0 + j) \<noteq> ref" using assms(1) by (auto simp: nth_append dest: nth_mem)
    from derefLoop_skip [OF this, of "length (ref # ys)" "length ?rs"] show ?thesis by simp
  qed
  also have "\<dots> = derefLoop ref (length ys) (?i + 1) ?arr (length ?rs - 1)"
    using derefLoop_step [of ?rs ?i ref "length ?rs" "length ys"] by simp
  also have "\<dots> = (?arr, length ?rs - 1, False)"
  proof (rule derefLoop_none)
    have "drop (length ?rs - 1) ?rs = [last ?rs]"
      by (metis append_butlast_last_id append_eq_conv_conj length_butlast snoc_eq_iff_butlast append_is_Nil_conv list.distinct(1))
    then have arr: "?arr = xs @ ys @ [last ?rs]" unfolding shifted_def by simp
    show "\<forall>j < length ?arr. ?i + 1 \<le> j \<longrightarrow> ?arr ! j \<noteq> ref"
    proof (intro allI impI)
      fix j assume j: "j < length ?arr" "?i + 1 \<le> j"
      then have "?arr ! j \<in> set ys" 
        using arr by (cases "ys = []") (auto simp: nth_append not_less)
      then show "?arr ! j \<noteq> ref" using assms(2) by auto
    qed
    show "?i + 1 + length ys = length ?arr" using arr by simp
  qed
  finally show ?thesis using take_shifted [of ?i "length ?rs" ?rs] by auto
qed

end
