(* ===== verification/Volume_Properties.thy ===== *)
theory Volume_Properties
  imports Volume_Store
begin

section \<open>What the volume store promises\<close>

text \<open>
  The operations of the store as steps, whatever drivers and plugins answer: the invariant of the
  store, that a held volume cannot be removed, what a listing shows, and when dropping a reference
  panics.
\<close>

datatype vol_op =
    OpCreate env string string "(string \<times> string) list"
  | OpCreateRef env string string string "(string \<times> string) list"
  | OpGetRef env string string string
  | OpGet env string
  | OpRemove env volume
  | OpDeref volume string
  | OpList env
  | OpByDriver env string

fun runOp :: "VolumeStore \<Rightarrow> vol_op \<Rightarrow> VolumeStore" where
  "runOp s (OpCreate env name drv opts) = fst (CreateVolume env name drv opts s)"
| "runOp s (OpCreateRef env name drv ref opts) = fst (CreateWithRef env name drv ref opts s)"
| "runOp s (OpGetRef env name drv ref) = fst (GetWithRef env name drv ref s)"
| "runOp s (OpGet env name) = fst (GetVolume env name s)"
| "runOp s (OpRemove env v) = fst (RemoveVolume env v s)"
| "runOp s (OpDeref v ref) = fst (Dereference v ref s)"
| "runOp s (OpList env) = fst (ListVolumes env s)"
| "runOp s (OpByDriver env name) = fst (FilterByDriver env name s)"

subsection \<open>Changes of the store\<close>

text \<open>
  Every operation is a sequence of four kinds of changes: a driver is registered, a volume is
  named, an unused volume is purged, references are dropped.
\<close>

inductive change :: "VolumeStore \<Rightarrow> VolumeStore \<Rightarrow> bool" where
  driver_added: "wf_map (drivers s) \<longrightarrow> wf_map ds \<Longrightarrow> change s (s\<lparr>drivers := ds\<rparr>)"
| named: "change s (setNamed v ref s)"
| purged: "mget_or [] (vrefs s) name = [] \<Longrightarrow> change s (purge name s)"

lemma wf_addPlugins: "wf_map ds \<Longrightarrow> wf_map (fst (addPlugins ps ds out))"
  by (induction ps ds out rule: addPlugins.induct) auto

lemma wf_GetAllDrivers: "GetAllDrivers env ds = (ds', r) \<Longrightarrow> wf_map ds \<Longrightarrow> wf_map ds'"
  using wf_addPlugins [of ds _ "map snd ds"]
  by (auto simp: GetAllDrivers_def split: sum.splits prod.splits) (metis fst_conv)

lemma wf_GetDriver: "GetDriver env name ds = (ds', r) \<Longrightarrow> wf_map ds \<Longrightarrow> wf_map ds'"
  by (auto simp: GetDriver_def Lookup_def Let_def split: option.splits sum.splits if_splits)

lemma withDriver_change: "withDriver env name s = (s', r) \<Longrightarrow> change s s'"
  using wf_GetDriver by (auto simp: withDriver_def split: prod.splits intro!: driver_added)

lemma create_change: "create_volume env name drv opts s = (s', r) \<Longrightarrow> change\<^sup>*\<^sup>* s s'"
  by (auto simp: create_volume_def split: if_splits option.splits prod.splits sum.splits dest: withDriver_change)

lemma getVolume_change: "getVolume env name s = (s', r) \<Longrightarrow> change\<^sup>*\<^sup>* s s'"
  using wf_GetAllDrivers
  by (auto simp: getVolume_def split: option.splits prod.splits sum.splits dest: withDriver_change intro!: r_into_rtranclp driver_added)

lemma listLoop_change: "change\<^sup>*\<^sup>* s (fst (listLoop vs s out))"
proof (induction vs s out rule: listLoop.induct)
  case (2 v vs s out)
  then show ?case
    using converse_rtranclp_into_rtranclp [of change s "setNamed v [] s"] named by (auto split: option.splits)
qed simp

lemma list_volumes_change: "list_volumes env s = (s', r) \<Longrightarrow> change\<^sup>*\<^sup>* s s'"
  using wf_GetAllDrivers
  by (auto simp: list_volumes_def split: prod.splits sum.splits intro!: r_into_rtranclp driver_added)

lemma op_change: "(\<forall>v ref. op \<noteq> OpDeref v ref) \<Longrightarrow> change\<^sup>*\<^sup>* s (runOp s op)"
proof (cases op)
  case (OpCreate env name drv opts)
  then show ?thesis
    by (auto simp: CreateVolume_def Let_def split: prod.splits sum.splits dest!: create_change
        intro: rtranclp.rtrancl_into_rtrancl named)
next
  case (OpCreateRef env name drv ref opts)
  then show ?thesis
    by (auto simp: CreateWithRef_def Let_def split: prod.splits sum.splits dest!: create_change
        intro: rtranclp.rtrancl_into_rtrancl named)
next
  case (OpGetRef env name drv ref)
  then show ?thesis
    by (auto simp: GetWithRef_def Let_def split: prod.splits sum.splits dest!: withDriver_change
        intro: rtranclp.rtrancl_into_rtrancl named)
next
  case (OpGet env name)
  then show ?thesis
    by (auto simp: GetVolume_def Let_def split: prod.splits sum.splits dest!: getVolume_change
        intro: rtranclp.rtrancl_into_rtrancl named)
next
  case (OpRemove env v)
  have refs: "withDriver env d s = (s1, r) \<Longrightarrow> vrefs s1 = vrefs s" for d s1 r
    by (auto simp: withDriver_def split: prod.splits)
  show ?thesis
  proof (cases "mget_or [] (vrefs s) (v_Name v) = []")
    case False
    then have "runOp s op = s" using OpRemove
      by (auto simp: RemoveVolume_def Let_def normaliseVolumeName_def mget_or_def split: option.splits)
    then show ?thesis by simp
  next
    case True
    obtain s1 r where w: "withDriver env (v_DriverName v) s = (s1, r)" by (cases "withDriver env (v_DriverName v) s")
    then have "runOp s op = s1 \<or> runOp s op = purge (v_Name v) s1" using OpRemove True
      by (auto simp: RemoveVolume_def Let_def normaliseVolumeName_def split: sum.splits option.splits)
    moreover have "change s1 (purge (v_Name v) s1)" using True refs [OF w] by (simp add: purged)
    ultimately show ?thesis using withDriver_change [OF w] by (auto intro: converse_rtranclp_into_rtranclp)
  qed
next
  case (OpList env)
  then show ?thesis
    using listLoop_change
    by (auto simp: ListVolumes_def split: prod.splits sum.splits dest!: list_volumes_change)
      (metis fst_conv rtranclp_trans)
next
  case (OpByDriver env name)
  then show ?thesis
    by (auto simp: FilterByDriver_def split: prod.splits sum.splits dest!: withDriver_change)
qed auto

subsection \<open>Held volumes\<close>

definition holds :: "string \<Rightarrow> string \<Rightarrow> VolumeStore \<Rightarrow> bool" where
  "holds name ref s \<longleftrightarrow> ref \<in> set (mget_or [] (vrefs s) name)"

lemma change_holds: "change s s' \<Longrightarrow> holds name ref s \<Longrightarrow> holds name ref s'"
  by (induction rule: change.induct) (auto simp: holds_def setNamed_def Let_def purge_def)

lemma changes_hold: "change\<^sup>*\<^sup>* s s' \<Longrightarrow> holds name ref s \<Longrightarrow> holds name ref s'"
  by (induction rule: rtranclp_induct) (auto dest: change_holds)

fun drops :: "string \<Rightarrow> string \<Rightarrow> vol_op \<Rightarrow> bool" where
  "drops name ref (OpDeref v ref') = (v_Name v = name \<and> ref' = ref)"
| "drops name ref _ = False"

lemma deref_holds:
  assumes "holds name ref s" "\<not> (v_Name v = name \<and> ref' = ref)"
  shows "holds name ref (fst (Dereference v ref' s))"
proof (cases "mget (vrefs s) (v_Name v)")
  case None
  then show ?thesis using assms by (simp add: Dereference_def)
next
  case (Some rs)
  obtain arr len bad where d: "derefLoop ref' (length rs) 0 rs (length rs) = (arr, len, bad)"
    by (cases "derefLoop ref' (length rs) 0 rs (length rs)")
  have "set (filter (\<lambda>x. x \<noteq> ref') (take len arr)) = set (filter (\<lambda>x. x \<noteq> ref') rs)"
    using derefLoop_keeps [OF _ d] by simp
  then have "ref \<noteq> ref' \<Longrightarrow> ref \<in> set rs \<Longrightarrow> ref \<in> set (take len arr)" by auto
  then show ?thesis using assms Some d by (auto simp: holds_def Dereference_def mget_or_Some split: if_splits)
qed

lemma op_holds: "holds name ref s \<Longrightarrow> \<not> drops name ref op \<Longrightarrow> holds name ref (runOp s op)"
proof (cases "\<exists>v r. op = OpDeref v r")
  case True
  assume "holds name ref s" "\<not> drops name ref op"
  then show ?thesis using True deref_holds by auto
next
  case False
  assume "holds name ref s"
  then show ?thesis using False changes_hold op_change by blast
qed

interpretation held: guarded_system s0 runOp "\<lambda>s. holds name ref s0 \<longrightarrow> holds name ref s" "\<lambda>op. \<not> drops name ref op"
  for s0 name ref
  by unfold_locales (auto intro: op_holds)

lemma setNamed_holds: "ref \<noteq> [] \<Longrightarrow> holds (v_Name v) ref (setNamed v ref s)"
  by (simp add: holds_def setNamed_def Let_def)

lemma acquired_holds:
  assumes "CreateWithRef env n d ref opts s = (s1, Done v) \<or> GetWithRef env n d ref s = (s1, Done v)" "ref \<noteq> []"
  shows "holds (v_Name v) ref s1"
  using assms setNamed_holds
  by (auto simp: CreateWithRef_def GetWithRef_def Let_def split: prod.splits sum.splits)

lemma held_not_removed:
  assumes "holds (v_Name w) ref s"
  shows "\<exists>rs. RemoveVolume env w s = (s, Failed (OpErr ErrVolumeInUse ''remove'' (v_Name w) rs)) \<and> ref \<in> set rs"
  using assms
  by (auto simp: holds_def RemoveVolume_def Let_def normaliseVolumeName_def mget_or_def split: option.splits)

text \<open>
  C36: A volume that is in use is not removed.  From the moment a reference is acquired, with
  \<^verbatim>\<open>CreateWithRef\<close> or \<^verbatim>\<open>GetWithRef\<close>, until that reference itself is dropped, and whatever else is done to
  the store and whatever the drivers answer, removing the volume fails with an error that says that
  it is in use and by whom, and changes nothing.
\<close>

theorem held_volume_not_removed:
  assumes "CreateWithRef env n d ref opts s = (s1, Done v) \<or> GetWithRef env n d ref s = (s1, Done v)" "ref \<noteq> []"
    and "list_all (\<lambda>op. \<not> drops (v_Name v) ref op) ops" "v_Name w = v_Name v"
  shows "\<exists>rs. RemoveVolume env' w (foldl runOp s1 ops) =
      (foldl runOp s1 ops, Failed (OpErr ErrVolumeInUse ''remove'' (v_Name w) rs)) \<and> ref \<in> set rs"
proof (rule held_not_removed)
  have "holds (v_Name v) ref (foldl runOp s1 ops)"
    using held.guarded_run [OF assms(3), of s1] acquired_holds [OF assms(1,2)] by blast
  then show "holds (v_Name w) ref (foldl runOp s1 ops)" using assms(4) by simp
qed

definition one_driver :: env where
  "one_driver = \<lparr>e_Name = (\<lambda>_. ''local''), e_Get = (\<lambda>_ n. Inl ''none''),
     e_Create = (\<lambda>_ n _. Inr \<lparr>v_Name = n, v_DriverName = ''local'', v_Path = ''/v/'' @ n\<rparr>), e_Remove = (\<lambda>_ _. None),
     e_List = (\<lambda>_. Inr []), e_plugin = (\<lambda>_. Inl ''no plugin''), e_plugins = Inr [], e_arrival = id\<rparr>"

abbreviation data :: volume where
  "data \<equiv> \<lparr>v_Name = ''data'', v_DriverName = ''local'', v_Path = ''/v/data''\<rparr>"

theorem held_volume_not_removed_witness:
  "\<exists>s1 rs. CreateWithRef one_driver ''data'' [] ''c1'' [] (NewStore [(''local'', 0)]) = (s1, Done data)
    \<and> RemoveVolume one_driver data (foldl runOp s1 [OpDeref data ''c2'', OpRemove one_driver data]) =
        (foldl runOp s1 [OpDeref data ''c2'', OpRemove one_driver data], Failed (OpErr ErrVolumeInUse ''remove'' ''data'' rs))
    \<and> ''c1'' \<in> set rs"
proof -
  obtain s1 where s1: "CreateWithRef one_driver ''data'' [] ''c1'' [] (NewStore [(''local'', 0)]) = (s1, Done data)"
    by (simp add: CreateWithRef_def create_volume_def getNamed_def IsVolumeNameValid_def withDriver_def GetDriver_def
        Lookup_def DefaultDriverName_def NewStore_def one_driver_def normaliseVolumeName_def Let_def)
  have ok: "list_all (\<lambda>op. \<not> drops (v_Name data) ''c1'' op) [OpDeref data ''c2'', OpRemove one_driver data]" by simp
  from held_volume_not_removed [OF disjI1 [OF s1] _ ok refl, of one_driver] show ?thesis using s1 by auto
qed

subsection \<open>The invariant of the store\<close>

definition store_inv :: "VolumeStore \<Rightarrow> bool" where
  "store_inv s \<longleftrightarrow>
     wf_map (vnames s) \<and> wf_map (vrefs s) \<and> wf_map (drivers s)
     \<and> (\<forall>n v. mget (vnames s) n = Some v \<longrightarrow> v_Name v = n)
     \<and> (\<forall>n. mget (vrefs s) n \<noteq> None \<longrightarrow> mget (vnames s) n \<noteq> None)
     \<and> (\<forall>n. [] \<notin> set (mget_or [] (vrefs s) n))"

lemma change_inv: "change s s' \<Longrightarrow> store_inv s \<Longrightarrow> store_inv s'"
  by (induction rule: change.induct) (auto simp: store_inv_def setNamed_def Let_def purge_def)

lemma changes_inv: "change\<^sup>*\<^sup>* s s' \<Longrightarrow> store_inv s \<Longrightarrow> store_inv s'"
  by (induction rule: rtranclp_induct) (auto dest: change_inv)

lemma derefLoop_subset: "derefLoop ref n i arr len = (arr', len', bad) \<Longrightarrow> set arr' \<subseteq> set arr"
proof (induction ref n i arr len rule: derefLoop.induct)
  case (2 ref n i arr len)
  have "set (take i arr @ take (len - (i + 1)) (drop (i + 1) arr) @ drop (len - 1) arr) \<subseteq> set arr"
    by (auto dest: in_set_takeD in_set_dropD)
  then show ?case using 2 by (auto split: if_splits)
qed simp

lemma deref_inv:
  assumes "store_inv s"
  shows "store_inv (fst (Dereference v ref s))"
proof (cases "mget (vrefs s) (v_Name v)")
  case None
  then show ?thesis using assms by (simp add: Dereference_def)
next
  case (Some rs)
  obtain arr len bad where d: "derefLoop ref (length rs) 0 rs (length rs) = (arr, len, bad)"
    by (cases "derefLoop ref (length rs) 0 rs (length rs)")
  have "set (take len arr) \<subseteq> set rs" using derefLoop_subset [OF d] by (auto dest: in_set_takeD)
  moreover have "[] \<notin> set rs" using assms Some unfolding store_inv_def by (metis mget_or_Some)
  ultimately show ?thesis using assms Some d by (auto simp: store_inv_def Dereference_def)
qed

interpretation volumes: step_system "NewStore []" runOp store_inv
proof
  show "store_inv (NewStore [])" by (simp add: store_inv_def NewStore_def mget_or_def)
  show "store_inv (runOp s op)" if "store_inv s" for s op
  proof (cases "\<exists>v r. op = OpDeref v r")
    case True
    then show ?thesis using that deref_inv by auto
  next
    case False
    then show ?thesis using that changes_inv op_change by blast
  qed
qed

text \<open>A listing shows only volumes of the driver that the store knows for their name.\<close>

lemma listLoop_drivers:
  "\<forall>v \<in> set out. \<exists>u. mget (vnames s) (v_Name v) = Some u \<and> v_DriverName u = v_DriverName v \<Longrightarrow>
   listLoop vs s out = (s', out') \<Longrightarrow>
   \<forall>v \<in> set out'. \<exists>u. mget (vnames s') (v_Name v) = Some u \<and> v_DriverName u = v_DriverName v"
proof (induction vs s out rule: listLoop.induct)
  case (2 v vs s out)
  show ?case
  proof (cases "mget (vnames s) (v_Name v)")
    case None
    then have "\<forall>x \<in> set (out @ [v]). \<exists>u. mget (vnames (setNamed v [] s)) (v_Name x) = Some u \<and> v_DriverName u = v_DriverName x"
      using "2.prems" by (auto simp: setNamed_def Let_def)
    then show ?thesis using 2(1) "2.prems"(2) None by (simp add: getNamed_def normaliseVolumeName_def)
  next
    case (Some u)
    then show ?thesis using "2.IH"(2,3) "2.prems"
      by (auto simp: getNamed_def normaliseVolumeName_def split: if_splits)
  qed
qed simp

text \<open>
  C38: The store is well formed after any sequence of operations: a volume is stored under its own
  name, references are kept for stored volumes only and are never empty, and a listing shows a volume
  only with the driver that is stored for its name, so no name is listed with two drivers.
\<close>

theorem volume_store_wellformed:
  "let s = foldl runOp (NewStore []) ops in
   (\<forall>n v. mget (vnames s) n = Some v \<longrightarrow> v_Name v = n)
   \<and> (\<forall>n. mget (vrefs s) n \<noteq> None \<longrightarrow> mget (vnames s) n \<noteq> None)
   \<and> (\<forall>v. [] \<notin> set (Refs v s))
   \<and> (\<forall>env s' vs ws u v. ListVolumes env s = (s', Done (vs, ws)) \<and> u \<in> set vs \<and> v \<in> set vs \<and> v_Name u = v_Name v
        \<longrightarrow> v_DriverName u = v_DriverName v)"
proof -
  let ?s = "foldl runOp (NewStore []) ops"
  have inv: "store_inv ?s" by (rule volumes.inv_run)
  have "v_DriverName u = v_DriverName v"
    if l: "ListVolumes env ?s = (s', Done (vs, ws))" and m: "u \<in> set vs" "v \<in> set vs" "v_Name u = v_Name v" for env s' vs ws u v
  proof -
    obtain s1 vols where "listLoop vols s1 [] = (s', vs)"
      using l by (auto simp: ListVolumes_def split: prod.splits sum.splits)
    from listLoop_drivers [OF _ this]
    have "\<forall>x \<in> set vs. \<exists>y. mget (vnames s') (v_Name x) = Some y \<and> v_DriverName y = v_DriverName x" by simp
    from bspec [OF this m(1)] bspec [OF this m(2)] m(3) show ?thesis by auto
  qed
  then show ?thesis using inv unfolding store_inv_def Refs_def Let_def by blast
qed

theorem volume_store_wellformed_witness:
  "v_Name data = ''data'' \<and> mget (vnames (foldl runOp (NewStore []) [OpCreateRef
      (one_driver\<lparr>e_plugin := (\<lambda>_. Inr 0)\<rparr>) ''data'' [] ''c1'' []])) ''data'' = Some data"
proof -
  let ?ops = "[OpCreateRef (one_driver\<lparr>e_plugin := (\<lambda>_. Inr 0)\<rparr>) ''data'' [] ''c1'' []]"
  have "mget (vnames (foldl runOp (NewStore []) ?ops)) ''data'' = Some data"
    by (simp add: CreateWithRef_def create_volume_def getNamed_def IsVolumeNameValid_def withDriver_def GetDriver_def
        Lookup_def DefaultDriverName_def NewStore_def one_driver_def normaliseVolumeName_def setNamed_def Let_def)
  then show ?thesis using volume_store_wellformed [of ?ops] unfolding Let_def by blast
qed

subsection \<open>Dropping a reference\<close>

lemma once_split:
  assumes "distinct rs" "ref \<in> set rs"
  obtains xs ys where "rs = xs @ ref # ys" "ref \<notin> set xs" "ref \<notin> set ys" "removeAll ref rs = xs @ ys"
proof -
  obtain xs ys where s: "rs = xs @ ref # ys" using assms(2) by (auto simp: in_set_conv_decomp)
  then have "ref \<notin> set xs" "ref \<notin> set ys" using assms(1) by auto
  then show thesis using that s by simp
qed

lemma derefLoop_distinct:
  assumes "distinct rs" "derefLoop ref (length rs) 0 rs (length rs) = (arr, len, bad)"
  shows "take len arr = removeAll ref rs \<and> \<not> bad"
proof (cases "ref \<in> set rs")
  case True
  then obtain xs ys where r: "rs = xs @ ref # ys" "ref \<notin> set xs" "ref \<notin> set ys" "removeAll ref rs = xs @ ys"
    using once_split [OF assms(1)] by metis
  from derefLoop_once [OF r(2,3)] show ?thesis using assms(2) r(1,4) by auto
next
  case False
  then have "\<forall>j < length rs. 0 \<le> j \<longrightarrow> rs ! j \<noteq> ref" by (metis nth_mem)
  from derefLoop_none [OF this, of "length rs"] show ?thesis using assms(2) False by (auto simp: removeAll_id)
qed

text \<open>
  Dropping a reference removes only that reference, and removes it entirely when no reference
  is kept twice.  When one is kept twice, as for a container that mounts a volume at two places, the
  loop, which shortens the slice it ranges over, panics exactly when the last reference is the one
  to drop and an earlier one equals it.
\<close>

theorem dereference_removes:
  assumes "mget (vrefs s) (v_Name v) = Some rs" "Dereference v ref s = (s', out)"
  shows "filter (\<lambda>r. r \<noteq> ref) (Refs v s') = filter (\<lambda>r. r \<noteq> ref) rs
    \<and> (distinct rs \<longrightarrow> out = Done () \<and> Refs v s' = removeAll ref rs)
    \<and> (no_panic out \<longleftrightarrow> \<not> (rs \<noteq> [] \<and> last rs = ref \<and> ref \<in> set (butlast rs)))"
proof -
  obtain arr len bad where d: "derefLoop ref (length rs) 0 rs (length rs) = (arr, len, bad)"
    by (cases "derefLoop ref (length rs) 0 rs (length rs)")
  have s': "Refs v s' = take len arr" "out = (if bad then Panicked ''slice bounds out of range'' else Done ())"
    using assms d by (auto simp: Dereference_def Refs_def)
  have "bad \<longleftrightarrow> ref \<in> set (butlast rs) \<and> last rs = ref" using derefLoop_panic [of 0 "length rs" rs ref] d by simp
  then show ?thesis using s' derefLoop_keeps [OF _ d] derefLoop_distinct [OF _ d] by auto
qed

theorem dereference_removes_witness:
  "\<not> no_panic (snd (Dereference data ''c1''
     \<lparr>vnames = [(''data'', data)], vrefs = [(''data'', [''c1'', ''c1''])], drivers = []\<rparr>))"
proof -
  let ?s = "\<lparr>vnames = [(''data'', data)], vrefs = [(''data'', [''c1'', ''c1''])], drivers = []\<rparr>"
  obtain s' out where d: "Dereference data ''c1'' ?s = (s', out)" by (cases "Dereference data ''c1'' ?s")
  have "mget (vrefs ?s) (v_Name data) = Some [''c1'', ''c1'']" by simp
  from dereference_removes [OF this d] d show ?thesis by simp
qed

end
