(* ===== verification/Mount_Points.thy ===== *)
theory Mount_Points
  imports Volume_Properties
begin

section \<open>The mount points of a container (\<^verbatim>\<open>daemon/volumes.go\<close>, \<^verbatim>\<open>daemon/mounts.go\<close>)\<close>

text \<open>
  How the daemon registers the mount points of a container with the volume store and removes them.
  The containers it looks up, and the relabelling of directories for SELinux, are arguments.  The
  mount points are a map by destination; a map is ranged over in the order of its list.
\<close>

type_synonym mounts = "(string, MountPoint) gomap"

record HostConfig =
  VolumesFrom :: "string list"
  Binds :: "string list"
  VolumeDriver :: string

record host =
  h_env :: env
  h_container :: "string \<Rightarrow> (string, mounts) result"
  h_relabelNeeded :: "string \<Rightarrow> bool"
  h_relabel :: "string \<Rightarrow> string option"

datatype mount_error =
    BadSpec volume_error
  | StoreFailed store_error
  | NoSuchContainer string
  | MountDup string
  | RelabelFailed string
  | RemovingVolume "string list"

type_synonym 'a mounting = "VolumeStore \<times> (mount_error, 'a) outcome"

definition setBindModeIfNull :: "MountPoint \<Rightarrow> MountPoint" where
  "setBindModeIfNull bind = (if Mode bind = [] then bind\<lparr>Mode := ''z''\<rparr> else bind)"

text \<open>The mount points of one container named in \<^verbatim>\<open>VolumesFrom\<close>.\<close>

definition importedPoint :: "string \<Rightarrow> MountPoint \<Rightarrow> MountPoint" where
  "importedPoint mode m =
     \<lparr>Source = Source m, Destination = Destination m, RW = (RW m \<and> ReadWrite mode), mp_Name = mp_Name m, Driver = Driver m,
      Volume = None, Mode = [], Propagation = Propagation m, Named = Named m\<rparr>"

fun importLoop :: "env \<Rightarrow> string \<Rightarrow> string \<Rightarrow> MountPoint list \<Rightarrow> mounts \<Rightarrow> VolumeStore \<Rightarrow> mounts mounting" where
  "importLoop env cid mode [] ms s = (s, Done ms)"
| "importLoop env cid mode (m # rest) ms s =
     (let cp = importedPoint mode m in
      if length (Source cp) = 0 then
        (case GetWithRef env (mp_Name cp) (Driver cp) cid s of
           (s1, Done v) \<Rightarrow> importLoop env cid mode rest (mput (Destination cp) (cp\<lparr>Volume := Some v\<rparr>) ms) s1
         | (s1, Failed e) \<Rightarrow> (s1, Failed (StoreFailed e))
         | (s1, Panicked p) \<Rightarrow> (s1, Panicked p))
      else importLoop env cid mode rest (mput (Destination cp) cp ms) s)"

fun fromLoop :: "host \<Rightarrow> string \<Rightarrow> string list \<Rightarrow> mounts \<Rightarrow> VolumeStore \<Rightarrow> mounts mounting" where
  "fromLoop h cid [] ms s = (s, Done ms)"
| "fromLoop h cid (v # vs) ms s =
     (case ParseVolumesFrom v of
        Inl e \<Rightarrow> (s, Failed (BadSpec e))
      | Inr (c, mode) \<Rightarrow>
          (case h_container h c of
             Inl e \<Rightarrow> (s, Failed (NoSuchContainer e))
           | Inr points \<Rightarrow>
               (case importLoop (h_env h) cid mode (map snd points) ms s of
                  (s1, Done ms1) \<Rightarrow> fromLoop h cid vs ms1 s1
                | r \<Rightarrow> r)))"

text \<open>The bind mounts of the client.\<close>

definition bindVolume :: "env \<Rightarrow> string \<Rightarrow> MountPoint \<Rightarrow> VolumeStore \<Rightarrow> MountPoint mounting" where
  "bindVolume env cid bind s =
     (if length (mp_Name bind) > 0 \<and> length (Driver bind) > 0 then
        (case CreateWithRef env (mp_Name bind) (Driver bind) cid [] s of
           (s1, Done v) \<Rightarrow>
             (s1, Done (setBindModeIfNull
                (bind\<lparr>Volume := Some v, Source := v_Path v, Driver := v_DriverName v, Named := True\<rparr>)))
         | (s1, Failed e) \<Rightarrow> (s1, Failed (StoreFailed e))
         | (s1, Panicked p) \<Rightarrow> (s1, Panicked p))
      else (s, Done bind))"

fun bindLoop :: "host \<Rightarrow> string \<Rightarrow> string \<Rightarrow> string list \<Rightarrow> string list \<Rightarrow> mounts \<Rightarrow> VolumeStore \<Rightarrow> mounts mounting" where
  "bindLoop h cid drv [] binds ms s = (s, Done ms)"
| "bindLoop h cid drv (b # bs) binds ms s =
     (case ParseMountSpec b drv of
        Inl e \<Rightarrow> (s, Failed (BadSpec e))
      | Inr bind0 \<Rightarrow>
          if Destination bind0 \<in> set binds then (s, Failed (MountDup (Destination bind0)))
          else
            (case bindVolume (h_env h) cid bind0 s of
               (s1, Done bind) \<Rightarrow>
                 (case (if h_relabelNeeded h (Mode bind) then h_relabel h (Source bind) else None) of
                    Some e \<Rightarrow> (s1, Failed (RelabelFailed e))
                  | None \<Rightarrow>
                      bindLoop h cid drv bs (Destination bind # binds) (mput (Destination bind) bind ms) s1)
             | (s1, Failed e) \<Rightarrow> (s1, Failed e)
             | (s1, Panicked p) \<Rightarrow> (s1, Panicked p)))"

text \<open>The volumes that are about to be reassigned.\<close>

fun reassignLoop :: "string \<Rightarrow> mounts \<Rightarrow> MountPoint list \<Rightarrow> VolumeStore \<Rightarrow> unit mounting" where
  "reassignLoop cid old [] s = (s, Done ())"
| "reassignLoop cid old (m # ms) s =
     (if BackwardsCompatible m then
        (case mget old (Destination m) of
           Some mp \<Rightarrow>
             (case Volume mp of
                Some v \<Rightarrow>
                  (case Dereference v cid s of
                     (s1, Panicked p) \<Rightarrow> (s1, Panicked p)
                   | (s1, _) \<Rightarrow> reassignLoop cid old ms s1)
              | None \<Rightarrow> reassignLoop cid old ms s)
         | None \<Rightarrow> reassignLoop cid old ms s)
      else reassignLoop cid old ms s)"

definition registerMountPoints :: "host \<Rightarrow> string \<Rightarrow> HostConfig \<Rightarrow> mounts \<Rightarrow> VolumeStore \<Rightarrow> mounts mounting" where
  "registerMountPoints h cid hostConfig old s =
     (case fromLoop h cid (VolumesFrom hostConfig) old s of
        (s1, Done ms1) \<Rightarrow>
          (case bindLoop h cid (VolumeDriver hostConfig) (Binds hostConfig) [] ms1 s1 of
             (s2, Done ms2) \<Rightarrow>
               (case reassignLoop cid old (map snd ms2) s2 of
                  (s3, Done _) \<Rightarrow> (s3, Done ms2)
                | (s3, Failed e) \<Rightarrow> (s3, Failed e)
                | (s3, Panicked p) \<Rightarrow> (s3, Panicked p))
           | r \<Rightarrow> r)
      | r \<Rightarrow> r)"

definition lazyInitializeVolume :: "env \<Rightarrow> string \<Rightarrow> MountPoint \<Rightarrow> VolumeStore \<Rightarrow> MountPoint mounting" where
  "lazyInitializeVolume env cid m s =
     (if length (Driver m) > 0 \<and> Volume m = None then
        (case GetWithRef env (mp_Name m) (Driver m) cid s of
           (s1, Done v) \<Rightarrow> (s1, Done (m\<lparr>Volume := Some v\<rparr>))
         | (s1, Failed e) \<Rightarrow> (s1, Failed (StoreFailed e))
         | (s1, Panicked p) \<Rightarrow> (s1, Panicked p))
      else (s, Done m))"

text \<open>The mount points are shared with the container: what was initialised stays so after an error.\<close>

fun prepareLoop :: "env \<Rightarrow> string \<Rightarrow> mounts \<Rightarrow> mounts \<Rightarrow> VolumeStore \<Rightarrow> mounts \<times> unit mounting" where
  "prepareLoop env cid prev [] s = (prev, s, Done ())"
| "prepareLoop env cid prev ((d, m) # ms) s =
     (case lazyInitializeVolume env cid m s of
        (s1, Done m1) \<Rightarrow> prepareLoop env cid (prev @ [(d, m1)]) ms s1
      | (s1, Failed e) \<Rightarrow> (prev @ (d, m) # ms, s1, Failed e)
      | (s1, Panicked p) \<Rightarrow> (prev @ (d, m) # ms, s1, Panicked p))"

definition prepareMountPoints :: "env \<Rightarrow> string \<Rightarrow> mounts \<Rightarrow> VolumeStore \<Rightarrow> mounts \<times> unit mounting" where
  "prepareMountPoints env cid ms s = prepareLoop env cid [] ms s"

text \<open>Removing the mount points, and with \<open>rm\<close> the volumes that were not named by the user.\<close>

fun removeLoop :: "env \<Rightarrow> string \<Rightarrow> bool \<Rightarrow> MountPoint list \<Rightarrow> VolumeStore \<Rightarrow> string list \<Rightarrow> unit mounting" where
  "removeLoop env cid rm [] s errs = (s, if length errs > 0 then Failed (RemovingVolume errs) else Done ())"
| "removeLoop env cid rm (m # ms) s errs =
     (case Volume m of
        None \<Rightarrow> removeLoop env cid rm ms s errs
      | Some v \<Rightarrow>
          (case Dereference v cid s of
             (s1, Panicked p) \<Rightarrow> (s1, Panicked p)
           | (s1, _) \<Rightarrow>
               if rm \<and> \<not> Named m then
                 (case RemoveVolume env v s1 of
                    (s2, Panicked p) \<Rightarrow> (s2, Panicked p)
                  | (s2, Failed e) \<Rightarrow>
                      removeLoop env cid rm ms s2 (if \<not> IsInUse e then errs @ [ErrorString e] else errs)
                  | (s2, Done _) \<Rightarrow> removeLoop env cid rm ms s2 errs)
               else removeLoop env cid rm ms s1 errs))"

definition removeMountPoints :: "env \<Rightarrow> string \<Rightarrow> mounts \<Rightarrow> bool \<Rightarrow> VolumeStore \<Rightarrow> unit mounting" where
  "removeMountPoints env cid ms rm s = removeLoop env cid rm (map snd ms) s []"

subsection \<open>The order of mounts (\<^verbatim>\<open>sortMounts\<close>)\<close>

text \<open>\<^verbatim>\<open>sort.Sort\<close> gives some permutation that is sorted by \<open>parts\<close>; the stable one stands for it in runs.\<close>

definition parts :: "string \<Rightarrow> nat" where
  "parts dest = count_char CHR ''/'' (Clean dest)"

definition sortMounts :: "string list \<Rightarrow> string list" where
  "sortMounts m = sort_key parts m"

subsection \<open>Registered volumes are held\<close>

definition point_held :: "string \<Rightarrow> VolumeStore \<Rightarrow> MountPoint \<Rightarrow> bool" where
  "point_held cid s m \<longleftrightarrow> (\<forall>v. Volume m = Some v \<longrightarrow> holds (v_Name v) cid s)"

definition points_held :: "string \<Rightarrow> VolumeStore \<Rightarrow> mounts \<Rightarrow> bool" where
  "points_held cid s ms \<longleftrightarrow> (\<forall>m \<in> snd ` set ms. point_held cid s m)"

lemma mput_values: "snd ` set (mput k v m) \<subseteq> insert v (snd ` set m)"
  by (induction m) auto

lemma points_held_mput: "points_held cid s ms \<Longrightarrow> point_held cid s m \<Longrightarrow> points_held cid s (mput d m ms)"
  using mput_values [of d m ms] unfolding points_held_def by blast

definition keeps_held :: "string \<Rightarrow> VolumeStore \<Rightarrow> VolumeStore \<Rightarrow> bool" where
  "keeps_held cid s s' \<longleftrightarrow> (\<forall>n. holds n cid s \<longrightarrow> holds n cid s')"

lemma keeps_points: "keeps_held cid s s' \<Longrightarrow> points_held cid s ms \<Longrightarrow> points_held cid s' ms"
  by (auto simp: keeps_held_def points_held_def point_held_def)

lemma GetWithRef_keeps: "GetWithRef env n d ref s = (s1, r) \<Longrightarrow> keeps_held cid s s1"
  using op_holds [of _ cid s "OpGetRef env n d ref"] by (auto simp: keeps_held_def)

lemma CreateWithRef_keeps: "CreateWithRef env n d ref opts s = (s1, r) \<Longrightarrow> keeps_held cid s s1"
  using op_holds [of _ cid s "OpCreateRef env n d ref opts"] by (auto simp: keeps_held_def)

lemma importLoop_held:
  "cid \<noteq> [] \<Longrightarrow> points_held cid s ms \<Longrightarrow> importLoop env cid mode ps ms s = (s', Done ms') \<Longrightarrow> points_held cid s' ms'"
proof (induction env cid mode ps ms s rule: importLoop.induct)
  case (2 env cid mode m rest ms s)
  let ?cp = "importedPoint mode m"
  show ?case
  proof (cases "length (Source ?cp) = 0")
    case True
    then obtain s1 v where g: "GetWithRef env (mp_Name ?cp) (Driver ?cp) cid s = (s1, Done v)"
      and r: "importLoop env cid mode rest (mput (Destination ?cp) (?cp\<lparr>Volume := Some v\<rparr>) ms) s1 = (s', Done ms')"
      using "2.prems"(3) by (auto simp: Let_def split: prod.splits outcome.splits)
    have "point_held cid s1 (?cp\<lparr>Volume := Some v\<rparr>)"
      using acquired_holds [OF disjI2 [OF g] "2.prems"(1)] by (simp add: point_held_def)
    then show ?thesis
      using "2.IH"(1) [OF refl True _ _ "2.prems"(1) _ r] g points_held_mput keeps_points [OF GetWithRef_keeps [OF g] "2.prems"(2)] by simp
  next
    case False
    then have "importLoop env cid mode rest (mput (Destination ?cp) ?cp ms) s = (s', Done ms')"
      using "2.prems"(3) by (simp add: Let_def)
    moreover have "point_held cid s ?cp" by (simp add: point_held_def importedPoint_def)
    ultimately show ?thesis using "2.IH"(2) [OF refl False "2.prems"(1)] points_held_mput "2.prems"(2) by simp
  qed
qed simp

lemma fromLoop_held:
  "cid \<noteq> [] \<Longrightarrow> points_held cid s ms \<Longrightarrow> fromLoop h cid vs ms s = (s', Done ms') \<Longrightarrow> points_held cid s' ms'"
proof (induction h cid vs ms s rule: fromLoop.induct)
  case (2 h cid v vs ms s)
  then obtain c mode points s1 ms1 where
    p: "ParseVolumesFrom v = Inr (c, mode)" "h_container h c = Inr points"
      "importLoop (h_env h) cid mode (map snd points) ms s = (s1, Done ms1)" "fromLoop h cid vs ms1 s1 = (s', Done ms')"
    by (auto split: sum.splits prod.splits outcome.splits)
  from importLoop_held [OF "2.prems"(1,2) p(3)] show ?case using 2(1) p "2.prems"(1) by simp
qed simp

lemma bindVolume_held:
  assumes "cid \<noteq> []" "bindVolume env cid m s = (s1, Done m1)" "Volume m = None"
  shows "keeps_held cid s s1" "point_held cid s1 m1"
proof -
  have "keeps_held cid s s1 \<and> point_held cid s1 m1"
  proof (cases "length (mp_Name m) > 0 \<and> length (Driver m) > 0")
    case True
    then obtain v where c: "CreateWithRef env (mp_Name m) (Driver m) cid [] s = (s1, Done v)" and "Volume m1 = Some v"
      using assms(2) by (auto simp: bindVolume_def setBindModeIfNull_def split: prod.splits outcome.splits)
    then show ?thesis using CreateWithRef_keeps [OF c] acquired_holds [OF disjI1 [OF c] assms(1)] by (simp add: point_held_def)
  next
    case False
    then show ?thesis using assms by (auto simp: bindVolume_def keeps_held_def point_held_def)
  qed
  then show "keeps_held cid s s1" "point_held cid s1 m1" by auto
qed

lemma bindLoop_held:
  "cid \<noteq> [] \<Longrightarrow> points_held cid s ms \<Longrightarrow> bindLoop h cid drv bs binds ms s = (s', Done ms') \<Longrightarrow> points_held cid s' ms'"
proof (induction h cid drv bs binds ms s rule: bindLoop.induct)
  case (2 h cid drv b bs binds ms s)
  from "2.prems"(3) obtain bind0 s1 bind where
    p: "ParseMountSpec b drv = Inr bind0" "Destination bind0 \<notin> set binds" "bindVolume (h_env h) cid bind0 s = (s1, Done bind)"
    and l: "(if h_relabelNeeded h (Mode bind) then h_relabel h (Source bind) else None) = None"
    and r: "bindLoop h cid drv bs (Destination bind # binds) (mput (Destination bind) bind ms) s1 = (s', Done ms')"
    by (auto split: sum.splits if_splits prod.splits outcome.splits option.splits)
  have "Volume bind0 = None" using parse_canonical(1) [OF p(1)] by (simp add: canonical_mount_def)
  note b = bindVolume_held [OF "2.prems"(1) p(3) this]
  have "points_held cid s1 (mput (Destination bind) bind ms)"
    by (rule points_held_mput [OF keeps_points [OF b(1) "2.prems"(2)] b(2)])
  from "2.IH" [OF p(1,2) p(3) [symmetric] refl l "2.prems"(1) this r] show ?case .
qed simp

lemma reassignLoop_fresh: "reassignLoop cid [] ms s = (s, Done ())"
  by (induction ms arbitrary: s) auto

lemma register_held:
  assumes "cid \<noteq> []" "registerMountPoints h cid hc [] s = (s', Done ms)"
  shows "points_held cid s' ms"
proof -
  obtain s1 ms1 where f: "fromLoop h cid (VolumesFrom hc) [] s = (s1, Done ms1)"
    and b: "bindLoop h cid (VolumeDriver hc) (Binds hc) [] ms1 s1 = (s', Done ms)"
    using assms(2) by (auto simp: registerMountPoints_def reassignLoop_fresh split: prod.splits outcome.splits)
  have "points_held cid s1 ms1" by (rule fromLoop_held [OF assms(1) _ f]) (simp add: points_held_def)
  from bindLoop_held [OF assms(1) this b] show ?thesis .
qed


definition plain_host :: host where
  "plain_host = \<lparr>h_env = one_driver, h_container = (\<lambda>_. Inl ''no such container''), h_relabelNeeded = (\<lambda>_. False),
     h_relabel = (\<lambda>_. None)\<rparr>"

definition two_binds :: HostConfig where
  "two_binds = \<lparr>VolumesFrom = [], Binds = [''data:/a'', ''data:/b''], VolumeDriver = []\<rparr>"

definition two_points :: mounts where
  "two_points = map (\<lambda>d. (d, \<lparr>Source = ''/v/data'', Destination = d, RW = True, mp_Name = ''data'', Driver = ''local'',
     Volume = Some data, Mode = ''z'', Propagation = ''rprivate'', Named = True\<rparr>)) [''/a'', ''/b'']"

definition two_store :: VolumeStore where
  "two_store = \<lparr>vnames = [(''data'', data)], vrefs = [(''data'', [''c1'', ''c1''])], drivers = [(''local'', 0)]\<rparr>"

lemma register_two: "registerMountPoints plain_host ''c1'' two_binds [] (NewStore [(''local'', 0)]) = (two_store, Done two_points)"
proof -
  have p: "ParseMountSpec ''data:/a'' [] = Inr \<lparr>Source = [], Destination = ''/a'', RW = True, mp_Name = ''data'', Driver = ''local'',
     Volume = None, Mode = [], Propagation = ''rprivate'', Named = False\<rparr>" by code_simp
  have q: "ParseMountSpec ''data:/b'' [] = Inr \<lparr>Source = [], Destination = ''/b'', RW = True, mp_Name = ''data'', Driver = ''local'',
     Volume = None, Mode = [], Propagation = ''rprivate'', Named = False\<rparr>" by code_simp
  show ?thesis
    by (simp add: registerMountPoints_def reassignLoop_fresh two_binds_def plain_host_def p q bindVolume_def CreateWithRef_def
        create_volume_def getNamed_def IsVolumeNameValid_def withDriver_def GetDriver_def Lookup_def DefaultDriverName_def
        NewStore_def one_driver_def normaliseVolumeName_def setNamed_def setBindModeIfNull_def two_store_def two_points_def
        mget_or_def Let_def)
qed


subsection \<open>One volume at two places\<close>

lemma deref_twice_panics:
  assumes "mget_or [] (vrefs s) (v_Name v) = rs @ [cid, cid]"
  shows "\<exists>s' p. Dereference v cid s = (s', Panicked p)"
proof -
  let ?rs = "rs @ [cid, cid]"
  have s: "mget (vrefs s) (v_Name v) = Some ?rs" using assms by (auto simp: mget_or_def split: option.splits)
  obtain arr len bad where d: "derefLoop cid (length ?rs) 0 ?rs (length ?rs) = (arr, len, bad)"
    by (cases "derefLoop cid (length ?rs) 0 ?rs (length ?rs)")
  have bad using derefLoop_panic [of 0 "length ?rs" ?rs cid] d by (simp add: butlast_append)
  then show ?thesis using s d by (simp add: Dereference_def)
qed

lemma parse_driver:
  assumes "ParseMountSpec spec drv = Inr mp" "mp_Name mp \<noteq> []"
  shows "Driver mp = (if length drv = 0 then DefaultDriverName else drv)" "Volume mp = None"
  using assms
  by (auto simp: ParseMountSpec_def Let_def mountChecks_def ParseVolumeSource_def mountFields_def emptyMount_def
      split: if_splits sum.splits list.splits)

lemma setNamed_refs: "mget_or [] (vrefs (setNamed v ref s)) (v_Name v) = mget_or [] (vrefs s) (v_Name v) @ (if ref = [] then [] else [ref])"
  by (simp add: setNamed_def Let_def)

lemma create_again:
  assumes "CreateWithRef env n d cid [] s = (s1, Done v)" "v_Name v = n" "v_DriverName v = d \<or> d = DefaultDriverName"
  shows "CreateWithRef env n d cid [] s1 = (setNamed v cid s1, Done v)"
proof -
  obtain s0 where "s1 = setNamed v cid s0"
    using assms(1) by (auto simp: CreateWithRef_def Let_def split: prod.splits sum.splits)
  then have "mget (vnames s1) n = Some v" using assms(2) by (simp add: setNamed_def Let_def)
  then show ?thesis
    using assms(2,3) by (auto simp: CreateWithRef_def create_volume_def getNamed_def IsVolumeNameValid_def normaliseVolumeName_def)
qed

lemma acquired_refs:
  assumes "CreateWithRef env n d cid [] s = (s1, Done v)" "cid \<noteq> []"
  shows "\<exists>rs. mget_or [] (vrefs s1) (v_Name v) = rs @ [cid]"
  using assms setNamed_refs by (auto simp: CreateWithRef_def Let_def split: prod.splits sum.splits)

text \<open>
  A container that mounts one volume at two places is registered without complaint, but
  removing its mount points panics, whatever the store held before and whether or not the volumes
  are to be removed with it: the store holds the container twice, and drops it with a loop that
  shortens what it ranges over.
\<close>

theorem double_mount_panics:
  assumes "ParseMountSpec b1 drv = Inr m1" "ParseMountSpec b2 drv = Inr m2" "Destination m1 \<noteq> Destination m2"
    and "mp_Name m1 = n" "mp_Name m2 = n" "n \<noteq> []" "cid \<noteq> []" "\<forall>x. h_relabel h x = None"
    and "CreateWithRef (h_env h) n (Driver m1) cid [] s = (s1, Done v)"
    and "v_Name v = n" "v_DriverName v = Driver m1"
  shows "\<exists>s2 ms. registerMountPoints h cid \<lparr>VolumesFrom = [], Binds = [b1, b2], VolumeDriver = drv\<rparr> [] s = (s2, Done ms)
    \<and> \<not> no_panic (snd (removeMountPoints env' cid ms rm s2))"
proof -
  have d: "Driver m2 = Driver m1" "Driver m1 \<noteq> []"
    using parse_driver(1) [OF assms(1)] parse_driver(1) [OF assms(2)] assms(4-6) by (auto simp: DefaultDriverName_def)
  let ?s2 = "setNamed v cid s1"
  let ?bind = "\<lambda>m. setBindModeIfNull (m\<lparr>Volume := Some v, Source := v_Path v, Driver := v_DriverName v, Named := True\<rparr>)"
  let ?ms = "[(Destination m1, ?bind m1), (Destination m2, ?bind m2)]"
  have dest: "Destination (?bind m) = Destination m" "Volume (?bind m) = Some v" for m by (simp_all add: setBindModeIfNull_def)
  have b1: "bindVolume (h_env h) cid m1 s = (s1, Done (?bind m1))" using assms(4,6,9) d by (simp add: bindVolume_def)
  have b2: "bindVolume (h_env h) cid m2 s1 = (?s2, Done (?bind m2))"
    using create_again [OF assms(9,10)] assms(5,6,11) d by (simp add: bindVolume_def)
  have "registerMountPoints h cid \<lparr>VolumesFrom = [], Binds = [b1, b2], VolumeDriver = drv\<rparr> [] s = (?s2, Done ?ms)"
    using assms(1-3,8) b1 b2 dest by (simp add: registerMountPoints_def reassignLoop_fresh)
  moreover obtain rs where "mget_or [] (vrefs ?s2) (v_Name v) = rs @ [cid, cid]"
    using acquired_refs [OF assms(9,7)] setNamed_refs [of v cid s1] assms(7) by auto
  then obtain s' p where "Dereference v cid ?s2 = (s', Panicked p)" using deref_twice_panics by blast
  then have "\<not> no_panic (snd (removeMountPoints env' cid ?ms rm ?s2))" using dest by (simp add: removeMountPoints_def)
  ultimately show ?thesis by blast
qed

theorem double_mount_panics_witness:
  "\<not> no_panic (snd (removeMountPoints one_driver ''c1'' two_points False two_store))"
proof -
  let ?m = "\<lambda>d. \<lparr>Source = [], Destination = d, RW = True, mp_Name = ''data'', Driver = ''local'',
     Volume = None, Mode = [], Propagation = ''rprivate'', Named = False\<rparr>"
  have p: "ParseMountSpec ''data:/a'' [] = Inr (?m ''/a'')" "ParseMountSpec ''data:/b'' [] = Inr (?m ''/b'')" by code_simp+
  obtain s1 where c: "CreateWithRef (h_env plain_host) ''data'' (Driver (?m ''/a'')) ''c1'' [] (NewStore [(''local'', 0)]) = (s1, Done data)"
    by (simp add: CreateWithRef_def create_volume_def getNamed_def IsVolumeNameValid_def withDriver_def GetDriver_def Let_def
        Lookup_def DefaultDriverName_def NewStore_def one_driver_def normaliseVolumeName_def plain_host_def)
  have "\<forall>x. h_relabel plain_host x = None" by (simp add: plain_host_def)
  from double_mount_panics [OF p _ _ _ _ _ this c, of one_driver False]
  show ?thesis using register_two [unfolded two_binds_def] by simp
qed

subsection \<open>Mounts below mounts\<close>

lemma count_join: "ps \<noteq> [] \<Longrightarrow> \<forall>p \<in> set ps. c \<notin> set p \<Longrightarrow> count_char c (join c ps) = length ps - 1"
  by (induction c ps rule: join.induct) (auto simp: count_append count_none)

lemma parts_canonical:
  assumes "list_all plain ps" "ps \<noteq> []"
  shows "parts (CHR ''/'' # join CHR ''/'' ps) = length ps"
proof -
  have "\<forall>p \<in> set ps. CHR ''/'' \<notin> set p" using assms(1) by (auto simp: list_all_iff plain_def)
  from count_join [OF assms(2) this] show ?thesis
    using cleanRooted_join [OF assms(1)] assms(2) by (simp add: parts_def Clean_def count_append)
qed

text \<open>
  Whatever order \<^verbatim>\<open>sort.Sort\<close> chooses among destinations with equally many parts, a destination below
  another one comes after it, so no mount hides another that was made before.
\<close>

lemma mounts_not_shadowed:
  assumes "sorted (map parts ds)" "list_all plain ps" "list_all plain qs" "ps \<noteq> []" "qs \<noteq> []"
    and "i < length ds" "ds ! i = CHR ''/'' # join CHR ''/'' ps"
    and "j < length ds" "ds ! j = CHR ''/'' # join CHR ''/'' (ps @ qs)"
  shows "i < j"
proof (rule ccontr)
  assume "\<not> i < j"
  then have "map parts ds ! j \<le> map parts ds ! i" using assms(1,6) sorted_nth_mono [of "map parts ds" j i] by simp
  then have "length (ps @ qs) \<le> length ps"
    using assms parts_canonical [of ps] parts_canonical [of "ps @ qs"] by simp
  then show False using assms(5) by simp
qed

lemma sortMounts_sorted: "sorted (map parts (sortMounts m))" "set (sortMounts m) = set m"
  by (simp_all add: sortMounts_def)

end
