(* ===== verification/Locker.thy ===== *)
theory Locker
  imports Go_Prelude
begin

section \<open>Named locks (\<^verbatim>\<open>pkg/locker/locker.go\<close>)\<close>

text \<open>
  A lock per name, made when it is first asked for and deleted when nobody waits for it.  \<open>Lock\<close> runs
  in three atomic pieces: under the main mutex it finds or makes the counter of the name and counts
  itself as a waiter; without the main mutex it blocks on the mutex of the counter; then it stops
  counting.  Goroutines are a list of local states, and the steps of any of them may come between the
  pieces of another.  Counters are addresses in a heap, as the code keeps pointers to them in local
  variables while the map changes.
\<close>

record lockCtr =
  locked :: bool
  ctr_waiters :: int

record Locker =
  locks :: "(string, nat) gomap"
  ctrs :: "lockCtr list"

datatype lock_error = ErrNoSuchLock

datatype routine =
    Idle
  | Waiting string nat
  | Acquired string nat
  | Holding string nat

definition NewLocker :: Locker where
  "NewLocker = \<lparr>locks = [], ctrs = []\<rparr>"

definition setCtr :: "nat \<Rightarrow> (lockCtr \<Rightarrow> lockCtr) \<Rightarrow> Locker \<Rightarrow> Locker" where
  "setCtr a f l = l\<lparr>ctrs := (ctrs l)[a := f (ctrs l ! a)]\<rparr>"

definition inc :: "lockCtr \<Rightarrow> lockCtr" where
  "inc c = c\<lparr>ctr_waiters := ctr_waiters c + 1\<rparr>"

definition dec :: "lockCtr \<Rightarrow> lockCtr" where
  "dec c = c\<lparr>ctr_waiters := ctr_waiters c - 1\<rparr>"

text \<open>\<^verbatim>\<open>Lock\<close>: under the main mutex, then the mutex of the counter, then \<open>dec\<close>.\<close>

definition lockEnter :: "string \<Rightarrow> Locker \<Rightarrow> Locker \<times> nat" where
  "lockEnter name l =
     (case mget (locks l) name of
        Some a \<Rightarrow> (setCtr a inc l, a)
      | None \<Rightarrow>
          let a = length (ctrs l);
              l1 = l\<lparr>ctrs := ctrs l @ [\<lparr>locked = False, ctr_waiters = 0\<rparr>], locks := mput name a (locks l)\<rparr>
          in (setCtr a inc l1, a))"

definition lockAcquire :: "nat \<Rightarrow> Locker \<Rightarrow> Locker" where
  "lockAcquire a l = setCtr a (\<lambda>c. c\<lparr>locked := True\<rparr>) l"

definition lockDec :: "nat \<Rightarrow> Locker \<Rightarrow> Locker" where
  "lockDec a l = setCtr a dec l"

text \<open>\<^verbatim>\<open>Unlock\<close>; unlocking a mutex that is not locked is fatal.\<close>

definition Unlock :: "string \<Rightarrow> Locker \<Rightarrow> Locker \<times> (lock_error, unit) outcome" where
  "Unlock name l =
     (case mget (locks l) name of
        None \<Rightarrow> (l, Failed ErrNoSuchLock)
      | Some a \<Rightarrow>
          let l1 = (if ctr_waiters (ctrs l ! a) = 0 then l\<lparr>locks := mdel name (locks l)\<rparr> else l) in
          if locked (ctrs l1 ! a) then (setCtr a (\<lambda>c. c\<lparr>locked := False\<rparr>) l1, Done ())
          else (l1, Panicked ''sync: unlock of unlocked mutex''))"

subsection \<open>Goroutines\<close>

record lock_system =
  shared :: Locker
  routines :: "routine list"
  answers :: "(lock_error, unit) outcome list"

inductive lock_step :: "lock_system \<Rightarrow> lock_system \<Rightarrow> bool" where
  enter: "i < length (routines y) \<Longrightarrow> routines y ! i = Idle \<Longrightarrow> lockEnter name (shared y) = (l, a) \<Longrightarrow>
    lock_step y (y\<lparr>shared := l, routines := (routines y)[i := Waiting name a]\<rparr>)"
| acquire: "i < length (routines y) \<Longrightarrow> routines y ! i = Waiting name a \<Longrightarrow> \<not> locked (ctrs (shared y) ! a) \<Longrightarrow>
    lock_step y (y\<lparr>shared := lockAcquire a (shared y), routines := (routines y)[i := Acquired name a]\<rparr>)"
| counted: "i < length (routines y) \<Longrightarrow> routines y ! i = Acquired name a \<Longrightarrow>
    lock_step y (y\<lparr>shared := lockDec a (shared y), routines := (routines y)[i := Holding name a]\<rparr>)"
| release: "i < length (routines y) \<Longrightarrow> routines y ! i = Holding name a \<Longrightarrow> Unlock name (shared y) = (l, r) \<Longrightarrow>
    lock_step y (y\<lparr>shared := l, routines := (routines y)[i := Idle], answers := answers y @ [r]\<rparr>)"

inductive lock_reachable :: "nat \<Rightarrow> lock_system \<Rightarrow> bool" for n where
  lock_init: "lock_reachable n \<lparr>shared = NewLocker, routines = replicate n Idle, answers = []\<rparr>"
| lock_next: "lock_reachable n y \<Longrightarrow> lock_step y z \<Longrightarrow> lock_reachable n z"

subsection \<open>Counting goroutines\<close>

definition count_if :: "('a \<Rightarrow> bool) \<Rightarrow> 'a list \<Rightarrow> nat" where
  "count_if P xs = length (filter P xs)"

lemma count_if_update:
  "i < length xs \<Longrightarrow> count_if P (xs[i := x]) + (if P (xs ! i) then 1 else 0) = count_if P xs + (if P x then 1 else 0)"
proof (induction xs arbitrary: i)
  case (Cons y ys)
  then show ?case by (cases i) (auto simp: count_if_def)
qed simp

lemma count_if_pos: "i < length xs \<Longrightarrow> P (xs ! i) \<Longrightarrow> 0 < count_if P xs"
  unfolding count_if_def by (metis (mono_tags, lifting) length_greater_0_conv filter_empty_conv nth_mem)

lemma count_if_zero: "count_if P xs = 0 \<longleftrightarrow> (\<forall>i < length xs. \<not> P (xs ! i))"
  by (auto simp: count_if_def filter_empty_conv all_set_conv_all_nth)

lemma count_if_one:
  assumes "count_if P xs \<le> 1" "i < length xs" "j < length xs" "P (xs ! i)" "P (xs ! j)"
  shows "i = j"
proof (rule ccontr)
  assume ne: "i \<noteq> j"
  show False
  proof (cases "\<forall>y. P y")
    case True
    then have "count_if P xs = length xs" by (simp add: count_if_def)
    then show False using assms ne by linarith
  next
    case False
    then obtain z where z: "\<not> P z" by blast
    have "count_if P (xs[i := z]) + 1 = count_if P xs" using count_if_update [OF assms(2), of P z] assms(4) z by simp
    moreover have "0 < count_if P (xs[i := z])" using count_if_pos [of j "xs[i := z]" P] assms ne by simp
    ultimately show False using assms(1) by simp
  qed
qed

subsection \<open>The invariant\<close>

fun target :: "routine \<Rightarrow> (string \<times> nat) option" where
  "target Idle = None"
| "target (Waiting n a) = Some (n, a)"
| "target (Acquired n a) = Some (n, a)"
| "target (Holding n a) = Some (n, a)"

fun pending :: "nat \<Rightarrow> routine \<Rightarrow> bool" where
  "pending a (Waiting n b) = (b = a)"
| "pending a (Acquired n b) = (b = a)"
| "pending a _ = False"

fun owns :: "nat \<Rightarrow> routine \<Rightarrow> bool" where
  "owns a (Acquired n b) = (b = a)"
| "owns a (Holding n b) = (b = a)"
| "owns a _ = False"

lemma target_cases: "target r = Some (n, a) \<Longrightarrow> pending a r \<or> owns a r"
  by (cases r) auto

lemma pending_target: "pending a r \<Longrightarrow> \<exists>n. target r = Some (n, a)"
  by (cases r) auto

lemma owns_target: "owns a r \<Longrightarrow> \<exists>n. target r = Some (n, a)"
  by (cases r) auto

definition targets_ok :: "Locker \<Rightarrow> routine list \<Rightarrow> bool" where
  "targets_ok l rs \<longleftrightarrow> (\<forall>r \<in> set rs. \<forall>n a. target r = Some (n, a) \<longrightarrow> mget (locks l) n = Some a)"

definition locks_ok :: "Locker \<Rightarrow> routine list \<Rightarrow> bool" where
  "locks_ok l rs \<longleftrightarrow>
     (\<forall>n a. mget (locks l) n = Some a \<longrightarrow> a < length (ctrs l) \<and> (\<exists>r \<in> set rs. target r = Some (n, a)))
     \<and> (\<forall>n m a. mget (locks l) n = Some a \<longrightarrow> mget (locks l) m = Some a \<longrightarrow> n = m)"

definition counts_ok :: "Locker \<Rightarrow> routine list \<Rightarrow> bool" where
  "counts_ok l rs \<longleftrightarrow> (\<forall>a < length (ctrs l).
     ctr_waiters (ctrs l ! a) = int (count_if (pending a) rs)
     \<and> count_if (owns a) rs = (if locked (ctrs l ! a) then 1 else 0))"

definition lock_inv :: "lock_system \<Rightarrow> bool" where
  "lock_inv y \<longleftrightarrow> targets_ok (shared y) (routines y) \<and> locks_ok (shared y) (routines y)
     \<and> counts_ok (shared y) (routines y) \<and> (\<forall>r \<in> set (answers y). r = Done ())"

lemma target_in:
  assumes "targets_ok l rs" "locks_ok l rs" "i < length rs" "target (rs ! i) = Some (n, a)"
  shows "mget (locks l) n = Some a" "a < length (ctrs l)"
proof -
  show m: "mget (locks l) n = Some a" using assms(1) nth_mem [OF assms(3)] assms(4) unfolding targets_ok_def by blast
  show "a < length (ctrs l)" using assms(2) m unfolding locks_ok_def by blast
qed

lemma targets_update:
  assumes "targets_ok l rs" "\<And>n a. target r = Some (n, a) \<Longrightarrow> mget (locks l) n = Some a"
  shows "targets_ok l (rs[i := r])"
  using assms by (auto simp: targets_ok_def dest!: subsetD [OF set_update_subset_insert])

lemma setCtr_simps [simp]:
  "locks (setCtr a f l) = locks l" "length (ctrs (setCtr a f l)) = length (ctrs l)"
  "a < length (ctrs l) \<Longrightarrow> ctrs (setCtr a f l) ! b = (if b = a then f (ctrs l ! a) else ctrs l ! b)"
  by (auto simp: setCtr_def nth_list_update)

lemma targets_setCtr [simp]: "targets_ok (setCtr a f l) rs = targets_ok l rs"
  by (simp add: targets_ok_def)

lemma locks_setCtr [simp]: "locks_ok (setCtr a f l) rs = locks_ok l rs"
  by (simp add: locks_ok_def)

text \<open>A goroutine that changes its piece of \<open>Lock\<close> keeps its target.\<close>

lemma locks_same_target:
  assumes "locks_ok l rs" "i < length rs" "target r = target (rs ! i)"
  shows "locks_ok l (rs[i := r])"
proof -
  have "\<exists>x \<in> set (rs[i := r]). target x = Some (n, a)" if m: "x \<in> set rs" "target x = Some (n, a)" for x n a
  proof -
    obtain j where j: "j < length rs" "rs ! j = x" using m(1) by (metis in_set_conv_nth)
    show ?thesis
    proof (cases "j = i")
      case True
      then have "target r = Some (n, a)" using assms(3) m(2) j(2) by simp
      then show ?thesis using set_update_memI [OF assms(2), of r] by blast
    next
      case False
      then have "rs[i := r] ! j = x" using j by simp
      then show ?thesis using j m(2) by (metis length_list_update nth_mem)
    qed
  qed
  then show ?thesis using assms(1) unfolding locks_ok_def by blast
qed

lemma step_acquire:
  assumes "targets_ok l rs" "locks_ok l rs" "counts_ok l rs"
    and "i < length rs" "rs ! i = Waiting n a" "\<not> locked (ctrs l ! a)"
  shows "counts_ok (lockAcquire a l) (rs[i := Acquired n a])"
proof -
  have a: "a < length (ctrs l)" using target_in(2) [OF assms(1,2,4)] assms(5) by simp
  have "count_if (pending b) (rs[i := Acquired n a]) = count_if (pending b) rs" for b
    using count_if_update [OF assms(4), of "pending b" "Acquired n a"] assms(5) by simp
  moreover have "count_if (owns b) (rs[i := Acquired n a]) = count_if (owns b) rs + (if b = a then 1 else 0)" for b
    using count_if_update [OF assms(4), of "owns b" "Acquired n a"] assms(5) by simp
  ultimately show ?thesis using assms(3,6) a by (auto simp: counts_ok_def lockAcquire_def)
qed

lemma step_counted:
  assumes "targets_ok l rs" "locks_ok l rs" "counts_ok l rs" "i < length rs" "rs ! i = Acquired n a"
  shows "counts_ok (lockDec a l) (rs[i := Holding n a])"
proof -
  have a: "a < length (ctrs l)" using target_in(2) [OF assms(1,2,4)] assms(5) by simp
  have "int (count_if (pending b) (rs[i := Holding n a])) = int (count_if (pending b) rs) - (if b = a then 1 else 0)" for b
    using count_if_update [OF assms(4), of "pending b" "Holding n a"] assms(5) by auto
  moreover have "count_if (owns b) (rs[i := Holding n a]) = count_if (owns b) rs" for b
    using count_if_update [OF assms(4), of "owns b" "Holding n a"] assms(5) by simp
  ultimately show ?thesis using assms(3) a by (auto simp: counts_ok_def lockDec_def dec_def)
qed

lemma fresh_counts:
  assumes "targets_ok l rs" "locks_ok l rs" "length (ctrs l) \<le> a"
  shows "count_if (pending a) rs = 0" "count_if (owns a) rs = 0"
  using target_in(2) [OF assms(1,2)] assms(3) pending_target owns_target
  by (auto simp: count_if_zero) (meson not_less)+

lemma step_enter:
  assumes "targets_ok l rs" "locks_ok l rs" "counts_ok l rs" "i < length rs" "rs ! i = Idle" "lockEnter n l = (l', a)"
  shows "targets_ok l' (rs[i := Waiting n a])" "locks_ok l' (rs[i := Waiting n a])" "counts_ok l' (rs[i := Waiting n a])"
proof -
  let ?rs = "rs[i := Waiting n a]"
  have w: "count_if (pending b) ?rs = count_if (pending b) rs + (if b = a then 1 else 0)" for b
    using count_if_update [OF assms(4), of "pending b" "Waiting n a"] assms(5) by simp
  have o': "count_if (owns b) ?rs = count_if (owns b) rs" for b
    using count_if_update [OF assms(4), of "owns b" "Waiting n a"] assms(5) by simp
  have mem: "Waiting n a \<in> set ?rs" using assms(4) by (rule set_update_memI)
  have keep: "\<exists>x \<in> set ?rs. target x = Some (m, b)" if k: "x \<in> set rs" "target x = Some (m, b)" for x m b
  proof -
    obtain j where "j < length rs" "rs ! j = x" using k(1) by (metis in_set_conv_nth)
    then have "j \<noteq> i" using k(2) assms(5) by auto
    then have "?rs ! j = x" "j < length ?rs" using \<open>j < length rs\<close> \<open>rs ! j = x\<close> by auto
    then show ?thesis using k(2) nth_mem by blast
  qed
  have "targets_ok l' ?rs \<and> locks_ok l' ?rs \<and> counts_ok l' ?rs"
  proof (cases "mget (locks l) n")
    case (Some b)
    then have l': "l' = setCtr a inc l" "b = a" using assms(6) by (auto simp: lockEnter_def)
    have a: "a < length (ctrs l)" using assms(2) Some l'(2) unfolding locks_ok_def by blast
    have "targets_ok l' ?rs" using targets_update [OF assms(1), of "Waiting n a" i] Some l' by simp
    have "locks_ok l ?rs" using assms(2) keep unfolding locks_ok_def by blast
    then have "locks_ok l' ?rs" using l'(1) by simp
    moreover have "counts_ok l' ?rs" using assms(3) a w o' by (auto simp: counts_ok_def l'(1) inc_def)
    ultimately show ?thesis using \<open>targets_ok l' ?rs\<close> by blast
  next
    case None
    then have a: "a = length (ctrs l)"
      and l': "l' = setCtr a inc (l\<lparr>ctrs := ctrs l @ [\<lparr>locked = False, ctr_waiters = 0\<rparr>], locks := mput n a (locks l)\<rparr>)"
      using assms(6) by (auto simp: lockEnter_def Let_def)
    have lk: "locks l' = mput n a (locks l)" "length (ctrs l') = length (ctrs l) + 1" using l' by simp_all
    have ne: "target x = Some (m, b) \<Longrightarrow> x \<in> set rs \<Longrightarrow> m \<noteq> n" for x m b
      using assms(1) None unfolding targets_ok_def by fastforce
    have t: "targets_ok l' ?rs"
      unfolding targets_ok_def lk(1)
    proof (intro ballI allI impI)
      fix x m b assume x: "x \<in> set ?rs" "target x = Some (m, b)"
      then consider "x = Waiting n a" | "x \<in> set rs" using set_update_subset_insert [of rs i "Waiting n a"] by blast
      then show "mget (mput n a (locks l)) m = Some b"
        using x(2) ne [of x m b] assms(1) by cases (auto simp: targets_ok_def)
    qed
    have old: "m \<noteq> n \<Longrightarrow> mget (locks l') m = Some b \<Longrightarrow> mget (locks l) m = Some b" for m b by (simp add: lk(1))
    have new: "mget (locks l') n = Some b \<Longrightarrow> b = a" for b by (simp add: lk(1))
    have bound: "mget (locks l) m = Some b \<Longrightarrow> b < a" for m b using assms(2) a unfolding locks_ok_def by blast
    have k: "locks_ok l' ?rs"
      unfolding locks_ok_def
    proof (intro conjI allI impI)
      fix m b assume m: "mget (locks l') m = Some b"
      show "b < length (ctrs l')" using m new [of b] old [of m b] bound [of m b] lk(2) a by (cases "m = n") auto
      show "\<exists>r \<in> set ?rs. target r = Some (m, b)"
      proof (cases "m = n")
        case True
        then show ?thesis using m new [of b] mem by (intro bexI [of _ "Waiting n a"]) auto
      next
        case False
        then obtain x where "x \<in> set rs" "target x = Some (m, b)" using old m assms(2) unfolding locks_ok_def by blast
        then show ?thesis using keep by blast
      qed
    next
      fix m q b assume m: "mget (locks l') m = Some b" "mget (locks l') q = Some b"
      show "m = q"
      proof (cases "m = n \<or> q = n")
        case True
        then show ?thesis using m new [of b] old bound by (metis less_irrefl)
      next
        case False
        then have "mget (locks l) m = Some b" "mget (locks l) q = Some b" using old m by auto
        then show ?thesis using assms(2) unfolding locks_ok_def by blast
      qed
    qed
    have "counts_ok l' ?rs"
      unfolding counts_ok_def
    proof (intro allI impI)
      fix b assume b: "b < length (ctrs l')"
      then consider "b = a" | "b < length (ctrs l)" using lk a by linarith
      then show "ctr_waiters (ctrs l' ! b) = int (count_if (pending b) ?rs)
          \<and> count_if (owns b) ?rs = (if locked (ctrs l' ! b) then 1 else 0)"
      proof cases
        case 1
        then show ?thesis using fresh_counts [OF assms(1,2), of a] a w o' by (simp add: l' inc_def)
      next
        case 2
        then show ?thesis using assms(3) w o' a by (simp add: l' counts_ok_def nth_append)
      qed
    qed
    then show ?thesis using t k by blast
  qed
  then show "targets_ok l' ?rs" "locks_ok l' ?rs" "counts_ok l' ?rs" by blast+
qed

lemma step_release:
  assumes "targets_ok l rs" "locks_ok l rs" "counts_ok l rs" "i < length rs" "rs ! i = Holding n a" "Unlock n l = (l', r)"
  shows "targets_ok l' (rs[i := Idle])" "locks_ok l' (rs[i := Idle])" "counts_ok l' (rs[i := Idle])" "r = Done ()"
proof -
  let ?rs = "rs[i := Idle]"
  have n: "mget (locks l) n = Some a" "a < length (ctrs l)" using target_in [OF assms(1,2,4)] assms(5) by simp_all
  have p: "count_if (pending b) ?rs = count_if (pending b) rs" for b
    using count_if_update [OF assms(4), of "pending b" Idle] assms(5) by simp
  have o': "count_if (owns b) ?rs + (if b = a then 1 else 0) = count_if (owns b) rs" for b
    using count_if_update [OF assms(4), of "owns b" Idle] assms(5) by (auto split: if_splits)
  have "0 < count_if (owns a) rs" using count_if_pos [OF assms(4), of "owns a"] assms(5) by simp
  then have locked: "locked (ctrs l ! a)" "count_if (owns a) rs = 1" using assms(3) n(2) by (auto simp: counts_ok_def split: if_splits)
  let ?none = "ctr_waiters (ctrs l ! a) = 0"
  let ?l1 = "if ?none then l\<lparr>locks := mdel n (locks l)\<rparr> else l"
  have l': "l' = setCtr a (\<lambda>c. c\<lparr>locked := False\<rparr>) ?l1" and r: "r = Done ()"
    using assms(6) n locked by (auto simp: Unlock_def Let_def split: if_splits)
  show "r = Done ()" by (rule r)
  have others: "\<not> ?none" if x: "x \<in> set ?rs" "target x = Some (n, b)" for x b
  proof -
    obtain j where j: "j < length ?rs" "?rs ! j = x" using x(1) by (metis in_set_conv_nth)
    then have ji: "j \<noteq> i" using x(2) by auto
    then have jx: "rs ! j = x" "j < length rs" using j by auto
    then have "b = a" using target_in(1) [OF assms(1,2) jx(2)] x(2) n(1) by simp
    then have "pending a x \<or> owns a x" using target_cases x(2) by blast
    moreover have "\<not> owns a x"
      using count_if_one [of "owns a" rs i j] locked(2) assms(4,5) jx ji by auto
    ultimately have "0 < count_if (pending a) rs" using count_if_pos [OF jx(2), of "pending a"] jx(1) by simp
    then show ?thesis using assms(3) n(2) by (simp add: counts_ok_def)
  qed
  have sub: "x \<in> set ?rs \<Longrightarrow> target x = Some (m, b) \<Longrightarrow> x \<in> set rs" for x m b
    using set_update_subset_insert [of rs i Idle] by auto
  show "targets_ok l' ?rs"
    unfolding targets_ok_def
  proof (intro ballI allI impI)
    fix x m b assume x: "x \<in> set ?rs" "target x = Some (m, b)"
    then have "mget (locks l) m = Some b" using sub assms(1) unfolding targets_ok_def by blast
    moreover have "m = n \<Longrightarrow> \<not> ?none" using others x by blast
    ultimately show "mget (locks l') m = Some b" by (auto simp: l')
  qed
  have used: "\<exists>x \<in> set ?rs. target x = Some (m, b)" if m: "mget (locks l') m = Some b" for m b
  proof (cases "m = n")
    case True
    then have "\<not> ?none" "b = a" using m n(1) by (auto simp: l' split: if_splits)
    then have "0 < count_if (pending a) ?rs" using assms(3) n(2) p [of a] by (simp add: counts_ok_def)
    then obtain j where j: "j < length ?rs" "pending a (?rs ! j)" by (metis count_if_zero neq0_conv)
    then have k: "j < length rs" "pending a (rs ! j)" by (cases "j = i"; auto)+
    then obtain q where q: "target (rs ! j) = Some (q, a)" using pending_target by blast
    then have "q = n" using target_in(1) [OF assms(1,2) k(1)] n(1) assms(2) unfolding locks_ok_def by blast
    moreover have "?rs ! j = rs ! j" using j(2) k(1) by (cases "j = i") auto
    ultimately show ?thesis using q True \<open>b = a\<close> nth_mem [OF j(1)] by auto
  next
    case False
    then have "mget (locks l) m = Some b" using m by (auto simp: l' split: if_splits)
    then obtain x where x: "x \<in> set rs" "target x = Some (m, b)" using assms(2) unfolding locks_ok_def by blast
    then obtain j where j: "j < length rs" "rs ! j = x" by (metis in_set_conv_nth)
    then have "j \<noteq> i" using x(2) False assms(5) by auto
    then have "?rs ! j = x" using j by simp
    then show ?thesis using x(2) j(1) nth_mem [of j ?rs] by auto
  qed
  have from_l: "mget (locks l') m = Some b \<Longrightarrow> mget (locks l) m = Some b" for m b by (auto simp: l' split: if_splits)
  have len: "length (ctrs l') = length (ctrs l)" by (simp add: l')
  show "locks_ok l' ?rs" using assms(2) used from_l unfolding locks_ok_def len by metis
  show "counts_ok l' ?rs"
    unfolding counts_ok_def len
  proof (intro allI impI)
    fix b assume b: "b < length (ctrs l)"
    have "ctrs l' ! b = (if b = a then (ctrs l ! a)\<lparr>locked := False\<rparr> else ctrs l ! b)" using n(2) by (simp add: l')
    then show "ctr_waiters (ctrs l' ! b) = int (count_if (pending b) ?rs)
        \<and> count_if (owns b) ?rs = (if locked (ctrs l' ! b) then 1 else 0)"
      using assms(3) b p [of b] o' [of b] locked(2) by (auto simp: counts_ok_def)
  qed
qed

lemma lock_inv_step: "lock_step y z \<Longrightarrow> lock_inv y \<Longrightarrow> lock_inv z"
proof (induction rule: lock_step.induct)
  case (enter i y n l a)
  then show ?case using step_enter [of "shared y" "routines y" i n l a] by (simp add: lock_inv_def)
next
  case (acquire i y n a)
  have "targets_ok (shared y) (routines y)" "locks_ok (shared y) (routines y)" "counts_ok (shared y) (routines y)"
    using acquire(4) by (auto simp: lock_inv_def)
  note inv = this
  have t: "mget (locks (shared y)) n = Some a" using target_in(1) [OF inv(1,2) acquire(1)] acquire(2) by simp
  show ?case
    using step_acquire [OF inv acquire(1-3)] targets_update [OF inv(1), of "Acquired n a" i] t
      locks_same_target [OF inv(2) acquire(1), of "Acquired n a"] acquire(2,4)
    by (simp add: lock_inv_def lockAcquire_def)
next
  case (counted i y n a)
  have "targets_ok (shared y) (routines y)" "locks_ok (shared y) (routines y)" "counts_ok (shared y) (routines y)"
    using counted(3) by (auto simp: lock_inv_def)
  note inv = this
  have t: "mget (locks (shared y)) n = Some a" using target_in(1) [OF inv(1,2) counted(1)] counted(2) by simp
  show ?case
    using step_counted [OF inv counted(1,2)] targets_update [OF inv(1), of "Holding n a" i] t
      locks_same_target [OF inv(2) counted(1), of "Holding n a"] counted(2,3)
    by (simp add: lock_inv_def lockDec_def)
next
  case (release i y n a l r)
  then show ?case using step_release [of "shared y" "routines y" i n a l r] by (auto simp: lock_inv_def)
qed

lemma lock_reachable_inv: "lock_reachable n y \<Longrightarrow> lock_inv y"
proof (induction rule: lock_reachable.induct)
  case lock_init
  have "count_if P (replicate n Idle) = (if P Idle then n else 0)" for P by (simp add: count_if_def)
  then show ?case by (simp add: lock_inv_def targets_ok_def locks_ok_def counts_ok_def NewLocker_def)
next
  case (lock_next y z)
  then show ?case using lock_inv_step by blast
qed

text \<open>A goroutine is inside the critical section of a name once it has the mutex.\<close>

fun inside :: "string \<Rightarrow> routine \<Rightarrow> bool" where
  "inside n (Acquired m a) = (m = n)"
| "inside n (Holding m a) = (m = n)"
| "inside n _ = False"

text \<open>
  C26: Named locks exclude each other and clean up.  Under every interleaving of goroutines that lock
  and unlock names, no two goroutines are inside the critical section of one name, no unlock fails or
  hits an unlocked mutex, and the map has a lock for exactly the names that are locked or waited for,
  so it is empty when all goroutines are done.
\<close>

theorem named_locks_exclude:
  assumes "lock_reachable k y"
  shows "(\<forall>i j n. i < length (routines y) \<and> j < length (routines y) \<and> inside n (routines y ! i) \<and> inside n (routines y ! j) \<longrightarrow> i = j)
    \<and> (\<forall>r \<in> set (answers y). r = Done ())
    \<and> (\<forall>n. mget (locks (shared y)) n \<noteq> None \<longleftrightarrow> (\<exists>r \<in> set (routines y). \<exists>a. target r = Some (n, a)))"
proof -
  have inv: "targets_ok (shared y) (routines y)" "locks_ok (shared y) (routines y)" "counts_ok (shared y) (routines y)"
      "\<forall>r \<in> set (answers y). r = Done ()"
    using lock_reachable_inv [OF assms] by (auto simp: lock_inv_def)
  have "i = j" if i: "i < length (routines y)" "j < length (routines y)" "inside n (routines y ! i)" "inside n (routines y ! j)" for i j n
  proof -
    obtain a b where t: "target (routines y ! i) = Some (n, a)" "owns a (routines y ! i)"
        "target (routines y ! j) = Some (n, b)" "owns b (routines y ! j)"
      using i(3,4) by (cases "routines y ! i"; cases "routines y ! j") auto
    have "b = a" using target_in(1) [OF inv(1,2) i(1) t(1)] target_in(1) [OF inv(1,2) i(2) t(3)] by simp
    moreover have "a < length (ctrs (shared y))" by (rule target_in(2) [OF inv(1,2) i(1) t(1)])
    then have "count_if (owns a) (routines y) \<le> 1" using inv(3) by (simp add: counts_ok_def)
    ultimately show ?thesis using count_if_one [of "owns a" "routines y" i j] i t by simp
  qed
  moreover have "mget (locks (shared y)) n \<noteq> None \<longleftrightarrow> (\<exists>r \<in> set (routines y). \<exists>a. target r = Some (n, a))" for n
    using inv(1,2) unfolding targets_ok_def locks_ok_def by (metis option.distinct(1) option.exhaust)
  ultimately show ?thesis using inv(4) by blast
qed

theorem named_locks_exclude_witness:
  "\<exists>y. lock_reachable 2 y \<and> routines y = [Holding ''v'' 0, Waiting ''v'' 0]
    \<and> (\<forall>r \<in> set (answers y). r = Done ()) \<and> mget (locks (shared y)) ''v'' \<noteq> None"
proof -
  let ?y0 = "\<lparr>shared = NewLocker, routines = replicate 2 Idle, answers = []\<rparr>"
  let ?c = "\<lambda>b w. \<lparr>locks = [(''v'', 0)], ctrs = [\<lparr>locked = b, ctr_waiters = w\<rparr>]\<rparr>"
  have "lock_reachable 2 \<lparr>shared = ?c False 1, routines = [Waiting ''v'' 0, Idle], answers = []\<rparr>"
    by (rule lock_next [OF lock_init])
      (use enter [of 0 ?y0 "''v''" "?c False 1" 0] in \<open>simp add: lockEnter_def NewLocker_def setCtr_def inc_def numeral_2_eq_2\<close>)
  then have "lock_reachable 2 \<lparr>shared = ?c True 1, routines = [Acquired ''v'' 0, Idle], answers = []\<rparr>"
    by (rule lock_next) (use acquire [of 0 "\<lparr>shared = ?c False 1, routines = [Waiting ''v'' 0, Idle], answers = []\<rparr>" "''v''" 0] in
        \<open>simp add: lockAcquire_def setCtr_def\<close>)
  then have "lock_reachable 2 \<lparr>shared = ?c True 2, routines = [Acquired ''v'' 0, Waiting ''v'' 0], answers = []\<rparr>"
    by (rule lock_next) (use enter [of 1 "\<lparr>shared = ?c True 1, routines = [Acquired ''v'' 0, Idle], answers = []\<rparr>" "''v''" "?c True 2" 0] in
        \<open>simp add: lockEnter_def setCtr_def inc_def\<close>)
  then have "lock_reachable 2 \<lparr>shared = ?c True 1, routines = [Holding ''v'' 0, Waiting ''v'' 0], answers = []\<rparr>"
    by (rule lock_next) (use counted [of 0 "\<lparr>shared = ?c True 2, routines = [Acquired ''v'' 0, Waiting ''v'' 0], answers = []\<rparr>" "''v''" 0] in
        \<open>simp add: lockDec_def setCtr_def dec_def\<close>)
  then show ?thesis using named_locks_exclude [of 2 "\<lparr>shared = ?c True 1, routines = [Holding ''v'' 0, Waiting ''v'' 0], answers = []\<rparr>"]
    by (intro exI [of _ "\<lparr>shared = ?c True 1, routines = [Holding ''v'' 0, Waiting ''v'' 0], answers = []\<rparr>"]) simp
qed

end
