(* ===== verification/Transfers.thy ===== *)
theory Transfers
  imports Locker
begin

section \<open>Transfers of layers (\<^verbatim>\<open>distribution/xfer/transfer.go\<close>)\<close>

text \<open>
  A transfer is watched by clients, reports progress and ends; the manager runs at most one transfer
  per key and at most a fixed number at a time.  A channel that is only closed is a flag.  The
  goroutines (of each transfer, of its broadcaster, of the manager per transfer, and of the clients)
  are interleaved step by step, where a step is what runs under one lock.  The goroutines of the
  watchers only copy progress to an output and are left out.
\<close>

subsection \<open>One transfer\<close>

record transfer =
  t_watchers :: "nat list"
  t_released_watchers :: "nat list"
  t_next :: nat
  t_lastProgress :: "string option"
  t_broadcastDone :: bool
  t_running_closed :: bool
  t_released :: bool
  t_closed :: bool
  t_cancelled :: bool

definition NewTransfer :: transfer where
  "NewTransfer = \<lparr>t_watchers = [], t_released_watchers = [], t_next = 0, t_lastProgress = None, t_broadcastDone = False,
     t_running_closed = False, t_released = False, t_closed = False, t_cancelled = False\<rparr>"

text \<open>\<^verbatim>\<open>Broadcast\<close>: a progress item, and the end of the progress channel.\<close>

definition broadcastItem :: "string \<Rightarrow> transfer \<Rightarrow> transfer" where
  "broadcastItem p t = t\<lparr>t_lastProgress := Some p\<rparr>"

definition broadcastEnd :: "transfer \<Rightarrow> transfer option" where
  "broadcastEnd t =
     (if t_running_closed t then None else Some (t\<lparr>t_broadcastDone := True, t_running_closed := True\<rparr>))"

definition Watch :: "transfer \<Rightarrow> transfer \<times> nat" where
  "Watch t = (t\<lparr>t_watchers := t_watchers t @ [t_next t], t_next := t_next t + 1\<rparr>, t_next t)"

text \<open>Closing a closed channel panics: \<open>None\<close>.\<close>

definition ReleaseWatcher :: "nat \<Rightarrow> transfer \<Rightarrow> transfer option" where
  "ReleaseWatcher w t =
     (let t1 = t\<lparr>t_watchers := removeAll w (t_watchers t)\<rparr>;
          t2 = (if t_watchers t1 = [] then
                  (if t_closed t1 then (if t_released t1 then t1 else t1\<lparr>t_released := True\<rparr>)
                   else t1\<lparr>t_cancelled := True\<rparr>)
                else t1)
      in if w \<in> set (t_released_watchers t2) then None
         else Some (t2\<lparr>t_released_watchers := w # t_released_watchers t2\<rparr>))"

definition CloseTransfer :: "transfer \<Rightarrow> transfer option" where
  "CloseTransfer t =
     (let t1 = t\<lparr>t_closed := True\<rparr> in
      if t_watchers t1 = [] then (if t_released t1 then None else Some (t1\<lparr>t_released := True\<rparr>))
      else Some t1)"

subsection \<open>The manager\<close>

text \<open>
  The goroutine of a transfer waits for \<^verbatim>\<open>start\<close>, works, may close \<^verbatim>\<open>inactive\<close>, and ends by closing its
  progress channel; then the broadcaster closes \<^verbatim>\<open>running\<close>, and the goroutine of the manager removes
  the transfer.  \<open>j_seen\<close> is \<^verbatim>\<open>inactive = nil\<close>.
\<close>

datatype job_pc = AwaitStart | Working | Finished

record job =
  j_key :: string
  j_started :: bool
  j_pc :: job_pc
  j_inactive :: bool
  j_seen :: bool
  j_removed :: bool
  j_closed :: bool
  j_xfer :: transfer

record manager =
  concurrencyLimit :: nat
  activeTransfers :: int
  transfers :: "(string, nat) gomap"
  waitingTransfers :: "nat list"
  jobs :: "job list"

definition NewTransferManager :: "nat \<Rightarrow> manager" where
  "NewTransferManager limit = \<lparr>concurrencyLimit = limit, activeTransfers = 0, transfers = [], waitingTransfers = [], jobs = []\<rparr>"

definition setJob :: "nat \<Rightarrow> (job \<Rightarrow> job) \<Rightarrow> manager \<Rightarrow> manager" where
  "setJob i f m = m\<lparr>jobs := (jobs m)[i := f (jobs m ! i)]\<rparr>"

definition onXfer :: "nat \<Rightarrow> (transfer \<Rightarrow> transfer) \<Rightarrow> manager \<Rightarrow> manager" where
  "onXfer i f m = setJob i (\<lambda>j. j\<lparr>j_xfer := f (j_xfer j)\<rparr>) m"

text \<open>
  \<^verbatim>\<open>Transfer\<close>: join the transfer of the key, or start one.  A transfer that was cancelled is not
  joined; the caller waits for it to go and tries again.
\<close>

datatype joined = Joined nat nat | TryAgain nat

definition startJob :: "string \<Rightarrow> manager \<Rightarrow> manager \<times> nat" where
  "startJob key m =
     (let i = length (jobs m); go = activeTransfers m < int (concurrencyLimit m);
          (x, w) = Watch NewTransfer;
          j = \<lparr>j_key = key, j_started = go, j_pc = AwaitStart, j_inactive = False, j_seen = False, j_removed = False,
               j_closed = False, j_xfer = x\<rparr>
      in (m\<lparr>jobs := jobs m @ [j], transfers := mput key i (transfers m),
            activeTransfers := (if go then activeTransfers m + 1 else activeTransfers m),
            waitingTransfers := (if go then waitingTransfers m else waitingTransfers m @ [i])\<rparr>, w))"

definition Transfer :: "string \<Rightarrow> manager \<Rightarrow> (manager \<times> joined) option" where
  "Transfer key m =
     (case mget (transfers m) key of
        Some i \<Rightarrow>
          (let (x, w) = Watch (j_xfer (jobs m ! i)) in
           if t_cancelled x then map_option (\<lambda>x'. (onXfer i (\<lambda>_. x') m, TryAgain i)) (ReleaseWatcher w x)
           else Some (onXfer i (\<lambda>_. x) m, Joined i w))
      | None \<Rightarrow> (case startJob key m of (m1, w) \<Rightarrow> Some (m1, Joined (length (jobs m)) w)))"

definition inactivate :: "nat \<Rightarrow> manager \<Rightarrow> manager option" where
  "inactivate i m =
     (if j_started (jobs m ! i) then
        (case waitingTransfers m of
           k # ws \<Rightarrow>
             if j_started (jobs m ! k) then None
             else Some (setJob k (\<lambda>j. j\<lparr>j_started := True\<rparr>) (m\<lparr>waitingTransfers := ws\<rparr>))
         | [] \<Rightarrow> Some (m\<lparr>activeTransfers := activeTransfers m - 1\<rparr>))
      else Some m)"

text \<open>The goroutine of the manager: \<^verbatim>\<open>inactive\<close> is closed, or the transfer is done; \<open>Close\<close> follows without the lock.\<close>

definition seeInactive :: "nat \<Rightarrow> manager \<Rightarrow> manager option" where
  "seeInactive i m = map_option (setJob i (\<lambda>j. j\<lparr>j_seen := True\<rparr>)) (inactivate i m)"

definition seeDone :: "nat \<Rightarrow> manager \<Rightarrow> manager option" where
  "seeDone i m =
     map_option (\<lambda>m1. setJob i (\<lambda>j. j\<lparr>j_removed := True\<rparr>) (m1\<lparr>transfers := mdel (j_key (jobs m ! i)) (transfers m1)\<rparr>))
       (if \<not> j_seen (jobs m ! i) then inactivate i m else Some m)"

text \<open>Every step of any goroutine; \<open>None\<close> is a panic.\<close>

inductive xfer_step :: "manager \<Rightarrow> manager option \<Rightarrow> bool" where
  transfer_ok: "Transfer key m = Some (m', r) \<Longrightarrow> xfer_step m (Some m')"
| transfer_panic: "Transfer key m = None \<Longrightarrow> xfer_step m None"
| begin_work: "i < length (jobs m) \<Longrightarrow> j_pc (jobs m ! i) = AwaitStart \<Longrightarrow> j_started (jobs m ! i) \<Longrightarrow>
    xfer_step m (Some (setJob i (\<lambda>j. j\<lparr>j_pc := Working\<rparr>) m))"
| go_inactive: "i < length (jobs m) \<Longrightarrow> j_pc (jobs m ! i) = Working \<Longrightarrow> \<not> j_inactive (jobs m ! i) \<Longrightarrow>
    xfer_step m (Some (setJob i (\<lambda>j. j\<lparr>j_inactive := True\<rparr>) m))"
| report: "i < length (jobs m) \<Longrightarrow> j_pc (jobs m ! i) \<noteq> Finished \<Longrightarrow> xfer_step m (Some (onXfer i (broadcastItem p) m))"
| end_work: "i < length (jobs m) \<Longrightarrow> j_pc (jobs m ! i) = Working \<Longrightarrow>
    xfer_step m (Some (setJob i (\<lambda>j. j\<lparr>j_pc := Finished\<rparr>) m))"
| end_broadcast: "i < length (jobs m) \<Longrightarrow> j_pc (jobs m ! i) = Finished \<Longrightarrow> \<not> t_broadcastDone (j_xfer (jobs m ! i)) \<Longrightarrow>
    xfer_step m (map_option (\<lambda>x. onXfer i (\<lambda>_. x) m) (broadcastEnd (j_xfer (jobs m ! i))))"
| manager_inactive: "i < length (jobs m) \<Longrightarrow> j_inactive (jobs m ! i) \<Longrightarrow> \<not> j_seen (jobs m ! i) \<Longrightarrow> \<not> j_removed (jobs m ! i) \<Longrightarrow>
    xfer_step m (seeInactive i m)"
| manager_done: "i < length (jobs m) \<Longrightarrow> t_running_closed (j_xfer (jobs m ! i)) \<Longrightarrow> \<not> j_removed (jobs m ! i) \<Longrightarrow>
    xfer_step m (seeDone i m)"
| manager_close: "i < length (jobs m) \<Longrightarrow> j_removed (jobs m ! i) \<Longrightarrow> \<not> j_closed (jobs m ! i) \<Longrightarrow>
    xfer_step m (map_option (\<lambda>x. setJob i (\<lambda>j. j\<lparr>j_closed := True, j_xfer := x\<rparr>) m) (CloseTransfer (j_xfer (jobs m ! i))))"
| client_release: "i < length (jobs m) \<Longrightarrow> w \<in> set (t_watchers (j_xfer (jobs m ! i))) \<Longrightarrow>
    xfer_step m (map_option (\<lambda>x. onXfer i (\<lambda>_. x) m) (ReleaseWatcher w (j_xfer (jobs m ! i))))"

inductive xfer_reachable :: "nat \<Rightarrow> manager option \<Rightarrow> bool" for limit where
  xfer_init: "xfer_reachable limit (Some (NewTransferManager limit))"
| xfer_next: "xfer_reachable limit (Some m) \<Longrightarrow> xfer_step m z \<Longrightarrow> xfer_reachable limit z"

subsection \<open>The invariant\<close>

definition xfer_ok :: "transfer \<Rightarrow> bool" where
  "xfer_ok x \<longleftrightarrow>
     (\<forall>w \<in> set (t_watchers x). w < t_next x \<and> w \<notin> set (t_released_watchers x))
     \<and> (\<forall>w \<in> set (t_released_watchers x). w < t_next x)
     \<and> (t_released x \<longrightarrow> t_closed x)
     \<and> (t_watchers x = [] \<longrightarrow> (if t_closed x then t_released x else t_cancelled x))
     \<and> t_running_closed x = t_broadcastDone x"

definition job_ok :: "job \<Rightarrow> bool" where
  "job_ok j \<longleftrightarrow> xfer_ok (j_xfer j)
     \<and> (\<not> j_started j \<longrightarrow> j_pc j = AwaitStart)
     \<and> (j_inactive j \<longrightarrow> j_pc j \<noteq> AwaitStart) \<and> (t_running_closed (j_xfer j) \<longrightarrow> j_pc j = Finished)
     \<and> (j_seen j \<longrightarrow> j_inactive j) \<and> (j_removed j \<longrightarrow> t_running_closed (j_xfer j))
     \<and> (j_closed j \<longrightarrow> j_removed j) \<and> t_closed (j_xfer j) = j_closed j"

definition slot :: "job \<Rightarrow> bool" where
  "slot j \<longleftrightarrow> j_started j \<and> \<not> j_seen j \<and> \<not> j_removed j"

definition slots_ok :: "manager \<Rightarrow> bool" where
  "slots_ok m \<longleftrightarrow>
     activeTransfers m = int (count_if slot (jobs m)) \<and> activeTransfers m \<le> int (concurrencyLimit m)
     \<and> (waitingTransfers m \<noteq> [] \<longrightarrow> activeTransfers m = int (concurrencyLimit m))
     \<and> (\<exists>c \<le> length (jobs m). waitingTransfers m = [c..<length (jobs m)]
          \<and> (\<forall>i < length (jobs m). j_started (jobs m ! i) \<longleftrightarrow> i < c))"

definition keys_ok :: "manager \<Rightarrow> bool" where
  "keys_ok m \<longleftrightarrow> (\<forall>k i. mget (transfers m) k = Some i \<longleftrightarrow>
     i < length (jobs m) \<and> j_key (jobs m ! i) = k \<and> \<not> j_removed (jobs m ! i))"

definition xfer_inv :: "manager \<Rightarrow> bool" where
  "xfer_inv m \<longleftrightarrow> (\<forall>i < length (jobs m). job_ok (jobs m ! i)) \<and> slots_ok m \<and> keys_ok m"

lemma setJob_simps [simp]:
  "length (jobs (setJob i f m)) = length (jobs m)" "transfers (setJob i f m) = transfers m"
  "waitingTransfers (setJob i f m) = waitingTransfers m" "activeTransfers (setJob i f m) = activeTransfers m"
  "concurrencyLimit (setJob i f m) = concurrencyLimit m"
  "i < length (jobs m) \<Longrightarrow> jobs (setJob i f m) ! k = (if k = i then f (jobs m ! i) else jobs m ! k)"
  by (auto simp: setJob_def nth_list_update)

lemma jobs_setJob: "jobs (setJob i f m) = (jobs m)[i := f (jobs m ! i)]"
  by (simp add: setJob_def)

text \<open>A change of one transfer that leaves its slot and its key alone.\<close>

lemma inv_local:
  assumes "xfer_inv m" "i < length (jobs m)" "job_ok (f (jobs m ! i))"
    and "j_key (f (jobs m ! i)) = j_key (jobs m ! i)" "j_started (f (jobs m ! i)) = j_started (jobs m ! i)"
    and "j_seen (f (jobs m ! i)) = j_seen (jobs m ! i)" "j_removed (f (jobs m ! i)) = j_removed (jobs m ! i)"
  shows "xfer_inv (setJob i f m)"
proof -
  have "slot (f (jobs m ! i)) = slot (jobs m ! i)" using assms by (simp add: slot_def)
  then have "count_if slot (jobs (setJob i f m)) = count_if slot (jobs m)"
    using count_if_update [OF assms(2), of slot "f (jobs m ! i)"] by (simp add: jobs_setJob)
  then have "slots_ok (setJob i f m)" using assms(1,2,5) by (auto simp: xfer_inv_def slots_ok_def)
  moreover have "keys_ok (setJob i f m)" using assms(1,2,4,7) by (simp add: xfer_inv_def keys_ok_def)
  ultimately show ?thesis using assms(1-3) by (simp add: xfer_inv_def)
qed

lemma inv_xfer:
  assumes "xfer_inv m" "i < length (jobs m)" "xfer_ok (f (j_xfer (jobs m ! i)))"
    and "t_running_closed (f (j_xfer (jobs m ! i))) = t_running_closed (j_xfer (jobs m ! i))"
    and "t_closed (f (j_xfer (jobs m ! i))) = t_closed (j_xfer (jobs m ! i))"
  shows "xfer_inv (onXfer i f m)"
proof -
  have "job_ok (jobs m ! i)" using assms(1,2) by (simp add: xfer_inv_def)
  then show ?thesis unfolding onXfer_def using assms by (intro inv_local) (auto simp: job_ok_def)
qed

lemma Watch_ok: "xfer_ok x \<Longrightarrow> xfer_ok (fst (Watch x))"
  by (auto simp: xfer_ok_def Watch_def)

lemma Watch_fields:
  "t_running_closed (fst (Watch x)) = t_running_closed x" "t_closed (fst (Watch x)) = t_closed x"
  "snd (Watch x) \<in> set (t_watchers (fst (Watch x)))" "t_cancelled (fst (Watch x)) = t_cancelled x"
  by (simp_all add: Watch_def)

lemma ReleaseWatcher_ok:
  assumes "xfer_ok x" "w \<in> set (t_watchers x)"
  shows "\<exists>x'. ReleaseWatcher w x = Some x' \<and> xfer_ok x' \<and> t_running_closed x' = t_running_closed x \<and> t_closed x' = t_closed x"
  using assms by (auto simp: xfer_ok_def ReleaseWatcher_def Let_def)

lemma Close_ok:
  assumes "xfer_ok x" "\<not> t_closed x"
  shows "\<exists>x'. CloseTransfer x = Some x' \<and> xfer_ok x' \<and> t_running_closed x' = t_running_closed x \<and> t_closed x'"
  using assms by (auto simp: xfer_ok_def CloseTransfer_def Let_def)

subsection \<open>Steps keep the invariant\<close>

lemma startJob_inv:
  assumes "xfer_inv m" "mget (transfers m) key = None" "startJob key m = (m', w)"
  shows "xfer_inv m'"
proof -
  let ?n = "length (jobs m)" and ?go = "activeTransfers m < int (concurrencyLimit m)"
  let ?j = "\<lparr>j_key = key, j_started = ?go, j_pc = AwaitStart, j_inactive = False, j_seen = False, j_removed = False,
               j_closed = False, j_xfer = fst (Watch NewTransfer)\<rparr>"
  have m': "jobs m' = jobs m @ [?j]" "transfers m' = mput key ?n (transfers m)" "concurrencyLimit m' = concurrencyLimit m"
      "activeTransfers m' = (if ?go then activeTransfers m + 1 else activeTransfers m)"
      "waitingTransfers m' = (if ?go then waitingTransfers m else waitingTransfers m @ [?n])"
    using assms(3) by (auto simp: startJob_def Let_def split: prod.splits)
  have ok: "xfer_ok (fst (Watch NewTransfer))" by (simp add: xfer_ok_def Watch_def NewTransfer_def)
  have "\<not> t_running_closed (fst (Watch NewTransfer))" "\<not> t_closed (fst (Watch NewTransfer))"
    by (simp_all add: Watch_def NewTransfer_def)
  then have j: "job_ok ?j" using ok by (simp add: job_ok_def)
  have jobs': "\<forall>i < length (jobs m'). job_ok (jobs m' ! i)"
    using assms(1) j by (auto simp: m'(1) xfer_inv_def nth_append less_Suc_eq)
  have s: "slots_ok m" and k: "keys_ok m" using assms(1) by (auto simp: xfer_inv_def)
  obtain c where c: "c \<le> ?n" "waitingTransfers m = [c..<?n]" "\<forall>i < ?n. j_started (jobs m ! i) \<longleftrightarrow> i < c"
    using s by (auto simp: slots_ok_def)
  have count: "count_if slot (jobs m') = count_if slot (jobs m) + (if ?go then 1 else 0)"
    by (simp add: m'(1) count_if_def slot_def)
  have len: "length (jobs m') = ?n + 1" by (simp add: m'(1))
  have "slots_ok m'"
  proof (cases ?go)
    case True
    then have "waitingTransfers m = []" using s by (auto simp: slots_ok_def)
    then have "c = ?n" using c(1,2) by auto
    then show ?thesis
      using s c True count len \<open>waitingTransfers m = []\<close> unfolding slots_ok_def
      by (intro conjI exI [of _ "?n + 1"]) (auto simp: m' nth_append less_Suc_eq)
  next
    case False
    then show ?thesis
      using s c count len unfolding slots_ok_def
      by (intro conjI exI [of _ c]) (auto simp: m' nth_append less_Suc_eq)
  qed
  moreover have none: "i < ?n \<Longrightarrow> j_key (jobs m ! i) = key \<Longrightarrow> j_removed (jobs m ! i)" for i
    using k assms(2) unfolding keys_ok_def by (metis option.distinct(1))
  have "keys_ok m'"
    using k none unfolding keys_ok_def len
    by (auto simp: m'(1,2) nth_append less_Suc_eq)
  ultimately show ?thesis using jobs' by (simp add: xfer_inv_def)
qed

lemma Transfer_inv:
  assumes "xfer_inv m"
  shows "\<exists>m' r. Transfer key m = Some (m', r) \<and> xfer_inv m'"
proof (cases "mget (transfers m) key")
  case None
  obtain m1 w where s: "startJob key m = (m1, w)" by (cases "startJob key m")
  then show ?thesis using startJob_inv [OF assms None s] None by (simp add: Transfer_def)
next
  case (Some i)
  then have i: "i < length (jobs m)" using assms by (simp add: xfer_inv_def keys_ok_def)
  let ?x = "j_xfer (jobs m ! i)"
  have ok: "xfer_ok ?x" using assms i by (simp add: xfer_inv_def job_ok_def)
  obtain x w where w: "Watch ?x = (x, w)" by (cases "Watch ?x")
  have x: "xfer_ok x" "t_running_closed x = t_running_closed ?x" "t_closed x = t_closed ?x" "w \<in> set (t_watchers x)"
    using Watch_ok [OF ok] Watch_fields [of ?x] w by auto
  obtain x' where x': "ReleaseWatcher w x = Some x'" "xfer_ok x'" "t_running_closed x' = t_running_closed x" "t_closed x' = t_closed x"
    using ReleaseWatcher_ok [OF x(1,4)] by blast
  have "xfer_inv (onXfer i (\<lambda>_. x) m)" "xfer_inv (onXfer i (\<lambda>_. x') m)"
    using inv_xfer [OF assms i, of "\<lambda>_. x"] inv_xfer [OF assms i, of "\<lambda>_. x'"] x x' by auto
  then show ?thesis using Some w x'(1) by (auto simp: Transfer_def)
qed

text \<open>Giving up a slot: the next waiting transfer gets it, or it becomes free.\<close>

lemma inactivate_slot:
  assumes "xfer_inv m" "i < length (jobs m)" "slot (jobs m ! i)"
    and "\<not> slot (g (jobs m ! i))" "j_started (g (jobs m ! i)) = j_started (jobs m ! i)"
  shows "\<exists>m1. inactivate i m = Some m1 \<and> slots_ok (setJob i g m1) \<and> transfers m1 = transfers m
    \<and> length (jobs m1) = length (jobs m) \<and> jobs m1 ! i = jobs m ! i
    \<and> (\<forall>k < length (jobs m). jobs m1 ! k = jobs m ! k \<or> jobs m1 ! k = (jobs m ! k)\<lparr>j_started := True\<rparr>)"
proof -
  let ?n = "length (jobs m)"
  have s: "slots_ok m" and ok: "\<forall>k < ?n. job_ok (jobs m ! k)" using assms(1) by (auto simp: xfer_inv_def)
  obtain c where c: "c \<le> ?n" "waitingTransfers m = [c..<?n]" "\<forall>i < ?n. j_started (jobs m ! i) \<longleftrightarrow> i < c"
    using s by (auto simp: slots_ok_def)
  have i: "i < c" "j_started (jobs m ! i)" using assms(2,3) c(3) by (auto simp: slot_def)
  show ?thesis
  proof (cases "c = ?n")
    case True
    let ?m1 = "m\<lparr>activeTransfers := activeTransfers m - 1\<rparr>"
    have "inactivate i m = Some ?m1" using c(2) True i by (simp add: inactivate_def)
    moreover have "count_if slot (jobs (setJob i g ?m1)) + 1 = count_if slot (jobs m)"
      using count_if_update [OF assms(2), of slot "g (jobs m ! i)"] assms(3,4) by (simp add: jobs_setJob)
    then have "slots_ok (setJob i g ?m1)"
      using s c True assms(2,5) i unfolding slots_ok_def by (intro conjI exI [of _ c]) (auto)
    ultimately show ?thesis by auto
  next
    case False
    then have cn: "c < ?n" using c(1) by simp
    let ?m1 = "setJob c (\<lambda>j. j\<lparr>j_started := True\<rparr>) (m\<lparr>waitingTransfers := [c + 1..<?n]\<rparr>)"
    have nc: "\<not> j_started (jobs m ! c)" using c(3) cn by simp
    have "inactivate i m = Some ?m1" using c(2) cn i nc by (simp add: inactivate_def upt_conv_Cons)
    moreover have job_c: "\<not> slot (jobs m ! c)" "slot ((jobs m ! c)\<lparr>j_started := True\<rparr>)"
      using ok cn nc by (auto simp: slot_def job_ok_def)
    have "jobs (setJob i g ?m1) = (jobs m)[c := (jobs m ! c)\<lparr>j_started := True\<rparr>, i := g (jobs m ! i)]"
      using cn i(1) by (simp add: setJob_def)
    moreover have "count_if slot ((jobs m)[c := (jobs m ! c)\<lparr>j_started := True\<rparr>, i := g (jobs m ! i)]) = count_if slot (jobs m)"
      using count_if_update [OF cn, of slot "(jobs m ! c)\<lparr>j_started := True\<rparr>"]
        count_if_update [of i "(jobs m)[c := (jobs m ! c)\<lparr>j_started := True\<rparr>]" slot "g (jobs m ! i)"] job_c assms(2-4) i(1) by simp
    moreover have "waitingTransfers m \<noteq> []" using c(2) cn by auto
    then have "activeTransfers m = int (concurrencyLimit m)" using s by (simp add: slots_ok_def)
    ultimately have "slots_ok (setJob i g ?m1)"
      using s c cn assms(2,5) i unfolding slots_ok_def
      by (intro conjI exI [of _ "c + 1"]) (auto simp: less_Suc_eq nth_list_update)
    then show ?thesis using \<open>inactivate i m = Some ?m1\<close> cn i(1) by (intro exI [of _ ?m1]) auto
  qed
qed

lemma job_started_ok: "job_ok j \<Longrightarrow> job_ok (j\<lparr>j_started := True\<rparr>)"
  by (simp add: job_ok_def)

lemma inactivated_jobs:
  assumes "\<forall>k < length (jobs m). job_ok (jobs m ! k)"
    and "\<forall>k < length (jobs m). jobs m1 ! k = jobs m ! k \<or> jobs m1 ! k = (jobs m ! k)\<lparr>j_started := True\<rparr>"
    and "k < length (jobs m)"
  shows "job_ok (jobs m1 ! k)" "j_key (jobs m1 ! k) = j_key (jobs m ! k)" "j_removed (jobs m1 ! k) = j_removed (jobs m ! k)"
proof -
  have "jobs m1 ! k = jobs m ! k \<or> jobs m1 ! k = (jobs m ! k)\<lparr>j_started := True\<rparr>" using assms(2,3) by blast
  then show "job_ok (jobs m1 ! k)" "j_key (jobs m1 ! k) = j_key (jobs m ! k)" "j_removed (jobs m1 ! k) = j_removed (jobs m ! k)"
    using assms(1,3) job_started_ok [of "jobs m ! k"] by auto
qed

lemma seeInactive_inv:
  assumes "xfer_inv m" "i < length (jobs m)" "j_inactive (jobs m ! i)" "\<not> j_seen (jobs m ! i)" "\<not> j_removed (jobs m ! i)"
  shows "\<exists>m'. seeInactive i m = Some m' \<and> xfer_inv m'"
proof -
  let ?g = "\<lambda>j. j\<lparr>j_seen := True\<rparr>"
  have ok: "\<forall>k < length (jobs m). job_ok (jobs m ! k)" and keys: "keys_ok m" using assms(1) by (auto simp: xfer_inv_def)
  have "slot (jobs m ! i)" using ok assms(2-5) by (auto simp: slot_def job_ok_def)
  from inactivate_slot [OF assms(1,2) this, of ?g] obtain m1 where
    m1: "inactivate i m = Some m1" "slots_ok (setJob i ?g m1)" "transfers m1 = transfers m" "length (jobs m1) = length (jobs m)"
      "jobs m1 ! i = jobs m ! i" and old: "\<forall>k < length (jobs m). jobs m1 ! k = jobs m ! k \<or> jobs m1 ! k = (jobs m ! k)\<lparr>j_started := True\<rparr>"
    by (auto simp: slot_def)
  note j = inactivated_jobs [OF ok old]
  have "job_ok ((jobs m ! i)\<lparr>j_seen := True\<rparr>)" using ok assms(2,3) by (auto simp: job_ok_def)
  then have "\<forall>k < length (jobs m). job_ok (jobs (setJob i ?g m1) ! k)" using j(1) m1(4,5) assms(2) by simp
  moreover have "keys_ok (setJob i ?g m1)" using keys j(2,3) m1(3,4,5) assms(2) by (auto simp: keys_ok_def)
  ultimately show ?thesis using m1 by (simp add: seeInactive_def xfer_inv_def)
qed

lemma slots_transfers: "slots_ok (m\<lparr>transfers := ts\<rparr>) \<longleftrightarrow> slots_ok m"
  unfolding slots_ok_def by (rule iffI) auto

lemma remove_inv:
  assumes "\<forall>k < length (jobs m1). job_ok (jobs m1 ! k)" "keys_ok m1" "slots_ok (setJob i (\<lambda>j. j\<lparr>j_removed := True\<rparr>) m1)"
    and "i < length (jobs m1)" "\<not> j_removed (jobs m1 ! i)" "t_running_closed (j_xfer (jobs m1 ! i))"
  shows "xfer_inv (setJob i (\<lambda>j. j\<lparr>j_removed := True\<rparr>) (m1\<lparr>transfers := mdel (j_key (jobs m1 ! i)) (transfers m1)\<rparr>))"
    (is "xfer_inv ?m")
proof -
  have job: "jobs ?m ! k = (if k = i then (jobs m1 ! i)\<lparr>j_removed := True\<rparr> else jobs m1 ! k)" for k using assms(4) by simp
  have "job_ok ((jobs m1 ! i)\<lparr>j_removed := True\<rparr>)" using assms(1,4,6) by (simp add: job_ok_def)
  then have "\<forall>k < length (jobs ?m). job_ok (jobs ?m ! k)" using assms(1) job by simp
  moreover have "?m = (setJob i (\<lambda>j. j\<lparr>j_removed := True\<rparr>) m1)\<lparr>transfers := mdel (j_key (jobs m1 ! i)) (transfers m1)\<rparr>"
    by (simp add: setJob_def)
  then have "slots_ok ?m" using assms(3) slots_transfers by simp
  moreover have "keys_ok ?m"
    unfolding keys_ok_def
  proof (intro allI)
    fix k n
    have "mget (transfers m1) (j_key (jobs m1 ! i)) = Some i" using assms(2,4,5) unfolding keys_ok_def by blast
    then have uniq: "n < length (jobs m1) \<Longrightarrow> j_key (jobs m1 ! n) = j_key (jobs m1 ! i) \<Longrightarrow> \<not> j_removed (jobs m1 ! n) \<Longrightarrow> n = i"
      using assms(2) unfolding keys_ok_def by (metis option.inject)
    show "mget (transfers ?m) k = Some n \<longleftrightarrow> n < length (jobs ?m) \<and> j_key (jobs ?m ! n) = k \<and> \<not> j_removed (jobs ?m ! n)"
      using assms(2) uniq job [of n] by (auto simp: keys_ok_def)
  qed
  ultimately show ?thesis by (simp add: xfer_inv_def)
qed

lemma seeDone_inv:
  assumes "xfer_inv m" "i < length (jobs m)" "t_running_closed (j_xfer (jobs m ! i))" "\<not> j_removed (jobs m ! i)"
  shows "\<exists>m'. seeDone i m = Some m' \<and> xfer_inv m'"
proof -
  let ?g = "\<lambda>j. j\<lparr>j_removed := True\<rparr>"
  have ok: "\<forall>k < length (jobs m). job_ok (jobs m ! k)" and keys: "keys_ok m" using assms(1) by (auto simp: xfer_inv_def)
  show ?thesis
  proof (cases "j_seen (jobs m ! i)")
    case True
    then have "slot (?g (jobs m ! i)) = slot (jobs m ! i)" by (simp add: slot_def)
    then have "count_if slot (jobs (setJob i ?g m)) = count_if slot (jobs m)"
      using count_if_update [OF assms(2), of slot "?g (jobs m ! i)"] by (simp add: jobs_setJob)
    then have "slots_ok (setJob i ?g m)" using assms(1,2) by (auto simp: xfer_inv_def slots_ok_def)
    from remove_inv [OF ok keys this assms(2,4,3)] show ?thesis using True by (simp add: seeDone_def)
  next
    case False
    have "slot (jobs m ! i)" using ok assms(2-4) False by (auto simp: slot_def job_ok_def)
    from inactivate_slot [OF assms(1,2) this, of ?g] obtain m1 where
      m1: "inactivate i m = Some m1" "slots_ok (setJob i ?g m1)" "transfers m1 = transfers m" "length (jobs m1) = length (jobs m)"
        "jobs m1 ! i = jobs m ! i" and old: "\<forall>k < length (jobs m). jobs m1 ! k = jobs m ! k \<or> jobs m1 ! k = (jobs m ! k)\<lparr>j_started := True\<rparr>"
      by (auto simp: slot_def)
    note j = inactivated_jobs [OF ok old]
    have "\<forall>k < length (jobs m1). job_ok (jobs m1 ! k)" "keys_ok m1"
      using j m1(3,4) keys by (auto simp: keys_ok_def)
    from remove_inv [OF this m1(2)] show ?thesis using False m1 assms(2-4) by (simp add: seeDone_def)
  qed
qed

lemma xfer_inv_step: "xfer_step m z \<Longrightarrow> xfer_inv m \<Longrightarrow> \<exists>m'. z = Some m' \<and> xfer_inv m'"
proof (induction rule: xfer_step.induct)
  case (transfer_ok key m m' r)
  then show ?case using Transfer_inv [of m key] by auto
next
  case (transfer_panic key m)
  then show ?case using Transfer_inv [of m key] by auto
next
  case (begin_work i m)
  then have "job_ok (jobs m ! i)" by (simp add: xfer_inv_def)
  then have "job_ok ((jobs m ! i)\<lparr>j_pc := Working\<rparr>)" using begin_work(1-3) by (auto simp: job_ok_def)
  then have "xfer_inv (setJob i (\<lambda>j. j\<lparr>j_pc := Working\<rparr>) m)" using begin_work by (intro inv_local) simp_all
  then show ?case by blast
next
  case (go_inactive i m)
  then have "job_ok (jobs m ! i)" by (simp add: xfer_inv_def)
  then have "job_ok ((jobs m ! i)\<lparr>j_inactive := True\<rparr>)" using go_inactive(1-3) by (auto simp: job_ok_def)
  then have "xfer_inv (setJob i (\<lambda>j. j\<lparr>j_inactive := True\<rparr>) m)" using go_inactive by (intro inv_local) simp_all
  then show ?case by blast
next
  case (report i m p)
  then have "xfer_ok (j_xfer (jobs m ! i))" by (simp add: xfer_inv_def job_ok_def)
  then have "xfer_ok (broadcastItem p (j_xfer (jobs m ! i)))" by (simp add: broadcastItem_def xfer_ok_def)
  then have "xfer_inv (onXfer i (broadcastItem p) m)" using report by (intro inv_xfer) (simp_all add: broadcastItem_def)
  then show ?case by blast
next
  case (end_work i m)
  then have "job_ok (jobs m ! i)" by (simp add: xfer_inv_def)
  then have "job_ok ((jobs m ! i)\<lparr>j_pc := Finished\<rparr>)" using end_work(1-3) by (auto simp: job_ok_def)
  then have "xfer_inv (setJob i (\<lambda>j. j\<lparr>j_pc := Finished\<rparr>) m)" using end_work by (intro inv_local) simp_all
  then show ?case by blast
next
  case (end_broadcast i m)
  let ?x = "j_xfer (jobs m ! i)"
  let ?x' = "?x\<lparr>t_broadcastDone := True, t_running_closed := True\<rparr>"
  have ok: "job_ok (jobs m ! i)" using end_broadcast by (simp add: xfer_inv_def)
  then have b: "broadcastEnd ?x = Some ?x'" using end_broadcast(3) by (simp add: broadcastEnd_def job_ok_def xfer_ok_def)
  have "job_ok ((jobs m ! i)\<lparr>j_xfer := ?x'\<rparr>)" using ok end_broadcast(2) by (auto simp: job_ok_def xfer_ok_def)
  then have "xfer_inv (setJob i (\<lambda>j. j\<lparr>j_xfer := ?x'\<rparr>) m)"
    using end_broadcast inv_local [of m i "\<lambda>j. j\<lparr>j_xfer := ?x'\<rparr>"] by simp
  then show ?case using b by (simp add: onXfer_def)
next
  case (manager_inactive i m)
  then show ?case using seeInactive_inv by simp
next
  case (manager_done i m)
  then show ?case using seeDone_inv by simp
next
  case (manager_close i m)
  then have ok: "job_ok (jobs m ! i)" by (simp add: xfer_inv_def)
  then have x: "xfer_ok (j_xfer (jobs m ! i))" "\<not> t_closed (j_xfer (jobs m ! i))" using manager_close(3) by (auto simp: job_ok_def)
  from Close_ok [OF this] obtain x' where x': "CloseTransfer (j_xfer (jobs m ! i)) = Some x'" "xfer_ok x'"
      "t_running_closed x' = t_running_closed (j_xfer (jobs m ! i))" "t_closed x'" by blast
  have "job_ok ((jobs m ! i)\<lparr>j_closed := True, j_xfer := x'\<rparr>)" using ok x' manager_close(2) by (auto simp: job_ok_def)
  then have "xfer_inv (setJob i (\<lambda>j. j\<lparr>j_closed := True, j_xfer := x'\<rparr>) m)" using manager_close by (intro inv_local) simp_all
  then show ?case using x'(1) by simp
next
  case (client_release i m w)
  then have x: "xfer_ok (j_xfer (jobs m ! i))" by (simp add: xfer_inv_def job_ok_def)
  from ReleaseWatcher_ok [OF x client_release(2)] obtain x' where x': "ReleaseWatcher w (j_xfer (jobs m ! i)) = Some x'" "xfer_ok x'"
      "t_running_closed x' = t_running_closed (j_xfer (jobs m ! i))" "t_closed x' = t_closed (j_xfer (jobs m ! i))" by blast
  then show ?case using client_release inv_xfer [of m i "\<lambda>_. x'"] by auto
qed

lemma Transfer_limit: "Transfer key m = Some (m', r) \<Longrightarrow> concurrencyLimit m' = concurrencyLimit m"
  by (auto simp: Transfer_def startJob_def onXfer_def Let_def split: option.splits prod.splits if_splits)

lemma inactivate_limit: "inactivate i m = Some m' \<Longrightarrow> concurrencyLimit m' = concurrencyLimit m"
  by (auto simp: inactivate_def split: if_splits list.splits)

lemma xfer_limit: "xfer_step m z \<Longrightarrow> z = Some m' \<Longrightarrow> concurrencyLimit m' = concurrencyLimit m"
  by (induction rule: xfer_step.induct)
    (auto simp: onXfer_def seeInactive_def seeDone_def dest: Transfer_limit inactivate_limit split: if_splits)

lemma xfer_reachable_inv: "xfer_reachable limit z \<Longrightarrow> \<exists>m. z = Some m \<and> xfer_inv m \<and> concurrencyLimit m = limit"
proof (induction rule: xfer_reachable.induct)
  case xfer_init
  show ?case by (simp add: xfer_inv_def slots_ok_def keys_ok_def NewTransferManager_def count_if_def)
next
  case (xfer_next m z)
  then show ?case using xfer_inv_step [OF xfer_next(2)] xfer_limit [OF xfer_next(2)] by auto
qed

subsection \<open>What the manager promises\<close>

lemma count_if_mono: "(\<And>x. x \<in> set xs \<Longrightarrow> P x \<Longrightarrow> Q x) \<Longrightarrow> count_if P xs \<le> count_if Q xs"
  unfolding count_if_def by (induction xs) auto

text \<open>
  C24: Under every interleaving of transfers, broadcasters, the manager and the clients nothing
  panics, at most \<^verbatim>\<open>concurrencyLimit\<close> transfers move data at a time, no slot is idle while a transfer
  waits, transfers get their slot in the order they were asked for, and there is one transfer per key
  at a time.
\<close>

theorem transfers_scheduled:
  assumes "xfer_reachable limit z"
  shows "\<exists>m. z = Some m
    \<and> count_if (\<lambda>j. j_pc j = Working \<and> \<not> j_inactive j) (jobs m) \<le> limit
    \<and> (waitingTransfers m \<noteq> [] \<longrightarrow> count_if slot (jobs m) = limit)
    \<and> (\<exists>c. waitingTransfers m = [c..<length (jobs m)] \<and> (\<forall>i < length (jobs m). j_started (jobs m ! i) \<longleftrightarrow> i < c))
    \<and> (\<forall>i k. i < length (jobs m) \<and> k < length (jobs m) \<and> j_key (jobs m ! i) = j_key (jobs m ! k)
         \<and> \<not> j_removed (jobs m ! i) \<and> \<not> j_removed (jobs m ! k) \<longrightarrow> i = k)"
proof -
  obtain m where m: "z = Some m" "xfer_inv m" "concurrencyLimit m = limit" using xfer_reachable_inv [OF assms] by blast
  then have ok: "\<forall>i < length (jobs m). job_ok (jobs m ! i)" and s: "slots_ok m" and k: "keys_ok m" by (auto simp: xfer_inv_def)
  have "j_pc j = Working \<and> \<not> j_inactive j \<Longrightarrow> slot j" if "j \<in> set (jobs m)" for j
  proof -
    have "job_ok j" using ok that by (auto simp: in_set_conv_nth)
    then show "j_pc j = Working \<and> \<not> j_inactive j \<Longrightarrow> slot j" by (auto simp: job_ok_def slot_def)
  qed
  then have "count_if (\<lambda>j. j_pc j = Working \<and> \<not> j_inactive j) (jobs m) \<le> count_if slot (jobs m)" by (intro count_if_mono) blast
  moreover have "count_if slot (jobs m) \<le> limit" "waitingTransfers m \<noteq> [] \<longrightarrow> count_if slot (jobs m) = limit"
    using s m(3) unfolding slots_ok_def by linarith+
  moreover have "i = n" if "i < length (jobs m)" "n < length (jobs m)" "j_key (jobs m ! i) = j_key (jobs m ! n)"
      "\<not> j_removed (jobs m ! i)" "\<not> j_removed (jobs m ! n)" for i n
    using k that unfolding keys_ok_def by (metis option.inject)
  ultimately show ?thesis using m(1) s unfolding slots_ok_def by auto
qed

lemma two_jobs:
  "\<exists>m1 m2 r1 r2. Transfer ''a'' (NewTransferManager 1) = Some (m1, r1) \<and> Transfer ''b'' m1 = Some (m2, r2)
     \<and> waitingTransfers m2 = [1] \<and> length (jobs m2) = 2 \<and> j_started (jobs m2 ! 0)"
  by (simp add: Transfer_def startJob_def Watch_def NewTransfer_def NewTransferManager_def Let_def numeral_2_eq_2)

theorem transfers_scheduled_witness:
  "\<exists>m. xfer_reachable 1 (Some m) \<and> waitingTransfers m = [1] \<and> count_if slot (jobs m) = 1"
proof -
  obtain m1 m2 r1 r2 where t: "Transfer ''a'' (NewTransferManager 1) = Some (m1, r1)" "Transfer ''b'' m1 = Some (m2, r2)"
      "waitingTransfers m2 = [1]" using two_jobs by blast
  have "xfer_reachable 1 (Some m1)" by (rule xfer_next [OF xfer_init]) (rule transfer_ok [OF t(1)])
  then have r: "xfer_reachable 1 (Some m2)" by (rule xfer_next) (rule transfer_ok [OF t(2)])
  from transfers_scheduled [OF r] show ?thesis using r t(3) by (intro exI [of _ m2]) simp
qed

text \<open>When \<^verbatim>\<open>released\<close> is closed, nobody watches.\<close>

definition releases_fairly :: "transfer \<Rightarrow> transfer \<Rightarrow> bool" where
  "releases_fairly x x' \<longleftrightarrow> (\<not> t_released x \<and> t_released x' \<longrightarrow> t_watchers x' = [] \<and> t_closed x')"

lemma ReleaseWatcher_fair: "ReleaseWatcher w x = Some x' \<Longrightarrow> releases_fairly x x'"
  by (auto simp: ReleaseWatcher_def releases_fairly_def Let_def split: if_splits)

lemma CloseTransfer_fair: "CloseTransfer x = Some x' \<Longrightarrow> releases_fairly x x'"
  by (auto simp: CloseTransfer_def releases_fairly_def Let_def split: if_splits)

lemma broadcast_fair:
  "releases_fairly x (broadcastItem p x)" "broadcastEnd x = Some x' \<Longrightarrow> releases_fairly x x'" "releases_fairly x (fst (Watch x))"
  by (auto simp: releases_fairly_def broadcastItem_def broadcastEnd_def Watch_def split: if_splits)

lemma fair_refl [simp]: "releases_fairly x x"
  by (simp add: releases_fairly_def)

lemma inactivate_xfer:
  "inactivate k m = Some m' \<Longrightarrow> length (jobs m') = length (jobs m) \<and> j_xfer (jobs m' ! i) = j_xfer (jobs m ! i)"
  by (auto simp: inactivate_def setJob_def nth_list_update split: if_splits list.splits)
    (metis list_update_beyond not_less nth_list_update_eq nth_list_update_neq job.select_convs(8) job.simps job.surjective)

lemma setJob_xfer:
  "i < length (jobs m) \<Longrightarrow> (\<And>j. releases_fairly (j_xfer j) (j_xfer (f j))) \<Longrightarrow>
    releases_fairly (j_xfer (jobs m ! i)) (j_xfer (jobs (setJob k f m) ! i))"
  by (cases "k = i") (simp_all add: setJob_def)

lemma onXfer_fair:
  "k < length (jobs m) \<Longrightarrow> releases_fairly (j_xfer (jobs m ! k)) (f (j_xfer (jobs m ! k))) \<Longrightarrow>
    releases_fairly (j_xfer (jobs m ! i)) (j_xfer (jobs (onXfer k f m) ! i))"
  by (simp add: onXfer_def)

lemma Transfer_fair:
  assumes "Transfer key m = Some (m', r)" "xfer_inv m" "i < length (jobs m)"
  shows "releases_fairly (j_xfer (jobs m ! i)) (j_xfer (jobs m' ! i))"
proof (cases "mget (transfers m) key")
  case None
  then have "jobs m' ! i = jobs m ! i"
    using assms(1,3) by (auto simp: Transfer_def startJob_def Let_def nth_append split: prod.splits)
  then show ?thesis by simp
next
  case (Some k)
  then have k: "k < length (jobs m)" using assms(2) by (simp add: xfer_inv_def keys_ok_def)
  let ?x = "j_xfer (jobs m ! k)"
  obtain x w where w: "Watch ?x = (x, w)" by (cases "Watch ?x")
  have x: "releases_fairly ?x x" "t_released x = t_released ?x" using w by (auto simp: Watch_def releases_fairly_def)
  show ?thesis
  proof (cases "t_cancelled x")
    case True
    then obtain x' where x': "ReleaseWatcher w x = Some x'" "m' = onXfer k (\<lambda>_. x') m" using assms(1) Some w by (auto simp: Transfer_def)
    have "releases_fairly ?x x'" using ReleaseWatcher_fair [OF x'(1)] x(2) by (simp add: releases_fairly_def)
    then show ?thesis using onXfer_fair [OF k, of "\<lambda>_. x'"] x'(2) by simp
  next
    case False
    then have "m' = onXfer k (\<lambda>_. x) m" using assms(1) Some w by (auto simp: Transfer_def)
    then show ?thesis using onXfer_fair [OF k, of "\<lambda>_. x"] x(1) by simp
  qed
qed

lemma step_fair:
  "xfer_step m z \<Longrightarrow> z = Some m' \<Longrightarrow> xfer_inv m \<Longrightarrow> i < length (jobs m) \<Longrightarrow>
    releases_fairly (j_xfer (jobs m ! i)) (j_xfer (jobs m' ! i))"
proof (induction rule: xfer_step.induct)
  case (transfer_ok key m m1 r)
  then show ?case using Transfer_fair by simp
next
  case (begin_work k m)
  then show ?case using setJob_xfer [of i m "\<lambda>j. j\<lparr>j_pc := Working\<rparr>" k] by auto
next
  case (go_inactive k m)
  then show ?case using setJob_xfer [of i m "\<lambda>j. j\<lparr>j_inactive := True\<rparr>" k] by auto
next
  case (report k m p)
  then show ?case using onXfer_fair [of k m "broadcastItem p" i] broadcast_fair(1) by auto
next
  case (end_work k m)
  then show ?case using setJob_xfer [of i m "\<lambda>j. j\<lparr>j_pc := Finished\<rparr>" k] by auto
next
  case (end_broadcast k m)
  then obtain x where "broadcastEnd (j_xfer (jobs m ! k)) = Some x" "m' = onXfer k (\<lambda>_. x) m" by auto
  then show ?case using onXfer_fair [OF end_broadcast(1), of "\<lambda>_. x" i] broadcast_fair(2) by simp
next
  case (manager_inactive k m)
  then obtain m1 where m1: "inactivate k m = Some m1" "m' = setJob k (\<lambda>j. j\<lparr>j_seen := True\<rparr>) m1" by (auto simp: seeInactive_def)
  then show ?case
    using inactivate_xfer [OF m1(1), of i] setJob_xfer [of i m1 "\<lambda>j. j\<lparr>j_seen := True\<rparr>" k] manager_inactive(7) by simp
next
  case (manager_done k m)
  let ?g = "\<lambda>j :: job. j\<lparr>j_removed := True\<rparr>"
  obtain m1 where m1: "m1 = m \<or> inactivate k m = Some m1"
      "m' = setJob k ?g (m1\<lparr>transfers := mdel (j_key (jobs m ! k)) (transfers m1)\<rparr>)"
    using manager_done(4) by (auto simp: seeDone_def split: if_splits)
  then have "length (jobs m1) = length (jobs m)" "j_xfer (jobs m1 ! i) = j_xfer (jobs m ! i)"
    using inactivate_xfer [of k m m1 i] by auto
  then show ?case
    using setJob_xfer [of i "m1\<lparr>transfers := mdel (j_key (jobs m ! k)) (transfers m1)\<rparr>" ?g k] m1(2) manager_done(6) by simp
next
  case (manager_close k m)
  then obtain x where x: "CloseTransfer (j_xfer (jobs m ! k)) = Some x" "m' = setJob k (\<lambda>j. j\<lparr>j_closed := True, j_xfer := x\<rparr>) m" by auto
  then show ?case using CloseTransfer_fair [OF x(1)] manager_close(1) by simp
next
  case (client_release k m w)
  then obtain x where "ReleaseWatcher w (j_xfer (jobs m ! k)) = Some x" "m' = onXfer k (\<lambda>_. x) m" by auto
  then show ?case using onXfer_fair [OF client_release(1), of "\<lambda>_. x" i] ReleaseWatcher_fair by simp
qed simp

text \<open>
  C25: The life of a transfer.  In every reachable state, a transfer that nobody watches has been
  cancelled, or, once the manager has let go of it, released; it is let go of only after its work is
  over; and the step that releases it happens when nobody watches.  So the result of a transfer is
  kept while a client watches it, and given up when the last one leaves.
\<close>

theorem transfer_lifecycle:
  assumes "xfer_reachable limit (Some m)" "i < length (jobs m)"
  shows "let j = jobs m ! i; x = j_xfer j in
    (t_watchers x = [] \<longrightarrow> (if t_closed x then t_released x else t_cancelled x))
    \<and> (t_released x \<longrightarrow> t_closed x) \<and> (t_closed x \<longrightarrow> j_removed j \<and> j_pc j = Finished)
    \<and> (\<forall>m'. xfer_step m (Some m') \<and> \<not> t_released x \<and> t_released (j_xfer (jobs m' ! i)) \<longrightarrow> t_watchers (j_xfer (jobs m' ! i)) = [])"
proof -
  have inv: "xfer_inv m" using xfer_reachable_inv [OF assms(1)] by simp
  then have "job_ok (jobs m ! i)" using assms(2) by (simp add: xfer_inv_def)
  moreover have "t_watchers (j_xfer (jobs m' ! i)) = []"
    if "xfer_step m (Some m')" "\<not> t_released (j_xfer (jobs m ! i))" "t_released (j_xfer (jobs m' ! i))" for m'
    using step_fair [OF that(1) refl inv assms(2)] that(2,3) by (simp add: releases_fairly_def)
  ultimately show ?thesis unfolding Let_def job_ok_def xfer_ok_def by blast
qed

theorem transfer_lifecycle_witness:
  "\<exists>m m'. xfer_reachable 1 (Some m) \<and> xfer_step m (Some m') \<and> t_watchers (j_xfer (jobs m' ! 0)) = []
    \<and> t_cancelled (j_xfer (jobs m' ! 0)) \<and> \<not> t_released (j_xfer (jobs m' ! 0))"
proof -
  obtain m1 r1 where t: "Transfer ''a'' (NewTransferManager 1) = Some (m1, r1)" and j: "length (jobs m1) = 1"
      "j_xfer (jobs m1 ! 0) = fst (Watch NewTransfer)"
    by (simp add: Transfer_def startJob_def Watch_def NewTransfer_def NewTransferManager_def Let_def)
  have r: "xfer_reachable 1 (Some m1)" by (rule xfer_next [OF xfer_init]) (rule transfer_ok [OF t])
  obtain x where x: "ReleaseWatcher 0 (fst (Watch NewTransfer)) = Some x" "t_watchers x = []" "\<not> t_closed x"
    by (simp add: ReleaseWatcher_def Watch_def NewTransfer_def)
  let ?m = "onXfer 0 (\<lambda>_. x) m1"
  have s: "xfer_step m1 (Some ?m)" using client_release [of 0 m1 0] j x by (simp add: Watch_def NewTransfer_def)
  then have r': "xfer_reachable 1 (Some ?m)" by (rule xfer_next [OF r])
  have jx: "j_xfer (jobs ?m ! 0) = x" "0 < length (jobs ?m)" using j by (simp_all add: onXfer_def)
  have "t_cancelled x \<and> \<not> t_released x"
    using transfer_lifecycle [OF r' jx(2)] x(2,3) jx(1) by (simp add: Let_def)
  then show ?thesis using r s jx(1) x(2) by (intro exI [of _ m1] exI [of _ ?m]) simp
qed

end
