(* ===== verification/Layer_Files.thy ===== *)
theory Layer_Files
  imports Layer_Refcount "HOL-Library.List_Lexorder"
begin

section \<open>Layer metadata on disk (\<^verbatim>\<open>layer/filestore.go\<close>) and reopening the store\<close>

text \<open>
  The file system below the root of the metadata store is a map from paths, as lists of components, to
  directories and the contents of files; reads and writes of the disk itself do not fail.  The digest
  library of the vendored \<^verbatim>\<open>docker/distribution\<close> decides which digests are valid: an argument \<open>validate\<close>.
  \<^verbatim>\<open>NewStoreFromGraphDriver\<close> (\<^verbatim>\<open>layer_store.go\<close>) rebuilds the layer store from the files.
\<close>

subsection \<open>Files\<close>

datatype disk_node = Dir | File string

type_synonym file_path = "string list"
type_synonym disk = "(file_path, disk_node) gomap"

datatype disk_error =
    NotExist
  | IsDir
  | NotDir
  | NotEmpty
  | BadDigest
  | BadID
  | BadSize num_error

definition ReadFile :: "file_path \<Rightarrow> disk \<Rightarrow> (disk_error, string) result" where
  "ReadFile p fs = (case mget fs p of None \<Rightarrow> Inl NotExist | Some Dir \<Rightarrow> Inl IsDir | Some (File s) \<Rightarrow> Inr s)"

definition isDir :: "file_path \<Rightarrow> disk \<Rightarrow> bool" where
  "isDir p fs \<longleftrightarrow> p = [] \<or> mget fs p = Some Dir"

definition WriteFile :: "file_path \<Rightarrow> string \<Rightarrow> disk \<Rightarrow> (disk_error, disk) result" where
  "WriteFile p s fs =
     (if \<not> isDir (butlast p) fs then Inl NotExist
      else if mget fs p = Some Dir then Inl IsDir
      else Inr (mput p (File s) fs))"

fun mkdirLoop :: "file_path \<Rightarrow> file_path \<Rightarrow> disk \<Rightarrow> (disk_error, disk) result" where
  "mkdirLoop d [] fs = Inr fs"
| "mkdirLoop d (n # ns) fs =
     (case mget fs (d @ [n]) of
        None \<Rightarrow> mkdirLoop (d @ [n]) ns (mput (d @ [n]) Dir fs)
      | Some Dir \<Rightarrow> mkdirLoop (d @ [n]) ns fs
      | Some (File s) \<Rightarrow> Inl NotDir)"

definition MkdirAll :: "file_path \<Rightarrow> disk \<Rightarrow> (disk_error, disk) result" where
  "MkdirAll p fs = mkdirLoop [] p fs"

definition below :: "file_path \<Rightarrow> file_path \<Rightarrow> bool" where
  "below d p \<longleftrightarrow> take (length d) p = d"

definition RemoveAll :: "file_path \<Rightarrow> disk \<Rightarrow> disk" where
  "RemoveAll d fs = filter (\<lambda>e. \<not> below d (fst e)) fs"

text \<open>Renaming a directory: the target is absent or an empty directory.\<close>

definition Rename :: "file_path \<Rightarrow> file_path \<Rightarrow> disk \<Rightarrow> (disk_error, disk) result" where
  "Rename d d' fs =
     (if mget fs d = None \<or> \<not> isDir (butlast d') fs then Inl NotExist
      else if \<exists>e \<in> set fs. below d' (fst e) \<and> fst e \<noteq> d' then Inl NotEmpty
      else if \<exists>s. mget fs d' = Some (File s) then Inl NotDir
      else Inr (map (\<lambda>(p, x). (if below d p then d' @ drop (length d) p else p, x)) (mdel d' fs)))"

text \<open>\<^verbatim>\<open>ioutil.ReadDir\<close>: the entries in order of their names, with whether they are directories.\<close>

definition ReadDir :: "file_path \<Rightarrow> disk \<Rightarrow> (disk_error, (string \<times> bool) list) result" where
  "ReadDir d fs =
     (if mget fs d = None \<and> d \<noteq> [] then Inl NotExist
      else if \<not> isDir d fs then Inl NotDir
      else Inr (sort_key (\<lambda>e. map (\<lambda>c. of_char c :: nat) (fst e))
             (map (\<lambda>(p, x). (last p, x = Dir)) (filter (\<lambda>(p, x). p \<noteq> [] \<and> butlast p = d) fs))))"

subsection \<open>The metadata store\<close>

definition hex64 :: "string \<Rightarrow> bool" where
  "hex64 s \<longleftrightarrow> length s = 64 \<and> list_all (\<lambda>c. c \<in> set ''0123456789abcdef'') s"

text \<open>The regular expression \<^verbatim>\<open>^[a-f0-9]{64}(-init)?$\<close>.\<close>

definition stringID :: "string \<Rightarrow> bool" where
  "stringID s \<longleftrightarrow> hex64 s \<or> (drop 64 s = ''-init'' \<and> hex64 (take 64 s))"

definition layerDir :: "chain_id \<Rightarrow> file_path" where
  "layerDir c = [before CHR '':'' c, after CHR '':'' c]"

definition mountDir :: "string \<Rightarrow> file_path" where
  "mountDir m = [''mounts'', m]"

text \<open>\<^verbatim>\<open>ioutil.TempDir\<close> tries random suffixes until it can make the directory; the argument is the one it found.\<close>

definition StartTransaction :: "string \<Rightarrow> disk \<Rightarrow> (disk_error, disk \<times> file_path) result" where
  "StartTransaction suffix fs =
     (case MkdirAll [''tmp''] fs of
        Inl e \<Rightarrow> Inl e
      | Inr fs1 \<Rightarrow> let td = [''tmp'', ''layer-'' @ suffix] in Inr (mput td Dir fs1, td))"

definition tx_SetSize :: "file_path \<Rightarrow> int64 \<Rightarrow> disk \<Rightarrow> (disk_error, disk) result" where
  "tx_SetSize root n fs = WriteFile (root @ [''size'']) (itoa (sint n)) fs"

definition tx_SetParent :: "file_path \<Rightarrow> chain_id \<Rightarrow> disk \<Rightarrow> (disk_error, disk) result" where
  "tx_SetParent root par fs = WriteFile (root @ [''parent'']) par fs"

definition tx_SetDiffID :: "file_path \<Rightarrow> diff_id \<Rightarrow> disk \<Rightarrow> (disk_error, disk) result" where
  "tx_SetDiffID root diff fs = WriteFile (root @ [''diff'']) diff fs"

definition tx_SetCacheID :: "file_path \<Rightarrow> string \<Rightarrow> disk \<Rightarrow> (disk_error, disk) result" where
  "tx_SetCacheID root cid fs = WriteFile (root @ [''cache-id'']) cid fs"

definition tx_Commit :: "file_path \<Rightarrow> chain_id \<Rightarrow> disk \<Rightarrow> (disk_error, disk) result" where
  "tx_Commit root c fs =
     (case MkdirAll (butlast (layerDir c)) fs of Inl e \<Rightarrow> Inl e | Inr fs1 \<Rightarrow> Rename root (layerDir c) fs1)"

definition tx_Cancel :: "file_path \<Rightarrow> disk \<Rightarrow> disk" where
  "tx_Cancel root fs = RemoveAll root fs"

text \<open>\<^verbatim>\<open>storeLayer\<close> (\<^verbatim>\<open>layer/ro_layer.go\<close>); the parent is the empty chain when there is none.\<close>

definition storeLayer :: "file_path \<Rightarrow> diff_id \<Rightarrow> int64 \<Rightarrow> string \<Rightarrow> chain_id \<Rightarrow> disk \<Rightarrow> (disk_error, disk) result" where
  "storeLayer tx diff n cid par fs =
     (case tx_SetDiffID tx diff fs of
        Inl e \<Rightarrow> Inl e
      | Inr fs1 \<Rightarrow>
          (case tx_SetSize tx n fs1 of
             Inl e \<Rightarrow> Inl e
           | Inr fs2 \<Rightarrow>
               (case tx_SetCacheID tx cid fs2 of
                  Inl e \<Rightarrow> Inl e
                | Inr fs3 \<Rightarrow> if par \<noteq> [] then tx_SetParent tx par fs3 else Inr fs3)))"

definition GetSize :: "disk \<Rightarrow> chain_id \<Rightarrow> (disk_error, int64) result" where
  "GetSize fs c =
     (case ReadFile (layerDir c @ [''size'']) fs of
        Inl e \<Rightarrow> Inl e
      | Inr s \<Rightarrow> (case parse_int s 10 64 of (n, None) \<Rightarrow> Inr (word_of_int n) | (n, Some e) \<Rightarrow> Inl (BadSize e)))"

definition readDigest :: "(string \<Rightarrow> bool) \<Rightarrow> string \<Rightarrow> (disk_error, string) result" where
  "readDigest validate s = (let d = trim_space s in if validate d then Inr d else Inl BadDigest)"

definition readID :: "string \<Rightarrow> (disk_error, string) result" where
  "readID s = (let i = trim_space s in if stringID i then Inr i else Inl BadID)"

definition readOptional :: "(string \<Rightarrow> (disk_error, string) result) \<Rightarrow> (disk_error, string) result \<Rightarrow> (disk_error, string) result" where
  "readOptional f r = (case r of Inl NotExist \<Rightarrow> Inr [] | Inl e \<Rightarrow> Inl e | Inr s \<Rightarrow> f s)"

definition readRequired :: "(string \<Rightarrow> (disk_error, string) result) \<Rightarrow> (disk_error, string) result \<Rightarrow> (disk_error, string) result" where
  "readRequired f r = (case r of Inl e \<Rightarrow> Inl e | Inr s \<Rightarrow> f s)"

definition fms_GetParent :: "(string \<Rightarrow> bool) \<Rightarrow> disk \<Rightarrow> chain_id \<Rightarrow> (disk_error, chain_id) result" where
  "fms_GetParent validate fs c = readOptional (readDigest validate) (ReadFile (layerDir c @ [''parent'']) fs)"

definition GetDiffID :: "(string \<Rightarrow> bool) \<Rightarrow> disk \<Rightarrow> chain_id \<Rightarrow> (disk_error, diff_id) result" where
  "GetDiffID validate fs c = readRequired (readDigest validate) (ReadFile (layerDir c @ [''diff'']) fs)"

definition GetCacheID :: "disk \<Rightarrow> chain_id \<Rightarrow> (disk_error, string) result" where
  "GetCacheID fs c = readRequired readID (ReadFile (layerDir c @ [''cache-id'']) fs)"

definition setMountFile :: "string \<Rightarrow> string \<Rightarrow> string \<Rightarrow> disk \<Rightarrow> (disk_error, disk) result" where
  "setMountFile name m content fs =
     (case MkdirAll (mountDir m) fs of Inl e \<Rightarrow> Inl e | Inr fs1 \<Rightarrow> WriteFile (mountDir m @ [name]) content fs1)"

definition SetMountID :: "string \<Rightarrow> string \<Rightarrow> disk \<Rightarrow> (disk_error, disk) result" where
  "SetMountID m mid = setMountFile ''mount-id'' m mid"

definition SetInitID :: "string \<Rightarrow> string \<Rightarrow> disk \<Rightarrow> (disk_error, disk) result" where
  "SetInitID m i = setMountFile ''init-id'' m i"

definition SetMountParent :: "string \<Rightarrow> chain_id \<Rightarrow> disk \<Rightarrow> (disk_error, disk) result" where
  "SetMountParent m par = setMountFile ''parent'' m par"

definition GetMountID :: "disk \<Rightarrow> string \<Rightarrow> (disk_error, string) result" where
  "GetMountID fs m = readRequired readID (ReadFile (mountDir m @ [''mount-id'']) fs)"

definition GetInitID :: "disk \<Rightarrow> string \<Rightarrow> (disk_error, string) result" where
  "GetInitID fs m = readOptional readID (ReadFile (mountDir m @ [''init-id'']) fs)"

definition GetMountParent :: "(string \<Rightarrow> bool) \<Rightarrow> disk \<Rightarrow> string \<Rightarrow> (disk_error, chain_id) result" where
  "GetMountParent validate fs m = readOptional (readDigest validate) (ReadFile (mountDir m @ [''parent'']) fs)"

definition fms_Remove :: "chain_id \<Rightarrow> disk \<Rightarrow> disk" where
  "fms_Remove c fs = RemoveAll (layerDir c) fs"

definition RemoveMount :: "string \<Rightarrow> disk \<Rightarrow> disk" where
  "RemoveMount m fs = RemoveAll (mountDir m) fs"

definition List_metadata :: "(string \<Rightarrow> bool) \<Rightarrow> disk \<Rightarrow> (disk_error, chain_id list \<times> string list) result" where
  "List_metadata validate fs =
     (case (case ReadDir [''sha256''] fs of
              Inl NotExist \<Rightarrow> Inr []
            | Inl e \<Rightarrow> Inl e
            | Inr es \<Rightarrow> Inr (filter validate (map (\<lambda>e. ''sha256:'' @ fst e) (filter (\<lambda>e. snd e \<and> fst e \<noteq> ''mounts'') es)))) of
        Inl e \<Rightarrow> Inl e
      | Inr ids \<Rightarrow>
          (case ReadDir [''mounts''] fs of
             Inl NotExist \<Rightarrow> Inr (ids, [])
           | Inl e \<Rightarrow> Inl e
           | Inr es \<Rightarrow> Inr (ids, map fst (filter snd es))))"

subsection \<open>Reopening the layer store (\<^verbatim>\<open>layer/layer_store.go\<close>)\<close>

definition readLayer :: "(string \<Rightarrow> bool) \<Rightarrow> disk \<Rightarrow> chain_id \<Rightarrow> (disk_error, diff_id \<times> int64 \<times> string \<times> chain_id) result" where
  "readLayer validate fs c =
     (case GetDiffID validate fs c of
        Inl e \<Rightarrow> Inl e
      | Inr diff \<Rightarrow>
          (case GetSize fs c of
             Inl e \<Rightarrow> Inl e
           | Inr n \<Rightarrow>
               (case GetCacheID fs c of
                  Inl e \<Rightarrow> Inl e
                | Inr cid \<Rightarrow> (case fms_GetParent validate fs c of Inl e \<Rightarrow> Inl e | Inr par \<Rightarrow> Inr (diff, n, cid, par)))))"

definition addLayer :: "chain_id \<Rightarrow> diff_id \<Rightarrow> int64 \<Rightarrow> string \<Rightarrow> addr option \<Rightarrow> layerStore \<Rightarrow> layerStore \<times> addr" where
  "addLayer c diff n cid p ls =
     (let a = length (heap ls);
          cl = \<lparr>chainID = c, diffID = diff, parent = p, cacheID = cid, ro_size = n, referenceCount = 0, references = []\<rparr>
      in (ls\<lparr>heap := heap ls @ [cl], layerMap := mput c a (layerMap ls)\<rparr>, a))"

partial_function (option) loadLayer ::
  "(string \<Rightarrow> bool) \<Rightarrow> disk \<Rightarrow> chain_id \<Rightarrow> layerStore \<Rightarrow> (layerStore \<times> (disk_error, addr) result) option" where
  "loadLayer validate fs c ls =
     (case mget (layerMap ls) c of
        Some a \<Rightarrow> Some (ls, Inr a)
      | None \<Rightarrow>
          (case readLayer validate fs c of
             Inl e \<Rightarrow> Some (ls, Inl e)
           | Inr (diff, n, cid, par) \<Rightarrow>
               if par = [] then (case addLayer c diff n cid None ls of (ls1, a) \<Rightarrow> Some (ls1, Inr a))
               else Option.bind (loadLayer validate fs par ls)
                 (\<lambda>(ls1, r). case r of
                    Inl e \<Rightarrow> Some (ls1, Inl e)
                  | Inr p \<Rightarrow> (case addLayer c diff n cid (Some p) ls1 of (ls2, a) \<Rightarrow> Some (ls2, Inr a)))))"

definition incCount :: "addr \<Rightarrow> layerStore \<Rightarrow> layerStore" where
  "incCount p ls = modify p (\<lambda>rl. rl\<lparr>referenceCount := referenceCount rl + 1\<rparr>) ls"

fun loadLayers :: "(string \<Rightarrow> bool) \<Rightarrow> disk \<Rightarrow> chain_id list \<Rightarrow> layerStore \<Rightarrow> layerStore option" where
  "loadLayers validate fs [] ls = Some ls"
| "loadLayers validate fs (c # cs) ls =
     (case loadLayer validate fs c ls of
        None \<Rightarrow> None
      | Some (ls1, Inl e) \<Rightarrow> loadLayers validate fs cs ls1
      | Some (ls1, Inr l) \<Rightarrow>
          loadLayers validate fs cs (case parent (deref ls1 l) of None \<Rightarrow> ls1 | Some p \<Rightarrow> incCount p ls1))"

definition loadMount :: "(string \<Rightarrow> bool) \<Rightarrow> disk \<Rightarrow> string \<Rightarrow> layerStore \<Rightarrow> layerStore option" where
  "loadMount validate fs m ls =
     (if mget (mounts ls) m \<noteq> None then Some ls
      else case (GetMountID fs m, GetInitID fs m, GetMountParent validate fs m) of
        (Inr mid, Inr iid, Inr par) \<Rightarrow>
          (let ml = (\<lambda>p. \<lparr>ml_name = m, mountID = mid, initID = iid, ml_parent = p, ml_references = []\<rparr>) in
           if par = [] then Some (ls\<lparr>mounts := mput m (ml None) (mounts ls)\<rparr>)
           else (case loadLayer validate fs par ls of
                   None \<Rightarrow> None
                 | Some (ls1, Inl e) \<Rightarrow> Some ls1
                 | Some (ls1, Inr p) \<Rightarrow> (let ls2 = incCount p ls1 in Some (ls2\<lparr>mounts := mput m (ml (Some p)) (mounts ls2)\<rparr>))))
      | _ \<Rightarrow> Some ls)"

fun loadMounts :: "(string \<Rightarrow> bool) \<Rightarrow> disk \<Rightarrow> string list \<Rightarrow> layerStore \<Rightarrow> layerStore option" where
  "loadMounts validate fs [] ls = Some ls"
| "loadMounts validate fs (m # ms) ls =
     (case loadMount validate fs m ls of None \<Rightarrow> None | Some ls1 \<Rightarrow> loadMounts validate fs ms ls1)"

text \<open>\<^verbatim>\<open>NewStoreFromGraphDriver\<close>; \<open>None\<close> when a chain of parents never ends.\<close>

definition NewStoreFromGraphDriver :: "(string \<Rightarrow> bool) \<Rightarrow> disk \<Rightarrow> (disk_error, layerStore) result option" where
  "NewStoreFromGraphDriver validate fs =
     (case List_metadata validate fs of
        Inl e \<Rightarrow> Some (Inl e)
      | Inr (ids, ms) \<Rightarrow>
          (case loadLayers validate fs ids emptyStore of
             None \<Rightarrow> None
           | Some ls \<Rightarrow> map_option Inr (loadMounts validate fs ms ls)))"

subsection \<open>What can be loaded\<close>

text \<open>A layer whose files can be read, and those of all its parents, of which there are \<open>k\<close>.\<close>

inductive loads :: "(string \<Rightarrow> bool) \<Rightarrow> disk \<Rightarrow> nat \<Rightarrow> chain_id \<Rightarrow> bool" for validate fs where
  load_base: "readLayer validate fs c = Inr (diff, n, cid, []) \<Longrightarrow> loads validate fs 0 c"
| load_parent: "readLayer validate fs c = Inr (diff, n, cid, par) \<Longrightarrow> par \<noteq> [] \<Longrightarrow> loads validate fs k par \<Longrightarrow>
    loads validate fs (Suc k) c"

definition loadable :: "(string \<Rightarrow> bool) \<Rightarrow> disk \<Rightarrow> chain_id \<Rightarrow> bool" where
  "loadable validate fs c \<longleftrightarrow> (\<exists>k. loads validate fs k c)"

lemma loads_unique: "loads validate fs k c \<Longrightarrow> loads validate fs j c \<Longrightarrow> k = j"
proof (induction arbitrary: j rule: loads.induct)
  case (load_base c diff n cid)
  from load_base(2) show ?case by cases (use load_base(1) in auto)
next
  case (load_parent c diff n cid par k)
  from load_parent(5) obtain i where "j = Suc i" "loads validate fs i par" by cases (use load_parent(1,2) in auto)
  then show ?case using load_parent(4) by simp
qed

definition loaded_as :: "(string \<Rightarrow> bool) \<Rightarrow> disk \<Rightarrow> layerStore \<Rightarrow> addr \<Rightarrow> bool" where
  "loaded_as validate fs ls a \<longleftrightarrow>
     (\<exists>par. readLayer validate fs (chainID (deref ls a)) =
        Inr (diffID (deref ls a), ro_size (deref ls a), cacheID (deref ls a), par)
      \<and> (case parent (deref ls a) of None \<Rightarrow> par = [] | Some p \<Rightarrow> par \<noteq> [] \<and> chainID (deref ls p) = par))"

text \<open>Only the children that the loop has been through are counted.\<close>

definition counted :: "chain_id set \<Rightarrow> layerStore \<Rightarrow> addr \<Rightarrow> nat" where
  "counted S ls a = mcount (\<lambda>e. fst e \<in> S \<and> parent (deref ls (snd e)) = Some a) (layerMap ls)"

definition load_inv :: "(string \<Rightarrow> bool) \<Rightarrow> disk \<Rightarrow> chain_id set \<Rightarrow> layerStore \<Rightarrow> bool" where
  "load_inv validate fs S ls \<longleftrightarrow> shape_ok ls \<and> mounts ls = []
     \<and> (\<forall>a. live ls a \<longrightarrow> loadable validate fs (chainID (deref ls a)) \<and> loaded_as validate fs ls a
          \<and> references (deref ls a) = [] \<and> referenceCount (deref ls a) = int (counted S ls a))
     \<and> (\<forall>c \<in> S. loadable validate fs c \<longrightarrow> mget (layerMap ls) c \<noteq> None)"

lemma load_inv_empty: "load_inv validate fs {} emptyStore"
  by (simp add: load_inv_def shape_ok_def emptyStore_def live_def wf_map_def)

definition grown :: "layerStore \<Rightarrow> layerStore \<Rightarrow> bool" where
  "grown ls ls' \<longleftrightarrow> (\<forall>a. live ls a \<longrightarrow> live ls' a \<and> deref ls' a = deref ls a)"

lemma grown_refl [simp]: "grown ls ls"
  by (simp add: grown_def)

lemma grown_trans: "grown ls1 ls2 \<Longrightarrow> grown ls2 ls3 \<Longrightarrow> grown ls1 ls3"
  by (simp add: grown_def)

lemma addLayer_inv:
  assumes inv: "load_inv validate fs S ls" and fresh: "mget (layerMap ls) c = None" "loadable validate fs c"
    and rd: "readLayer validate fs c = Inr (diff, n, cid, par)"
    and p: "case p of None \<Rightarrow> par = [] | Some q \<Rightarrow> par \<noteq> [] \<and> live ls q \<and> chainID (deref ls q) = par"
    and add: "addLayer c diff n cid p ls = (ls', a)"
  shows "load_inv validate fs S ls' \<and> grown ls ls' \<and> live ls' a \<and> chainID (deref ls' a) = c"
proof -
  let ?cl = "\<lparr>chainID = c, diffID = diff, parent = p, cacheID = cid, ro_size = n, referenceCount = 0, references = []\<rparr>"
  have sh: "shape_ok ls" and notS: "c \<notin> S" using inv fresh by (auto simp: load_inv_def)
  have hp: "live ls q" if "parent ?cl = Some q" for q using that p by simp
  have a: "a = length (heap ls)" and ls': "ls' = ls\<lparr>heap := heap ls @ [?cl], layerMap := mput (chainID ?cl) a (layerMap ls)\<rparr>"
    using add by (auto simp: addLayer_def Let_def)
  have fr: "mget (layerMap ls) (chainID ?cl) = None" using fresh(1) by simp
  note mapped = map_shape [OF sh fr, folded a, folded ls']
  have shape: "shape_ok ls'" by (rule mapped(1)) (rule hp)
  have l: "live ls' b \<longleftrightarrow> live ls b \<or> b = a" for b by (rule mapped(2)) (rule hp)
  have bound: "live ls b \<Longrightarrow> b < a" for b by (simp add: live_def a)
  have d: "deref ls' b = deref ls b" if "live ls b" for b by (rule mapped(3)) (use hp bound [OF that] in auto)
  have da: "deref ls' a = ?cl" by (rule mapped(4)) (rule hp)
  have lm: "layerMap ls' = layerMap ls @ [(c, a)]" using mput_fresh [OF fresh(1)] ls' by simp
  have ent: "live ls (snd e)" if "e \<in> set (layerMap ls)" for e using sh that by (simp add: shape_ok_def)
  have cnt: "counted S ls' b = counted S ls b" for b
  proof -
    have "mcount (\<lambda>e. fst e \<in> S \<and> parent (deref ls' (snd e)) = Some b) (layerMap ls) = counted S ls b"
      unfolding counted_def by (rule mcount_cong) (use d ent in auto)
    then show ?thesis unfolding counted_def [of S ls'] lm using notS by simp
  qed
  have "\<not> live ls a" using bound by blast
  then have "counted S ls a = 0" unfolding counted_def mcount_zero_iff using ent parent_live [OF sh] by blast
  have as: "loaded_as validate fs ls' b" if "live ls' b" for b
  proof (cases "b = a")
    case True
    then show ?thesis using rd p d by (auto simp: loaded_as_def da split: option.splits)
  next
    case False
    then have b: "live ls b" using that l by simp
    then have "loaded_as validate fs ls b" using inv by (simp add: load_inv_def)
    then show ?thesis using d [OF b] d parent_live [OF sh b] by (auto simp: loaded_as_def split: option.splits)
  qed
  have "loadable validate fs (chainID (deref ls' b)) \<and> loaded_as validate fs ls' b
      \<and> references (deref ls' b) = [] \<and> referenceCount (deref ls' b) = int (counted S ls' b)" if "live ls' b" for b
  proof (cases "b = a")
    case True
    then show ?thesis using as [OF that] fresh(2) \<open>counted S ls a = 0\<close> by (simp add: da cnt)
  next
    case False
    then have b: "live ls b" using that l by simp
    then show ?thesis using as [OF that] d [OF b] inv by (simp add: load_inv_def cnt)
  qed
  moreover have "\<forall>x \<in> S. loadable validate fs x \<longrightarrow> mget (layerMap ls') x \<noteq> None"
    using inv by (auto simp: load_inv_def lm map_add_def split: option.splits)
  moreover have "mounts ls' = []" using inv ls' by (simp add: load_inv_def)
  ultimately have "load_inv validate fs S ls'" using shape by (simp add: load_inv_def)
  then show ?thesis using l d da by (auto simp: grown_def)
qed

text \<open>A set of layers that has the parents of its layers, as far as they can be loaded.\<close>

definition closed :: "(string \<Rightarrow> bool) \<Rightarrow> disk \<Rightarrow> chain_id set \<Rightarrow> bool" where
  "closed validate fs L \<longleftrightarrow>
     (\<forall>c diff n cid par. c \<in> L \<and> readLayer validate fs c = Inr (diff, n, cid, par) \<and> par \<noteq> [] \<and> loadable validate fs par \<longrightarrow> par \<in> L)"

text \<open>Loading a layer that can be loaded brings in its chain; otherwise nothing changes.\<close>

definition chain_only :: "(string \<Rightarrow> bool) \<Rightarrow> disk \<Rightarrow> chain_id set \<Rightarrow> nat \<Rightarrow> layerStore \<Rightarrow> layerStore \<Rightarrow> bool" where
  "chain_only validate fs L k ls ls' \<longleftrightarrow>
     (\<forall>c a. mget (layerMap ls') c = Some a \<longrightarrow>
        mget (layerMap ls) c = Some a \<or> (c \<in> L \<and> (\<exists>j \<le> k. loads validate fs j c)))"

lemma addLayer_chain:
  assumes "loads validate fs k c" "c \<in> L" "chain_only validate fs L j ls ls1" "j \<le> k" "addLayer c diff n cid p ls1 = (ls', a)"
  shows "chain_only validate fs L k ls ls'"
proof -
  have m: "layerMap ls' = mput c a (layerMap ls1)" using assms(5) by (auto simp: addLayer_def Let_def)
  show ?thesis
    unfolding chain_only_def
  proof (intro allI impI)
    fix x b assume "mget (layerMap ls') x = Some b"
    then have "x = c \<or> mget (layerMap ls1) x = Some b" by (auto simp: m split: if_splits)
    then show "mget (layerMap ls) x = Some b \<or> (x \<in> L \<and> (\<exists>j \<le> k. loads validate fs j x))"
      using assms(1-4) unfolding chain_only_def by (meson le_refl le_trans)
  qed
qed

lemma loadLayer_mapped:
  assumes "load_inv validate fs S ls" "mget (layerMap ls) c = Some a"
  shows "\<exists>ls' a. loadLayer validate fs c ls = Some (ls', Inr a) \<and> load_inv validate fs S ls' \<and> grown ls ls'
    \<and> live ls' a \<and> chainID (deref ls' a) = c \<and> chain_only validate fs L k ls ls'"
  using assms lookup_live [of ls c a] by (subst loadLayer.simps) (simp add: load_inv_def chain_only_def)

lemma loadLayer_ok:
  assumes "loads validate fs k c" "closed validate fs L" "c \<in> L" "load_inv validate fs S ls"
  shows "\<exists>ls' a. loadLayer validate fs c ls = Some (ls', Inr a) \<and> load_inv validate fs S ls' \<and> grown ls ls'
    \<and> live ls' a \<and> chainID (deref ls' a) = c \<and> chain_only validate fs L k ls ls'"
  using assms(1,3,4)
proof (induction arbitrary: ls rule: loads.induct)
  case (load_base c diff n cid)
  show ?case
  proof (cases "mget (layerMap ls) c")
    case None
    obtain ls' a where add: "addLayer c diff n cid None ls = (ls', a)" by (cases "addLayer c diff n cid None ls")
    have c: "loads validate fs 0 c" by (rule loads.load_base [OF load_base(1)])
    then have "loadable validate fs c" by (auto simp: loadable_def)
    note ok = addLayer_inv [OF load_base(3) None this load_base(1) _ add]
    have "chain_only validate fs L 0 ls ls'" by (rule addLayer_chain [OF c load_base(2) _ _ add]) (simp_all add: chain_only_def)
    then show ?thesis using load_base(1) None add ok by (subst loadLayer.simps) simp
  qed (rule loadLayer_mapped [OF load_base(3)])
next
  case (load_parent c diff n cid par k)
  show ?case
  proof (cases "mget (layerMap ls) c")
    case None
    have c: "loads validate fs (Suc k) c" by (rule loads.load_parent [OF load_parent(1-3)])
    then have cl: "loadable validate fs c" by (auto simp: loadable_def)
    have "par \<in> L" using assms(2) load_parent(1,2,3,5) unfolding closed_def loadable_def by blast
    from load_parent(4) [OF this load_parent(6)]
    obtain ls1 p where p: "loadLayer validate fs par ls = Some (ls1, Inr p)" "load_inv validate fs S ls1" "grown ls ls1"
        "live ls1 p" "chainID (deref ls1 p) = par" "chain_only validate fs L k ls ls1" by blast
    have fresh: "mget (layerMap ls1) c = None"
    proof (rule ccontr)
      assume "mget (layerMap ls1) c \<noteq> None"
      then obtain j where j: "j \<le> k" "loads validate fs j c" using p(6) None unfolding chain_only_def by fastforce
      have "Suc k = j" by (rule loads_unique [OF c j(2)])
      then show False using j(1) by simp
    qed
    obtain ls' a where add: "addLayer c diff n cid (Some p) ls1 = (ls', a)" by (cases "addLayer c diff n cid (Some p) ls1")
    have "load_inv validate fs S ls' \<and> grown ls1 ls' \<and> live ls' a \<and> chainID (deref ls' a) = c"
      by (rule addLayer_inv [OF p(2) fresh cl load_parent(1) _ add]) (use p load_parent(2) in simp)
    moreover have "chain_only validate fs L (Suc k) ls ls'" by (rule addLayer_chain [OF c load_parent(5) p(6) _ add]) simp
    moreover have "loadLayer validate fs c ls = Some (ls', Inr a)"
      using load_parent(1,2) None p(1) add by (subst loadLayer.simps) simp
    ultimately show ?thesis using grown_trans [OF p(3)] by blast
  qed (rule loadLayer_mapped [OF load_parent(6)])
qed

text \<open>Chains of parents that end: then loading returns.\<close>

definition well_founded :: "(string \<Rightarrow> bool) \<Rightarrow> disk \<Rightarrow> (chain_id \<Rightarrow> nat) \<Rightarrow> bool" where
  "well_founded validate fs rank \<longleftrightarrow>
     (\<forall>c diff n cid par. readLayer validate fs c = Inr (diff, n, cid, par) \<and> par \<noteq> [] \<longrightarrow> rank par < rank c)"

lemma loadLayer_fails:
  assumes "well_founded validate fs rank" "shape_ok ls" "\<forall>a. live ls a \<longrightarrow> loadable validate fs (chainID (deref ls a))"
    "\<not> loadable validate fs c"
  shows "mget (layerMap ls) c = None \<and> (\<exists>e. loadLayer validate fs c ls = Some (ls, Inl e))"
  using assms(4)
proof (induction "rank c" arbitrary: c rule: less_induct)
  case less
  have fresh: "mget (layerMap ls) c = None"
  proof (rule ccontr)
    assume "mget (layerMap ls) c \<noteq> None"
    then obtain a where "live ls a \<and> chainID (deref ls a) = c" using lookup_live [OF assms(2)] by fastforce
    then show False using less.prems assms(3) by auto
  qed
  show ?case
  proof (cases "readLayer validate fs c")
    case (Inl e)
    then show ?thesis using fresh by (subst loadLayer.simps) simp
  next
    case (Inr r)
    obtain diff n cid par where r: "readLayer validate fs c = Inr (diff, n, cid, par)" using Inr by (cases r) auto
    have par: "par \<noteq> []" using r less.prems loads.load_base unfolding loadable_def by metis
    have "\<not> loadable validate fs par" using r par less.prems loads.load_parent unfolding loadable_def by metis
    moreover have "rank par < rank c" using assms(1) r par by (simp add: well_founded_def)
    ultimately obtain e where "loadLayer validate fs par ls = Some (ls, Inl e)" using less.hyps by blast
    then show ?thesis using fresh r par by (subst loadLayer.simps) simp
  qed
qed

subsection \<open>Counting\<close>

lemma counted_insert:
  assumes "wf_map (layerMap ls)" "c \<notin> S" "mget (layerMap ls) c = Some l"
  shows "counted (insert c S) ls a = counted S ls a + (if parent (deref ls l) = Some a then 1 else 0)"
proof -
  have e: "fst e \<noteq> c" if "e \<in> set (mdel c (layerMap ls))" for e using that assms(1) by (simp add: set_mdel)
  show ?thesis unfolding counted_def
    unfolding mcount_mdel [OF assms(1,3), of "\<lambda>e. fst e \<in> insert c S \<and> parent (deref ls (snd e)) = Some a"]
      mcount_mdel [OF assms(1,3), of "\<lambda>e. fst e \<in> S \<and> parent (deref ls (snd e)) = Some a"]
    using assms(2) mcount_cong [of "mdel c (layerMap ls)" "\<lambda>e. fst e \<in> insert c S \<and> parent (deref ls (snd e)) = Some a"
      "\<lambda>e. fst e \<in> S \<and> parent (deref ls (snd e)) = Some a"] e by auto
qed

lemma counted_absent:
  assumes "mget (layerMap ls) c = None"
  shows "counted (insert c S) ls a = counted S ls a"
  unfolding counted_def by (rule mcount_cong) (use assms in \<open>auto simp: map_of_eq_None_iff image_iff\<close>)

lemma incCount_simps:
  assumes "p < length (heap ls)"
  shows "deref (incCount p ls) a = (if a = p then deref ls p\<lparr>referenceCount := referenceCount (deref ls p) + 1\<rparr> else deref ls a)"
    "layerMap (incCount p ls) = layerMap ls" "mounts (incCount p ls) = mounts ls" "live (incCount p ls) a = live ls a"
    "parent (deref (incCount p ls) a) = parent (deref ls a)" "nextRef (incCount p ls) = nextRef ls"
  using assms by (auto simp: incCount_def live_def)

lemma count_parent:
  assumes inv: "load_inv validate fs S ls" and l: "live ls l" "chainID (deref ls l) = c" "c \<notin> S"
  shows "load_inv validate fs (insert c S) (case parent (deref ls l) of None \<Rightarrow> ls | Some p \<Rightarrow> incCount p ls)"
proof -
  have sh: "shape_ok ls" using inv by (simp add: load_inv_def)
  then have wf: "wf_map (layerMap ls)" by (simp add: shape_ok_def)
  have m: "mget (layerMap ls) c = Some l" using l(1,2) by (simp add: live_def)
  note cnt = counted_insert [OF wf l(3) m]
  show ?thesis
  proof (cases "parent (deref ls l)")
    case None
    then show ?thesis using inv m by (auto simp: load_inv_def cnt)
  next
    case (Some p)
    then have p: "live ls p" "p < length (heap ls)" using parent_live [OF sh l(1)] by (auto simp: live_def)
    note s = incCount_simps [OF p(2)]
    have ch: "chainID (deref (incCount p ls) a) = chainID (deref ls a)" for a by (simp add: s(1))
    have "shape_ok (incCount p ls)" unfolding shape_ok_def s(2-5) ch by (rule sh [unfolded shape_ok_def])
    moreover have "counted S' (incCount p ls) a = counted S' ls a" for S' a by (simp only: counted_def s(2,5))
    moreover have "loaded_as validate fs (incCount p ls) a \<longleftrightarrow> loaded_as validate fs ls a" for a
      by (auto simp: loaded_as_def s(1) split: option.splits)
    ultimately have "load_inv validate fs (insert c S) (incCount p ls)"
      using inv m Some unfolding load_inv_def s(2,3,4) cnt by (auto simp: s(1) cnt)
    then show ?thesis by (simp add: Some)
  qed
qed

lemma loadLayers_ok:
  assumes "well_founded validate fs rank" "closed validate fs L" "set cs \<subseteq> L" "distinct cs" "S \<inter> set cs = {}"
    "load_inv validate fs S ls" "fst ` set (layerMap ls) \<subseteq> L"
  shows "\<exists>ls'. loadLayers validate fs cs ls = Some ls' \<and> load_inv validate fs (S \<union> set cs) ls' \<and> fst ` set (layerMap ls') \<subseteq> L"
  using assms(3-7)
proof (induction cs arbitrary: S ls)
  case (Cons c cs)
  have c: "c \<notin> S" "c \<in> L" "c \<notin> set cs" using Cons.prems by auto
  have S': "insert c S \<inter> set cs = {}" "set cs \<subseteq> L" "distinct cs" using Cons.prems by auto
  show ?case
  proof (cases "loadable validate fs c")
    case False
    obtain e where e: "loadLayer validate fs c ls = Some (ls, Inl e)" "mget (layerMap ls) c = None"
      using loadLayer_fails [OF assms(1) _ _ False, of ls] Cons.prems(4) unfolding load_inv_def by blast
    then have "load_inv validate fs (insert c S) ls" using Cons.prems(4) False by (auto simp: load_inv_def counted_absent)
    from Cons.IH [OF S'(2,3,1) this Cons.prems(5)] show ?thesis using e(1) by simp
  next
    case True
    then obtain k where k: "loads validate fs k c" by (auto simp: loadable_def)
    obtain ls1 l where l: "loadLayer validate fs c ls = Some (ls1, Inr l)" "load_inv validate fs S ls1" "live ls1 l"
        "chainID (deref ls1 l) = c" "chain_only validate fs L k ls ls1"
      using loadLayer_ok [OF k assms(2) c(2) Cons.prems(4)] by blast
    let ?ls2 = "case parent (deref ls1 l) of None \<Rightarrow> ls1 | Some p \<Rightarrow> incCount p ls1"
    have "layerMap ?ls2 = layerMap ls1" by (simp add: incCount_def split: option.splits)
    moreover have "fst ` set (layerMap ls1) \<subseteq> L"
    proof
      fix x assume "x \<in> fst ` set (layerMap ls1)"
      then obtain a where "mget (layerMap ls1) x = Some a" by (metis map_of_eq_None_iff not_None_eq)
      then have "mget (layerMap ls) x = Some a \<or> x \<in> L" using l(5) unfolding chain_only_def by blast
      then show "x \<in> L" using Cons.prems(5) by (force dest: map_of_SomeD)
    qed
    ultimately have L: "fst ` set (layerMap ?ls2) \<subseteq> L" by simp
    from Cons.IH [OF S'(2,3,1) count_parent [OF l(2-4) c(1)] L] show ?thesis using l(1) by simp
  qed
qed simp

subsection \<open>Mounts\<close>

text \<open>What a reopened store has: exact counts, and the layers that are listed and can be loaded.\<close>

definition reopened :: "(string \<Rightarrow> bool) \<Rightarrow> disk \<Rightarrow> chain_id set \<Rightarrow> layerStore \<Rightarrow> bool" where
  "reopened validate fs L ls \<longleftrightarrow> layer_inv (\<lambda>_. 0) ls
     \<and> (\<forall>a. live ls a \<longrightarrow> loadable validate fs (chainID (deref ls a)) \<and> loaded_as validate fs ls a \<and> references (deref ls a) = [])
     \<and> (\<forall>c. mget (layerMap ls) c \<noteq> None \<longleftrightarrow> c \<in> L \<and> loadable validate fs c)"

lemma loaded_reopened:
  assumes "load_inv validate fs L ls" "fst ` set (layerMap ls) \<subseteq> L"
  shows "reopened validate fs L ls"
proof -
  have sh: "shape_ok ls" using assms(1) by (simp add: load_inv_def)
  have "counted L ls a = nchildren ls a" for a
    unfolding counted_def nchildren_def by (rule mcount_cong) (use assms(2) in auto)
  moreover have "nmounts ls a = 0" for a using assms(1) by (simp add: nmounts_def load_inv_def)
  ultimately have "layer_inv (\<lambda>_. 0) ls"
    using assms(1) by (auto simp: layer_inv_def counts_ok_def load_inv_def)
  moreover have "mget (layerMap ls) c \<noteq> None \<longleftrightarrow> c \<in> L \<and> loadable validate fs c" for c
  proof
    assume c: "mget (layerMap ls) c \<noteq> None"
    then have "c \<in> L" using assms(2) by (metis map_of_eq_None_iff subsetD)
    moreover obtain a where "live ls a \<and> chainID (deref ls a) = c" using lookup_live [OF sh] c by fastforce
    ultimately show "c \<in> L \<and> loadable validate fs c" using assms(1) by (auto simp: load_inv_def)
  qed (use assms(1) in \<open>auto simp: load_inv_def\<close>)
  ultimately show ?thesis using assms(1) unfolding reopened_def load_inv_def by blast
qed

definition readMount :: "(string \<Rightarrow> bool) \<Rightarrow> disk \<Rightarrow> string \<Rightarrow> (string \<times> string \<times> chain_id) option" where
  "readMount validate fs m =
     (case (GetMountID fs m, GetInitID fs m, GetMountParent validate fs m) of
        (Inr mid, Inr iid, Inr par) \<Rightarrow> Some (mid, iid, par) | _ \<Rightarrow> None)"

definition mounted_as :: "layerStore \<Rightarrow> string \<times> string \<times> chain_id \<Rightarrow> mountedLayer \<Rightarrow> bool" where
  "mounted_as ls r ml \<longleftrightarrow> (case r of (mid, iid, par) \<Rightarrow> mountID ml = mid \<and> initID ml = iid \<and> ml_references ml = []
     \<and> (case ml_parent ml of None \<Rightarrow> par = [] | Some p \<Rightarrow> par \<noteq> [] \<and> live ls p \<and> chainID (deref ls p) = par))"

definition mountable :: "(string \<Rightarrow> bool) \<Rightarrow> disk \<Rightarrow> string \<Rightarrow> bool" where
  "mountable validate fs m \<longleftrightarrow>
     (\<exists>mid iid par. readMount validate fs m = Some (mid, iid, par) \<and> (par = [] \<or> loadable validate fs par))"

definition mounts_ok :: "(string \<Rightarrow> bool) \<Rightarrow> disk \<Rightarrow> string set \<Rightarrow> layerStore \<Rightarrow> bool" where
  "mounts_ok validate fs M ls \<longleftrightarrow>
     (\<forall>m. case mget (mounts ls) m of
        None \<Rightarrow> m \<in> M \<longrightarrow> \<not> mountable validate fs m
      | Some ml \<Rightarrow> m \<in> M \<and> mountable validate fs m \<and> mounted_as ls (the (readMount validate fs m)) ml)"

lemma mounted_as_incCount:
  "p < length (heap ls) \<Longrightarrow> mounted_as (incCount p ls) r ml = mounted_as ls r ml"
  using incCount_simps [of p ls] by (auto simp: mounted_as_def split: option.splits prod.splits)

lemma reopened_mount:
  assumes "reopened validate fs L ls" "live ls p" "mget (mounts ls) (ml_name ml) = None" "ml_parent ml = Some p"
  shows "reopened validate fs L ((incCount p ls)\<lparr>mounts := mput (ml_name ml) ml (mounts (incCount p ls))\<rparr>)"
proof -
  let ?ls = "(incCount p ls)\<lparr>mounts := mput (ml_name ml) ml (mounts (incCount p ls))\<rparr>"
  have "p < length (heap ls)" using assms(2) by (simp add: live_def)
  note s = incCount_simps [OF this]
  have "layer_inv (hold (\<lambda>_. 0) (ml_parent ml)) (incCount p ls)"
    unfolding incCount_def assms(4) by (rule retain_inv) (use assms in \<open>auto simp: reopened_def\<close>)
  then have "layer_inv (\<lambda>_. 0) ?ls" by (rule add_mount_inv) (simp add: s assms(3))
  moreover have d: "deref ?ls a = deref (incCount p ls) a" "live ?ls a = live ls a" for a
    using s(4) [of a] by (simp_all add: deref_def live_def)
  moreover have "loaded_as validate fs ?ls a \<longleftrightarrow> loaded_as validate fs ls a" for a
    by (auto simp: loaded_as_def d s(1) split: option.splits)
  ultimately show ?thesis using assms(1) by (auto simp: reopened_def s(1,2))
qed

lemma loadMount_ok:
  assumes "well_founded validate fs rank" "reopened validate fs L ls" "mounts_ok validate fs M ls" "m \<notin> M"
    and par: "\<And>mid iid par. readMount validate fs m = Some (mid, iid, par) \<Longrightarrow> loadable validate fs par \<Longrightarrow> par \<noteq> [] \<Longrightarrow> par \<in> L"
  shows "\<exists>ls'. loadMount validate fs m ls = Some ls' \<and> reopened validate fs L ls' \<and> mounts_ok validate fs (insert m M) ls'"
proof -
  have none: "mget (mounts ls) m = None"
    using assms(3,4) unfolding mounts_ok_def by (metis (no_types, lifting) not_None_eq option.case(2))
  have sh: "shape_ok ls" and inv: "layer_inv (\<lambda>_. 0) ls" using assms(2) by (auto simp: reopened_def layer_inv_def)
  have same: "mounts_ok validate fs (insert m M) ls" if "\<not> mountable validate fs m"
    using assms(3) that none unfolding mounts_ok_def by (auto split: option.splits)
  show ?thesis
  proof (cases "readMount validate fs m")
    case None
    then have "loadMount validate fs m ls = Some ls" using none
      by (auto simp: loadMount_def readMount_def split: sum.splits)
    moreover have "\<not> mountable validate fs m" using None by (simp add: mountable_def)
    ultimately show ?thesis using assms(2) same by blast
  next
    case (Some r)
    obtain mid iid pr where r: "readMount validate fs m = Some (mid, iid, pr)" using Some by (cases r) auto
    let ?ml = "\<lambda>p. \<lparr>ml_name = m, mountID = mid, initID = iid, ml_parent = p, ml_references = []\<rparr>"
    have run: "loadMount validate fs m ls =
        (if pr = [] then Some (ls\<lparr>mounts := mput m (?ml None) (mounts ls)\<rparr>)
         else (case loadLayer validate fs pr ls of
                 None \<Rightarrow> None
               | Some (ls1, Inl e) \<Rightarrow> Some ls1
               | Some (ls1, Inr p) \<Rightarrow> Some ((incCount p ls1)\<lparr>mounts := mput m (?ml (Some p)) (mounts (incCount p ls1))\<rparr>)))"
      unfolding loadMount_def Let_def using none r by (auto simp: readMount_def split: sum.splits)
    consider "pr = []" | "pr \<noteq> []" "\<not> loadable validate fs pr" | "pr \<noteq> []" "loadable validate fs pr" by blast
    then show ?thesis
    proof cases
      case 1
      let ?ls = "ls\<lparr>mounts := mput m (?ml None) (mounts ls)\<rparr>"
      have d: "deref ?ls a = deref ls a" "live ?ls a = live ls a" for a by (simp_all add: deref_def live_def)
      have "layer_inv (\<lambda>_. 0) ?ls" using add_mount_inv [of "\<lambda>_. 0" "?ml None" ls] inv none by simp
      moreover have "loaded_as validate fs ?ls = loaded_as validate fs ls" by (intro ext) (simp only: loaded_as_def d)
      ultimately have "reopened validate fs L ?ls" using assms(2) by (auto simp: reopened_def d)
      moreover have "mounted_as ?ls x ml = mounted_as ls x ml" for x ml by (simp only: mounted_as_def d)
      then have "mounts_ok validate fs (insert m M) ?ls" using assms(3) r 1
        by (auto simp: mounts_ok_def mountable_def mounted_as_def split: option.splits)
      ultimately show ?thesis using run 1 by simp
    next
      case 2
      then obtain e where "loadLayer validate fs pr ls = Some (ls, Inl e)"
        using loadLayer_fails [OF assms(1) sh] assms(2) unfolding reopened_def by blast
      moreover have "\<not> mountable validate fs m" using r 2 by (simp add: mountable_def)
      ultimately show ?thesis using run 2 assms(2) same by simp
    next
      case 3
      then have "mget (layerMap ls) pr \<noteq> None" using par [OF r 3(2,1)] assms(2) by (simp add: reopened_def)
      then obtain p where p: "mget (layerMap ls) pr = Some p" by blast
      then have l: "live ls p" "chainID (deref ls p) = pr" using lookup_live [OF sh] by auto
      then have pl: "p < length (heap ls)" by (simp add: live_def)
      let ?ls = "(incCount p ls)\<lparr>mounts := mput m (?ml (Some p)) (mounts (incCount p ls))\<rparr>"
      have "loadLayer validate fs pr ls = Some (ls, Inr p)" using p by (subst loadLayer.simps) simp
      then have ls': "loadMount validate fs m ls = Some ?ls" using run 3 by simp
      have "reopened validate fs L ?ls" using reopened_mount [OF assms(2) l(1), of "?ml (Some p)"] none by simp
      moreover have d: "deref ?ls a = deref (incCount p ls) a" "live ?ls a = live (incCount p ls) a" for a
        by (simp_all add: deref_def live_def)
      have m: "mounted_as ?ls x ml = mounted_as ls x ml" for x ml
        using mounted_as_incCount [OF pl, of x ml] by (simp only: mounted_as_def d)
      have new: "mounted_as ls (mid, iid, pr) (?ml (Some p))" using l 3(1) by (simp add: mounted_as_def)
      have "mounts_ok validate fs (insert m M) ?ls"
        unfolding mounts_ok_def m using assms(3) r 3 new incCount_simps(3) [OF pl]
        by (auto simp: mounts_ok_def mountable_def split: option.splits)
      ultimately show ?thesis using ls' by blast
    qed
  qed
qed

lemma loadMounts_ok:
  assumes "well_founded validate fs rank" "reopened validate fs L ls" "mounts_ok validate fs M ls" "M \<inter> set ms = {}" "distinct ms"
    and "\<And>m mid iid par. m \<in> set ms \<Longrightarrow> readMount validate fs m = Some (mid, iid, par) \<Longrightarrow> loadable validate fs par \<Longrightarrow> par \<noteq> [] \<Longrightarrow> par \<in> L"
  shows "\<exists>ls'. loadMounts validate fs ms ls = Some ls' \<and> reopened validate fs L ls' \<and> mounts_ok validate fs (M \<union> set ms) ls'"
  using assms(2-6)
proof (induction ms arbitrary: ls M)
  case (Cons m ms)
  have "m \<notin> M" using Cons.prems(3) by simp
  obtain ls1 where l: "loadMount validate fs m ls = Some ls1" "reopened validate fs L ls1" "mounts_ok validate fs (insert m M) ls1"
    using loadMount_ok [OF assms(1) Cons.prems(1,2) \<open>m \<notin> M\<close>] Cons.prems(5) by (metis list.set_intros(1))
  have "insert m M \<inter> set ms = {}" "distinct ms" using Cons.prems(3,4) by auto
  from Cons.IH [OF l(2,3) this] Cons.prems(5) show ?case using l(1) by (metis (no_types, lifting) Un_insert_left Un_insert_right list.set(2) list.set_intros(2) loadMounts.simps(2) option.case(2))
qed simp

end
