(* ===== verification/Symlink_Scope.thy ===== *)
theory Symlink_Scope
  imports Go_Path
begin

section \<open>Symbolic links inside a root (\<^verbatim>\<open>pkg/symlink/fs.go\<close>)\<close>

text \<open>
  A path of a container is looked up on the host as though the root of the container were the root of
  the file system: links are followed by hand, component by component, and a link never leads out of
  the root.  The file system of the host is a function from absolute paths to what \<^verbatim>\<open>Lstat\<close> and
  \<^verbatim>\<open>Readlink\<close> find there.  The loop counts its rounds and gives up after 256, which is its termination
  measure.
\<close>

datatype entry =
    Absent
  | Unreadable string
  | Present
  | Link "string + string"

type_synonym host_files = "string \<Rightarrow> entry"

datatype scope_error =
    NoWorkingDirectory string
  | NotInScope string string
  | TooManyLinks string
  | LstatFailed string
  | ReadlinkFailed string

definition maxIter :: nat where
  "maxIter = 255"

text \<open>\<^verbatim>\<open>filepath.Abs\<close>, with the working directory as an argument.\<close>

definition Abs :: "string + string \<Rightarrow> string \<Rightarrow> (scope_error, string) result" where
  "Abs cwd p =
     (if IsAbs p then Inr (Clean p)
      else case cwd of Inl e \<Rightarrow> Inl (NoWorkingDirectory e) | Inr wd \<Rightarrow> Inr (JoinPath [wd, p]))"

text \<open>The loop: \<open>path\<close> is what is left, \<open>b\<close> the path inside the root so far.\<close>

function evalLoop :: "host_files \<Rightarrow> string \<Rightarrow> string \<Rightarrow> nat \<Rightarrow> string \<Rightarrow> string \<Rightarrow> (scope_error, string) result" where
  "evalLoop fs root originalPath n path b =
     (if path = [] then Inr (Clean (root @ Clean (CHR ''/'' # b)))
      else if n > maxIter then Inl (TooManyLinks originalPath)
      else
        let p = before CHR ''/'' path; rest = after CHR ''/'' path in
        if p = [] then evalLoop fs root originalPath (n + 1) rest b
        else
          let cleanP = Clean (CHR ''/'' # b @ p) in
          if cleanP = ''/'' then evalLoop fs root originalPath (n + 1) rest []
          else case fs (Clean (root @ cleanP)) of
            Absent \<Rightarrow> evalLoop fs root originalPath (n + 1) rest (b @ p @ ''/'')
          | Unreadable e \<Rightarrow> Inl (LstatFailed e)
          | Present \<Rightarrow> evalLoop fs root originalPath (n + 1) rest (b @ p @ ''/'')
          | Link (Inl e) \<Rightarrow> Inl (ReadlinkFailed e)
          | Link (Inr dest) \<Rightarrow>
              evalLoop fs root originalPath (n + 1) (dest @ CHR ''/'' # rest) (if IsAbs dest then [] else b))"
  by pat_completeness auto
termination by (relation "measure (\<lambda>(_, _, _, n, _, _). Suc maxIter - n)") auto

declare evalLoop.simps [simp del]

definition evalSymlinksInScope :: "host_files \<Rightarrow> string \<Rightarrow> string \<Rightarrow> (scope_error, string) result" where
  "evalSymlinksInScope fs path root0 =
     (let root = Clean root0 in
      if path = root then Inr path
      else if \<not> has_prefix path root then Inl (NotInScope path root)
      else
        let p1 = drop (length root) path; p2 = (if root = ''/'' then CHR ''/'' # p1 else p1) in
        if \<not> has_prefix p2 ''/'' then Inl (NotInScope p2 root)
        else evalLoop fs root path 0 (Clean p2) [])"

definition FollowSymlinkInScope :: "host_files \<Rightarrow> string + string \<Rightarrow> string \<Rightarrow> string \<Rightarrow> (scope_error, string) result" where
  "FollowSymlinkInScope fs cwd path root =
     (case Abs cwd path of
        Inl e \<Rightarrow> Inl e
      | Inr p \<Rightarrow> (case Abs cwd root of Inl e \<Rightarrow> Inl e | Inr r \<Rightarrow> evalSymlinksInScope fs p r))"

text \<open>\<^verbatim>\<open>container/container.go\<close>: a path as a process of the container names it.\<close>

definition GetResourcePath :: "host_files \<Rightarrow> string + string \<Rightarrow> string \<Rightarrow> string \<Rightarrow> (scope_error, string) result" where
  "GetResourcePath fs cwd baseFS path =
     FollowSymlinkInScope fs cwd (JoinPath [baseFS, JoinPath [''/'', path]]) baseFS"

definition GetRootResourcePath :: "host_files \<Rightarrow> string + string \<Rightarrow> string \<Rightarrow> string \<Rightarrow> (scope_error, string) result" where
  "GetRootResourcePath fs cwd root path =
     FollowSymlinkInScope fs cwd (JoinPath [root, JoinPath [''/'', path]]) root"

subsection \<open>The buffer of the loop\<close>

text \<open>The buffer of the loop is empty or ends in a slash.\<close>

definition buffer_ok :: "string \<Rightarrow> bool" where
  "buffer_ok b \<longleftrightarrow> b = [] \<or> (\<exists>a. b = a @ ''/'')"

lemma parts_buffer:
  assumes "buffer_ok b" "CHR ''/'' \<notin> set p"
  shows "pathParts (b @ p) = cleanParts (pathParts b) [p]"
proof (cases "b = []")
  case True
  then show ?thesis using assms(2) by (simp add: pathParts_def split_no_sep)
next
  case False
  then obtain a where a: "b = a @ ''/''" using assms(1) by (auto simp: buffer_ok_def)
  have "pathParts b = pathParts a" using parts_sep [of a "[]"] a by simp
  then show ?thesis using parts_sep [of a p] a assms(2) by (simp add: split_no_sep)
qed

lemma parts_next:
  assumes "buffer_ok b" "CHR ''/'' \<notin> set p"
  shows "pathParts (b @ p @ ''/'') = cleanParts (pathParts b) [p]"
  using parts_sep [of "b @ p" "[]"] parts_buffer [OF assms] by simp

lemma buffer_simps [simp]: "buffer_ok []" "buffer_ok (b @ p @ ''/'')"
  unfolding buffer_ok_def by (simp, metis append_assoc)

subsection \<open>The invariant of the loop\<close>

definition is_link :: "entry \<Rightarrow> bool" where
  "is_link x \<longleftrightarrow> (\<exists>d. x = Link d)"

text \<open>No component below the root is a link.\<close>

definition resolved :: "host_files \<Rightarrow> string list \<Rightarrow> string list \<Rightarrow> bool" where
  "resolved fs rps ps \<longleftrightarrow> (\<forall>n. 0 < n \<and> n \<le> length ps \<longrightarrow> \<not> is_link (fs (rooted (rps @ take n ps))))"

lemma resolved_Nil [simp]: "resolved fs rps []"
  by (simp add: resolved_def)

lemma resolved_butlast: "resolved fs rps ps \<Longrightarrow> resolved fs rps (butlast ps)"
  by (auto simp: resolved_def take_butlast)

lemma resolved_snoc:
  "resolved fs rps ps \<Longrightarrow> \<not> is_link (fs (rooted (rps @ ps @ [p]))) \<Longrightarrow> resolved fs rps (ps @ [p])"
  unfolding resolved_def by (auto simp: le_Suc_eq)

lemma resolved_step:
  assumes "resolved fs rps ps" "\<not> is_link (fs (rooted (rps @ cleanParts ps [p])))"
  shows "resolved fs rps (cleanParts ps [p])"
  using assms resolved_butlast [OF assms(1)] resolved_snoc [OF assms(1)] by (auto split: if_splits)


lemma evalLoop_scope:
  assumes "list_all plain rps" "buffer_ok b" "resolved fs rps (pathParts b)"
    and "evalLoop fs (rooted rps) orig n path b = Inr r"
  shows "\<exists>ps. list_all plain ps \<and> r = rooted (rps @ ps) \<and> resolved fs rps ps"
  using assms(2-4)
proof (induction fs "rooted rps" orig n path b rule: evalLoop.induct)
  case (1 fs orig n path b)
  let ?p = "before CHR ''/'' path" and ?rest = "after CHR ''/'' path"
  let ?ps = "cleanParts (pathParts b) [?p]"
  have p: "CHR ''/'' \<notin> set ?p" by simp
  have clean: "Clean (CHR ''/'' # b @ ?p) = rooted ?ps"
    using parts_buffer [OF 1(6) p] by (simp add: Clean_rooted)
  have plain: "list_all plain ?ps" using parts_buffer [OF 1(6) p] parts_plain by metis
  have full: "Clean (rooted rps @ rooted ?ps) = rooted (rps @ ?ps)" by (rule Clean_rooted_two [OF assms(1) plain])
  have root: "rooted ?ps = ''/'' \<longleftrightarrow> ?ps = []"
    using rooted_inj [OF plain, of "[]"] by auto
  note run = 1(8) [unfolded evalLoop.simps [of fs "rooted rps" orig n path b], unfolded Let_def clean full]
  note IH = 1(1-5) [unfolded Let_def clean full]
  have next': "pathParts (b @ ?p @ ''/'') = ?ps" by (rule parts_next [OF 1(6) p])
  have nonlink: "resolved fs rps (pathParts (b @ ?p @ ''/''))" if "\<not> is_link (fs (rooted (rps @ ?ps)))"
    using resolved_step [OF 1(7) that] next' by simp
  show ?case
  proof (cases "path = []")
    case True
    then have "r = rooted (rps @ pathParts b)" using run Clean_rooted_two [OF assms(1) parts_plain, of b]
      by (simp add: Clean_rooted [of "CHR ''/'' # b"])
    then show ?thesis using parts_plain 1(7) by blast
  next
    case False
    then have n: "\<not> n > maxIter" using run by (auto split: if_splits)
    note run = run [simplified False n if_False]
    note IH = IH [OF False n refl refl]
    show ?thesis
    proof (cases "?p = []")
      case True
      then show ?thesis using IH(1) [OF True 1(6,7)] run by simp
    next
      case p0: False
      show ?thesis
      proof (cases "rooted ?ps = ''/''")
        case True
        then show ?thesis using IH(2) [OF p0 clean [symmetric] True] run p0 by simp
      next
        case c0: False
        note run = run [simplified p0 c0 if_False]
        note IH = IH(3-5) [OF p0 clean [symmetric] c0, unfolded full]
        show ?thesis
        proof (cases "fs (rooted (rps @ ?ps))")
          case Absent
          then show ?thesis using IH(1) [OF Absent _ nonlink] run by (simp add: is_link_def)
        next
          case Present
          then show ?thesis using IH(2) [OF Present _ nonlink] run by (simp add: is_link_def)
        next
          case (Link d)
          then obtain dest where d: "d = Inr dest" using run by (cases d) auto
          then show ?thesis using IH(3) [OF Link d] run Link 1(6,7) by (auto split: if_splits)
        qed (use run in simp)
      qed
    qed
  qed
qed

lemma evalLoop_error:
  "evalLoop fs root orig n path b = Inl e \<Longrightarrow> e = TooManyLinks orig \<or> (\<exists>m. e = LstatFailed m \<or> e = ReadlinkFailed m)"
proof (induction fs root orig n path b rule: evalLoop.induct)
  case (1 fs root orig n path b)
  show ?case
    using 1(6) unfolding evalLoop.simps [of fs root orig n path b]
    by (auto simp: Let_def split: if_splits entry.splits sum.splits dest: 1(1-5) [OF _ _ refl refl])
qed

lemma first_component:
  assumes "c \<notin> set q"
  shows "before c (join c (q # qs)) = q \<and> after c (join c (q # qs)) = join c qs"
proof (cases qs)
  case Nil
  have q: "takeWhile (\<lambda>x. x \<noteq> c) q = q" "dropWhile (\<lambda>x. x \<noteq> c) q = []" using assms by (auto simp: takeWhile_eq_all_conv)
  show "before c (join c (q # qs)) = q \<and> after c (join c (q # qs)) = join c qs"
    unfolding Nil before_def after_def join.simps q by simp_all
next
  case (Cons r rs)
  then show "before c (join c (q # qs)) = q \<and> after c (join c (q # qs)) = join c qs" using assms by simp_all
qed

text \<open>Without links the loop walks down the components.\<close>

lemma evalLoop_plain:
  assumes "\<forall>q. fs q = Absent \<or> fs q = Present" "list_all plain rps" "list_all plain qs" "buffer_ok b"
  shows "evalLoop fs (rooted rps) orig n (join CHR ''/'' qs) b =
    (if qs = [] \<or> n + length qs \<le> Suc maxIter then Inr (rooted (rps @ pathParts b @ qs)) else Inl (TooManyLinks orig))"
  using assms(3,4)
proof (induction qs arbitrary: n b)
  case Nil
  then show ?case using Clean_rooted_two [OF assms(2) parts_plain, of b]
    by (simp add: evalLoop.simps Clean_rooted [of "CHR ''/'' # b"])
next
  case (Cons q qs)
  have q: "plain q" "CHR ''/'' \<notin> set q" "q \<noteq> []" using Cons.prems by (auto simp: plain_def)
  have j: "join CHR ''/'' (q # qs) \<noteq> []" "before CHR ''/'' (join CHR ''/'' (q # qs)) = q"
      "after CHR ''/'' (join CHR ''/'' (q # qs)) = join CHR ''/'' qs"
    using first_component [OF q(2), of qs] q(3) by (cases qs; simp)+
  have ps: "cleanParts (pathParts b) [q] = pathParts b @ [q]" using q(1) by (simp add: plain_def)
  have c: "Clean (CHR ''/'' # b @ q) = rooted (pathParts b @ [q])" "pathParts (b @ q @ ''/'') = pathParts b @ [q]"
    using parts_buffer [OF Cons.prems(2) q(2)] parts_next [OF Cons.prems(2) q(2)] ps by (simp_all add: Clean_rooted)
  have nr: "rooted (pathParts b @ [q]) \<noteq> ''/''"
    using rooted_inj [of "pathParts b @ [q]" "[]"] parts_plain [of b] q(1) by auto
  have step: "evalLoop fs (rooted rps) orig n (join CHR ''/'' (q # qs)) b =
      (if n > maxIter then Inl (TooManyLinks orig) else evalLoop fs (rooted rps) orig (Suc n) (join CHR ''/'' qs) (b @ q @ ''/''))"
    unfolding evalLoop.simps [of fs "rooted rps" orig n] j Let_def c(1) using assms(1) [rule_format, of "Clean (rooted rps @ rooted (pathParts b @ [q]))"] j(1) q(3) nr
    by auto
  show ?case unfolding step using Cons.IH [of "b @ q @ ''/''" "Suc n"] Cons.prems(1) c(2) by auto
qed

lemma evalLoop_rooted:
  "evalLoop fs root orig 0 (rooted qs) [] = evalLoop fs root orig 1 (join CHR ''/'' qs) []"
  unfolding rooted_def evalLoop.simps [of fs root orig 0] using after_append [of "CHR ''/''" "[]"] before_append [of "CHR ''/''" "[]"]
  by (simp add: maxIter_def)

text \<open>Paths that are in the root.\<close>

lemma rooted_append:
  "qs \<noteq> [] \<Longrightarrow> rooted (rps @ qs) = (if rps = [] then rooted qs else rooted rps @ rooted qs)"
proof (induction rps)
  case (Cons r rps)
  then show ?case by (cases "rps = []") (auto simp: rooted_def join_Cons)
qed simp

lemma evalSymlinksInScope_inside:
  assumes "list_all plain rps" "list_all plain qs" "qs \<noteq> []"
  shows "evalSymlinksInScope fs (rooted (rps @ qs)) (rooted rps) =
    evalLoop fs (rooted rps) (rooted (rps @ qs)) 1 (join CHR ''/'' qs) []"
proof -
  have ne: "rooted (rps @ qs) \<noteq> rooted rps" using rooted_inj [of "rps @ qs" rps] assms by auto
  have root: "rooted rps = ''/'' \<longleftrightarrow> rps = []" using rooted_inj [of rps "[]"] assms(1) by auto
  have "evalSymlinksInScope fs (rooted (rps @ qs)) (rooted rps) = evalLoop fs (rooted rps) (rooted (rps @ qs)) 0 (rooted qs) []"
    using ne assms Clean_canonical [OF assms(1)] Clean_canonical [OF assms(2)] rooted_append [OF assms(3), of rps] root
    by (auto simp: evalSymlinksInScope_def Let_def has_prefix_iff rooted_def [of qs])
  then show ?thesis by (simp add: evalLoop_rooted)
qed

lemma Join_inside:
  assumes "IsAbs baseFS"
  shows "JoinPath [baseFS, JoinPath [''/'', path]] = rooted (pathParts baseFS @ pathParts path)"
proof -
  have b: "baseFS \<noteq> []" using assms by (auto simp: IsAbs_def)
  have "JoinPath [''/'', path] = rooted (pathParts path)" by (simp add: JoinPath_def Clean_rooted)
  moreover have "JoinPath [baseFS, rooted (pathParts path)] = rooted (pathParts (baseFS @ CHR ''/'' # rooted (pathParts path)))"
    using b assms by (simp add: JoinPath_def Clean_rooted IsAbs_def)
  moreover have "pathParts (baseFS @ CHR ''/'' # rooted (pathParts path)) = pathParts baseFS @ pathParts path"
    using parts_sep [of baseFS "rooted (pathParts path)"] cleanParts_join [OF parts_plain, of "pathParts baseFS" path]
    by (simp add: rooted_def)
  ultimately show ?thesis by simp
qed

lemma GetResourcePath_eval:
  assumes "IsAbs baseFS"
  shows "GetResourcePath fs cwd baseFS path =
    (if pathParts path = [] then Inr (rooted (pathParts baseFS))
     else evalLoop fs (rooted (pathParts baseFS)) (rooted (pathParts baseFS @ pathParts path)) 1 (join CHR ''/'' (pathParts path)) [])"
proof -
  have "GetResourcePath fs cwd baseFS path = evalSymlinksInScope fs (rooted (pathParts baseFS @ pathParts path)) (rooted (pathParts baseFS))"
    using assms parts_plain by (simp add: GetResourcePath_def FollowSymlinkInScope_def Join_inside Abs_def Clean_rooted [of baseFS])
  then show ?thesis using evalSymlinksInScope_inside [OF parts_plain parts_plain, of path fs baseFS] parts_plain
    by (simp add: evalSymlinksInScope_def)
qed

text \<open>
  C8: A path of a container is looked up inside the container, whatever links there are.  The path on
  the host that is returned lies below the root of the container, and no component below the root is a
  link, so opening it does not lead out.  The only errors are those of reading the file system and of
  too many rounds.  Without links the result is the cleaned path; it is refused exactly when it has
  more than 255 components, although there are no links to follow.
\<close>

theorem resource_path_in_scope:
  assumes "IsAbs baseFS"
  shows "(case GetResourcePath fs cwd baseFS path of
      Inr r \<Rightarrow> \<exists>ps. list_all plain ps \<and> r = rooted (pathParts baseFS @ ps)
        \<and> (\<forall>n. 0 < n \<and> n \<le> length ps \<longrightarrow> \<not> is_link (fs (rooted (pathParts baseFS @ take n ps))))
    | Inl e \<Rightarrow> (\<exists>p m. e = TooManyLinks p \<or> e = LstatFailed m \<or> e = ReadlinkFailed m))
    \<and> ((\<forall>q. fs q = Absent \<or> fs q = Present) \<longrightarrow>
        GetResourcePath fs cwd baseFS path =
          (if length (pathParts path) \<le> 255 then Inr (rooted (pathParts baseFS @ pathParts path))
           else Inl (TooManyLinks (rooted (pathParts baseFS @ pathParts path)))))"
proof (intro conjI impI)
  let ?run = "evalLoop fs (rooted (pathParts baseFS)) (rooted (pathParts baseFS @ pathParts path)) 1 (join CHR ''/'' (pathParts path)) []"
  note eval = GetResourcePath_eval [OF assms, of fs cwd path]
  have scope: "?run = Inr r \<Longrightarrow> \<exists>ps. list_all plain ps \<and> r = rooted (pathParts baseFS @ ps) \<and> resolved fs (pathParts baseFS) ps" for r
    by (rule evalLoop_scope [OF parts_plain]) auto
  have err: "?run = Inl e \<Longrightarrow> \<exists>p m. e = TooManyLinks p \<or> e = LstatFailed m \<or> e = ReadlinkFailed m" for e
    using evalLoop_error by blast
  show "case GetResourcePath fs cwd baseFS path of
      Inr r \<Rightarrow> \<exists>ps. list_all plain ps \<and> r = rooted (pathParts baseFS @ ps)
        \<and> (\<forall>n. 0 < n \<and> n \<le> length ps \<longrightarrow> \<not> is_link (fs (rooted (pathParts baseFS @ take n ps))))
    | Inl e \<Rightarrow> (\<exists>p m. e = TooManyLinks p \<or> e = LstatFailed m \<or> e = ReadlinkFailed m)"
  proof (cases "pathParts path = []")
    case True
    then show ?thesis unfolding eval by (simp add: exI [of _ "[]"])
  next
    case False
    then show ?thesis unfolding eval resolved_def [symmetric] using scope err by (cases ?run) auto
  qed
  assume "\<forall>q. fs q = Absent \<or> fs q = Present"
  from evalLoop_plain [OF this parts_plain parts_plain, of "[]" baseFS "rooted (pathParts baseFS @ pathParts path)" 1 path]
  show "GetResourcePath fs cwd baseFS path =
          (if length (pathParts path) \<le> 255 then Inr (rooted (pathParts baseFS @ pathParts path))
           else Inl (TooManyLinks (rooted (pathParts baseFS @ pathParts path))))"
    unfolding eval by (simp add: maxIter_def)
qed

text \<open>A link to an absolute path outside, and one that climbs, both stay inside.\<close>

definition sample_files :: host_files where
  "sample_files p = (if p = ''/c/etc'' then Link (Inr ''/../../out'') else if p = ''/c/me'' then Link (Inr ''me'') else Absent)"

theorem resource_path_in_scope_witness:
  "IsAbs ''/c'' \<and> GetResourcePath sample_files (Inr ''/'') ''/c'' ''etc/passwd'' = Inr ''/c/out/passwd''
    \<and> (\<exists>ps. ''/c/out/passwd'' = rooted (pathParts ''/c'' @ ps)
        \<and> (\<forall>n. 0 < n \<and> n \<le> length ps \<longrightarrow> \<not> is_link (sample_files (rooted (pathParts ''/c'' @ take n ps)))))"
proof -
  have a: "IsAbs ''/c''" by simp
  have r: "GetResourcePath sample_files (Inr ''/'') ''/c'' ''etc/passwd'' = Inr ''/c/out/passwd''" by code_simp
  show ?thesis using resource_path_in_scope [OF a, of sample_files "Inr ''/''" "''etc/passwd''"] a r by (simp only: sum.case) blast
qed

end
