(* ===== verification/Bytes_Pipe.thy ===== *)
theory Bytes_Pipe
  imports Go_Strings
begin

section \<open>A queue of bytes between goroutines (\<^verbatim>\<open>pkg/ioutils/bytespipe.go\<close>)\<close>

text \<open>
  Writers fill the last slice of a list of slices, and allocate a larger one when it is full; readers
  empty the first slice.  Each method runs under a mutex that is given up while it waits for the
  condition, so a method is a sequence of pieces: one up to the first wait, and one after each
  wake-up.  A slice is its contents and its capacity.  A wake-up may come at any time.
\<close>

record slice =
  s_data :: string
  s_cap :: nat

datatype pipe_error = EOF | CloseError string

record bytes_pipe =
  buf :: "slice list"
  lastRead :: nat
  bufLen :: int
  closeErr :: "pipe_error option"

definition maxCap :: nat where
  "maxCap = 1000000"

definition blockThreshold :: int where
  "blockThreshold = 1000000"

definition NewBytesPipe :: "nat \<Rightarrow> bytes_pipe" where
  "NewBytesPipe c = \<lparr>buf = [\<lparr>s_data = [], s_cap = (if c = 0 then 64 else c)\<rparr>], lastRead = 0, bufLen = 0, closeErr = None\<rparr>"

text \<open>Writing: done, stopped by a closed pipe, or waiting with bytes left; each with the count so far.\<close>

datatype write_out = Wrote nat | WriteClosed nat | WriteWaits string nat

definition fillLast :: "string \<Rightarrow> bytes_pipe \<Rightarrow> bytes_pipe \<times> nat" where
  "fillLast p bp =
     (let b = last (buf bp); n = min (s_cap b - length (s_data b)) (length p)
      in (bp\<lparr>bufLen := bufLen bp + int n, buf := butlast (buf bp) @ [b\<lparr>s_data := s_data b @ take n p\<rparr>]\<rparr>, n))"

definition grow :: "bytes_pipe \<Rightarrow> bytes_pipe" where
  "grow bp = bp\<lparr>buf := buf bp @ [\<lparr>s_data = [], s_cap = min (2 * s_cap (last (buf bp))) maxCap\<rparr>]\<rparr>"

partial_function (option) pipeWrite :: "string \<Rightarrow> nat \<Rightarrow> bytes_pipe \<Rightarrow> (bytes_pipe \<times> write_out) option" where
  "pipeWrite p written bp =
     (if closeErr bp \<noteq> None then Some (bp, WriteClosed written)
      else case fillLast p bp of (bp1, n) \<Rightarrow>
        if length p = n then Some (bp1, Wrote (written + n))
        else if bufLen bp1 \<ge> blockThreshold then Some (bp1, WriteWaits (drop n p) (written + n))
        else pipeWrite (drop n p) (written + n) (grow bp1))"

definition pipeResumeWrite :: "string \<Rightarrow> nat \<Rightarrow> bytes_pipe \<Rightarrow> (bytes_pipe \<times> write_out) option" where
  "pipeResumeWrite p written bp =
     (if bufLen bp \<ge> blockThreshold then Some (bp, WriteWaits p written) else pipeWrite p written (grow bp))"

definition CloseWithError :: "string option \<Rightarrow> bytes_pipe \<Rightarrow> bytes_pipe" where
  "CloseWithError err bp = bp\<lparr>closeErr := Some (case err of Some e \<Rightarrow> CloseError e | None \<Rightarrow> EOF)\<rparr>"

definition pipeLen :: "bytes_pipe \<Rightarrow> int" where
  "pipeLen bp = bufLen bp - int (lastRead bp)"

text \<open>Reading at most \<open>k\<close> bytes; an index out of range panics.\<close>

datatype read_out = Got string | ReadError pipe_error | ReadWaits | ReadPanics

function pipeReadLoop :: "nat \<Rightarrow> string \<Rightarrow> bytes_pipe \<Rightarrow> bytes_pipe \<times> read_out" where
  "pipeReadLoop k out bp =
     (case buf bp of
        [] \<Rightarrow> (bp, ReadPanics)
      | b # bs \<Rightarrow>
          if lastRead bp > length (s_data b) then (bp, ReadPanics)
          else
            let got = take k (drop (lastRead bp) (s_data b)); bp1 = bp\<lparr>lastRead := lastRead bp + length got\<rparr> in
            if pipeLen bp1 = 0 then
              (bp1\<lparr>lastRead := 0, bufLen := bufLen bp1 - int (length (s_data b)), buf := b\<lparr>s_data := []\<rparr> # bs\<rparr>, Got (out @ got))
            else if k = length got then (bp1, Got (out @ got))
            else pipeReadLoop (k - length got) (out @ got)
                   (bp1\<lparr>lastRead := 0, bufLen := bufLen bp1 - int (length (s_data b)), buf := bs\<rparr>))"
  by pat_completeness auto
termination by (relation "measure (\<lambda>(_, _, bp). length (buf bp))") auto

declare pipeReadLoop.simps [simp del]

definition pipeRead :: "nat \<Rightarrow> bytes_pipe \<Rightarrow> bytes_pipe \<times> read_out" where
  "pipeRead k bp =
     (if pipeLen bp = 0 then (case closeErr bp of Some e \<Rightarrow> (bp, ReadError e) | None \<Rightarrow> (bp, ReadWaits))
      else pipeReadLoop k [] bp)"

definition pipeResumeRead :: "nat \<Rightarrow> bytes_pipe \<Rightarrow> bytes_pipe \<times> read_out" where
  "pipeResumeRead k bp =
     (if pipeLen bp = 0 \<and> closeErr bp \<noteq> None then (bp, ReadError (the (closeErr bp))) else pipeReadLoop k [] bp)"

subsection \<open>Goroutines\<close>

datatype pipe_proc = PIdle | PWriting string nat | PReading nat

record pipe_system =
  pipe :: bytes_pipe
  procs :: "pipe_proc list"
  sent :: string
  received :: string
  panicked :: bool

definition wrote :: "pipe_system \<Rightarrow> nat \<Rightarrow> string \<Rightarrow> nat \<Rightarrow> bytes_pipe \<times> write_out \<Rightarrow> pipe_system" where
  "wrote y i p w res =
     (case res of
        (bp, Wrote n) \<Rightarrow> y\<lparr>pipe := bp, sent := sent y @ take (n - w) p, procs := (procs y)[i := PIdle]\<rparr>
      | (bp, WriteClosed n) \<Rightarrow> y\<lparr>pipe := bp, sent := sent y @ take (n - w) p, procs := (procs y)[i := PIdle]\<rparr>
      | (bp, WriteWaits q n) \<Rightarrow> y\<lparr>pipe := bp, sent := sent y @ take (n - w) p, procs := (procs y)[i := PWriting q n]\<rparr>)"

definition got :: "pipe_system \<Rightarrow> nat \<Rightarrow> nat \<Rightarrow> bytes_pipe \<times> read_out \<Rightarrow> pipe_system" where
  "got y i k res =
     (case res of
        (bp, Got s) \<Rightarrow> y\<lparr>pipe := bp, received := received y @ s, procs := (procs y)[i := PIdle]\<rparr>
      | (bp, ReadError e) \<Rightarrow> y\<lparr>pipe := bp, procs := (procs y)[i := PIdle]\<rparr>
      | (bp, ReadWaits) \<Rightarrow> y\<lparr>pipe := bp, procs := (procs y)[i := PReading k]\<rparr>
      | (bp, ReadPanics) \<Rightarrow> y\<lparr>pipe := bp, panicked := True\<rparr>)"

inductive pipe_step :: "pipe_system \<Rightarrow> pipe_system \<Rightarrow> bool" where
  do_write: "i < length (procs y) \<Longrightarrow> procs y ! i = PIdle \<Longrightarrow> pipeWrite p 0 (pipe y) = Some r \<Longrightarrow> pipe_step y (wrote y i p 0 r)"
| on_write: "i < length (procs y) \<Longrightarrow> procs y ! i = PWriting p w \<Longrightarrow> pipeResumeWrite p w (pipe y) = Some r \<Longrightarrow>
    pipe_step y (wrote y i p w r)"
| do_read: "i < length (procs y) \<Longrightarrow> procs y ! i = PIdle \<Longrightarrow> pipe_step y (got y i k (pipeRead k (pipe y)))"
| on_read: "i < length (procs y) \<Longrightarrow> procs y ! i = PReading k \<Longrightarrow> pipe_step y (got y i k (pipeResumeRead k (pipe y)))"
| do_close: "pipe_step y (y\<lparr>pipe := CloseWithError err (pipe y)\<rparr>)"

inductive pipe_reachable :: "nat \<Rightarrow> nat \<Rightarrow> pipe_system \<Rightarrow> bool" for c n where
  pipe_init: "pipe_reachable c n \<lparr>pipe = NewBytesPipe c, procs = replicate n PIdle, sent = [], received = [], panicked = False\<rparr>"
| pipe_next: "pipe_reachable c n y \<Longrightarrow> pipe_step y z \<Longrightarrow> pipe_reachable c n z"

subsection \<open>The bytes held\<close>

definition stored :: "slice list \<Rightarrow> string" where
  "stored bs = concat (map s_data bs)"

definition contents :: "bytes_pipe \<Rightarrow> string" where
  "contents bp = drop (lastRead bp) (stored (buf bp))"

definition largest :: "nat \<Rightarrow> nat" where
  "largest c = max maxCap (max c 64)"

text \<open>What the slices hold before the last one was there when it was allocated: less than the threshold.\<close>

definition pipe_inv :: "nat \<Rightarrow> bytes_pipe \<Rightarrow> bool" where
  "pipe_inv c bp \<longleftrightarrow> buf bp \<noteq> [] \<and> (\<forall>b \<in> set (buf bp). 0 < s_cap b \<and> s_cap b \<le> largest c \<and> length (s_data b) \<le> s_cap b)
     \<and> bufLen bp = int (length (stored (buf bp))) \<and> lastRead bp \<le> length (s_data (hd (buf bp)))
     \<and> int (length (stored (butlast (buf bp)))) < blockThreshold
     \<and> (contents bp = [] \<longrightarrow> bufLen bp = 0)"

lemma stored_simps [simp]:
  "stored [] = []" "stored (b # bs) = s_data b @ stored bs" "stored (xs @ ys) = stored xs @ stored ys"
  by (simp_all add: stored_def)

lemma pipe_inv_New: "pipe_inv c (NewBytesPipe c)"
  by (simp add: pipe_inv_def NewBytesPipe_def largest_def blockThreshold_def le_max_iff_disj)

subsection \<open>Writing\<close>

lemma split_last: "xs \<noteq> [] \<Longrightarrow> stored xs = stored (butlast xs) @ s_data (last xs)"
  by (metis append_butlast_last_id append_Nil2 stored_simps)

lemma lastRead_stored: "pipe_inv c bp \<Longrightarrow> lastRead bp \<le> length (stored (buf bp))"
  by (cases "buf bp") (auto simp: pipe_inv_def)

lemma fillLast_ok:
  assumes inv: "pipe_inv c bp" and f: "fillLast p bp = (bp1, n)"
  shows "pipe_inv c bp1 \<and> n \<le> length p \<and> contents bp1 = contents bp @ take n p \<and> closeErr bp1 = closeErr bp
    \<and> n = min (s_cap (last (buf bp)) - length (s_data (last (buf bp)))) (length p)"
proof -
  let ?b = "last (buf bp)"
  have ne: "buf bp \<noteq> []" and b: "?b \<in> set (buf bp)" using inv by (auto simp: pipe_inv_def)
  have n: "n = min (s_cap ?b - length (s_data ?b)) (length p)"
    and bp1: "bp1 = bp\<lparr>bufLen := bufLen bp + int n, buf := butlast (buf bp) @ [?b\<lparr>s_data := s_data ?b @ take n p\<rparr>]\<rparr>"
    using f by (auto simp: fillLast_def Let_def)
  have st: "stored (buf bp1) = stored (buf bp) @ take n p" using split_last [OF ne] bp1 by simp
  then have cont: "contents bp1 = contents bp @ take n p"
    unfolding contents_def st using lastRead_stored [OF inv] by (simp add: bp1)
  have hd: "lastRead bp1 \<le> length (s_data (hd (buf bp1)))"
  proof (cases "butlast (buf bp) = []")
    case True
    then have "buf bp = [?b]" using ne by (metis append_Nil append_butlast_last_id)
    then have "hd (buf bp) = ?b" by (metis list.sel(1))
    then show ?thesis using inv bp1 True by (simp add: pipe_inv_def)
  next
    case False
    then show ?thesis using inv bp1 ne by (cases "buf bp") (auto simp: pipe_inv_def split: if_splits)
  qed
  have slices: "\<forall>x \<in> set (buf bp1). 0 < s_cap x \<and> s_cap x \<le> largest c \<and> length (s_data x) \<le> s_cap x"
  proof
    fix x assume "x \<in> set (buf bp1)"
    then consider "x \<in> set (buf bp)" | "x = ?b\<lparr>s_data := s_data ?b @ take n p\<rparr>" using bp1 by (auto dest: in_set_butlastD)
    then show "0 < s_cap x \<and> s_cap x \<le> largest c \<and> length (s_data x) \<le> s_cap x"
    proof cases
      case 1
      then show ?thesis using inv by (simp add: pipe_inv_def)
    next
      case 2
      have "0 < s_cap ?b \<and> s_cap ?b \<le> largest c \<and> length (s_data ?b) \<le> s_cap ?b" using inv b by (simp add: pipe_inv_def)
      moreover have "n \<le> s_cap ?b - length (s_data ?b)" using n by simp
      moreover have "length (take n p) \<le> n" by simp
      ultimately have "length (s_data ?b) + length (take n p) \<le> s_cap ?b" by linarith
      then show ?thesis using 2 \<open>0 < s_cap ?b \<and> s_cap ?b \<le> largest c \<and> length (s_data ?b) \<le> s_cap ?b\<close> by simp
    qed
  qed
  have "contents bp1 = [] \<longrightarrow> bufLen bp1 = 0" using cont inv bp1 n by (auto simp: pipe_inv_def)
  moreover have "bufLen bp1 = bufLen bp + int n" "n \<le> length p" using bp1 n by simp_all
  then have "bufLen bp1 = int (length (stored (buf bp1)))" unfolding st using inv by (simp add: pipe_inv_def)
  moreover have "int (length (stored (butlast (buf bp1)))) < blockThreshold" using inv bp1 by (simp add: pipe_inv_def)
  moreover have "buf bp1 \<noteq> []" using bp1 by simp
  ultimately show ?thesis unfolding pipe_inv_def [of c bp1] using slices hd cont n bp1 by simp
qed

lemma grow_ok:
  assumes "pipe_inv c bp" "bufLen bp < blockThreshold"
  shows "pipe_inv c (grow bp)" "contents (grow bp) = contents bp" "closeErr (grow bp) = closeErr bp"
    "length (s_data (last (buf (grow bp)))) = 0" "0 < s_cap (last (buf (grow bp)))"
proof -
  have cap: "0 < s_cap (last (buf bp))" using assms(1) by (auto simp: pipe_inv_def)
  show "contents (grow bp) = contents bp" "closeErr (grow bp) = closeErr bp" "length (s_data (last (buf (grow bp)))) = 0"
    by (simp_all add: grow_def contents_def)
  then show "pipe_inv c (grow bp)"
    using assms cap by (auto simp: pipe_inv_def grow_def largest_def maxCap_def)
  show "0 < s_cap (last (buf (grow bp)))" using cap by (simp add: grow_def maxCap_def)
qed

text \<open>A piece of a write accepts some bytes and ends; only a closed or full pipe leaves bytes over.\<close>

fun write_spec :: "nat \<Rightarrow> string \<Rightarrow> nat \<Rightarrow> bytes_pipe \<Rightarrow> bytes_pipe \<times> write_out \<Rightarrow> bool" where
  "write_spec c p w bp (bp', out) =
     (pipe_inv c bp' \<and> closeErr bp' = closeErr bp \<and> (\<exists>k \<le> length p. contents bp' = contents bp @ take k p
        \<and> (case out of
             Wrote n \<Rightarrow> n = w + k \<and> k = length p
           | WriteClosed n \<Rightarrow> n = w + k \<and> closeErr bp \<noteq> None
           | WriteWaits q n \<Rightarrow> n = w + k \<and> q = drop k p \<and> blockThreshold \<le> bufLen bp')))"

lemma write_spec_cong:
  "contents bp = contents bp2 \<Longrightarrow> closeErr bp = closeErr bp2 \<Longrightarrow> write_spec c p w bp r = write_spec c p w bp2 r"
  by (cases r) (simp only: write_spec.simps)

lemma write_spec_step:
  assumes "pipe_inv c bp" "fillLast p bp = (bp1, n)" "bufLen bp1 < blockThreshold"
    and "write_spec c (drop n p) (w + n) (grow bp1) r"
  shows "write_spec c p w bp r"
proof (cases r)
  case (Pair bp' out)
  note f = fillLast_ok [OF assms(1,2)] and g = grow_ok [of c bp1]
  from assms(4) Pair obtain k where k: "k \<le> length (drop n p)" "contents bp' = contents (grow bp1) @ take k (drop n p)"
      "pipe_inv c bp'" "closeErr bp' = closeErr (grow bp1)"
      "case out of Wrote m \<Rightarrow> m = w + n + k \<and> k = length (drop n p)
         | WriteClosed m \<Rightarrow> m = w + n + k \<and> closeErr (grow bp1) \<noteq> None
         | WriteWaits q m \<Rightarrow> m = w + n + k \<and> q = drop k (drop n p) \<and> blockThreshold \<le> bufLen bp'" by auto
  have "contents bp' = contents bp @ take (n + k) p" using k(2) f g(2) assms(3) by (simp add: take_add)
  moreover have "n + k \<le> length p" using k(1) f by simp
  ultimately show ?thesis
    using k f g(3) assms(3) Pair by (auto intro!: exI [of _ "n + k"] split: write_out.splits simp: add.commute)
qed

lemma pipeWrite_ok:
  "pipe_inv c bp \<Longrightarrow> \<exists>r. pipeWrite p w bp = Some r \<and> write_spec c p w bp r"
proof (induction "2 * length p + (if s_cap (last (buf bp)) \<le> length (s_data (last (buf bp))) then 1 else 0)"
    arbitrary: p w bp rule: less_induct)
  case less
  obtain bp1 n where f: "fillLast p bp = (bp1, n)" by (cases "fillLast p bp")
  note ok = fillLast_ok [OF less.prems f]
  consider "closeErr bp \<noteq> None" | "closeErr bp = None" "length p = n"
    | "closeErr bp = None" "length p \<noteq> n" "blockThreshold \<le> bufLen bp1"
    | "closeErr bp = None" "length p \<noteq> n" "bufLen bp1 < blockThreshold" by linarith
  then show ?case
  proof cases
    case 1
    then show ?thesis using less.prems by (subst pipeWrite.simps) (auto intro: exI [of _ 0])
  next
    case 2
    then show ?thesis using ok by (subst pipeWrite.simps) (auto simp: f)
  next
    case 3
    then show ?thesis using ok by (subst pipeWrite.simps) (auto simp: f intro!: exI [of _ n])
  next
    case 4
    note g = grow_ok [of c bp1, OF _ 4(3)]
    have m: "2 * length (drop n p) + (if s_cap (last (buf (grow bp1))) \<le> length (s_data (last (buf (grow bp1)))) then 1 else 0)
      < 2 * length p + (if s_cap (last (buf bp)) \<le> length (s_data (last (buf bp))) then 1 else 0)"
      using ok g(4,5) 4(2) by (auto simp: min_def split: if_splits)
    obtain r where r: "pipeWrite (drop n p) (w + n) (grow bp1) = Some r" "write_spec c (drop n p) (w + n) (grow bp1) r"
      using less.hyps [OF m g(1)] ok by blast
    have "pipeWrite p w bp = Some r" using 4 r(1) by (subst pipeWrite.simps) (simp add: f)
    then show ?thesis using write_spec_step [OF less.prems f 4(3) r(2)] by blast
  qed
qed

lemma pipeResumeWrite_ok:
  assumes "pipe_inv c bp"
  shows "\<exists>r. pipeResumeWrite p w bp = Some r \<and> write_spec c p w bp r"
proof (cases "bufLen bp \<ge> blockThreshold")
  case True
  then show ?thesis using assms by (auto simp: pipeResumeWrite_def intro: exI [of _ 0])
next
  case False
  then obtain r where r: "pipeWrite p w (grow bp) = Some r" "write_spec c p w (grow bp) r"
    using pipeWrite_ok grow_ok(1) [OF assms] by fastforce
  moreover have "write_spec c p w bp r" using r(2) write_spec_cong [of "grow bp" bp] grow_ok(2,3) [OF assms] False by simp
  ultimately show ?thesis using False by (auto simp: pipeResumeWrite_def)
qed

subsection \<open>Reading\<close>

lemma inv_len: "pipe_inv c bp \<Longrightarrow> pipeLen bp = int (length (contents bp))"
proof -
  assume inv: "pipe_inv c bp"
  then have "bufLen bp = int (length (stored (buf bp)))" by (simp add: pipe_inv_def)
  then show ?thesis using lastRead_stored [OF inv] by (simp add: pipeLen_def contents_def of_nat_diff)
qed

text \<open>The loop takes what it can from the front, and stops when it has enough or nothing is left.\<close>

lemma pipeReadLoop_ok:
  assumes "buf bp \<noteq> []" "\<forall>b \<in> set (buf bp). 0 < s_cap b \<and> s_cap b \<le> largest c \<and> length (s_data b) \<le> s_cap b"
    and "bufLen bp = int (length (stored (buf bp)))" "lastRead bp \<le> length (s_data (hd (buf bp)))"
    and "int (length (stored (butlast (buf bp)))) < blockThreshold"
  shows "\<exists>bp' s. pipeReadLoop k out bp = (bp', Got (out @ s)) \<and> pipe_inv c bp' \<and> closeErr bp' = closeErr bp
    \<and> s = take k (contents bp) \<and> contents bp' = drop k (contents bp)"
  using assms
proof (induction k out bp rule: pipeReadLoop.induct)
  case (1 k out bp)
  obtain b bs where b: "buf bp = b # bs" using "1.prems"(1) by (cases "buf bp") auto
  let ?got = "take k (drop (lastRead bp) (s_data b))"
  let ?bp1 = "bp\<lparr>lastRead := lastRead bp + length ?got\<rparr>"
  have lr: "\<not> lastRead bp > length (s_data b)" using "1.prems"(4) b by simp
  have cont: "contents bp = drop (lastRead bp) (s_data b) @ stored bs" using lr b by (simp add: contents_def)
  have len: "pipeLen ?bp1 = int (length (contents bp)) - int (length ?got)"
    using "1.prems"(3) lr b by (simp add: pipeLen_def cont of_nat_diff)
  note run = pipeReadLoop.simps [of k out bp, unfolded b list.case Let_def, simplified lr if_False]
  show ?case
  proof (cases "pipeLen ?bp1 = 0")
    case True
    then have "length (contents bp) = length ?got" using len by simp
    then have l: "length (drop (lastRead bp) (s_data b)) + length (stored bs) = length ?got" using cont by simp
    moreover have le: "length ?got \<le> length (drop (lastRead bp) (s_data b))" "length ?got \<le> k" by simp_all
    ultimately have "length (stored bs) = 0" "length (drop (lastRead bp) (s_data b)) \<le> k" by linarith+
    then have bs: "stored bs = []" and got: "?got = drop (lastRead bp) (s_data b)" by simp_all
    let ?bp' = "?bp1\<lparr>lastRead := 0, bufLen := bufLen ?bp1 - int (length (s_data b)), buf := b\<lparr>s_data := []\<rparr> # bs\<rparr>"
    have st: "stored (butlast bs) = []" using bs by (cases bs rule: rev_cases) auto
    have "pipe_inv c ?bp'" using "1.prems" b bs st by (auto simp: pipe_inv_def contents_def blockThreshold_def)
    moreover have "contents bp = ?got" using cont bs got by simp
    then have "take k (contents bp) = ?got \<and> drop k (contents bp) = []"
      by (metis append_Nil2 append_take_drop_id take_all_iff length_take min.cobounded2 drop_eq_Nil2)
    moreover have "contents ?bp' = []" using bs by (simp add: contents_def)
    moreover have "pipeReadLoop k out bp = (?bp', Got (out @ ?got))" unfolding run using True by simp
    ultimately show ?thesis by simp
  next
    case False
    show ?thesis
    proof (cases "k = length ?got")
      case True
      then have k: "k \<le> length (drop (lastRead bp) (s_data b))" by (metis length_take min.cobounded1)
      have "contents ?bp1 = drop k (contents bp)" using True b lr k by (simp add: contents_def add.commute)
      moreover have "contents ?bp1 \<noteq> []" using calculation False len True k cont by auto
      ultimately have "pipe_inv c ?bp1" using "1.prems" b k lr True by (auto simp: pipe_inv_def)
      moreover have "take k (contents bp) = ?got" using cont k by simp
      moreover have "pipeReadLoop k out bp = (?bp1, Got (out @ ?got))" unfolding run using False True by simp
      ultimately show ?thesis using \<open>contents ?bp1 = drop k (contents bp)\<close> by simp
    next
      case k: False
      let ?bp2 = "?bp1\<lparr>lastRead := 0, bufLen := bufLen ?bp1 - int (length (s_data b)), buf := bs\<rparr>"
      have got: "?got = drop (lastRead bp) (s_data b)" "length ?got < k" using k by (auto simp: min_def split: if_splits)
      have bs: "stored bs \<noteq> []" using False len cont got(1) by auto
      then have ne: "bs \<noteq> []" by auto
      have "\<exists>bp' s. pipeReadLoop (k - length ?got) (out @ ?got) ?bp2 = (bp', Got ((out @ ?got) @ s)) \<and> pipe_inv c bp'
          \<and> closeErr bp' = closeErr ?bp2 \<and> s = take (k - length ?got) (contents ?bp2) \<and> contents bp' = drop (k - length ?got) (contents ?bp2)"
        by (rule "1.IH" [OF b lr refl refl False k]) (use "1.prems" b ne in \<open>auto split: if_splits\<close>)
      moreover have "contents ?bp2 = stored bs" by (simp add: contents_def)
      moreover have "pipeReadLoop k out bp = pipeReadLoop (k - length ?got) (out @ ?got) ?bp2"
        unfolding run by (simp only: False k if_False)
      ultimately show ?thesis using cont got by auto
    qed
  qed
qed

lemma read_ok:
  assumes "pipe_inv c bp"
  shows "\<exists>bp' s. pipeReadLoop k [] bp = (bp', Got s) \<and> pipe_inv c bp' \<and> contents bp = s @ contents bp'"
proof -
  have "\<exists>bp' s. pipeReadLoop k [] bp = (bp', Got ([] @ s)) \<and> pipe_inv c bp' \<and> closeErr bp' = closeErr bp
      \<and> s = take k (contents bp) \<and> contents bp' = drop k (contents bp)"
    by (rule pipeReadLoop_ok) (use assms in \<open>auto simp: pipe_inv_def\<close>)
  then show ?thesis by (metis append_Nil append_take_drop_id)
qed

subsection \<open>The pipe is a queue\<close>

definition pipe_sys_inv :: "nat \<Rightarrow> pipe_system \<Rightarrow> bool" where
  "pipe_sys_inv c y \<longleftrightarrow> pipe_inv c (pipe y) \<and> sent y = received y @ contents (pipe y) \<and> \<not> panicked y"

lemma wrote_inv:
  assumes "pipe_sys_inv c y" "write_spec c p w (pipe y) r"
  shows "pipe_sys_inv c (wrote y i p w r)"
  using assms by (cases r) (auto simp: pipe_sys_inv_def wrote_def split: write_out.splits)

lemma got_inv:
  assumes "pipe_sys_inv c y" "r = pipeReadLoop k [] (pipe y) \<or> (\<exists>e. r = (pipe y, ReadError e)) \<or> r = (pipe y, ReadWaits)"
  shows "pipe_sys_inv c (got y i k r)"
  using assms read_ok [of c "pipe y" k] by (auto simp: pipe_sys_inv_def got_def)

lemma pipe_step_inv: "pipe_step y z \<Longrightarrow> pipe_sys_inv c y \<Longrightarrow> pipe_sys_inv c z"
proof (induction rule: pipe_step.induct)
  case (do_write i y p r)
  then have "pipe_inv c (pipe y)" by (simp add: pipe_sys_inv_def)
  then have "write_spec c p 0 (pipe y) r" using pipeWrite_ok [of c "pipe y" p 0] do_write(3) by auto
  then show ?case by (rule wrote_inv [OF do_write(4)])
next
  case (on_write i y p w r)
  then have "pipe_inv c (pipe y)" by (simp add: pipe_sys_inv_def)
  then have "write_spec c p w (pipe y) r" using pipeResumeWrite_ok [of c "pipe y" p w] on_write(3) by auto
  then show ?case by (rule wrote_inv [OF on_write(4)])
next
  case (do_read i y k)
  show ?case by (rule got_inv [OF do_read(3)]) (auto simp: pipeRead_def split: option.splits)
next
  case (on_read i y k)
  show ?case by (rule got_inv [OF on_read(3)]) (auto simp: pipeResumeRead_def)
next
  case (do_close y err)
  then show ?case by (auto simp: pipe_sys_inv_def pipe_inv_def CloseWithError_def contents_def)
qed

lemma pipe_reachable_inv: "pipe_reachable c n y \<Longrightarrow> pipe_sys_inv c y"
proof (induction rule: pipe_reachable.induct)
  case pipe_init
  then show ?case using pipe_inv_New [of c] by (simp add: pipe_sys_inv_def contents_def NewBytesPipe_def)
qed (rule pipe_step_inv)

text \<open>
  C16: The pipe is a queue.  Under every interleaving of writers, readers and closes, the bytes that
  were accepted are those that were read followed by those that are held, nothing panics, and the
  bytes held stay below the threshold plus one slice.  A writer that is woken ends or waits again; it
  makes progress when the pipe is empty and open; but above the threshold it waits again even when the
  pipe has been closed, so it never returns if nobody reads.
\<close>

theorem pipe_is_queue:
  assumes "pipe_reachable c n y"
  shows "\<not> panicked y \<and> sent y = received y @ contents (pipe y)
    \<and> int (length (contents (pipe y))) < blockThreshold + int (max maxCap (max c 64))
    \<and> (\<forall>p w. \<exists>bp out. pipeResumeWrite p w (pipe y) = Some (bp, out)
         \<and> (contents (pipe y) = [] \<and> p \<noteq> [] \<and> closeErr (pipe y) = None \<longrightarrow> contents bp \<noteq> [])
         \<and> (blockThreshold \<le> bufLen (pipe y) \<longrightarrow> bp = pipe y \<and> out = WriteWaits p w))"
proof -
  let ?bp = "pipe y"
  have inv: "pipe_inv c ?bp" "sent y = received y @ contents ?bp" "\<not> panicked y"
    using pipe_reachable_inv [OF assms] by (auto simp: pipe_sys_inv_def)
  have ne: "buf ?bp \<noteq> []" and sl: "last (buf ?bp) \<in> set (buf ?bp)" using inv(1) by (auto simp: pipe_inv_def)
  have "length (s_data (last (buf ?bp))) \<le> largest c" using inv(1) sl unfolding pipe_inv_def by (meson le_trans)
  moreover have "int (length (stored (butlast (buf ?bp)))) < blockThreshold" using inv(1) by (simp add: pipe_inv_def)
  moreover have "length (contents ?bp) \<le> length (stored (butlast (buf ?bp))) + length (s_data (last (buf ?bp)))"
    using arg_cong [OF split_last [OF ne], of length] by (simp add: contents_def)
  ultimately have bound: "int (length (contents ?bp)) < blockThreshold + int (largest c)" by linarith
  have resume: "\<exists>bp out. pipeResumeWrite p w ?bp = Some (bp, out)
      \<and> (contents ?bp = [] \<and> p \<noteq> [] \<and> closeErr ?bp = None \<longrightarrow> contents bp \<noteq> [])
      \<and> (blockThreshold \<le> bufLen ?bp \<longrightarrow> bp = ?bp \<and> out = WriteWaits p w)" for p w
  proof -
    obtain bp out where r: "pipeResumeWrite p w ?bp = Some (bp, out)" "write_spec c p w ?bp (bp, out)"
      using pipeResumeWrite_ok [OF inv(1)] by (metis surj_pair)
    have "contents bp \<noteq> []" if "contents ?bp = []" "p \<noteq> []" "closeErr ?bp = None"
    proof
      assume "contents bp = []"
      moreover have "contents bp = [] \<longrightarrow> bufLen bp = 0" using r(2) unfolding write_spec.simps pipe_inv_def by blast
      ultimately have "bufLen bp = 0" by blast
      then show False using r(2) that \<open>contents bp = []\<close> by (auto simp: blockThreshold_def split: write_out.splits)
    qed
    then show ?thesis using r(1) by (auto simp: pipeResumeWrite_def)
  qed
  show ?thesis using inv(2,3) bound resume by (simp add: largest_def)
qed

lemma big_write:
  assumes "length p = 1000001"
  shows "pipeWrite p 0 (NewBytesPipe 1000000) =
    Some (\<lparr>buf = [\<lparr>s_data = take 1000000 p, s_cap = 1000000\<rparr>], lastRead = 0, bufLen = 1000000, closeErr = None\<rparr>,
      WriteWaits (drop 1000000 p) 1000000)"
  using assms by (subst pipeWrite.simps) (simp add: NewBytesPipe_def fillLast_def blockThreshold_def)

theorem pipe_is_queue_witness:
  "\<exists>y p. pipe_reachable 1000000 1 y \<and> procs y = [PWriting p 1000000] \<and> closeErr (pipe y) = Some EOF
    \<and> pipeResumeWrite p 1000000 (pipe y) = Some (pipe y, WriteWaits p 1000000) \<and> sent y = contents (pipe y)"
proof -
  let ?p = "replicate 1000001 (CHR ''x'')"
  let ?y0 = "\<lparr>pipe = NewBytesPipe 1000000, procs = replicate 1 PIdle, sent = [], received = [], panicked = False\<rparr>"
  let ?bp = "\<lparr>buf = [\<lparr>s_data = take 1000000 ?p, s_cap = 1000000\<rparr>], lastRead = 0, bufLen = 1000000, closeErr = None\<rparr>"
  let ?y1 = "wrote ?y0 0 ?p 0 (?bp, WriteWaits (drop 1000000 ?p) 1000000)"
  let ?y2 = "?y1\<lparr>pipe := CloseWithError None (pipe ?y1)\<rparr>"
  have w: "pipeWrite ?p 0 (NewBytesPipe 1000000) = Some (?bp, WriteWaits (drop 1000000 ?p) 1000000)"
    by (rule big_write) (simp only: length_replicate)
  have "pipe_reachable 1000000 1 ?y1"
    by (rule pipe_next [OF pipe_init do_write]) (simp_all only: pipe_system.simps length_replicate w, simp_all)
  then have r: "pipe_reachable 1000000 1 ?y2" by (rule pipe_next [OF _ do_close])
  have p: "procs ?y2 = [PWriting (drop 1000000 ?p) 1000000]" "closeErr (pipe ?y2) = Some EOF" "bufLen (pipe ?y2) = 1000000" "received ?y2 = []"
    by (simp_all only: wrote_def split write_out.case pipe_system.simps CloseWithError_def bytes_pipe.simps option.case) simp_all
  have "pipeResumeWrite (drop 1000000 ?p) 1000000 (pipe ?y2) = Some (pipe ?y2, WriteWaits (drop 1000000 ?p) 1000000)
      \<and> sent ?y2 = contents (pipe ?y2)"
    using pipe_is_queue [OF r] p(3,4) by (simp only: blockThreshold_def) force
  with r p show ?thesis by blast
qed

end
