(* ===== verification/Id_Maps.thy ===== *)
theory Id_Maps
  imports Go_Strings "HOL-Library.Multiset"
begin

section \<open>Remapped users and groups (\<^verbatim>\<open>pkg/idtools\<close>)\<close>

text \<open>
  Users of a container are mapped to ranges of users of the host, which are read from
  \<^verbatim>\<open>/etc/subuid\<close> and \<^verbatim>\<open>/etc/subgid\<close>.  Integers have 64 bits and wrap around.  A file is the list of its
  lines, or the error of opening it; a nil map is \<open>None\<close>.  \<^verbatim>\<open>sort.Sort\<close> orders ranges by their start;
  ranges with the same start may come in any order in the code, here they keep theirs.
\<close>

definition wrap64 :: "int \<Rightarrow> int" where
  "wrap64 x = (x + 2 ^ 63) mod 2 ^ 64 - 2 ^ 63"

record IDMap =
  ContainerID :: int
  HostID :: int
  Size :: int

record subIDRange =
  Start :: int
  Length :: int

datatype id_error =
    OpenFailed string
  | BadFormat
  | BadNumber num_error
  | NoRanges string
  | HostNotMapped int
  | ContainerNotMapped int
  | LookupFailed string
  | MaximumReached

definition hostEnd :: "IDMap \<Rightarrow> int" where
  "hostEnd m = wrap64 (wrap64 (HostID m + Size m) - 1)"

definition containerEnd :: "IDMap \<Rightarrow> int" where
  "containerEnd m = wrap64 (wrap64 (ContainerID m + Size m) - 1)"

fun toContainerLoop :: "int \<Rightarrow> IDMap list \<Rightarrow> (id_error, int) result" where
  "toContainerLoop h [] = Inl (HostNotMapped h)"
| "toContainerLoop h (m # ms) =
     (if h \<ge> HostID m \<and> h \<le> hostEnd m then Inr (wrap64 (ContainerID m + wrap64 (h - HostID m)))
      else toContainerLoop h ms)"

definition ToContainer :: "int \<Rightarrow> IDMap list option \<Rightarrow> (id_error, int) result" where
  "ToContainer h idMap = (case idMap of None \<Rightarrow> Inr h | Some ms \<Rightarrow> toContainerLoop h ms)"

fun toHostLoop :: "int \<Rightarrow> IDMap list \<Rightarrow> (id_error, int) result" where
  "toHostLoop c [] = Inl (ContainerNotMapped c)"
| "toHostLoop c (m # ms) =
     (if c \<ge> ContainerID m \<and> c \<le> containerEnd m then Inr (wrap64 (HostID m + wrap64 (c - ContainerID m)))
      else toHostLoop c ms)"

definition ToHost :: "int \<Rightarrow> IDMap list option \<Rightarrow> (id_error, int) result" where
  "ToHost c idMap = (case idMap of None \<Rightarrow> Inr c | Some ms \<Rightarrow> toHostLoop c ms)"

definition GetRootUIDGID :: "IDMap list option \<Rightarrow> IDMap list option \<Rightarrow> (id_error, int \<times> int) result" where
  "GetRootUIDGID uidMap gidMap =
     (case (if uidMap = None then Inr 0 else ToHost 0 uidMap) of
        Inl e \<Rightarrow> Inl e
      | Inr uid \<Rightarrow>
          (case (if gidMap = None then Inr 0 else ToHost 0 gidMap) of Inl e \<Rightarrow> Inl e | Inr gid \<Rightarrow> Inr (uid, gid)))"

fun idMapLoop :: "int \<Rightarrow> subIDRange list \<Rightarrow> IDMap list" where
  "idMapLoop containerID [] = []"
| "idMapLoop containerID (r # rs) =
     \<lparr>ContainerID = containerID, HostID = Start r, Size = Length r\<rparr> # idMapLoop (wrap64 (containerID + Length r)) rs"

definition createIDMap :: "subIDRange list \<Rightarrow> IDMap list" where
  "createIDMap rs = idMapLoop 0 (sort_key Start rs)"

fun subidLoop :: "string \<Rightarrow> subIDRange list \<Rightarrow> string list \<Rightarrow> (id_error, subIDRange list) result" where
  "subidLoop username acc [] = Inr acc"
| "subidLoop username acc (l # ls) =
     (let t = trim_space l in
      if t = [] then subidLoop username acc ls
      else case split CHR '':'' t of
        [u, s, n] \<Rightarrow>
          if u = username then
            (case atoi s of
               (_, Some e) \<Rightarrow> Inl (BadNumber e)
             | (startid, None) \<Rightarrow>
                 (case atoi n of
                    (_, Some e) \<Rightarrow> Inl (BadNumber e)
                  | (len, None) \<Rightarrow> subidLoop username (acc @ [\<lparr>Start = startid, Length = len\<rparr>]) ls))
          else subidLoop username acc ls
      | _ \<Rightarrow> Inl BadFormat)"

definition parseSubidFile :: "string + string list \<Rightarrow> string \<Rightarrow> (id_error, subIDRange list) result" where
  "parseSubidFile content username = (case content of Inl e \<Rightarrow> Inl (OpenFailed e) | Inr ls \<Rightarrow> subidLoop username [] ls)"

definition CreateIDMappings ::
  "string + string list \<Rightarrow> string + string list \<Rightarrow> string \<Rightarrow> string \<Rightarrow> (id_error, IDMap list \<times> IDMap list) result" where
  "CreateIDMappings subuid subgid username groupname =
     (case parseSubidFile subuid username of
        Inl e \<Rightarrow> Inl e
      | Inr us \<Rightarrow>
          (case parseSubidFile subgid groupname of
             Inl e \<Rightarrow> Inl e
           | Inr gs \<Rightarrow>
               if us = [] then Inl (NoRanges username)
               else if gs = [] then Inl (NoRanges groupname)
               else Inr (createIDMap us, createIDMap gs)))"

subsection \<open>A free number for a new user (\<^verbatim>\<open>usergroupadd_linux.go\<close>)\<close>

definition idMAX :: int where
  "idMAX = 65534"

text \<open>The search in the user database answers whether a number is used, or fails.\<close>

function findUnused :: "(int \<Rightarrow> (string, bool) result) \<Rightarrow> int \<Rightarrow> (id_error, int) result" where
  "findUnused used i =
     (case used i of
        Inl e \<Rightarrow> Inl (LookupFailed e)
      | Inr False \<Rightarrow> Inr i
      | Inr True \<Rightarrow> if i + 1 > idMAX then Inl MaximumReached else findUnused used (i + 1))"
  by pat_completeness auto
termination by (relation "measure (\<lambda>(_, i). nat (idMAX - i))") (auto simp: idMAX_def)

declare findUnused.simps [simp del]

subsection \<open>The maps are inverse to each other\<close>

lemma wrap64_id [simp]: "- (2 ^ 63) \<le> x \<Longrightarrow> x < 2 ^ 63 \<Longrightarrow> wrap64 x = x"
  by (simp add: wrap64_def)

definition covers :: "subIDRange \<Rightarrow> int \<Rightarrow> bool" where
  "covers r h \<longleftrightarrow> Start r \<le> h \<and> h < Start r + Length r"

definition total :: "subIDRange list \<Rightarrow> int" where
  "total rs = sum_list (map Length rs)"

definition proper :: "subIDRange \<Rightarrow> bool" where
  "proper r \<longleftrightarrow> 0 \<le> Start r \<and> 0 < Length r \<and> Start r + Length r < 2 ^ 63"

text \<open>Ranges that do not overlap, and whose sizes do not overflow.\<close>

definition disjoint_ranges :: "subIDRange list \<Rightarrow> bool" where
  "disjoint_ranges rs \<longleftrightarrow> distinct rs \<and> (\<forall>r \<in> set rs. proper r)
     \<and> (\<forall>r \<in> set rs. \<forall>s \<in> set rs. r \<noteq> s \<longrightarrow> (\<forall>h. \<not> (covers r h \<and> covers s h))) \<and> total rs < 2 ^ 63"

lemma total_nonneg: "\<forall>r \<in> set rs. proper r \<Longrightarrow> 0 \<le> total rs"
  by (induction rs) (auto simp: total_def proper_def)

lemma total_Cons [simp]: "total (r # rs) = Length r + total rs" "total [] = 0"
  by (simp_all add: total_def)

lemma disjoint_tail: "disjoint_ranges (r # rs) \<Longrightarrow> disjoint_ranges rs"
  by (auto simp: disjoint_ranges_def proper_def)

lemma disjoint_sort [simp]: "disjoint_ranges (sort_key f rs) = disjoint_ranges rs"
proof -
  have "mset (sort_key f rs) = mset rs" by simp
  then have "total (sort_key f rs) = total rs" unfolding total_def by (metis mset_map sum_mset_sum_list)
  then show ?thesis by (simp add: disjoint_ranges_def)
qed

text \<open>The first entry of a map.\<close>

lemma entry_bounds:
  assumes "proper r" "0 \<le> cid" "cid + Length r < 2 ^ 63"
  defines "m \<equiv> \<lparr>ContainerID = cid, HostID = Start r, Size = Length r\<rparr>"
  shows "hostEnd m = Start r + Length r - 1" "containerEnd m = cid + Length r - 1"
    "HostID m \<le> h \<Longrightarrow> h \<le> hostEnd m \<Longrightarrow> wrap64 (ContainerID m + wrap64 (h - HostID m)) = cid + (h - Start r)"
    "ContainerID m \<le> c \<Longrightarrow> c \<le> containerEnd m \<Longrightarrow> wrap64 (HostID m + wrap64 (c - ContainerID m)) = Start r + (c - cid)"
  using assms by (auto simp: proper_def hostEnd_def containerEnd_def)

lemma loops_step:
  assumes "proper r" "0 \<le> cid" "cid + total (r # rs) < 2 ^ 63" "\<forall>s \<in> set rs. proper s"
  shows "toHostLoop c (idMapLoop cid (r # rs)) =
      (if cid \<le> c \<and> c < cid + Length r then Inr (Start r + (c - cid)) else toHostLoop c (idMapLoop (cid + Length r) rs))"
    and "toContainerLoop h (idMapLoop cid (r # rs)) =
      (if covers r h then Inr (cid + (h - Start r)) else toContainerLoop h (idMapLoop (cid + Length r) rs))"
proof -
  have l: "cid + Length r < 2 ^ 63" using assms(3) total_nonneg [OF assms(4)] by simp
  have w: "wrap64 (cid + Length r) = cid + Length r" using assms(1,2) l by (simp add: proper_def)
  note e = entry_bounds [OF assms(1,2) l]
  show "toHostLoop c (idMapLoop cid (r # rs)) =
      (if cid \<le> c \<and> c < cid + Length r then Inr (Start r + (c - cid)) else toHostLoop c (idMapLoop (cid + Length r) rs))"
    using e(2) e(4) [of c] by (auto simp: w)
  show "toContainerLoop h (idMapLoop cid (r # rs)) =
      (if covers r h then Inr (cid + (h - Start r)) else toContainerLoop h (idMapLoop (cid + Length r) rs))"
    using e(1) e(3) [of h] by (auto simp: w covers_def)
qed

lemma loops_setup:
  assumes "disjoint_ranges (r # rs)" "0 \<le> cid" "cid + total (r # rs) < 2 ^ 63"
  shows "proper r" "\<forall>s \<in> set rs. proper s" "0 \<le> cid + Length r" "cid + Length r + total rs < 2 ^ 63" "0 < Length r"
    "\<And>s x. s \<in> set rs \<Longrightarrow> covers s x \<Longrightarrow> \<not> covers r x"
proof -
  show "proper r" "\<forall>s \<in> set rs. proper s" using assms(1) by (auto simp: disjoint_ranges_def)
  then show "0 < Length r" "0 \<le> cid + Length r" using assms(2) by (auto simp: proper_def)
  show "cid + Length r + total rs < 2 ^ 63" using assms(3) by simp
  show "\<not> covers r x" if "s \<in> set rs" "covers s x" for s x
  proof
    assume "covers r x"
    moreover have "s \<noteq> r" using assms(1) that(1) by (auto simp: disjoint_ranges_def)
    ultimately show False using assms(1) that unfolding disjoint_ranges_def by (meson list.set_intros)
  qed
qed

lemma toHost_mapped:
  assumes "disjoint_ranges rs" "0 \<le> cid" "cid + total rs < 2 ^ 63" "cid \<le> c" "c < cid + total rs"
  shows "\<exists>h. toHostLoop c (idMapLoop cid rs) = Inr h \<and> (\<exists>r \<in> set rs. covers r h) \<and> toContainerLoop h (idMapLoop cid rs) = Inr c"
  using assms
proof (induction rs arbitrary: cid)
  case (Cons r rs)
  note u = loops_setup [OF Cons.prems(1-3)]
  note step = loops_step [OF u(1) Cons.prems(2,3) u(2)]
  show ?case
  proof (cases "c < cid + Length r")
    case True
    then have "covers r (Start r + (c - cid))" using Cons.prems(4) by (simp add: covers_def)
    then show ?thesis unfolding step using True Cons.prems(4) by auto
  next
    case False
    then obtain h where h: "toHostLoop c (idMapLoop (cid + Length r) rs) = Inr h" "\<exists>s \<in> set rs. covers s h"
        "toContainerLoop h (idMapLoop (cid + Length r) rs) = Inr c"
      using Cons.IH [OF disjoint_tail [OF Cons.prems(1)] u(3,4)] Cons.prems(5) by auto
    then have "\<not> covers r h" using u(6) by blast
    then show ?thesis unfolding step using h False by auto
  qed
qed simp

lemma toContainer_mapped:
  assumes "disjoint_ranges rs" "0 \<le> cid" "cid + total rs < 2 ^ 63" "s \<in> set rs" "covers s h"
  shows "\<exists>c. toContainerLoop h (idMapLoop cid rs) = Inr c \<and> cid \<le> c \<and> c < cid + total rs \<and> toHostLoop c (idMapLoop cid rs) = Inr h"
  using assms
proof (induction rs arbitrary: cid)
  case (Cons r rs)
  note u = loops_setup [OF Cons.prems(1-3)]
  note step = loops_step [OF u(1) Cons.prems(2,3) u(2)]
  note tot = total_nonneg [OF u(2)]
  show ?case
  proof (cases "covers r h")
    case True
    then show ?thesis unfolding step using tot by (auto simp: covers_def)
  next
    case False
    then obtain c where c: "toContainerLoop h (idMapLoop (cid + Length r) rs) = Inr c" "cid + Length r \<le> c"
        "c < cid + Length r + total rs" "toHostLoop c (idMapLoop (cid + Length r) rs) = Inr h"
      using Cons.IH [OF disjoint_tail [OF Cons.prems(1)] u(3,4)] Cons.prems(4,5) by auto
    then show ?thesis unfolding step using False u(5) by auto
  qed
qed simp

lemma not_mapped:
  assumes "disjoint_ranges rs" "0 \<le> cid" "cid + total rs < 2 ^ 63"
  shows "\<not> (cid \<le> c \<and> c < cid + total rs) \<Longrightarrow> toHostLoop c (idMapLoop cid rs) = Inl (ContainerNotMapped c)"
    and "\<forall>s \<in> set rs. \<not> covers s h \<Longrightarrow> toContainerLoop h (idMapLoop cid rs) = Inl (HostNotMapped h)"
  using assms
proof (induction rs arbitrary: cid)
  case (Cons r rs)
  {
    case 1
    note u = loops_setup [OF 1(2-4)] and step = loops_step [OF _ 1(3,4)]
    have "toHostLoop c (idMapLoop (cid + Length r) rs) = Inl (ContainerNotMapped c)"
      by (rule Cons.IH(1) [OF _ disjoint_tail [OF 1(2)] u(3,4)]) (use 1(1) u(5) in auto)
    moreover have "\<not> (cid \<le> c \<and> c < cid + Length r)" using 1(1) total_nonneg [OF u(2)] by auto
    ultimately show ?case using step(1) [OF u(1,2)] by simp
  next
    case 2
    note u = loops_setup [OF 2(2-4)] and step = loops_step [OF _ 2(3,4)]
    have "toContainerLoop h (idMapLoop (cid + Length r) rs) = Inl (HostNotMapped h)"
      by (rule Cons.IH(2) [OF _ disjoint_tail [OF 2(2)] u(3,4)]) (use 2(1) in auto)
    then show ?case using step(2) [OF u(1,2)] 2(1) by simp
  }
qed simp_all

lemma total_sort [simp]: "total (sort_key f rs) = total rs"
proof -
  have "mset (sort_key f rs) = mset rs" by simp
  then show ?thesis unfolding total_def by (metis mset_map sum_mset_sum_list)
qed

text \<open>
  The maps of users between host and container are inverse to each other.  With ranges that do not
  overlap, the users of the container are exactly the numbers below the sum of the sizes; each is
  mapped to a user inside a range and back, each user inside a range is mapped to a user of the
  container and back, everything else is refused, and root is mapped to the lowest start of a range.
\<close>

theorem id_maps_inverse:
  assumes "disjoint_ranges rs" "rs \<noteq> []"
  defines "m \<equiv> Some (createIDMap rs)"
  shows "(\<forall>c. 0 \<le> c \<and> c < total rs \<longrightarrow> (\<exists>h. ToHost c m = Inr h \<and> (\<exists>r \<in> set rs. covers r h) \<and> ToContainer h m = Inr c))
    \<and> (\<forall>h. (\<exists>r \<in> set rs. covers r h) \<longrightarrow> (\<exists>c. ToContainer h m = Inr c \<and> 0 \<le> c \<and> c < total rs \<and> ToHost c m = Inr h))
    \<and> (\<forall>c. \<not> (0 \<le> c \<and> c < total rs) \<longrightarrow> ToHost c m = Inl (ContainerNotMapped c))
    \<and> (\<forall>h. \<not> (\<exists>r \<in> set rs. covers r h) \<longrightarrow> ToContainer h m = Inl (HostNotMapped h))
    \<and> ToHost 0 m = Inr (Min (Start ` set rs))"
proof -
  let ?rs = "sort_key Start rs"
  have d: "disjoint_ranges ?rs" "0 \<le> (0::int)" "0 + total ?rs < 2 ^ 63" using assms(1) by (simp_all add: disjoint_ranges_def)
  note host = toHost_mapped [OF d] and cont = toContainer_mapped [OF d] and un = not_mapped [OF d]
  obtain r ss where r: "?rs = r # ss" using assms(2) by (cases ?rs) (auto dest: arg_cong [of _ _ set])
  have "Start r \<le> Start s" if "s \<in> set rs" for s
    using that sorted_sort_key [of Start rs] set_sort [of Start rs] unfolding r by auto
  moreover have "r \<in> set rs" using set_sort [of Start rs] r by auto
  ultimately have min: "Min (Start ` set rs) = Start r" by (intro Min_eqI) auto
  have root: "toHostLoop 0 (idMapLoop 0 ?rs) = Inr (Start r)"
    using loops_step(1) [OF _ d(2), of r ss 0] loops_setup [OF d(1) [unfolded r] d(2) d(3) [unfolded r]] d(3) r by simp
  show ?thesis
    unfolding m_def ToHost_def ToContainer_def createIDMap_def option.case min
  proof (intro conjI allI impI)
    fix c :: int
    assume "0 \<le> c \<and> c < total rs"
    then show "\<exists>h. toHostLoop c (idMapLoop 0 ?rs) = Inr h \<and> (\<exists>r \<in> set rs. covers r h) \<and> toContainerLoop h (idMapLoop 0 ?rs) = Inr c"
      using host [of c] by simp
  next
    fix h assume "\<exists>r \<in> set rs. covers r h"
    then show "\<exists>c. toContainerLoop h (idMapLoop 0 ?rs) = Inr c \<and> 0 \<le> c \<and> c < total rs \<and> toHostLoop c (idMapLoop 0 ?rs) = Inr h"
      using cont [of _ h] by auto
  qed (use un root in auto)
qed

theorem id_maps_inverse_witness:
  "\<exists>m g. CreateIDMappings (Inr [''u:9:2'', ''v:1:1'', ''u:5:3'']) (Inr [''g:5:1'']) ''u'' ''g'' = Inr (m, g)
     \<and> ToHost 0 (Some m) = Inr 5 \<and> ToHost 5 (Some m) = Inl (ContainerNotMapped 5)"
proof -
  let ?rs = "[\<lparr>Start = 9, Length = 2\<rparr>, \<lparr>Start = 5, Length = 3\<rparr>]"
  have i: "itoa 9 = ''9''" "itoa 2 = ''2''" "itoa 5 = ''5''" "itoa 3 = ''3''" "itoa 1 = ''1''" by code_simp+
  have n: "atoi ''9'' = (9, None)" "atoi ''2'' = (2, None)" "atoi ''5'' = (5, None)" "atoi ''3'' = (3, None)" "atoi ''1'' = (1, None)"
    using atoi_itoa [of 9] atoi_itoa [of 2] atoi_itoa [of 5] atoi_itoa [of 3] atoi_itoa [of 1] by (simp_all add: i)
  have t: "map trim_space [''u:9:2'', ''v:1:1'', ''u:5:3'', ''g:5:1''] = [''u:9:2'', ''v:1:1'', ''u:5:3'', ''g:5:1'']" by code_simp
  have "CreateIDMappings (Inr [''u:9:2'', ''v:1:1'', ''u:5:3'']) (Inr [''g:5:1'']) ''u'' ''g'' =
      Inr (createIDMap ?rs, createIDMap [\<lparr>Start = 5, Length = 1\<rparr>])"
    using t by (simp add: CreateIDMappings_def parseSubidFile_def n)
  moreover have d: "disjoint_ranges ?rs" by (auto simp: disjoint_ranges_def proper_def covers_def)
  have inv: "ToHost 0 (Some (createIDMap ?rs)) = Inr (Min (Start ` set ?rs))"
      "\<not> (0 \<le> c \<and> c < total ?rs) \<longrightarrow> ToHost c (Some (createIDMap ?rs)) = Inl (ContainerNotMapped c)" for c
    using id_maps_inverse [OF d] by blast+
  have "ToHost 0 (Some (createIDMap ?rs)) = Inr 5" "ToHost 5 (Some (createIDMap ?rs)) = Inl (ContainerNotMapped 5)"
    using inv(1) inv(2) [of 5] by simp_all
  ultimately show ?thesis by blast
qed

subsection \<open>The search for a number\<close>

lemma find_unused_least:
  assumes "\<forall>k. \<exists>b. used k = Inr b"
  shows "(case findUnused used i of
      Inr k \<Rightarrow> i \<le> k \<and> k \<le> max i idMAX \<and> used k = Inr False \<and> (\<forall>j. i \<le> j \<and> j < k \<longrightarrow> used j = Inr True)
    | Inl e \<Rightarrow> e = MaximumReached \<and> (\<forall>j. i \<le> j \<and> j \<le> max i idMAX \<longrightarrow> used j = Inr True))"
  using assms
proof (induction used i rule: findUnused.induct)
  case (1 used i)
  obtain b where b: "used i = Inr b" using 1(2) by blast
  show ?case
  proof (cases b)
    case False
    then show ?thesis using b by (subst findUnused.simps) auto
  next
    case True
    show ?thesis
    proof (cases "i + 1 > idMAX")
      case max: True
      then show ?thesis using b True by (subst findUnused.simps) (auto simp: max_def)
    next
      case False
      have run: "findUnused used i = findUnused used (i + 1)" using b True False by (subst findUnused.simps) simp
      have m: "max (i + 1) idMAX = idMAX" "max i idMAX = idMAX" using False by auto
      have less: "(\<forall>j. i \<le> j \<and> P j \<longrightarrow> used j = Inr True) \<longleftrightarrow> (\<forall>j. i + 1 \<le> j \<and> P j \<longrightarrow> used j = Inr True)" for P
      proof -
        have i: "i \<le> j \<longleftrightarrow> j = i \<or> i + 1 \<le> j" for j :: int by linarith
        have "used i = Inr True" using b True by simp
        then show ?thesis unfolding i by blast
      qed
      have IH: "case findUnused used (i + 1) of
          Inr k \<Rightarrow> i + 1 \<le> k \<and> k \<le> idMAX \<and> used k = Inr False \<and> (\<forall>j. i + 1 \<le> j \<and> j < k \<longrightarrow> used j = Inr True)
        | Inl e \<Rightarrow> e = MaximumReached \<and> (\<forall>j. i + 1 \<le> j \<and> j \<le> idMAX \<longrightarrow> used j = Inr True)"
        using 1(1) [OF b _ False 1(2), unfolded m(1)] True by simp
      then show ?thesis unfolding run m less by (cases "findUnused used (i + 1)") auto
    qed
  qed
qed

end
