(* ===== verification/Trunc_Index.thy ===== *)
theory Trunc_Index
  imports Go_Strings
begin

section \<open>Identifiers by unique prefix (\<^verbatim>\<open>pkg/truncindex/truncindex.go\<close>)\<close>

text \<open>
  \<^verbatim>\<open>TruncIndex\<close> pairs a set of identifiers with a trie of the vendored package
  \<^verbatim>\<open>go-patricia\<close>.  The trie is an argument: \<open>trie_ok\<close> states what that package documents of
  it, over the set of keys it holds.  Every method runs under the mutex of the index.  The invariant
  ties the keys of the trie to the set; from it follows which prefixes \<^verbatim>\<open>Get\<close> resolves.
\<close>

text \<open>\<^verbatim>\<open>stringid.TruncateID\<close>: the prefix of an identifier that is shown to the user.\<close>

definition TruncateID :: "string \<Rightarrow> string" where
  "TruncateID i = take 12 (if CHR '':'' \<in> set i then after CHR '':'' i else i)"

datatype trunc_error =
    ErrEmptyPrefix
  | ErrAmbiguousPrefix
  | ErrIllegalChar
  | ErrNotExist
  | IdExists string
  | InsertFailed string
  | NoSuchId string

text \<open>
  The methods of a trie that the index calls.  \<open>t_VisitSubtree\<close> lists the keys under a prefix in the
  order in which the visitor is called on them.
\<close>

record 't trie_api =
  t_New :: 't
  t_Insert :: "'t \<Rightarrow> string \<Rightarrow> 't \<times> bool"
  t_Delete :: "'t \<Rightarrow> string \<Rightarrow> 't \<times> bool"
  t_VisitSubtree :: "'t \<Rightarrow> string \<Rightarrow> string list"

record 't TruncIndex =
  trie :: 't
  ids :: "(string, unit) gomap"

definition addID :: "'t trie_api \<Rightarrow> 't TruncIndex \<Rightarrow> string \<Rightarrow> 't TruncIndex \<times> trunc_error option" where
  "addID T x i =
     (if contains i '' '' then (x, Some ErrIllegalChar)
      else if i = [] then (x, Some ErrEmptyPrefix)
      else if mget (ids x) i \<noteq> None then (x, Some (IdExists i))
      else
        let (t, inserted) = t_Insert T (trie x) i in
        (x\<lparr>ids := mput i () (ids x), trie := t\<rparr>, if inserted then None else Some (InsertFailed i)))"

definition NewTruncIndex :: "'t trie_api \<Rightarrow> string list \<Rightarrow> 't TruncIndex" where
  "NewTruncIndex T is = foldl (\<lambda>x i. fst (addID T x i)) \<lparr>trie = t_New T, ids = []\<rparr> is"

definition ti_Add :: "'t trie_api \<Rightarrow> 't TruncIndex \<Rightarrow> string \<Rightarrow> 't TruncIndex \<times> trunc_error option" where
  "ti_Add T x i = addID T x i"

definition ti_Delete :: "'t trie_api \<Rightarrow> 't TruncIndex \<Rightarrow> string \<Rightarrow> 't TruncIndex \<times> trunc_error option" where
  "ti_Delete T x i =
     (if mget (ids x) i = None \<or> i = [] then (x, Some (NoSuchId i))
      else
        let (t, deleted) = t_Delete T (trie x) i in
        (x\<lparr>ids := mdel i (ids x), trie := t\<rparr>, if deleted then None else Some (NoSuchId i)))"

text \<open>The visitor of \<^verbatim>\<open>Get\<close> remembers the first key and fails on the second.\<close>

fun subTreeVisit :: "string \<Rightarrow> string list \<Rightarrow> (trunc_error, string) result" where
  "subTreeVisit found [] = Inr found"
| "subTreeVisit found (k # ks) = (if found \<noteq> [] then Inl ErrAmbiguousPrefix else subTreeVisit k ks)"

definition ti_Get :: "'t trie_api \<Rightarrow> 't TruncIndex \<Rightarrow> string \<Rightarrow> (trunc_error, string) result" where
  "ti_Get T x s =
     (if s = [] then Inl ErrEmptyPrefix
      else case subTreeVisit [] (t_VisitSubtree T (trie x) s) of
          Inl e \<Rightarrow> Inl e
        | Inr i \<Rightarrow> if i \<noteq> [] then Inr i else Inl ErrNotExist)"

datatype trunc_op = TAdd string | TDelete string

fun trunc_step :: "'t trie_api \<Rightarrow> 't TruncIndex \<Rightarrow> trunc_op \<Rightarrow> 't TruncIndex" where
  "trunc_step T x (TAdd i) = fst (ti_Add T x i)"
| "trunc_step T x (TDelete i) = fst (ti_Delete T x i)"

subsection \<open>What the trie promises\<close>

definition trie_ok :: "'t trie_api \<Rightarrow> ('t \<Rightarrow> string set) \<Rightarrow> bool" where
  "trie_ok T keys \<longleftrightarrow>
     keys (t_New T) = {} \<and>
     (\<forall>t k. k \<noteq> [] \<longrightarrow> keys (fst (t_Insert T t k)) = insert k (keys t) \<and> (snd (t_Insert T t k) \<longleftrightarrow> k \<notin> keys t)) \<and>
     (\<forall>t k. k \<in> keys t \<longrightarrow> keys (fst (t_Delete T t k)) = keys t - {k} \<and> snd (t_Delete T t k)) \<and>
     (\<forall>t p. p \<noteq> [] \<longrightarrow> distinct (t_VisitSubtree T t p) \<and> set (t_VisitSubtree T t p) = {k \<in> keys t. has_prefix k p})"

lemma trie_okD:
  assumes "trie_ok T keys"
  shows "keys (t_New T) = {}"
    and "k \<noteq> [] \<Longrightarrow> keys (fst (t_Insert T t k)) = insert k (keys t)"
    and "k \<noteq> [] \<Longrightarrow> snd (t_Insert T t k) \<longleftrightarrow> k \<notin> keys t"
    and "k \<in> keys t \<Longrightarrow> keys (fst (t_Delete T t k)) = keys t - {k}"
    and "k \<in> keys t \<Longrightarrow> snd (t_Delete T t k)"
    and "p \<noteq> [] \<Longrightarrow> distinct (t_VisitSubtree T t p)"
    and "p \<noteq> [] \<Longrightarrow> set (t_VisitSubtree T t p) = {k \<in> keys t. has_prefix k p}"
  using assms by (simp_all add: trie_ok_def)

text \<open>A list of keys is such a trie.\<close>

definition list_trie :: "string list trie_api" where
  "list_trie =
     \<lparr>t_New = [], t_Insert = (\<lambda>t k. if k \<in> set t then (t, False) else (k # t, True)),
      t_Delete = (\<lambda>t k. (filter (\<lambda>x. x \<noteq> k) t, k \<in> set t)),
      t_VisitSubtree = (\<lambda>t p. remdups (filter (\<lambda>k. has_prefix k p) t))\<rparr>"

lemma list_trie_ok: "trie_ok list_trie set"
  by (auto simp: trie_ok_def list_trie_def)

subsection \<open>The invariant\<close>

definition trunc_ids :: "'t TruncIndex \<Rightarrow> string set" where
  "trunc_ids x = set (mkeys (ids x))"

definition trunc_inv :: "('t \<Rightarrow> string set) \<Rightarrow> 't TruncIndex \<Rightarrow> bool" where
  "trunc_inv keys x \<longleftrightarrow> keys (trie x) = trunc_ids x \<and> [] \<notin> trunc_ids x"

lemma mem_trunc_ids: "i \<in> trunc_ids x \<longleftrightarrow> mget (ids x) i \<noteq> None"
  by (metis trunc_ids_def map_of_eq_None_iff list.set_map)

lemma trunc_ids_Add:
  "trunc_ids (fst (ti_Add T x i)) = (if contains i '' '' \<or> i = [] then trunc_ids x else insert i (trunc_ids x))"
  by (auto simp: ti_Add_def addID_def mem_trunc_ids Let_def split: prod.splits if_splits)

lemma trunc_ids_Delete: "[] \<notin> trunc_ids x \<Longrightarrow> trunc_ids (fst (ti_Delete T x i)) = trunc_ids x - {i}"
  by (auto simp: ti_Delete_def mem_trunc_ids Let_def split: prod.splits if_splits)

lemma trunc_inv_Add:
  assumes "trie_ok T keys" "trunc_inv keys x"
  shows "trunc_inv keys (fst (ti_Add T x i))"
proof (cases "contains i '' '' \<or> i = [] \<or> mget (ids x) i \<noteq> None")
  case True
  then have "fst (ti_Add T x i) = x" by (auto simp: ti_Add_def addID_def)
  then show ?thesis using assms(2) by simp
next
  case False
  then have "trie (fst (ti_Add T x i)) = fst (t_Insert T (trie x) i)"
    by (simp add: ti_Add_def addID_def Let_def split: prod.splits)
  then show ?thesis
    using False assms trunc_ids_Add [of T x i] by (auto simp: trunc_inv_def trie_okD(2))
qed

lemma trunc_inv_Delete:
  assumes "trie_ok T keys" "trunc_inv keys x"
  shows "trunc_inv keys (fst (ti_Delete T x i))"
proof (cases "i \<in> trunc_ids x")
  case True
  then have "i \<noteq> []" using assms(2) by (auto simp: trunc_inv_def)
  then have "trie (fst (ti_Delete T x i)) = fst (t_Delete T (trie x) i)"
    using True by (simp add: ti_Delete_def mem_trunc_ids Let_def split: prod.splits)
  then show ?thesis
    using True assms trunc_ids_Delete [of x T i] by (simp add: trunc_inv_def trie_okD(4))
next
  case False
  then have "fst (ti_Delete T x i) = x" by (simp add: ti_Delete_def mem_trunc_ids)
  then show ?thesis using assms(2) by simp
qed

lemma trunc_inv_New:
  assumes "trie_ok T keys"
  shows "trunc_inv keys (NewTruncIndex T is)"
proof -
  have "trunc_inv keys (foldl (\<lambda>x i. fst (addID T x i)) x is)" if "trunc_inv keys x" for x
    using that by (induction "is" arbitrary: x) (simp_all add: trunc_inv_Add [OF assms, unfolded ti_Add_def])
  then show ?thesis by (simp add: NewTruncIndex_def trunc_inv_def trunc_ids_def trie_okD(1) [OF assms])
qed

lemma trunc_inv_run:
  assumes "trie_ok T keys" "trunc_inv keys x"
  shows "trunc_inv keys (foldl (trunc_step T) x ops)"
  using assms(2)
proof (induction ops arbitrary: x)
  case (Cons op ops)
  then show ?case
    by (cases op) (simp_all add: trunc_inv_Add [OF assms(1)] trunc_inv_Delete [OF assms(1)])
qed simp

subsection \<open>What a prefix finds\<close>

lemma subTreeVisit_cases:
  assumes "[] \<notin> set ks"
  shows "subTreeVisit [] ks = (case ks of [] \<Rightarrow> Inr [] | [k] \<Rightarrow> Inr k | _ \<Rightarrow> Inl ErrAmbiguousPrefix)"
  using assms by (auto split: list.splits)

lemma two_members: "distinct ks \<Longrightarrow> (\<exists>a b. a \<noteq> b \<and> a \<in> set ks \<and> b \<in> set ks) \<longleftrightarrow> 2 \<le> length ks"
  using card_le_Suc0_iff_eq [of "set ks"] distinct_card [of ks]
  by (metis List.finite_set not_less_eq_eq numeral_2_eq_2)

lemma ti_Get_found:
  assumes "trie_ok T keys" "trunc_inv keys x" "p \<noteq> []"
  shows "ti_Get T x p = Inr i \<longleftrightarrow> {k \<in> trunc_ids x. has_prefix k p} = {i}"
    and "ti_Get T x p = Inl ErrNotExist \<longleftrightarrow> {k \<in> trunc_ids x. has_prefix k p} = {}"
    and "ti_Get T x p = Inl ErrAmbiguousPrefix \<longleftrightarrow>
      (\<exists>a b. a \<noteq> b \<and> a \<in> trunc_ids x \<and> b \<in> trunc_ids x \<and> has_prefix a p \<and> has_prefix b p)"
proof -
  define ks where "ks = t_VisitSubtree T (trie x) p"
  have ks: "set ks = {k \<in> trunc_ids x. has_prefix k p}" "distinct ks"
    using trie_okD(6,7) [OF assms(1,3), of "trie x"] assms(2) by (simp_all add: ks_def trunc_inv_def)
  have ne: "[] \<notin> set ks" using ks(1) assms(2) by (simp add: trunc_inv_def)
  have get: "ti_Get T x p = (case ks of [] \<Rightarrow> Inl ErrNotExist | [k] \<Rightarrow> Inr k | _ \<Rightarrow> Inl ErrAmbiguousPrefix)"
    using assms(3) ne by (auto simp: ti_Get_def ks_def [symmetric] subTreeVisit_cases split: list.splits)
  show "ti_Get T x p = Inr i \<longleftrightarrow> {k \<in> trunc_ids x. has_prefix k p} = {i}"
    unfolding get ks(1) [symmetric] using ks(2) by (auto split: list.splits)
  show "ti_Get T x p = Inl ErrNotExist \<longleftrightarrow> {k \<in> trunc_ids x. has_prefix k p} = {}"
    unfolding get ks(1) [symmetric] by (auto split: list.splits)
  have "ti_Get T x p = Inl ErrAmbiguousPrefix \<longleftrightarrow> (\<exists>a b. a \<noteq> b \<and> a \<in> set ks \<and> b \<in> set ks)"
    unfolding get two_members [OF ks(2)] by (auto split: list.splits)
  then show "ti_Get T x p = Inl ErrAmbiguousPrefix \<longleftrightarrow>
      (\<exists>a b. a \<noteq> b \<and> a \<in> trunc_ids x \<and> b \<in> trunc_ids x \<and> has_prefix a p \<and> has_prefix b p)"
    unfolding ks(1) by blast
qed

lemma has_prefix_self: "has_prefix s s"
  by (simp add: has_prefix_def)

text \<open>
  A full identifier resolves to itself unless it is a proper prefix of another one; identifiers of
  equal length are never that.
\<close>

lemma ti_Get_self:
  assumes "trie_ok T keys" "trunc_inv keys x" "i \<in> trunc_ids x" "\<forall>k \<in> trunc_ids x. length k = length i"
  shows "ti_Get T x i = Inr i"
proof -
  have "k = i" if "k \<in> trunc_ids x" "has_prefix k i" for k
    using that assms(4) by (simp add: has_prefix_def)
  then have "{k \<in> trunc_ids x. has_prefix k i} = {i}" using assms(3) by (auto simp: has_prefix_self)
  moreover have "i \<noteq> []" using assms(2,3) by (auto simp: trunc_inv_def)
  ultimately show ?thesis using ti_Get_found(1) [OF assms(1,2)] by blast
qed

text \<open>The set of identifiers that the same operations build.\<close>

fun ids_step :: "string set \<Rightarrow> trunc_op \<Rightarrow> string set" where
  "ids_step S (TAdd i) = (if contains i '' '' \<or> i = [] then S else insert i S)"
| "ids_step S (TDelete i) = S - {i}"

lemma trunc_ids_run:
  assumes "trie_ok T keys" "trunc_inv keys x"
  shows "trunc_ids (foldl (trunc_step T) x ops) = foldl ids_step (trunc_ids x) ops"
  using assms(2)
proof (induction ops arbitrary: x)
  case (Cons op ops)
  have "trunc_ids (trunc_step T x op) = ids_step (trunc_ids x) op"
    using Cons.prems by (cases op) (simp_all add: trunc_ids_Add trunc_ids_Delete trunc_inv_def)
  moreover have "trunc_inv keys (trunc_step T x op)"
    using trunc_inv_run [OF assms(1) Cons.prems, of "[op]"] by simp
  ultimately show ?case using Cons.IH by simp
qed simp

text \<open>
  C15: after any sequence of additions and removals a prefix resolves exactly to the one identifier it
  abbreviates: \<^verbatim>\<open>Get\<close> returns an identifier if and only if it is the only one present with that
  prefix, reports an ambiguous prefix if and only if there are two, and a missing one if and only if
  there is none; the identifiers present are those that the abstract set of the same operations holds.
\<close>

theorem prefix_resolves_uniquely:
  fixes T :: "'t trie_api" and ops :: "trunc_op list"
  assumes "trie_ok T keys" "p \<noteq> []"
  defines "x \<equiv> foldl (trunc_step T) (NewTruncIndex T []) ops"
    and "S \<equiv> foldl ids_step {} ops"
  shows "(ti_Get T x p = Inr i \<longleftrightarrow> {k \<in> S. has_prefix k p} = {i})
    \<and> (ti_Get T x p = Inl ErrNotExist \<longleftrightarrow> {k \<in> S. has_prefix k p} = {})
    \<and> (ti_Get T x p = Inl ErrAmbiguousPrefix \<longleftrightarrow> (\<exists>a \<in> S. \<exists>b \<in> S. a \<noteq> b \<and> has_prefix a p \<and> has_prefix b p))"
proof -
  have new: "trunc_inv keys (NewTruncIndex T [])" by (rule trunc_inv_New [OF assms(1)])
  have inv: "trunc_inv keys x" unfolding x_def by (rule trunc_inv_run [OF assms(1) new])
  have "trunc_ids (NewTruncIndex T []) = {}" by (simp add: NewTruncIndex_def trunc_ids_def)
  then have "trunc_ids x = S" using trunc_ids_run [OF assms(1) new, of ops] by (simp add: x_def S_def)
  then show ?thesis using ti_Get_found [OF assms(1) inv assms(2)] by blast
qed

theorem prefix_resolves_uniquely_witness:
  "ti_Get list_trie (foldl (trunc_step list_trie) (NewTruncIndex list_trie [])
     [TAdd ''abc'', TAdd ''abd'', TDelete ''abd'']) ''ab'' = Inr ''abc''"
proof -
  have "{k \<in> foldl ids_step {} [TAdd ''abc'', TAdd ''abd'', TDelete ''abd'']. has_prefix k ''ab''} = {''abc''}"
    by (auto simp: has_prefix_def)
  then show ?thesis
    using prefix_resolves_uniquely [OF list_trie_ok, of "''ab''" "[TAdd ''abc'', TAdd ''abd'', TDelete ''abd'']" "''abc''"]
    by (simp del: trunc_step.simps)
qed

end
