(* ===== verification/Link_Index.thy ===== *)
theory Link_Index
  imports Go_Strings
begin

section \<open>Links between containers (\<^verbatim>\<open>daemon/links.go\<close>)\<close>

text \<open>
  \<^verbatim>\<open>linkIndex\<close> keeps, for a parent, the child behind every alias, and for a child, the aliases every
  parent uses for it.  Containers are pointers, written as addresses.  The lemmas say what the two
  directions agree on, and where \<^verbatim>\<open>unlink\<close> and \<^verbatim>\<open>delete\<close> leave them apart.
\<close>

record linkIndex =
  l_idx :: "(nat, (string, nat) gomap) gomap"
  l_childIdx :: "(nat, (nat, (string, unit) gomap) gomap) gomap"

definition newLinkIndex :: linkIndex where
  "newLinkIndex = \<lparr>l_idx = [], l_childIdx = []\<rparr>"

definition link :: "linkIndex \<Rightarrow> nat \<Rightarrow> nat \<Rightarrow> string \<Rightarrow> linkIndex" where
  "link l parent child alias =
     (let aliases = mget_or [] (mget_or [] (l_childIdx l) child) parent in
      l\<lparr>l_idx := nput parent alias child (l_idx l),
        l_childIdx := nput child parent (mput alias () aliases) (l_childIdx l)\<rparr>)"

text \<open>Deleting from a map that was never made does nothing; a map that becomes empty stays.\<close>

definition inner_delete :: "'k \<Rightarrow> 'l \<Rightarrow> ('k, ('l, 'v) gomap) gomap \<Rightarrow> ('k, ('l, 'v) gomap) gomap" where
  "inner_delete a b m = (case mget m a of None \<Rightarrow> m | Some inner \<Rightarrow> mput a (mdel b inner) m)"

definition unlink :: "linkIndex \<Rightarrow> string \<Rightarrow> nat \<Rightarrow> nat \<Rightarrow> linkIndex" where
  "unlink l alias child parent =
     l\<lparr>l_idx := inner_delete parent alias (l_idx l), l_childIdx := inner_delete child parent (l_childIdx l)\<rparr>"

definition l_children :: "linkIndex \<Rightarrow> nat \<Rightarrow> (string, nat) gomap" where
  "l_children l parent = mget_or [] (l_idx l) parent"

definition l_parents :: "linkIndex \<Rightarrow> nat \<Rightarrow> (string, nat) gomap" where
  "l_parents l child =
     fold (\<lambda>(parent, aliases) out. fold (\<lambda>(alias, _) out. mput alias parent out) aliases out)
       (mget_or [] (l_childIdx l) child) []"

definition l_delete :: "linkIndex \<Rightarrow> nat \<Rightarrow> linkIndex" where
  "l_delete l c =
     l\<lparr>l_childIdx := mdel c (fold (\<lambda>(_, child) m. inner_delete child c m) (l_children l c) (l_childIdx l)),
       l_idx := mdel c (l_idx l)\<rparr>"

subsection \<open>What the two directions hold\<close>

text \<open>\<open>child_alias l p a c\<close>: parent \<open>p\<close> reaches \<open>c\<close> as \<open>a\<close>; \<open>parent_alias\<close> is the same read from the child.\<close>

definition child_alias :: "linkIndex \<Rightarrow> nat \<Rightarrow> string \<Rightarrow> nat \<Rightarrow> bool" where
  "child_alias l p a c \<longleftrightarrow> nget (l_idx l) p a = Some c"

definition aliases_of :: "(nat, (nat, (string, unit) gomap) gomap) gomap \<Rightarrow> nat \<Rightarrow> nat \<Rightarrow> (string, unit) gomap" where
  "aliases_of m c p = mget_or [] (mget_or [] m c) p"

definition parent_alias :: "linkIndex \<Rightarrow> nat \<Rightarrow> string \<Rightarrow> nat \<Rightarrow> bool" where
  "parent_alias l p a c \<longleftrightarrow> mget (aliases_of (l_childIdx l) c p) a \<noteq> None"

lemma mget_or_inner_delete:
  "mget_or [] (inner_delete a b m) a' = (if a' = a then mdel b (mget_or [] m a) else mget_or [] m a')"
  by (auto simp: inner_delete_def mget_or_def split: option.splits)

lemma nget_inner_delete [simp]:
  "nget (inner_delete a b m) a' b' = (if a' = a \<and> b' = b then None else nget m a' b')"
  by (simp add: nget_def mget_or_inner_delete)

lemma mget_or_nput: "mget_or [] (nput a b v m) a' = (if a' = a then mput b v (mget_or [] m a) else mget_or [] m a')"
  by (simp add: nput_def)

lemma aliases_of_inner_delete: "aliases_of (inner_delete d q m) c p = (if c = d \<and> p = q then [] else aliases_of m c p)"
  by (simp add: aliases_of_def mget_or_inner_delete)

lemma aliases_of_nput: "aliases_of (nput d q v m) c p = (if c = d \<and> p = q then v else aliases_of m c p)"
  by (simp add: aliases_of_def mget_or_nput)

lemma aliases_of_mdel: "aliases_of (mdel d m) c p = (if c = d then [] else aliases_of m c p)"
  by (simp add: aliases_of_def) (simp add: mget_or_def)

lemma childIdx_link:
  "mget_or [] (l_childIdx (link l p c a)) c =
     mput p (mput a () (aliases_of (l_childIdx l) c p)) (mget_or [] (l_childIdx l) c)"
  by (simp add: link_def Let_def mget_or_nput aliases_of_def)

lemma child_alias_link:
  "child_alias (link l p c a) p' a' c' \<longleftrightarrow> (if p' = p \<and> a' = a then c' = c else child_alias l p' a' c')"
  by (auto simp: child_alias_def link_def Let_def)

lemma parent_alias_link:
  "parent_alias (link l p c a) p' a' c' \<longleftrightarrow> p' = p \<and> a' = a \<and> c' = c \<or> parent_alias l p' a' c'"
  by (auto simp: parent_alias_def link_def Let_def aliases_of_nput aliases_of_def [symmetric])

lemma child_alias_unlink: "child_alias (unlink l a c p) p' a' c' \<longleftrightarrow> \<not> (p' = p \<and> a' = a) \<and> child_alias l p' a' c'"
  by (auto simp: child_alias_def unlink_def)

lemma parent_alias_unlink: "parent_alias (unlink l a c p) p' a' c' \<longleftrightarrow> \<not> (p' = p \<and> c' = c) \<and> parent_alias l p' a' c'"
  by (auto simp: parent_alias_def unlink_def aliases_of_inner_delete)

lemma aliases_of_fold:
  "aliases_of (fold (\<lambda>(_, child) m. inner_delete child q m) ms m) c p =
     (if p = q \<and> c \<in> snd ` set ms then [] else aliases_of m c p)"
  by (induction ms arbitrary: m) (auto simp: aliases_of_inner_delete)

lemma child_alias_delete: "child_alias (l_delete l c) p a c' \<longleftrightarrow> p \<noteq> c \<and> child_alias l p a c'"
  by (simp add: child_alias_def l_delete_def nget_def)

lemma parent_alias_delete:
  assumes "\<And>p. wf_map (l_children l p)"
  shows "parent_alias (l_delete l c) p a c' \<longleftrightarrow>
    c' \<noteq> c \<and> \<not> (p = c \<and> (\<exists>b. child_alias l c b c')) \<and> parent_alias l p a c'"
proof -
  have "c' \<in> snd ` set (l_children l c) \<longleftrightarrow> (\<exists>b. child_alias l c b c')"
    using wf_map_mem [OF assms, of _ c' c] by (force simp: child_alias_def nget_def l_children_def [symmetric])
  then show ?thesis by (auto simp: parent_alias_def l_delete_def aliases_of_mdel aliases_of_fold)
qed

text \<open>
  What the index keeps for a child is also known from the parent, as long as an alias of a parent is
  not linked again to another child.
\<close>

definition links_sound :: "linkIndex \<Rightarrow> bool" where
  "links_sound l \<longleftrightarrow> (\<forall>p. wf_map (l_children l p)) \<and> (\<forall>p a c. parent_alias l p a c \<longrightarrow> child_alias l p a c)"

lemma children_link: "l_children (link l p c a) q = (if q = p then mput a c (l_children l p) else l_children l q)"
  by (simp add: l_children_def link_def Let_def mget_or_nput)

lemma children_unlink: "l_children (unlink l a c p) q = (if q = p then mdel a (l_children l p) else l_children l q)"
  by (simp add: l_children_def unlink_def mget_or_inner_delete)

lemma children_delete: "l_children (l_delete l c) q = (if q = c then [] else l_children l q)"
  by (simp add: l_children_def l_delete_def)

lemma links_sound_new: "links_sound newLinkIndex"
  by (simp add: links_sound_def newLinkIndex_def l_children_def parent_alias_def aliases_of_def mget_or_def)

lemma links_sound_link:
  assumes "links_sound l" "\<And>c'. child_alias l p a c' \<Longrightarrow> c' = c"
  shows "links_sound (link l p c a)"
  using assms unfolding links_sound_def
  by (auto simp: children_link child_alias_link parent_alias_link)

lemma links_sound_unlink:
  assumes "links_sound l" "\<And>c'. child_alias l p a c' \<Longrightarrow> c' = c"
  shows "links_sound (unlink l a c p)"
  using assms unfolding links_sound_def
  by (auto simp: children_unlink child_alias_unlink parent_alias_unlink)

lemma links_sound_delete:
  assumes "links_sound l"
  shows "links_sound (l_delete l c)"
  unfolding links_sound_def
proof (intro conjI allI impI)
  have wf: "wf_map (l_children l p)" for p using assms by (simp add: links_sound_def)
  then show "wf_map (l_children (l_delete l c) p)" for p by (simp add: children_delete)
  fix p a c' assume *: "parent_alias (l_delete l c) p a c'"
  then have "child_alias l p a c'" using assms wf by (simp add: links_sound_def parent_alias_delete)
  moreover have "p \<noteq> c" using * calculation wf by (auto simp: parent_alias_delete)
  ultimately show "child_alias (l_delete l c) p a c'" by (simp add: child_alias_delete)
qed

text \<open>
  \<^verbatim>\<open>unlink\<close> takes an alias, but on the side of the child it drops every alias of the parent, so that a
  child with a second alias keeps a parent that it no longer knows of; \<^verbatim>\<open>delete\<close> drops the links of a
  container to its children, but leaves the entries of its parents.
\<close>

theorem unlink_forgets_other_aliases:
  assumes "a \<noteq> b"
  shows "let l = unlink (link (link newLinkIndex p c a) p c b) a c p in
    mget (l_children l p) b = Some c \<and> l_parents l c = []"
proof -
  define l where "l = unlink (link (link newLinkIndex p c a) p c b) a c p"
  have "mget (l_children l p) b = Some c" using assms by (simp add: l_def children_unlink children_link)
  moreover have "mget_or [] (l_childIdx l) c = []"
    by (simp add: l_def unlink_def mget_or_inner_delete childIdx_link newLinkIndex_def AList.delete_eq)
      (simp add: mget_or_def)
  ultimately show ?thesis by (simp add: l_def [symmetric] Let_def l_parents_def)
qed

theorem delete_leaves_parents:
  assumes "p \<noteq> c"
  shows "mget (l_children (l_delete (link newLinkIndex p c a) c) p) a = Some c"
  using assms by (simp add: children_delete children_link)

end
