(* ===== verification/Daemon_Names.thy ===== *)
theory Daemon_Names
  imports Registrar Trunc_Index Link_Index Container_State Options Go_Path
begin

section \<open>Containers and their names in the daemon (\<^verbatim>\<open>daemon/daemon.go\<close>, \<open>create.go\<close>, \<open>rename.go\<close>, \<open>delete.go\<close>)\<close>

text \<open>
  The daemon knows a container by four indexes: the store by identifier, the index of prefixes of
  identifiers, the registrar of names and the index of links.  This theory models the operations that
  change them: creation, registration at start-up, renaming, linking and removal, with every early
  return, the deferred clean-ups and the panics.  A container is a pointer, its address in the list
  \<open>heap\<close>.  What is done outside these indexes (layers, mount points, files, the driver, the network)
  is a \<open>call\<close> whose answer is an argument, \<open>None\<close> for success.
\<close>

datatype call =
    CGetImage
  | CMergeConfig
  | CSetSecurityOptions
  | CSetRWLayer
  | CRootUIDGID
  | CMkdirAs
  | CRegisterMountPoints
  | CWriteHostConfig
  | CSaveHostConfig
  | CPlatformSettings
  | CNetworkSettings
  | CSaveNew
  | CKill
  | CStop
  | CRemoveAll
  | CReleaseRWLayer
  | CDriverClean
  | CRenameToDisk
  | CSandboxByID
  | CSandboxRename

record io =
  answer :: "call \<Rightarrow> string option"
  killed :: "State \<Rightarrow> State"
  stopped :: "State \<Rightarrow> State"
  netController :: bool
  clock :: nat

record ctr =
  c_ID :: string
  c_Name :: string
  c_State :: State
  c_NetworkMode :: string
  c_Links :: "string list"

datatype daemon_error =
    NoSuchContainer string
  | IndexError trunc_error
  | NoEntity string
  | NoContainerFor string
  | AlreadyLoaded
  | EmptyID
  | InvalidName string
  | NameConflict string string
  | NameError reg_error
  | EmptyRename
  | RenameTaken daemon_error
  | RmRunning string
  | DefaultNameConflict
  | NoParent string string
  | BadLinkOption opt_error
  | NoLinkTarget string
  | HostNetworkAndLinks
  | CallFailed call string

record 't daemon =
  heap :: "ctr list"
  containers :: "nat memoryStore"
  idIndex :: "'t TruncIndex"
  nameIndex :: registrar
  links :: linkIndex

type_synonym ('t, 'a) eff = "'t daemon \<times> (daemon_error, 'a) outcome"

text \<open>The first call of a sequence that fails.\<close>

fun firstError :: "io \<Rightarrow> call list \<Rightarrow> daemon_error option" where
  "firstError io [] = None"
| "firstError io (k # ks) = (case answer io k of Some e \<Rightarrow> Some (CallFailed k e) | None \<Rightarrow> firstError io ks)"

abbreviation nil_deref :: string where
  "nil_deref \<equiv> ''invalid memory address or nil pointer dereference''"

abbreviation index_range :: string where
  "index_range \<equiv> ''index out of range''"

definition setCtr :: "'t daemon \<Rightarrow> nat \<Rightarrow> (ctr \<Rightarrow> ctr) \<Rightarrow> 't daemon" where
  "setCtr d a f = d\<lparr>heap := (heap d)[a := f (heap d ! a)]\<rparr>"

definition setState :: "'t daemon \<Rightarrow> nat \<Rightarrow> (State \<Rightarrow> State) \<Rightarrow> 't daemon" where
  "setState d a f = setCtr d a (\<lambda>c. c\<lparr>c_State := f (c_State c)\<rparr>)"

definition setName :: "'t daemon \<Rightarrow> nat \<Rightarrow> string \<Rightarrow> 't daemon" where
  "setName d a n = setCtr d a (\<lambda>c. c\<lparr>c_Name := n\<rparr>)"

definition alloc :: "'t daemon \<Rightarrow> ctr \<Rightarrow> 't daemon" where
  "alloc d c = d\<lparr>heap := heap d @ [c]\<rparr>"

definition newDaemon :: "'t trie_api \<Rightarrow> 't daemon" where
  "newDaemon T = \<lparr>heap = [], containers = [], idIndex = NewTruncIndex T [], nameIndex = NewRegistrar, links = newLinkIndex\<rparr>"

subsection \<open>Looking a container up\<close>

text \<open>\<^verbatim>\<open>if name[0] != '/' { name = "/" + name }\<close>, on a name that is not empty.\<close>

definition slashed :: "string \<Rightarrow> string" where
  "slashed n = (if hd n \<noteq> CHR ''/'' then CHR ''/'' # n else n)"

definition GetByName :: "'t daemon \<Rightarrow> string \<Rightarrow> (daemon_error, nat) outcome" where
  "GetByName d name =
     (if name = [] then Panicked index_range
      else case Get (nameIndex d) (slashed name) of
          Inl _ \<Rightarrow> Failed (NoEntity name)
        | Inr i \<Rightarrow> (case mem_Get (containers d) i of None \<Rightarrow> Failed (NoContainerFor i) | Some a \<Rightarrow> Done a))"

definition GetContainer :: "'t trie_api \<Rightarrow> 't daemon \<Rightarrow> string \<Rightarrow> (daemon_error, nat option) outcome" where
  "GetContainer T d p =
     (case mem_Get (containers d) p of
        Some a \<Rightarrow> Done (Some a)
      | None \<Rightarrow>
          (case GetByName d p of
             Panicked m \<Rightarrow> Panicked m
           | Done a \<Rightarrow> Done (Some a)
           | Failed _ \<Rightarrow>
               (case ti_Get T (idIndex d) p of
                  Inl ErrNotExist \<Rightarrow> Failed (NoSuchContainer p)
                | Inl e \<Rightarrow> Failed (IndexError e)
                | Inr i \<Rightarrow> Done (mem_Get (containers d) i))))"

definition Exists :: "'t trie_api \<Rightarrow> 't daemon \<Rightarrow> string \<Rightarrow> (daemon_error, bool) outcome" where
  "Exists T d i =
     (case GetContainer T d i of Panicked m \<Rightarrow> Panicked m | Failed _ \<Rightarrow> Done False | Done c \<Rightarrow> Done (c \<noteq> None))"

subsection \<open>Names\<close>

text \<open>\<^verbatim>\<open>^/?[a-zA-Z0-9][a-zA-Z0-9_.-]+$\<close>\<close>

definition alnum :: "char \<Rightarrow> bool" where
  "alnum c \<longleftrightarrow> is_alpha c \<or> is_digit c"

definition RestrictedNamePattern :: "string \<Rightarrow> bool" where
  "RestrictedNamePattern n =
     (case (if has_prefix n ''/'' then tl n else n) of
        [] \<Rightarrow> False
      | c # cs \<Rightarrow> alnum c \<and> cs \<noteq> [] \<and> list_all (\<lambda>x. alnum x \<or> x \<in> set ''_.-'') cs)"

definition reserveName :: "'t daemon \<Rightarrow> string \<Rightarrow> string \<Rightarrow> ('t, string) eff" where
  "reserveName d i name0 =
     (if \<not> RestrictedNamePattern name0 then (d, Failed (InvalidName name0))
      else
        let name = slashed name0 in
        case Reserve (nameIndex d) name i of
          (r, None) \<Rightarrow> (d\<lparr>nameIndex := r\<rparr>, Done name)
        | (r, Some ErrNameReserved) \<Rightarrow>
            (d\<lparr>nameIndex := r\<rparr>,
             case Get r name of Inl e \<Rightarrow> Failed (NameError e) | Inr owner \<Rightarrow> Failed (NameConflict name owner))
        | (r, Some e) \<Rightarrow> (d\<lparr>nameIndex := r\<rparr>, Failed (NameError e)))"

definition releaseName :: "'t daemon \<Rightarrow> string \<Rightarrow> 't daemon" where
  "releaseName d name = d\<lparr>nameIndex := Release (nameIndex d) name\<rparr>"

text \<open>
  \<^verbatim>\<open>namesgenerator.GetRandomName\<close>: a draw is the pair of words and the digit that the random source gave
  when the loop was left.
\<close>

type_synonym draw = "string \<times> string \<times> nat"

definition GetRandomName :: "draw \<Rightarrow> nat \<Rightarrow> string" where
  "GetRandomName w retry = (case w of (l, r, n) \<Rightarrow> l @ ''_'' @ r @ (if retry > 0 then itoa (int n) else []))"

fun tryNames :: "registrar \<Rightarrow> (nat \<Rightarrow> draw) \<Rightarrow> string \<Rightarrow> nat list \<Rightarrow> registrar \<times> (reg_error, string) result option" where
  "tryNames r draws i [] = (r, None)"
| "tryNames r draws i (k # ks) =
     (let name = slashed (GetRandomName (draws k) k) in
      case Reserve r name i of
        (r', None) \<Rightarrow> (r', Some (Inr name))
      | (r', Some ErrNameReserved) \<Rightarrow> tryNames r' draws i ks
      | (r', Some e) \<Rightarrow> (r', Some (Inl e)))"

definition generateNewName :: "'t daemon \<Rightarrow> (nat \<Rightarrow> draw) \<Rightarrow> string \<Rightarrow> ('t, string) eff" where
  "generateNewName d draws i =
     (case tryNames (nameIndex d) draws i [0..<6] of
        (r, Some (Inr name)) \<Rightarrow> (d\<lparr>nameIndex := r\<rparr>, Done name)
      | (r, Some (Inl e)) \<Rightarrow> (d\<lparr>nameIndex := r\<rparr>, Failed (NameError e))
      | (r, None) \<Rightarrow>
          let name = CHR ''/'' # TruncateID i in
          (case Reserve r name i of
             (r', None) \<Rightarrow> (d\<lparr>nameIndex := r'\<rparr>, Done name)
           | (r', Some e) \<Rightarrow> (d\<lparr>nameIndex := r'\<rparr>, Failed (NameError e))))"

definition generateIDAndName :: "'t daemon \<Rightarrow> (nat \<Rightarrow> draw) \<Rightarrow> string \<Rightarrow> string \<Rightarrow> ('t, string) eff" where
  "generateIDAndName d draws newID name =
     (if name = [] then generateNewName d draws newID else reserveName d newID name)"

subsection \<open>Links\<close>

definition IsHostMode :: "string \<Rightarrow> bool" where
  "IsHostMode n \<longleftrightarrow> n = ''host''"

definition IsContainerMode :: "string \<Rightarrow> bool" where
  "IsContainerMode n \<longleftrightarrow> (let parts = splitn 2 CHR '':'' n in length parts > 1 \<and> parts ! 0 = ''container'')"

definition IsUserDefinedMode :: "string \<Rightarrow> bool" where
  "IsUserDefinedMode n \<longleftrightarrow>
     n \<noteq> ''default'' \<and> n \<noteq> ''bridge'' \<and> \<not> IsHostMode n \<and> n \<noteq> ''none'' \<and> \<not> IsContainerMode n"

definition registerLink :: "'t daemon \<Rightarrow> nat \<Rightarrow> nat \<Rightarrow> string \<Rightarrow> ('t, unit) eff" where
  "registerLink d parent child alias =
     (let fullName = JoinPath [c_Name (heap d ! parent), alias] in
      case Reserve (nameIndex d) fullName (c_ID (heap d ! child)) of
        (r, Some ErrNameReserved) \<Rightarrow> (d\<lparr>nameIndex := r\<rparr>, Done ())
      | (r, Some e) \<Rightarrow> (d\<lparr>nameIndex := r\<rparr>, Failed (NameError e))
      | (r, None) \<Rightarrow> (d\<lparr>nameIndex := r, links := link (links d) parent child fullName\<rparr>, Done ()))"

text \<open>
  The inner loop of \<^verbatim>\<open>registerLinks\<close> follows \<^verbatim>\<open>container:\<close> network modes from container to container;
  it has no bound, and \<open>None\<close> is not returning.
\<close>

partial_function (option) networkOwner ::
  "'t trie_api \<Rightarrow> 't daemon \<Rightarrow> nat \<Rightarrow> (daemon_error, nat) outcome option" where
  "networkOwner T d a =
     (if \<not> IsContainerMode (c_NetworkMode (heap d ! a)) then Some (Done a)
      else
        let p = splitn 2 CHR '':'' (c_NetworkMode (heap d ! a)) ! 1 in
        case GetContainer T d p of
          Panicked m \<Rightarrow> Some (Panicked m)
        | Failed _ \<Rightarrow> Some (Failed (NoLinkTarget p))
        | Done None \<Rightarrow> Some (Panicked nil_deref)
        | Done (Some b) \<Rightarrow> networkOwner T d b)"

definition registerOneLink :: "'t trie_api \<Rightarrow> 't daemon \<Rightarrow> nat \<Rightarrow> string \<Rightarrow> ('t, unit) eff option" where
  "registerOneLink T d a l =
     (case ParseLink l of
        Inl e \<Rightarrow> Some (d, Failed (BadLinkOption e))
      | Inr (name, alias) \<Rightarrow>
          (case GetContainer T d name of
             Panicked m \<Rightarrow> Some (d, Panicked m)
           | Failed _ \<Rightarrow> Some (d, Failed (NoLinkTarget name))
           | Done None \<Rightarrow> Some (d, Panicked nil_deref)
           | Done (Some b) \<Rightarrow>
               (case networkOwner T d b of
                  None \<Rightarrow> None
                | Some (Panicked m) \<Rightarrow> Some (d, Panicked m)
                | Some (Failed e) \<Rightarrow> Some (d, Failed e)
                | Some (Done child) \<Rightarrow>
                    if IsHostMode (c_NetworkMode (heap d ! child)) then Some (d, Failed HostNetworkAndLinks)
                    else Some (registerLink d a child alias))))"

fun registerLinkLoop :: "'t trie_api \<Rightarrow> 't daemon \<Rightarrow> nat \<Rightarrow> string list \<Rightarrow> ('t, unit) eff option" where
  "registerLinkLoop T d a [] = Some (d, Done ())"
| "registerLinkLoop T d a (l # ls) =
     (case registerOneLink T d a l of
        Some (d', Done _) \<Rightarrow> registerLinkLoop T d' a ls
      | other \<Rightarrow> other)"

definition registerLinks :: "'t trie_api \<Rightarrow> io \<Rightarrow> 't daemon \<Rightarrow> nat \<Rightarrow> string \<Rightarrow> string list \<Rightarrow> ('t, unit) eff option" where
  "registerLinks T io d a mode ls =
     (if IsUserDefinedMode mode then Some (d, Done ())
      else case registerLinkLoop T d a ls of
          Some (d', Done _) \<Rightarrow>
            Some (d', case firstError io [CWriteHostConfig] of None \<Rightarrow> Done () | Some e \<Rightarrow> Failed e)
        | other \<Rightarrow> other)"

subsection \<open>Removal\<close>

definition trimSlash :: "string \<Rightarrow> string" where
  "trimSlash p = (if has_suffix p ''/'' then butlast p else p)"

definition rmLink :: "'t trie_api \<Rightarrow> 't daemon \<Rightarrow> nat \<Rightarrow> string \<Rightarrow> ('t, unit) eff" where
  "rmLink T d a name0 =
     (let name = slashed name0; dir = pathDir name in
      if dir = ''/'' then (d, Failed DefaultNameConflict)
      else
        let parent = trimSlash dir in
        case Get (nameIndex d) parent of
          Inl _ \<Rightarrow> (d, Failed (NoParent parent name))
        | Inr pe \<Rightarrow>
            let d' = releaseName d name in
            (case GetContainer T d' pe of
               Panicked m \<Rightarrow> (d', Panicked m)
             | Done (Some p) \<Rightarrow> (d'\<lparr>links := unlink (links d') name a p\<rparr>, Done ())
             | _ \<Rightarrow> (d', Done ())))"

text \<open>What the deferred function of \<^verbatim>\<open>cleanupContainer\<close> removes; errors of the prefix index are ignored.\<close>

definition forget :: "'t trie_api \<Rightarrow> 't daemon \<Rightarrow> nat \<Rightarrow> 't daemon" where
  "forget T d a =
     (let i = c_ID (heap d ! a) in
      d\<lparr>nameIndex := Delete (nameIndex d) i, links := l_delete (links d) a,
        idIndex := fst (ti_Delete T (idIndex d) i), containers := mem_Delete (containers d) i\<rparr>)"

definition mountDoesNotExist :: string where
  "mountDoesNotExist = ''mount does not exist''"

definition removeFiles :: "io \<Rightarrow> daemon_error option" where
  "removeFiles io =
     (case answer io CRemoveAll of
        Some e \<Rightarrow> Some (CallFailed CRemoveAll e)
      | None \<Rightarrow>
          (case answer io CReleaseRWLayer of
             Some e \<Rightarrow> if e \<noteq> mountDoesNotExist then Some (CallFailed CReleaseRWLayer e) else firstError io [CDriverClean]
           | None \<Rightarrow> firstError io [CDriverClean]))"

definition killFirst :: "io \<Rightarrow> 't daemon \<Rightarrow> nat \<Rightarrow> bool \<Rightarrow> ('t, unit) eff" where
  "killFirst io d a force =
     (if \<not> Running (c_State (heap d ! a)) then (d, Done ())
      else if \<not> force then (d, Failed (RmRunning (c_ID (heap d ! a))))
      else (setState d a (killed io), case firstError io [CKill] of None \<Rightarrow> Done () | Some e \<Rightarrow> Failed e))"

definition stopThen :: "io \<Rightarrow> 't daemon \<Rightarrow> nat \<Rightarrow> ('t, unit) eff" where
  "stopThen io d a =
     (if \<not> Running (c_State (heap d ! a)) then (d, Done ())
      else (setState d a (stopped io), case firstError io [CStop] of None \<Rightarrow> Done () | Some e \<Rightarrow> Failed e))"

definition cleanupContainer :: "'t trie_api \<Rightarrow> io \<Rightarrow> 't daemon \<Rightarrow> nat \<Rightarrow> bool \<Rightarrow> ('t, unit) eff" where
  "cleanupContainer T io d a force =
     (case killFirst io d a force of
        (d1, Done _) \<Rightarrow>
          (case stopThen io d1 a of
             (d2, Done _) \<Rightarrow>
               let d3 = setState d2 a SetDead; err = removeFiles io in
               (if err = None \<or> force then forget T d3 a else d3,
                case err of None \<Rightarrow> Done () | Some e \<Rightarrow> Failed e)
           | other \<Rightarrow> other)
      | other \<Rightarrow> other)"

record rm_config =
  ForceRemove :: bool
  RemoveLink :: bool

definition ContainerRm :: "'t trie_api \<Rightarrow> io \<Rightarrow> 't daemon \<Rightarrow> string \<Rightarrow> rm_config \<Rightarrow> ('t, unit) eff" where
  "ContainerRm T io d name config =
     (case GetContainer T d name of
        Panicked m \<Rightarrow> (d, Panicked m)
      | Failed e \<Rightarrow> (d, Failed e)
      | Done None \<Rightarrow> (d, Panicked nil_deref)
      | Done (Some a) \<Rightarrow>
          (case SetRemovalInProgress (c_State (heap d ! a)) of
             (_, Some _) \<Rightarrow> (d, Done ())
           | (s, None) \<Rightarrow>
               let d1 = setState d a (\<lambda>_. s) in
               case (if mem_Get (containers d1) (c_ID (heap d1 ! a)) = None then (d1, Done ())
                     else if RemoveLink config then rmLink T d1 a name
                     else cleanupContainer T io d1 a (ForceRemove config)) of
                 (d2, out) \<Rightarrow> (setState d2 a ResetRemovalInProgress, out)))"

subsection \<open>Creation\<close>

record create_params =
  p_Name :: string
  p_NetworkMode :: string
  p_Links :: "string list"
  p_newID :: string
  p_draws :: "nat \<Rightarrow> draw"

definition newContainer :: "'t daemon \<Rightarrow> create_params \<Rightarrow> ('t, nat) eff" where
  "newContainer d p =
     (case generateIDAndName d (p_draws p) (p_newID p) (p_Name p) of
        (d1, Panicked m) \<Rightarrow> (d1, Panicked m)
      | (d1, Failed e) \<Rightarrow> (d1, Failed e)
      | (d1, Done name) \<Rightarrow>
          (alloc d1 \<lparr>c_ID = p_newID p, c_Name = name, c_State = NewState, c_NetworkMode = [], c_Links = []\<rparr>,
           Done (length (heap d1))))"

text \<open>\<^verbatim>\<open>Register\<close>: a container that was running when it was saved is marked as killed.\<close>

definition Register :: "'t trie_api \<Rightarrow> io \<Rightarrow> 't daemon \<Rightarrow> nat \<Rightarrow> ('t, unit) eff" where
  "Register T io d a =
     (let i = c_ID (heap d ! a);
          d1 = d\<lparr>containers := mem_Add (containers d) i a, idIndex := fst (ti_Add T (idIndex d) i)\<rparr> in
      if \<not> Running (c_State (heap d ! a)) then (d1, Done ())
      else case SetStopped (c_State (heap d ! a)) \<lparr>es_ExitCode = 137, es_OOMKilled = False\<rparr> (clock io) of
          None \<Rightarrow> (d1, Panicked ''close of closed channel'')
        | Some s \<Rightarrow> (setState d1 a (\<lambda>_. s), Done ()))"

definition setHostConfig :: "'t trie_api \<Rightarrow> io \<Rightarrow> 't daemon \<Rightarrow> nat \<Rightarrow> create_params \<Rightarrow> ('t, unit) eff option" where
  "setHostConfig T io d a p =
     (case firstError io [CRegisterMountPoints] of
        Some e \<Rightarrow> Some (d, Failed e)
      | None \<Rightarrow>
          (case registerLinks T io d a (p_NetworkMode p) (p_Links p) of
             Some (d1, Done _) \<Rightarrow>
               Some (setCtr d1 a (\<lambda>c. c\<lparr>c_NetworkMode := p_NetworkMode p, c_Links := p_Links p\<rparr>),
                 case firstError io [CSaveHostConfig] of None \<Rightarrow> Done () | Some e \<Rightarrow> Failed e)
           | other \<Rightarrow> other))"

text \<open>The deferred function of \<^verbatim>\<open>create\<close> removes the container by force and only logs its own errors.\<close>

definition abortCreate :: "'t trie_api \<Rightarrow> io \<Rightarrow> 't daemon \<Rightarrow> nat \<Rightarrow> daemon_error \<Rightarrow> ('t, nat) eff" where
  "abortCreate T io d a e =
     (case ContainerRm T io d (c_ID (heap d ! a)) \<lparr>ForceRemove = True, RemoveLink = False\<rparr> of
        (d', Panicked m) \<Rightarrow> (d', Panicked m)
      | (d', _) \<Rightarrow> (d', Failed e))"

definition finishCreate :: "'t trie_api \<Rightarrow> io \<Rightarrow> 't daemon \<Rightarrow> nat \<Rightarrow> create_params \<Rightarrow> ('t, nat) eff option" where
  "finishCreate T io d a p =
     (case firstError io [CRootUIDGID, CMkdirAs] of
        Some e \<Rightarrow> Some (abortCreate T io d a e)
      | None \<Rightarrow>
          (case setHostConfig T io d a p of
             None \<Rightarrow> None
           | Some (d1, Panicked m) \<Rightarrow> Some (d1, Panicked m)
           | Some (d1, Failed e) \<Rightarrow> Some (abortCreate T io d1 a e)
           | Some (d1, Done _) \<Rightarrow>
               Some (case firstError io [CPlatformSettings, CNetworkSettings, CSaveNew] of
                   Some e \<Rightarrow> abortCreate T io d1 a e
                 | None \<Rightarrow> (d1, Done a))))"

definition daemon_create :: "'t trie_api \<Rightarrow> io \<Rightarrow> 't daemon \<Rightarrow> create_params \<Rightarrow> ('t, nat) eff option" where
  "daemon_create T io d p =
     (case firstError io [CGetImage, CMergeConfig] of
        Some e \<Rightarrow> Some (d, Failed e)
      | None \<Rightarrow>
          (case newContainer d p of
             (d1, Panicked m) \<Rightarrow> Some (d1, Panicked m)
           | (d1, Failed e) \<Rightarrow> Some (d1, Failed e)
           | (d1, Done a) \<Rightarrow>
               (case firstError io [CSetSecurityOptions, CSetRWLayer] of
                  Some e \<Rightarrow> Some (abortCreate T io d1 a e)
                | None \<Rightarrow>
                    (case Register T io d1 a of
                       (d2, Panicked m) \<Rightarrow> Some (d2, Panicked m)
                     | (d2, Failed e) \<Rightarrow> Some (abortCreate T io d2 a e)
                     | (d2, Done _) \<Rightarrow> finishCreate T io d2 a p))))"

subsection \<open>Renaming\<close>

text \<open>
  The deferred functions of \<^verbatim>\<open>ContainerRename\<close> put the old name back: into the container, and into the
  registrar, before the new one is released.
\<close>

definition undoRename :: "'t daemon \<Rightarrow> nat \<Rightarrow> string \<Rightarrow> string \<Rightarrow> 't daemon" where
  "undoRename d a oldName newName =
     (let d1 = setName d a oldName in
      releaseName (fst (reserveName d1 (c_ID (heap d1 ! a)) oldName)) newName)"

definition ContainerRename :: "'t trie_api \<Rightarrow> io \<Rightarrow> 't daemon \<Rightarrow> string \<Rightarrow> string \<Rightarrow> ('t, unit) eff" where
  "ContainerRename T io d old newName0 =
     (if old = [] \<or> newName0 = [] then (d, Failed EmptyRename)
      else case GetContainer T d old of
          Panicked m \<Rightarrow> (d, Panicked m)
        | Failed e \<Rightarrow> (d, Failed e)
        | Done None \<Rightarrow> (d, Panicked nil_deref)
        | Done (Some a) \<Rightarrow>
            let oldName = c_Name (heap d ! a) in
            (case reserveName d (c_ID (heap d ! a)) newName0 of
               (d1, Panicked m) \<Rightarrow> (d1, Panicked m)
             | (d1, Failed e) \<Rightarrow> (d1, Failed (RenameTaken e))
             | (d1, Done newName) \<Rightarrow>
                 let d2 = releaseName (setName d1 a newName) oldName in
                 (case firstError io ([CRenameToDisk] @
                     (if Running (c_State (heap d2 ! a)) \<and> netController io then [CSandboxByID, CSandboxRename] else [])) of
                    Some e \<Rightarrow> (undoRename d2 a oldName newName, Failed e)
                  | None \<Rightarrow> (d2, Done ()))))"

subsection \<open>Registration at start-up\<close>

definition validateID :: "string \<Rightarrow> daemon_error option" where
  "validateID i = (if i = [] then Some EmptyID else None)"

definition registerName :: "'t trie_api \<Rightarrow> 't daemon \<Rightarrow> (nat \<Rightarrow> draw) \<Rightarrow> nat \<Rightarrow> ('t, unit) eff" where
  "registerName T d draws a =
     (let i = c_ID (heap d ! a) in
      case Exists T d i of
        Panicked m \<Rightarrow> (d, Panicked m)
      | Failed e \<Rightarrow> (d, Failed e)
      | Done True \<Rightarrow> (d, Failed AlreadyLoaded)
      | Done False \<Rightarrow>
          (case validateID i of
             Some e \<Rightarrow> (d, Failed e)
           | None \<Rightarrow>
               (case (if c_Name (heap d ! a) = []
                      then (case generateNewName d draws i of
                              (d1, Done name) \<Rightarrow> (setName d1 a name, Done ())
                            | (d1, Failed e) \<Rightarrow> (d1, Failed e)
                            | (d1, Panicked m) \<Rightarrow> (d1, Panicked m))
                      else (d, Done ())) of
                  (d1, Done _) \<Rightarrow>
                    (case Reserve (nameIndex d1) (c_Name (heap d1 ! a)) i of
                       (r, None) \<Rightarrow> (d1\<lparr>nameIndex := r\<rparr>, Done ())
                     | (r, Some e) \<Rightarrow> (d1\<lparr>nameIndex := r\<rparr>, Failed (NameError e)))
                | other \<Rightarrow> other)))"

text \<open>The loops of \<^verbatim>\<open>restore\<close>: errors are logged, and the container is skipped.\<close>

fun restoreRegister :: "'t trie_api \<Rightarrow> io \<Rightarrow> 't daemon \<Rightarrow> (ctr \<times> (nat \<Rightarrow> draw)) list \<Rightarrow> ('t, nat list) eff" where
  "restoreRegister T io d [] = (d, Done [])"
| "restoreRegister T io d ((c, draws) # cs) =
     (let a = length (heap d) in
      case registerName T (alloc d c) draws a of
        (d1, Panicked m) \<Rightarrow> (d1, Panicked m)
      | (d1, Failed _) \<Rightarrow>
          (case restoreRegister T io d1 cs of (d2, Done as) \<Rightarrow> (d2, Done (a # as)) | other \<Rightarrow> other)
      | (d1, Done _) \<Rightarrow>
          (case Register T io d1 a of
             (d2, Panicked m) \<Rightarrow> (d2, Panicked m)
           | (d2, _) \<Rightarrow>
               (case restoreRegister T io d2 cs of (d3, Done as) \<Rightarrow> (d3, Done (a # as)) | other \<Rightarrow> other)))"

fun restoreLinks :: "'t trie_api \<Rightarrow> io \<Rightarrow> 't daemon \<Rightarrow> nat list \<Rightarrow> ('t, unit) eff option" where
  "restoreLinks T io d [] = Some (d, Done ())"
| "restoreLinks T io d (a # as) =
     (case registerLinks T io d a (c_NetworkMode (heap d ! a)) (c_Links (heap d ! a)) of
        None \<Rightarrow> None
      | Some (d1, Panicked m) \<Rightarrow> Some (d1, Panicked m)
      | Some (d1, _) \<Rightarrow> restoreLinks T io d1 as)"

definition restore :: "'t trie_api \<Rightarrow> io \<Rightarrow> 't daemon \<Rightarrow> (ctr \<times> (nat \<Rightarrow> draw)) list \<Rightarrow> ('t, unit) eff option" where
  "restore T io d loaded =
     (case restoreRegister T io d loaded of
        (d1, Panicked m) \<Rightarrow> Some (d1, Panicked m)
      | (d1, Failed e) \<Rightarrow> Some (d1, Failed e)
      | (d1, Done as) \<Rightarrow> restoreLinks T io d1 as)"

end
