(* ===== verification/Daemon_Names_Properties.thy ===== *)
theory Daemon_Names_Properties
  imports Daemon_Names
begin

section \<open>What the indexes of the daemon agree on\<close>

text \<open>
  The invariant of the four indexes: the store and the index of prefixes hold the same identifiers, a
  stored container has the identifier it is stored under, and its name is reserved for it.  It is kept
  by creation, removal, start-up and by every renaming to another name; it gives the lookups by
  identifier, name and prefix.
\<close>

subsection \<open>The invariant\<close>

definition proper_name :: "string \<Rightarrow> bool" where
  "proper_name n \<longleftrightarrow> RestrictedNamePattern n \<and> has_prefix n ''/''"

text \<open>Identifiers are 64 lower-case hexadecimal digits.\<close>

definition is_hex :: "char \<Rightarrow> bool" where
  "is_hex c \<longleftrightarrow> is_digit c \<or> (is_lower c \<and> (of_char c :: nat) \<le> 102)"

definition full_id :: "string \<Rightarrow> bool" where
  "full_id i \<longleftrightarrow> length i = 64 \<and> list_all is_hex i"

lemma full_id_chars:
  assumes "full_id i"
  shows "i \<noteq> []" "CHR '' '' \<notin> set i" "CHR '':'' \<notin> set i" "CHR ''/'' \<notin> set i"
  using assms by (auto simp: full_id_def list_all_iff is_hex_def is_digit_def is_lower_def)

definition stored_ok :: "'t daemon \<Rightarrow> string \<Rightarrow> nat \<Rightarrow> bool" where
  "stored_ok d i a \<longleftrightarrow>
     a < length (heap d) \<and> c_ID (heap d ! a) = i \<and> full_id i \<and> proper_name (c_Name (heap d ! a))
     \<and> mget (names (nameIndex d)) (c_Name (heap d ! a)) = Some i"

definition names_inv :: "('t \<Rightarrow> string set) \<Rightarrow> 't daemon \<Rightarrow> bool" where
  "names_inv keys d \<longleftrightarrow>
     registrar_inv (nameIndex d) \<and> trunc_inv keys (idIndex d)
     \<and> trunc_ids (idIndex d) = {i. mget (containers d) i \<noteq> None}
     \<and> (\<forall>i a. mget (containers d) i = Some a \<longrightarrow> stored_ok d i a)"

lemma names_invD:
  assumes "names_inv keys d"
  shows "registrar_inv (nameIndex d)" and "trunc_inv keys (idIndex d)"
    and "trunc_ids (idIndex d) = {i. mget (containers d) i \<noteq> None}"
    and "mget (containers d) i = Some a \<Longrightarrow> stored_ok d i a"
  using assms unfolding names_inv_def by blast+

lemma names_invI:
  assumes "registrar_inv (nameIndex d)" "trunc_inv keys (idIndex d)"
    and "trunc_ids (idIndex d) = {i. mget (containers d) i \<noteq> None}"
    and "\<And>i a. mget (containers d) i = Some a \<Longrightarrow> stored_ok d i a"
  shows "names_inv keys d"
  using assms unfolding names_inv_def by blast

lemma stored_okD:
  assumes "stored_ok d i a"
  shows "a < length (heap d)" and "c_ID (heap d ! a) = i" and "proper_name (c_Name (heap d ! a))"
    and "mget (names (nameIndex d)) (c_Name (heap d ! a)) = Some i" and "full_id i"
  using assms by (simp_all add: stored_ok_def)

lemma names_inv_new: "trie_ok T keys \<Longrightarrow> names_inv keys (newDaemon T)"
  by (simp add: names_inv_def newDaemon_def inv_New trunc_inv_New) (simp add: NewTruncIndex_def trunc_ids_def)

text \<open>
  Whatever keeps the store, the prefix index, the identifiers and the names of the containers, and
  every reservation, keeps the invariant.
\<close>

definition names_kept :: "'t daemon \<Rightarrow> 't daemon \<Rightarrow> bool" where
  "names_kept d d' \<longleftrightarrow>
     containers d' = containers d \<and> idIndex d' = idIndex d \<and> length (heap d) \<le> length (heap d')
     \<and> (\<forall>a < length (heap d). c_ID (heap d' ! a) = c_ID (heap d ! a) \<and> c_Name (heap d' ! a) = c_Name (heap d ! a))
     \<and> (\<forall>n k. mget (names (nameIndex d)) n = Some k \<longrightarrow> mget (names (nameIndex d')) n = Some k)
     \<and> (registrar_inv (nameIndex d) \<longrightarrow> registrar_inv (nameIndex d'))"

lemma names_kept_refl: "names_kept d d"
  by (simp add: names_kept_def)

lemma names_kept_trans: "names_kept d d' \<Longrightarrow> names_kept d' d'' \<Longrightarrow> names_kept d d''"
  unfolding names_kept_def by (metis (no_types, lifting) le_trans order_less_le_trans)

lemma names_kept_stored: "names_kept d d' \<Longrightarrow> stored_ok d i a \<Longrightarrow> stored_ok d' i a"
  by (simp add: names_kept_def stored_ok_def)

lemma names_kept_inv:
  assumes "names_kept d d'" "names_inv keys d"
  shows "names_inv keys d'"
proof (rule names_invI)
  have same: "containers d' = containers d" "idIndex d' = idIndex d" using assms(1) by (simp_all add: names_kept_def)
  show "registrar_inv (nameIndex d')" using assms(1) names_invD(1) [OF assms(2)] by (simp add: names_kept_def)
  show "trunc_inv keys (idIndex d')" "trunc_ids (idIndex d') = {i. mget (containers d') i \<noteq> None}"
    unfolding same by (rule names_invD [OF assms(2)])+
  show "stored_ok d' i a" if "mget (containers d') i = Some a" for i a
    using that names_kept_stored [OF assms(1)] names_invD(4) [OF assms(2)] unfolding same by blast
qed

lemma nth_update_at: "b < length xs \<Longrightarrow> xs[a := y] ! b = (if a = b then y else xs ! b)"
  by (cases "a = b") simp_all

lemma names_kept_setCtr:
  "(\<And>c. c_ID (f c) = c_ID c \<and> c_Name (f c) = c_Name c) \<Longrightarrow> names_kept d (setCtr d a f)"
  by (simp add: names_kept_def setCtr_def nth_update_at)

lemma names_kept_setState: "names_kept d (setState d a f)"
  unfolding setState_def by (rule names_kept_setCtr) simp

lemma names_kept_alloc: "names_kept d (alloc d c)"
  by (simp add: names_kept_def alloc_def nth_append)

lemma names_kept_reserve: "names_kept d (d\<lparr>nameIndex := fst (Reserve (nameIndex d) n k)\<rparr>)"
  by (simp add: names_kept_def names_Reserve inv_Reserve)

lemma names_kept_links: "names_kept d d' \<Longrightarrow> names_kept d (d'\<lparr>links := l\<rparr>)"
  by (simp add: names_kept_def)

subsection \<open>Reserving names\<close>

lemma Reserve_ok: "Reserve r n k = (r', None) \<Longrightarrow> mget (names r') n = Some k"
  by (auto simp: Reserve_def split: option.splits if_splits)

lemma slashed_proper: "RestrictedNamePattern n \<Longrightarrow> proper_name (slashed n)"
proof -
  assume *: "RestrictedNamePattern n"
  then obtain c cs where n: "n = c # cs" by (cases n) (auto simp: RestrictedNamePattern_def has_prefix_def)
  show ?thesis using * n by (auto simp: proper_name_def RestrictedNamePattern_def slashed_def has_prefix_def)
qed

lemma slashed_id: "has_prefix n ''/'' \<Longrightarrow> slashed n = n"
  by (cases n) (auto simp: slashed_def has_prefix_def)

lemma fst_Reserve: "Reserve r n k = (r', e) \<Longrightarrow> r' = fst (Reserve r n k)"
  by simp

lemma reserveName_kept: "names_kept d (fst (reserveName d i n))"
  using names_kept_reserve [of d "slashed n" i]
  by (auto simp: reserveName_def Let_def names_kept_refl split: prod.splits option.splits reg_error.splits)

lemma reserveName_done:
  assumes "reserveName d i n0 = (d', Done n)"
  shows "n = slashed n0" "proper_name n" "mget (names (nameIndex d')) n = Some i" "heap d' = heap d"
proof -
  have "RestrictedNamePattern n0" using assms by (auto simp: reserveName_def split: if_splits)
  then show "n = slashed n0" "proper_name n" "mget (names (nameIndex d')) n = Some i" "heap d' = heap d"
    using assms slashed_proper [of n0]
    by (auto simp: reserveName_def Let_def dest: Reserve_ok split: if_splits prod.splits option.splits reg_error.splits sum.splits)
qed

lemma tryNames_kept: "names_kept (d\<lparr>nameIndex := r\<rparr>) (d\<lparr>nameIndex := fst (tryNames r draws i ks)\<rparr>)"
proof (induction ks arbitrary: r)
  case (Cons k ks)
  let ?n = "slashed (GetRandomName (draws k) k)"
  have step: "names_kept (d\<lparr>nameIndex := r\<rparr>) (d\<lparr>nameIndex := fst (Reserve r ?n i)\<rparr>)"
    using names_kept_reserve [of "d\<lparr>nameIndex := r\<rparr>" ?n i] by simp
  show ?case
    using step names_kept_trans [OF step Cons.IH]
    by (auto simp: Let_def split: prod.splits option.splits reg_error.splits)
qed (simp add: names_kept_refl)

definition good_draws :: "(nat \<Rightarrow> draw) \<Rightarrow> bool" where
  "good_draws draws \<longleftrightarrow> (\<forall>k. RestrictedNamePattern (GetRandomName (draws k) k))"

lemma tryNames_done:
  assumes "tryNames r draws i ks = (r', Some (Inr n))" "good_draws draws"
  shows "proper_name n \<and> mget (names r') n = Some i"
  using assms(1)
proof (induction ks arbitrary: r)
  case (Cons k ks)
  have "proper_name (slashed (GetRandomName (draws k) k))"
    using assms(2) by (intro slashed_proper) (simp add: good_draws_def)
  with Cons show ?case
    by (auto simp: Let_def dest: Reserve_ok split: prod.splits option.splits reg_error.splits)
qed simp

lemma contains_char: "contains s [c] \<longleftrightarrow> c \<in> set s"
  by (induction s) (auto simp: has_prefix_def)

lemma list_all_take: "list_all P xs \<Longrightarrow> list_all P (take n xs)"
  by (auto simp: list_all_iff dest: in_set_takeD)

lemma truncated_proper:
  assumes "full_id i"
  shows "proper_name (CHR ''/'' # TruncateID i)"
proof -
  have t: "TruncateID i = take 12 i" using full_id_chars(3) [OF assms] by (simp add: TruncateID_def)
  obtain x y zs where i: "take 12 i = x # y # zs"
    using assms by (cases i; cases "tl i") (auto simp: full_id_def)
  have "list_all is_hex (take 12 i)" using assms by (simp add: full_id_def list_all_take)
  then have "list_all alnum (take 12 i)" by (auto simp: list_all_iff is_hex_def alnum_def is_alpha_def)
  then show ?thesis unfolding t i by (auto simp: proper_name_def RestrictedNamePattern_def has_prefix_def list_all_iff)
qed

lemma generateNewName_kept: "names_kept d (fst (generateNewName d draws i))"
proof -
  obtain r res where tn: "tryNames (nameIndex d) draws i [0..<6] = (r, res)" by fastforce
  have k: "names_kept d (d\<lparr>nameIndex := r\<rparr>)"
    using tryNames_kept [of "nameIndex d" d draws i "[0..<6]"] tn by simp
  have "names_kept d (d\<lparr>nameIndex := fst (Reserve r n i)\<rparr>)" for n
    using names_kept_trans [OF k names_kept_reserve [of "d\<lparr>nameIndex := r\<rparr>" n i]] by simp
  then show ?thesis
    using k by (auto simp: generateNewName_def tn Let_def split: prod.splits option.splits sum.splits dest: fst_Reserve)
qed

lemma generateNewName_done:
  assumes "generateNewName d draws i = (d', Done n)" "good_draws draws" "full_id i"
  shows "proper_name n \<and> mget (names (nameIndex d')) n = Some i" "heap d' = heap d"
  using assms(1) truncated_proper [OF assms(3)] tryNames_done [OF _ assms(2)]
  by (auto simp: generateNewName_def Let_def dest: Reserve_ok split: prod.splits option.splits sum.splits)

lemma generateIDAndName_kept: "names_kept d (fst (generateIDAndName d draws i n))"
  by (simp add: generateIDAndName_def generateNewName_kept reserveName_kept)

lemma generateIDAndName_done:
  assumes "generateIDAndName d draws i n0 = (d', Done n)" "good_draws draws" "full_id i"
  shows "proper_name n \<and> mget (names (nameIndex d')) n = Some i" "heap d' = heap d"
  using assms(1) generateNewName_done [OF _ assms(2,3)] reserveName_done(2-4) [of d i n0 d' n]
  by (simp_all add: generateIDAndName_def split: if_splits)

subsection \<open>Links keep every name\<close>

lemma registerLink_kept: "names_kept d (fst (registerLink d p c alias))"
  using names_kept_reserve [of d "JoinPath [c_Name (heap d ! p), alias]" "c_ID (heap d ! c)"]
  by (auto simp: registerLink_def Let_def split: prod.splits option.splits reg_error.splits
    intro: names_kept_links [of d "d\<lparr>nameIndex := r\<rparr>" for r, simplified])

lemma registerOneLink_kept: "registerOneLink T d a l = Some (d', out) \<Longrightarrow> names_kept d d'"
  using registerLink_kept [of d a]
  by (auto simp: registerOneLink_def names_kept_refl dest: sym split: sum.splits outcome.splits option.splits if_splits)
    (metis fst_conv)+

lemma registerLinkLoop_kept: "registerLinkLoop T d a ls = Some (d', out) \<Longrightarrow> names_kept d d'"
proof (induction ls arbitrary: d)
  case (Cons l ls)
  then obtain d1 o1 where one: "registerOneLink T d a l = Some (d1, o1)" by (auto split: option.splits)
  have k: "names_kept d d1" by (rule registerOneLink_kept [OF one])
  show ?case
  proof (cases o1)
    case (Done u)
    then show ?thesis using Cons one names_kept_trans [OF k] by simp
  qed (use Cons one k in auto)
qed (simp add: names_kept_refl)

lemma registerLinks_kept: "registerLinks T io d a m ls = Some (d', out) \<Longrightarrow> names_kept d d'"
  by (auto simp: registerLinks_def names_kept_refl split: if_splits option.splits prod.splits outcome.splits
    dest: registerLinkLoop_kept)

lemma setHostConfig_kept:
  assumes "setHostConfig T io d a p = Some (d', out)"
  shows "names_kept d d'"
proof (cases "firstError io [CRegisterMountPoints]")
  case None
  then obtain d1 o1 where l: "registerLinks T io d a (p_NetworkMode p) (p_Links p) = Some (d1, o1)"
    using assms by (auto simp: setHostConfig_def split: option.splits)
  have k: "names_kept d d1" by (rule registerLinks_kept [OF l])
  have "names_kept d (setCtr d1 a (\<lambda>c. c\<lparr>c_NetworkMode := p_NetworkMode p, c_Links := p_Links p\<rparr>))"
    by (rule names_kept_trans [OF k names_kept_setCtr]) simp
  then show ?thesis using assms None l k by (cases o1) (auto simp: setHostConfig_def)
next
  case (Some e)
  then show ?thesis using assms by (auto simp: setHostConfig_def names_kept_refl)
qed

subsection \<open>Lookups\<close>

lemma GetByName_done: "GetByName d n = Done a \<Longrightarrow> \<exists>i. mget (containers d) i = Some a"
  by (auto simp: GetByName_def mem_Get_def split: if_splits sum.splits option.splits)

lemma GetContainer_stored:
  "GetContainer T d p = Done (Some a) \<Longrightarrow> \<exists>i. mget (containers d) i = Some a"
  by (auto simp: GetContainer_def mem_Get_def dest: GetByName_done
    split: option.splits outcome.splits sum.splits trunc_error.splits)

lemma GetContainer_ok:
  assumes "trie_ok T keys" "names_inv keys d" "GetContainer T d p = Done (Some a)"
  shows "stored_ok d (c_ID (heap d ! a)) a" "mget (containers d) (c_ID (heap d ! a)) = Some a"
proof -
  obtain i where i: "mget (containers d) i = Some a" using GetContainer_stored [OF assms(3)] by blast
  have "stored_ok d i a" by (rule names_invD(4) [OF assms(2) i])
  then show "stored_ok d (c_ID (heap d ! a)) a" "mget (containers d) (c_ID (heap d ! a)) = Some a"
    using i by (simp_all add: stored_ok_def)
qed

text \<open>A lookup that reports no error found a container: the prefix index never names one that is gone.\<close>

lemma GetContainer_not_nil:
  assumes "trie_ok T keys" "names_inv keys d"
  shows "GetContainer T d p \<noteq> Done None"
proof
  assume "GetContainer T d p = Done None"
  then obtain i where i: "ti_Get T (idIndex d) p = Inr i" "mget (containers d) i = None"
    by (auto simp: GetContainer_def mem_Get_def split: option.splits outcome.splits sum.splits trunc_error.splits)
  then have "p \<noteq> []" by (auto simp: ti_Get_def)
  then have "i \<in> trunc_ids (idIndex d)"
    using ti_Get_found(1) [OF assms(1) names_invD(2) [OF assms(2)]] i(1) by blast
  then show False using i(2) names_invD(3) [OF assms(2)] by simp
qed

lemma GetContainer_by_id: "mget (containers d) i = Some a \<Longrightarrow> GetContainer T d i = Done (Some a)"
  by (simp add: GetContainer_def mem_Get_def)

lemma GetContainer_by_name:
  assumes "names_inv keys d" "mget (containers d) i = Some a"
    and "slashed n = c_Name (heap d ! a)" "n \<noteq> []" "mget (containers d) n = None"
  shows "GetContainer T d n = Done (Some a)"
proof -
  have "mget (names (nameIndex d)) (slashed n) = Some i"
    using stored_okD(4) [OF names_invD(4) [OF assms(1,2)]] assms(3) by simp
  then have "GetByName d n = Done a" using assms(2,4) by (simp add: GetByName_def Get_def mem_Get_def)
  then show ?thesis using assms(5) by (simp add: GetContainer_def mem_Get_def)
qed

lemma GetContainer_by_prefix:
  assumes "trie_ok T keys" "names_inv keys d" "mget (containers d) i = Some a"
    and "{k. mget (containers d) k \<noteq> None \<and> has_prefix k p} = {i}" "p \<noteq> []"
    and "mget (names (nameIndex d)) (slashed p) = None"
  shows "GetContainer T d p = Done (Some a)"
proof (cases "mget (containers d) p")
  case None
  have "GetByName d p = Failed (NoEntity p)" using assms(5,6) by (simp add: GetByName_def Get_def)
  moreover have "ti_Get T (idIndex d) p = Inr i"
    using ti_Get_found(1) [OF assms(1) names_invD(2) [OF assms(2)] assms(5)] names_invD(3) [OF assms(2)] assms(4) by simp
  ultimately show ?thesis using None assms(3) by (simp add: GetContainer_def mem_Get_def)
next
  case (Some b)
  then have "p \<in> {k. mget (containers d) k \<noteq> None \<and> has_prefix k p}" by (simp add: has_prefix_self)
  then have "p = i" using assms(4) by blast
  then show ?thesis using GetContainer_by_id [OF assms(3)] by simp
qed

text \<open>Names of stored containers are distinct, because a reservation has one owner.\<close>

lemma stored_names_distinct:
  assumes "names_inv keys d" "mget (containers d) i = Some a" "mget (containers d) j = Some b" "i \<noteq> j"
  shows "c_Name (heap d ! a) \<noteq> c_Name (heap d ! b)"
  using stored_okD(4) [OF names_invD(4) [OF assms(1,2)]] stored_okD(4) [OF names_invD(4) [OF assms(1,3)]] assms(4)
  by auto

subsection \<open>Releasing names and forgetting containers\<close>

lemma names_inv_release:
  assumes "names_inv keys d" "\<And>i a. mget (containers d) i = Some a \<Longrightarrow> c_Name (heap d ! a) \<noteq> n"
  shows "names_inv keys (releaseName d n)"
proof (rule names_invI)
  show "registrar_inv (nameIndex (releaseName d n))"
    using names_invD(1) [OF assms(1)] by (simp add: releaseName_def inv_Release)
  show "trunc_inv keys (idIndex (releaseName d n))"
    "trunc_ids (idIndex (releaseName d n)) = {i. mget (containers (releaseName d n)) i \<noteq> None}"
    using names_invD(2,3) [OF assms(1)] by (simp_all add: releaseName_def)
  fix i a assume "mget (containers (releaseName d n)) i = Some a"
  then have "mget (containers d) i = Some a" by (simp add: releaseName_def)
  then have "stored_ok d i a" "c_Name (heap d ! a) \<noteq> n" using names_invD(4) [OF assms(1)] assms(2) by blast+
  then show "stored_ok (releaseName d n) i a" by (simp add: stored_ok_def releaseName_def names_Release)
qed

lemma forget_fields:
  "heap (forget T d a) = heap d"
  "containers (forget T d a) = mdel (c_ID (heap d ! a)) (containers d)"
  "idIndex (forget T d a) = fst (ti_Delete T (idIndex d) (c_ID (heap d ! a)))"
  "nameIndex (forget T d a) = Delete (nameIndex d) (c_ID (heap d ! a))"
  by (simp_all add: forget_def Let_def mem_Delete_def)

lemma names_inv_forget:
  assumes "trie_ok T keys" "names_inv keys d"
  shows "names_inv keys (forget T d a)"
proof (rule names_invI)
  let ?i = "c_ID (heap d ! a)"
  note inv = names_invD [OF assms(2)]
  show "registrar_inv (nameIndex (forget T d a))" using inv(1) by (simp add: forget_fields inv_Delete)
  show "trunc_inv keys (idIndex (forget T d a))" using trunc_inv_Delete [OF assms(1) inv(2)] by (simp add: forget_fields)
  have "[] \<notin> trunc_ids (idIndex d)" using inv(2) by (simp add: trunc_inv_def)
  then show "trunc_ids (idIndex (forget T d a)) = {i. mget (containers (forget T d a)) i \<noteq> None}"
    using inv(3) by (auto simp: forget_fields trunc_ids_Delete)
  fix i b assume "mget (containers (forget T d a)) i = Some b"
  then have "i \<noteq> ?i" "stored_ok d i b" using inv(4) by (auto simp: forget_fields split: if_splits)
  then show "stored_ok (forget T d a) i b" by (simp add: stored_ok_def forget_fields names_Delete [OF inv(1)])
qed

lemma pathDir_proper:
  assumes "proper_name n"
  shows "pathDir n = ''/''"
proof -
  obtain c cs where n: "n = CHR ''/'' # c # cs" and cs: "alnum c" "list_all (\<lambda>x. alnum x \<or> x \<in> set ''_.-'') cs"
    using assms by (cases n) (auto simp: proper_name_def RestrictedNamePattern_def has_prefix_def split: list.splits)
  have "\<not> alnum CHR ''/''" by (simp add: alnum_def is_alpha_def is_digit_def is_upper_def is_lower_def)
  then have "\<forall>x \<in> set (c # cs). x \<noteq> CHR ''/''" using cs by (auto simp: list_all_iff)
  then have "dropWhile (\<lambda>x. x \<noteq> CHR ''/'') (rev (c # cs) @ [CHR ''/'']) = [CHR ''/'']"
    by (subst dropWhile_append2) auto
  then show ?thesis by (simp add: pathDir_def n)
qed

lemma names_inv_links: "names_inv keys (d\<lparr>links := l\<rparr>) \<longleftrightarrow> names_inv keys d"
  by (simp add: names_inv_def stored_ok_def)

lemma names_inv_rmLink:
  assumes "names_inv keys d"
  shows "names_inv keys (fst (rmLink T d a n0))"
proof (cases "pathDir (slashed n0) = ''/''")
  case True
  then show ?thesis using assms by (simp add: rmLink_def Let_def)
next
  case False
  have "c_Name (heap d ! b) \<noteq> slashed n0" if "mget (containers d) i = Some b" for i b
    using stored_okD(3) [OF names_invD(4) [OF assms that]] pathDir_proper False by auto
  then have "names_inv keys (releaseName d (slashed n0))" by (rule names_inv_release [OF assms])
  then show ?thesis
    using assms False
    by (auto simp: rmLink_def Let_def names_inv_links split: sum.splits outcome.splits option.splits)
qed

lemma names_inv_setState: "names_inv keys d \<Longrightarrow> names_inv keys (setState d a f)"
  by (rule names_kept_inv [OF names_kept_setState])

lemma names_inv_cleanup:
  assumes "trie_ok T keys" "names_inv keys d"
  shows "names_inv keys (fst (cleanupContainer T io d a force))"
  using assms(2) names_inv_forget [OF assms(1)]
  by (auto simp: cleanupContainer_def killFirst_def stopThen_def Let_def names_inv_setState
    split: outcome.splits option.splits)

lemma names_inv_Rm:
  assumes "trie_ok T keys" "names_inv keys d"
  shows "names_inv keys (fst (ContainerRm T io d n config))"
proof -
  have "names_inv keys (fst (rmLink T (setState d a f) b n))" for a f b
    by (rule names_inv_rmLink [OF names_inv_setState [OF assms(2)]])
  moreover have "names_inv keys (fst (cleanupContainer T io (setState d a f) b force))" for a f b force
    by (rule names_inv_cleanup [OF assms(1) names_inv_setState [OF assms(2)]])
  ultimately show ?thesis
    using assms(2)
    by (simp add: ContainerRm_def Let_def names_inv_setState case_prod_beta split: outcome.splits option.splits)
qed

subsection \<open>Creation, renaming and start-up keep the invariant\<close>

text \<open>A container that is named but not yet stored.\<close>

definition has_name :: "'t daemon \<Rightarrow> nat \<Rightarrow> bool" where
  "has_name d a \<longleftrightarrow> stored_ok d (c_ID (heap d ! a)) a"

lemma names_inv_Register:
  assumes "trie_ok T keys" "names_inv keys d" "has_name d a"
  shows "names_inv keys (fst (Register T io d a))"
proof -
  let ?i = "c_ID (heap d ! a)"
  let ?d = "d\<lparr>containers := mem_Add (containers d) ?i a, idIndex := fst (ti_Add T (idIndex d) ?i)\<rparr>"
  note inv = names_invD [OF assms(2)]
  have i: "?i \<noteq> []" "\<not> contains ?i '' ''"
    using assms(3) full_id_chars [of ?i] by (simp_all add: has_name_def contains_char stored_ok_def)
  have "names_inv keys ?d"
  proof (rule names_invI)
    show "registrar_inv (nameIndex ?d)" using inv(1) by simp
    show "trunc_inv keys (idIndex ?d)" using trunc_inv_Add [OF assms(1) inv(2)] by simp
    show "trunc_ids (idIndex ?d) = {i. mget (containers ?d) i \<noteq> None}"
      using inv(3) i by (auto simp: trunc_ids_Add mem_Add_def)
    fix j b assume "mget (containers ?d) j = Some b"
    then have "stored_ok d j b" using inv(4) assms(3) by (auto simp: mem_Add_def has_name_def split: if_splits)
    then show "stored_ok ?d j b" by (simp add: stored_ok_def)
  qed
  then show ?thesis
    by (auto simp: Register_def Let_def names_inv_setState split: option.splits)
qed

lemma newContainer_kept: "names_kept d (fst (newContainer d p))"
proof -
  obtain d1 out where g: "generateIDAndName d (p_draws p) (p_newID p) (p_Name p) = (d1, out)" by fastforce
  have "names_kept d d1" using generateIDAndName_kept [of d "p_draws p" "p_newID p" "p_Name p"] g by simp
  then show ?thesis
    using names_kept_trans [OF _ names_kept_alloc] by (auto simp: newContainer_def g split: outcome.splits)
qed

lemma newContainer_named:
  assumes "newContainer d p = (d', Done a)" "good_draws (p_draws p)" "full_id (p_newID p)"
  shows "has_name d' a" "c_ID (heap d' ! a) = p_newID p" "a = length (heap d)"
proof -
  obtain d1 n where g: "generateIDAndName d (p_draws p) (p_newID p) (p_Name p) = (d1, Done n)"
    using assms(1) by (auto simp: newContainer_def split: prod.splits outcome.splits)
  note n = generateIDAndName_done [OF g assms(2,3)]
  show "has_name d' a" "c_ID (heap d' ! a) = p_newID p" "a = length (heap d)"
    using assms(1,3) n
    by (auto simp: newContainer_def g alloc_def has_name_def stored_ok_def split: outcome.splits)
qed

lemma names_inv_abort:
  assumes "trie_ok T keys" "names_inv keys d"
  shows "names_inv keys (fst (abortCreate T io d a e))"
  using names_inv_Rm [OF assms] by (auto simp: abortCreate_def split: prod.splits outcome.splits) (metis fst_conv)+

lemma names_inv_finish:
  assumes "trie_ok T keys" "names_inv keys d" "finishCreate T io d a p = Some (d', out)"
  shows "names_inv keys d'"
proof (cases "firstError io [CRootUIDGID, CMkdirAs]")
  case (Some e)
  then show ?thesis using assms(3) names_inv_abort [OF assms(1,2), of io a e] by (simp add: finishCreate_def)
next
  case None
  then obtain d1 o1 where s: "setHostConfig T io d a p = Some (d1, o1)"
    using assms(3) by (auto simp: finishCreate_def split: option.splits)
  have "names_inv keys d1" by (rule names_kept_inv [OF setHostConfig_kept [OF s] assms(2)])
  then show ?thesis
    using assms(3) None s names_inv_abort [OF assms(1), of d1 io a]
    by (auto simp: finishCreate_def split: outcome.splits option.splits) (metis fst_conv)+
qed

definition create_ok :: "create_params \<Rightarrow> bool" where
  "create_ok p \<longleftrightarrow> full_id (p_newID p) \<and> good_draws (p_draws p)"

lemma names_inv_create:
  assumes "trie_ok T keys" "names_inv keys d" "create_ok p" "daemon_create T io d p = Some (d', out)"
  shows "names_inv keys d'"
proof (cases "firstError io [CGetImage, CMergeConfig]")
  case (Some e)
  then show ?thesis using assms(2,4) by (simp add: daemon_create_def)
next
  case None
  obtain d1 o1 where n: "newContainer d p = (d1, o1)" by fastforce
  have inv1: "names_inv keys d1" using names_kept_inv [OF newContainer_kept assms(2), of p] n by simp
  show ?thesis
  proof (cases o1)
    case (Done a)
    have "has_name d1 a" using newContainer_named(1) n Done assms(3) by (auto simp: create_ok_def)
    then have inv2: "names_inv keys (fst (Register T io d1 a))" by (rule names_inv_Register [OF assms(1) inv1])
    obtain d2 o2 where r: "Register T io d1 a = (d2, o2)" by fastforce
    have inv2: "names_inv keys d2" using inv2 r by simp
    show ?thesis
      using assms(4) None n Done r inv2 names_inv_abort [OF assms(1) inv1, of io a] names_inv_abort [OF assms(1) inv2, of io a]
        names_inv_finish [OF assms(1) inv2]
      by (auto simp: daemon_create_def split: option.splits outcome.splits) (metis fst_conv)+
  qed (use assms(4) None n inv1 in \<open>auto simp: daemon_create_def\<close>)
qed

lemma names_inv_setName:
  assumes "names_inv keys d" "stored_ok d i a" "proper_name n" "mget (names (nameIndex d)) n = Some i"
  shows "names_inv keys (setName d a n)"
proof (rule names_invI)
  note inv = names_invD [OF assms(1)]
  show "registrar_inv (nameIndex (setName d a n))" "trunc_inv keys (idIndex (setName d a n))"
    "trunc_ids (idIndex (setName d a n)) = {i. mget (containers (setName d a n)) i \<noteq> None}"
    using inv(1-3) by (simp_all add: setName_def setCtr_def)
  fix j b assume "mget (containers (setName d a n)) j = Some b"
  then have "stored_ok d j b" using inv(4) by (simp add: setName_def setCtr_def)
  then show "stored_ok (setName d a n) j b"
    using assms(2-4) by (auto simp: stored_ok_def setName_def setCtr_def nth_update_at)
qed

lemma heap_setName: "a < length (heap d) \<Longrightarrow> b < length (heap d) \<Longrightarrow>
    heap (setName d a n) ! b = (if a = b then (heap d ! a)\<lparr>c_Name := n\<rparr> else heap d ! b)"
  by (simp add: setName_def setCtr_def nth_update_at)

text \<open>The old name of a container that got another name belongs to no stored container.\<close>

lemma names_inv_renamed:
  assumes "names_inv keys d" "mget (containers d) i = Some a" "proper_name n" "mget (names (nameIndex d)) n = Some i"
    and "c_Name (heap d ! a) \<noteq> n"
  shows "names_inv keys (releaseName (setName d a n) (c_Name (heap d ! a)))"
proof (rule names_inv_release)
  have ok: "stored_ok d i a" by (rule names_invD(4) [OF assms(1,2)])
  show "names_inv keys (setName d a n)" by (rule names_inv_setName [OF assms(1) ok assms(3,4)])
  fix j b assume "mget (containers (setName d a n)) j = Some b"
  then have jb: "mget (containers d) j = Some b" by (simp add: setName_def setCtr_def)
  have b: "b < length (heap d)" "c_ID (heap d ! b) = j" using stored_okD(1,2) [OF names_invD(4) [OF assms(1) jb]] .
  show "c_Name (heap (setName d a n) ! b) \<noteq> c_Name (heap d ! a)"
  proof (cases "b = a")
    case True
    then show ?thesis using assms(5) b by (simp add: heap_setName)
  next
    case False
    then have "j \<noteq> i" using jb assms(2) by auto
    then show ?thesis
      using False b stored_okD(1) [OF ok] stored_names_distinct [OF assms(1) jb assms(2)] by (simp add: heap_setName)
  qed
qed

lemma reserveName_free:
  assumes "proper_name n" "mget (names (nameIndex d)) n = None"
  shows "reserveName d i n = (d\<lparr>nameIndex := fst (Reserve (nameIndex d) n i)\<rparr>, Done n)"
  using assms slashed_id [of n] by (auto simp: proper_name_def reserveName_def Let_def Reserve_def)

lemma heap_nameIndex_commute: "d\<lparr>heap := h, nameIndex := r\<rparr> = d\<lparr>nameIndex := r, heap := h\<rparr>"
  by (rule daemon.equality) simp_all

lemma undoRename_alt:
  assumes "a < length (heap d)" "proper_name old" "mget (names (nameIndex d)) old = None"
  shows "undoRename d a old new =
    releaseName (setName (d\<lparr>nameIndex := fst (Reserve (nameIndex d) old (c_ID (heap d ! a)))\<rparr>) a old) new"
proof -
  have "c_ID (heap (setName d a old) ! a) = c_ID (heap d ! a)" "nameIndex (setName d a old) = nameIndex d"
    using assms(1) by (simp_all add: heap_setName) (simp add: setName_def setCtr_def)
  then show ?thesis
    using reserveName_free [of old "setName d a old"] assms(2,3)
    by (simp add: undoRename_def Let_def) (simp add: setName_def setCtr_def heap_nameIndex_commute)
qed

definition rename_ok :: "'t trie_api \<Rightarrow> 't daemon \<Rightarrow> string \<Rightarrow> string \<Rightarrow> bool" where
  "rename_ok T d old new \<longleftrightarrow>
     (case GetContainer T d old of Done (Some a) \<Rightarrow> c_Name (heap d ! a) \<noteq> slashed new | _ \<Rightarrow> True)"

text \<open>The state after the new name is reserved and entered and the old one is released.\<close>

lemma rename_middle:
  assumes "trie_ok T keys" "names_inv keys d" "GetContainer T d old = Done (Some a)" "rename_ok T d old new"
    and "reserveName d (c_ID (heap d ! a)) new = (d1, Done n)"
  defines "d2 \<equiv> releaseName (setName d1 a n) (c_Name (heap d ! a))"
  shows "names_inv keys d2" "containers d2 = containers d" "idIndex d2 = idIndex d" "length (heap d2) = length (heap d)"
    "c_Name (heap d2 ! a) = slashed new" "c_ID (heap d2 ! a) = c_ID (heap d ! a)"
    "mget (names (nameIndex d2)) = (mget (names (nameIndex d)))(slashed new \<mapsto> c_ID (heap d ! a), c_Name (heap d ! a) := None)"
    "a < length (heap d)" "proper_name (c_Name (heap d ! a))" "slashed new \<noteq> c_Name (heap d ! a)"
proof -
  let ?i = "c_ID (heap d ! a)"
  have st: "stored_ok d ?i a" "mget (containers d) ?i = Some a" using GetContainer_ok [OF assms(1-3)] .
  note r = reserveName_done [OF assms(5)]
  have kept: "names_kept d d1" using reserveName_kept [of d ?i new] assms(5) by simp
  have d1: "containers d1 = containers d" "idIndex d1 = idIndex d" using kept by (simp_all add: names_kept_def)
  show a: "a < length (heap d)" "proper_name (c_Name (heap d ! a))" using st(1) by (simp_all add: stored_ok_def)
  show ne: "slashed new \<noteq> c_Name (heap d ! a)" using assms(3,4) by (auto simp: rename_ok_def)
  show "names_inv keys d2"
    unfolding d2_def using names_inv_renamed [OF names_kept_inv [OF kept assms(2)], of ?i a n] st(2) r ne d1 by simp
  show "containers d2 = containers d" "idIndex d2 = idIndex d" "length (heap d2) = length (heap d)"
    using d1 r(4) by (simp_all add: d2_def releaseName_def setName_def setCtr_def)
  have h: "heap d2 ! a = (heap d ! a)\<lparr>c_Name := n\<rparr>"
    using a r(4) by (simp add: d2_def releaseName_def) (simp add: setName_def setCtr_def)
  then show "c_Name (heap d2 ! a) = slashed new" "c_ID (heap d2 ! a) = ?i" using r(1) by simp_all
  have names: "mget (names (nameIndex d1)) = (mget (names (nameIndex d)))(slashed new \<mapsto> ?i)"
    using assms(5)
    by (auto simp: reserveName_def Let_def Reserve_def fun_eq_iff split: if_splits option.splits sum.splits)
  have "nameIndex d2 = Release (nameIndex d1) (c_Name (heap d ! a))"
    by (simp add: d2_def releaseName_def setName_def setCtr_def)
  then show "mget (names (nameIndex d2)) = (mget (names (nameIndex d)))(slashed new \<mapsto> ?i, c_Name (heap d ! a) := None)"
    by (auto simp: names_Release names fun_eq_iff)
qed

lemma undoRename_restores:
  assumes "names_inv keys d2" "mget (containers d2) i = Some a" "c_Name (heap d2 ! a) = new" "new \<noteq> old"
    and "proper_name old" "mget (names (nameIndex d2)) old = None"
  shows "names_inv keys (undoRename d2 a old new)"
    "mget (names (nameIndex (undoRename d2 a old new))) = (mget (names (nameIndex d2)))(old \<mapsto> i, new := None)"
    "c_Name (heap (undoRename d2 a old new) ! a) = old"
proof -
  note ok = stored_okD [OF names_invD(4) [OF assms(1,2)]]
  let ?d = "d2\<lparr>nameIndex := fst (Reserve (nameIndex d2) old i)\<rparr>"
  have inv: "names_inv keys ?d" by (rule names_kept_inv [OF names_kept_reserve assms(1)])
  have names: "mget (names (nameIndex ?d)) = (mget (names (nameIndex d2)))(old \<mapsto> i)"
    using assms(6) by (auto simp: names_Reserve fun_eq_iff)
  have u: "undoRename d2 a old new = releaseName (setName ?d a old) new"
    using undoRename_alt [OF ok(1) assms(5,6)] ok(2) by simp
  show "names_inv keys (undoRename d2 a old new)"
    unfolding u using names_inv_renamed [OF inv, of i a old] assms(2-5) names by simp
  show "mget (names (nameIndex (undoRename d2 a old new))) = (mget (names (nameIndex d2)))(old \<mapsto> i, new := None)"
    unfolding u using names by (auto simp: releaseName_def names_Release setName_def setCtr_def fun_eq_iff)
  show "c_Name (heap (undoRename d2 a old new) ! a) = old"
    unfolding u using ok(1) by (simp add: releaseName_def) (simp add: setName_def setCtr_def)
qed

lemma names_inv_rename:
  assumes "trie_ok T keys" "names_inv keys d" "rename_ok T d old new"
  shows "names_inv keys (fst (ContainerRename T io d old new))"
proof (cases "\<exists>a d1 n. old \<noteq> [] \<and> new \<noteq> [] \<and> GetContainer T d old = Done (Some a)
    \<and> reserveName d (c_ID (heap d ! a)) new = (d1, Done n)")
  case True
  then obtain a d1 n where *: "old \<noteq> []" "new \<noteq> []" "GetContainer T d old = Done (Some a)"
    "reserveName d (c_ID (heap d ! a)) new = (d1, Done n)" by blast
  note m = rename_middle [OF assms(1,2) *(3) assms(3) *(4)]
  let ?d2 = "releaseName (setName d1 a n) (c_Name (heap d ! a))"
  have st: "mget (containers d) (c_ID (heap d ! a)) = Some a" using GetContainer_ok(2) [OF assms(1,2) *(3)] .
  have n: "n = slashed new" using reserveName_done(1) [OF *(4)] .
  have "names_inv keys (undoRename ?d2 a (c_Name (heap d ! a)) n)"
    by (rule undoRename_restores(1) [of _ _ "c_ID (heap d ! a)"]) (use m st n in auto)
  then show ?thesis using * m(1) by (simp add: ContainerRename_def Let_def split: option.splits)
next
  case False
  have k: "names_inv keys (fst (reserveName d i new))" for i by (rule names_kept_inv [OF reserveName_kept assms(2)])
  show ?thesis
    using False assms(2) k
    by (auto simp: ContainerRename_def Let_def split: outcome.splits option.splits prod.splits) (metis fst_conv)+
qed

lemma names_kept_setName_new:
  assumes "names_kept d d'" "length (heap d) \<le> a"
  shows "names_kept d (setName d' a n)"
  using assms by (auto simp: names_kept_def setName_def setCtr_def nth_list_update)

definition loaded_ok :: "ctr \<times> (nat \<Rightarrow> draw) \<Rightarrow> bool" where
  "loaded_ok cd \<longleftrightarrow>
     (case cd of (c, draws) \<Rightarrow> full_id (c_ID c) \<and> (c_Name c = [] \<or> proper_name (c_Name c)) \<and> good_draws draws)"

text \<open>What \<^verbatim>\<open>registerName\<close> leaves behind: nothing but reservations, and a named container when it succeeds.\<close>

lemma registerName_step:
  assumes "registerName T (alloc d c) draws (length (heap d)) = (d1, out)" "loaded_ok (c, draws)"
  shows "names_kept d d1" "out = Done u \<Longrightarrow> has_name d1 (length (heap d))"
proof -
  let ?a = "length (heap d)" and ?d0 = "alloc d c"
  have c: "heap ?d0 ! ?a = c" "length (heap ?d0) = Suc ?a" by (simp_all add: alloc_def)
  have id: "full_id (c_ID c)" and draws: "good_draws draws" using assms(2) by (simp_all add: loaded_ok_def)
  have k0: "names_kept d ?d0" by (rule names_kept_alloc)
  obtain g og where gen: "generateNewName ?d0 draws (c_ID c) = (g, og)" by fastforce
  have kg: "names_kept d g"
    using names_kept_trans [OF k0 generateNewName_kept [of ?d0 draws "c_ID c"]] gen by simp
  have hg: "heap g ! ?a = c" "length (heap g) = Suc ?a" if "og = Done n" for n
    using generateNewName_done(2) [OF gen [unfolded that] draws id] c by simp_all
  have ks: "names_kept d (setName g ?a n)" for n by (rule names_kept_setName_new [OF kg]) simp
  have kr: "names_kept d (d'\<lparr>nameIndex := fst (Reserve (nameIndex d') n i)\<rparr>)" if "names_kept d d'" for d' n i
    by (rule names_kept_trans [OF that names_kept_reserve])
  show "names_kept d d1"
    using assms(1) k0 kg ks kr [OF k0] kr [OF ks]
    by (auto simp: registerName_def Let_def c gen split: outcome.splits bool.splits option.splits prod.splits if_splits dest: fst_Reserve)
  show "has_name d1 ?a" if o: "out = Done u"
  proof (cases "c_Name c = []")
    case False
    then have "proper_name (c_Name c)" using assms(2) by (simp add: loaded_ok_def)
    then show ?thesis
      using assms(1) o c id False
      by (auto simp: registerName_def Let_def has_name_def stored_ok_def dest: Reserve_ok
        split: outcome.splits bool.splits option.splits prod.splits)
  next
    case True
    then obtain n where og: "og = Done n"
      using assms(1) o c gen by (auto simp: registerName_def Let_def split: outcome.splits bool.splits option.splits prod.splits)
    note gd = generateNewName_done(1) [OF gen [unfolded og] draws id]
    have h: "heap (setName g ?a n) ! ?a = c\<lparr>c_Name := n\<rparr>" "length (heap (setName g ?a n)) = Suc ?a"
      using hg [OF og] by (simp_all add: setName_def setCtr_def)
    show ?thesis
      using assms(1) o c id True gen og gd h
      by (auto simp: registerName_def Let_def has_name_def stored_ok_def dest: Reserve_ok
        split: outcome.splits bool.splits option.splits prod.splits)
  qed
qed

lemma names_inv_restoreRegister:
  assumes "trie_ok T keys" "names_inv keys d" "list_all loaded_ok cs"
  shows "names_inv keys (fst (restoreRegister T io d cs))"
  using assms(2,3)
proof (induction cs arbitrary: d)
  case (Cons x cs)
  obtain c draws where x: "x = (c, draws)" by (cases x)
  obtain d1 o1 where r: "registerName T (alloc d c) draws (length (heap d)) = (d1, o1)" by fastforce
  have ok: "loaded_ok (c, draws)" using Cons.prems(2) x by simp
  have inv1: "names_inv keys d1" by (rule names_kept_inv [OF registerName_step(1) [OF r ok] Cons.prems(1)])
  obtain d2 o2 where g: "Register T io d1 (length (heap d)) = (d2, o2)" by fastforce
  have inv2: "names_inv keys d2" if "o1 = Done u" for u
    using names_inv_Register [OF assms(1) inv1 registerName_step(2) [OF r ok that], of io] g by simp
  have IH: "names_inv keys (fst (restoreRegister T io d' cs))" if "names_inv keys d'" for d'
    using Cons.IH [OF that] Cons.prems(2) by simp
  show ?case
    using inv1 inv2 IH [OF inv1] IH [OF inv2]
    by (cases o1; cases o2) (auto simp: x r g Let_def split: prod.splits outcome.splits)
qed simp

lemma names_inv_restoreLinks:
  "restoreLinks T io d as = Some (d', out) \<Longrightarrow> names_inv keys d \<Longrightarrow> names_inv keys d'"
proof (induction "as" arbitrary: d)
  case (Cons a as)
  then obtain d1 o1 where r: "registerLinks T io d a (c_NetworkMode (heap d ! a)) (c_Links (heap d ! a)) = Some (d1, o1)"
    by (auto split: option.splits)
  have "names_inv keys d1" by (rule names_kept_inv [OF registerLinks_kept [OF r] Cons.prems(2)])
  then show ?case using Cons r by (cases o1) auto
qed simp

lemma names_inv_restore:
  assumes "trie_ok T keys" "names_inv keys d" "list_all loaded_ok cs" "restore T io d cs = Some (d', out)"
  shows "names_inv keys d'"
proof -
  obtain d1 o1 where r: "restoreRegister T io d cs = (d1, o1)" by fastforce
  have "names_inv keys d1" using names_inv_restoreRegister [OF assms(1-3), of io] r by simp
  then show ?thesis using assms(4) r by (cases o1) (auto simp: restore_def dest: names_inv_restoreLinks)
qed

subsection \<open>The states of a daemon\<close>

text \<open>
  The states a daemon passes through: it starts by loading containers, and then serves requests that
  return, while the containers change their own state.
\<close>

inductive daemon_reach :: "'t trie_api \<Rightarrow> 't daemon \<Rightarrow> bool" for T where
  reach_start: "list_all loaded_ok cs \<Longrightarrow> restore T io (newDaemon T) cs = Some (d, out) \<Longrightarrow> daemon_reach T d"
| reach_create: "daemon_reach T d \<Longrightarrow> create_ok p \<Longrightarrow> daemon_create T io d p = Some (d', out) \<Longrightarrow> daemon_reach T d'"
| reach_rename: "daemon_reach T d \<Longrightarrow> rename_ok T d old new \<Longrightarrow> daemon_reach T (fst (ContainerRename T io d old new))"
| reach_rm: "daemon_reach T d \<Longrightarrow> daemon_reach T (fst (ContainerRm T io d n config))"
| reach_state: "daemon_reach T d \<Longrightarrow> daemon_reach T (setState d a f)"

lemma reach_inv:
  assumes "trie_ok T keys" "daemon_reach T d"
  shows "names_inv keys d"
  using assms(2)
proof (induction rule: daemon_reach.induct)
  case (reach_start cs io d out)
  show ?case by (rule names_inv_restore [OF assms(1) names_inv_new [OF assms(1)] reach_start])
next
  case (reach_create d p io d' out)
  show ?case by (rule names_inv_create [OF assms(1) reach_create.IH reach_create(2,3)])
qed (simp_all add: names_inv_rename [OF assms(1)] names_inv_Rm [OF assms(1)] names_inv_setState)

end
