(* ===== verification/Daemon_Requests.thy ===== *)
theory Daemon_Requests
  imports Daemon_Names_Properties
begin

section \<open>Requests that name containers\<close>

text \<open>
  The properties of the daemon's requests over the invariant of its indexes: which container a
  reference finds, what a renaming moves, what a failed or finished request leaves behind, and when
  linking returns.
\<close>

subsection \<open>Finding\<close>

lemma name_is_no_id:
  assumes "names_inv keys d" "proper_name n"
  shows "mget (containers d) n = None"
proof (rule ccontr)
  assume "mget (containers d) n \<noteq> None"
  then obtain a where "mget (containers d) n = Some a" by blast
  then have "CHR ''/'' \<notin> set n" using full_id_chars(4) stored_okD(5) [OF names_invD(4) [OF assms(1)]] by blast
  moreover have "CHR ''/'' \<in> set n" using assms(2) by (cases n) (auto simp: proper_name_def has_prefix_def)
  ultimately show False by blast
qed

lemma proper_nonempty: "proper_name n \<Longrightarrow> n \<noteq> []"
  by (auto simp: proper_name_def RestrictedNamePattern_def)

lemma find_by_name:
  assumes "names_inv keys d" "mget (containers d) i = Some a"
  shows "GetContainer T d (c_Name (heap d ! a)) = Done (Some a)"
proof -
  have p: "proper_name (c_Name (heap d ! a))" by (rule stored_okD(3) [OF names_invD(4) [OF assms]])
  show ?thesis
    by (rule GetContainer_by_name [OF assms])
      (use p name_is_no_id [OF assms(1) p] proper_nonempty [OF p] in \<open>simp_all add: proper_name_def slashed_id\<close>)
qed


subsection \<open>Renaming\<close>


text \<open>
  Renaming a container to the name it already has succeeds and leaves the container without a reserved
  name: the reservation is idempotent, and the release of the old name undoes it.
\<close>

theorem rename_to_own_name_frees_it:
  assumes "trie_ok T keys" "daemon_reach T d" "GetContainer T d old = Done (Some a)" "old \<noteq> []"
    and "slashed new = c_Name (heap d ! a)" "RestrictedNamePattern new" "answer io CRenameToDisk = None"
    and "\<not> Running (c_State (heap d ! a))"
  shows "\<exists>d'. ContainerRename T io d old new = (d', Done ()) \<and> c_Name (heap d' ! a) = c_Name (heap d ! a)
    \<and> Get (nameIndex d') (c_Name (heap d ! a)) = Inl ErrNameNotReserved"
proof -
  note st = GetContainer_ok [OF assms(1) reach_inv [OF assms(1,2)] assms(3)]
  note ok = stored_okD [OF st(1)]
  have new: "new \<noteq> []" using assms(6) by (auto simp: RestrictedNamePattern_def)
  have "reserveName d (c_ID (heap d ! a)) new = (d, Done (c_Name (heap d ! a)))"
    using assms(5,6) ok(4) by (simp add: reserveName_def Let_def Reserve_def)
  moreover have "heap (releaseName (setName d a (c_Name (heap d ! a))) n) ! a = heap d ! a" for n
    using ok(1) by (simp add: releaseName_def setName_def setCtr_def)
  moreover have "Get (nameIndex (releaseName (setName d a n) m)) m = Inl ErrNameNotReserved" for n m
    by (simp add: releaseName_def Get_def names_Release)
  ultimately show ?thesis
    using assms(3,4,7,8) new by (simp add: ContainerRename_def Let_def)
qed

subsection \<open>Removing\<close>

lemma setState_fields:
  "containers (setState d a f) = containers d" "idIndex (setState d a f) = idIndex d"
  "nameIndex (setState d a f) = nameIndex d" "links (setState d a f) = links d"
  by (simp_all add: setState_def setCtr_def)

lemma setState_ID: "b < length (heap d) \<Longrightarrow> c_ID (heap (setState d a f) ! b) = c_ID (heap d ! b)"
  by (simp add: setState_def setCtr_def nth_update_at)

lemma setState_State: "a < length (heap d) \<Longrightarrow> c_State (heap (setState d a f) ! a) = f (c_State (heap d ! a))"
  by (simp add: setState_def setCtr_def)

lemma length_setState: "length (heap (setState d a f)) = length (heap d)"
  by (simp add: setState_def setCtr_def)

text \<open>A removal by force that can stop the container forgets it, whatever the removal of its files answers.\<close>

definition can_stop :: "io \<Rightarrow> State \<Rightarrow> bool" where
  "can_stop io s \<longleftrightarrow> Running s \<longrightarrow> answer io CKill = None \<and> answer io CStop = None"

lemma cleanup_forgets:
  assumes "a < length (heap d)" "can_stop io (c_State (heap d ! a))"
  shows "\<exists>d3. fst (cleanupContainer T io d a True) = forget T d3 a \<and> containers d3 = containers d \<and> idIndex d3 = idIndex d
    \<and> nameIndex d3 = nameIndex d \<and> c_ID (heap d3 ! a) = c_ID (heap d ! a)
    \<and> snd (cleanupContainer T io d a True) = (case removeFiles io of None \<Rightarrow> Done () | Some e \<Rightarrow> Failed e)"
  using assms
  by (auto simp: cleanupContainer_def killFirst_def stopThen_def can_stop_def Let_def setState_fields setState_ID length_setState)

lemma Rm_forgets:
  assumes "trie_ok T keys" "names_inv keys d" "GetContainer T d n = Done (Some a)"
    and "\<not> RemovalInProgress (c_State (heap d ! a))" "can_stop io (c_State (heap d ! a))"
  defines "d' \<equiv> fst (ContainerRm T io d n \<lparr>ForceRemove = True, RemoveLink = False\<rparr>)"
  shows "mget (containers d') = (mget (containers d))(c_ID (heap d ! a) := None)"
    and "mget (names (nameIndex d')) = (\<lambda>m. if mget (names (nameIndex d)) m = Some (c_ID (heap d ! a)) then None
           else mget (names (nameIndex d)) m)"
    and "snd (ContainerRm T io d n \<lparr>ForceRemove = True, RemoveLink = False\<rparr>) = (case removeFiles io of None \<Rightarrow> Done () | Some e \<Rightarrow> Failed e)"
proof -
  note st = GetContainer_ok [OF assms(1-3)]
  note a = stored_okD(1) [OF st(1)]
  let ?d1 = "setState d a (\<lambda>_. (c_State (heap d ! a))\<lparr>RemovalInProgress := True\<rparr>)"
  have "can_stop io (c_State (heap ?d1 ! a))" using assms(5) a by (simp add: setState_State can_stop_def)
  then obtain d3 where d3: "fst (cleanupContainer T io ?d1 a True) = forget T d3 a" "containers d3 = containers d"
    "nameIndex d3 = nameIndex d" "c_ID (heap d3 ! a) = c_ID (heap d ! a)"
    "snd (cleanupContainer T io ?d1 a True) = (case removeFiles io of None \<Rightarrow> Done () | Some e \<Rightarrow> Failed e)"
    using cleanup_forgets [of a ?d1 io T] a by (auto simp: setState_fields setState_ID length_setState)
  have rm: "ContainerRm T io d n \<lparr>ForceRemove = True, RemoveLink = False\<rparr> =
      (setState (forget T d3 a) a ResetRemovalInProgress, case removeFiles io of None \<Rightarrow> Done () | Some e \<Rightarrow> Failed e)"
    using assms(3,4) st(2) a d3(1,5)
    by (simp add: ContainerRm_def SetRemovalInProgress_def Let_def mem_Get_def setState_fields setState_ID case_prod_beta)
  show "mget (containers d') = (mget (containers d))(c_ID (heap d ! a) := None)"
    by (auto simp: d'_def rm setState_fields forget_fields d3(2-4) fun_eq_iff)
  show "mget (names (nameIndex d')) = (\<lambda>m. if mget (names (nameIndex d)) m = Some (c_ID (heap d ! a)) then None
           else mget (names (nameIndex d)) m)"
    by (simp add: d'_def rm setState_fields forget_fields d3(2-4) names_Delete [OF names_invD(1) [OF assms(2)]])
  show "snd (ContainerRm T io d n \<lparr>ForceRemove = True, RemoveLink = False\<rparr>) = (case removeFiles io of None \<Rightarrow> Done () | Some e \<Rightarrow> Failed e)"
    by (simp add: rm)
qed

text \<open>
  C12: removing a container by force, when its process can be stopped, forgets exactly that container,
  even if removing its files, its layer or its driver data fails, in which case that error is returned:
  no other container leaves the store, every name of the container becomes free, and no other name does.
\<close>

theorem forced_removal_forgets:
  assumes "trie_ok T keys" "daemon_reach T d" "GetContainer T d n = Done (Some a)"
    and "\<not> RemovalInProgress (c_State (heap d ! a))" "can_stop io (c_State (heap d ! a))"
  shows "case ContainerRm T io d n \<lparr>ForceRemove = True, RemoveLink = False\<rparr> of (d', out) \<Rightarrow>
      mget (containers d') = (mget (containers d))(c_ID (heap d ! a) := None)
    \<and> (\<forall>m. Get (nameIndex d') m =
         (if Get (nameIndex d) m = Inr (c_ID (heap d ! a)) then Inl ErrNameNotReserved else Get (nameIndex d) m))
    \<and> out = (case removeFiles io of None \<Rightarrow> Done () | Some e \<Rightarrow> Failed e)"
  using Rm_forgets [OF assms(1) reach_inv [OF assms(1,2)] assms(3-5)]
  by (simp add: case_prod_beta Get_def split: option.splits)

text \<open>
  The names that a parent gave to its children are reserved for the children, so that removing the
  parent does not free them; linking under such a name later succeeds without a link.
\<close>

theorem link_name_outlives_parent:
  assumes "trie_ok T keys" "daemon_reach T d" "GetContainer T d n = Done (Some a)"
    and "\<not> RemovalInProgress (c_State (heap d ! a))" "can_stop io (c_State (heap d ! a))"
    and "mget (names (nameIndex d)) m = Some k" "k \<noteq> c_ID (heap d ! a)"
  defines "d' \<equiv> fst (ContainerRm T io d n \<lparr>ForceRemove = True, RemoveLink = False\<rparr>)"
  shows "mget (names (nameIndex d')) m = Some k"
    and "m = JoinPath [c_Name (heap d'' ! p), alias] \<Longrightarrow> nameIndex d'' = nameIndex d' \<Longrightarrow> c_ID (heap d'' ! c) \<noteq> k \<Longrightarrow>
      registerLink d'' p c alias = (d'', Done ())"
proof -
  show *: "mget (names (nameIndex d')) m = Some k"
    using Rm_forgets(2) [OF assms(1) reach_inv [OF assms(1,2)] assms(3-5)] assms(6,7) by (simp add: d'_def)
  show "registerLink d'' p c alias = (d'', Done ())"
    if "m = JoinPath [c_Name (heap d'' ! p), alias]" "nameIndex d'' = nameIndex d'" "c_ID (heap d'' ! c) \<noteq> k"
    using that * by (simp add: registerLink_def Let_def Reserve_def)
qed

subsection \<open>Creating\<close>

lemma registerOneLink_heap: "registerOneLink T d a l = Some (d', out) \<Longrightarrow> heap d' = heap d"
  by (auto simp: registerOneLink_def registerLink_def Let_def
    split: sum.splits outcome.splits option.splits if_splits prod.splits reg_error.splits)

lemma registerLinkLoop_heap: "registerLinkLoop T d a ls = Some (d', out) \<Longrightarrow> heap d' = heap d"
proof (induction ls arbitrary: d)
  case (Cons l ls)
  then obtain d1 o1 where one: "registerOneLink T d a l = Some (d1, o1)" by (auto split: option.splits)
  then show ?case using Cons registerOneLink_heap [OF one] by (cases o1) auto
qed simp

lemma registerLinks_heap: "registerLinks T io d a m ls = Some (d', out) \<Longrightarrow> heap d' = heap d"
  by (auto simp: registerLinks_def split: if_splits option.splits prod.splits outcome.splits dest: registerLinkLoop_heap)

lemma setHostConfig_state:
  assumes "setHostConfig T io d a p = Some (d', out)"
  shows "length (heap d') = length (heap d)" "a < length (heap d) \<Longrightarrow> c_State (heap d' ! a) = c_State (heap d ! a)"
  using assms registerLinks_heap
  by (fastforce simp: setHostConfig_def setCtr_def split: option.splits prod.splits outcome.splits)+

text \<open>A container that was registered and has not run is forgotten by the deferred removal.\<close>

definition fresh_ctr :: "'t daemon \<Rightarrow> nat \<Rightarrow> string \<Rightarrow> bool" where
  "fresh_ctr d a i \<longleftrightarrow> mget (containers d) i = Some a \<and> c_State (heap d ! a) = NewState"

lemma abort_forgets:
  assumes "trie_ok T keys" "names_inv keys d" "fresh_ctr d a i"
  shows "snd (abortCreate T io d a e) = Failed e"
    and "mget (containers (fst (abortCreate T io d a e))) = (mget (containers d))(i := None)"
    and "mget (names (nameIndex (fst (abortCreate T io d a e)))) m \<noteq> Some i"
proof -
  have ia: "mget (containers d) i = Some a" and new: "c_State (heap d ! a) = NewState" using assms(3) by (simp_all add: fresh_ctr_def)
  have id: "c_ID (heap d ! a) = i" by (rule stored_okD(2) [OF names_invD(4) [OF assms(2) ia]])
  have "\<not> RemovalInProgress (c_State (heap d ! a))" "can_stop io (c_State (heap d ! a))"
    by (simp_all add: new NewState_def can_stop_def)
  note rm = Rm_forgets [OF assms(1,2) GetContainer_by_id [OF ia] this]
  obtain d' out where r: "ContainerRm T io d i \<lparr>ForceRemove = True, RemoveLink = False\<rparr> = (d', out)" by fastforce
  have "out = Done () \<or> (\<exists>e. out = Failed e)" using rm(3) r by (auto split: option.splits)
  then have ab: "abortCreate T io d a e = (d', Failed e)" by (auto simp: abortCreate_def id r)
  show "snd (abortCreate T io d a e) = Failed e" by (simp add: ab)
  show "mget (containers (fst (abortCreate T io d a e))) = (mget (containers d))(i := None)"
    using rm(1) r ab id by (auto simp: fun_eq_iff)
  show "mget (names (nameIndex (fst (abortCreate T io d a e)))) m \<noteq> Some i"
    using rm(2) r ab id by simp
qed

lemma finish_failed:
  assumes "trie_ok T keys" "names_inv keys d" "fresh_ctr d a i" "finishCreate T io d a p = Some (d', Failed e)"
  shows "mget (containers d') = (mget (containers d))(i := None)" "mget (names (nameIndex d')) m \<noteq> Some i"
proof -
  have "\<exists>d0 e. names_inv keys d0 \<and> fresh_ctr d0 a i \<and> containers d0 = containers d \<and> d' = fst (abortCreate T io d0 a e)"
  proof (cases "firstError io [CRootUIDGID, CMkdirAs]")
    case (Some e')
    then have "abortCreate T io d a e' = (d', Failed e)" using assms(4) by (simp add: finishCreate_def)
    then show ?thesis using assms(2,3) by (metis fst_conv)
  next
    case None
    then obtain d1 o1 where s: "setHostConfig T io d a p = Some (d1, o1)"
      using assms(4) by (auto simp: finishCreate_def split: option.splits)
    have a: "a < length (heap d)" using assms(3) stored_okD(1) [OF names_invD(4) [OF assms(2)]] by (auto simp: fresh_ctr_def)
    have k: "names_kept d d1" by (rule setHostConfig_kept [OF s])
    have "names_inv keys d1" "containers d1 = containers d" "fresh_ctr d1 a i"
      using names_kept_inv [OF k assms(2)] k assms(3) setHostConfig_state(2) [OF s a]
      by (simp_all add: fresh_ctr_def names_kept_def)
    moreover have "\<exists>e'. abortCreate T io d1 a e' = (d', Failed e)"
      using assms(4) None s by (auto simp: finishCreate_def split: outcome.splits option.splits)
    ultimately show ?thesis by (metis fst_conv)
  qed
  then obtain d0 e' where d0: "names_inv keys d0" "fresh_ctr d0 a i" "containers d0 = containers d" "d' = fst (abortCreate T io d0 a e')"
    by blast
  note ab = abort_forgets(2,3) [OF assms(1) d0(1,2), of io e']
  show "mget (containers d') = (mget (containers d))(i := None)" "mget (names (nameIndex d')) m \<noteq> Some i"
    using ab d0(3,4) by (auto simp: fun_eq_iff)
qed

lemma Register_new:
  assumes "c_State (heap d ! a) = NewState"
  shows "Register T io d a = (d\<lparr>containers := mput (c_ID (heap d ! a)) a (containers d),
      idIndex := fst (ti_Add T (idIndex d) (c_ID (heap d ! a)))\<rparr>, Done ())"
  using assms by (simp add: Register_def Let_def mem_Add_def NewState_def)

lemma newContainer_state: "newContainer d p = (d', Done a) \<Longrightarrow> c_State (heap d' ! a) = NewState"
  by (auto simp: newContainer_def alloc_def split: prod.splits outcome.splits)

text \<open>A name that cannot be reserved changes nothing.\<close>

lemma tryNames_none:
  "fst (tryNames r draws i ks) = r \<or> (\<exists>n. snd (tryNames r draws i ks) = Some (Inr n))"
proof (induction ks)
  case (Cons k ks)
  show ?case using Cons
    by (auto simp: Let_def Reserve_def split: option.splits if_splits)
qed simp

lemma newContainer_failed:
  assumes "newContainer d p = (d', Failed e)"
  shows "d' = d"
proof -
  let ?r = "tryNames (nameIndex d) (p_draws p) (p_newID p) [0..<6]"
  have "fst ?r = nameIndex d \<or> (\<exists>n. snd ?r = Some (Inr n))" by (rule tryNames_none)
  then show ?thesis
    using assms
    by (auto simp: newContainer_def generateIDAndName_def generateNewName_def reserveName_def Reserve_def Let_def
      split: prod.splits outcome.splits if_splits option.splits sum.splits reg_error.splits)
qed


text \<open>
  A creation that fails before the container is registered keeps its name: the deferred removal does
  not find the container, and the name stays reserved for an identifier that the daemon does not know.
\<close>

theorem failed_create_keeps_name:
  assumes "trie_ok T keys" "daemon_reach T d" "create_ok p" "RestrictedNamePattern (p_Name p)"
    and "mget (names (nameIndex d)) (slashed (p_Name p)) = None"
    and "\<forall>k. mget (containers d) k \<noteq> None \<longrightarrow> \<not> has_prefix k (p_newID p)"
    and "slashed (p_newID p) \<noteq> slashed (p_Name p)" "mget (names (nameIndex d)) (slashed (p_newID p)) = None"
    and "answer io CGetImage = None" "answer io CMergeConfig = None" "answer io CSetSecurityOptions = None"
    and "answer io CSetRWLayer = Some msg"
  shows "\<exists>d'. daemon_create T io d p = Some (d', Failed (CallFailed CSetRWLayer msg)) \<and> mget (containers d') (p_newID p) = None
    \<and> (\<forall>i. i \<noteq> p_newID p \<longrightarrow> snd (reserveName d' i (p_Name p)) = Failed (NameConflict (slashed (p_Name p)) (p_newID p)))"
proof -
  let ?i = "p_newID p" and ?n = "slashed (p_Name p)"
  note inv = reach_inv [OF assms(1,2)]
  have ne: "p_Name p \<noteq> []" "?i \<noteq> []"
    using assms(3,4) full_id_chars(1) by (auto simp: RestrictedNamePattern_def create_ok_def)
  define c where "c = \<lparr>c_ID = ?i, c_Name = ?n, c_State = NewState, c_NetworkMode = [], c_Links = []\<rparr>"
  define d1 where "d1 = alloc (d\<lparr>nameIndex := fst (Reserve (nameIndex d) ?n ?i)\<rparr>) c"
  have new: "newContainer d p = (d1, Done (length (heap d)))"
    using assms(4,5) ne(1)
    by (simp add: newContainer_def generateIDAndName_def reserveName_def Reserve_def Let_def d1_def c_def)
  have kept: "names_kept d d1" using newContainer_kept [of d p] new by simp
  have inv1: "names_inv keys d1" by (rule names_kept_inv [OF kept inv])
  have same: "containers d1 = containers d" "mget (names (nameIndex d1)) = (mget (names (nameIndex d)))(?n \<mapsto> ?i)"
    using assms(5) by (auto simp: d1_def alloc_def names_Reserve fun_eq_iff)
  have gone: "mget (containers d1) ?i = None" using assms(6) has_prefix_self [of ?i] unfolding same by blast
  have "{k. mget (containers d) k \<noteq> None \<and> has_prefix k ?i} = {}" using assms(6) by blast
  then have "ti_Get T (idIndex d1) ?i = Inl ErrNotExist"
    using ti_Get_found(2) [OF assms(1) names_invD(2) [OF inv1] ne(2)] names_invD(3) [OF inv1] same by simp
  moreover have "GetByName d1 ?i = Failed (NoEntity ?i)"
    using assms(7,8) ne(2) by (simp add: GetByName_def Get_def same)
  ultimately have "GetContainer T d1 ?i = Failed (NoSuchContainer ?i)"
    using gone by (simp add: GetContainer_def mem_Get_def)
  then have "abortCreate T io d1 (length (heap d)) e = (d1, Failed e)" for e
    by (simp add: abortCreate_def ContainerRm_def d1_def alloc_def c_def)
  then have "daemon_create T io d p = Some (d1, Failed (CallFailed CSetRWLayer msg))"
    using assms(9-12) new by (simp add: daemon_create_def)
  moreover have "snd (reserveName d1 i (p_Name p)) = Failed (NameConflict ?n ?i)" if "i \<noteq> ?i" for i
    using that assms(4) by (simp add: reserveName_def Reserve_def Get_def Let_def same)
  ultimately show ?thesis using gone by blast
qed

subsection \<open>When linking returns\<close>

text \<open>The step of the loop that follows network modes; it stays within a set of containers, or it gets smaller.\<close>

definition next_owner :: "'t trie_api \<Rightarrow> 't daemon \<Rightarrow> nat \<Rightarrow> nat option" where
  "next_owner T d a =
     (if IsContainerMode (c_NetworkMode (heap d ! a))
      then case GetContainer T d (splitn 2 CHR '':'' (c_NetworkMode (heap d ! a)) ! 1) of Done r \<Rightarrow> r | _ \<Rightarrow> None
      else None)"

lemma networkOwner_step:
  "next_owner T d a = Some b \<Longrightarrow> networkOwner T d a = networkOwner T d b"
  "next_owner T d a = None \<Longrightarrow> networkOwner T d a \<noteq> None"
  by (subst networkOwner.simps, auto simp: next_owner_def Let_def split: if_splits outcome.splits option.splits)+

lemma networkOwner_leaves:
  assumes "\<And>a. a \<in> S \<Longrightarrow> \<exists>b \<in> S. next_owner T d a = Some b"
  shows "networkOwner T' d' a = Some r \<Longrightarrow> T' = T \<and> d' = d \<longrightarrow> a \<notin> S"
proof (erule networkOwner.raw_induct [rotated], intro impI)
  fix f T' d' a r
  assume 1: "\<And>T' d' a r. f T' d' a = Some r \<Longrightarrow> T' = T \<and> d' = d \<longrightarrow> a \<notin> S"
    "(if \<not> IsContainerMode (c_NetworkMode (heap d' ! a)) then Some (Done a)
      else let p = splitn 2 CHR '':'' (c_NetworkMode (heap d' ! a)) ! 1
           in case GetContainer T' d' p of Panicked m \<Rightarrow> Some (Panicked m)
              | Failed x \<Rightarrow> Some (Failed (NoLinkTarget p))
              | Done None \<Rightarrow> Some (Panicked nil_deref)
              | Done (Some b) \<Rightarrow> f T' d' b) = Some r"
    "T' = T \<and> d' = d"
  show "a \<notin> S"
  proof
    assume "a \<in> S"
    then obtain b where b: "b \<in> S" "next_owner T d a = Some b" using assms by blast
    then have "f T d b = Some r"
      using 1(2-) by (auto simp: next_owner_def Let_def split: if_splits outcome.splits)
    then show False using 1(1) b(1) by blast
  qed
qed

lemma networkOwner_hangs:
  assumes "\<And>a. a \<in> S \<Longrightarrow> \<exists>b \<in> S. next_owner T d a = Some b" "a \<in> S"
  shows "networkOwner T d a = None"
  using networkOwner_leaves [of S T d T d a] assms by (cases "networkOwner T d a") auto

lemma networkOwner_returns:
  assumes "\<And>a b. next_owner T d a = Some b \<Longrightarrow> rank b < (rank a :: nat)"
  shows "networkOwner T d a \<noteq> None"
proof (induction "rank a" arbitrary: a rule: less_induct)
  case less
  show ?case
  proof (cases "next_owner T d a")
    case None
    then show ?thesis by (rule networkOwner_step(2))
  next
    case (Some b)
    then show ?thesis using less [OF assms [OF Some]] networkOwner_step(1) [OF Some] by simp
  qed
qed

text \<open>
  C14: linking to a container returns when following the \<^verbatim>\<open>container:\<close> network modes ends, and does not
  return when it does not: if the modes of a set of containers all lead back into the set, creating a
  container with a link into it never answers, with the container registered and its lock held.
\<close>

theorem link_into_network_cycle:
  assumes "ParseLink l = Inr (name, alias)" "GetContainer T d name = Done (Some b)"
  shows "((\<forall>a \<in> S. \<exists>c \<in> S. next_owner T d a = Some c) \<and> b \<in> S \<longrightarrow> registerOneLink T d p l = None)
    \<and> ((\<forall>a c. next_owner T d a = Some c \<longrightarrow> rank c < (rank a :: nat)) \<longrightarrow> registerOneLink T d p l \<noteq> None)"
proof (intro conjI impI)
  assume "(\<forall>a \<in> S. \<exists>c \<in> S. next_owner T d a = Some c) \<and> b \<in> S"
  then have "networkOwner T d b = None" using networkOwner_hangs [of S T d b] by blast
  then show "registerOneLink T d p l = None" using assms by (simp add: registerOneLink_def)
next
  assume "\<forall>a c. next_owner T d a = Some c \<longrightarrow> rank c < (rank a :: nat)"
  then have "networkOwner T d b \<noteq> None" using networkOwner_returns [of T d rank] by blast
  then show "registerOneLink T d p l \<noteq> None"
    using assms by (auto simp: registerOneLink_def split: outcome.splits)
qed

text \<open>A link whose name is empty, \<^verbatim>\<open>:alias\<close>, passes the parser and makes the lookup panic.\<close>

theorem empty_link_name_panics:
  assumes "names_inv keys d" "CHR '':'' \<notin> set alias"
  shows "registerOneLink T d a (CHR '':'' # alias) = Some (d, Panicked index_range)"
proof -
  have "split CHR '':'' (CHR '':'' # alias) = [[], alias]" using assms(2) by (simp add: split_no_sep)
  then have "ParseLink (CHR '':'' # alias) = Inr ([], alias)" by (simp add: ParseLink_def has_prefix_def)
  moreover have "mget (containers d) [] = None"
    using names_invD(2,3) [OF assms(1)] by (auto simp: trunc_inv_def)
  ultimately show ?thesis by (simp add: registerOneLink_def GetContainer_def mem_Get_def GetByName_def)
qed

subsection \<open>Concrete requests\<close>

definition quiet_io :: io where
  "quiet_io = \<lparr>answer = (\<lambda>_. None), killed = (\<lambda>s. s), stopped = (\<lambda>s. s), netController = False, clock = 0\<rparr>"

definition web_params :: create_params where
  "web_params = \<lparr>p_Name = ''web'', p_NetworkMode = ''default'', p_Links = [], p_newID = replicate 64 CHR ''a'',
     p_draws = (\<lambda>_. (''happy'', ''turing'', 1))\<rparr>"

definition web_daemon :: "string list daemon" where
  "web_daemon =
     \<lparr>heap = [\<lparr>c_ID = replicate 64 CHR ''a'', c_Name = ''/web'', c_State = NewState, c_NetworkMode = ''default'', c_Links = []\<rparr>],
      containers = [(replicate 64 CHR ''a'', 0)],
      idIndex = \<lparr>trie = [replicate 64 CHR ''a''], ids = [(replicate 64 CHR ''a'', ())]\<rparr>,
      nameIndex = \<lparr>idx = [(replicate 64 CHR ''a'', [''/web''])], names = [(''/web'', replicate 64 CHR ''a'')]\<rparr>,
      links = newLinkIndex\<rparr>"

lemma web_created: "daemon_create list_trie quiet_io (newDaemon list_trie) web_params = Some (web_daemon, Done 0)"
  by code_simp

lemma web_params_ok: "create_ok web_params"
proof -
  have "RestrictedNamePattern (GetRandomName (''happy'', ''turing'', 1) k)" for k
  proof (cases "k = 0")
    case True
    then show ?thesis by (simp add: GetRandomName_def) code_simp
  next
    case False
    then have "GetRandomName (''happy'', ''turing'', 1) k = GetRandomName (''happy'', ''turing'', 1) 1" by (simp add: GetRandomName_def)
    moreover have "RestrictedNamePattern (GetRandomName (''happy'', ''turing'', 1) 1)" by code_simp
    ultimately show ?thesis by simp
  qed
  moreover have "full_id (replicate 64 CHR ''a'')" by code_simp
  ultimately show ?thesis by (simp add: create_ok_def good_draws_def web_params_def)
qed

lemma empty_reach: "daemon_reach T (newDaemon T)"
  by (rule reach_start [of "[]"]) (simp_all add: restore_def)

lemma web_reach: "daemon_reach list_trie web_daemon"
  by (rule reach_create [OF empty_reach web_params_ok web_created])



theorem forced_removal_forgets_witness:
  "mget (containers (fst (ContainerRm list_trie quiet_io web_daemon ''web'' \<lparr>ForceRemove = True, RemoveLink = False\<rparr>)))
     (replicate 64 CHR ''a'') = None"
proof -
  have "GetContainer list_trie web_daemon ''web'' = Done (Some 0)" by code_simp
  note * = forced_removal_forgets [OF list_trie_ok web_reach this, of quiet_io]
  have "\<not> RemovalInProgress (c_State (heap web_daemon ! 0))" "can_stop quiet_io (c_State (heap web_daemon ! 0))"
    "c_ID (heap web_daemon ! 0) = replicate 64 CHR ''a''"
    by code_simp+
  then show ?thesis using * by (simp add: case_prod_beta)
qed


definition cycle_daemon :: "string list daemon" where
  "cycle_daemon =
     \<lparr>heap = [\<lparr>c_ID = ''aa'', c_Name = ''/one'', c_State = NewState, c_NetworkMode = ''container:two'', c_Links = []\<rparr>,
              \<lparr>c_ID = ''bb'', c_Name = ''/two'', c_State = NewState, c_NetworkMode = ''container:one'', c_Links = []\<rparr>],
      containers = [(''aa'', 0), (''bb'', 1)], idIndex = \<lparr>trie = [''aa'', ''bb''], ids = [(''aa'', ()), (''bb'', ())]\<rparr>,
      nameIndex = \<lparr>idx = [(''aa'', [''/one'']), (''bb'', [''/two''])], names = [(''/one'', ''aa''), (''/two'', ''bb'')]\<rparr>,
      links = newLinkIndex\<rparr>"

theorem link_into_network_cycle_witness: "registerOneLink list_trie cycle_daemon 0 ''one:db'' = None"
proof -
  have "ParseLink ''one:db'' = Inr (''one'', ''db'')" "GetContainer list_trie cycle_daemon ''one'' = Done (Some 0)" by code_simp+
  moreover have "next_owner list_trie cycle_daemon 0 = Some 1" "next_owner list_trie cycle_daemon 1 = Some 0" by code_simp+
  ultimately show ?thesis using link_into_network_cycle [of "''one:db''" "''one''" "''db''" list_trie cycle_daemon 0 "{0, 1}" 0 "\<lambda>_. 0"]
    by auto
qed

end
