(* ===== verification/Image_Delete.thy ===== *)
theory Image_Delete
  imports Image_Store Reference_Store Container_State Trunc_Index
begin

section \<open>Deleting images (\<^verbatim>\<open>daemon/image_delete.go\<close>)\<close>

text \<open>
  \<^verbatim>\<open>ImageDelete\<close> composes the image store, the reference store and the store of containers.  A
  reference given by name is untagged, and the image behind it is deleted with its ancestors unless a
  conflict forbids it.  Arguments stand for what is outside: the file system and the layer backend, the
  result of saving the references, the parsers of digests and names, and the set of digests that
  \<^verbatim>\<open>Search\<close> consults.  \<open>None\<close> is the layer store not returning.  The recursion over ancestors ends
  because every round removes an image.
\<close>

record image_user =
  u_ID :: string
  u_ImageID :: string
  u_Running :: bool

record img_daemon =
  imageStore :: image_store
  referenceStore :: ref_store
  users :: "image_user memoryStore"

record delete_env =
  de_fs :: fs_io
  de_layers :: layer_io
  de_hash :: "bytes \<Rightarrow> string"
  de_unmarshal :: "bytes \<Rightarrow> image option"
  de_saved :: "string option"
  de_digest :: "string \<Rightarrow> string option"
  de_parse :: "string \<Rightarrow> (ref_error, named) result"
  de_search :: "image_store \<Rightarrow> string \<Rightarrow> string option"

datatype conflictType = DependentChild | RunningContainer | ActiveReference | StoppedContainer

definition conflictHard :: "conflictType list" where
  "conflictHard = [DependentChild, RunningContainer]"

definition conflictSoft :: "conflictType list" where
  "conflictSoft = [ActiveReference, StoppedContainer]"

datatype conflict_reason = HasChildren | UsedByRunning string | IsReferenced | UsedByStopped string

record imageDeleteConflict =
  hard :: bool
  used :: bool
  idc_imgID :: string
  message :: conflict_reason

datatype del_record = Untagged string | Deleted string

datatype del_error =
    ImageDoesNotExist string
  | ImgDelUsed string string string
  | RefError ref_error
  | ImgError image_error
  | Conflict imageDeleteConflict

type_synonym del_result = "img_daemon \<times> del_record list \<times> (del_error, unit) outcome"

subsection \<open>Resolving a reference\<close>

definition GetImageID :: "delete_env \<Rightarrow> img_daemon \<Rightarrow> string \<Rightarrow> (del_error, string) result" where
  "GetImageID env d s =
     (case de_digest env s of
        Some i \<Rightarrow>
          (case GetImage (de_unmarshal env) (de_hash env) (imageStore d) i of
             Inl _ \<Rightarrow> Inl (ImageDoesNotExist s) | Inr _ \<Rightarrow> Inr i)
      | None \<Rightarrow>
          let searchAny = (case de_search env (imageStore d) s of Some i \<Rightarrow> Inr i | None \<Rightarrow> Inl (ImageDoesNotExist s)) in
          (case de_parse env s of
             Inl _ \<Rightarrow> searchAny
           | Inr ref \<Rightarrow>
               (case GetRef (referenceStore d) ref of
                  Inr i \<Rightarrow> Inr i
                | Inl _ \<Rightarrow>
                    (case refKind ref of
                       Tagged t \<Rightarrow>
                         (case de_search env (imageStore d) t of
                            Some i \<Rightarrow>
                              if list_ex (\<lambda>r. refName r = refName ref) (References (referenceStore d) i) then Inr i
                              else searchAny
                          | None \<Rightarrow> searchAny)
                     | _ \<Rightarrow> searchAny))))"

definition isImageIDPrefix :: "string \<Rightarrow> string \<Rightarrow> bool" where
  "isImageIDPrefix imageID p \<longleftrightarrow>
     has_prefix imageID p \<or> CHR '':'' \<in> set imageID \<and> has_prefix (after CHR '':'' imageID) p"

subsection \<open>Conflicts\<close>

definition getContainerUsingImage :: "img_daemon \<Rightarrow> string \<Rightarrow> image_user option" where
  "getContainerUsingImage d i = mem_First (\<lambda>c. u_ImageID c = i) (users d)"

definition checkImageDeleteConflict :: "img_daemon \<Rightarrow> string \<Rightarrow> conflictType list \<Rightarrow> imageDeleteConflict option" where
  "checkImageDeleteConflict d i kinds =
     (if DependentChild \<in> set kinds \<and> length (Children (imageStore d) i) > 0
      then Some \<lparr>hard = True, used = False, idc_imgID = i, message = HasChildren\<rparr>
      else
        let running = (if RunningContainer \<in> set kinds then mem_First (\<lambda>c. u_Running c \<and> u_ImageID c = i) (users d) else None);
            stopped = (if StoppedContainer \<in> set kinds then mem_First (\<lambda>c. \<not> u_Running c \<and> u_ImageID c = i) (users d) else None)
        in case running of
             Some c \<Rightarrow> Some \<lparr>hard = True, used = True, idc_imgID = i, message = UsedByRunning (u_ID c)\<rparr>
           | None \<Rightarrow>
               if ActiveReference \<in> set kinds \<and> length (References (referenceStore d) i) > 0
               then Some \<lparr>hard = False, used = False, idc_imgID = i, message = IsReferenced\<rparr>
               else case stopped of
                   Some c \<Rightarrow> Some \<lparr>hard = False, used = True, idc_imgID = i, message = UsedByStopped (u_ID c)\<rparr>
                 | None \<Rightarrow> None)"

definition imageIsDangling :: "img_daemon \<Rightarrow> string \<Rightarrow> bool" where
  "imageIsDangling d i \<longleftrightarrow>
     \<not> (length (References (referenceStore d) i) > 0 \<or> length (Children (imageStore d) i) > 0)"

subsection \<open>Untagging\<close>

definition removeImageRef :: "delete_env \<Rightarrow> img_daemon \<Rightarrow> named \<Rightarrow> img_daemon \<times> named \<times> ref_error option" where
  "removeImageRef env d ref0 =
     (let ref = WithDefaultTag ref0 in
      case DeleteRef (de_saved env) (referenceStore d) ref of
        (rs, _, err) \<Rightarrow> (d\<lparr>referenceStore := rs\<rparr>, ref, err))"

fun untagAll :: "delete_env \<Rightarrow> img_daemon \<Rightarrow> del_record list \<Rightarrow> named list \<Rightarrow> img_daemon \<times> del_record list \<times> ref_error option" where
  "untagAll env d recs [] = (d, recs, None)"
| "untagAll env d recs (r # rs) =
     (case removeImageRef env d r of
        (d', _, Some e) \<Rightarrow> (d', recs, Some e)
      | (d', parsed, None) \<Rightarrow> untagAll env d' (recs @ [Untagged (refString parsed)]) rs)"

text \<open>The loop over digest references in \<^verbatim>\<open>ImageDelete\<close> records the reference it was given.\<close>

fun untagDigests :: "delete_env \<Rightarrow> img_daemon \<Rightarrow> del_record list \<Rightarrow> named list \<Rightarrow> img_daemon \<times> del_record list \<times> ref_error option" where
  "untagDigests env d recs [] = (d, recs, None)"
| "untagDigests env d recs (r # rs) =
     (case removeImageRef env d r of
        (d', _, Some e) \<Rightarrow> (d', recs, Some e)
      | (d', _, None) \<Rightarrow> untagDigests env d' (recs @ [Untagged (refString r)]) rs)"

definition removeAllReferencesToImageID ::
  "delete_env \<Rightarrow> img_daemon \<Rightarrow> string \<Rightarrow> del_record list \<Rightarrow> img_daemon \<times> del_record list \<times> ref_error option" where
  "removeAllReferencesToImageID env d i recs = untagAll env d recs (References (referenceStore d) i)"

subsection \<open>Deleting an image and its ancestors\<close>

lemma length_mdel: "mget m k \<noteq> None \<Longrightarrow> length (mdel k m) < length m"
proof (induction m)
  case (Cons x m)
  obtain a b where x: "x = (a, b)" by (cases x)
  show ?case using Cons x by (cases "a = k") (auto simp: AList.delete_eq less_Suc_eq_le)
qed simp

lemma length_mput: "mget m k \<noteq> None \<Longrightarrow> length (mput k v m) = length m"
  by (induction m) (auto split: if_splits)

lemma unlink_length: "length (images (unlinkFromParent hash st i)) = length (images st)"
  by (auto simp: unlinkFromParent_def length_mput split: sum.split option.split)

lemma unlink_mem: "mget (images (unlinkFromParent hash st i)) j = None \<longleftrightarrow> mget (images st) j = None"
  by (auto simp: unlinkFromParent_def split: sum.split option.split)

text \<open>A deletion that returns layers has removed the image.\<close>

lemma DeleteImage_images:
  assumes "DeleteImage io lio hash st i = Some (st', out)"
  shows "mget (images st') j = None \<longleftrightarrow> j = i \<or> mget (images st) j = None"
    and "mget (images st) i \<noteq> None \<Longrightarrow> length (images st') < length (images st)"
    and "out = Done mds \<Longrightarrow> mget (images st) i \<noteq> None"
proof -
  show "out = Done mds \<Longrightarrow> mget (images st) i \<noteq> None"
    using assms by (cases "mget (images st) i") (auto simp: DeleteImage_def)
  let ?st2 = "\<lambda>im. unlinkFromParent hash (st\<lparr>backend := deleteChildLinks io (im_children im) (backend st)\<rparr>) i"
  have im: "images st' = mdel i (images (?st2 im))" if "mget (images st) i = Some im" for im
    using assms that by (auto simp: DeleteImage_def Let_def split: option.splits Option.bind_splits)
  show "length (images st') < length (images st)" if some: "mget (images st) i \<noteq> None"
  proof -
    obtain m where m: "mget (images st) i = Some m" using some by blast
    have "mget (images (?st2 m)) i \<noteq> None" unfolding unlink_mem using m by simp
    then show ?thesis using length_mdel [of "images (?st2 m)" i] by (simp add: im [OF m] unlink_length)
  qed
  show "mget (images st') j = None \<longleftrightarrow> j = i \<or> mget (images st) j = None"
  proof (cases "mget (images st) i")
    case None
    then show ?thesis using assms by (auto simp: DeleteImage_def)
  next
    case (Some m)
    then show ?thesis by (simp add: im unlink_mem)
  qed
qed

lemma removeImageRef_images: "imageStore (fst (removeImageRef env d r)) = imageStore d" "users (fst (removeImageRef env d r)) = users d"
  by (simp_all add: removeImageRef_def Let_def split: prod.split)

lemma untagAll_images: "imageStore (fst (untagAll env d recs rs)) = imageStore d \<and> users (fst (untagAll env d recs rs)) = users d"
proof (induction rs arbitrary: d recs)
  case (Cons r rs)
  show ?case
    using Cons.IH removeImageRef_images [of env d r] by (auto split: prod.splits option.splits)
qed simp

lemma helper_decreases:
  assumes "removeAllReferencesToImageID env d i recs = (d1, recs1, e)"
    and "DeleteImage io lio hash (imageStore d1) i = Some (st, Done removed)"
  shows "length (images st) < length (images (imageStore d))"
  using assms(1) untagAll_images [of env d recs "References (referenceStore d) i"] DeleteImage_images(2,3) [OF assms(2)]
  by (simp add: removeAllReferencesToImageID_def)

function imageDeleteHelper ::
  "delete_env \<Rightarrow> img_daemon \<Rightarrow> string \<Rightarrow> del_record list \<Rightarrow> bool \<Rightarrow> bool \<Rightarrow> bool \<Rightarrow> del_result option" where
  "imageDeleteHelper env d i recs force prune quiet =
     (case checkImageDeleteConflict d i (conflictHard @ (if force then [] else conflictSoft)) of
        Some c \<Rightarrow>
          if quiet \<and> (\<not> imageIsDangling d i \<or> used c) then Some (d, recs, Done ())
          else Some (d, recs, Failed (Conflict c))
      | None \<Rightarrow>
          let parent = (case GetParent (de_hash env) (imageStore d) i of Inl _ \<Rightarrow> [] | Inr p \<Rightarrow> p) in
          (case removeAllReferencesToImageID env d i recs of
             (d1, recs1, Some e) \<Rightarrow> Some (d1, recs1, Failed (RefError e))
           | (d1, recs1, None) \<Rightarrow>
               (case DeleteImage (de_fs env) (de_layers env) (de_hash env) (imageStore d1) i of
                  None \<Rightarrow> None
                | Some (st, Panicked m) \<Rightarrow> Some (d1\<lparr>imageStore := st\<rparr>, recs1, Panicked m)
                | Some (st, Failed e) \<Rightarrow> Some (d1\<lparr>imageStore := st\<rparr>, recs1, Failed (ImgError e))
                | Some (st, Done removed) \<Rightarrow>
                    let d2 = d1\<lparr>imageStore := st\<rparr>;
                        recs2 = recs1 @ [Deleted i] @ map (\<lambda>l. Deleted (md_chainID l)) removed in
                    if \<not> prune \<or> parent = [] then Some (d2, recs2, Done ())
                    else imageDeleteHelper env d2 parent recs2 False True True)))"
  by pat_completeness auto

termination
proof (relation "measure (\<lambda>(_, d, _). length (images (imageStore d)))", goal_cases)
  case (2 env d i recs force prune quiet parent d1 y recs1 err r st out removed d2 recs2)
  then have "removeAllReferencesToImageID env d i recs = (d1, recs1, err)"
    "DeleteImage (de_fs env) (de_layers env) (de_hash env) (imageStore d1) i = Some (st, Done removed)"
    by simp_all
  then show ?case using helper_decreases 2 by simp
qed simp

declare imageDeleteHelper.simps [simp del]

text \<open>
  The slice of records is returned as the helper leaves it; an error found before any change returns no
  records.
\<close>

definition untagReference :: "delete_env \<Rightarrow> img_daemon \<Rightarrow> string \<Rightarrow> string \<Rightarrow> bool \<Rightarrow> bool \<Rightarrow> del_result option" where
  "untagReference env d i imageRef force prune =
     (case de_parse env imageRef of
        Inl e \<Rightarrow> Some (d, [], Failed (RefError e))
      | Inr ref \<Rightarrow>
          (case removeImageRef env d ref of
             (d1, _, Some e) \<Rightarrow> Some (d1, [], Failed (RefError e))
           | (d1, parsed, None) \<Rightarrow>
               let recs = [Untagged (refString parsed)];
                   repoRefs = References (referenceStore d1) i;
                   onlyDigests = (\<not> isCanonical parsed \<and> list_all isCanonical repoRefs) in
               (case (if onlyDigests then untagDigests env d1 recs repoRefs else (d1, recs, None)) of
                  (d2, recs2, Some e) \<Rightarrow> Some (d2, recs2, Failed (RefError e))
                | (d2, recs2, None) \<Rightarrow>
                    if length (if onlyDigests then [] else repoRefs) > 0 then Some (d2, recs2, Done ())
                    else imageDeleteHelper env d2 i recs2 force prune True)))"

definition ImageDelete :: "delete_env \<Rightarrow> img_daemon \<Rightarrow> string \<Rightarrow> bool \<Rightarrow> bool \<Rightarrow> del_result option" where
  "ImageDelete env d imageRef force prune =
     (case GetImageID env d imageRef of
        Inl e \<Rightarrow> Some (d, [], Failed e)
      | Inr i \<Rightarrow>
          let repoRefs = References (referenceStore d) i in
          if \<not> isImageIDPrefix i imageRef then
            (case (if force \<or> length repoRefs > 1 then None else getContainerUsingImage d i) of
               Some c \<Rightarrow> Some (d, [], Failed (ImgDelUsed imageRef (TruncateID (u_ID c)) (TruncateID i)))
             | None \<Rightarrow> untagReference env d i imageRef force prune)
          else if length repoRefs = 1 then
            (case checkImageDeleteConflict d i (conflictHard @ (if force then [] else removeAll ActiveReference conflictSoft)) of
               Some c \<Rightarrow> Some (d, [], Failed (Conflict c))
             | None \<Rightarrow>
                 (case removeImageRef env d (repoRefs ! 0) of
                    (d1, _, Some e) \<Rightarrow> Some (d1, [], Failed (RefError e))
                  | (d1, parsed, None) \<Rightarrow> imageDeleteHelper env d1 i [Untagged (refString parsed)] force prune False))
          else imageDeleteHelper env d i [] force prune False)"

subsection \<open>What a deletion keeps\<close>

abbreviation has_image :: "img_daemon \<Rightarrow> string \<Rightarrow> bool" where
  "has_image d i \<equiv> mget (images (imageStore d)) i \<noteq> None"

abbreviation refers :: "img_daemon \<Rightarrow> named \<Rightarrow> string \<Rightarrow> bool" where
  "refers d r i \<equiv> ref_abs (referenceStore d) r = Some i"

text \<open>Every reference points to an image of the store.\<close>

definition refs_inv :: "img_daemon \<Rightarrow> bool" where
  "refs_inv d \<longleftrightarrow> rs_inv (referenceStore d) \<and> (\<forall>r i. refers d r i \<longrightarrow> has_image d i)"

text \<open>
  \<open>del_rel S d d'\<close>: from \<open>d\<close> to \<open>d'\<close> images and references only disappear; an image with a running
  container stays, and so does an image outside \<open>S\<close> with a stopped one; an image goes only after its
  children; and no reference is left to an image that is gone.
\<close>

definition del_rel :: "string set \<Rightarrow> img_daemon \<Rightarrow> img_daemon \<Rightarrow> bool" where
  "del_rel S d d' \<longleftrightarrow>
     users d' = users d
     \<and> (\<forall>j. has_image d' j \<longrightarrow> has_image d j)
     \<and> (\<forall>r j. refers d' r j \<longrightarrow> refers d r j)
     \<and> (\<forall>c \<in> snd ` set (users d). has_image d (u_ImageID c) \<and> (u_Running c \<or> u_ImageID c \<notin> S) \<longrightarrow> has_image d' (u_ImageID c))
     \<and> (\<forall>j k. has_image d j \<and> k \<in> set (Children (imageStore d) j) \<longrightarrow>
          \<not> has_image d' k \<or> has_image d' j \<and> k \<in> set (Children (imageStore d') j))
     \<and> refs_inv d'"

lemma del_rel_refl: "refs_inv d \<Longrightarrow> del_rel S d d"
  by (simp add: del_rel_def)

lemma del_relD:
  assumes "del_rel S d d'"
  shows "users d' = users d" and "has_image d' j \<Longrightarrow> has_image d j" and "refers d' r j \<Longrightarrow> refers d r j"
    and "c \<in> snd ` set (users d) \<Longrightarrow> has_image d (u_ImageID c) \<Longrightarrow> u_Running c \<or> u_ImageID c \<notin> S \<Longrightarrow> has_image d' (u_ImageID c)"
    and "has_image d j \<Longrightarrow> k \<in> set (Children (imageStore d) j) \<Longrightarrow>
      \<not> has_image d' k \<or> has_image d' j \<and> k \<in> set (Children (imageStore d') j)"
    and "refs_inv d'"
  using assms unfolding del_rel_def by blast+

lemma del_relI:
  assumes "users d' = users d" and "\<And>j. has_image d' j \<Longrightarrow> has_image d j" and "\<And>r j. refers d' r j \<Longrightarrow> refers d r j"
    and "\<And>c. c \<in> snd ` set (users d) \<Longrightarrow> has_image d (u_ImageID c) \<Longrightarrow> u_Running c \<or> u_ImageID c \<notin> S \<Longrightarrow> has_image d' (u_ImageID c)"
    and "\<And>j k. has_image d j \<Longrightarrow> k \<in> set (Children (imageStore d) j) \<Longrightarrow>
      \<not> has_image d' k \<or> has_image d' j \<and> k \<in> set (Children (imageStore d') j)"
    and "refs_inv d'"
  shows "del_rel S d d'"
  using assms unfolding del_rel_def by blast

lemma del_rel_trans:
  assumes 1: "del_rel S d d'" and 2: "del_rel S d' d''"
  shows "del_rel S d d''"
proof (rule del_relI)
  note a = del_relD [OF 1] and b = del_relD [OF 2]
  show "users d'' = users d" using a(1) b(1) by simp
  show "has_image d j" if "has_image d'' j" for j using that a(2) b(2) by blast
  show "refers d r j" if "refers d'' r j" for r j using that a(3) b(3) by blast
  show "has_image d'' (u_ImageID c)"
    if c: "c \<in> snd ` set (users d)" "has_image d (u_ImageID c)" "u_Running c \<or> u_ImageID c \<notin> S" for c
  proof -
    have "c \<in> snd ` set (users d')" using c(1) a(1) by simp
    then show ?thesis using a(4) [OF c] b(4) c(3) by blast
  qed
  show "\<not> has_image d'' k \<or> has_image d'' j \<and> k \<in> set (Children (imageStore d'') j)"
    if jk: "has_image d j" "k \<in> set (Children (imageStore d) j)" for j k
    using a(5) [OF jk] b(2) [of k] b(5) [of j k] by blast
  show "refs_inv d''" by (rule b(6))
qed

lemma del_rel_mono:
  assumes "del_rel S d d'" "S \<subseteq> S'"
  shows "del_rel S' d d'"
proof (rule del_relI)
  show "has_image d' (u_ImageID c)"
    if c: "c \<in> snd ` set (users d)" "has_image d (u_ImageID c)" "u_Running c \<or> u_ImageID c \<notin> S'" for c
    using del_relD(4) [OF assms(1) c(1,2)] c(3) assms(2) by blast
qed (use del_relD [OF assms(1)] in blast)+

text \<open>Untagging only removes references.  The parser of references returns valid ones.\<close>

definition parses_valid :: "delete_env \<Rightarrow> bool" where
  "parses_valid env \<longleftrightarrow> (\<forall>s r. de_parse env s = Inr r \<longrightarrow> valid_ref r)"

lemma removeImageRef_rel:
  assumes "refs_inv d" "valid_ref r" "removeImageRef env d r = (d', r', e)"
  shows "del_rel S d d'" and "ref_abs (referenceStore d') = (ref_abs (referenceStore d))(WithDefaultTag r := None)"
proof -
  have v: "valid_ref (WithDefaultTag r)" using storable_default [OF assms(2)] by (simp add: storable_def)
  have wd: "WithDefaultTag (WithDefaultTag r) = WithDefaultTag r"
    by (auto simp: WithDefaultTag_def IsNameOnly_def split: ref_kind.splits)
  have d': "d' = d\<lparr>referenceStore := fst (DeleteRef (de_saved env) (referenceStore d) (WithDefaultTag r))\<rparr>"
    using assms(3) by (auto simp: removeImageRef_def Let_def split: prod.splits)
  note del = DeleteRef_inv [of "referenceStore d" "WithDefaultTag r" "de_saved env"]
  show abs: "ref_abs (referenceStore d') = (ref_abs (referenceStore d))(WithDefaultTag r := None)"
    using del v wd assms(1) by (simp add: d' refs_inv_def)
  show "del_rel S d d'"
  proof (rule del_relI)
    show "refers d r0 j" if "refers d' r0 j" for r0 j using that abs by (auto split: if_splits)
    have "rs_inv (referenceStore d')" using del v assms(1) by (simp add: d' refs_inv_def)
    then show "refs_inv d'" using abs assms(1) by (auto simp: refs_inv_def d' split: if_splits)
  qed (simp_all add: d')
qed

lemma References_storable:
  assumes "rs_inv st" "r \<in> set (References st i)"
  shows "valid_ref r" "WithDefaultTag r = r"
proof -
  have "storable r" using References_cases(1) [OF assms(1), of i] assms(2) by (auto simp: ref_abs_def split: if_splits)
  then show "valid_ref r" "WithDefaultTag r = r" by (simp_all add: storable_def WithDefaultTag_def)
qed

lemma untagAll_rel:
  assumes "refs_inv d" "\<And>r. r \<in> set rs \<Longrightarrow> valid_ref r" "untagAll env d recs rs = (d', recs', e)"
  shows "del_rel S d d' \<and> (e = None \<longrightarrow> (\<forall>r \<in> set rs. ref_abs (referenceStore d') (WithDefaultTag r) = None))"
  using assms
proof (induction rs arbitrary: d recs)
  case Nil
  then show ?case by (simp add: del_rel_refl)
next
  case (Cons r rs)
  obtain d1 r1 e1 where r: "removeImageRef env d r = (d1, r1, e1)" by (metis prod_cases3)
  have v: "valid_ref r" using Cons.prems(2) by simp
  note rel = removeImageRef_rel [OF Cons.prems(1) v r]
  show ?case
  proof (cases e1)
    case (Some x)
    then show ?thesis using Cons.prems(3) r rel(1) by auto
  next
    case None
    then have u: "untagAll env d1 (recs @ [Untagged (refString r1)]) rs = (d', recs', e)" using Cons.prems(3) r by simp
    have IH: "del_rel S d1 d'" "e = None \<Longrightarrow> \<forall>r \<in> set rs. ref_abs (referenceStore d') (WithDefaultTag r) = None"
      using Cons.IH [OF del_relD(6) [OF rel(1)] _ u] Cons.prems(2) by simp_all
    have "ref_abs (referenceStore d1) (WithDefaultTag r) = None" using rel(2) by simp
    then have "ref_abs (referenceStore d') (WithDefaultTag r) = None"
      using del_relD(3) [OF IH(1), of "WithDefaultTag r"] by (cases "ref_abs (referenceStore d') (WithDefaultTag r)") auto
    then show ?thesis using del_rel_trans [OF rel(1) IH(1)] IH(2) by simp
  qed
qed

lemma removeAll_rel:
  assumes "refs_inv d" "removeAllReferencesToImageID env d i recs = (d', recs', e)"
  shows "del_rel S d d'" "e = None \<Longrightarrow> \<not> refers d' r i"
proof -
  have rs: "rs_inv (referenceStore d)" using assms(1) by (simp add: refs_inv_def)
  have v: "valid_ref r" if "r \<in> set (References (referenceStore d) i)" for r by (rule References_storable(1) [OF rs that])
  note u = untagAll_rel [OF assms(1) v assms(2) [unfolded removeAllReferencesToImageID_def]]
  show rel: "del_rel S d d'" using u by blast
  show "\<not> refers d' r i" if e: "e = None"
  proof
    assume r: "refers d' r i"
    then have "refers d r i" using del_relD(3) [OF rel] by blast
    then have m: "r \<in> set (References (referenceStore d) i)" using References_cases(1) [OF rs] by blast
    then have "ref_abs (referenceStore d') r = None" using u e References_storable(2) [OF rs m] by force
    then show False using r by simp
  qed
qed

subsection \<open>Deleting keeps what is used\<close>

lemma mem_First_None: "mem_First P st = None \<longleftrightarrow> (\<forall>c \<in> snd ` set st. \<not> P c)"
  by (auto simp: mem_First_def find_None_iff)

text \<open>What the absence of a conflict says.\<close>

lemma no_conflict:
  assumes "checkImageDeleteConflict d i (conflictHard @ soft) = None"
  shows "Children (imageStore d) i = []" and "c \<in> snd ` set (users d) \<Longrightarrow> u_ImageID c = i \<Longrightarrow> \<not> u_Running c"
    and "StoppedContainer \<in> set soft \<Longrightarrow> c \<in> snd ` set (users d) \<Longrightarrow> u_ImageID c \<noteq> i"
proof -
  have h: "DependentChild \<in> set (conflictHard @ soft)" "RunningContainer \<in> set (conflictHard @ soft)" by (simp_all add: conflictHard_def)
  show "Children (imageStore d) i = []" using assms h(1) by (auto simp: checkImageDeleteConflict_def split: if_splits)
  have run: "mem_First (\<lambda>c. u_Running c \<and> u_ImageID c = i) (users d) = None"
    using assms h(2) by (auto simp: checkImageDeleteConflict_def Let_def split: if_splits option.splits)
  then show r: "\<not> u_Running c" if "c \<in> snd ` set (users d)" "u_ImageID c = i" for c
    using that by (auto simp: mem_First_None)
  show "u_ImageID c \<noteq> i" if "StoppedContainer \<in> set soft" "c \<in> snd ` set (users d)"
  proof -
    have "mem_First (\<lambda>c. \<not> u_Running c \<and> u_ImageID c = i) (users d) = None"
      using assms run that(1) by (auto simp: checkImageDeleteConflict_def Let_def split: if_splits option.splits)
    then show ?thesis using that(2) r [OF that(2)] by (auto simp: mem_First_None)
  qed
qed

lemma Children_unlink:
  "k \<in> set (Children st j) \<Longrightarrow> k \<noteq> i \<Longrightarrow> k \<in> set (Children (unlinkFromParent hash st i) j)"
  by (auto simp: Children_def unlinkFromParent_def del_child_def split: sum.split option.split option.splits)

lemma DeleteImage_children:
  assumes "DeleteImage io lio hash st i = Some (st', out)" "k \<in> set (Children st j)" "k \<noteq> i" "j \<noteq> i"
  shows "k \<in> set (Children st' j)"
proof (cases "mget (images st) i")
  case None
  then show ?thesis using assms by (simp add: DeleteImage_def)
next
  case (Some im)
  let ?st1 = "st\<lparr>backend := deleteChildLinks io (im_children im) (backend st)\<rparr>"
  have "images st' = mdel i (images (unlinkFromParent hash ?st1 i))"
    using assms(1) Some by (auto simp: DeleteImage_def Let_def split: option.splits Option.bind_splits)
  moreover have "k \<in> set (Children (unlinkFromParent hash ?st1 i) j)"
    by (rule Children_unlink) (use assms in \<open>simp_all add: Children_def\<close>)
  ultimately show ?thesis using assms(4) by (simp add: Children_def)
qed

lemma delete_step:
  assumes "refs_inv d" "checkImageDeleteConflict d i (conflictHard @ (if force then [] else conflictSoft)) = None"
    and "removeAllReferencesToImageID env d i recs = (d1, recs1, None)"
    and "DeleteImage io lio hash (imageStore d1) i = Some (st, out)"
  shows "del_rel (if force then {i} else {}) d (d1\<lparr>imageStore := st\<rparr>)"
proof (rule del_relI)
  note r = removeAll_rel [OF assms(1,3)]
  note nc = no_conflict [OF assms(2)] and img = DeleteImage_images [OF assms(4)]
  have same: "imageStore d1 = imageStore d" "users d1 = users d"
    using untagAll_images [of env d recs "References (referenceStore d) i"] assms(3) by (simp_all add: removeAllReferencesToImageID_def)
  show "users (d1\<lparr>imageStore := st\<rparr>) = users d" using same by simp
  show "has_image d j" if "has_image (d1\<lparr>imageStore := st\<rparr>) j" for j using that img(1) [of j] same by auto
  show "refers d r0 j" if "refers (d1\<lparr>imageStore := st\<rparr>) r0 j" for r0 j using that del_relD(3) [OF r(1)] by simp
  show "has_image (d1\<lparr>imageStore := st\<rparr>) (u_ImageID c)"
    if c: "c \<in> snd ` set (users d)" "has_image d (u_ImageID c)" "u_Running c \<or> u_ImageID c \<notin> (if force then {i} else {})" for c
  proof -
    have "u_ImageID c \<noteq> i" using nc(2) [OF c(1)] nc(3) [OF _ c(1)] c(3) by (auto simp: conflictSoft_def split: if_splits)
    then show ?thesis using c(2) img(1) [of "u_ImageID c"] same by auto
  qed
  show "\<not> has_image (d1\<lparr>imageStore := st\<rparr>) k \<or>
      has_image (d1\<lparr>imageStore := st\<rparr>) j \<and> k \<in> set (Children (imageStore (d1\<lparr>imageStore := st\<rparr>)) j)"
    if jk: "has_image d j" "k \<in> set (Children (imageStore d) j)" for j k
  proof (cases "k = i")
    case True
    then show ?thesis using img(1) [of i] by simp
  next
    case False
    have j: "j \<noteq> i" using jk(2) nc(1) by auto
    have "k \<in> set (Children st j)" using DeleteImage_children [OF assms(4) _ False j] jk(2) same by simp
    then show ?thesis using jk(1) j img(1) [of j] same by auto
  qed
  have "has_image (d1\<lparr>imageStore := st\<rparr>) j" if "refers d1 r0 j" for r0 j
  proof -
    have "has_image d1 j" using that del_relD(6) [OF r(1) [of "{}"]] by (auto simp: refs_inv_def)
    moreover have "j \<noteq> i" using that r(2) by auto
    ultimately show ?thesis using img(1) [of j] by auto
  qed
  then show "refs_inv (d1\<lparr>imageStore := st\<rparr>)" using del_relD(6) [OF r(1) [of "{}"]] by (simp add: refs_inv_def)
qed

lemma imageDeleteHelper_rel:
  assumes "imageDeleteHelper env d i recs force prune quiet = Some (d', recs', out)" "refs_inv d"
  shows "del_rel (if force then {i} else {}) d d'"
  using assms
proof (induction env d i recs force prune quiet rule: imageDeleteHelper.induct)
  case (1 env d i recs force prune quiet)
  let ?check = "checkImageDeleteConflict d i (conflictHard @ (if force then [] else conflictSoft))"
  show ?case
  proof (cases ?check)
    case (Some c)
    then show ?thesis using 1(2,3) by (auto simp: imageDeleteHelper.simps [of env d] del_rel_refl split: if_splits)
  next
    case None
    obtain d1 recs1 e where r: "removeAllReferencesToImageID env d i recs = (d1, recs1, e)" by (metis prod_cases3)
    show ?thesis
    proof (cases e)
      case (Some x)
      then have "d' = d1" using 1(2) None r by (simp add: imageDeleteHelper.simps [of env d] Let_def)
      then show ?thesis using removeAll_rel(1) [OF 1(3) r] by simp
    next
      case e: None
      obtain st o1 where del: "DeleteImage (de_fs env) (de_layers env) (de_hash env) (imageStore d1) i = Some (st, o1)"
        using 1(2) None r e by (auto simp: imageDeleteHelper.simps [of env d] Let_def split: option.splits)
      have step: "del_rel (if force then {i} else {}) d (d1\<lparr>imageStore := st\<rparr>)"
        by (rule delete_step [OF 1(3) None r [unfolded e] del])
      show ?thesis
      proof (cases "\<exists>removed. o1 = Done removed \<and> prune \<and> (case GetParent (de_hash env) (imageStore d) i of Inl _ \<Rightarrow> [] | Inr p \<Rightarrow> p) \<noteq> []")
        case False
        then have "d' = d1\<lparr>imageStore := st\<rparr>"
          using 1(2) None r e del by (auto simp: imageDeleteHelper.simps [of env d] Let_def split: outcome.splits if_splits)
        then show ?thesis using step by simp
      next
        case True
        then obtain removed where o1: "o1 = Done removed" by blast
        let ?p = "case GetParent (de_hash env) (imageStore d) i of Inl _ \<Rightarrow> [] | Inr p \<Rightarrow> p"
        let ?recs = "recs1 @ [Deleted i] @ map (\<lambda>l. Deleted (md_chainID l)) removed"
        have rec: "imageDeleteHelper env (d1\<lparr>imageStore := st\<rparr>) ?p ?recs False True True = Some (d', recs', out)"
          using 1(2) None r e del o1 True by (simp add: imageDeleteHelper.simps [of env d] Let_def)
        have "del_rel {} (d1\<lparr>imageStore := st\<rparr>) d'"
          using 1(1) [OF None refl r [symmetric] refl e del refl o1 refl refl _ rec del_relD(6) [OF step]] True by simp
        then show ?thesis using del_rel_trans [OF step del_rel_mono [of "{}"]] by simp
      qed
    qed
  qed
qed

lemma untagDigests_state:
  "fst (untagDigests env d recs rs) = fst (untagAll env d recs' rs)
   \<and> snd (snd (untagDigests env d recs rs)) = snd (snd (untagAll env d recs' rs))"
proof (induction rs arbitrary: d recs recs')
  case (Cons r rs)
  show ?case using Cons.IH by (auto split: prod.splits option.splits)
qed simp

lemma untagDigests_rel:
  assumes "refs_inv d" "untagDigests env d recs (References (referenceStore d) i) = (d', recs', e)"
  shows "del_rel S d d'"
proof -
  have "removeAllReferencesToImageID env d i recs = (d', snd (removeAllReferencesToImageID env d i recs))"
    using untagDigests_state [of env d recs "References (referenceStore d) i" recs] assms(2)
    by (simp add: removeAllReferencesToImageID_def prod_eq_iff)
  then show ?thesis using removeAll_rel(1) [OF assms(1)] by (metis prod.collapse)
qed

lemma untagReference_rel:
  assumes "refs_inv d" "parses_valid env"
    and "untagReference env d i s force prune = Some (d', recs, out)"
  shows "del_rel (if force then {i} else {}) d d'"
proof (cases "de_parse env s")
  case (Inl e)
  then show ?thesis using assms(1,3) by (simp add: untagReference_def del_rel_refl)
next
  case (Inr ref)
  let ?S = "if force then {i} else {}"
  obtain d1 parsed e1 where r: "removeImageRef env d ref = (d1, parsed, e1)" by (metis prod_cases3)
  have rel1: "del_rel ?S d d1" by (rule removeImageRef_rel(1) [OF assms(1) _ r]) (use assms(2) Inr in \<open>auto simp: parses_valid_def\<close>)
  show ?thesis
  proof (cases e1)
    case (Some x)
    then show ?thesis using assms(3) Inr r rel1 by (simp add: untagReference_def)
  next
    case None
    let ?refs = "References (referenceStore d1) i"
    define od where "od \<longleftrightarrow> \<not> isCanonical parsed \<and> list_all isCanonical ?refs"
    obtain d2 recs2 e2 where u: "(if od then untagDigests env d1 [Untagged (refString parsed)] ?refs
        else (d1, [Untagged (refString parsed)], None)) = (d2, recs2, e2)" by (metis prod_cases3)
    have inv1: "refs_inv d1" by (rule del_relD(6) [OF rel1])
    have "del_rel ?S d1 d2"
      using u untagDigests_rel [OF inv1] del_rel_refl [OF inv1] by (auto split: if_splits)
    then have rel2: "del_rel ?S d d2" by (rule del_rel_trans [OF rel1])
    have "d' = d2 \<or> imageDeleteHelper env d2 i recs2 force prune True = Some (d', recs, out)"
      using assms(3) Inr r None u
      by (auto simp: untagReference_def Let_def od_def [symmetric] split: option.splits if_splits)
    then show ?thesis
      using rel2 del_rel_trans [OF rel2 imageDeleteHelper_rel [OF _ del_relD(6) [OF rel2]]] by blast
  qed
qed

lemma ImageDelete_rel:
  assumes "refs_inv d" "parses_valid env"
    and "GetImageID env d s = Inr i" "ImageDelete env d s force prune = Some (d', recs, out)"
  shows "del_rel (if force then {i} else {}) d d'"
proof -
  let ?refs = "References (referenceStore d) i" and ?S = "if force then {i} else {}"
  have one: "del_rel ?S d d1" if "removeImageRef env d (?refs ! 0) = (d1, p, e)" "length ?refs = 1" for d1 p e
  proof -
    have "?refs ! 0 \<in> set ?refs" using that(2) by simp
    then have "valid_ref (?refs ! 0)" using References_storable(1) assms(1) by (auto simp: refs_inv_def)
    then show ?thesis using removeImageRef_rel(1) [OF assms(1) _ that(1)] by blast
  qed
  have two: "del_rel ?S d d'" if "removeImageRef env d (?refs ! 0) = (d1, p, e)" "length ?refs = 1"
      "imageDeleteHelper env d1 i rs force prune q = Some (d', recs, out)" for d1 p e rs q
    using del_rel_trans [OF one [OF that(1,2)] imageDeleteHelper_rel [OF that(3) del_relD(6) [OF one [OF that(1,2)]]]] .
  consider "d' = d" | "untagReference env d i s force prune = Some (d', recs, out)"
    | d1 p e where "removeImageRef env d (?refs ! 0) = (d1, p, e)" "length ?refs = 1" "d' = d1"
    | d1 p e rs q where "removeImageRef env d (?refs ! 0) = (d1, p, e)" "length ?refs = 1"
        "imageDeleteHelper env d1 i rs force prune q = Some (d', recs, out)"
    | "imageDeleteHelper env d i [] force prune False = Some (d', recs, out)"
    using assms(3,4) by (auto simp: ImageDelete_def Let_def split: if_splits option.splits prod.splits)
  then show ?thesis
  proof cases
    case 1
    then show ?thesis using del_rel_refl [OF assms(1)] by simp
  next
    case 2
    then show ?thesis by (rule untagReference_rel [OF assms(1,2)])
  next
    case 3
    then show ?thesis using one by blast
  next
    case 4
    then show ?thesis by (rule two)
  next
    case 5
    then show ?thesis using imageDeleteHelper_rel [OF _ assms(1)] by blast
  qed
qed

subsection \<open>Deleting returns\<close>

lemma imageDeleteHelper_returns:
  assumes "image_inv (imageStore d)"
  shows "\<exists>d' recs' out. imageDeleteHelper env d i recs force prune quiet = Some (d', recs', out) \<and> no_panic out"
  using assms
proof (induction env d i recs force prune quiet rule: imageDeleteHelper.induct)
  case (1 env d i recs force prune quiet)
  let ?check = "checkImageDeleteConflict d i (conflictHard @ (if force then [] else conflictSoft))"
  let ?p = "case GetParent (de_hash env) (imageStore d) i of Inl _ \<Rightarrow> [] | Inr p \<Rightarrow> p"
  obtain d1 recs1 e where r: "removeAllReferencesToImageID env d i recs = (d1, recs1, e)" by (metis prod_cases3)
  have same: "imageStore d1 = imageStore d"
    using untagAll_images [of env d recs "References (referenceStore d) i"] r by (simp add: removeAllReferencesToImageID_def)
  obtain st o1 where del: "DeleteImage (de_fs env) (de_layers env) (de_hash env) (imageStore d1) i = Some (st, o1)" "no_panic o1" "image_inv st"
    using DeleteImage_inv [OF 1(2)] same by metis
  show ?case
  proof (cases "?check = None \<and> e = None \<and> (\<exists>removed. o1 = Done removed) \<and> prune \<and> ?p \<noteq> []")
    case True
    then obtain removed where t: "?check = None" "e = None" "o1 = Done removed" "\<not> (\<not> prune \<or> ?p = [])" by blast
    have "imageDeleteHelper env d i recs force prune quiet =
        imageDeleteHelper env (d1\<lparr>imageStore := st\<rparr>) ?p (recs1 @ [Deleted i] @ map (\<lambda>l. Deleted (md_chainID l)) removed) False True True"
      using t r del(1) by (simp add: imageDeleteHelper.simps [of env d] Let_def)
    moreover have "image_inv (imageStore (d1\<lparr>imageStore := st\<rparr>))" using del(3) by simp
    ultimately show ?thesis
      using 1(1) [OF t(1) refl r [symmetric] refl t(2) del(1) refl t(3) refl refl t(4)] by simp
  next
    case False
    then show ?thesis
      using r del(1,2) by (auto simp: imageDeleteHelper.simps [of env d] Let_def split: option.splits outcome.splits if_splits)
  qed
qed

lemma ImageDelete_returns:
  assumes "image_inv (imageStore d)"
  shows "\<exists>d' recs out. ImageDelete env d s force prune = Some (d', recs, out) \<and> no_panic out"
proof -
  have h: "\<exists>d' recs' out. imageDeleteHelper env d1 i recs force prune quiet = Some (d', recs', out) \<and> no_panic out"
    if "imageStore d1 = imageStore d" for d1 i recs quiet
    using imageDeleteHelper_returns [of d1] assms that by simp
  have r: "imageStore d1 = imageStore d0" if "removeImageRef env d0 ref = (d1, p, e)" for d0 d1 ref p e
    using removeImageRef_images(1) [of env d0 ref] that by simp
  have u: "imageStore d2 = imageStore d1" if "untagDigests env d1 recs rs = (d2, recs2, e)" for d1 d2 recs recs2 rs e
    using untagDigests_state [of env d1 recs rs recs] untagAll_images [of env d1 recs rs] that by simp
  have un: "\<exists>d' recs' out. untagReference env d i s force prune = Some (d', recs', out) \<and> no_panic out" for i
    using h r u
    by (auto simp: untagReference_def Let_def split: sum.splits option.splits prod.splits if_splits)
  show ?thesis
    using un h h [OF r]
    by (auto simp: ImageDelete_def Let_def split: sum.splits option.splits prod.splits if_splits)
qed

subsection \<open>Properties\<close>

text \<open>
  C9: deleting an image, by reference or identifier, forced or not, returns without a panic and keeps
  what is in use.  An image of a running container stays; so does an image of a stopped one, unless it
  is the very image whose deletion was forced.  An image goes only when all its children are gone, and
  in the end every reference left is an old one and points to an image of the store.
\<close>

theorem image_delete_keeps_used:
  assumes "refs_inv d" "image_inv (imageStore d)" "parses_valid env" "GetImageID env d s = Inr i"
  shows "\<exists>d' recs out. ImageDelete env d s force prune = Some (d', recs, out) \<and> no_panic out
    \<and> (\<forall>c \<in> snd ` set (users d). has_image d (u_ImageID c) \<and> (u_Running c \<or> \<not> force \<or> u_ImageID c \<noteq> i)
         \<longrightarrow> has_image d' (u_ImageID c))
    \<and> (\<forall>j k. has_image d j \<and> \<not> has_image d' j \<and> k \<in> set (Children (imageStore d) j) \<longrightarrow> \<not> has_image d' k)
    \<and> (\<forall>r j. refers d' r j \<longrightarrow> refers d r j \<and> has_image d' j)"
proof -
  obtain d' recs out where run: "ImageDelete env d s force prune = Some (d', recs, out)" "no_panic out"
    using ImageDelete_returns [OF assms(2)] by blast
  note rel = del_relD [OF ImageDelete_rel [OF assms(1,3,4) run(1)]]
  have "has_image d' (u_ImageID c)"
    if "c \<in> snd ` set (users d)" "has_image d (u_ImageID c)" "u_Running c \<or> \<not> force \<or> u_ImageID c \<noteq> i" for c
    using rel(4) [OF that(1,2)] that(3) by (auto split: if_splits)
  moreover have "\<not> has_image d' k" if "has_image d j" "\<not> has_image d' j" "k \<in> set (Children (imageStore d) j)" for j k
    using rel(5) [OF that(1,3)] that(2) by blast
  moreover have "refers d r j \<and> has_image d' j" if "refers d' r j" for r j
    using rel(3) [OF that] rel(6) that unfolding refs_inv_def by blast
  ultimately show ?thesis using run by blast
qed

definition demo_parse :: "string \<Rightarrow> (ref_error, named) result" where
  "demo_parse s = (if s = ''busybox'' then Inr busybox else Inl (ErrParsing s))"

definition demo_env :: delete_env where
  "demo_env = \<lparr>de_fs = okFS, de_layers = okIO, de_hash = (\<lambda>x. x), de_unmarshal = scratchImage, de_saved = None,
     de_digest = (\<lambda>_. None), de_parse = demo_parse, de_search = (\<lambda>_ _. None)\<rparr>"

text \<open>An image with a tag and a digest, used by a stopped container.\<close>

definition demo_refs :: ref_store where
  "demo_refs = foldl ref_step emptyRefStore
     [OpAddTag None busybox ''image1'' False, OpAddDigest None \<lparr>refName = ''busybox'', refKind = Digested ''sha256:1''\<rparr> ''image1'' False]"

definition demo_images :: image_store where
  "demo_images = foldl (image_exec scratchImage (\<lambda>x. x)) emptyImageStore [OpCreateImage okFS ''image1'']"

definition demo_daemon :: img_daemon where
  "demo_daemon = \<lparr>imageStore = demo_images, referenceStore = demo_refs,
     users = [(''c1'', \<lparr>u_ID = ''c1'', u_ImageID = ''image1'', u_Running = False\<rparr>)]\<rparr>"

lemma demo_refs_inv: "rs_inv demo_refs"
  unfolding demo_refs_def by (rule refs.guarded_run) (simp add: valid_ref_def busybox_def isCanonical_def)

lemma demo_daemon_inv: "refs_inv demo_daemon" "image_inv (imageStore demo_daemon)"
proof -
  have im: "mget (images (imageStore demo_daemon)) ''image1'' \<noteq> None" by code_simp
  have "foldl ref_spec Map.empty [OpAddTag None busybox ''image1'' False,
      OpAddDigest None \<lparr>refName = ''busybox'', refKind = Digested ''sha256:1''\<rparr> ''image1'' False] r = Some i \<Longrightarrow> i = ''image1''" for r i
    by (auto simp: spec_add_def busybox_def isCanonical_def WithDefaultTag_def IsNameOnly_def split: if_splits)
  moreover have "ref_abs demo_refs = foldl ref_spec Map.empty [OpAddTag None busybox ''image1'' False,
      OpAddDigest None \<lparr>refName = ''busybox'', refKind = Digested ''sha256:1''\<rparr> ''image1'' False]"
    unfolding demo_refs_def using empty_rs_inv
    by (subst ref_run_abs) (simp_all add: valid_ref_def busybox_def isCanonical_def)
  ultimately have "ref_abs demo_refs r = Some i \<Longrightarrow> i = ''image1''" for r i by (simp only:)
  then show "refs_inv demo_daemon" using demo_refs_inv im by (fastforce simp: refs_inv_def demo_daemon_def)
  have "demo_images = fst (CreateImage okFS scratchImage (\<lambda>x. x) emptyImageStore ''image1'')" by (simp add: demo_images_def)
  then have "image_step emptyImageStore demo_images" using image_step.create by metis
  then show "image_inv (imageStore demo_daemon)"
    using image_step_inv empty_image_inv by (simp add: demo_daemon_def)
qed

theorem image_delete_keeps_used_witness:
  "\<exists>d' recs out. ImageDelete demo_env demo_daemon ''busybox'' False True = Some (d', recs, out) \<and> has_image d' ''image1''"
proof -
  have "parses_valid demo_env" by (simp add: parses_valid_def demo_env_def demo_parse_def valid_ref_def busybox_def)
  moreover have "GetImageID demo_env demo_daemon ''busybox'' = Inr ''image1''" by code_simp
  moreover have "mget (images (imageStore demo_daemon)) ''image1'' \<noteq> None" by code_simp
  ultimately show ?thesis
    using image_delete_keeps_used [OF demo_daemon_inv, of demo_env "''busybox''" "''image1''" False True]
    by (fastforce simp: demo_daemon_def)
qed

text \<open>
  An image with one tag and digests passes for an image with several references, so that untagging it
  is not refused for the container that uses it; the digests are then removed as well, and the image
  in use is left without any reference.
\<close>

theorem untag_leaves_used_image_dangling:
  "(case ImageDelete demo_env demo_daemon ''busybox'' False True of
      Some (d', recs, out) \<Rightarrow> out = Done () \<and> recs = [Untagged ''busybox:latest'', Untagged ''busybox@sha256:1'']
        \<and> imageIsDangling d' ''image1'' \<and> getContainerUsingImage d' ''image1'' \<noteq> None \<and> has_image d' ''image1''
    | None \<Rightarrow> False)"
  by code_simp

end
