(* ===== verification/Dir_Tree.thy ===== *)
theory Dir_Tree
  imports Go_Path "HOL-Library.Sublist"
begin

section \<open>Directory trees\<close>

text \<open>
  A tree with an attribute at every node and named children, for the file system of a host and for the
  summaries that \<^verbatim>\<open>pkg/archive\<close> makes of it.  Paths are lists of names; a name occurs once among the
  children of a node.  The lemmas say what a path finds after a subtree was put or removed, which is all
  the later theories use of the representation.
\<close>

datatype 'a dtree = Node (attr: 'a) (kids: "(string \<times> 'a dtree) list")

fun find_tree :: "'a dtree \<Rightarrow> string list \<Rightarrow> 'a dtree option" where
  "find_tree t [] = Some t"
| "find_tree t (n # ns) = (case mget (kids t) n of None \<Rightarrow> None | Some u \<Rightarrow> find_tree u ns)"

text \<open>Put a subtree at a path whose parent exists, and remove the subtree at a path.\<close>

fun put_tree :: "string list \<Rightarrow> 'a dtree \<Rightarrow> 'a dtree \<Rightarrow> 'a dtree" where
  "put_tree [] u t = u"
| "put_tree (n # ns) u t =
     (case mget (kids t) n of
        None \<Rightarrow> if ns = [] then Node (attr t) (mput n u (kids t)) else t
      | Some c \<Rightarrow> Node (attr t) (mput n (put_tree ns u c) (kids t)))"

fun del_tree :: "string list \<Rightarrow> 'a dtree \<Rightarrow> 'a dtree" where
  "del_tree [] t = t"
| "del_tree (n # ns) t =
     (case mget (kids t) n of
        None \<Rightarrow> t
      | Some c \<Rightarrow>
          Node (attr t) (if ns = [] then mdel n (kids t) else mput n (del_tree ns c) (kids t)))"

definition set_attr :: "string list \<Rightarrow> 'a \<Rightarrow> 'a dtree \<Rightarrow> 'a dtree" where
  "set_attr ns a t = (case find_tree t ns of None \<Rightarrow> t | Some u \<Rightarrow> put_tree ns (Node a (kids u)) t)"

definition attr_at :: "'a dtree \<Rightarrow> string list \<Rightarrow> 'a option" where
  "attr_at t ns = map_option attr (find_tree t ns)"

fun wf_tree :: "'a dtree \<Rightarrow> bool" where
  "wf_tree (Node a cs) \<longleftrightarrow> wf_map cs \<and> (\<forall>x \<in> set cs. plain (fst x) \<and> wf_tree (snd x))"

subsection \<open>What a path finds\<close>

lemma find_append: "find_tree t (ns @ ms) = (case find_tree t ns of None \<Rightarrow> None | Some u \<Rightarrow> find_tree u ms)"
  by (induction t ns rule: find_tree.induct) (auto split: option.splits)

lemma attr_at_Nil [simp]: "attr_at t [] = Some (attr t)"
  by (simp add: attr_at_def)

lemma attr_at_Cons [simp]: "attr_at t (n # ns) = (case mget (kids t) n of None \<Rightarrow> None | Some u \<Rightarrow> attr_at u ns)"
  by (simp add: attr_at_def split: option.splits)

lemma attr_at_append: "attr_at t (ns @ ms) = (case find_tree t ns of None \<Rightarrow> None | Some u \<Rightarrow> attr_at u ms)"
  by (simp add: attr_at_def find_append split: option.splits)

lemma attr_at_find: "find_tree t ns = Some u \<Longrightarrow> attr_at t ns = Some (attr u)"
  by (simp add: attr_at_def)

lemma attr_at_None_iff: "attr_at t ns = None \<longleftrightarrow> find_tree t ns = None"
  by (simp add: attr_at_def)

lemma attr_at_prefix: "attr_at t (ns @ ms) \<noteq> None \<Longrightarrow> attr_at t ns \<noteq> None"
  by (auto simp: attr_at_append dest: attr_at_find split: option.splits)

lemma attr_at_put:
  assumes "ns = [] \<or> attr_at t (butlast ns) \<noteq> None"
  shows "attr_at (put_tree ns u t) ms = (if prefix ns ms then attr_at u (drop (length ns) ms) else attr_at t ms)"
  using assms
proof (induction ns u t arbitrary: ms rule: put_tree.induct)
  case (2 n ns u t)
  then show ?case by (cases ms) (auto split: option.splits if_splits)
qed simp

lemma attr_at_del:
  "attr_at (del_tree ns t) ms = (if ns \<noteq> [] \<and> prefix ns ms then None else attr_at t ms)"
proof (induction ns t arbitrary: ms rule: del_tree.induct)
  case (2 n ns t)
  then show ?case by (cases ms) (auto split: option.splits)
qed simp

lemma prefix_drop: "prefix ns ms \<Longrightarrow> ns @ drop (length ns) ms = ms"
  by (auto simp: prefix_def)

lemma find_butlast: "find_tree t ns \<noteq> None \<Longrightarrow> find_tree t (butlast ns) \<noteq> None"
  by (cases ns rule: rev_cases) (auto simp: find_append split: option.splits)

lemma attr_at_set:
  "attr_at (set_attr ns a t) ms = (if ms = ns \<and> attr_at t ns \<noteq> None then Some a else attr_at t ms)"
proof (cases "find_tree t ns")
  case None
  then show ?thesis by (simp add: set_attr_def attr_at_def)
next
  case (Some u)
  then have "ns = [] \<or> attr_at t (butlast ns) \<noteq> None" using find_butlast [of t ns] by (simp add: attr_at_def)
  moreover have "attr_at t ms = attr_at u (drop (length ns) ms)" if "prefix ns ms"
    using attr_at_append [of t ns "drop (length ns) ms"] prefix_drop [OF that] Some by simp
  moreover have "attr_at (Node a (kids u)) ks = (if ks = [] then Some a else attr_at u ks)" for ks
    by (cases ks) simp_all
  ultimately show ?thesis using Some attr_at_find [OF Some] by (auto simp: set_attr_def attr_at_put prefix_def)
qed

subsection \<open>Well-formed trees\<close>

lemma wf_kids: "wf_tree t \<longleftrightarrow> wf_map (kids t) \<and> (\<forall>n u. mget (kids t) n = Some u \<longrightarrow> plain n \<and> wf_tree u)"
  by (cases t) (fastforce simp: wf_map_mem [symmetric] dest: map_of_SomeD)

declare wf_tree.simps [simp del]

lemma wf_kidD: "wf_tree t \<Longrightarrow> mget (kids t) n = Some u \<Longrightarrow> plain n \<and> wf_tree u"
  by (simp add: wf_kids [of t])

lemma wf_tree_map: "wf_tree t \<Longrightarrow> wf_map (kids t)"
  by (simp add: wf_kids [of t])

lemma wf_find: "wf_tree t \<Longrightarrow> find_tree t ns = Some u \<Longrightarrow> wf_tree u \<and> list_all plain ns"
  by (induction t ns rule: find_tree.induct) (auto dest: wf_kidD split: option.splits)

lemma wf_put: "wf_tree t \<Longrightarrow> wf_tree u \<Longrightarrow> list_all plain ns \<Longrightarrow> wf_tree (put_tree ns u t)"
proof (induction ns u t rule: put_tree.induct)
  case (2 n ns u t)
  then show ?case
    by (cases "mget (kids t) n") (auto simp: wf_kids [of t] wf_kids [of "Node _ _"] dest: wf_kidD split: if_splits)
qed simp

lemma wf_del: "wf_tree t \<Longrightarrow> wf_tree (del_tree ns t)"
proof (induction ns t rule: del_tree.induct)
  case (2 n ns t)
  then show ?case
    by (cases "mget (kids t) n") (auto simp: wf_kids [of t] wf_kids [of "Node _ _"] dest: wf_kidD split: if_splits)
qed simp

lemma wf_set: "wf_tree t \<Longrightarrow> wf_tree (set_attr ns a t)"
proof (cases "find_tree t ns")
  case (Some u)
  assume "wf_tree t"
  from wf_find [OF this Some] have "wf_tree (Node a (kids u))" "list_all plain ns"
    by (simp_all add: wf_kids [of u] wf_kids [of "Node a (kids u)"])
  then show ?thesis using \<open>wf_tree t\<close> Some by (simp add: set_attr_def wf_put)
qed (simp add: set_attr_def)

text \<open>Induction over a path down from a node.\<close>

lemma kid_size: "mget (kids t) n = Some u \<Longrightarrow> size u < size t"
  by (cases t) (auto dest!: map_of_SomeD size_list_estimation' [where f = "size_prod (\<lambda>_. 0) size" and y = "size u"] intro: le_imp_less_Suc)

end
