(* ===== verification/Layer_Changes.thy ===== *)
theory Layer_Changes
  imports Dir_Tree
begin

section \<open>The differences between two directory trees\<close>

text \<open>
  \<^verbatim>\<open>pkg/archive/changes.go\<close> and \<^verbatim>\<open>changes_unix.go\<close>: two trees of \<^verbatim>\<open>FileInfo\<close> are compared, and what was
  added, modified and deleted is listed.  A \<^verbatim>\<open>FileInfo\<close> is a node of a directory tree; its parent
  pointer is the list of names that leads to it, an argument here, and the flag \<^verbatim>\<open>added\<close>, which is
  false in a fresh tree, is an argument of the call that reads it.  The root has no \<^verbatim>\<open>stat\<close> in the
  code, and nothing reads it.  The order in which Go ranges over the children is the order of the list.
\<close>

record Timespec =
  ts_Sec :: int
  ts_Nsec :: int

record StatT =
  st_mode :: "32 word"
  st_uid :: "32 word"
  st_gid :: "32 word"
  st_rdev :: "64 word"
  st_size :: int
  st_mtim :: Timespec

datatype ChangeType = ChangeModify | ChangeAdd | ChangeDelete

datatype Change = Change (chPath: string) (chKind: ChangeType)

definition sameFsTimeSpec :: "Timespec \<Rightarrow> Timespec \<Rightarrow> bool" where
  "sameFsTimeSpec a b \<longleftrightarrow> ts_Sec a = ts_Sec b \<and> (ts_Nsec a = ts_Nsec b \<or> ts_Nsec a = 0 \<or> ts_Nsec b = 0)"

definition S_IFDIR :: "32 word" where
  "S_IFDIR = 0x4000"

definition statDifferent :: "StatT \<Rightarrow> StatT \<Rightarrow> bool" where
  "statDifferent oldStat newStat \<longleftrightarrow>
     st_mode oldStat \<noteq> st_mode newStat
     \<or> st_uid oldStat \<noteq> st_uid newStat
     \<or> st_gid oldStat \<noteq> st_gid newStat
     \<or> st_rdev oldStat \<noteq> st_rdev newStat
     \<or> and (st_mode oldStat) S_IFDIR \<noteq> S_IFDIR
       \<and> (\<not> sameFsTimeSpec (st_mtim oldStat) (st_mtim newStat) \<or> st_size oldStat \<noteq> st_size newStat)"

record finfo =
  fi_stat :: StatT
  fi_capability :: string

type_synonym FileInfo = "finfo dtree"

definition isDir :: "string list \<Rightarrow> FileInfo \<Rightarrow> bool" where
  "isDir ns info \<longleftrightarrow> ns = [] \<or> and (st_mode (fi_stat (attr info))) S_IFDIR \<noteq> 0"

definition infoPath :: "string list \<Rightarrow> string" where
  "infoPath ns = foldl (\<lambda>p n. JoinPath [p, n]) ''/'' ns"

fun lookUpLoop :: "FileInfo \<Rightarrow> string list \<Rightarrow> FileInfo option" where
  "lookUpLoop parent [] = Some parent"
| "lookUpLoop parent (e # es) =
     (if e = [] then lookUpLoop parent es
      else case mget (kids parent) e of None \<Rightarrow> None | Some child \<Rightarrow> lookUpLoop child es)"

definition LookUp :: "FileInfo \<Rightarrow> string \<Rightarrow> FileInfo option" where
  "LookUp info path = (if path = ''/'' then Some info else lookUpLoop info (split CHR ''/'' path))"

text \<open>What the loop over the children compares, and the two mutually recursive parts of \<^verbatim>\<open>addChanges\<close>.\<close>

definition childDiffers :: "FileInfo \<Rightarrow> FileInfo \<Rightarrow> bool" where
  "childDiffers oldChild newChild \<longleftrightarrow>
     statDifferent (fi_stat (attr oldChild)) (fi_stat (attr newChild))
     \<or> fi_capability (attr oldChild) \<noteq> fi_capability (attr newChild)"

definition insertChange :: "nat \<Rightarrow> Change \<Rightarrow> Change list \<Rightarrow> Change list" where
  "insertChange i change changes = take i changes @ change # drop i changes"

fun addChanges :: "string list \<Rightarrow> bool \<Rightarrow> FileInfo \<Rightarrow> FileInfo option \<Rightarrow> Change list \<Rightarrow> Change list"
  and addChildren :: "string list \<Rightarrow> (string, FileInfo) gomap \<Rightarrow> (string, FileInfo) gomap \<Rightarrow> Change list
    \<Rightarrow> Change list \<times> (string, FileInfo) gomap"
where
  "addChanges ns added (Node a cs) oldInfo changes =
     (let sizeAtEntry = length changes;
          info = Node a cs;
          changes1 = (if oldInfo = None then changes @ [Change (infoPath ns) ChangeAdd] else changes);
          added1 = (added \<or> oldInfo = None);
          oldChildren = (case oldInfo of None \<Rightarrow> [] | Some old \<Rightarrow> if isDir ns info then kids old else []);
          (changes2, gone) = addChildren ns cs oldChildren changes1;
          changes3 = changes2 @ map (\<lambda>x. Change (infoPath (ns @ [fst x])) ChangeDelete) gone
      in if length changes3 > sizeAtEntry \<and> isDir ns info \<and> \<not> added1 \<and> infoPath ns \<noteq> ''/''
         then insertChange sizeAtEntry (Change (infoPath ns) ChangeModify) changes3
         else changes3)"
| "addChildren ns [] oldChildren changes = (changes, oldChildren)"
| "addChildren ns ((name, newChild) # cs) oldChildren changes =
     (case mget oldChildren name of
        None \<Rightarrow> addChildren ns cs oldChildren (addChanges (ns @ [name]) False newChild None changes)
      | Some oldChild \<Rightarrow>
          let differs = childDiffers oldChild newChild;
              changes1 = (if differs then changes @ [Change (infoPath (ns @ [name])) ChangeModify] else changes)
          in addChildren ns cs (mdel name oldChildren)
               (addChanges (ns @ [name]) differs newChild (Some oldChild) changes1))"

definition Changes :: "FileInfo \<Rightarrow> FileInfo option \<Rightarrow> Change list" where
  "Changes info oldInfo = addChanges [] False info oldInfo []"

subsection \<open>Paths\<close>

lemma JoinPath_rooted:
  assumes "list_all plain ns" "plain n"
  shows "JoinPath [rooted ns, n] = rooted (ns @ [n])"
proof -
  have "rooted ns \<noteq> []" by (simp add: rooted_def)
  moreover have "pathParts (rooted ns @ CHR ''/'' # n) = ns @ [n]"
    using parts_sep [of "rooted ns" n] assms by (simp add: plain_def split_no_sep)
  ultimately show ?thesis by (simp add: JoinPath_def Let_def Clean_rooted)
qed

lemma infoPath_rooted: "list_all plain ns \<Longrightarrow> infoPath ns = rooted ns"
proof (induction ns rule: rev_induct)
  case (snoc n ns)
  then show ?case using JoinPath_rooted by (simp add: infoPath_def)
qed (simp add: infoPath_def)

lemma lookUpLoop_find: "lookUpLoop t es = find_tree t (filter (\<lambda>e. e \<noteq> []) es)"
  by (induction t es rule: lookUpLoop.induct) (auto split: option.splits)

lemma LookUp_rooted:
  assumes "list_all plain ns"
  shows "LookUp t (rooted ns) = find_tree t ns"
proof (cases "ns = []")
  case False
  then have "rooted ns \<noteq> ''/''" using rooted_inj [OF assms, of "[]"] by auto
  then show ?thesis by (simp add: LookUp_def lookUpLoop_find filter_split_rooted [OF assms])
qed (simp add: LookUp_def)

subsection \<open>The same without an accumulator\<close>

text \<open>What the subtree at \<open>ns\<close> adds to the list, as a recursion over the new tree alone.\<close>

definition visible :: "string list \<Rightarrow> FileInfo \<Rightarrow> FileInfo option \<Rightarrow> (string, FileInfo) gomap" where
  "visible ns info old = (case old of None \<Rightarrow> [] | Some o' \<Rightarrow> if isDir ns info then kids o' else [])"

definition goneChanges :: "string list \<Rightarrow> (string, FileInfo) gomap \<Rightarrow> (string, FileInfo) gomap \<Rightarrow> Change list" where
  "goneChanges ns us olds = map (\<lambda>x. Change (infoPath (ns @ [fst x])) ChangeDelete) (filter (\<lambda>x. fst x \<notin> fst ` set us) olds)"

definition withDir :: "string list \<Rightarrow> bool \<Rightarrow> FileInfo \<Rightarrow> Change list \<Rightarrow> Change list" where
  "withDir ns quiet info body =
     (if body \<noteq> [] \<and> isDir ns info \<and> \<not> quiet \<and> ns \<noteq> [] then Change (infoPath ns) ChangeModify # body else body)"

fun treeChanges :: "string list \<Rightarrow> bool \<Rightarrow> FileInfo \<Rightarrow> FileInfo option \<Rightarrow> Change list" where
  "treeChanges ns added (Node a us) old =
     withDir ns (added \<or> old = None) (Node a us)
       ((if old = None then [Change (infoPath ns) ChangeAdd] else [])
        @ concat (map (\<lambda>(n, u).
            case mget (visible ns (Node a us) old) n of
              None \<Rightarrow> treeChanges (ns @ [n]) False u None
            | Some v \<Rightarrow> (if childDiffers v u then [Change (infoPath (ns @ [n])) ChangeModify] else [])
                @ treeChanges (ns @ [n]) (childDiffers v u) u (Some v)) us)
        @ goneChanges ns us (visible ns (Node a us) old))"

definition childChanges :: "string list \<Rightarrow> (string, FileInfo) gomap \<Rightarrow> string \<times> FileInfo \<Rightarrow> Change list" where
  "childChanges ns olds = (\<lambda>(n, u).
     case mget olds n of
       None \<Rightarrow> treeChanges (ns @ [n]) False u None
     | Some v \<Rightarrow> (if childDiffers v u then [Change (infoPath (ns @ [n])) ChangeModify] else [])
         @ treeChanges (ns @ [n]) (childDiffers v u) u (Some v))"

lemma childChanges_new: "mget olds n = None \<Longrightarrow> childChanges ns olds (n, u) = treeChanges (ns @ [n]) False u None"
  by (simp add: childChanges_def)

lemma childChanges_both:
  "mget olds n = Some v \<Longrightarrow> childChanges ns olds (n, u) =
     (if childDiffers v u then [Change (infoPath (ns @ [n])) ChangeModify] else [])
     @ treeChanges (ns @ [n]) (childDiffers v u) u (Some v)"
  by (simp add: childChanges_def)

lemma treeChanges_unfold:
  "treeChanges ns added t old =
     withDir ns (added \<or> old = None) t
       ((if old = None then [Change (infoPath ns) ChangeAdd] else [])
        @ concat (map (childChanges ns (visible ns t old)) (kids t)) @ goneChanges ns (kids t) (visible ns t old))"
  by (cases t) (simp add: childChanges_def cong: map_cong)

declare treeChanges.simps [simp del]

lemma insert_append: "insertChange (length xs) c (xs @ ys) = xs @ c # ys"
  by (simp add: insertChange_def)

lemma rooted_slash_iff: "list_all plain ns \<Longrightarrow> rooted ns = ''/'' \<longleftrightarrow> ns = []"
  using rooted_inj [of ns "[]"] by auto

definition kids_ok :: "(string, FileInfo) gomap \<Rightarrow> bool" where
  "kids_ok us \<longleftrightarrow> wf_map us \<and> (\<forall>x \<in> set us. plain (fst x) \<and> wf_tree (snd x))"

lemma wf_tree_kids_ok: "wf_tree t \<longleftrightarrow> kids_ok (kids t)"
  by (cases t) (simp add: wf_tree.simps kids_ok_def)

lemma kids_ok_Cons: "kids_ok ((n, u) # us) \<longleftrightarrow> n \<notin> fst ` set us \<and> plain n \<and> wf_tree u \<and> kids_ok us"
  by (auto simp: kids_ok_def wf_map_def)

lemma childChanges_mdel:
  "n \<notin> fst ` set us \<Longrightarrow> map (childChanges ns (mdel n olds)) us = map (childChanges ns olds) us"
  by (induction us) (auto simp: childChanges_def)

lemma goneFilter: "filter (\<lambda>x. fst x \<notin> fst ` set us) (mdel n olds) = filter (\<lambda>x. fst x \<notin> fst ` set ((n, u) # us)) olds"
  by (auto simp: AList.delete_eq intro!: filter_cong)

lemma addChanges_tree:
  "wf_tree t \<Longrightarrow> list_all plain ns \<Longrightarrow> addChanges ns ad t old cs = cs @ treeChanges ns ad t old"
  "kids_ok us \<Longrightarrow> list_all plain ns \<Longrightarrow>
     addChildren ns us olds cs
     = (cs @ concat (map (childChanges ns olds) us), filter (\<lambda>x. fst x \<notin> fst ` set us) olds)"
proof (induction ns ad t old cs and ns us olds cs rule: addChanges_addChildren.induct)
  case (1 ns added a us oldInfo changes)
  let ?olds = "visible ns (Node a us) oldInfo"
  let ?add = "if oldInfo = None then [Change (infoPath ns) ChangeAdd] else []"
  have "kids_ok us" using 1(2) by (simp add: wf_tree_kids_ok)
  from 1(1) [OF refl refl refl refl refl this 1(3)]
  have "addChildren ns us ?olds (changes @ ?add)
      = (changes @ ?add @ concat (map (childChanges ns ?olds) us), filter (\<lambda>x. fst x \<notin> fst ` set us) ?olds)"
    by (cases oldInfo) (simp_all add: visible_def)
  moreover have "infoPath ns \<noteq> ''/'' \<longleftrightarrow> ns \<noteq> []"
    using 1(3) by (simp add: infoPath_rooted rooted_slash_iff)
  ultimately show ?case
    by (cases oldInfo) (auto simp: treeChanges_unfold withDir_def goneChanges_def visible_def insert_append Let_def)
next
  case (3 ns name newChild cs oldChildren changes)
  have ok: "wf_tree newChild" "list_all plain (ns @ [name])" "kids_ok cs" "name \<notin> fst ` set cs"
    using 3(5,6) by (simp_all add: kids_ok_Cons)
  show ?case
  proof (cases "mget oldChildren name")
    case None
    have "filter (\<lambda>x. fst x \<notin> fst ` set ((name, newChild) # cs)) oldChildren = filter (\<lambda>x. fst x \<notin> fst ` set cs) oldChildren"
      using None by (intro filter_cong) (auto simp: map_of_eq_None_iff)
    then show ?thesis using 3(1) [OF None ok(1,2)] 3(2) [OF None ok(3) 3(6)] None by (simp add: childChanges_new)
  next
    case (Some v)
    show ?thesis
      using 3(3) [OF Some refl refl ok(1,2)] 3(4) [OF Some refl refl ok(3) 3(6)] Some
      by (simp add: childChanges_mdel [OF ok(4)] goneFilter [of cs name oldChildren newChild] childChanges_both [OF Some] Let_def)
  qed
qed simp

subsection \<open>Which changes are listed\<close>

text \<open>
  \<open>direct\<close> is the change that a path has by itself: it is new, it is gone from a directory that is still
  there, or its attributes differ.  A directory with a direct change below it is listed too.
\<close>

definition attrDiffers :: "finfo \<Rightarrow> finfo \<Rightarrow> bool" where
  "attrDiffers b a \<longleftrightarrow> statDifferent (fi_stat b) (fi_stat a) \<or> fi_capability b \<noteq> fi_capability a"

lemma childDiffers_attr: "childDiffers v u \<longleftrightarrow> attrDiffers (attr v) (attr u)"
  by (simp add: childDiffers_def attrDiffers_def)

definition dirBit :: "finfo \<Rightarrow> bool" where
  "dirBit a \<longleftrightarrow> and (st_mode (fi_stat a)) S_IFDIR \<noteq> 0"

definition dirAt :: "string list \<Rightarrow> FileInfo \<Rightarrow> string list \<Rightarrow> bool" where
  "dirAt ns t ms \<longleftrightarrow> ns @ ms = [] \<or> (\<exists>a. attr_at t ms = Some a \<and> dirBit a)"

definition old_at :: "FileInfo option \<Rightarrow> string list \<Rightarrow> finfo option" where
  "old_at old ms = (case old of None \<Rightarrow> None | Some v \<Rightarrow> attr_at v ms)"

definition direct :: "string list \<Rightarrow> FileInfo \<Rightarrow> FileInfo option \<Rightarrow> string list \<Rightarrow> ChangeType option" where
  "direct ns t old ms =
     (case (attr_at t ms, old_at old ms) of
        (None, None) \<Rightarrow> None
      | (Some a, None) \<Rightarrow> Some ChangeAdd
      | (None, Some b) \<Rightarrow> if dirAt ns t (butlast ms) then Some ChangeDelete else None
      | (Some a, Some b) \<Rightarrow> if ms \<noteq> [] \<and> attrDiffers b a then Some ChangeModify else None)"

definition below :: "string list \<Rightarrow> FileInfo \<Rightarrow> FileInfo option \<Rightarrow> string list \<Rightarrow> bool" where
  "below ns t old ms \<longleftrightarrow>
     ns @ ms \<noteq> [] \<and> dirAt ns t ms \<and> old_at old ms \<noteq> None \<and> (\<exists>ks. ks \<noteq> [] \<and> direct ns t old (ms @ ks) \<noteq> None)"

text \<open>In a tree that was read from a file system, only directories have children.\<close>

fun parents_dirs :: "string list \<Rightarrow> FileInfo \<Rightarrow> bool" where
  "parents_dirs ns (Node a us) \<longleftrightarrow>
     (us = [] \<or> isDir ns (Node a us)) \<and> (\<forall>x \<in> set us. parents_dirs (ns @ [fst x]) (snd x))"

lemma dirAt_Cons: "mget (kids t) n = Some u \<Longrightarrow> dirAt ns t (n # ms) \<longleftrightarrow> dirAt (ns @ [n]) u ms"
  by (simp add: dirAt_def)

lemma dirAt_Nil: "dirAt ns t [] \<longleftrightarrow> isDir ns t"
  by (simp add: dirAt_def isDir_def dirBit_def)

lemma parents_dirs_kid:
  assumes "parents_dirs ns t" "mget (kids t) n = Some u"
  shows "parents_dirs (ns @ [n]) u" "isDir ns t"
proof -
  obtain a us where t: "t = Node a us" by (cases t)
  have "(n, u) \<in> set us" using assms(2) by (auto simp: t dest: map_of_SomeD)
  then show "parents_dirs (ns @ [n]) u" "isDir ns t" using assms(1) by (auto simp: t)
qed

lemma old_at_simps [simp]: "old_at None ms = None" "old_at (Some v) ms = attr_at v ms"
  by (simp_all add: old_at_def)

lemma old_at_visible: "isDir ns t \<Longrightarrow> old_at old (n # ms) = old_at (mget (visible ns t old) n) ms"
  by (simp add: old_at_def visible_def split: option.splits)

lemma direct_kid:
  assumes "isDir ns t" "mget (kids t) n = Some u" "ms \<noteq> [] \<or> mget (visible ns t old) n = None"
  shows "direct ns t old (n # ms) = direct (ns @ [n]) u (mget (visible ns t old) n) ms"
proof (cases "ms = []")
  case True
  then show ?thesis using assms by (simp add: direct_def old_at_visible)
next
  case False
  then show ?thesis
    using assms dirAt_Cons [OF assms(2), of ns "butlast ms"] by (simp add: direct_def old_at_visible split: option.splits)
qed

lemma direct_both:
  assumes "isDir ns t" "mget (kids t) n = Some u" "mget (visible ns t old) n = Some v"
  shows "direct ns t old [n] = (if childDiffers v u then Some ChangeModify else None)"
  using assms by (simp add: direct_def old_at_visible childDiffers_attr)

lemma direct_gone:
  assumes "mget (kids t) n = None"
  shows "direct ns t old (n # ms) = (if ms = [] \<and> mget (visible ns t old) n \<noteq> None then Some ChangeDelete else None)"
proof (cases "ms = []")
  case True
  then show ?thesis using assms by (auto simp: direct_def old_at_def visible_def dirAt_Nil split: option.splits)
next
  case False
  then have "\<not> dirAt ns t (n # butlast ms)" using assms by (simp add: dirAt_def)
  then show ?thesis using assms False by (simp add: direct_def split: option.splits)
qed

lemma below_kid:
  assumes "isDir ns t" "mget (kids t) n = Some u"
  shows "below ns t old (n # ms) \<longleftrightarrow> below (ns @ [n]) u (mget (visible ns t old) n) ms"
proof -
  have "direct ns t old ((n # ms) @ ks) = direct (ns @ [n]) u (mget (visible ns t old) n) (ms @ ks)" if "ks \<noteq> []" for ks
    using direct_kid [OF assms, of "ms @ ks"] that by simp
  then show ?thesis using dirAt_Cons [OF assms(2), of ns ms] assms(1) by (auto simp: below_def old_at_visible)
qed

lemma below_None [simp]: "\<not> below ns t None ms"
  by (simp add: below_def)

lemma below_gone: "mget (kids t) n = None \<Longrightarrow> \<not> below ns t old (n # ms)"
  by (simp add: below_def dirAt_def)

text \<open>Whether a path has an entry, and of which kind; the flag is that of the node at the top.\<close>

definition entry :: "string list \<Rightarrow> bool \<Rightarrow> FileInfo \<Rightarrow> FileInfo option \<Rightarrow> string list \<Rightarrow> ChangeType \<Rightarrow> bool" where
  "entry ns ad t old ms k \<longleftrightarrow>
     direct ns t old ms = Some k \<or> k = ChangeModify \<and> below ns t old ms \<and> \<not> (ms = [] \<and> ad)"

lemma entry_kid:
  assumes "isDir ns t" "mget (kids t) n = Some u"
  shows "entry ns ad t old (n # ms) k \<longleftrightarrow>
    (case mget (visible ns t old) n of
       None \<Rightarrow> entry (ns @ [n]) False u None ms k
     | Some v \<Rightarrow> ms = [] \<and> k = ChangeModify \<and> childDiffers v u \<or> entry (ns @ [n]) (childDiffers v u) u (Some v) ms k)"
proof (cases "mget (visible ns t old) n")
  case None
  then show ?thesis using assms by (auto simp: entry_def direct_kid below_kid)
next
  case (Some v)
  then have "direct (ns @ [n]) u (Some v) [] = None" by (simp add: direct_def)
  then show ?thesis
    using Some assms direct_both [OF assms Some] by (cases "ms = []") (auto simp: entry_def direct_kid below_kid)
qed

lemma entry_gone:
  "mget (kids t) n = None \<Longrightarrow>
    entry ns ad t old (n # ms) k \<longleftrightarrow> ms = [] \<and> k = ChangeDelete \<and> mget (visible ns t old) n \<noteq> None"
  by (auto simp: entry_def direct_gone below_gone)

definition listed :: "string list \<Rightarrow> bool \<Rightarrow> FileInfo \<Rightarrow> FileInfo option \<Rightarrow> Change set" where
  "listed ns ad t old = {Change (infoPath (ns @ ms)) k |ms k. entry ns ad t old ms k}"

lemma listedI: "entry ns ad t old ms k \<Longrightarrow> c = Change (infoPath (ns @ ms)) k \<Longrightarrow> c \<in> listed ns ad t old"
  unfolding listed_def by blast

lemma set_childChanges:
  assumes "isDir ns t" "mget (kids t) n = Some u"
    and IH: "\<And>ad v. set (treeChanges (ns @ [n]) ad u v) = listed (ns @ [n]) ad u v"
  shows "set (childChanges ns (visible ns t old) (n, u))
    = {Change (infoPath (ns @ n # ms)) k |ms k. entry ns ad t old (n # ms) k}"
proof (cases "mget (visible ns t old) n")
  case None
  then show ?thesis by (simp add: childChanges_new IH listed_def entry_kid [OF assms(1,2)])
next
  case (Some v)
  then show ?thesis by (auto simp: childChanges_both IH listed_def entry_kid [OF assms(1,2)])
qed

lemma set_goneChanges:
  "set (goneChanges ns (kids t) (visible ns t old))
    = {Change (infoPath (ns @ n # ms)) k |n ms k. mget (kids t) n = None \<and> entry ns ad t old (n # ms) k}"
proof -
  have "set (goneChanges ns (kids t) (visible ns t old))
      = (\<lambda>n. Change (infoPath (ns @ [n])) ChangeDelete) ` (fst ` set (visible ns t old) - fst ` set (kids t))"
    by (auto simp: goneChanges_def image_iff)
  also have "\<dots> = {Change (infoPath (ns @ [n])) ChangeDelete |n. mget (kids t) n = None \<and> mget (visible ns t old) n \<noteq> None}"
    unfolding dom_map_of_conv_image_fst [symmetric] by auto
  also have "\<dots> = {Change (infoPath (ns @ n # ms)) k |n ms k. mget (kids t) n = None
      \<and> (ms = [] \<and> k = ChangeDelete \<and> mget (visible ns t old) n \<noteq> None)}"
    by blast
  also have "\<dots> = {Change (infoPath (ns @ n # ms)) k |n ms k. mget (kids t) n = None \<and> entry ns ad t old (n # ms) k}"
    by (simp add: entry_gone cong: conj_cong)
  finally show ?thesis .
qed

text \<open>The entries below the top node are those of its children and of what is gone.\<close>

lemma set_body:
  assumes "wf_tree t" "parents_dirs ns t"
    and IH: "\<And>n u ad v. mget (kids t) n = Some u \<Longrightarrow> set (treeChanges (ns @ [n]) ad u v) = listed (ns @ [n]) ad u v"
  shows "set (concat (map (childChanges ns (visible ns t old)) (kids t)) @ goneChanges ns (kids t) (visible ns t old))
    = {Change (infoPath (ns @ ms)) k |ms k. ms \<noteq> [] \<and> entry ns ad t old ms k}" (is "?L = ?R")
proof -
  let ?E = "\<lambda>n. {Change (infoPath (ns @ n # ms)) k |ms k. entry ns ad t old (n # ms) k}"
  have kid: "set (childChanges ns (visible ns t old) (n, u)) = ?E n" if "mget (kids t) n = Some u" for n u
    using set_childChanges [OF parents_dirs_kid(2) [OF assms(2) that] that IH [OF that]] by blast
  have dom: "fst ` set (kids t) = {n. mget (kids t) n \<noteq> None}"
    unfolding dom_map_of_conv_image_fst [symmetric] by auto
  have "set (childChanges ns (visible ns t old) x) = ?E (fst x)" if "x \<in> set (kids t)" for x
    using kid [of "fst x" "snd x"] wf_map_mem [OF wf_tree_map [OF assms(1)], of "fst x" "snd x"] that by simp
  then have "set (concat (map (childChanges ns (visible ns t old)) (kids t))) = (\<Union>x \<in> set (kids t). ?E (fst x))"
    by simp
  also have "\<dots> = (\<Union>n \<in> {n. mget (kids t) n \<noteq> None}. ?E n)" unfolding dom [symmetric] by simp
  finally have "?L = (\<Union>n \<in> {n. mget (kids t) n \<noteq> None}. ?E n) \<union> {Change (infoPath (ns @ n # ms)) k |n ms k. mget (kids t) n = None \<and> entry ns ad t old (n # ms) k}"
    unfolding set_append set_goneChanges [of ns t old ad] by simp
  also have "\<dots> = {Change (infoPath (ns @ n # ms)) k |n ms k. entry ns ad t old (n # ms) k}" by blast
  also have "\<dots> = ?R" by (auto simp: neq_Nil_conv)
  finally show ?thesis .
qed

lemma listed_split:
  "listed ns ad t old = {Change (infoPath ns) k |k. entry ns ad t old [] k}
    \<union> {Change (infoPath (ns @ ms)) k |ms k. ms \<noteq> [] \<and> entry ns ad t old ms k}"
proof (intro set_eqI iffI)
  fix c assume "c \<in> listed ns ad t old"
  then obtain ms k where "c = Change (infoPath (ns @ ms)) k" "entry ns ad t old ms k" by (auto simp: listed_def)
  then show "c \<in> {Change (infoPath ns) k |k. entry ns ad t old [] k}
      \<union> {Change (infoPath (ns @ ms)) k |ms k. ms \<noteq> [] \<and> entry ns ad t old ms k}"
    by (cases "ms = []") auto
qed (auto intro: listedI [where ms = "[]"] listedI)

lemma entry_direct_below: "entry ns ad t old ms k \<Longrightarrow> \<exists>ks. direct ns t old (ms @ ks) \<noteq> None"
  by (auto simp: entry_def below_def intro: exI [of _ "[]"])

lemma some_entry:
  "(\<exists>ms k. ms \<noteq> [] \<and> entry ns ad t old ms k) \<longleftrightarrow> (\<exists>ks. ks \<noteq> [] \<and> direct ns t old ks \<noteq> None)"
proof
  assume "\<exists>ms k. ms \<noteq> [] \<and> entry ns ad t old ms k"
  then obtain ms k where "ms \<noteq> []" "entry ns ad t old ms k" by blast
  from this(1) entry_direct_below [OF this(2)] show "\<exists>ks. ks \<noteq> [] \<and> direct ns t old ks \<noteq> None" by (meson append_is_Nil_conv)
next
  assume "\<exists>ks. ks \<noteq> [] \<and> direct ns t old ks \<noteq> None"
  then show "\<exists>ms k. ms \<noteq> [] \<and> entry ns ad t old ms k" by (auto simp: entry_def)
qed

lemma set_treeChanges:
  "wf_tree t \<Longrightarrow> parents_dirs ns t \<Longrightarrow> set (treeChanges ns ad t old) = listed ns ad t old"
proof (induction "size t" arbitrary: ns ad t old rule: less_induct)
  case less
  let ?rest = "concat (map (childChanges ns (visible ns t old)) (kids t)) @ goneChanges ns (kids t) (visible ns t old)"
  have rest: "set ?rest = {Change (infoPath (ns @ ms)) k |ms k. ms \<noteq> [] \<and> entry ns ad t old ms k}"
    using less.prems less.hyps wf_kidD [OF less.prems(1)] parents_dirs_kid(1) [OF less.prems(2)] kid_size
    by (intro set_body) blast+
  show ?case
  proof (cases old)
    case None
    then have "entry ns ad t old [] k \<longleftrightarrow> k = ChangeAdd" for k by (auto simp: entry_def direct_def)
    then have "listed ns ad t old = insert (Change (infoPath ns) ChangeAdd) (set ?rest)"
      unfolding rest listed_split by auto
    then show ?thesis using None by (simp add: treeChanges_unfold [of ns ad t] withDir_def)
  next
    case (Some v)
    have "direct ns t old [] = None" using Some by (simp add: direct_def)
    have "?rest \<noteq> [] \<longleftrightarrow> (\<exists>ms k. ms \<noteq> [] \<and> entry ns ad t old ms k)"
      using rest set_empty [of ?rest] by auto
    then have "below ns t old [] \<longleftrightarrow> ns \<noteq> [] \<and> isDir ns t \<and> ?rest \<noteq> []"
      unfolding some_entry below_def using Some by (simp add: dirAt_Nil)
    then have "entry ns ad t old [] k \<longleftrightarrow> k = ChangeModify \<and> ?rest \<noteq> [] \<and> isDir ns t \<and> \<not> ad \<and> ns \<noteq> []" for k
      using \<open>direct ns t old [] = None\<close> by (auto simp: entry_def)
    then have "listed ns ad t old = (if ?rest \<noteq> [] \<and> isDir ns t \<and> \<not> ad \<and> ns \<noteq> [] then insert (Change (infoPath ns) ChangeModify) (set ?rest) else set ?rest)"
      unfolding rest listed_split by auto
    then show ?thesis using Some by (simp add: treeChanges_unfold [of ns ad t] withDir_def)
  qed
qed

subsection \<open>No path twice\<close>

definition wf_old :: "FileInfo option \<Rightarrow> bool" where
  "wf_old old \<longleftrightarrow> (\<forall>v. old = Some v \<longrightarrow> wf_tree v)"

lemma attr_at_plain: "wf_tree t \<Longrightarrow> attr_at t ms \<noteq> None \<Longrightarrow> list_all plain ms"
  by (auto simp: attr_at_def dest: wf_find)

lemma entry_plain:
  assumes "wf_tree t" "wf_old old" "entry ns ad t old ms k"
  shows "list_all plain ms"
proof -
  have "attr_at t ms \<noteq> None \<or> old_at old ms \<noteq> None"
    using assms(3) by (auto simp: entry_def direct_def below_def split: option.splits)
  then show ?thesis
  proof
    assume "old_at old ms \<noteq> None"
    then obtain v where v: "old = Some v" "attr_at v ms \<noteq> None" unfolding old_at_def by (metis option.case option.exhaust)
    from v(1) assms(2) have "wf_tree v" by (simp add: wf_old_def)
    from attr_at_plain [OF this v(2)] show ?thesis .
  qed (rule attr_at_plain [OF assms(1)])
qed

lemma infoPath_inj: "list_all plain ns \<Longrightarrow> list_all plain ms \<Longrightarrow> infoPath ns = infoPath ms \<longleftrightarrow> ns = ms"
  using rooted_inj [of ns ms] by (auto simp: infoPath_rooted)

lemma wf_visible: "wf_old old \<Longrightarrow> wf_old (mget (visible ns t old) n)" "wf_old old \<Longrightarrow> kids_ok (visible ns t old)"
proof -
  assume "wf_old old"
  then have "kids_ok (kids v)" if "old = Some v" for v using that by (simp add: wf_old_def wf_tree_kids_ok [of v, symmetric])
  moreover have "kids_ok []" by (simp add: kids_ok_def)
  ultimately show "kids_ok (visible ns t old)" by (simp add: visible_def split: option.splits)
  then show "wf_old (mget (visible ns t old) n)" by (fastforce simp: kids_ok_def wf_old_def dest: map_of_SomeD)
qed

lemma distinct_concat_map:
  assumes "distinct xs" "\<And>x. x \<in> set xs \<Longrightarrow> distinct (f x)"
    and "\<And>x y. x \<in> set xs \<Longrightarrow> y \<in> set xs \<Longrightarrow> x \<noteq> y \<Longrightarrow> set (f x) \<inter> set (f y) = {}"
  shows "distinct (concat (map f xs))"
  using assms
proof (induction xs)
  case (Cons x xs)
  have "distinct (concat (map f xs))" using Cons by auto
  moreover have "set (f x) \<inter> set (concat (map f xs)) = {}" using Cons.prems(1) Cons.prems(3) [of x] by auto
  ultimately show ?case using Cons.prems(2) [of x] by simp
qed simp

lemma paths_child:
  assumes "wf_tree t" "parents_dirs ns t" "wf_old old" "mget (kids t) n = Some u"
    and "c \<in> set (childChanges ns (visible ns t old) (n, u))"
  obtains ms where "chPath c = infoPath (ns @ n # ms)" "list_all plain ms" "plain n"
proof -
  have dir: "isDir ns t" "parents_dirs (ns @ [n]) u" "wf_tree u" "plain n"
    using parents_dirs_kid [OF assms(2,4)] wf_kidD [OF assms(1,4)] by auto
  from set_childChanges [OF dir(1) assms(4) set_treeChanges [OF dir(3,2)], of old False] assms(5)
  obtain ms k where "c = Change (infoPath (ns @ n # ms)) k" "entry ns False t old (n # ms) k" by auto
  then show thesis using that entry_plain [OF assms(1,3)] dir(4) by fastforce
qed

lemma paths_gone:
  assumes "wf_old old" "c \<in> set (goneChanges ns (kids t) (visible ns t old))"
  obtains n where "chPath c = infoPath (ns @ [n])" "plain n" "mget (kids t) n = None"
proof -
  obtain n v where "(n, v) \<in> set (visible ns t old)" "n \<notin> fst ` set (kids t)" "c = Change (infoPath (ns @ [n])) ChangeDelete"
    using assms(2) by (auto simp: goneChanges_def)
  moreover have "plain n" using wf_visible(2) [OF assms(1), of ns t] calculation(1) by (auto simp: kids_ok_def)
  ultimately show thesis using that by (simp add: map_of_eq_None_iff)
qed

lemma distinct_gone:
  assumes "wf_old old" "list_all plain ns"
  shows "distinct (map chPath (goneChanges ns us (visible ns t old)))"
proof -
  have ok: "kids_ok (visible ns t old)" by (rule wf_visible(2) [OF assms(1)])
  have "inj_on (\<lambda>x. infoPath (ns @ [fst x])) (set (visible ns t old))"
  proof (rule inj_onI)
    fix x y assume x: "x \<in> set (visible ns t old)" and y: "y \<in> set (visible ns t old)"
      and eq: "infoPath (ns @ [fst x]) = infoPath (ns @ [fst y])"
    have "fst x = fst y" using x y eq ok assms(2) infoPath_inj [of "ns @ [fst x]" "ns @ [fst y]"] by (auto simp: kids_ok_def)
    then show "x = y" using x y ok by (metis kids_ok_def wf_map_mem option.inject prod.collapse)
  qed
  moreover have "distinct (visible ns t old)" using ok by (auto simp: kids_ok_def wf_map_def distinct_map)
  ultimately show ?thesis
    by (auto simp: goneChanges_def distinct_map comp_def intro: inj_on_subset)
qed

lemma distinct_child:
  assumes "plain n" "list_all plain ns" "wf_tree u" "wf_old old" "parents_dirs (ns @ [n]) u"
    and IH: "\<And>ad v. wf_old v \<Longrightarrow> distinct (map chPath (treeChanges (ns @ [n]) ad u v))"
  shows "distinct (map chPath (childChanges ns (visible ns t old) (n, u)))"
proof (cases "mget (visible ns t old) n")
  case None
  then show ?thesis using IH [of None] by (simp add: childChanges_new wf_old_def)
next
  case (Some v)
  have wf: "wf_old (Some v)" using wf_visible(1) [OF assms(4)] Some by metis
  have "infoPath (ns @ [n]) \<notin> chPath ` set (treeChanges (ns @ [n]) True u (Some v))"
  proof
    assume "infoPath (ns @ [n]) \<in> chPath ` set (treeChanges (ns @ [n]) True u (Some v))"
    then obtain ms k where e: "infoPath (ns @ [n]) = infoPath ((ns @ [n]) @ ms)" "entry (ns @ [n]) True u (Some v) ms k"
      unfolding set_treeChanges [OF assms(3,5)] listed_def by auto
    from entry_plain [OF assms(3) wf e(2)] e(1) have "ms = []"
      using infoPath_inj [of "ns @ [n]" "(ns @ [n]) @ ms"] assms(1,2) by simp
    with e(2) show False by (simp add: entry_def direct_def)
  qed
  then show ?thesis using IH [OF wf] by (simp add: childChanges_both [OF Some])
qed

lemma distinct_treeChanges:
  "wf_tree t \<Longrightarrow> parents_dirs ns t \<Longrightarrow> list_all plain ns \<Longrightarrow> wf_old old \<Longrightarrow> distinct (map chPath (treeChanges ns ad t old))"
proof (induction "size t" arbitrary: ns ad t old rule: less_induct)
  case less
  let ?f = "\<lambda>x. map chPath (childChanges ns (visible ns t old) x)"
  let ?gone = "goneChanges ns (kids t) (visible ns t old)"
  let ?rest = "concat (map (childChanges ns (visible ns t old)) (kids t)) @ ?gone"
  have kid: "mget (kids t) (fst x) = Some (snd x)" if "x \<in> set (kids t)" for x
    using that wf_map_mem [OF wf_tree_map [OF less.prems(1)], of "fst x" "snd x"] by simp
  have inj: "infoPath (ns @ n # ms) = infoPath (ns @ n' # ms') \<longleftrightarrow> n = n' \<and> ms = ms'"
    if "plain n" "plain n'" "list_all plain ms" "list_all plain ms'" for n n' ms ms'
    using infoPath_inj [of "ns @ n # ms" "ns @ n' # ms'"] that less.prems(3) by simp
  have "distinct (concat (map ?f (kids t)))"
  proof (rule distinct_concat_map)
    show "distinct (kids t)" using wf_tree_map [OF less.prems(1)] by (auto simp: wf_map_def distinct_map)
  next
    fix x assume x: "x \<in> set (kids t)"
    have "plain (fst x)" "wf_tree (snd x)" using wf_kidD [OF less.prems(1) kid [OF x]] by auto
    then show "distinct (?f x)"
      using distinct_child [of "fst x" ns "snd x" old t] less.hyps kid_size [OF kid [OF x]] less.prems
        parents_dirs_kid(1) [OF less.prems(2) kid [OF x]] by simp
  next
    fix x y assume xy: "x \<in> set (kids t)" "y \<in> set (kids t)" "x \<noteq> y"
    have "fst x \<noteq> fst y"
    proof
      assume "fst x = fst y"
      with kid [OF xy(1)] kid [OF xy(2)] have "snd x = snd y" by simp
      with \<open>fst x = fst y\<close> xy(3) show False by (simp add: prod_eq_iff)
    qed
    have "chPath c \<noteq> chPath d" if cd: "c \<in> set (childChanges ns (visible ns t old) x)" "d \<in> set (childChanges ns (visible ns t old) y)" for c d
    proof -
      obtain ms where c: "chPath c = infoPath (ns @ fst x # ms)" "list_all plain ms" "plain (fst x)"
        using paths_child [OF less.prems(1,2,4) kid [OF xy(1)], of c] cd(1) unfolding prod.collapse by blast
      obtain ms' where d: "chPath d = infoPath (ns @ fst y # ms')" "list_all plain ms'" "plain (fst y)"
        using paths_child [OF less.prems(1,2,4) kid [OF xy(2)], of d] cd(2) unfolding prod.collapse by blast
      show ?thesis using inj [OF c(3) d(3) c(2) d(2)] c(1) d(1) \<open>fst x \<noteq> fst y\<close> by simp
    qed
    then show "set (?f x) \<inter> set (?f y) = {}" by auto
  qed
  moreover have "chPath c \<noteq> chPath d" if c: "c \<in> set (childChanges ns (visible ns t old) x)" "x \<in> set (kids t)" and d: "d \<in> set ?gone" for c d x
  proof -
    obtain ms where c': "chPath c = infoPath (ns @ fst x # ms)" "list_all plain ms" "plain (fst x)"
      using paths_child [OF less.prems(1,2,4) kid [OF c(2)], of c] c(1) unfolding prod.collapse by blast
    obtain n where d': "chPath d = infoPath (ns @ [n])" "plain n" "mget (kids t) n = None"
      using paths_gone [OF less.prems(4) d] by auto
    have "fst x \<noteq> n" using d'(3) kid [OF c(2)] by auto
    then show ?thesis using inj [OF c'(3) d'(2) c'(2), of "[]"] c'(1) d'(1) by simp
  qed
  ultimately have rest: "distinct (map chPath ?rest)"
    using distinct_gone [OF less.prems(4,3)] by (fastforce simp: map_concat comp_def)
  have body: "set ?rest = {Change (infoPath (ns @ ms)) k |ms k. ms \<noteq> [] \<and> entry ns False t old ms k}"
    using wf_kidD [OF less.prems(1)] parents_dirs_kid(1) [OF less.prems(2)] set_treeChanges
    by (intro set_body less.prems) blast
  have top: "infoPath ns \<notin> chPath ` set ?rest"
  proof
    assume "infoPath ns \<in> chPath ` set ?rest"
    then obtain ms k where ms: "infoPath ns = infoPath (ns @ ms)" "ms \<noteq> []" "entry ns False t old ms k"
      unfolding body by auto
    from entry_plain [OF less.prems(1,4) ms(3)] ms(1,2) show False
      using infoPath_inj [of ns "ns @ ms"] less.prems(3) by simp
  qed
  have "treeChanges ns ad t old = ?rest \<or> (\<exists>k. treeChanges ns ad t old = Change (infoPath ns) k # ?rest)"
    by (cases old) (simp_all add: treeChanges_unfold [of ns ad t] withDir_def)
  then show ?case
  proof
    assume "\<exists>k. treeChanges ns ad t old = Change (infoPath ns) k # ?rest"
    then obtain k where k: "treeChanges ns ad t old = Change (infoPath ns) k # ?rest" by blast
    show ?thesis unfolding k list.map distinct.simps(2) set_map using rest top by simp
  next
    assume k: "treeChanges ns ad t old = ?rest"
    show ?thesis unfolding k by (rule rest)
  qed
qed

text \<open>
  C6: The list of changes between two directory trees is exact.  No path is listed twice.  A path is
  listed as added if and only if only the new tree has it, as deleted if and only if only the old tree
  has it and its parent is still a directory, and as modified if and only if both trees have it and
  either its attributes differ or it is a directory with such a change below it, the root excepted.
\<close>

theorem changes_exact:
  assumes "wf_tree new" "wf_tree old" "parents_dirs [] new" "list_all plain ms"
  shows "distinct (map chPath (Changes new (Some old)))
    \<and> (Change (rooted ms) k \<in> set (Changes new (Some old)) \<longleftrightarrow>
        (case (LookUp new (rooted ms), LookUp old (rooted ms)) of
           (None, None) \<Rightarrow> False
         | (Some _, None) \<Rightarrow> k = ChangeAdd
         | (None, Some _) \<Rightarrow> k = ChangeDelete \<and> dirAt [] new (butlast ms)
         | (Some u, Some v) \<Rightarrow> k = ChangeModify \<and> ms \<noteq> []
             \<and> (childDiffers v u
                \<or> isDir ms u \<and> (\<exists>ks. ks \<noteq> [] \<and> direct [] new (Some old) (ms @ ks) \<noteq> None))))"
proof -
  have old: "wf_old (Some old)" using assms(2) by (simp add: wf_old_def)
  have ch: "Changes new (Some old) = treeChanges [] False new (Some old)"
    using addChanges_tree(1) [OF assms(1), of "[]"] by (simp add: Changes_def)
  have "Change (rooted ms) k \<in> set (Changes new (Some old)) \<longleftrightarrow> entry [] False new (Some old) ms k"
  proof
    assume "Change (rooted ms) k \<in> set (Changes new (Some old))"
    then obtain ms' where *: "rooted ms = infoPath ms'" "entry [] False new (Some old) ms' k"
      unfolding ch set_treeChanges [OF assms(1,3)] listed_def by auto
    from entry_plain [OF assms(1) old *(2)] *(1) assms(4) have "ms = ms'" using rooted_inj by (simp add: infoPath_rooted)
    with *(2) show "entry [] False new (Some old) ms k" by simp
  next
    assume "entry [] False new (Some old) ms k"
    then show "Change (rooted ms) k \<in> set (Changes new (Some old))"
      unfolding ch set_treeChanges [OF assms(1,3)] by (rule listedI) (simp add: infoPath_rooted [OF assms(4)])
  qed
  moreover have "distinct (map chPath (Changes new (Some old)))"
    unfolding ch using distinct_treeChanges [OF assms(1,3) _ old] by simp
  ultimately show ?thesis
    by (auto simp: entry_def direct_def below_def dirAt_def isDir_def dirBit_def attr_at_def LookUp_rooted [OF assms(4)]
        childDiffers_attr split: option.splits)
qed


definition sample_file :: "32 word \<Rightarrow> int \<Rightarrow> finfo" where
  "sample_file m sec =
     \<lparr>fi_stat = \<lparr>st_mode = m, st_uid = 0, st_gid = 0, st_rdev = 0, st_size = 1, st_mtim = \<lparr>ts_Sec = sec, ts_Nsec = 0\<rparr>\<rparr>,
      fi_capability = []\<rparr>"

definition sample_old :: FileInfo where
  "sample_old = Node (sample_file 0 0)
     [(''etc'', Node (sample_file 0x41ED 1) [(''passwd'', Node (sample_file 0x81A4 1) []), (''motd'', Node (sample_file 0x81A4 1) [])]),
      (''tmp'', Node (sample_file 0x41ED 1) [])]"

definition sample_new :: FileInfo where
  "sample_new = Node (sample_file 0 0)
     [(''tmp'', Node (sample_file 0x41ED 1) []), (''etc'', Node (sample_file 0x41ED 1) [(''passwd'', Node (sample_file 0x81A4 2) [])]),
      (''new'', Node (sample_file 0x81A4 1) [])]"

theorem changes_exact_witness:
  "distinct (map chPath (Changes sample_new (Some sample_old)))
    \<and> Change ''/etc/motd'' ChangeDelete \<in> set (Changes sample_new (Some sample_old))"
proof -
  have "wf_tree sample_new" "wf_tree sample_old" "parents_dirs [] sample_new" "list_all plain [''etc'', ''motd'']"
    by code_simp+
  from changes_exact [OF this, of ChangeDelete]
  have "distinct (map chPath (Changes sample_new (Some sample_old)))"
    "Change (rooted [''etc'', ''motd'']) ChangeDelete \<in> set (Changes sample_new (Some sample_old)) \<longleftrightarrow>
      (case (LookUp sample_new (rooted [''etc'', ''motd'']), LookUp sample_old (rooted [''etc'', ''motd''])) of
         (None, Some _) \<Rightarrow> dirAt [] sample_new [''etc''] | _ \<Rightarrow> False)"
    by (auto split: option.splits)
  moreover have "rooted [''etc'', ''motd''] = ''/etc/motd''" by code_simp
  moreover have "LookUp sample_new ''/etc/motd'' = None" "LookUp sample_old ''/etc/motd'' \<noteq> None" by code_simp+
  moreover have "find_tree sample_new [''etc''] \<noteq> None \<and> isDir [''etc''] (the (find_tree sample_new [''etc'']))" by code_simp
  ultimately show ?thesis by (auto simp: dirAt_def isDir_def dirBit_def attr_at_def)
qed

end
