(* ===== verification/Changes_Walk.thy ===== *)
theory Changes_Walk
  imports Layer_Changes "HOL-Library.List_Lexorder" "HOL-Library.Char_ord" "HOL-Library.Multiset"
begin

section \<open>Reading two directory trees\<close>

text \<open>
  The two versions of \<^verbatim>\<open>collectFileInfoForChanges\<close>: \<^verbatim>\<open>changes_other.go\<close> reads both trees completely,
  \<^verbatim>\<open>changes_linux.go\<close> walks them in parallel and leaves out what has the same inode number in both.  The
  claim is that the shortcut does not change the list of changes.  The host's tree below a directory is an
  argument; a call of the operating system fails when \<open>io\<close> says so.  A \<^verbatim>\<open>os.FileInfo\<close> is the attribute
  of a node, and \<open>i1\<close>, \<open>i2\<close> carry the subtree that later calls read below it.  The parsing of raw
  directory entries (\<^verbatim>\<open>parseDirent\<close>) is left to the operating system: an entry is a name and the number
  of its inode.
\<close>

record hostfile =
  hf_stat :: StatT
  hf_cap :: string
  hf_dev :: "64 word"
  hf_ino :: "64 word"

type_synonym host = "hostfile dtree"

datatype host_call = CLstat string | CReaddir string

type_synonym host_io = "host_call \<Rightarrow> string option"

datatype walk_error = HostError string | NotExist string | NoParentFor string

text \<open>\<^verbatim>\<open>os.FileInfo.IsDir\<close> compares the whole type field.\<close>

definition modeIsDir :: "32 word \<Rightarrow> bool" where
  "modeIsDir m \<longleftrightarrow> and m 0xF000 = S_IFDIR"

definition hostIsDir :: "host \<Rightarrow> bool" where
  "hostIsDir t \<longleftrightarrow> modeIsDir (st_mode (hf_stat (attr t)))"

definition newRootFileInfo :: FileInfo where
  "newRootFileInfo =
     Node \<lparr>fi_stat = \<lparr>st_mode = 0, st_uid = 0, st_gid = 0, st_rdev = 0, st_size = 0, st_mtim = \<lparr>ts_Sec = 0, ts_Nsec = 0\<rparr>\<rparr>,
           fi_capability = []\<rparr> []"

definition summary :: "hostfile \<Rightarrow> finfo" where
  "summary h = \<lparr>fi_stat = hf_stat h, fi_capability = hf_cap h\<rparr>"

text \<open>\<open>parent.children[info.name] = info\<close>, where \<open>parent\<close> was found at the path \<open>dir\<close>.\<close>

definition addInfo :: "string \<Rightarrow> string \<Rightarrow> finfo \<Rightarrow> FileInfo \<Rightarrow> FileInfo" where
  "addInfo dir name info root = put_tree (filter (\<lambda>e. e \<noteq> []) (split CHR ''/'' dir) @ [name]) (Node info []) root"

subsection \<open>\<^verbatim>\<open>changes_other.go\<close>\<close>

definition collectVisit :: "string \<Rightarrow> hostfile \<Rightarrow> FileInfo \<Rightarrow> (walk_error, FileInfo) result" where
  "collectVisit relPath h root =
     (if relPath = ''/'' then Inr root
      else case LookUp root (DirPath relPath) of
          None \<Rightarrow> Inl (NoParentFor relPath)
        | Some _ \<Rightarrow> Inr (addInfo (DirPath relPath) (BasePath relPath) (summary h) root))"

text \<open>\<^verbatim>\<open>filepath.Walk\<close> with the function of \<^verbatim>\<open>collectFileInfo\<close>, which returns every error it is given.  The
  paths are those relative to \<open>sourceDir\<close>, \<open>full\<close> turns one into the path on the host.\<close>

definition sortNames :: "(string \<times> 'a) list \<Rightarrow> (string \<times> 'a) list" where
  "sortNames us = sort_key fst us"

lemma set_sortNames [simp]: "set (sortNames us) = set us"
  by (simp add: sortNames_def)

lemma size_sortNames: "size_list f (sortNames us) = size_list f us"
proof -
  have "mset (map f (sortNames us)) = mset (map f us)" by (simp add: sortNames_def)
  then have "sum_list (map f (sortNames us)) = sum_list (map f us)" by (metis sum_mset_sum_list)
  then show ?thesis by (simp add: size_list_conv_sum_list sortNames_def)
qed

function collectTree :: "host_io \<Rightarrow> string \<Rightarrow> string \<Rightarrow> host \<Rightarrow> FileInfo \<Rightarrow> (walk_error, FileInfo) result"
  and collectNames :: "host_io \<Rightarrow> string \<Rightarrow> string \<Rightarrow> (string \<times> host) list \<Rightarrow> FileInfo \<Rightarrow> (walk_error, FileInfo) result"
where
  "collectTree io sourceDir path (Node h us) root =
     (case collectVisit path h root of
        Inl e \<Rightarrow> Inl e
      | Inr root1 \<Rightarrow>
          if \<not> hostIsDir (Node h us) then Inr root1
          else case io (CReaddir (JoinPath [sourceDir, path])) of
              Some e \<Rightarrow> Inl (HostError e)
            | None \<Rightarrow> collectNames io sourceDir path (sortNames us) root1)"
| "collectNames io sourceDir path [] root = Inr root"
| "collectNames io sourceDir path ((name, u) # us) root =
     (let fname = JoinPath [path, name] in
      case io (CLstat (JoinPath [sourceDir, fname])) of
        Some e \<Rightarrow> Inl (HostError e)
      | None \<Rightarrow>
          (case collectTree io sourceDir fname u root of
             Inl e \<Rightarrow> Inl e
           | Inr root1 \<Rightarrow> collectNames io sourceDir path us root1))"
  by pat_completeness auto
termination
  by (relation "measure (\<lambda>x. case x of Inl (io, s, p, t, r) \<Rightarrow> size t | Inr (io, s, p, us, r) \<Rightarrow> size_list (size_prod (\<lambda>_. 0) size) us)")
    (auto simp: size_sortNames)

definition collectFileInfo :: "host_io \<Rightarrow> string \<Rightarrow> host option \<Rightarrow> (walk_error, FileInfo) result" where
  "collectFileInfo io sourceDir tree =
     (case io (CLstat sourceDir) of
        Some e \<Rightarrow> Inl (HostError e)
      | None \<Rightarrow> (case tree of None \<Rightarrow> Inl (NotExist sourceDir) | Some t \<Rightarrow> collectTree io sourceDir ''/'' t newRootFileInfo))"

text \<open>The two goroutines do not share anything; which of two errors is returned is left to the scheduler.\<close>

definition collectBoth :: "host_io \<Rightarrow> string \<Rightarrow> host option \<Rightarrow> string \<Rightarrow> host option \<Rightarrow> (walk_error, FileInfo \<times> FileInfo) result" where
  "collectBoth io oldDir old newDir new =
     (case collectFileInfo io oldDir old of
        Inl e \<Rightarrow> Inl e
      | Inr oldRoot \<Rightarrow>
          (case collectFileInfo io newDir new of Inl e \<Rightarrow> Inl e | Inr newRoot \<Rightarrow> Inr (oldRoot, newRoot)))"

subsection \<open>\<^verbatim>\<open>changes_linux.go\<close>\<close>

definition walkchunk :: "string \<Rightarrow> hostfile option \<Rightarrow> FileInfo \<Rightarrow> (walk_error, FileInfo) result" where
  "walkchunk path fi root =
     (case fi of
        None \<Rightarrow> Inr root
      | Some h \<Rightarrow>
          (case LookUp root (DirPath path) of
             None \<Rightarrow> Inl (NoParentFor path)
           | Some _ \<Rightarrow> Inr (addInfo (DirPath path) (BasePath path) (summary h) root)))"

definition readdirnames :: "host_io \<Rightarrow> string \<Rightarrow> (string \<times> host) list \<Rightarrow> (walk_error, (string \<times> 64 word) list) result" where
  "readdirnames io dirname us =
     (case io (CReaddir dirname) of
        Some e \<Rightarrow> Inl (HostError e)
      | None \<Rightarrow> Inr (sortNames (map (\<lambda>(n, u). (n, hf_ino (attr u))) us)))"

text \<open>The merge of the two sorted lists.\<close>

fun mergeNames :: "bool \<Rightarrow> (string \<times> 64 word) list \<Rightarrow> (string \<times> 64 word) list \<Rightarrow> string list" where
  "mergeNames sameDevice ((n1, ino1) # xs) ((n2, ino2) # ys) =
     (if n1 < n2 then n1 # mergeNames sameDevice xs ((n2, ino2) # ys)
      else if n1 = n2 then
        (if ino1 \<noteq> ino2 \<or> \<not> sameDevice then [n1] else []) @ mergeNames sameDevice xs ys
      else n2 # mergeNames sameDevice ((n1, ino1) # xs) ys)"
| "mergeNames sameDevice xs [] = map fst xs"
| "mergeNames sameDevice [] ys = map fst ys"

definition childInfo :: "host_io \<Rightarrow> bool \<Rightarrow> string \<Rightarrow> (string \<times> host) list \<Rightarrow> string \<Rightarrow> (walk_error, host option) result" where
  "childInfo io isDir' path us name =
     (if \<not> isDir' then Inr None
      else case io (CLstat path) of Some e \<Rightarrow> Inl (HostError e) | None \<Rightarrow> Inr (mget us name))"

definition hostKids :: "host option \<Rightarrow> (string \<times> host) list" where
  "hostKids i = (case i of None \<Rightarrow> [] | Some t \<Rightarrow> if hostIsDir t then kids t else [])"

definition isSomeDir :: "host option \<Rightarrow> bool" where
  "isSomeDir i \<longleftrightarrow> (case i of None \<Rightarrow> False | Some t \<Rightarrow> hostIsDir t)"

definition sameDevice :: "host option \<Rightarrow> host option \<Rightarrow> bool" where
  "sameDevice i1 i2 \<longleftrightarrow> (case (i1, i2) of (Some t1, Some t2) \<Rightarrow> hf_dev (attr t1) = hf_dev (attr t2) | _ \<Rightarrow> False)"

definition readIf :: "host_io \<Rightarrow> string \<Rightarrow> host option \<Rightarrow> (walk_error, (string \<times> 64 word) list) result" where
  "readIf io dirname i = (if isSomeDir i then readdirnames io dirname (hostKids i) else Inr [])"

definition registerBoth :: "string \<Rightarrow> host option \<Rightarrow> host option \<Rightarrow> FileInfo \<times> FileInfo \<Rightarrow> (walk_error, FileInfo \<times> FileInfo) result" where
  "registerBoth path i1 i2 roots =
     (if path = ''/'' then Inr roots
      else case walkchunk path (map_option attr i1) (fst roots) of
          Inl e \<Rightarrow> Inl e
        | Inr root1 \<Rightarrow>
            (case walkchunk path (map_option attr i2) (snd roots) of Inl e \<Rightarrow> Inl e | Inr root2 \<Rightarrow> Inr (root1, root2)))"

definition hostSize :: "host option \<Rightarrow> nat" where
  "hostSize i = (case i of None \<Rightarrow> 0 | Some t \<Rightarrow> 2 + size t)"

definition kidsSize :: "(string \<times> host) list \<Rightarrow> nat" where
  "kidsSize us = size_list (size_prod (\<lambda>_. 0) size) us"

lemma hostSize_kid: "hostSize (mget us n) \<le> kidsSize us"
  by (induction us) (auto simp: hostSize_def kidsSize_def)

lemma kidsSize_host: "isSomeDir i \<Longrightarrow> kidsSize (hostKids i) + 2 < hostSize i" "kidsSize (hostKids i) \<le> hostSize i"
  by (cases i; cases "the i"; simp add: isSomeDir_def hostKids_def kidsSize_def hostSize_def)+

lemma childInfo_size: "childInfo io b p us n = Inr c \<Longrightarrow> hostSize c \<le> kidsSize us"
  using hostSize_kid [of us n] by (auto simp: childInfo_def hostSize_def split: if_splits option.splits)

function walk :: "host_io \<Rightarrow> string \<Rightarrow> string \<Rightarrow> string \<Rightarrow> host option \<Rightarrow> host option \<Rightarrow> FileInfo \<times> FileInfo
    \<Rightarrow> (walk_error, FileInfo \<times> FileInfo) result"
  and walkNames :: "host_io \<Rightarrow> string \<Rightarrow> string \<Rightarrow> string \<Rightarrow> bool \<times> (string \<times> host) list \<Rightarrow> bool \<times> (string \<times> host) list
    \<Rightarrow> string list \<Rightarrow> FileInfo \<times> FileInfo \<Rightarrow> (walk_error, FileInfo \<times> FileInfo) result"
where
  "walk io dir1 dir2 path i1 i2 roots =
     (case registerBoth path i1 i2 roots of
        Inl e \<Rightarrow> Inl e
      | Inr roots1 \<Rightarrow>
          if \<not> isSomeDir i1 \<and> \<not> isSomeDir i2 then Inr roots1
          else case readIf io (JoinPath [dir1, path]) i1 of
              Inl e \<Rightarrow> Inl e
            | Inr names1 \<Rightarrow>
                (case readIf io (JoinPath [dir2, path]) i2 of
                   Inl e \<Rightarrow> Inl e
                 | Inr names2 \<Rightarrow>
                     walkNames io dir1 dir2 path (isSomeDir i1, hostKids i1) (isSomeDir i2, hostKids i2)
                       (mergeNames (sameDevice i1 i2) names1 names2) roots1))"
| "walkNames io dir1 dir2 path d1 d2 [] roots = Inr roots"
| "walkNames io dir1 dir2 path d1 d2 (name # names) roots =
     (let fname = JoinPath [path, name] in
      case childInfo io (fst d1) (JoinPath [dir1, fname]) (snd d1) name of
        Inl e \<Rightarrow> Inl e
      | Inr c1 \<Rightarrow>
          (case childInfo io (fst d2) (JoinPath [dir2, fname]) (snd d2) name of
             Inl e \<Rightarrow> Inl e
           | Inr c2 \<Rightarrow>
               (case walk io dir1 dir2 fname c1 c2 roots of
                  Inl e \<Rightarrow> Inl e
                | Inr roots1 \<Rightarrow> walkNames io dir1 dir2 path d1 d2 names roots1)))"
  by pat_completeness auto

termination
proof (relation "measures [\<lambda>x. case x of Inl (io, d1, d2, p, i1, i2, r) \<Rightarrow> hostSize i1 + hostSize i2
      | Inr (io, d1, d2, p, k1, k2, ns, r) \<Rightarrow> 1 + kidsSize (snd k1) + kidsSize (snd k2),
    \<lambda>x. case x of Inl _ \<Rightarrow> 0 | Inr (io, d1, d2, p, k1, k2, ns, r) \<Rightarrow> length ns]", goal_cases)
  case (2 io d1 d2 p i1 i2 r)
  then show ?case using kidsSize_host [of i1] kidsSize_host [of i2] by fastforce
next
  case (3 io d1 d2 p k1 k2 n ns r)
  then show ?case by (auto dest!: childInfo_size)
qed auto

definition collectFileInfoForChanges ::
  "host_io \<Rightarrow> string \<Rightarrow> host option \<Rightarrow> string \<Rightarrow> host option \<Rightarrow> (walk_error, FileInfo \<times> FileInfo) result" where
  "collectFileInfoForChanges io dir1 tree1 dir2 tree2 =
     (case io (CLstat dir1) of
        Some e \<Rightarrow> Inl (HostError e)
      | None \<Rightarrow>
          if tree1 = None then Inl (NotExist dir1)
          else case io (CLstat dir2) of
              Some e \<Rightarrow> Inl (HostError e)
            | None \<Rightarrow>
                if tree2 = None then Inl (NotExist dir2)
                else walk io dir1 dir2 ''/'' tree1 tree2 (newRootFileInfo, newRootFileInfo))"

text \<open>\<^verbatim>\<open>ChangesDirs\<close>, with the trees of the host by their paths and the new temporary directory as arguments.\<close>

definition ChangesDirs :: "host_io \<Rightarrow> string + string \<times> hostfile \<Rightarrow> (string \<Rightarrow> host option) \<Rightarrow> string \<Rightarrow> string \<Rightarrow> (walk_error, Change list) result" where
  "ChangesDirs io tempDir trees newDir oldDir =
     (case (if oldDir = [] then (case tempDir of Inl e \<Rightarrow> Inl (HostError e) | Inr (d, h) \<Rightarrow> Inr (d, Some (Node h [])))
            else Inr (oldDir, trees oldDir)) of
        Inl e \<Rightarrow> Inl e
      | Inr (oldDir1, oldTree) \<Rightarrow>
          (case collectFileInfoForChanges io oldDir1 oldTree newDir (trees newDir) of
             Inl e \<Rightarrow> Inl e
           | Inr (oldRoot, newRoot) \<Rightarrow> Inr (Changes newRoot (Some oldRoot))))"

subsection \<open>Trees of a host\<close>

fun host_dirs :: "host \<Rightarrow> bool" where
  "host_dirs (Node h us) \<longleftrightarrow> (us = [] \<or> hostIsDir (Node h us)) \<and> (\<forall>x \<in> set us. host_dirs (snd x))"

definition wf_host :: "host option \<Rightarrow> bool" where
  "wf_host i \<longleftrightarrow> (case i of None \<Rightarrow> True | Some t \<Rightarrow> wf_tree t \<and> host_dirs t)"

definition host_at :: "host option \<Rightarrow> string list \<Rightarrow> finfo option" where
  "host_at i ms = (case i of None \<Rightarrow> None | Some t \<Rightarrow> map_option summary (attr_at t ms))"

lemma host_at_simps [simp]:
  "host_at None ms = None" "host_at (Some t) [] = Some (summary (attr t))"
  by (simp_all add: host_at_def)

lemma hostKids_kids: "host_dirs t \<Longrightarrow> hostKids (Some t) = kids t"
  by (cases t) (auto simp: hostKids_def)

lemma host_at_Cons: "wf_host i \<Longrightarrow> host_at i (n # ms) = host_at (mget (hostKids i) n) ms"
proof (cases i)
  case (Some t)
  assume "wf_host i"
  then have "hostKids i = kids t" using Some hostKids_kids [of t] by (simp add: wf_host_def)
  then show ?thesis using Some by (simp add: host_at_def split: option.splits)
qed (simp add: hostKids_def)

lemma wf_host_kid:
  assumes "wf_host i"
  shows "wf_host (mget (hostKids i) n)" "mget (hostKids i) n \<noteq> None \<Longrightarrow> plain n" "wf_map (hostKids i)"
proof -
  have "wf_host (mget (hostKids i) n) \<and> (mget (hostKids i) n \<noteq> None \<longrightarrow> plain n) \<and> wf_map (hostKids i)"
  proof (cases i)
    case (Some t)
    obtain h us where t: "t = Node h us" by (cases t)
    have ok: "wf_tree t" "host_dirs t" using assms Some by (simp_all add: wf_host_def)
    have "host_dirs u" if "mget us n = Some u" for u using ok(2) map_of_SomeD [OF that] by (auto simp: t)
    then show ?thesis
      using Some wf_kidD [OF ok(1)] wf_tree_map [OF ok(1)] hostKids_kids [OF ok(2)]
      by (auto simp: wf_host_def t split: option.splits)
  qed (simp add: hostKids_def wf_host_def)
  then show "wf_host (mget (hostKids i) n)" "mget (hostKids i) n \<noteq> None \<Longrightarrow> plain n" "wf_map (hostKids i)" by auto
qed

lemma kids_isDir: "mget (hostKids i) n \<noteq> None \<Longrightarrow> isSomeDir i"
  by (auto simp: hostKids_def isSomeDir_def split: option.splits if_splits)

subsection \<open>Filling a tree below a path\<close>

definition ready :: "string list \<Rightarrow> host option \<Rightarrow> FileInfo \<Rightarrow> bool" where
  "ready ns i r \<longleftrightarrow> wf_tree r \<and> (\<forall>ks. ns @ ks \<noteq> [] \<longrightarrow> attr_at r (ns @ ks) = None)
     \<and> (ns = [] \<or> i = None \<or> attr_at r (butlast ns) \<noteq> None)"

definition filled :: "string list \<Rightarrow> host option \<Rightarrow> (string list \<Rightarrow> bool) \<Rightarrow> FileInfo \<Rightarrow> FileInfo \<Rightarrow> bool" where
  "filled ns i keep r r' \<longleftrightarrow> wf_tree r'
     \<and> (\<forall>ks. ns @ ks \<noteq> [] \<longrightarrow> attr_at r' (ns @ ks) = (if keep ks then host_at i ks else None))
     \<and> (\<forall>ms. ms = [] \<or> \<not> prefix ns ms \<longrightarrow> attr_at r' ms = attr_at r ms)"

definition readyNames :: "string list \<Rightarrow> string list \<Rightarrow> (string \<times> host) list \<Rightarrow> FileInfo \<Rightarrow> bool" where
  "readyNames ns names us r \<longleftrightarrow> wf_tree r \<and> (\<forall>n ks. n \<in> set names \<longrightarrow> attr_at r (ns @ n # ks) = None)
     \<and> (us = [] \<or> attr_at r ns \<noteq> None)"

definition filledNames :: "string list \<Rightarrow> string list \<Rightarrow> (string \<times> host) list \<Rightarrow> (string \<Rightarrow> string list \<Rightarrow> bool) \<Rightarrow> FileInfo \<Rightarrow> FileInfo \<Rightarrow> bool" where
  "filledNames ns names us keep r r' \<longleftrightarrow> wf_tree r'
     \<and> (\<forall>n ks. n \<in> set names \<longrightarrow> attr_at r' (ns @ n # ks) = (if keep n ks then host_at (mget us n) ks else None))
     \<and> (\<forall>ms. (\<forall>n \<in> set names. \<not> prefix (ns @ [n]) ms) \<longrightarrow> attr_at r' ms = attr_at r ms)"

lemma readyD:
  assumes "ready ns i r"
  shows "wf_tree r" "ns @ ks \<noteq> [] \<Longrightarrow> attr_at r (ns @ ks) = None" "ns \<noteq> [] \<Longrightarrow> i \<noteq> None \<Longrightarrow> attr_at r (butlast ns) \<noteq> None"
proof -
  show "wf_tree r" using assms unfolding ready_def by (rule conjunct1)
  show "attr_at r (ns @ ks) = None" if "ns @ ks \<noteq> []"
    using assms [unfolded ready_def, THEN conjunct2, THEN conjunct1, THEN spec, THEN mp, OF that] .
  show "attr_at r (butlast ns) \<noteq> None" if "ns \<noteq> []" "i \<noteq> None"
    using assms [unfolded ready_def, THEN conjunct2, THEN conjunct2] that by simp
qed

lemma filledD:
  assumes "filled ns i keep r r'"
  shows "wf_tree r'" "ns @ ks \<noteq> [] \<Longrightarrow> attr_at r' (ns @ ks) = (if keep ks then host_at i ks else None)"
    "ms = [] \<or> \<not> prefix ns ms \<Longrightarrow> attr_at r' ms = attr_at r ms"
  using assms unfolding filled_def by blast+

lemma readyNamesD:
  assumes "readyNames ns names us r"
  shows "wf_tree r" "n \<in> set names \<Longrightarrow> attr_at r (ns @ n # ks) = None" "us \<noteq> [] \<Longrightarrow> attr_at r ns \<noteq> None"
  using assms unfolding readyNames_def by blast+

lemma filledNamesD:
  assumes "filledNames ns names us keep r r'"
  shows "wf_tree r'" "n \<in> set names \<Longrightarrow> attr_at r' (ns @ n # ks) = (if keep n ks then host_at (mget us n) ks else None)"
    "(\<And>n. n \<in> set names \<Longrightarrow> \<not> prefix (ns @ [n]) ms) \<Longrightarrow> attr_at r' ms = attr_at r ms"
  using assms unfolding filledNames_def by blast+

text \<open>The next name is ready, and after it the others still are.\<close>

lemma readyNames_next:
  assumes "readyNames ns (n # names) us r"
  shows "ready (ns @ [n]) (mget us n) r"
  unfolding ready_def
proof (intro conjI allI impI)
  show "ns @ [n] = [] \<or> mget us n = None \<or> attr_at r (butlast (ns @ [n])) \<noteq> None"
    using readyNamesD(3) [OF assms] by (cases us) auto
qed (use readyNamesD(1,2) [OF assms] in auto)

lemma readyNames_rest:
  assumes "readyNames ns (n # names) us r" "filled (ns @ [n]) i keep r r'" "n \<notin> set names"
  shows "readyNames ns names us r'"
  unfolding readyNames_def
proof (intro conjI allI impI)
  fix m ks assume "m \<in> set names"
  then have "\<not> prefix (ns @ [n]) (ns @ m # ks)" using assms(3) by auto
  with \<open>m \<in> set names\<close> show "attr_at r' (ns @ m # ks) = None"
    using filledD(3) [OF assms(2)] readyNamesD(2) [OF assms(1)] by simp
next
  have "\<not> prefix (ns @ [n]) ns" by (auto simp: prefix_def)
  then show "us = [] \<or> attr_at r' ns \<noteq> None" using filledD(3) [OF assms(2), of ns] readyNamesD(3) [OF assms(1)] by auto
qed (rule filledD(1) [OF assms(2)])

lemma filledNames_step:
  assumes "filled (ns @ [n]) (mget us n) (keep n) r r1" "filledNames ns names us keep r1 r2" "n \<notin> set names"
  shows "filledNames ns (n # names) us keep r r2"
  unfolding filledNames_def
proof (intro conjI allI impI)
  fix m ks assume "m \<in> set (n # names)"
  show "attr_at r2 (ns @ m # ks) = (if keep m ks then host_at (mget us m) ks else None)"
  proof (cases "m \<in> set names")
    case False
    then have "m = n" using \<open>m \<in> set (n # names)\<close> by simp
    have "attr_at r2 (ns @ n # ks) = attr_at r1 (ns @ n # ks)"
      using assms(3) by (intro filledNamesD(3) [OF assms(2)]) auto
    then show ?thesis using filledD(2) [OF assms(1), of ks] \<open>m = n\<close> by simp
  qed (rule filledNamesD(2) [OF assms(2)])
next
  fix ms assume *: "\<forall>m \<in> set (n # names). \<not> prefix (ns @ [m]) ms"
  then show "attr_at r2 ms = attr_at r ms"
    using filledNamesD(3) [OF assms(2), of ms] filledD(3) [OF assms(1), of ms] by simp
qed (rule filledNamesD(1) [OF assms(2)])

lemma filledNames_Nil: "wf_tree r \<Longrightarrow> filledNames ns [] us keep r r"
  by (simp add: filledNames_def)

subsection \<open>What the walk of Linux leaves out\<close>

definition pruned :: "host option \<Rightarrow> host option \<Rightarrow> string \<Rightarrow> bool" where
  "pruned i1 i2 n \<longleftrightarrow> sameDevice i1 i2
     \<and> (\<exists>u v. mget (hostKids i1) n = Some u \<and> mget (hostKids i2) n = Some v \<and> hf_ino (attr u) = hf_ino (attr v))"

fun kept :: "host option \<Rightarrow> host option \<Rightarrow> string list \<Rightarrow> bool" where
  "kept i1 i2 [] \<longleftrightarrow> True"
| "kept i1 i2 (n # ms) \<longleftrightarrow> \<not> pruned i1 i2 n \<and> kept (mget (hostKids i1) n) (mget (hostKids i2) n) ms"

definition sortedNames :: "(string \<times> 'a) list \<Rightarrow> bool" where
  "sortedNames xs \<longleftrightarrow> sorted (map fst xs) \<and> distinct (map fst xs)"

lemma sortedNames_Cons: "sortedNames ((n, i) # xs) \<longleftrightarrow> (\<forall>m \<in> fst ` set xs. n < m) \<and> sortedNames xs"
  by (auto simp: sortedNames_def order_less_le)

lemma set_mergeNames:
  assumes "sortedNames xs" "sortedNames ys"
  shows "set (mergeNames same xs ys) =
    {n. (n \<in> fst ` set xs \<or> n \<in> fst ` set ys) \<and> \<not> (same \<and> (\<exists>i. (n, i) \<in> set xs \<and> (n, i) \<in> set ys))}
    \<and> distinct (mergeNames same xs ys)"
  using assms
proof (induction same xs ys rule: mergeNames.induct)
  case (1 same n1 i1 xs n2 i2 ys)
  have x: "\<And>m j. (m, j) \<in> set xs \<Longrightarrow> n1 < m" "sortedNames xs" and y: "\<And>m j. (m, j) \<in> set ys \<Longrightarrow> n2 < m" "sortedNames ys"
    using 1(4,5) by (auto simp: sortedNames_Cons)
  consider "n1 < n2" | "n1 = n2" | "n2 < n1" by (rule linorder_cases)
  then show ?case
  proof cases
    case l: 1
    have "(n1, j) \<notin> set ((n2, i2) # ys)" for j using l y(1) [of n1 j] by auto
    then show ?thesis using 1(1) [OF l x(2) 1(5)] l x(1) by (auto simp: image_iff) force+
  next
    case e: 2
    have "(n1, j) \<notin> set xs \<and> (n1, j) \<notin> set ys" for j using e x(1) [of n1 j] y(1) [of n1 j] by auto
    then show ?thesis using 1(2) [OF _ e x(2) y(2)] e by (auto simp: image_iff)
  next
    case g: 3
    then have *: "\<not> n1 < n2" "n1 \<noteq> n2" by auto
    have "(n2, j) \<notin> set ((n1, i1) # xs)" for j using g x(1) [of n2 j] by auto
    then show ?thesis using 1(3) [OF * 1(4) y(2)] * y(1) by (auto simp: image_iff) force+
  qed
next
  case (2 same xs)
  then show ?case by (auto simp: sortedNames_def)
next
  case (3 same ys)
  then show ?case by (auto simp: sortedNames_def)
qed

definition calls_ok :: "host_io \<Rightarrow> bool" where
  "calls_ok io \<longleftrightarrow> (\<forall>c. io c = None)"

definition entries :: "host option \<Rightarrow> (string \<times> 64 word) list" where
  "entries i = sortNames (map (\<lambda>(n, u). (n, hf_ino (attr u))) (hostKids i))"

lemma readIf_ok: "calls_ok io \<Longrightarrow> readIf io p i = Inr (entries i)"
  by (auto simp: readIf_def readdirnames_def calls_ok_def entries_def sortNames_def hostKids_def isSomeDir_def split: option.splits)

lemma childInfo_ok: "calls_ok io \<Longrightarrow> childInfo io (isSomeDir i) p (hostKids i) n = Inr (mget (hostKids i) n)"
  by (auto simp: childInfo_def calls_ok_def hostKids_def isSomeDir_def split: option.splits)

lemma sortedNames_sort: "wf_map us \<Longrightarrow> sortedNames (sortNames us)"
  unfolding sortedNames_def sortNames_def wf_map_def by (metis distinct_map distinct_sort set_sort sorted_sort_key)

lemma entries_ok:
  assumes "wf_host i"
  shows "sortedNames (entries i)" "(n, j) \<in> set (entries i) \<longleftrightarrow> (\<exists>u. mget (hostKids i) n = Some u \<and> hf_ino (attr u) = j)"
    "n \<in> fst ` set (entries i) \<longleftrightarrow> mget (hostKids i) n \<noteq> None"
proof -
  have wf: "wf_map (hostKids i)" by (rule wf_host_kid(3) [OF assms])
  have "wf_map (map (\<lambda>(n, u). (n, hf_ino (attr u))) (hostKids i))"
    using wf by (simp add: wf_map_def comp_def case_prod_beta)
  then show "sortedNames (entries i)" unfolding entries_def by (rule sortedNames_sort)
  show *: "(n, j) \<in> set (entries i) \<longleftrightarrow> (\<exists>u. mget (hostKids i) n = Some u \<and> hf_ino (attr u) = j)" for n j
    by (auto simp: entries_def wf_map_mem [OF wf, symmetric] intro: rev_image_eqI)
  show "n \<in> fst ` set (entries i) \<longleftrightarrow> mget (hostKids i) n \<noteq> None"
    using * by (force simp: image_iff)
qed

lemma merged:
  assumes "wf_host i1" "wf_host i2"
  shows "n \<in> set (mergeNames (sameDevice i1 i2) (entries i1) (entries i2)) \<longleftrightarrow>
      (mget (hostKids i1) n \<noteq> None \<or> mget (hostKids i2) n \<noteq> None) \<and> \<not> pruned i1 i2 n"
    "distinct (mergeNames (sameDevice i1 i2) (entries i1) (entries i2))"
proof -
  note m = set_mergeNames [OF entries_ok(1) [OF assms(1)] entries_ok(1) [OF assms(2)], of "sameDevice i1 i2"]
  from m show "distinct (mergeNames (sameDevice i1 i2) (entries i1) (entries i2))" by (rule conjunct2)
  from m [THEN conjunct1] show "n \<in> set (mergeNames (sameDevice i1 i2) (entries i1) (entries i2)) \<longleftrightarrow>
      (mget (hostKids i1) n \<noteq> None \<or> mget (hostKids i2) n \<noteq> None) \<and> \<not> pruned i1 i2 n"
    by (auto simp: entries_ok(2,3) [OF assms(1)] entries_ok(2,3) [OF assms(2)] pruned_def)
qed

text \<open>Registering a file puts a leaf where nothing was.\<close>

definition leafAt :: "string list \<Rightarrow> host option \<Rightarrow> FileInfo \<Rightarrow> FileInfo" where
  "leafAt ns i r = (if ns = [] then r else case i of None \<Rightarrow> r | Some t \<Rightarrow> put_tree ns (Node (summary (attr t)) []) r)"

lemma walkchunk_leaf:
  assumes "ready ns i r" "list_all plain ns" "ns \<noteq> []"
  shows "walkchunk (rooted ns) (map_option attr i) r = Inr (leafAt ns i r)"
proof (cases i)
  case (Some t)
  obtain ms n where ns: "ns = ms @ [n]" using assms(3) by (cases ns rule: rev_cases) auto
  have "LookUp r (rooted ms) \<noteq> None"
    using readyD(3) [OF assms(1,3)] Some assms(2) by (simp add: ns LookUp_rooted attr_at_None_iff)
  then show ?thesis using Some assms(2) by (auto simp: ns walkchunk_def addInfo_def DirPath_rooted BasePath_rooted filter_split_rooted leafAt_def)
qed (simp add: walkchunk_def leafAt_def)

lemma leaf_at:
  assumes "ready ns i r" "list_all plain ns"
  shows "wf_tree (leafAt ns i r)" "attr_at (leafAt ns i r) (ns @ n # ks) = None"
    "ns \<noteq> [] \<Longrightarrow> attr_at (leafAt ns i r) ns = host_at i []"
    "ms = [] \<or> \<not> prefix ns ms \<Longrightarrow> attr_at (leafAt ns i r) ms = attr_at r ms"
    "i \<noteq> None \<Longrightarrow> attr_at (leafAt ns i r) ns \<noteq> None"
proof -
  have put: "attr_at (put_tree ns u r) ms = (if prefix ns ms then attr_at u (drop (length ns) ms) else attr_at r ms)"
    if "ns \<noteq> []" "i \<noteq> None" for u ms
    by (rule attr_at_put) (rule disjI2 [OF readyD(3) [OF assms(1) that]])
  have "wf_tree (Node a [])" for a :: finfo by (simp add: wf_tree.simps)
  then show "wf_tree (leafAt ns i r)" using readyD(1) [OF assms(1)] wf_put [OF readyD(1) [OF assms(1)] _ assms(2)]
    by (simp add: leafAt_def split: option.splits)
  show "attr_at (leafAt ns i r) (ns @ n # ks) = None"
    using readyD(2) [OF assms(1), of "n # ks"] put by (cases i) (auto simp: leafAt_def)
  show l: "attr_at (leafAt ns i r) ns = host_at i []" if "ns \<noteq> []"
    using readyD(2) [OF assms(1), of "[]"] put that by (cases i) (auto simp: leafAt_def)
  show "attr_at (leafAt ns i r) ms = attr_at r ms" if "ms = [] \<or> \<not> prefix ns ms"
    using put that by (cases i) (auto simp: leafAt_def)
  show "attr_at (leafAt ns i r) ns \<noteq> None" if "i \<noteq> None"
    using l that by (cases "ns = []") (auto simp: leafAt_def)
qed

lemma register_leaf:
  assumes "ready ns i1 r1" "ready ns i2 r2" "list_all plain ns"
  shows "registerBoth (rooted ns) i1 i2 (r1, r2) = Inr (leafAt ns i1 r1, leafAt ns i2 r2)"
  using walkchunk_leaf [OF assms(1,3)] walkchunk_leaf [OF assms(2,3)] assms(3)
  by (auto simp: registerBoth_def rooted_slash_iff leafAt_def)

lemma leaf_readyNames:
  assumes "ready ns i r" "list_all plain ns"
  shows "readyNames ns names (hostKids i) (leafAt ns i r)"
  unfolding readyNames_def
proof (intro conjI allI impI)
  show "hostKids i = [] \<or> attr_at (leafAt ns i r) ns \<noteq> None"
    using leaf_at(5) [OF assms] by (cases i) (auto simp: hostKids_def)
qed (use leaf_at(1,2) [OF assms] in auto)

text \<open>When the names are done, everything below the path is filled.\<close>

lemma filled_names:
  assumes r: "ready ns i r" "list_all plain ns" and "wf_host i"
    and f: "filledNames ns names (hostKids i) keep (leafAt ns i r) r'"
    and ok: "\<And>n. mget (hostKids i) n \<noteq> None \<Longrightarrow> n \<notin> set names \<Longrightarrow> \<not> ok n" "\<And>n. n \<in> set names \<Longrightarrow> ok n"
  shows "filled ns i (\<lambda>ks. case ks of [] \<Rightarrow> True | n # ms \<Rightarrow> ok n \<and> keep n ms) r r'"
  unfolding filled_def
proof (intro conjI allI impI)
  fix ks assume "ns @ ks \<noteq> []"
  show "attr_at r' (ns @ ks) = (if case ks of [] \<Rightarrow> True | n # ms \<Rightarrow> ok n \<and> keep n ms then host_at i ks else None)"
  proof (cases ks)
    case Nil
    have "attr_at r' ns = attr_at (leafAt ns i r) ns" by (rule filledNamesD(3) [OF f]) (auto simp: prefix_def)
    then show ?thesis using leaf_at(3) [OF r] \<open>ns @ ks \<noteq> []\<close> Nil by simp
  next
    case (Cons n ms)
    show ?thesis
    proof (cases "n \<in> set names")
      case True
      then show ?thesis using filledNamesD(2) [OF f True, of ms] ok(2) [OF True] Cons by (simp add: host_at_Cons [OF assms(3)])
    next
      case False
      have "attr_at r' (ns @ n # ms) = attr_at (leafAt ns i r) (ns @ n # ms)"
        using False by (intro filledNamesD(3) [OF f]) auto
      then have "attr_at r' (ns @ ks) = None" using leaf_at(2) [OF r, of n ms] Cons by simp
      then show ?thesis using ok(1) [OF _ False] Cons by (cases "mget (hostKids i) n") (simp_all add: host_at_Cons [OF assms(3)])
    qed
  qed
next
  fix ms assume ms: "ms = [] \<or> \<not> prefix ns ms"
  have "attr_at r' ms = attr_at (leafAt ns i r) ms" by (rule filledNamesD(3) [OF f]) (use ms in \<open>auto dest: append_prefixD\<close>)
  then show "attr_at r' ms = attr_at r ms" using leaf_at(4) [OF r ms] by simp
qed (rule filledNamesD(1) [OF f])

lemma kept_eq: "kept i1 i2 = (\<lambda>ks. case ks of [] \<Rightarrow> True | n # ms \<Rightarrow> \<not> pruned i1 i2 n \<and> kept (mget (hostKids i1) n) (mget (hostKids i2) n) ms)"
  by (rule ext) (auto split: list.splits)

lemma walk_fills:
  "calls_ok io \<Longrightarrow> path = rooted ns \<Longrightarrow> list_all plain ns \<Longrightarrow> wf_host i1 \<Longrightarrow> wf_host i2 \<Longrightarrow>
    ready ns i1 (fst roots) \<Longrightarrow> ready ns i2 (snd roots) \<Longrightarrow>
    \<exists>r1 r2. walk io dir1 dir2 path i1 i2 roots = Inr (r1, r2)
      \<and> filled ns i1 (kept i1 i2) (fst roots) r1 \<and> filled ns i2 (kept i1 i2) (snd roots) r2"
  "calls_ok io \<Longrightarrow> path = rooted ns \<Longrightarrow> list_all plain ns \<Longrightarrow> d1 = (isSomeDir j1, hostKids j1) \<Longrightarrow> d2 = (isSomeDir j2, hostKids j2) \<Longrightarrow>
    wf_host j1 \<Longrightarrow> wf_host j2 \<Longrightarrow> distinct names \<Longrightarrow>
    (\<forall>n \<in> set names. mget (hostKids j1) n \<noteq> None \<or> mget (hostKids j2) n \<noteq> None) \<Longrightarrow>
    readyNames ns names (hostKids j1) (fst roots) \<Longrightarrow> readyNames ns names (hostKids j2) (snd roots) \<Longrightarrow>
    \<exists>r1 r2. walkNames io dir1 dir2 path d1 d2 names roots = Inr (r1, r2)
      \<and> filledNames ns names (hostKids j1) (\<lambda>n. kept (mget (hostKids j1) n) (mget (hostKids j2) n)) (fst roots) r1
      \<and> filledNames ns names (hostKids j2) (\<lambda>n. kept (mget (hostKids j1) n) (mget (hostKids j2) n)) (snd roots) r2"
proof (induction io dir1 dir2 path i1 i2 roots and io dir1 dir2 path d1 d2 names roots
    arbitrary: ns and ns j1 j2 rule: walk_walkNames.induct)
  case (1 io dir1 dir2 path i1 i2 roots)
  let ?l1 = "leafAt ns i1 (fst roots)" and ?l2 = "leafAt ns i2 (snd roots)"
  let ?names = "mergeNames (sameDevice i1 i2) (entries i1) (entries i2)"
  have reg: "registerBoth path i1 i2 roots = Inr (?l1, ?l2)" using register_leaf [OF 1(7,8,4)] 1(3) by simp
  note names = merged [OF 1(5,6)]
  let ?keep = "\<lambda>n. kept (mget (hostKids i1) n) (mget (hostKids i2) n)"
  have "\<exists>r1 r2. walk io dir1 dir2 path i1 i2 roots = Inr (r1, r2)
      \<and> filledNames ns ?names (hostKids i1) ?keep ?l1 r1 \<and> filledNames ns ?names (hostKids i2) ?keep ?l2 r2"
  proof (cases "isSomeDir i1 \<or> isSomeDir i2")
    case True
    then have dirs: "\<not> (\<not> isSomeDir i1 \<and> \<not> isSomeDir i2)" by simp
    have "\<exists>r1 r2. walkNames io dir1 dir2 path (isSomeDir i1, hostKids i1) (isSomeDir i2, hostKids i2) ?names (?l1, ?l2) = Inr (r1, r2)
        \<and> filledNames ns ?names (hostKids i1) ?keep (fst (?l1, ?l2)) r1 \<and> filledNames ns ?names (hostKids i2) ?keep (snd (?l1, ?l2)) r2"
      using leaf_readyNames [OF 1(7,4)] leaf_readyNames [OF 1(8,4)] names
      by (intro 1(1) [OF reg dirs readIf_ok readIf_ok] 1(2-6) refl) (simp_all add: 1(2))
    then show ?thesis using True by (auto simp: reg readIf_ok [OF 1(2)])
  next
    case False
    then have "mget (hostKids i1) n = None" "mget (hostKids i2) n = None" for n
      using kids_isDir [of i1 n] kids_isDir [of i2 n] by blast+
    then have "?names = []" using names(1) by (metis list.set_intros(1) neq_Nil_conv)
    then show ?thesis using False filledNames_Nil leaf_at(1) [OF 1(7,4)] leaf_at(1) [OF 1(8,4)] by (simp add: reg)
  qed
  then obtain r1 r2 where w: "walk io dir1 dir2 path i1 i2 roots = Inr (r1, r2)"
    and f: "filledNames ns ?names (hostKids i1) ?keep ?l1 r1" "filledNames ns ?names (hostKids i2) ?keep ?l2 r2"
    by blast
  have "filled ns i1 (kept i1 i2) (fst roots) r1" unfolding kept_eq [of i1 i2]
    by (rule filled_names [OF 1(7,4,5) f(1)]) (simp_all add: names(1))
  moreover have "filled ns i2 (kept i1 i2) (snd roots) r2" unfolding kept_eq [of i1 i2]
    by (rule filled_names [OF 1(8,4,6) f(2)]) (simp_all add: names(1))
  ultimately show ?case using w by blast
next
  case (2 io dir1 dir2 path d1 d2 roots)
  show ?case using filledNames_Nil [OF readyNamesD(1) [OF 2(10)]] filledNames_Nil [OF readyNamesD(1) [OF 2(11)]] by (cases roots) auto
next
  case (3 io dir1 dir2 path d1 d2 name names roots)
  let ?c1 = "mget (hostKids j1) name" and ?c2 = "mget (hostKids j2) name"
  have plain: "plain name"
    using 3(11) wf_host_kid(2) [OF 3(8)] wf_host_kid(2) [OF 3(9)] by auto
  have fname: "JoinPath [path, name] = rooted (ns @ [name])" using JoinPath_rooted [OF 3(5) plain] 3(4) by simp
  have c1: "childInfo io (fst d1) (JoinPath [dir1, JoinPath [path, name]]) (snd d1) name = Inr ?c1"
    and c2: "childInfo io (fst d2) (JoinPath [dir2, JoinPath [path, name]]) (snd d2) name = Inr ?c2"
    using childInfo_ok [OF 3(3)] 3(6,7) by simp_all
  have "list_all plain (ns @ [name])" using 3(5) plain by simp
  then obtain r1 r2 where w: "walk io dir1 dir2 (JoinPath [path, name]) ?c1 ?c2 roots = Inr (r1, r2)"
    and f1: "filled (ns @ [name]) ?c1 (kept ?c1 ?c2) (fst roots) r1" and f2: "filled (ns @ [name]) ?c2 (kept ?c1 ?c2) (snd roots) r2"
    using 3(1) [OF refl c1 c2 3(3) fname _ wf_host_kid(1) [OF 3(8)] wf_host_kid(1) [OF 3(9)]
        readyNames_next [OF 3(12)] readyNames_next [OF 3(13)]] by blast
  have d: "name \<notin> set names" "distinct names" using 3(10) by simp_all
  obtain s1 s2 where "walkNames io dir1 dir2 path d1 d2 names (r1, r2) = Inr (s1, s2)"
    and "filledNames ns names (hostKids j1) (\<lambda>n. kept (mget (hostKids j1) n) (mget (hostKids j2) n)) r1 s1"
    and "filledNames ns names (hostKids j2) (\<lambda>n. kept (mget (hostKids j1) n) (mget (hostKids j2) n)) r2 s2"
    using 3(2) [OF refl c1 c2 w 3(3,4,5,6,7,8,9) d(2) _ ] readyNames_rest [OF 3(12) f1 d(1)] readyNames_rest [OF 3(13) f2 d(1)] 3(11)
    by auto
  moreover from this have "walkNames io dir1 dir2 path d1 d2 (name # names) roots = Inr (s1, s2)"
    using c1 c2 w by simp
  ultimately show ?case
    using filledNames_step [where keep = "\<lambda>n. kept (mget (hostKids j1) n) (mget (hostKids j2) n)", OF f1 _ d(1)]
      filledNames_step [where keep = "\<lambda>n. kept (mget (hostKids j1) n) (mget (hostKids j2) n)", OF f2 _ d(1)] by blast
qed

subsection \<open>The complete reading\<close>

lemma collectVisit_leaf:
  assumes "ready ns (Some t) r" "list_all plain ns"
  shows "collectVisit (rooted ns) (attr t) r = Inr (leafAt ns (Some t) r)"
proof (cases "ns = []")
  case False
  have "collectVisit (rooted ns) (attr t) r = walkchunk (rooted ns) (map_option attr (Some t)) r"
    using False assms(2) by (simp add: collectVisit_def walkchunk_def rooted_slash_iff)
  then show ?thesis using walkchunk_leaf [OF assms False] by simp
qed (simp add: collectVisit_def leafAt_def)

lemma collect_fills:
  "calls_ok io \<Longrightarrow> path = rooted ns \<Longrightarrow> list_all plain ns \<Longrightarrow> wf_host (Some t) \<Longrightarrow> ready ns (Some t) r \<Longrightarrow>
    \<exists>r'. collectTree io sourceDir path t r = Inr r' \<and> filled ns (Some t) (\<lambda>_. True) r r'"
  "calls_ok io \<Longrightarrow> path = rooted ns \<Longrightarrow> list_all plain ns \<Longrightarrow> wf_host j \<Longrightarrow> distinct (map fst us) \<Longrightarrow>
    (\<forall>x \<in> set us. mget (hostKids j) (fst x) = Some (snd x)) \<Longrightarrow> readyNames ns (map fst us) (hostKids j) r \<Longrightarrow>
    \<exists>r'. collectNames io sourceDir path us r = Inr r' \<and> filledNames ns (map fst us) (hostKids j) (\<lambda>_ _. True) r r'"
proof (induction io sourceDir path t r and io sourceDir path us r
    arbitrary: ns and ns j rule: collectTree_collectNames.induct)
  case (1 io sourceDir path h us root)
  let ?t = "Node h us"
  have reg: "collectVisit path h root = Inr (leafAt ns (Some ?t) root)" using collectVisit_leaf [OF 1(6,4)] 1(3) by simp
  have wf: "wf_map us" "hostKids (Some ?t) = us"
    using wf_host_kid(3) [OF 1(5)] hostKids_kids [of ?t] 1(5) by (simp_all add: wf_host_def)
  have "\<exists>r'. collectTree io sourceDir path ?t root = Inr r'
      \<and> filledNames ns (map fst (sortNames us)) (hostKids (Some ?t)) (\<lambda>_ _. True) (leafAt ns (Some ?t) root) r'"
  proof (cases "hostIsDir ?t")
    case True
    have "\<exists>r'. collectNames io sourceDir path (sortNames us) (leafAt ns (Some ?t) root) = Inr r'
        \<and> filledNames ns (map fst (sortNames us)) (hostKids (Some ?t)) (\<lambda>_ _. True) (leafAt ns (Some ?t) root) r'"
      using True 1(2) reg sortedNames_sort [OF wf(1)] leaf_readyNames [OF 1(6,4)] wf_map_mem [OF wf(1)]
      by (intro 1(1) 1(2-5)) (auto simp: calls_ok_def sortedNames_def wf(2))
    then show ?thesis using True 1(2) by (simp add: reg calls_ok_def)
  next
    case False
    then have "us = []" using wf(2) by (simp add: hostKids_def)
    then show ?thesis using False filledNames_Nil leaf_at(1) [OF 1(6,4)] by (simp add: reg sortNames_def)
  qed
  moreover have "filled ns (Some ?t) (\<lambda>_. True) root r'"
    if "filledNames ns (map fst (sortNames us)) (hostKids (Some ?t)) (\<lambda>_ _. True) (leafAt ns (Some ?t) root) r'" for r'
    using filled_names [OF 1(6,4,5) that, of "\<lambda>_. True"] map_of_eq_None_iff [of us]
    by (auto simp: wf(2) filled_def split: list.splits)
  ultimately show ?case by blast
next
  case (2 io sourceDir path root)
  then show ?case using filledNames_Nil readyNamesD(1) by auto
next
  case (3 io sourceDir path name u us root)
  have u: "mget (hostKids j) name = Some u" using 3(8) by simp
  have plain: "list_all plain (ns @ [name])" using wf_host_kid(2) [OF 3(6), of name] u 3(5) by simp
  have fname: "JoinPath [path, name] = rooted (ns @ [name])" using JoinPath_rooted [of ns name] plain 3(4) by simp
  have io: "io c = None" for c using 3(3) by (simp add: calls_ok_def)
  have ready: "readyNames ns (name # map fst us) (hostKids j) root" using 3(9) by simp
  have d: "name \<notin> set (map fst us)" "distinct (map fst us)" using 3(7) by auto
  obtain r1 where w: "collectTree io sourceDir (JoinPath [path, name]) u root = Inr r1"
    and f: "filled (ns @ [name]) (mget (hostKids j) name) (\<lambda>_. True) root r1"
    using 3(1) [OF refl io 3(3) fname plain] wf_host_kid(1) [OF 3(6), of name] readyNames_next [OF ready] u by auto
  obtain r2 where "collectNames io sourceDir path us r1 = Inr r2"
    and "filledNames ns (map fst us) (hostKids j) (\<lambda>_ _. True) r1 r2"
    using 3(2) [OF refl io w 3(3,4,5,6) d(2)] readyNames_rest [OF ready f d(1)] 3(8) by auto
  moreover from this have "collectNames io sourceDir path ((name, u) # us) root = Inr r2"
    using w io by simp
  ultimately show ?case using filledNames_step [where keep = "\<lambda>_ _. True", OF f _ d(1)] by auto
qed

subsection \<open>The shortcut does not change the result\<close>

text \<open>An inode number stands for one file: where the numbers agree, the subtrees do.\<close>

fun same_inodes :: "host \<Rightarrow> host \<Rightarrow> bool" where
  "same_inodes (Node a us) (Node b vs) \<longleftrightarrow>
     (\<forall>x \<in> set us. case mget vs (fst x) of
        None \<Rightarrow> True
      | Some v \<Rightarrow> if hf_dev a = hf_dev b \<and> hf_ino (attr (snd x)) = hf_ino (attr v) then snd x = v
          else same_inodes (snd x) v)"

lemma same_inodes_kid:
  assumes "same_inodes s t" "mget (kids s) n = Some u" "mget (kids t) n = Some v"
  shows "hf_dev (attr s) = hf_dev (attr t) \<and> hf_ino (attr u) = hf_ino (attr v) \<Longrightarrow> u = v"
    "\<not> (hf_dev (attr s) = hf_dev (attr t) \<and> hf_ino (attr u) = hf_ino (attr v)) \<Longrightarrow> same_inodes u v"
proof -
  obtain a us b vs where st: "s = Node a us" "t = Node b vs" by (cases s, cases t)
  have "(n, u) \<in> set us" using assms(2) by (auto simp: st dest: map_of_SomeD)
  from assms(1) [unfolded st same_inodes.simps, THEN bspec, OF this] assms(3)
  show "hf_dev (attr s) = hf_dev (attr t) \<and> hf_ino (attr u) = hf_ino (attr v) \<Longrightarrow> u = v"
    "\<not> (hf_dev (attr s) = hf_dev (attr t) \<and> hf_ino (attr u) = hf_ino (attr v)) \<Longrightarrow> same_inodes u v"
    by (auto simp: st split: if_splits)
qed

lemma kept_None: "kept None i ms" "kept i None ms"
proof -
  have *: "\<not> pruned None i n" "\<not> pruned i None n" "mget (hostKids None) n = None" for i n
    by (auto simp: pruned_def sameDevice_def hostKids_def split: option.splits)
  show "kept None i ms" by (induction ms arbitrary: i) (simp_all add: *)
  show "kept i None ms" by (induction ms arbitrary: i) (simp_all add: *)
qed

lemma kept_prefix: "kept i1 i2 (ms @ ks) \<Longrightarrow> kept i1 i2 ms"
  by (induction i1 i2 ms rule: kept.induct) auto

lemma not_kept_same:
  "wf_host (Some s) \<Longrightarrow> wf_host (Some t) \<Longrightarrow> same_inodes s t \<Longrightarrow> \<not> kept (Some s) (Some t) ms \<Longrightarrow>
    host_at (Some s) ms = host_at (Some t) ms"
proof (induction ms arbitrary: s t)
  case (Cons n ms)
  let ?u = "mget (hostKids (Some s)) n" and ?v = "mget (hostKids (Some t)) n"
  have k: "hostKids (Some s) = kids s" "hostKids (Some t) = kids t"
    using Cons.prems(1,2) by (simp_all add: wf_host_def hostKids_kids)
  show ?case
  proof (cases "pruned (Some s) (Some t) n")
    case True
    then obtain u v where "mget (kids s) n = Some u" "mget (kids t) n = Some v"
      "hf_dev (attr s) = hf_dev (attr t) \<and> hf_ino (attr u) = hf_ino (attr v)"
      by (auto simp: pruned_def k sameDevice_def)
    with same_inodes_kid(1) [OF Cons.prems(3) this(1,2)] show ?thesis
      by (simp add: host_at_Cons [OF Cons.prems(1)] host_at_Cons [OF Cons.prems(2)] k)
  next
    case False
    then have nk: "\<not> kept ?u ?v ms" using Cons.prems(4) by simp
    then obtain u v where uv: "?u = Some u" "?v = Some v" using kept_None by (cases ?u; cases ?v) auto
    have "same_inodes u v"
      using False uv by (intro same_inodes_kid(2) [OF Cons.prems(3)]) (auto simp: pruned_def sameDevice_def k)
    then show ?thesis
      using Cons.IH [of u v] wf_host_kid(1) [OF Cons.prems(1), of n] wf_host_kid(1) [OF Cons.prems(2), of n] nk uv
      by (simp add: host_at_Cons [OF Cons.prems(1)] host_at_Cons [OF Cons.prems(2)])
  qed
qed simp

definition prefix_closed :: "('a list \<Rightarrow> bool) \<Rightarrow> bool" where
  "prefix_closed keep \<longleftrightarrow> (\<forall>ms ks. keep (ms @ ks) \<longrightarrow> keep ms)"

lemma prefix_closedD: "prefix_closed keep \<Longrightarrow> keep (ms @ ks) \<Longrightarrow> keep ms"
  unfolding prefix_closed_def by blast

lemma prefix_closed_kept: "prefix_closed (kept i1 i2)" "prefix_closed (\<lambda>_. True)"
  unfolding prefix_closed_def using kept_prefix by blast+

text \<open>Two pairs of trees that agree on what the shortcut keeps, and are equal on the rest, have the same entries.\<close>

definition reduced :: "(string list \<Rightarrow> bool) \<Rightarrow> FileInfo \<Rightarrow> FileInfo \<Rightarrow> bool" where
  "reduced keep t r \<longleftrightarrow> wf_tree t \<and> wf_tree r \<and> (\<forall>ms. ms \<noteq> [] \<longrightarrow> attr_at r ms = (if keep ms then attr_at t ms else None))"

lemma reducedD: "reduced keep t r \<Longrightarrow> ms \<noteq> [] \<Longrightarrow> attr_at r ms = (if keep ms then attr_at t ms else None)"
  unfolding reduced_def by blast

lemma reduced_direct:
  assumes "reduced keep N n" "reduced keep O' o'" "prefix_closed keep"
    and same: "\<And>ms. ms \<noteq> [] \<Longrightarrow> \<not> keep ms \<Longrightarrow> attr_at N ms = attr_at O' ms"
  shows "direct [] n (Some o') ms = direct [] N (Some O') ms"
proof (cases "ms = []")
  case False
  have refl: "\<not> attrDiffers a a" for a by (simp add: attrDiffers_def statDifferent_def sameFsTimeSpec_def)
  note n = reducedD [OF assms(1) False] and o' = reducedD [OF assms(2) False]
  show ?thesis
  proof (cases "keep ms")
    case True
    then have "keep (butlast ms)" using prefix_closedD [OF assms(3), of "butlast ms" "[last ms]"] False by simp
    then have "dirAt [] n (butlast ms) = dirAt [] N (butlast ms)"
      using reducedD [OF assms(1), of "butlast ms"] by (cases "butlast ms = []") (auto simp: dirAt_def)
    then show ?thesis using True n o' by (simp add: direct_def)
  next
    case False
    then show ?thesis using n o' same [OF \<open>ms \<noteq> []\<close> False] refl by (simp add: direct_def split: option.splits)
  qed
qed (simp add: direct_def)

lemma reduced_entry:
  assumes "reduced keep N n" "reduced keep O' o'" "prefix_closed keep"
    and same: "\<And>ms. ms \<noteq> [] \<Longrightarrow> \<not> keep ms \<Longrightarrow> attr_at N ms = attr_at O' ms"
  shows "entry [] False n (Some o') ms k = entry [] False N (Some O') ms k"
proof -
  have direct: "direct [] n (Some o') ms = direct [] N (Some O') ms" for ms by (rule reduced_direct [OF assms])
  have "below [] n (Some o') ms = below [] N (Some O') ms"
  proof (cases "ms = [] \<or> keep ms")
    case True
    then show ?thesis
      using reducedD [OF assms(1), of ms] reducedD [OF assms(2), of ms] by (cases "ms = []") (simp_all add: below_def direct dirAt_def)
  next
    case False
    then have none: "attr_at n (ms @ ks) = None" "attr_at o' (ms @ ks) = None" for ks
      using reducedD [OF assms(1), of "ms @ ks"] reducedD [OF assms(2), of "ms @ ks"] prefix_closedD [OF assms(3), of ms ks] by auto
    have "dirAt [] n (butlast (ms @ ks)) = False" if "ks \<noteq> []" for ks
      using none(1) [of "butlast ks"] False that by (simp add: dirAt_def butlast_append)
    then have none': "direct [] n (Some o') (ms @ ks) = None" for ks
      using none by (simp add: direct_def)
    then have "direct [] N (Some O') (ms @ ks) = None" for ks using direct [of "ms @ ks"] by simp
    then show ?thesis using none' by (simp add: below_def)
  qed
  then show ?thesis by (simp add: entry_def direct)
qed

lemma modeIsDir_bit: "modeIsDir m \<Longrightarrow> and m S_IFDIR \<noteq> 0"
proof -
  assume "modeIsDir m"
  have "and m S_IFDIR = and (and m 0xF000) S_IFDIR" by (simp add: S_IFDIR_def and.assoc)
  also have "\<dots> = S_IFDIR" using \<open>modeIsDir m\<close> by (simp add: modeIsDir_def)
  finally show ?thesis by (simp add: S_IFDIR_def)
qed

lemma parents_dirsI:
  "wf_tree t \<Longrightarrow> (\<And>ms m. attr_at t (ms @ [m]) \<noteq> None \<Longrightarrow> dirAt ns t ms) \<Longrightarrow> parents_dirs ns t"
proof (induction "size t" arbitrary: ns t rule: less_induct)
  case less
  obtain a us where t: "t = Node a us" by (cases t)
  have kid: "mget us (fst x) = Some (snd x)" if "x \<in> set us" for x
    using wf_map_mem [OF wf_tree_map [OF less.prems(1)], of "fst x" "snd x"] that by (simp add: t)
  have "parents_dirs (ns @ [fst x]) (snd x)" if x: "x \<in> set us" for x
  proof (rule less.hyps)
    show "size (snd x) < size t" using kid_size [of t "fst x" "snd x"] kid [OF x] by (simp add: t)
    show "wf_tree (snd x)" using wf_kidD [OF less.prems(1), of "fst x"] kid [OF x] by (simp add: t)
    show "dirAt (ns @ [fst x]) (snd x) ms" if "attr_at (snd x) (ms @ [m]) \<noteq> None" for ms m
      using less.prems(2) [of "fst x # ms" m] that kid [OF x] dirAt_Cons [of t "fst x" "snd x" ns ms] by (simp add: t)
  qed
  moreover have "isDir ns t" if "us \<noteq> []"
  proof -
    obtain x where "x \<in> set us" using \<open>us \<noteq> []\<close> by (cases us) auto
    then show ?thesis using less.prems(2) [of "[]" "fst x"] kid by (simp add: t dirAt_Nil)
  qed
  ultimately show ?case by (auto simp: t)
qed

lemma host_parent_dir:
  "wf_host i \<Longrightarrow> host_at i (ms @ [m]) \<noteq> None \<Longrightarrow> \<exists>a. host_at i ms = Some a \<and> dirBit a"
proof (induction ms arbitrary: i)
  case Nil
  then obtain t where "i = Some t" by (cases i) auto
  moreover have "isSomeDir i" using Nil host_at_Cons [OF Nil(1), of m "[]"] kids_isDir [of i m] by (cases "mget (hostKids i) m") auto
  ultimately show ?case using modeIsDir_bit by (simp add: isSomeDir_def hostIsDir_def dirBit_def summary_def)
next
  case (Cons n ms)
  then show ?case using wf_host_kid(1) [OF Cons.prems(1), of n] by (simp add: host_at_Cons)
qed

lemma filled_root:
  assumes "filled [] i keep newRootFileInfo r" "wf_host i" "prefix_closed keep"
  shows "wf_tree r" "ms \<noteq> [] \<Longrightarrow> attr_at r ms = (if keep ms then host_at i ms else None)" "parents_dirs [] r"
proof -
  show wf: "wf_tree r" by (rule filledD(1) [OF assms(1)])
  show *: "attr_at r ms = (if keep ms then host_at i ms else None)" if "ms \<noteq> []" for ms
    using filledD(2) [OF assms(1), of ms] that by simp
  show "parents_dirs [] r"
  proof (rule parents_dirsI [OF wf])
    fix ms m assume "attr_at r (ms @ [m]) \<noteq> None"
    then have k: "keep (ms @ [m])" "host_at i (ms @ [m]) \<noteq> None" using * [of "ms @ [m]"] by (auto split: if_splits)
    show "dirAt [] r ms"
    proof (cases "ms = []")
      case False
      then show ?thesis using * [OF False] prefix_closedD [OF assms(3) k(1)] host_parent_dir [OF assms(2) k(2)] by (auto simp: dirAt_def)
    qed (simp add: dirAt_def)
  qed
qed

lemma root_ready: "ready [] i newRootFileInfo"
proof -
  have "attr_at newRootFileInfo ks = None" if "ks \<noteq> []" for ks using that by (cases ks) (simp_all add: newRootFileInfo_def)
  moreover have "wf_tree newRootFileInfo" by (simp add: newRootFileInfo_def wf_tree.simps)
  ultimately show ?thesis by (simp add: ready_def)
qed

text \<open>Both readings, and what the complete one has collected.\<close>

lemma both_readings:
  assumes "calls_ok io" "wf_host (Some old)" "wf_host (Some new)" "same_inodes old new"
  shows "\<exists>o1 n1 o2 n2. collectFileInfoForChanges io oldDir (Some old) newDir (Some new) = Inr (o1, n1)
    \<and> collectBoth io oldDir (Some old) newDir (Some new) = Inr (o2, n2)
    \<and> mset (Changes n1 (Some o1)) = mset (Changes n2 (Some o2))
    \<and> filled [] (Some old) (\<lambda>_. True) newRootFileInfo o2 \<and> filled [] (Some new) (\<lambda>_. True) newRootFileInfo n2"
proof -
  let ?k = "kept (Some old) (Some new)"
  obtain o1 n1 where w: "walk io oldDir newDir ''/'' (Some old) (Some new) (newRootFileInfo, newRootFileInfo) = Inr (o1, n1)"
    "filled [] (Some old) ?k newRootFileInfo o1" "filled [] (Some new) ?k newRootFileInfo n1"
    using walk_fills(1) [OF assms(1) _ _ assms(2,3), where path = "''/''" and ns = "[]" and ?dir1.0 = oldDir and ?dir2.0 = newDir and roots = "(newRootFileInfo, newRootFileInfo)"]
      root_ready by (auto simp del: walk.simps)
  obtain o2 where o2: "collectTree io oldDir ''/'' old newRootFileInfo = Inr o2" "filled [] (Some old) (\<lambda>_. True) newRootFileInfo o2"
    using collect_fills(1) [OF assms(1), of "''/''" "[]" old newRootFileInfo] root_ready assms(2) by auto
  obtain n2 where n2: "collectTree io newDir ''/'' new newRootFileInfo = Inr n2" "filled [] (Some new) (\<lambda>_. True) newRootFileInfo n2"
    using collect_fills(1) [OF assms(1), of "''/''" "[]" new newRootFileInfo] root_ready assms(3) by auto
  note O1 = filled_root [OF w(2) assms(2) prefix_closed_kept(1)] and N1 = filled_root [OF w(3) assms(3) prefix_closed_kept(1)]
    and O2 = filled_root [OF o2(2) assms(2) prefix_closed_kept(2)] and N2 = filled_root [OF n2(2) assms(3) prefix_closed_kept(2)]
  have red: "reduced ?k o2 o1" "reduced ?k n2 n1"
    using O1(1,2) O2(1,2) N1(1,2) N2(1,2) by (simp_all add: reduced_def)
  have same: "attr_at n2 ms = attr_at o2 ms" if "ms \<noteq> []" "\<not> ?k ms" for ms
    using not_kept_same [OF assms(2-4) that(2)] N2(2) [OF that(1)] O2(2) [OF that(1)] by simp
  have "entry [] False n1 (Some o1) ms k = entry [] False n2 (Some o2) ms k" for ms k
    by (rule reduced_entry [OF red(2,1) prefix_closed_kept(1) same])
  then have "set (treeChanges [] False n1 (Some o1)) = set (treeChanges [] False n2 (Some o2))"
    using set_treeChanges [OF N1(1,3)] set_treeChanges [OF N2(1,3)] by (simp add: listed_def)
  moreover have "distinct (treeChanges [] False n1 (Some o1))" "distinct (treeChanges [] False n2 (Some o2))"
    using distinct_treeChanges [OF N1(1,3), of "Some o1"] distinct_treeChanges [OF N2(1,3), of "Some o2"] O1(1) O2(1)
    by (auto simp: wf_old_def distinct_map)
  ultimately have "mset (Changes n1 (Some o1)) = mset (Changes n2 (Some o2))"
    using addChanges_tree(1) [OF N1(1), of "[]"] addChanges_tree(1) [OF N2(1), of "[]"]
    by (simp add: Changes_def set_eq_iff_mset_eq_distinct)
  moreover have "collectFileInfoForChanges io oldDir (Some old) newDir (Some new) = Inr (o1, n1)"
    "collectBoth io oldDir (Some old) newDir (Some new) = Inr (o2, n2)"
    using w(1) o2(1) n2(1) assms(1) by (simp_all add: collectFileInfoForChanges_def collectBoth_def collectFileInfo_def calls_ok_def)
  ultimately show ?thesis using o2(2) n2(2) by blast
qed

text \<open>
  C7: On Linux the two directories are walked in parallel, and what has the same inode number on the same
  device in both is neither read nor compared.  Provided that an inode number stands for one file, the
  list of changes is the one that a complete reading of both directories gives, up to its order; and
  both readings succeed when no call of the operating system fails.
\<close>

theorem linux_walk_same_changes:
  assumes "calls_ok io" "wf_host (Some old)" "wf_host (Some new)" "same_inodes old new"
  shows "\<exists>o1 n1 o2 n2. collectFileInfoForChanges io oldDir (Some old) newDir (Some new) = Inr (o1, n1)
    \<and> collectBoth io oldDir (Some old) newDir (Some new) = Inr (o2, n2)
    \<and> mset (Changes n1 (Some o1)) = mset (Changes n2 (Some o2))"
  using both_readings [OF assms, of oldDir newDir] by blast

definition sample_host :: "32 word \<Rightarrow> 64 word \<Rightarrow> (string \<times> host) list \<Rightarrow> host" where
  "sample_host m ino us = Node \<lparr>hf_stat = fi_stat (sample_file m 1), hf_cap = [], hf_dev = 7, hf_ino = ino\<rparr> us"

definition sample_lower :: host where
  "sample_lower = sample_host 0x41ED 2
     [(''usr'', sample_host 0x41ED 3 [(''ls'', sample_host 0x81ED 4 [])]), (''etc'', sample_host 0x41ED 5 [(''motd'', sample_host 0x81A4 6 [])])]"

definition sample_upper :: host where
  "sample_upper = sample_host 0x41ED 12
     [(''usr'', sample_host 0x41ED 3 [(''ls'', sample_host 0x81ED 4 [])]), (''etc'', sample_host 0x41ED 15 [(''hosts'', sample_host 0x81A4 16 [])])]"

theorem linux_walk_same_changes_witness:
  "\<exists>o1 n1 o2 n2. collectFileInfoForChanges (\<lambda>_. None) ''/lower'' (Some sample_lower) ''/upper'' (Some sample_upper) = Inr (o1, n1)
    \<and> collectBoth (\<lambda>_. None) ''/lower'' (Some sample_lower) ''/upper'' (Some sample_upper) = Inr (o2, n2)
    \<and> mset (Changes n1 (Some o1)) = mset (Changes n2 (Some o2)) \<and> LookUp n1 ''/usr'' = None \<and> LookUp n2 ''/usr/ls'' \<noteq> None"
proof -
  have "calls_ok (\<lambda>_. None)" by (simp add: calls_ok_def)
  moreover have "wf_host (Some sample_lower)" "wf_host (Some sample_upper)" "same_inodes sample_lower sample_upper" by code_simp+
  moreover have "(case collectFileInfoForChanges (\<lambda>_. None) ''/lower'' (Some sample_lower) ''/upper'' (Some sample_upper) of
      Inl _ \<Rightarrow> False | Inr (o1, n1) \<Rightarrow> LookUp n1 ''/usr'' = None)"
    "(case collectBoth (\<lambda>_. None) ''/lower'' (Some sample_lower) ''/upper'' (Some sample_upper) of
      Inl _ \<Rightarrow> False | Inr (o2, n2) \<Rightarrow> LookUp n2 ''/usr/ls'' \<noteq> None)"
    by code_simp+
  ultimately show ?thesis
    using linux_walk_same_changes [of "\<lambda>_. None" sample_lower sample_upper "''/lower''" "''/upper''"] by fastforce
qed

text \<open>Compared with nothing, every file of the directory is an addition, and nothing else is listed.\<close>

theorem changes_against_nothing:
  assumes "calls_ok io" "trees newDir = Some new" "wf_host (Some new)"
  shows "\<exists>cs. ChangesDirs io (Inr (d, h)) trees newDir [] = Inr cs \<and> distinct cs
    \<and> set cs = {Change (rooted ms) ChangeAdd |ms. ms \<noteq> [] \<and> attr_at new ms \<noteq> None}"
proof -
  let ?e = "Some (Node h [])"
  have e: "wf_host ?e" by (simp add: wf_host_def wf_tree.simps)
  have keep: "kept ?e (Some new) ms" for ms
  proof (cases ms)
    case (Cons n ks)
    have "mget (hostKids ?e) n = None" by (simp add: hostKids_def)
    then show ?thesis using Cons kept_None(1) by (simp add: pruned_def)
  qed simp
  obtain o1 n1 where w: "walk io d newDir ''/'' ?e (Some new) (newRootFileInfo, newRootFileInfo) = Inr (o1, n1)"
    "filled [] ?e (kept ?e (Some new)) newRootFileInfo o1" "filled [] (Some new) (kept ?e (Some new)) newRootFileInfo n1"
    using walk_fills(1) [OF assms(1) _ _ e assms(3), where path = "''/''" and ns = "[]" and ?dir1.0 = d and ?dir2.0 = newDir
        and roots = "(newRootFileInfo, newRootFileInfo)"] root_ready by (auto simp del: walk.simps)
  note O1 = filled_root [OF w(2) e prefix_closed_kept(1)] and N1 = filled_root [OF w(3) assms(3) prefix_closed_kept(1)]
  have none: "attr_at o1 ms = None" if "ms \<noteq> []" for ms
    using O1(2) [OF that] that by (cases ms) (simp_all add: host_at_def)
  have "entry [] False n1 (Some o1) ms k \<longleftrightarrow> k = ChangeAdd \<and> ms \<noteq> [] \<and> attr_at new ms \<noteq> None" for ms k
  proof (cases "ms = []")
    case True
    then show ?thesis by (simp add: entry_def direct_def below_def)
  next
    case False
    then have "direct [] n1 (Some o1) ms = (if attr_at new ms = None then None else Some ChangeAdd)"
      using none [OF False] N1(2) [OF False] keep by (simp add: direct_def host_at_def split: option.splits)
    then show ?thesis using none [OF False] False by (auto simp: entry_def below_def)
  qed
  moreover have path: "infoPath ms = rooted ms" if "attr_at new ms \<noteq> None" for ms
    using attr_at_plain [OF _ that] assms(3) by (intro infoPath_rooted) (simp add: wf_host_def)
  ultimately have "set (treeChanges [] False n1 (Some o1)) = {Change (infoPath ms) ChangeAdd |ms. ms \<noteq> [] \<and> attr_at new ms \<noteq> None}"
    using set_treeChanges [OF N1(1,3)] by (auto simp: listed_def)
  also have "\<dots> = {Change (rooted ms) ChangeAdd |ms. ms \<noteq> [] \<and> attr_at new ms \<noteq> None}"
    using path by (intro Collect_cong ex_cong1) auto
  finally have "set (Changes n1 (Some o1)) = \<dots>"
    using addChanges_tree(1) [OF N1(1), of "[]"] by (simp add: Changes_def)
  moreover have "distinct (Changes n1 (Some o1))"
    using distinct_treeChanges [OF N1(1,3), of "Some o1"] O1(1) addChanges_tree(1) [OF N1(1), of "[]"]
    by (auto simp: wf_old_def distinct_map Changes_def)
  ultimately show ?thesis
    using w(1) assms(1,2) by (simp add: ChangesDirs_def collectFileInfoForChanges_def calls_ok_def)
qed

end
