(* ===== verification/Host_Files.thy ===== *)
theory Host_Files
  imports Layer_Changes
begin

section \<open>The files of a host\<close>

text \<open>
  What \<^verbatim>\<open>pkg/archive\<close> uses of the operating system.  A file system is a tree of names over a table of
  inodes, so that two names can stand for one file.  Paths are resolved as the kernel does: every symbolic
  link on the way is followed, the last one only where the call follows it, and after forty links the
  call fails.  Creating or removing a name sets the time of the directory to that of the clock.  The
  process is root, its umask is zero (\<^verbatim>\<open>applyLayerHandler\<close> sets it), and no device fails.
\<close>

datatype os_error = ENOENT | ENOTDIR | ELOOP | EEXIST | EISDIR | EBUSY | EPERM | EINVAL

record inode =
  i_mode :: "32 word"
  i_uid :: "32 word"
  i_gid :: "32 word"
  i_rdev :: "64 word"
  i_mtime :: Timespec
  i_xattrs :: "(string, string) gomap"
  i_data :: string

record fsys =
  f_tree :: "nat dtree"
  f_inodes :: "nat \<Rightarrow> inode"
  f_next :: nat
  f_clock :: Timespec
  f_cwd :: "string list"

text \<open>The bits of a mode.\<close>

definition fileType :: "inode \<Rightarrow> 32 word" where
  "fileType i = and (i_mode i) 0xF000"

abbreviation "S_IFREG \<equiv> (0x8000 :: 32 word)"
abbreviation "S_IFLNK \<equiv> (0xA000 :: 32 word)"
abbreviation "S_IFBLK \<equiv> (0x6000 :: 32 word)"
abbreviation "S_IFCHR \<equiv> (0x2000 :: 32 word)"
abbreviation "S_IFIFO \<equiv> (0x1000 :: 32 word)"
abbreviation "S_IFSOCK \<equiv> (0xC000 :: 32 word)"

definition inodeIsDir :: "inode \<Rightarrow> bool" where
  "inodeIsDir i \<longleftrightarrow> fileType i = S_IFDIR"

definition inodeIsLink :: "inode \<Rightarrow> bool" where
  "inodeIsLink i \<longleftrightarrow> fileType i = S_IFLNK"

definition inodeAt :: "fsys \<Rightarrow> string list \<Rightarrow> inode option" where
  "inodeAt fs ms = map_option (f_inodes fs) (attr_at (f_tree fs) ms)"

definition dirHere :: "fsys \<Rightarrow> string list \<Rightarrow> bool" where
  "dirHere fs ms \<longleftrightarrow> (case inodeAt fs ms of None \<Rightarrow> False | Some i \<Rightarrow> inodeIsDir i)"

text \<open>The number of names of the file at a path.\<close>

fun nodeCount :: "nat \<Rightarrow> nat dtree \<Rightarrow> nat" where
  "nodeCount ino (Node i us) = (if i = ino then 1 else 0) + sum_list (map (\<lambda>x. nodeCount ino (snd x)) us)"

definition nlinkAt :: "fsys \<Rightarrow> string list \<Rightarrow> nat" where
  "nlinkAt fs ms = (case attr_at (f_tree fs) ms of None \<Rightarrow> 0 | Some ino \<Rightarrow> nodeCount ino (f_tree fs))"

subsection \<open>Resolution of paths\<close>

function namei :: "nat \<Rightarrow> fsys \<Rightarrow> bool \<Rightarrow> string list \<Rightarrow> string list \<Rightarrow> (os_error, string list) result" where
  "namei links fs follow cur [] = Inr cur"
| "namei links fs follow cur (c # cs) =
     (if \<not> dirHere fs cur then Inl ENOTDIR
      else if c = [] \<or> c = ''.'' then namei links fs follow cur cs
      else if c = ''..'' then namei links fs follow (butlast cur) cs
      else case inodeAt fs (cur @ [c]) of
          None \<Rightarrow> if cs = [] then Inr (cur @ [c]) else Inl ENOENT
        | Some i \<Rightarrow>
            if inodeIsLink i \<and> (cs \<noteq> [] \<or> follow) then
              (case links of
                 0 \<Rightarrow> Inl ELOOP
               | Suc l \<Rightarrow> namei l fs follow (if IsAbs (i_data i) then [] else cur) (split CHR ''/'' (i_data i) @ cs))
            else namei links fs follow (cur @ [c]) cs)"
  by pat_completeness auto
termination
  by (relation "measures [\<lambda>(links, fs, follow, cur, cs). links, \<lambda>(links, fs, follow, cur, cs). length cs]") auto

definition locate :: "fsys \<Rightarrow> bool \<Rightarrow> string \<Rightarrow> (os_error, string list) result" where
  "locate fs follow p = namei 40 fs follow [] ((if IsAbs p then [] else f_cwd fs) @ split CHR ''/'' p)"

definition osStatWith :: "bool \<Rightarrow> fsys \<Rightarrow> string \<Rightarrow> (os_error, inode) result" where
  "osStatWith follow fs p =
     (case locate fs follow p of
        Inl e \<Rightarrow> Inl e
      | Inr ms \<Rightarrow> (case inodeAt fs ms of None \<Rightarrow> Inl ENOENT | Some i \<Rightarrow> Inr i))"

abbreviation "osLstat \<equiv> osStatWith False"
abbreviation "osStat \<equiv> osStatWith True"

subsection \<open>Changes of the file system\<close>

type_synonym fs_step = "fsys \<times> os_error option"

definition changeInode :: "fsys \<Rightarrow> string list \<Rightarrow> (inode \<Rightarrow> inode) \<Rightarrow> fsys" where
  "changeInode fs ms f =
     (case attr_at (f_tree fs) ms of
        None \<Rightarrow> fs
      | Some ino \<Rightarrow> fs\<lparr>f_inodes := (f_inodes fs)(ino := f (f_inodes fs ino))\<rparr>)"

definition touchDir :: "fsys \<Rightarrow> string list \<Rightarrow> fsys" where
  "touchDir fs ms = changeInode fs (butlast ms) (\<lambda>i. i\<lparr>i_mtime := f_clock fs\<rparr>)"

definition addNode :: "fsys \<Rightarrow> string list \<Rightarrow> inode \<Rightarrow> fsys" where
  "addNode fs ms i =
     touchDir (fs\<lparr>f_tree := put_tree ms (Node (f_next fs) []) (f_tree fs),
                  f_inodes := (f_inodes fs)(f_next fs := i), f_next := Suc (f_next fs)\<rparr>) ms"

definition createNode :: "fsys \<Rightarrow> string \<Rightarrow> inode \<Rightarrow> fs_step" where
  "createNode fs p i =
     (case locate fs False p of
        Inl e \<Rightarrow> (fs, Some e)
      | Inr ms \<Rightarrow> if inodeAt fs ms \<noteq> None then (fs, Some EEXIST) else (addNode fs ms i, None))"

definition newInode :: "fsys \<Rightarrow> 32 word \<Rightarrow> 64 word \<Rightarrow> string \<Rightarrow> inode" where
  "newInode fs m dev d = \<lparr>i_mode = m, i_uid = 0, i_gid = 0, i_rdev = dev, i_mtime = f_clock fs, i_xattrs = [], i_data = d\<rparr>"

definition osMkdir :: "fsys \<Rightarrow> string \<Rightarrow> 32 word \<Rightarrow> fs_step" where
  "osMkdir fs p perm = createNode fs p (newInode fs (or S_IFDIR perm) 0 [])"

definition osMknod :: "fsys \<Rightarrow> string \<Rightarrow> 32 word \<Rightarrow> 64 word \<Rightarrow> fs_step" where
  "osMknod fs p m dev = createNode fs p (newInode fs m dev [])"

definition osSymlink :: "fsys \<Rightarrow> string \<Rightarrow> string \<Rightarrow> fs_step" where
  "osSymlink fs target p = createNode fs p (newInode fs 0xA1FF 0 target)"

text \<open>\<^verbatim>\<open>link(2)\<close> follows the last component of neither path.\<close>

definition osLink :: "fsys \<Rightarrow> string \<Rightarrow> string \<Rightarrow> fs_step" where
  "osLink fs target p =
     (case locate fs False target of
        Inl e \<Rightarrow> (fs, Some e)
      | Inr ts \<Rightarrow>
          (case attr_at (f_tree fs) ts of
             None \<Rightarrow> (fs, Some ENOENT)
           | Some ino \<Rightarrow>
               if inodeIsDir (f_inodes fs ino) then (fs, Some EPERM)
               else case locate fs False p of
                   Inl e \<Rightarrow> (fs, Some e)
                 | Inr ms \<Rightarrow>
                     if inodeAt fs ms \<noteq> None then (fs, Some EEXIST)
                     else (touchDir (fs\<lparr>f_tree := put_tree ms (Node ino []) (f_tree fs)\<rparr>) ms, None)))"

text \<open>\<^verbatim>\<open>os.OpenFile(path, O_CREATE|O_WRONLY, perm)\<close> and a copy of the body: nothing is truncated.\<close>

definition osWriteFile :: "fsys \<Rightarrow> string \<Rightarrow> 32 word \<Rightarrow> string \<Rightarrow> fs_step" where
  "osWriteFile fs p perm body =
     (case locate fs True p of
        Inl e \<Rightarrow> (fs, Some e)
      | Inr ms \<Rightarrow>
          (case inodeAt fs ms of
             None \<Rightarrow> (addNode fs ms (newInode fs (or S_IFREG perm) 0 body), None)
           | Some i \<Rightarrow>
               if inodeIsDir i then (fs, Some EISDIR)
               else (changeInode fs ms (\<lambda>i. i\<lparr>i_data := body @ drop (length body) (i_data i), i_mtime := f_clock fs\<rparr>), None)))"

text \<open>Calls that change the inode a path leads to.\<close>

definition onInode :: "bool \<Rightarrow> fsys \<Rightarrow> string \<Rightarrow> (inode \<Rightarrow> inode) \<Rightarrow> fs_step" where
  "onInode follow fs p f =
     (case locate fs follow p of
        Inl e \<Rightarrow> (fs, Some e)
      | Inr ms \<Rightarrow> if inodeAt fs ms = None then (fs, Some ENOENT) else (changeInode fs ms f, None))"

text \<open>A change of the owner takes the set-id bits and the capabilities from what is not a directory.\<close>

definition osLchown :: "fsys \<Rightarrow> string \<Rightarrow> int \<Rightarrow> int \<Rightarrow> fs_step" where
  "osLchown fs p uid gid = onInode False fs p (\<lambda>i.
     if inodeIsDir i then i\<lparr>i_uid := word_of_int uid, i_gid := word_of_int gid\<rparr>
     else i\<lparr>i_uid := word_of_int uid, i_gid := word_of_int gid,
            i_mode := (if inodeIsLink i then i_mode i else and (i_mode i) 0xF3FF),
            i_xattrs := mdel ''security.capability'' (i_xattrs i)\<rparr>)"

definition osLsetxattr :: "fsys \<Rightarrow> string \<Rightarrow> string \<Rightarrow> string \<Rightarrow> fs_step" where
  "osLsetxattr fs p key val = onInode False fs p (\<lambda>i. i\<lparr>i_xattrs := mput key val (i_xattrs i)\<rparr>)"

definition osChmod :: "fsys \<Rightarrow> string \<Rightarrow> 32 word \<Rightarrow> fs_step" where
  "osChmod fs p perm = onInode True fs p (\<lambda>i. i\<lparr>i_mode := or (fileType i) (and perm 0xFFF)\<rparr>)"

definition osChtimes :: "bool \<Rightarrow> fsys \<Rightarrow> string \<Rightarrow> Timespec \<Rightarrow> fs_step" where
  "osChtimes follow fs p t = onInode follow fs p (\<lambda>i. i\<lparr>i_mtime := t\<rparr>)"

text \<open>\<^verbatim>\<open>os.RemoveAll\<close>: what is not there is no error; the root itself cannot go.\<close>

definition osRemoveAll :: "fsys \<Rightarrow> string \<Rightarrow> fs_step" where
  "osRemoveAll fs p =
     (case locate fs False p of
        Inl e \<Rightarrow> (fs, if e = ENOENT \<or> e = ENOTDIR then None else Some e)
      | Inr ms \<Rightarrow>
          if ms = [] then (fs\<lparr>f_tree := Node (attr (f_tree fs)) []\<rparr>, Some EBUSY)
          else if inodeAt fs ms = None then (fs, None)
          else (touchDir (fs\<lparr>f_tree := del_tree ms (f_tree fs)\<rparr>) ms, None))"

text \<open>\<^verbatim>\<open>os.MkdirAll\<close> on a cleaned absolute path, given by its components from the last to the first.\<close>

fun mkdirAll :: "fsys \<Rightarrow> 32 word \<Rightarrow> string list \<Rightarrow> fs_step" where
  "mkdirAll fs perm [] = (fs, None)"
| "mkdirAll fs perm (n # rs) =
     (let p = rooted (rev (n # rs)) in
      case osStat fs p of
        Inr i \<Rightarrow> (fs, if inodeIsDir i then None else Some ENOTDIR)
      | Inl _ \<Rightarrow>
          (case mkdirAll fs perm rs of
             (fs1, Some e) \<Rightarrow> (fs1, Some e)
           | (fs1, None) \<Rightarrow>
               (case osMkdir fs1 p perm of
                  (fs2, None) \<Rightarrow> (fs2, None)
                | (fs2, Some e) \<Rightarrow>
                    (fs2, case osLstat fs2 p of Inr i \<Rightarrow> if inodeIsDir i then None else Some e | Inl _ \<Rightarrow> Some e))))"

definition osMkdirAll :: "fsys \<Rightarrow> string \<Rightarrow> 32 word \<Rightarrow> fs_step" where
  "osMkdirAll fs p perm = mkdirAll fs perm (rev (pathParts p))"

end
