(* ===== verification/Host_Lemmas.thy ===== *)
theory Host_Lemmas
  imports Host_Files
begin

section \<open>What the calls of the operating system do\<close>

text \<open>
  A file system is \<open>good\<close> when only directories have entries and no file has two names.  The lemmas give
  the effect of a call at every path, up to the times of directories (\<open>view\<close>), for paths that lead
  through directories only.
\<close>

definition good :: "fsys \<Rightarrow> bool" where
  "good fs \<longleftrightarrow> wf_tree (f_tree fs) \<and> dirHere fs []
     \<and> (\<forall>ms n. inodeAt fs (ms @ [n]) \<noteq> None \<longrightarrow> dirHere fs ms)
     \<and> (\<forall>ms ms' i. attr_at (f_tree fs) ms = Some i \<longrightarrow> attr_at (f_tree fs) ms' = Some i \<longrightarrow> ms = ms')
     \<and> (\<forall>ms i. attr_at (f_tree fs) ms = Some i \<longrightarrow> i < f_next fs)"

lemma goodD:
  assumes "good fs"
  shows "wf_tree (f_tree fs)" "dirHere fs []" "inodeAt fs (ms @ [n]) \<noteq> None \<Longrightarrow> dirHere fs ms"
    "attr_at (f_tree fs) ms = Some i \<Longrightarrow> attr_at (f_tree fs) ms' = Some i \<Longrightarrow> ms = ms'"
    "attr_at (f_tree fs) ms = Some i \<Longrightarrow> i < f_next fs"
  using assms unfolding good_def by metis+

subsection \<open>A check for good file systems\<close>

fun inos :: "nat dtree \<Rightarrow> nat list" where
  "inos (Node i us) = i # concat (map (\<lambda>x. inos (snd x)) us)"

fun tree_dirs :: "(nat \<Rightarrow> inode) \<Rightarrow> nat dtree \<Rightarrow> bool" where
  "tree_dirs f (Node i us) \<longleftrightarrow> (us = [] \<or> inodeIsDir (f i)) \<and> (\<forall>x \<in> set us. tree_dirs f (snd x))"

definition fs_ok :: "fsys \<Rightarrow> bool" where
  "fs_ok fs \<longleftrightarrow> wf_tree (f_tree fs) \<and> inodeIsDir (f_inodes fs (attr (f_tree fs))) \<and> tree_dirs (f_inodes fs) (f_tree fs)
     \<and> distinct (inos (f_tree fs)) \<and> list_all (\<lambda>i. i < f_next fs) (inos (f_tree fs))"

lemma attr_in_inos: "attr_at t ms = Some i \<Longrightarrow> i \<in> set (inos t)"
proof (induction ms arbitrary: t)
  case Nil
  then show ?case by (cases t) auto
next
  case (Cons n ms)
  obtain j us where t: "t = Node j us" by (cases t)
  from Cons.prems obtain u where u: "mget us n = Some u" "attr_at u ms = Some i" by (auto simp: t split: option.splits)
  have "(n, u) \<in> set us" using u(1) by (rule map_of_SomeD)
  with Cons.IH [OF u(2)] show ?case by (force simp: t)
qed

lemma distinct_concat_inos:
  assumes "distinct (concat (map f us))" "x \<in> set us" "y \<in> set us" "x \<noteq> y"
  shows "set (f x) \<inter> set (f y) = {}"
  using assms by (induction us) auto

lemma inos_inj:
  "distinct (inos t) \<Longrightarrow> attr_at t ms = Some i \<Longrightarrow> attr_at t ms' = Some i \<Longrightarrow> ms = ms'"
proof (induction ms arbitrary: t ms')
  case Nil
  obtain j us where t: "t = Node j us" by (cases t)
  show ?case
  proof (cases ms')
    case (Cons n ks)
    then obtain u where u: "mget us n = Some u" "attr_at u ks = Some i" using Nil by (auto simp: t split: option.splits)
    have "i \<in> set (inos u)" "(n, u) \<in> set us" using attr_in_inos [OF u(2)] map_of_SomeD [OF u(1)] by auto
    then show ?thesis using Nil by (force simp: t)
  qed simp
next
  case (Cons n ms)
  obtain j us where t: "t = Node j us" by (cases t)
  obtain u where u: "mget us n = Some u" "attr_at u ms = Some i" using Cons.prems by (auto simp: t split: option.splits)
  have iu: "i \<in> set (inos u)" "(n, u) \<in> set us" using attr_in_inos [OF u(2)] map_of_SomeD [OF u(1)] by auto
  have d: "distinct (concat (map (\<lambda>x. inos (snd x)) us))" "i \<noteq> j" using Cons.prems iu by (force simp: t)+
  obtain m ks where ms': "ms' = m # ks" using Cons.prems(3) d(2) by (cases ms') (auto simp: t)
  obtain v where v: "mget us m = Some v" "attr_at v ks = Some i" using Cons.prems by (auto simp: t ms' split: option.splits)
  have iv: "i \<in> set (inos v)" "(m, v) \<in> set us" using attr_in_inos [OF v(2)] map_of_SomeD [OF v(1)] by auto
  have "(n, u) = (m, v)"
  proof (rule ccontr)
    assume "(n, u) \<noteq> (m, v)"
    from distinct_concat_inos [OF d(1) iu(2) iv(2) this] iu(1) iv(1) show False by auto
  qed
  moreover have "distinct (inos u)" using d(1) iu(2) by (induction us) auto
  ultimately show ?case using Cons.IH [of u ks] u v ms' by simp
qed

lemma tree_dirs_parent:
  "tree_dirs f t \<Longrightarrow> attr_at t (ms @ [n]) \<noteq> None \<Longrightarrow> \<exists>i. attr_at t ms = Some i \<and> inodeIsDir (f i)"
proof (induction ms arbitrary: t)
  case Nil
  then show ?case by (cases t) (auto split: option.splits)
next
  case (Cons m ms)
  obtain j us where t: "t = Node j us" by (cases t)
  obtain u where u: "mget us m = Some u" "attr_at u (ms @ [n]) \<noteq> None" using Cons.prems by (auto simp: t split: option.splits)
  have "tree_dirs f u" using Cons.prems(1) map_of_SomeD [OF u(1)] by (auto simp: t)
  from Cons.IH [OF this u(2)] u(1) show ?case by (simp add: t)
qed

lemma fs_ok_good:
  assumes "fs_ok fs"
  shows "good fs"
  unfolding good_def
proof (intro conjI allI impI)
  show "wf_tree (f_tree fs)" "dirHere fs []" using assms by (simp_all add: fs_ok_def dirHere_def inodeAt_def)
next
  fix ms n assume "inodeAt fs (ms @ [n]) \<noteq> None"
  then have "attr_at (f_tree fs) (ms @ [n]) \<noteq> None" by (simp add: inodeAt_def)
  then show "dirHere fs ms"
    using tree_dirs_parent [of "f_inodes fs" "f_tree fs" ms n] assms by (auto simp: fs_ok_def dirHere_def inodeAt_def)
next
  fix ms ms' i assume "attr_at (f_tree fs) ms = Some i" "attr_at (f_tree fs) ms' = Some i"
  then show "ms = ms'" using assms by (intro inos_inj [of "f_tree fs"]) (simp_all add: fs_ok_def)
next
  fix ms i assume "attr_at (f_tree fs) ms = Some i"
  then show "i < f_next fs" using attr_in_inos assms by (auto simp: fs_ok_def list_all_iff)
qed

subsection \<open>Resolution\<close>

lemma dirHere_exists: "dirHere fs ms \<Longrightarrow> inodeAt fs ms \<noteq> None"
  by (auto simp: dirHere_def split: option.splits)

lemma dir_not_link: "inodeIsDir i \<Longrightarrow> \<not> inodeIsLink i"
  by (simp add: inodeIsDir_def inodeIsLink_def S_IFDIR_def)

definition dirs_to :: "fsys \<Rightarrow> string list \<Rightarrow> bool" where
  "dirs_to fs ms \<longleftrightarrow> (\<forall>q. strict_prefix q ms \<longrightarrow> dirHere fs q)"

definition no_link :: "fsys \<Rightarrow> string list \<Rightarrow> bool" where
  "no_link fs ms \<longleftrightarrow> (case inodeAt fs ms of None \<Rightarrow> True | Some i \<Rightarrow> \<not> inodeIsLink i)"

lemma dirs_toD: "dirs_to fs ms \<Longrightarrow> strict_prefix q ms \<Longrightarrow> dirHere fs q"
  unfolding dirs_to_def by blast

lemma namei_dirs:
  assumes "list_all plain cs" "\<And>q. strict_prefix q cs \<Longrightarrow> dirHere fs (cur @ q)" "follow \<longrightarrow> no_link fs (cur @ cs)"
  shows "namei links fs follow cur cs = Inr (cur @ cs)"
  using assms
proof (induction cs arbitrary: cur)
  case (Cons c cs)
  have c: "c \<noteq> []" "c \<noteq> ''.''" "c \<noteq> ''..''" using Cons.prems(1) by (simp_all add: plain_def)
  have dir: "dirHere fs cur" using Cons.prems(2) [of "[]"] by simp
  have sub: "dirHere fs ((cur @ [c]) @ q)" if "strict_prefix q cs" for q using Cons.prems(2) [of "c # q"] that by simp
  have IH: "namei links fs follow (cur @ [c]) cs = Inr ((cur @ [c]) @ cs)"
    using Cons.prems(1,3) by (intro Cons.IH sub) simp_all
  show ?case
  proof (cases "inodeAt fs (cur @ [c])")
    case None
    have "cs = []" using sub [of "[]"] None dirHere_exists [of fs "cur @ [c]"] by (cases cs) auto
    then show ?thesis using None c dir by simp
  next
    case (Some i)
    have "\<not> (inodeIsLink i \<and> (cs \<noteq> [] \<or> follow))"
    proof (cases "cs = []")
      case True
      then show ?thesis using Cons.prems(3) Some by (auto simp: no_link_def)
    next
      case False
      then have "dirHere fs (cur @ [c])" using sub [of "[]"] by (cases cs) auto
      then show ?thesis using Some dir_not_link by (simp add: dirHere_def)
    qed
    then show ?thesis using Some c dir IH by auto
  qed
qed simp

lemma locate_dirs:
  assumes "good fs" "list_all plain ms" "dirs_to fs ms" "follow \<longrightarrow> no_link fs ms"
  shows "locate fs follow (rooted ms) = Inr ms"
proof -
  have root: "dirHere fs []" by (rule goodD(2) [OF assms(1)])
  have "split CHR ''/'' (rooted ms) = [] # (if ms = [] then [[]] else ms)"
  proof (cases "ms = []")
    case False
    have "\<forall>s \<in> set ms. CHR ''/'' \<notin> set s" using assms(2) by (auto simp: list_all_iff plain_def)
    then show ?thesis using split_join [OF False] False by (simp add: rooted_def)
  qed simp
  then show ?thesis
    using namei_dirs [of ms fs "[]" follow 40] dirs_toD [OF assms(3)] root assms(2,4) by (simp add: locate_def)
qed

lemma lstat_dirs:
  assumes "good fs" "list_all plain ms" "dirs_to fs ms"
  shows "osLstat fs (rooted ms) = (case inodeAt fs ms of None \<Rightarrow> Inl ENOENT | Some i \<Rightarrow> Inr i)"
  using locate_dirs [OF assms, of False] by (simp add: osStatWith_def)

subsection \<open>Files up to the times of directories\<close>

definition norm_inode :: "inode \<Rightarrow> inode" where
  "norm_inode i = (if inodeIsDir i then i\<lparr>i_mtime := \<lparr>ts_Sec = 0, ts_Nsec = 0\<rparr>\<rparr> else i)"

definition view :: "fsys \<Rightarrow> string list \<Rightarrow> inode option" where
  "view fs ms = map_option norm_inode (inodeAt fs ms)"

lemma norm_dir [simp]: "inodeIsDir (norm_inode i) = inodeIsDir i"
  by (simp add: norm_inode_def inodeIsDir_def fileType_def)

lemma norm_link [simp]: "inodeIsLink (norm_inode i) = inodeIsLink i"
  by (simp add: norm_inode_def inodeIsLink_def fileType_def)

lemma norm_mtime: "inodeIsDir i \<Longrightarrow> norm_inode (i\<lparr>i_mtime := t\<rparr>) = norm_inode i"
  by (simp add: norm_inode_def inodeIsDir_def fileType_def)

lemma view_None [simp]: "view fs ms = None \<longleftrightarrow> inodeAt fs ms = None"
  by (simp add: view_def)

lemma dirHere_view: "dirHere fs ms \<longleftrightarrow> (\<exists>i. view fs ms = Some i \<and> inodeIsDir i)"
  by (auto simp: dirHere_def view_def split: option.splits)

lemma no_link_view: "no_link fs ms \<longleftrightarrow> (\<forall>i. view fs ms = Some i \<longrightarrow> \<not> inodeIsLink i)"
  by (auto simp: no_link_def view_def split: option.splits)

lemma inodeAt_change:
  assumes "good fs"
  shows "inodeAt (changeInode fs p f) ms = (if ms = p then map_option f (inodeAt fs p) else inodeAt fs ms)"
proof (cases "attr_at (f_tree fs) p")
  case None
  then show ?thesis by (simp add: changeInode_def inodeAt_def)
next
  case (Some i)
  have "attr_at (f_tree fs) ms \<noteq> Some i" if "ms \<noteq> p" using goodD(4) [OF assms Some] that by blast
  then show ?thesis using Some by (cases "attr_at (f_tree fs) ms") (auto simp: changeInode_def inodeAt_def)
qed

lemma change_keeps [simp]:
  "f_tree (changeInode fs p f) = f_tree fs" "f_next (changeInode fs p f) = f_next fs" "f_clock (changeInode fs p f) = f_clock fs"
  by (simp_all add: changeInode_def split: option.splits)

lemma goodI:
  assumes "wf_tree (f_tree fs)" "dirHere fs []" "\<And>ms n. inodeAt fs (ms @ [n]) \<noteq> None \<Longrightarrow> dirHere fs ms"
    "\<And>ms ms' i. attr_at (f_tree fs) ms = Some i \<Longrightarrow> attr_at (f_tree fs) ms' = Some i \<Longrightarrow> ms = ms'"
    "\<And>ms i. attr_at (f_tree fs) ms = Some i \<Longrightarrow> i < f_next fs"
  shows "good fs"
  using assms unfolding good_def by blast

lemma good_change:
  assumes "good fs" "\<And>i. inodeAt fs p = Some i \<Longrightarrow> inodeIsDir (f i) = inodeIsDir i"
  shows "good (changeInode fs p f)"
proof (rule goodI)
  have dir: "dirHere (changeInode fs p f) ms = dirHere fs ms" for ms
    using assms(2) inodeAt_change [OF assms(1), of p f ms] by (cases "inodeAt fs p") (auto simp: dirHere_def)
  show "dirHere (changeInode fs p f) []" using goodD(2) [OF assms(1)] dir by simp
  fix ms n assume "inodeAt (changeInode fs p f) (ms @ [n]) \<noteq> None"
  then have "inodeAt fs (ms @ [n]) \<noteq> None" using inodeAt_change [OF assms(1), of p f "ms @ [n]"] by (auto split: if_splits)
  then show "dirHere (changeInode fs p f) ms" using goodD(3) [OF assms(1)] dir by simp
qed (use goodD(1,4,5) [OF assms(1)] in auto)

lemma touch_dir:
  assumes "good fs" "dirHere fs (butlast ms)"
  shows "good (touchDir fs ms)" "view (touchDir fs ms) ks = view fs ks"
proof -
  obtain i where i: "inodeAt fs (butlast ms) = Some i" "inodeIsDir i" using assms(2) by (auto simp: dirHere_def split: option.splits)
  have "inodeIsDir (i\<lparr>i_mtime := t\<rparr>) = inodeIsDir i" for t by (simp add: inodeIsDir_def fileType_def)
  then show "good (touchDir fs ms)" unfolding touchDir_def using i by (intro good_change [OF assms(1)]) auto
  show "view (touchDir fs ms) ks = view fs ks"
    using i norm_mtime [OF i(2)] by (simp add: touchDir_def view_def inodeAt_change [OF assms(1)])
qed

text \<open>A new name, and the removal of a subtree.\<close>

lemma nothing_below: "good fs \<Longrightarrow> inodeAt fs ms = None \<Longrightarrow> prefix ms ks \<Longrightarrow> inodeAt fs ks = None"
  by (auto simp: prefix_def inodeAt_def attr_at_def find_append)

lemma add_node:
  assumes "good fs" "ms \<noteq> []" "list_all plain ms" "dirHere fs (butlast ms)" "inodeAt fs ms = None"
  shows "good (addNode fs ms i)" "view (addNode fs ms i) ks = (if ks = ms then Some (norm_inode i) else view fs ks)"
    "inodeAt (addNode fs ms i) ms = Some i"
proof -
  let ?g = "fs\<lparr>f_tree := put_tree ms (Node (f_next fs) []) (f_tree fs), f_inodes := (f_inodes fs)(f_next fs := i), f_next := Suc (f_next fs)\<rparr>"
  have par: "ms = [] \<or> attr_at (f_tree fs) (butlast ms) \<noteq> None"
    using assms(4) by (auto simp: dirHere_def inodeAt_def split: option.splits)
  have none: "prefix ms ks \<Longrightarrow> attr_at (f_tree fs) ks = None" for ks
    using nothing_below [OF assms(1,5)] by (simp add: inodeAt_def)
  have attr: "attr_at (f_tree ?g) ks = (if ks = ms then Some (f_next fs) else attr_at (f_tree fs) ks)" for ks
  proof (cases "prefix ms ks")
    case True
    then obtain zs where "ks = ms @ zs" by (auto simp: prefix_def)
    then show ?thesis using attr_at_put [OF par, of "Node (f_next fs) []" ks] none [OF True] by (cases zs) simp_all
  qed (use attr_at_put [OF par, of "Node (f_next fs) []" ks] in auto)
  have less: "attr_at (f_tree fs) ks \<noteq> Some (f_next fs)" for ks using goodD(5) [OF assms(1), of ks] by blast
  have at: "inodeAt ?g ks = (if ks = ms then Some i else inodeAt fs ks)" for ks
    using less [of ks] attr [of ks] by (cases "attr_at (f_tree fs) ks") (auto simp: inodeAt_def)
  have par_ne: "butlast ms \<noteq> ms" using assms(2) by (metis append_butlast_last_id append_self_conv list.distinct(1))
  have g: "good ?g"
  proof (rule goodI)
    show "wf_tree (f_tree ?g)" using goodD(1) [OF assms(1)] assms(3) by (simp add: wf_put wf_tree.simps)
    show "dirHere ?g []" using goodD(2) [OF assms(1)] assms(2) by (simp add: dirHere_def at)
    show "dirHere ?g ls" if "inodeAt ?g (ls @ [n]) \<noteq> None" for ls n
    proof (cases "ls @ [n] = ms")
      case True
      then show ?thesis using assms(4) by (auto simp: dirHere_def at)
    next
      case False
      then have "dirHere fs ls" using that goodD(3) [OF assms(1)] by (simp add: at)
      then show ?thesis using assms(5) by (auto simp: dirHere_def at)
    qed
    show "ls = ls'" if "attr_at (f_tree ?g) ls = Some j" "attr_at (f_tree ?g) ls' = Some j" for ls ls' j
      using that less goodD(4) [OF assms(1)] unfolding attr by (auto split: if_splits)
    show "j < f_next ?g" if "attr_at (f_tree ?g) ls = Some j" for ls j
      using that goodD(5) [OF assms(1), of ls j] unfolding attr by (auto split: if_splits)
  qed
  have d: "dirHere ?g (butlast ms)" using assms(4) par_ne by (simp add: dirHere_def at)
  show "good (addNode fs ms i)" unfolding addNode_def by (rule touch_dir(1) [OF g d])
  show "view (addNode fs ms i) ks = (if ks = ms then Some (norm_inode i) else view fs ks)"
    unfolding addNode_def touch_dir(2) [OF g d] by (simp add: view_def at)
  show "inodeAt (addNode fs ms i) ms = Some i"
    unfolding addNode_def touchDir_def using par_ne by (simp add: inodeAt_change [OF g] at)
qed

lemma del_node:
  assumes "good fs" "ms \<noteq> []" "dirHere fs (butlast ms)"
  shows "good (touchDir (fs\<lparr>f_tree := del_tree ms (f_tree fs)\<rparr>) ms)"
    "view (touchDir (fs\<lparr>f_tree := del_tree ms (f_tree fs)\<rparr>) ms) ks = (if prefix ms ks then None else view fs ks)"
proof -
  let ?g = "fs\<lparr>f_tree := del_tree ms (f_tree fs)\<rparr>"
  have attr: "attr_at (f_tree ?g) ks = (if prefix ms ks then None else attr_at (f_tree fs) ks)" for ks
    using attr_at_del [of ms "f_tree fs" ks] assms(2) by simp
  then have at: "inodeAt ?g ks = (if prefix ms ks then None else inodeAt fs ks)" for ks by (simp add: inodeAt_def)
  have g: "good ?g"
  proof (rule goodI)
    show "wf_tree (f_tree ?g)" using goodD(1) [OF assms(1)] by (simp add: wf_del)
    show "dirHere ?g []" using goodD(2) [OF assms(1)] assms(2) by (simp add: dirHere_def at)
    show "dirHere ?g ls" if "inodeAt ?g (ls @ [n]) \<noteq> None" for ls n
      using that goodD(3) [OF assms(1), of ls n] by (auto simp: at dirHere_def split: if_splits)
    show "ls = ls'" if "attr_at (f_tree ?g) ls = Some j" "attr_at (f_tree ?g) ls' = Some j" for ls ls' j
      using that goodD(4) [OF assms(1)] unfolding attr by (auto split: if_splits)
    show "j < f_next ?g" if "attr_at (f_tree ?g) ls = Some j" for ls j
      using that goodD(5) [OF assms(1), of ls j] unfolding attr by (auto split: if_splits)
  qed
  have "\<not> prefix ms (butlast ms)" using assms(2) by (metis append_butlast_last_id prefix_order.less_le_not_le strict_prefixI' not_Cons_self2 prefixI)
  then have d: "dirHere ?g (butlast ms)" using assms(3) by (simp add: dirHere_def at)
  show "good (touchDir ?g ms)" by (rule touch_dir(1) [OF g d])
  show "view (touchDir ?g ms) ks = (if prefix ms ks then None else view fs ks)"
    unfolding touch_dir(2) [OF g d] by (simp add: view_def at)
qed

subsection \<open>Calls on a path through directories\<close>

definition at_path :: "fsys \<Rightarrow> string list \<Rightarrow> inode \<Rightarrow> bool" where
  "at_path fs p i \<longleftrightarrow> good fs \<and> list_all plain p \<and> dirs_to fs p \<and> inodeAt fs p = Some i"

definition free_path :: "fsys \<Rightarrow> string list \<Rightarrow> bool" where
  "free_path fs p \<longleftrightarrow> good fs \<and> list_all plain p \<and> dirs_to fs p \<and> p \<noteq> [] \<and> inodeAt fs p = None"

definition elsewhere :: "fsys \<Rightarrow> fsys \<Rightarrow> string list \<Rightarrow> bool" where
  "elsewhere fs fs' p \<longleftrightarrow> (\<forall>ks. ks \<noteq> p \<longrightarrow> view fs' ks = view fs ks)"

lemma elsewhere_refl: "elsewhere fs fs p"
  by (simp add: elsewhere_def)

lemma elsewhere_trans: "elsewhere fs gs p \<Longrightarrow> elsewhere gs hs p \<Longrightarrow> elsewhere fs hs p"
  by (simp add: elsewhere_def)

lemma dirs_to_elsewhere: "elsewhere fs fs' p \<Longrightarrow> dirs_to fs p \<Longrightarrow> dirs_to fs' p"
  unfolding dirs_to_def elsewhere_def dirHere_view by (metis prefix_order.less_irrefl)

lemma dirs_to_parent: "dirs_to fs p \<Longrightarrow> p \<noteq> [] \<Longrightarrow> dirHere fs (butlast p)"
  using strict_prefixI' [of p "butlast p" "last p" "[]"] by (simp add: dirs_toD)

lemma on_inode:
  assumes "at_path fs p i" "follow \<longrightarrow> \<not> inodeIsLink i" "inodeIsDir (f i) = inodeIsDir i"
  shows "\<exists>fs'. onInode follow fs (rooted p) f = (fs', None) \<and> at_path fs' p (f i) \<and> elsewhere fs fs' p"
proof (intro exI conjI)
  have a: "good fs" "list_all plain p" "dirs_to fs p" "inodeAt fs p = Some i" using assms(1) by (simp_all add: at_path_def)
  have "locate fs follow (rooted p) = Inr p" using assms(2) a(4) by (intro locate_dirs [OF a(1-3)]) (simp add: no_link_def)
  then show "onInode follow fs (rooted p) f = (changeInode fs p f, None)" using a(4) by (simp add: onInode_def)
  show e: "elsewhere fs (changeInode fs p f) p" by (simp add: elsewhere_def view_def inodeAt_change [OF a(1)])
  show "at_path (changeInode fs p f) p (f i)"
    using a assms(3) good_change [OF a(1), of p f] dirs_to_elsewhere [OF e a(3)] by (simp add: at_path_def inodeAt_change [OF a(1)])
qed

lemma new_node:
  assumes "free_path fs p"
  shows "at_path (addNode fs p i) p i" "elsewhere fs (addNode fs p i) p"
proof -
  have a: "good fs" "list_all plain p" "dirs_to fs p" "p \<noteq> []" "inodeAt fs p = None" using assms by (simp_all add: free_path_def)
  note n = add_node [OF a(1,4,2) dirs_to_parent [OF a(3,4)] a(5)]
  show e: "elsewhere fs (addNode fs p i) p" by (simp add: elsewhere_def n(2))
  show "at_path (addNode fs p i) p i" using n(1,3) a(2) dirs_to_elsewhere [OF e a(3)] by (simp add: at_path_def)
qed

lemma free_locate: "free_path fs p \<Longrightarrow> locate fs follow (rooted p) = Inr p"
  unfolding free_path_def by (rule locate_dirs) (simp_all add: no_link_def)

lemma create_node: "free_path fs p \<Longrightarrow> createNode fs (rooted p) i = (addNode fs p i, None)"
  using free_locate [of fs p False] by (simp add: createNode_def free_path_def)

lemma write_file: "free_path fs p \<Longrightarrow> osWriteFile fs (rooted p) perm body = (addNode fs p (newInode fs (or S_IFREG perm) 0 body), None)"
  using free_locate [of fs p True] by (simp add: osWriteFile_def free_path_def)

lemma remove_all:
  assumes "good fs" "list_all plain p" "dirs_to fs p" "p \<noteq> []"
  shows "\<exists>fs'. osRemoveAll fs (rooted p) = (fs', None) \<and> good fs' \<and> (\<forall>ks. view fs' ks = (if prefix p ks then None else view fs ks))"
proof (cases "inodeAt fs p")
  case None
  then show ?thesis
    using locate_dirs [OF assms(1-3), of False] nothing_below [OF assms(1) None] assms(1,4) by (auto simp: osRemoveAll_def)
next
  case (Some i)
  then show ?thesis
    using locate_dirs [OF assms(1-3), of False] del_node [OF assms(1,4) dirs_to_parent [OF assms(3,4)]] assms(4)
    by (auto simp: osRemoveAll_def)
qed

text \<open>Below a file that is no directory there is nothing to remove.\<close>

lemma remove_below_file:
  assumes "good fs" "list_all plain q" "dirs_to fs q" "inodeAt fs q = Some i" "\<not> inodeIsDir i" "\<not> inodeIsLink i" "plain n"
  shows "osRemoveAll fs (rooted (q @ [n])) = (fs, None)" "inodeAt fs (q @ n # ks) = None"
proof -
  have root: "dirHere fs []" by (rule goodD(2) [OF assms(1)])
  have nd: "\<not> dirHere fs q" using assms(4,5) by (simp add: dirHere_def)
  have "\<forall>s \<in> set (q @ [n]). CHR ''/'' \<notin> set s" using assms(2,7) by (auto simp: list_all_iff plain_def)
  from split_join [OF _ this] have split: "split CHR ''/'' (rooted (q @ [n])) = [] # q @ [n]" by (simp add: rooted_def)
  have "namei 40 fs False cur (cs @ [n]) = Inl ENOTDIR"
    if "list_all plain cs" "\<And>q'. strict_prefix q' cs \<Longrightarrow> dirHere fs (cur @ q')" "cur @ cs = q" for cur cs
    using that
  proof (induction cs arbitrary: cur)
    case Nil
    then show ?case using nd by simp
  next
    case (Cons c cs)
    have c: "c \<noteq> []" "c \<noteq> ''.''" "c \<noteq> ''..''" using Cons.prems(1) by (simp_all add: plain_def)
    have dir: "dirHere fs cur" using Cons.prems(2) [of "[]"] by simp
    have sub: "dirHere fs ((cur @ [c]) @ q')" if "strict_prefix q' cs" for q' using Cons.prems(2) [of "c # q'"] that by simp
    obtain j where j: "inodeAt fs (cur @ [c]) = Some j" "\<not> inodeIsLink j"
    proof (cases "cs = []")
      case True
      then show ?thesis using that [of i] assms(4,6) Cons.prems(3) by simp
    next
      case False
      then have "dirHere fs (cur @ [c])" using sub [of "[]"] by (cases cs) auto
      then show ?thesis using that dir_not_link by (auto simp: dirHere_def split: option.splits)
    qed
    have "namei 40 fs False (cur @ [c]) (cs @ [n]) = Inl ENOTDIR" using Cons.prems(1,3) by (intro Cons.IH sub) simp_all
    then show ?case using c dir j by simp
  qed
  from this [of q "[]"] have "locate fs False (rooted (q @ [n])) = Inl ENOTDIR"
    using assms(2) dirs_toD [OF assms(3)] split root by (simp add: locate_def)
  then show "osRemoveAll fs (rooted (q @ [n])) = (fs, None)" by (simp add: osRemoveAll_def)
  have "inodeAt fs (q @ [n]) = None" using goodD(3) [OF assms(1), of q n] nd by blast
  then show "inodeAt fs (q @ n # ks) = None" using nothing_below [OF assms(1), of "q @ [n]" "q @ n # ks"] by simp
qed

end
