(* ===== verification/Tar_Files.thy ===== *)
theory Tar_Files
  imports Host_Files Id_Maps "HOL-Library.List_Lexorder" "HOL-Library.Char_ord"
begin

section \<open>Archives of layers\<close>

text \<open>
  The diff of a layer as a tar archive: \<^verbatim>\<open>ExportChanges\<close> and \<^verbatim>\<open>addTarFile\<close> write it, \<^verbatim>\<open>UnpackLayer\<close> and
  \<^verbatim>\<open>createTarFile\<close> apply it (\<^verbatim>\<open>pkg/archive\<close>: \<^verbatim>\<open>changes.go\<close>, \<^verbatim>\<open>archive.go\<close>, \<^verbatim>\<open>archive_unix.go\<close>,
  \<^verbatim>\<open>diff.go\<close>).  A deleted file is an entry whose name has the prefix \<^verbatim>\<open>.wh.\<close>.  The stream is the list of
  its entries, as the reader of \<^verbatim>\<open>archive/tar\<close> returns them: the writer keeps the seconds of a time only,
  and no access times, so that \<^verbatim>\<open>createTarFile\<close> takes the time of modification for both.
\<close>

datatype typeflag = TypeReg | TypeRegA | TypeLink | TypeSymlink | TypeChar | TypeBlock | TypeDir | TypeFifo
  | TypeXGlobalHeader | TypeOther nat

record header =
  h_Name :: string
  h_Mode :: "64 word"
  h_Uid :: int
  h_Gid :: int
  h_Size :: int
  h_ModTime :: Timespec
  h_Typeflag :: typeflag
  h_Linkname :: string
  h_Devmajor :: "64 word"
  h_Devminor :: "64 word"
  h_Xattrs :: "(string, string) gomap"

type_synonym tar_entry = "header \<times> string"

definition WhiteoutPrefix :: string where
  "WhiteoutPrefix = ''.wh.''"

definition WhiteoutMetaPrefix :: string where
  "WhiteoutMetaPrefix = WhiteoutPrefix @ WhiteoutPrefix"

definition WhiteoutLinkDir :: string where
  "WhiteoutLinkDir = WhiteoutMetaPrefix @ ''plnk''"

definition WhiteoutOpaqueDir :: string where
  "WhiteoutOpaqueDir = WhiteoutMetaPrefix @ ''.opq''"

subsection \<open>Devices\<close>

definition major :: "64 word \<Rightarrow> 64 word" where
  "major device = and (drop_bit 8 device) 0xfff"

definition minor :: "64 word \<Rightarrow> 64 word" where
  "minor device = or (and device 0xff) (and (drop_bit 12 device) 0xfff00)"

definition Mkdev :: "64 word \<Rightarrow> 64 word \<Rightarrow> 32 word" where
  "Mkdev maj mnr = ucast (or (or (push_bit 12 (and mnr 0xfff00)) (push_bit 8 (and maj 0xfff))) (and mnr 0xff))"

subsection \<open>Writing\<close>

datatype tar_error = TarOs os_error | UnknownMode | TarId id_error

text \<open>\<^verbatim>\<open>tar.FileInfoHeader\<close>.  A socket gets no type, which reads as that of an old regular file.\<close>

definition typeOf :: "inode \<Rightarrow> typeflag option" where
  "typeOf i =
     (if fileType i = S_IFREG then Some TypeReg
      else if fileType i = S_IFDIR then Some TypeDir
      else if fileType i = S_IFLNK then Some TypeSymlink
      else if fileType i = S_IFCHR then Some TypeChar
      else if fileType i = S_IFBLK then Some TypeBlock
      else if fileType i = S_IFIFO then Some TypeFifo
      else if fileType i = S_IFSOCK then Some TypeRegA
      else None)"

definition FileInfoHeader :: "inode \<Rightarrow> string \<Rightarrow> header option" where
  "FileInfoHeader i link =
     (case typeOf i of
        None \<Rightarrow> None
      | Some t \<Rightarrow> Some
          \<lparr>h_Name = [], h_Mode = ucast (i_mode i), h_Uid = uint (i_uid i), h_Gid = uint (i_gid i),
           h_Size = (if t = TypeReg then int (length (i_data i)) else 0), h_ModTime = i_mtime i, h_Typeflag = t,
           h_Linkname = (if t = TypeSymlink then link else []), h_Devmajor = 0, h_Devminor = 0, h_Xattrs = []\<rparr>)"

definition setHeaderForSpecialDevice :: "header \<Rightarrow> inode \<Rightarrow> header" where
  "setHeaderForSpecialDevice hdr i =
     (if and (i_mode i) S_IFBLK \<noteq> 0 \<or> and (i_mode i) S_IFCHR \<noteq> 0
      then hdr\<lparr>h_Devmajor := major (i_rdev i), h_Devminor := minor (i_rdev i)\<rparr> else hdr)"

definition canonicalTarName :: "string \<Rightarrow> bool \<Rightarrow> string" where
  "canonicalTarName name isDir' = (if isDir' \<and> \<not> has_suffix name ''/'' then name @ ''/'' else name)"

text \<open>What the writer keeps of a header.\<close>

definition onWire :: "header \<Rightarrow> header" where
  "onWire hdr = hdr\<lparr>h_ModTime := \<lparr>ts_Sec = ts_Sec (h_ModTime hdr), ts_Nsec = 0\<rparr>\<rparr>"

definition inoAt :: "fsys \<Rightarrow> string \<Rightarrow> nat" where
  "inoAt fs p = (case locate fs False p of Inl _ \<Rightarrow> 0 | Inr ms \<Rightarrow> (case attr_at (f_tree fs) ms of None \<Rightarrow> 0 | Some n \<Rightarrow> n))"

definition hasHardlinks :: "fsys \<Rightarrow> string \<Rightarrow> bool" where
  "hasHardlinks fs p \<longleftrightarrow> (case locate fs False p of Inl _ \<Rightarrow> False | Inr ms \<Rightarrow> nlinkAt fs ms > 1)"

type_synonym id_maps = "IDMap list option \<times> IDMap list option"

definition seeLink :: "fsys \<Rightarrow> string \<Rightarrow> inode \<Rightarrow> header \<Rightarrow> (nat, string) gomap \<Rightarrow> header \<times> (nat, string) gomap" where
  "seeLink fs path i hdr seen =
     (if \<not> inodeIsDir i \<and> hasHardlinks fs path then
        (case mget seen (inoAt fs path) of
           Some oldpath \<Rightarrow> (hdr\<lparr>h_Typeflag := TypeLink, h_Linkname := oldpath, h_Size := 0\<rparr>, seen)
         | None \<Rightarrow> (hdr, mput (inoAt fs path) (h_Name hdr) seen))
      else (hdr, seen))"

definition toContainerHeader :: "id_maps \<Rightarrow> inode \<Rightarrow> header \<Rightarrow> (tar_error, header) result" where
  "toContainerHeader maps i hdr =
     (if \<not> has_prefix (BasePath (h_Name hdr)) WhiteoutPrefix \<and> (fst maps \<noteq> None \<or> snd maps \<noteq> None) then
        (case ToContainer (uint (i_uid i)) (fst maps) of
           Inl e \<Rightarrow> Inl (TarId e)
         | Inr xUID \<Rightarrow>
             (case ToContainer (uint (i_gid i)) (snd maps) of
                Inl e \<Rightarrow> Inl (TarId e)
              | Inr xGID \<Rightarrow> Inr (hdr\<lparr>h_Uid := xUID, h_Gid := xGID\<rparr>)))
      else Inr hdr)"

definition addTarFile :: "fsys \<Rightarrow> id_maps \<Rightarrow> (nat, string) gomap \<Rightarrow> string \<Rightarrow> string
    \<Rightarrow> (nat, string) gomap \<times> (tar_error, tar_entry) result" where
  "addTarFile fs maps seen path name =
     (case osLstat fs path of
        Inl e \<Rightarrow> (seen, Inl (TarOs e))
      | Inr i \<Rightarrow>
          (case FileInfoHeader i (if inodeIsLink i then i_data i else []) of
             None \<Rightarrow> (seen, Inl UnknownMode)
           | Some hdr0 \<Rightarrow>
               let hdr1 = setHeaderForSpecialDevice (hdr0\<lparr>h_Name := canonicalTarName name (inodeIsDir i)\<rparr>) i;
                   (hdr2, seen1) = seeLink fs path i hdr1 seen;
                   hdr3 = (case mget (i_xattrs i) ''security.capability'' of
                             None \<Rightarrow> hdr2
                           | Some c \<Rightarrow> hdr2\<lparr>h_Xattrs := [(''security.capability'', c)]\<rparr>)
               in (seen1,
                   case toContainerHeader maps i hdr3 of
                     Inl e \<Rightarrow> Inl e
                   | Inr hdr \<Rightarrow> Inr (onWire hdr, if h_Typeflag hdr = TypeReg then i_data i else []))))"

definition whiteoutEntry :: "fsys \<Rightarrow> string \<Rightarrow> tar_entry" where
  "whiteoutEntry fs path =
     (let whiteOut = JoinPath [DirPath path, WhiteoutPrefix @ BasePath path] in
      (onWire \<lparr>h_Name = tl whiteOut, h_Mode = 0, h_Uid = 0, h_Gid = 0, h_Size = 0, h_ModTime = f_clock fs,
               h_Typeflag = TypeRegA, h_Linkname = [], h_Devmajor = 0, h_Devminor = 0, h_Xattrs = []\<rparr>, []))"

fun exportLoop :: "fsys \<Rightarrow> string \<Rightarrow> id_maps \<Rightarrow> (nat, string) gomap \<Rightarrow> Change list \<Rightarrow> tar_entry list" where
  "exportLoop fs dir maps seen [] = []"
| "exportLoop fs dir maps seen (c # cs) =
     (if chKind c = ChangeDelete then whiteoutEntry fs (chPath c) # exportLoop fs dir maps seen cs
      else case addTarFile fs maps seen (JoinPath [dir, chPath c]) (tl (chPath c)) of
          (seen1, Inl _) \<Rightarrow> exportLoop fs dir maps seen1 cs
        | (seen1, Inr e) \<Rightarrow> e # exportLoop fs dir maps seen1 cs)"

definition ExportChanges :: "fsys \<Rightarrow> string \<Rightarrow> Change list \<Rightarrow> id_maps \<Rightarrow> tar_entry list" where
  "ExportChanges fs dir changes maps = exportLoop fs dir maps [] (sort_key chPath changes)"

text \<open>The size of a diff, which the graph drivers report; a file with several names counts once.\<close>

fun sizeLoop :: "fsys \<Rightarrow> string \<Rightarrow> nat list \<Rightarrow> Change list \<Rightarrow> int" where
  "sizeLoop fs newDir sf [] = 0"
| "sizeLoop fs newDir sf (c # cs) =
     (if chKind c = ChangeModify \<or> chKind c = ChangeAdd then
        let path = JoinPath [newDir, chPath c] in
        case osLstat fs path of
          Inl _ \<Rightarrow> sizeLoop fs newDir sf cs
        | Inr i \<Rightarrow>
            if inodeIsDir i then sizeLoop fs newDir sf cs
            else if hasHardlinks fs path then
              (if inoAt fs path \<in> set sf then sizeLoop fs newDir sf cs
               else int (length (i_data i)) + sizeLoop fs newDir (inoAt fs path # sf) cs)
            else int (length (i_data i)) + sizeLoop fs newDir sf cs
      else sizeLoop fs newDir sf cs)"

definition ChangesSize :: "fsys \<Rightarrow> string \<Rightarrow> Change list \<Rightarrow> int" where
  "ChangesSize fs newDir changes = sizeLoop fs newDir [] changes"

end
