(* ===== verification/Layer_Apply.thy ===== *)
theory Layer_Apply
  imports Tar_Files
begin

section \<open>Applying an archive\<close>

text \<open>
  \<^verbatim>\<open>createTarFile\<close>, \<^verbatim>\<open>UnpackLayer\<close> and \<^verbatim>\<open>Unpack\<close>, with every call of the operating system and every
  error.  A failing step leaves the file system as it is at that moment.  The body of an entry is at
  hand when its header is, and \<open>rest\<close> says how the stream ends: regularly, or with an error of the reader.
\<close>

datatype unpack_error = OsFailed os_error | Breakout string | UnhandledType nat | IdFailed id_error
  | InvalidAufsLink | TempFailed string | ReadFailed string | NoRelPath string | NoOverwriteDir string | NoOverwriteFile string

type_synonym ustep = "fsys \<times> unpack_error option"

definition lift_os :: "fs_step \<Rightarrow> ustep" where
  "lift_os s = (fst s, map_option OsFailed (snd s))"

definition andThen :: "ustep \<Rightarrow> (fsys \<Rightarrow> ustep) \<Rightarrow> ustep" where
  "andThen s f = (case s of (fs, None) \<Rightarrow> f fs | (fs, Some e) \<Rightarrow> (fs, Some e))"

definition permOf :: "header \<Rightarrow> 32 word" where
  "permOf hdr = ucast (and (h_Mode hdr) 0xFFF)"

definition handleTarTypeBlockCharFifo :: "header \<Rightarrow> string \<Rightarrow> fsys \<Rightarrow> ustep" where
  "handleTarTypeBlockCharFifo hdr path fs =
     (let t = (case h_Typeflag hdr of TypeBlock \<Rightarrow> S_IFBLK | TypeChar \<Rightarrow> S_IFCHR | TypeFifo \<Rightarrow> S_IFIFO | _ \<Rightarrow> 0) in
      lift_os (osMknod fs path (or (permOf hdr) t) (ucast (Mkdev (h_Devmajor hdr) (h_Devminor hdr)))))"

text \<open>The \<^verbatim>\<open>switch\<close> over the type of the entry.\<close>

definition makeNode :: "string \<Rightarrow> string \<Rightarrow> header \<Rightarrow> string \<Rightarrow> fsys \<Rightarrow> ustep" where
  "makeNode path extractDir hdr body fs =
     (case h_Typeflag hdr of
        TypeDir \<Rightarrow>
          (case osLstat fs path of
             Inr i \<Rightarrow> if inodeIsDir i then (fs, None) else lift_os (osMkdir fs path (permOf hdr))
           | Inl _ \<Rightarrow> lift_os (osMkdir fs path (permOf hdr)))
      | TypeReg \<Rightarrow> lift_os (osWriteFile fs path (permOf hdr) body)
      | TypeRegA \<Rightarrow> lift_os (osWriteFile fs path (permOf hdr) body)
      | TypeBlock \<Rightarrow> handleTarTypeBlockCharFifo hdr path fs
      | TypeChar \<Rightarrow> handleTarTypeBlockCharFifo hdr path fs
      | TypeFifo \<Rightarrow> handleTarTypeBlockCharFifo hdr path fs
      | TypeLink \<Rightarrow>
          (let targetPath = JoinPath [extractDir, h_Linkname hdr] in
           if \<not> has_prefix targetPath extractDir then (fs, Some (Breakout targetPath))
           else lift_os (osLink fs targetPath path))
      | TypeSymlink \<Rightarrow>
          (let targetPath = JoinPath [DirPath path, h_Linkname hdr] in
           if \<not> has_prefix targetPath extractDir then (fs, Some (Breakout path))
           else lift_os (osSymlink fs (h_Linkname hdr) path))
      | TypeXGlobalHeader \<Rightarrow> (fs, None)
      | TypeOther n \<Rightarrow> (fs, Some (UnhandledType n)))"

fun setXattrs :: "string \<Rightarrow> (string, string) gomap \<Rightarrow> fsys \<Rightarrow> ustep" where
  "setXattrs path [] fs = (fs, None)"
| "setXattrs path ((k, v) # xs) fs = andThen (lift_os (osLsetxattr fs path k v)) (setXattrs path xs)"

text \<open>For a hard link, mode and time are set only if \<^verbatim>\<open>hdr.Linkname\<close>, taken relative to the working
  directory, is there and not a symbolic link.\<close>

definition linkIsPlain :: "fsys \<Rightarrow> header \<Rightarrow> bool" where
  "linkIsPlain fs hdr \<longleftrightarrow> (case osLstat fs (h_Linkname hdr) of Inl _ \<Rightarrow> False | Inr i \<Rightarrow> \<not> inodeIsLink i)"

definition handleLChmod :: "header \<Rightarrow> string \<Rightarrow> fsys \<Rightarrow> ustep" where
  "handleLChmod hdr path fs =
     (if h_Typeflag hdr = TypeLink then
        (if linkIsPlain fs hdr then lift_os (osChmod fs path (permOf hdr)) else (fs, None))
      else if h_Typeflag hdr \<noteq> TypeSymlink then lift_os (osChmod fs path (permOf hdr))
      else (fs, None))"

text \<open>\<^verbatim>\<open>system.Chtimes\<close>: times before the epoch or after the last one that fits become the epoch.\<close>

definition maxTime :: Timespec where
  "maxTime = \<lparr>ts_Sec = 9223372036, ts_Nsec = 854775807\<rparr>"

definition timeBefore :: "Timespec \<Rightarrow> Timespec \<Rightarrow> bool" where
  "timeBefore a b \<longleftrightarrow> ts_Sec a < ts_Sec b \<or> ts_Sec a = ts_Sec b \<and> ts_Nsec a < ts_Nsec b"

definition clampTime :: "Timespec \<Rightarrow> Timespec" where
  "clampTime t = (if timeBefore t \<lparr>ts_Sec = 0, ts_Nsec = 0\<rparr> \<or> timeBefore maxTime t then \<lparr>ts_Sec = 0, ts_Nsec = 0\<rparr> else t)"

definition Chtimes :: "string \<Rightarrow> Timespec \<Rightarrow> fsys \<Rightarrow> ustep" where
  "Chtimes path t fs = lift_os (osChtimes True fs path (clampTime t))"

text \<open>The zero time of Go leaves the time of the link alone; \<^verbatim>\<open>UnixNano\<close> is a signed number of 64 bits, and
  the division of \<^verbatim>\<open>syscall.NsecToTimespec\<close> truncates, so that the nanoseconds may be negative, which the
  kernel refuses.\<close>

definition zeroTime :: Timespec where
  "zeroTime = \<lparr>ts_Sec = - 62135596800, ts_Nsec = 0\<rparr>"

definition UnixNano :: "Timespec \<Rightarrow> int" where
  "UnixNano t = sint (word_of_int (ts_Sec t * 1000000000 + ts_Nsec t) :: 64 word)"

definition timeToTimespec :: "Timespec \<Rightarrow> Timespec option" where
  "timeToTimespec t =
     (if t = zeroTime then None
      else let ns = UnixNano t in
        Some \<lparr>ts_Sec = sgn ns * (\<bar>ns\<bar> div 1000000000), ts_Nsec = sgn ns * (\<bar>ns\<bar> mod 1000000000)\<rparr>)"

definition LUtimesNano :: "string \<Rightarrow> Timespec option \<Rightarrow> fsys \<Rightarrow> ustep" where
  "LUtimesNano path ts fs =
     (case ts of
        None \<Rightarrow> lift_os (onInode False fs path (\<lambda>i. i))
      | Some t \<Rightarrow> if ts_Nsec t < 0 then (fs, Some (OsFailed EINVAL)) else lift_os (osChtimes False fs path t))"

definition setTimes :: "header \<Rightarrow> string \<Rightarrow> fsys \<Rightarrow> ustep" where
  "setTimes hdr path fs =
     (if h_Typeflag hdr = TypeLink then (if linkIsPlain fs hdr then Chtimes path (h_ModTime hdr) fs else (fs, None))
      else if h_Typeflag hdr \<noteq> TypeSymlink then Chtimes path (h_ModTime hdr) fs
      else LUtimesNano path (timeToTimespec (h_ModTime hdr)) fs)"

definition createTarFile :: "string \<Rightarrow> string \<Rightarrow> header \<Rightarrow> string \<Rightarrow> bool \<Rightarrow> (int \<times> int) option \<Rightarrow> fsys \<Rightarrow> ustep" where
  "createTarFile path extractDir hdr body Lchown chownOpts fs =
     (if h_Typeflag hdr = TypeXGlobalHeader then (fs, None)
      else
        andThen (andThen (andThen (andThen
          (makeNode path extractDir hdr body fs)
          (\<lambda>fs. if Lchown then
                 (case chownOpts of
                    None \<Rightarrow> lift_os (osLchown fs path (h_Uid hdr) (h_Gid hdr))
                  | Some (uid, gid) \<Rightarrow> lift_os (osLchown fs path uid gid))
               else (fs, None)))
          (setXattrs path (h_Xattrs hdr)))
          (handleLChmod hdr path))
          (setTimes hdr path))"

subsection \<open>The loop of \<^verbatim>\<open>UnpackLayer\<close>\<close>

record ustate =
  u_fs :: fsys
  u_dirs :: "header list"
  u_unpacked :: "string list"
  u_aufs :: "(string, header) gomap"
  u_tmp :: string

type_synonym lstep = "ustate \<times> unpack_error option"

definition onFs :: "ustate \<Rightarrow> ustep \<Rightarrow> lstep" where
  "onFs st s = (st\<lparr>u_fs := fst s\<rparr>, snd s)"

definition thenState :: "lstep \<Rightarrow> (ustate \<Rightarrow> lstep) \<Rightarrow> lstep" where
  "thenState s f = (case s of (st, None) \<Rightarrow> f st | (st, Some e) \<Rightarrow> (st, Some e))"

text \<open>The parent of an entry is made when it is missing, with mode 0600.\<close>

definition ensureParent :: "string \<Rightarrow> 32 word \<Rightarrow> string \<Rightarrow> fsys \<Rightarrow> ustep" where
  "ensureParent dest perm name fs =
     (if has_suffix name ''/'' then (fs, None)
      else
        let parentPath = JoinPath [dest, DirPath name] in
        if osLstat fs parentPath = Inl ENOENT then lift_os (osMkdirAll fs parentPath perm) else (fs, None))"

text \<open>Regular files in \<^verbatim>\<open>.wh..wh.plnk\<close> go to a temporary directory, where hard links find them.\<close>

definition keepAufsLink :: "string \<Rightarrow> string + string \<Rightarrow> header \<Rightarrow> string \<Rightarrow> ustate \<Rightarrow> lstep" where
  "keepAufsLink dest tempDir hdr body st =
     (let basename = BasePath (h_Name hdr);
          st1 = st\<lparr>u_aufs := mput basename hdr (u_aufs st)\<rparr>
      in thenState
           (if u_tmp st1 = [] then
              (case tempDir of
                 Inl e \<Rightarrow> (st1, Some (TempFailed e))
               | Inr d \<Rightarrow> onFs (st1\<lparr>u_tmp := d\<rparr>) (lift_os (osMkdir (u_fs st1) d 0x1C0)))
            else (st1, None))
           (\<lambda>st2. onFs st2 (createTarFile (JoinPath [u_tmp st2, basename]) dest hdr body True None (u_fs st2))))"

text \<open>An opaque directory: what the layer did not unpack itself goes.  The walk looks at the tree as it
  was; what it removed is not entered, and other entries do not depend on it.\<close>

fun opaqueWalk :: "string list \<Rightarrow> string \<Rightarrow> (string \<times> nat dtree) list \<Rightarrow> fsys \<Rightarrow> ustep" where
  "opaqueWalk unpacked path [] fs = (fs, None)"
| "opaqueWalk unpacked path ((n, Node i us) # ks) fs =
     (let p = JoinPath [path, n] in
      andThen
        (if p \<notin> set unpacked then lift_os (osRemoveAll fs p)
         else if inodeIsDir (f_inodes fs i) then opaqueWalk unpacked p us fs
         else (fs, None))
        (opaqueWalk unpacked path ks))"

definition makeOpaque :: "string list \<Rightarrow> string \<Rightarrow> fsys \<Rightarrow> ustep" where
  "makeOpaque unpacked dir fs =
     (case locate fs False dir of
        Inl e \<Rightarrow> (fs, Some (OsFailed e))
      | Inr ms \<Rightarrow>
          (case find_tree (f_tree fs) ms of
             None \<Rightarrow> (fs, Some (OsFailed ENOENT))
           | Some t \<Rightarrow> if inodeIsDir (f_inodes fs (attr t)) then opaqueWalk unpacked dir (kids t) fs else (fs, None)))"

definition applyWhiteout :: "string \<Rightarrow> ustate \<Rightarrow> lstep" where
  "applyWhiteout path st =
     (let dir = DirPath path; base = BasePath path in
      if base = WhiteoutOpaqueDir then onFs st (makeOpaque (u_unpacked st) dir (u_fs st))
      else onFs st (lift_os (osRemoveAll (u_fs st) (JoinPath [dir, drop (length WhiteoutPrefix) base]))))"

text \<open>What is in the way goes, unless directories are merged.\<close>

definition clearPath :: "header \<Rightarrow> string \<Rightarrow> fsys \<Rightarrow> ustep" where
  "clearPath hdr path fs =
     (case osLstat fs path of
        Inl _ \<Rightarrow> (fs, None)
      | Inr i \<Rightarrow> if inodeIsDir i \<and> h_Typeflag hdr = TypeDir then (fs, None) else lift_os (osRemoveAll fs path))"

definition toHostHeader :: "id_maps \<Rightarrow> int \<times> int \<Rightarrow> header \<Rightarrow> (unpack_error, header) result" where
  "toHostHeader maps root hdr =
     (case (if h_Uid hdr \<noteq> fst root then ToHost (h_Uid hdr) (fst maps) else Inr (h_Uid hdr)) of
        Inl e \<Rightarrow> Inl (IdFailed e)
      | Inr xUID \<Rightarrow>
          (case (if h_Gid hdr \<noteq> snd root then ToHost (h_Gid hdr) (snd maps) else Inr (h_Gid hdr)) of
             Inl e \<Rightarrow> Inl (IdFailed e)
           | Inr xGID \<Rightarrow> Inr (hdr\<lparr>h_Uid := xUID, h_Gid := xGID\<rparr>)))"

text \<open>The source of an entry: a hard link into \<^verbatim>\<open>.wh..wh.plnk\<close> takes the header and the data that were
  put aside.  The code maps the owner in that shared header, so the second link finds it mapped.\<close>

definition sourceOf :: "ustate \<Rightarrow> header \<Rightarrow> string \<Rightarrow> (unpack_error, header \<times> string \<times> string option) result" where
  "sourceOf st hdr body =
     (if h_Typeflag hdr = TypeLink \<and> has_prefix (Clean (h_Linkname hdr)) WhiteoutLinkDir then
        (let linkBasename = BasePath (h_Linkname hdr) in
         case mget (u_aufs st) linkBasename of
           None \<Rightarrow> Inl InvalidAufsLink
         | Some srcHdr \<Rightarrow>
             (case osStat (u_fs st) (JoinPath [u_tmp st, linkBasename]) of
                Inl e \<Rightarrow> Inl (OsFailed e)
              | Inr i \<Rightarrow> Inr (srcHdr, i_data i, Some linkBasename)))
      else Inr (hdr, body, None))"

definition placeEntry :: "string \<Rightarrow> id_maps \<Rightarrow> int \<times> int \<Rightarrow> string \<Rightarrow> header \<Rightarrow> string \<Rightarrow> ustate \<Rightarrow> lstep" where
  "placeEntry dest maps root path hdr body st0 =
     thenState (onFs st0 (clearPath hdr path (u_fs st0)))
       (\<lambda>st. case sourceOf st hdr body of
            Inl e \<Rightarrow> (st, Some e)
          | Inr (srcHdr0, srcData, link) \<Rightarrow>
              (case toHostHeader maps root srcHdr0 of
                 Inl e \<Rightarrow> (st, Some e)
               | Inr srcHdr \<Rightarrow>
                   let st1 = (case link of None \<Rightarrow> st | Some b \<Rightarrow> st\<lparr>u_aufs := mput b srcHdr (u_aufs st)\<rparr>)
                   in thenState (onFs st1 (createTarFile path dest srcHdr srcData True None (u_fs st1)))
                        (\<lambda>st2. (st2\<lparr>u_dirs := u_dirs st2 @ (if h_Typeflag hdr = TypeDir then [hdr] else []),
                                    u_unpacked := path # u_unpacked st2\<rparr>, None))))"

definition unpackEntry :: "string \<Rightarrow> string + string \<Rightarrow> id_maps \<Rightarrow> int \<times> int \<Rightarrow> tar_entry \<Rightarrow> ustate \<Rightarrow> lstep" where
  "unpackEntry dest tempDir maps root e st0 =
     (let hdr = (fst e)\<lparr>h_Name := Clean (h_Name (fst e))\<rparr>; name = h_Name hdr in
      thenState (onFs st0 (ensureParent dest 0x180 name (u_fs st0)))
        (\<lambda>st. thenState
          (if has_prefix name WhiteoutLinkDir \<and> h_Typeflag hdr = TypeReg then keepAufsLink dest tempDir hdr (snd e) st else (st, None))
          (\<lambda>st1.
             if has_prefix name WhiteoutMetaPrefix \<and> name \<noteq> WhiteoutOpaqueDir then (st1, None)
             else
               let path = JoinPath [dest, name] in
               case RelPath dest path of
                 None \<Rightarrow> (st1, Some (NoRelPath name))
               | Some rel \<Rightarrow>
                   if has_prefix rel ''../'' then (st1, Some (Breakout name))
                   else if has_prefix (BasePath path) WhiteoutPrefix then applyWhiteout path st1
                   else placeEntry dest maps root path hdr (snd e) st1)))"

fun unpackLoop :: "string \<Rightarrow> string + string \<Rightarrow> id_maps \<Rightarrow> int \<times> int \<Rightarrow> string option \<Rightarrow> tar_entry list \<Rightarrow> ustate \<Rightarrow> lstep" where
  "unpackLoop dest tempDir maps root rest [] st = (st, map_option ReadFailed rest)"
| "unpackLoop dest tempDir maps root rest (e # es) st =
     thenState (unpackEntry dest tempDir maps root e st) (unpackLoop dest tempDir maps root rest es)"

fun setDirTimes :: "string \<Rightarrow> header list \<Rightarrow> fsys \<Rightarrow> ustep" where
  "setDirTimes dest [] fs = (fs, None)"
| "setDirTimes dest (hdr # hdrs) fs = andThen (Chtimes (JoinPath [dest, h_Name hdr]) (h_ModTime hdr) fs) (setDirTimes dest hdrs)"

definition totalSize :: "tar_entry list \<Rightarrow> int" where
  "totalSize es = sum_list (map (\<lambda>e. h_Size (fst e)) es)"

text \<open>The deferred removal of the temporary directory ignores its error.\<close>

definition dropTemp :: "ustate \<Rightarrow> fsys" where
  "dropTemp st = (if u_tmp st = [] then u_fs st else fst (osRemoveAll (u_fs st) (u_tmp st)))"

definition UnpackLayer :: "string \<Rightarrow> string + string \<Rightarrow> id_maps \<Rightarrow> tar_entry list \<Rightarrow> string option \<Rightarrow> fsys
    \<Rightarrow> fsys \<times> (unpack_error, int) result" where
  "UnpackLayer dest tempDir maps es rest fs =
     (case GetRootUIDGID (fst maps) (snd maps) of
        Inl e \<Rightarrow> (fs, Inl (IdFailed e))
      | Inr root \<Rightarrow>
          (case thenState (unpackLoop dest tempDir maps root rest es \<lparr>u_fs = fs, u_dirs = [], u_unpacked = [], u_aufs = [], u_tmp = []\<rparr>)
                  (\<lambda>st. onFs st (setDirTimes dest (u_dirs st) (u_fs st))) of
             (st, Some e) \<Rightarrow> (dropTemp st, Inl e)
           | (st, None) \<Rightarrow> (dropTemp st, Inr (totalSize es))))"

end
