(* ===== verification/Layer_Untar.thy ===== *)
theory Layer_Untar
  imports Layer_Apply
begin

section \<open>Unpacking an archive that is no layer\<close>

text \<open>
  \<^verbatim>\<open>Unpack\<close> of \<^verbatim>\<open>archive.go\<close>, the sibling of \<^verbatim>\<open>UnpackLayer\<close> for contexts and copied files: no whiteouts,
  but patterns of names to leave out, a chosen owner, and a mode in which a directory and another file do
  not replace each other.  The theorems say when the two agree and what the options do.
\<close>

record TarOptions =
  ExcludePatterns :: "string list"
  NoLchown :: bool
  IdMaps :: id_maps
  ChownOpts :: "(int \<times> int) option"
  NoOverwriteDirNonDir :: bool

definition excluded :: "TarOptions \<Rightarrow> string \<Rightarrow> bool" where
  "excluded options name \<longleftrightarrow> list_ex (has_prefix name) (ExcludePatterns options)"

definition untarPlace :: "TarOptions \<Rightarrow> string \<Rightarrow> int \<times> int \<Rightarrow> string \<Rightarrow> header \<Rightarrow> string \<Rightarrow> ustate \<Rightarrow> lstep" where
  "untarPlace options dest root path hdr0 body st =
     (case toHostHeader (IdMaps options) root hdr0 of
        Inl e \<Rightarrow> (st, Some e)
      | Inr hdr \<Rightarrow>
          thenState (onFs st (createTarFile path dest hdr body (\<not> NoLchown options) (ChownOpts options) (u_fs st)))
            (\<lambda>st1. (st1\<lparr>u_dirs := u_dirs st1 @ (if h_Typeflag hdr = TypeDir then [hdr] else [])\<rparr>, None)))"

definition untarOver :: "TarOptions \<Rightarrow> string \<Rightarrow> int \<times> int \<Rightarrow> string \<Rightarrow> header \<Rightarrow> string \<Rightarrow> ustate \<Rightarrow> lstep" where
  "untarOver options dest root path hdr body st =
     (case osLstat (u_fs st) path of
        Inl _ \<Rightarrow> untarPlace options dest root path hdr body st
      | Inr fi \<Rightarrow>
          if NoOverwriteDirNonDir options \<and> inodeIsDir fi \<and> h_Typeflag hdr \<noteq> TypeDir then (st, Some (NoOverwriteDir path))
          else if NoOverwriteDirNonDir options \<and> \<not> inodeIsDir fi \<and> h_Typeflag hdr = TypeDir then (st, Some (NoOverwriteFile path))
          else if inodeIsDir fi \<and> h_Name hdr = ''.'' then (st, None)
          else thenState
                 (onFs st (if inodeIsDir fi \<and> h_Typeflag hdr = TypeDir then (u_fs st, None) else lift_os (osRemoveAll (u_fs st) path)))
                 (untarPlace options dest root path hdr body))"

definition untarEntry :: "TarOptions \<Rightarrow> string \<Rightarrow> int \<times> int \<Rightarrow> tar_entry \<Rightarrow> ustate \<Rightarrow> lstep" where
  "untarEntry options dest root e st0 =
     (let hdr = (fst e)\<lparr>h_Name := Clean (h_Name (fst e))\<rparr>; name = h_Name hdr in
      if excluded options name then (st0, None)
      else thenState (onFs st0 (ensureParent dest 0x1FF name (u_fs st0)))
        (\<lambda>st.
           let path = JoinPath [dest, name] in
           case RelPath dest path of
             None \<Rightarrow> (st, Some (NoRelPath name))
           | Some rel \<Rightarrow>
               if has_prefix rel ''../'' then (st, Some (Breakout name))
               else untarOver options dest root path hdr (snd e) st))"

fun untarLoop :: "TarOptions \<Rightarrow> string \<Rightarrow> int \<times> int \<Rightarrow> string option \<Rightarrow> tar_entry list \<Rightarrow> ustate \<Rightarrow> lstep" where
  "untarLoop options dest root rest [] st = (st, map_option ReadFailed rest)"
| "untarLoop options dest root rest (e # es) st =
     thenState (untarEntry options dest root e st) (untarLoop options dest root rest es)"

definition Unpack :: "TarOptions \<Rightarrow> string \<Rightarrow> tar_entry list \<Rightarrow> string option \<Rightarrow> fsys \<Rightarrow> ustep" where
  "Unpack options dest es rest fs =
     (case GetRootUIDGID (fst (IdMaps options)) (snd (IdMaps options)) of
        Inl e \<Rightarrow> (fs, Some (IdFailed e))
      | Inr root \<Rightarrow>
          (case thenState (untarLoop options dest root rest es \<lparr>u_fs = fs, u_dirs = [], u_unpacked = [], u_aufs = [], u_tmp = []\<rparr>)
                  (\<lambda>st. onFs st (setDirTimes dest (u_dirs st) (u_fs st))) of
             (st, err) \<Rightarrow> (u_fs st, err)))"

text \<open>Entries that are left out might as well not be in the archive.\<close>

lemma untar_excluded:
  "untarLoop options dest root rest es st =
   untarLoop options dest root rest (filter (\<lambda>e. \<not> excluded options (Clean (h_Name (fst e)))) es) st"
proof (induction es arbitrary: st)
  case (Cons e es)
  have skip: "untarEntry options dest root e st = (st, None)" if "excluded options (Clean (h_Name (fst e)))"
    using that by (simp add: untarEntry_def)
  have "thenState s (untarLoop options dest root rest es) =
      thenState s (untarLoop options dest root rest (filter (\<lambda>e. \<not> excluded options (Clean (h_Name (fst e)))) es))" for s
    using Cons.IH by (simp add: thenState_def split: prod.splits option.splits)
  then show ?case using skip Cons.IH [of st] by (auto simp: thenState_def)
qed simp

theorem unpack_excluded:
  "Unpack options dest es rest fs = Unpack options dest (filter (\<lambda>e. \<not> excluded options (Clean (h_Name (fst e)))) es) rest fs"
  unfolding Unpack_def by (subst untar_excluded) (rule refl)

text \<open>With \<^verbatim>\<open>NoOverwriteDirNonDir\<close> a file that would change its kind stops the extraction, and stays.\<close>

theorem no_overwrite_stops:
  assumes "NoOverwriteDirNonDir options" "osLstat (u_fs st) path = Inr fi" "inodeIsDir fi \<noteq> (h_Typeflag hdr = TypeDir)"
  shows "\<exists>e. untarOver options dest root path hdr body st = (st, Some e)"
  using assms by (auto simp: untarOver_def)

text \<open>
  Where the parent of an entry is there, and the entry is neither metadata nor a whiteout nor a link into
  the directory of hard links, both routines do the same to the file system.
\<close>

definition layerLike :: "TarOptions \<Rightarrow> bool" where
  "layerLike options \<longleftrightarrow> ExcludePatterns options = [] \<and> \<not> NoLchown options \<and> ChownOpts options = None \<and> \<not> NoOverwriteDirNonDir options"

lemma untar_over_place:
  assumes "layerLike options" "h_Name hdr \<noteq> ''.''" "\<not> (h_Typeflag hdr = TypeLink \<and> has_prefix (Clean (h_Linkname hdr)) WhiteoutLinkDir)"
  shows "u_fs (fst (untarOver options dest root path hdr body st)) = u_fs (fst (placeEntry dest (IdMaps options) root path hdr body st))"
    "snd (untarOver options dest root path hdr body st) = snd (placeEntry dest (IdMaps options) root path hdr body st)"
proof -
  have src: "sourceOf st1 hdr body = Inr (hdr, body, None)" for st1 using assms(3) unfolding sourceOf_def by (rule if_not_P)
  have place: "u_fs (fst (untarPlace options dest root path hdr body st1)) =
        u_fs (fst (case toHostHeader (IdMaps options) root hdr of Inl e \<Rightarrow> (st1, Some e)
          | Inr srcHdr \<Rightarrow> thenState (onFs st1 (createTarFile path dest srcHdr body True None (u_fs st1)))
              (\<lambda>st2. (st2\<lparr>u_dirs := u_dirs st2 @ (if h_Typeflag hdr = TypeDir then [hdr] else []), u_unpacked := path # u_unpacked st2\<rparr>, None))))"
      "snd (untarPlace options dest root path hdr body st1) =
        snd (case toHostHeader (IdMaps options) root hdr of Inl e \<Rightarrow> (st1, Some e)
          | Inr srcHdr \<Rightarrow> thenState (onFs st1 (createTarFile path dest srcHdr body True None (u_fs st1)))
              (\<lambda>st2. (st2\<lparr>u_dirs := u_dirs st2 @ (if h_Typeflag hdr = TypeDir then [hdr] else []), u_unpacked := path # u_unpacked st2\<rparr>, None)))" for st1
    using assms(1) by (auto simp: untarPlace_def layerLike_def thenState_def onFs_def split: sum.splits option.splits prod.splits)
  have st: "onFs st (u_fs st, None) = (st, None)" by (simp add: onFs_def)
  show "u_fs (fst (untarOver options dest root path hdr body st)) = u_fs (fst (placeEntry dest (IdMaps options) root path hdr body st))"
    "snd (untarOver options dest root path hdr body st) = snd (placeEntry dest (IdMaps options) root path hdr body st)"
    using assms(1,2) place
    by (auto simp: untarOver_def placeEntry_def clearPath_def src layerLike_def thenState_def st split: sum.splits option.splits prod.splits)
qed

theorem unpack_agrees_with_layer:
  assumes "layerLike options" "osLstat (u_fs st) (JoinPath [dest, DirPath (Clean (h_Name (fst e)))]) \<noteq> Inl ENOENT"
    and "Clean (h_Name (fst e)) \<noteq> ''.''" "\<not> has_prefix (Clean (h_Name (fst e))) WhiteoutMetaPrefix"
    and "\<not> has_prefix (BasePath (JoinPath [dest, Clean (h_Name (fst e))])) WhiteoutPrefix"
    and "\<not> (h_Typeflag (fst e) = TypeLink \<and> has_prefix (Clean (h_Linkname (fst e))) WhiteoutLinkDir)"
  shows "u_fs (fst (untarEntry options dest root e st)) = u_fs (fst (unpackEntry dest tempDir (IdMaps options) root e st))
    \<and> snd (untarEntry options dest root e st) = snd (unpackEntry dest tempDir (IdMaps options) root e st)"
proof -
  let ?name = "Clean (h_Name (fst e))"
  have par: "ensureParent dest perm ?name (u_fs st) = (u_fs st, None)" for perm using assms(2) by (simp add: ensureParent_def Let_def)
  have st: "onFs st (u_fs st, None) = (st, None)" by (simp add: onFs_def)
  have link: "\<not> has_prefix ?name WhiteoutLinkDir" using assms(4) by (auto simp: has_prefix_iff WhiteoutLinkDir_def)
  have "\<not> excluded options ?name" using assms(1) by (simp add: excluded_def layerLike_def)
  then show ?thesis
    using untar_over_place [OF assms(1), of "(fst e)\<lparr>h_Name := ?name\<rparr>" dest root "JoinPath [dest, ?name]" "snd e" st] assms(3-6)
    by (simp add: untarEntry_def unpackEntry_def Let_def par st thenState_def link split: option.splits)
qed

end
