(* ===== verification/Layer_Entry.thy ===== *)
theory Layer_Entry
  imports Layer_Apply Host_Lemmas
begin

section \<open>One file through an archive\<close>

text \<open>
  What \<^verbatim>\<open>addTarFile\<close> writes for a file, and what \<^verbatim>\<open>createTarFile\<close> makes of it: the same type, mode,
  owner, device, capability and contents, and the same second of the time.  \<open>file_ok\<close> names what an
  archive of the code can carry: no sockets, times between the epoch and the last one that
  \<^verbatim>\<open>system.Chtimes\<close> accepts, device numbers of 32 bits, no capability on a directory.
\<close>

subsection \<open>Modes and devices\<close>

lemma mode_split: "and m 0xFFFF = m \<Longrightarrow> or (and m 0xF000) (and m 0xFFF) = (m :: 32 word)"
proof -
  assume "and m 0xFFFF = m"
  have "or (and m 0xF000) (and m 0xFFF) = and m (or 0xF000 0xFFF)" by (simp only: bit.conj_disj_distrib)
  also have "or 0xF000 0xFFF = (0xFFFF :: 32 word)" by simp
  finally show ?thesis using \<open>and m 0xFFFF = m\<close> by simp
qed

lemma type_of_or: "and t 0xF000 = t \<Longrightarrow> and (or t (and m 0xFFF)) 0xF000 = (t :: 32 word)"
proof -
  assume "and t 0xF000 = t"
  have "and (or t (and m 0xFFF)) 0xF000 = or (and t 0xF000) (and (and m 0xFFF) 0xF000)" by (simp only: bit.conj_disj_distrib2)
  also have "and (and m 0xFFF) 0xF000 = and m (and 0xFFF (0xF000 :: 32 word))" by (simp only: and.assoc)
  finally show ?thesis using \<open>and t 0xF000 = t\<close> by simp
qed

lemma type_of_mask: "and (and m 0xF3FF) 0xF000 = and m (0xF000 :: 32 word)"
proof -
  have "and (and m 0xF3FF) 0xF000 = and m (and 0xF3FF (0xF000 :: 32 word))" by (simp only: and.assoc)
  then show ?thesis by simp
qed

lemma perm_ucast: "ucast (and (ucast m :: 64 word) 0xFFF) = and m (0xFFF :: 32 word)"
proof -
  have "(0xFFF :: 64 word) = mask 12" "(0xFFF :: 32 word) = mask 12" by (simp_all add: mask_eq_exp_minus_1)
  then show ?thesis by (intro bit_word_eqI) (auto simp: bit_simps)
qed

text \<open>\<^verbatim>\<open>Mkdev\<close> undoes \<^verbatim>\<open>major\<close> and \<^verbatim>\<open>minor\<close> on the device numbers of 32 bits.\<close>

lemma bit_major: "bit (major d) n \<longleftrightarrow> n < 12 \<and> bit d (n + 8)"
proof -
  have c: "(0xfff :: 64 word) = mask 12" by (simp add: mask_eq_exp_minus_1)
  show ?thesis unfolding major_def c by (auto simp: bit_simps add.commute dest: bit_imp_le_length)
qed

lemma bit_minor: "bit (minor d) n \<longleftrightarrow> n < 8 \<and> bit d n \<or> 8 \<le> n \<and> n < 20 \<and> bit d (n + 12)"
proof -
  have c: "(0xff :: 64 word) = mask 8" "(0xfff00 :: 64 word) = push_bit 8 (mask 12)"
    by (simp_all add: mask_eq_exp_minus_1 push_bit_eq_mult)
  show ?thesis unfolding minor_def c by (auto simp: bit_simps add.commute dest: bit_imp_le_length)
qed

lemma bit_Mkdev:
  assumes "n < 32"
  shows "bit (Mkdev a b) n \<longleftrightarrow> (20 \<le> n \<and> bit b (n - 12)) \<or> (8 \<le> n \<and> n < 20 \<and> bit a (n - 8)) \<or> (n < 8 \<and> bit b n)"
proof -
  have c: "(0xff :: 64 word) = mask 8" "(0xfff :: 64 word) = mask 12" "(0xfff00 :: 64 word) = push_bit 8 (mask 12)"
    by (simp_all add: mask_eq_exp_minus_1 push_bit_eq_mult)
  have "bit (push_bit 12 (and b (push_bit 8 (mask 12)))) n \<longleftrightarrow> 20 \<le> n \<and> bit b (n - 12)" using assms by (auto simp: bit_simps)
  moreover have "bit (push_bit 8 (and a (mask 12))) n \<longleftrightarrow> 8 \<le> n \<and> n < 20 \<and> bit a (n - 8)" using assms by (auto simp: bit_simps)
  moreover have "bit (and b (mask 8)) n \<longleftrightarrow> n < 8 \<and> bit b n" by (auto simp: bit_simps)
  ultimately show ?thesis unfolding Mkdev_def c using assms by (simp only: bit_ucast_iff bit_or_iff) auto
qed

lemma mkdev_major_minor:
  assumes "d < 2 ^ 32"
  shows "ucast (Mkdev (major d) (minor d)) = (d :: 64 word)"
proof (rule bit_word_eqI)
  fix n assume "n < LENGTH(64)"
  have u: "take_bit 32 (uint d) = uint d" using assms by (intro take_bit_int_eq_self) (simp_all add: word_less_def)
  have "n < 32" if "bit d n"
  proof -
    have "bit (uint d) n" using that bit_imp_le_length [OF that] by (simp add: bit_uint_iff)
    then show ?thesis using u bit_take_bit_iff [of 32 "uint d" n] by simp
  qed
  moreover have "bit (Mkdev (major d) (minor d)) n \<longleftrightarrow> bit d n" if "n < 32"
  proof -
    consider "n < 8" | "8 \<le> n" "n < 20" | "20 \<le> n" by linarith
    then show ?thesis
    proof cases
      case 2
      then have "n - 8 < 12" by linarith
      then show ?thesis using that 2 by (simp add: bit_Mkdev bit_major)
    next
      case 3
      then have "\<not> n - 12 < 8" "8 \<le> n - 12" "n - 12 < 20" using that by linarith+
      then show ?thesis using that 3 by (simp add: bit_Mkdev bit_minor)
    qed (use that in \<open>simp add: bit_Mkdev bit_minor\<close>)
  qed
  moreover have "\<not> bit (Mkdev (major d) (minor d)) n" if "\<not> n < 32" using that by (auto dest: bit_imp_le_length)
  ultimately show "bit (ucast (Mkdev (major d) (minor d)) :: 64 word) n = bit d n"
    using \<open>n < LENGTH(64)\<close> by (cases "n < 32") (auto simp: bit_ucast_iff)
qed

subsection \<open>What is written\<close>

definition capOf :: "inode \<Rightarrow> string option" where
  "capOf i = mget (i_xattrs i) ''security.capability''"

definition secondsOf :: "Timespec \<Rightarrow> Timespec" where
  "secondsOf t = \<lparr>ts_Sec = ts_Sec t, ts_Nsec = 0\<rparr>"

definition isDevice :: "inode \<Rightarrow> bool" where
  "isDevice i \<longleftrightarrow> fileType i = S_IFBLK \<or> fileType i = S_IFCHR"

definition file_ok :: "inode \<Rightarrow> bool" where
  "file_ok i \<longleftrightarrow> and (i_mode i) 0xFFFF = i_mode i
     \<and> typeOf i \<noteq> None \<and> typeOf i \<noteq> Some TypeRegA
     \<and> (inodeIsLink i \<longrightarrow> i_mode i = 0xA1FF)
     \<and> (if isDevice i then i_rdev i < 2 ^ 32 else i_rdev i = 0)
     \<and> (fileType i = S_IFREG \<or> fileType i = S_IFLNK \<or> i_data i = [])
     \<and> 0 \<le> ts_Sec (i_mtime i) \<and> ts_Sec (i_mtime i) \<le> 9223372036
     \<and> (inodeIsDir i \<longrightarrow> capOf i = None)"

text \<open>The entry of a file with one name, when no identifiers are mapped.\<close>

definition entryOf :: "inode \<Rightarrow> string \<Rightarrow> tar_entry" where
  "entryOf i name =
     (\<lparr>h_Name = canonicalTarName name (inodeIsDir i), h_Mode = ucast (i_mode i), h_Uid = uint (i_uid i), h_Gid = uint (i_gid i),
       h_Size = (if typeOf i = Some TypeReg then int (length (i_data i)) else 0), h_ModTime = secondsOf (i_mtime i),
       h_Typeflag = the (typeOf i), h_Linkname = (if typeOf i = Some TypeSymlink then i_data i else []),
       h_Devmajor = (if and (i_mode i) S_IFBLK \<noteq> 0 \<or> and (i_mode i) S_IFCHR \<noteq> 0 then major (i_rdev i) else 0),
       h_Devminor = (if and (i_mode i) S_IFBLK \<noteq> 0 \<or> and (i_mode i) S_IFCHR \<noteq> 0 then minor (i_rdev i) else 0),
       h_Xattrs = (case capOf i of None \<Rightarrow> [] | Some c \<Rightarrow> [(''security.capability'', c)])\<rparr>,
      if typeOf i = Some TypeReg then i_data i else [])"

lemma typeOf_link: "typeOf i = Some TypeSymlink \<longleftrightarrow> inodeIsLink i"
  by (auto simp: typeOf_def inodeIsLink_def S_IFDIR_def split: if_splits)

lemma add_tar_file:
  assumes "at_path fs q i" "\<not> hasHardlinks fs (rooted q)" "typeOf i \<noteq> None"
  shows "addTarFile fs (None, None) seen (rooted q) name = (seen, Inr (entryOf i name))"
proof -
  have "osLstat fs (rooted q) = Inr i" using lstat_dirs [of fs q] assms(1) by (simp add: at_path_def)
  moreover obtain t where t: "typeOf i = Some t" using assms(3) by blast
  moreover have "inodeIsLink i \<longleftrightarrow> t = TypeSymlink" using typeOf_link [of i] t by simp
  ultimately show ?thesis
    using assms(2)
    by (cases "capOf i") (simp_all add: addTarFile_def FileInfoHeader_def setHeaderForSpecialDevice_def seeLink_def capOf_def
        toContainerHeader_def onWire_def entryOf_def secondsOf_def Let_def)
qed

subsection \<open>What is made of it\<close>

text \<open>\<open>unpacked n r\<close>: the file \<open>r\<close> is \<open>n\<close> after its way through the archive.\<close>

definition unpacked :: "inode \<Rightarrow> inode \<Rightarrow> bool" where
  "unpacked n r \<longleftrightarrow> i_mode r = i_mode n \<and> i_uid r = i_uid n \<and> i_gid r = i_gid n \<and> i_rdev r = i_rdev n
     \<and> capOf r = capOf n \<and> (inodeIsDir n \<or> i_data r = i_data n \<and> i_mtime r = secondsOf (i_mtime n))"

text \<open>The node before its attributes are set.\<close>

definition made :: "inode \<Rightarrow> inode \<Rightarrow> bool" where
  "made n i \<longleftrightarrow> fileType i = fileType n \<and> i_rdev i = i_rdev n \<and> (inodeIsDir n \<or> i_data i = i_data n)
     \<and> (inodeIsDir n \<longrightarrow> capOf i = None) \<and> (inodeIsLink n \<longrightarrow> i_mode i = 0xA1FF)"

lemma fileType_idem: "and (fileType i) 0xF000 = fileType i"
  by (simp add: fileType_def and.assoc)

lemma permOf_entry: "permOf (fst (entryOf n nm)) = and (i_mode n) 0xFFF"
  by (simp add: permOf_def entryOf_def perm_ucast)

lemma newInode_simps [simp]:
  "i_mode (newInode fs m dev d) = m" "i_rdev (newInode fs m dev d) = dev" "i_data (newInode fs m dev d) = d" "i_xattrs (newInode fs m dev d) = []"
  by (simp_all add: newInode_def)

text \<open>Where a file can be put: nothing is there, or a directory for a directory.\<close>

definition place_for :: "fsys \<Rightarrow> string list \<Rightarrow> inode \<Rightarrow> bool" where
  "place_for fs p n \<longleftrightarrow> free_path fs p
     \<or> inodeIsDir n \<and> (\<exists>d. at_path fs p d \<and> inodeIsDir d \<and> capOf d = None \<and> i_rdev d = 0)"

definition header_for :: "header \<Rightarrow> inode \<Rightarrow> bool" where
  "header_for hdr n \<longleftrightarrow> (\<exists>name name'. hdr = (fst (entryOf n name))\<lparr>h_Name := name'\<rparr>)"

lemma header_simps:
  assumes "header_for hdr n"
  shows "h_Typeflag hdr = the (typeOf n)" "permOf hdr = and (i_mode n) 0xFFF" "h_Uid hdr = uint (i_uid n)" "h_Gid hdr = uint (i_gid n)"
    "h_ModTime hdr = secondsOf (i_mtime n)" "h_Linkname hdr = (if typeOf n = Some TypeSymlink then i_data n else [])"
    "h_Devmajor hdr = (if and (i_mode n) S_IFBLK \<noteq> 0 \<or> and (i_mode n) S_IFCHR \<noteq> 0 then major (i_rdev n) else 0)"
    "h_Devminor hdr = (if and (i_mode n) S_IFBLK \<noteq> 0 \<or> and (i_mode n) S_IFCHR \<noteq> 0 then minor (i_rdev n) else 0)"
    "h_Xattrs hdr = (case capOf n of None \<Rightarrow> [] | Some c \<Rightarrow> [(''security.capability'', c)])"
  using assms perm_ucast [of "i_mode n"] by (auto simp: header_for_def entryOf_def permOf_def)

lemma typeOf_cases:
  assumes "file_ok n"
  obtains (Reg) "typeOf n = Some TypeReg" "fileType n = S_IFREG"
    | (Dir) "typeOf n = Some TypeDir" "fileType n = S_IFDIR"
    | (Sym) "typeOf n = Some TypeSymlink" "fileType n = S_IFLNK"
    | (Chr) "typeOf n = Some TypeChar" "fileType n = S_IFCHR"
    | (Blk) "typeOf n = Some TypeBlock" "fileType n = S_IFBLK"
    | (Fifo) "typeOf n = Some TypeFifo" "fileType n = S_IFIFO"
  using assms by (auto simp: file_ok_def typeOf_def split: if_splits)

lemma made_new:
  assumes "and t 0xF000 = t" "fileType n = t" "i_rdev n = dev" "inodeIsDir n \<or> i_data n = d" "inodeIsLink n \<longrightarrow> m = 0xA1FF" "m = or t (and w 0xFFF) \<or> m = 0xA1FF \<and> t = S_IFLNK"
  shows "made n (newInode fs m dev d)"
proof -
  have "and m 0xF000 = t" using assms(6) type_of_or [OF assms(1), of w] by auto
  then show ?thesis using assms by (auto simp: made_def fileType_def capOf_def)
qed

lemma new_made:
  assumes "free_path fs p" "made n i"
  shows "\<exists>fs' j. (addNode fs p i, None) = (fs', None) \<and> at_path fs' p j \<and> made n j \<and> elsewhere fs fs' p"
  using new_node [OF assms(1), of i] assms(2) by auto

lemma device_bits: "isDevice n \<Longrightarrow> and (i_mode n) S_IFBLK \<noteq> 0 \<or> and (i_mode n) S_IFCHR \<noteq> 0"
proof -
  assume "isDevice n"
  have "and (i_mode n) S_IFCHR = and (fileType n) S_IFCHR" by (simp add: fileType_def and.assoc)
  also have "\<dots> = S_IFCHR" using \<open>isDevice n\<close> by (auto simp: isDevice_def)
  finally show ?thesis by simp
qed

lemma not_device_bits:
  assumes "fileType n = S_IFIFO"
  shows "and (i_mode n) S_IFBLK = 0" "and (i_mode n) S_IFCHR = 0"
proof -
  have "and (i_mode n) S_IFBLK = and (fileType n) S_IFBLK" "and (i_mode n) S_IFCHR = and (fileType n) S_IFCHR"
    by (simp_all add: fileType_def and.assoc)
  then show "and (i_mode n) S_IFBLK = 0" "and (i_mode n) S_IFCHR = 0" by (simp_all add: assms)
qed

lemma device_number:
  assumes "header_for hdr n" "file_ok n" "isDevice n \<or> fileType n = S_IFIFO"
  shows "ucast (Mkdev (h_Devmajor hdr) (h_Devminor hdr)) = i_rdev n"
proof (cases "isDevice n")
  case True
  then show ?thesis using header_simps(7,8) [OF assms(1)] device_bits [OF True] assms(2) mkdev_major_minor by (simp add: file_ok_def)
next
  case False
  have "ucast (Mkdev 0 0) = (0 :: 64 word)" by (simp add: Mkdev_def)
  then show ?thesis
    using header_simps(7,8) [OF assms(1)] not_device_bits [of n] False assms(2,3) by (simp add: file_ok_def)
qed

lemma symlink_target_inside: "has_prefix (JoinPath [DirPath (rooted p), l]) ''/''"
proof -
  have "IsAbs (DirPath (rooted p))"
    using IsAbs_Clean [of "pathDir (rooted p)"]
    by (auto simp: DirPath_def pathDir_def rooted_def IsAbs_def dropWhile_append)
  then obtain s where s: "DirPath (rooted p) = CHR ''/'' # s" by (cases "DirPath (rooted p)") (auto simp: IsAbs_def)
  then have "IsAbs (JoinPath [DirPath (rooted p), l])" by (simp add: JoinPath_def)
  then show ?thesis by (simp add: IsAbs_def)
qed

lemma make_node:
  assumes "file_ok n" "place_for fs p n" "header_for hdr n" "body = (if typeOf n = Some TypeReg then i_data n else [])"
  shows "\<exists>fs' i. makeNode (rooted p) ''/'' hdr body fs = (fs', None) \<and> at_path fs' p i \<and> made n i \<and> elsewhere fs fs' p"
proof -
  note h = header_simps [OF assms(3)]
  have free: "free_path fs p" if "\<not> inodeIsDir n" using assms(2) that by (simp add: place_for_def)
  have rdev: "\<not> isDevice n \<Longrightarrow> i_rdev n = 0" and data: "fileType n \<noteq> S_IFREG \<Longrightarrow> fileType n \<noteq> S_IFLNK \<Longrightarrow> i_data n = []"
    and link: "inodeIsLink n \<Longrightarrow> i_mode n = 0xA1FF" using assms(1) by (auto simp: file_ok_def)
  show ?thesis using assms(1)
  proof (cases rule: typeOf_cases)
    case Reg
    have "made n (newInode fs (or S_IFREG (permOf hdr)) 0 body)"
      using Reg rdev assms(4) h(2) by (intro made_new [where t = S_IFREG and w = "i_mode n"]) (auto simp: isDevice_def inodeIsLink_def)
    then show ?thesis using new_made free Reg h(1) write_file [of fs p]
      by (simp add: makeNode_def lift_os_def inodeIsDir_def S_IFDIR_def)
  next
    case Dir
    have dir: "inodeIsDir n" using Dir by (simp add: inodeIsDir_def)
    show ?thesis
    proof (cases "free_path fs p")
      case True
      have "made n (newInode fs (or S_IFDIR (permOf hdr)) 0 [])"
        using Dir dir rdev h(2) by (intro made_new [where t = S_IFDIR and w = "i_mode n"]) (auto simp: isDevice_def inodeIsLink_def S_IFDIR_def)
      moreover have "osLstat fs (rooted p) = Inl ENOENT" using True lstat_dirs [of fs p] by (simp add: free_path_def)
      ultimately show ?thesis using new_made [OF True] Dir h(1) create_node [OF True]
        by (simp add: makeNode_def lift_os_def osMkdir_def)
    next
      case False
      then obtain d where d: "at_path fs p d" "inodeIsDir d" "capOf d = None" "i_rdev d = 0" using assms(2) by (auto simp: place_for_def)
      have "made n d" using d dir rdev Dir by (auto simp: made_def inodeIsDir_def inodeIsLink_def isDevice_def S_IFDIR_def)
      moreover have "osLstat fs (rooted p) = Inr d" using d(1) lstat_dirs [of fs p] by (simp add: at_path_def)
      ultimately show ?thesis using d(1,2) Dir h(1) elsewhere_refl by (auto simp: makeNode_def)
    qed
  next
    case Sym
    then have sym: "inodeIsLink n" by (simp add: inodeIsLink_def)
    have "made n (newInode fs 0xA1FF 0 (i_data n))"
      using Sym sym rdev link by (intro made_new [where t = S_IFLNK]) (auto simp: isDevice_def)
    moreover have f: "free_path fs p" using free dir_not_link sym by blast
    ultimately show ?thesis using new_made [OF f] Sym h(1,6) create_node [OF f] symlink_target_inside [of p]
      by (simp add: makeNode_def lift_os_def osSymlink_def)
  next
    case Chr
    then have dev: "isDevice n" by (simp add: isDevice_def)
    have "made n (newInode fs (or (permOf hdr) S_IFCHR) (i_rdev n) [])"
      using Chr data h(2) by (intro made_new [where t = S_IFCHR and w = "i_mode n"]) (auto simp: inodeIsLink_def or.commute)
    then show ?thesis using new_made free Chr h(1) create_node [of fs p] device_number [OF assms(3,1)] dev
      by (simp add: makeNode_def handleTarTypeBlockCharFifo_def lift_os_def osMknod_def inodeIsDir_def S_IFDIR_def)
  next
    case Blk
    then have dev: "isDevice n" by (simp add: isDevice_def)
    have "made n (newInode fs (or (permOf hdr) S_IFBLK) (i_rdev n) [])"
      using Blk data h(2) by (intro made_new [where t = S_IFBLK and w = "i_mode n"]) (auto simp: inodeIsLink_def or.commute)
    then show ?thesis using new_made free Blk h(1) create_node [of fs p] device_number [OF assms(3,1)] dev
      by (simp add: makeNode_def handleTarTypeBlockCharFifo_def lift_os_def osMknod_def inodeIsDir_def S_IFDIR_def)
  next
    case Fifo
    have "made n (newInode fs (or (permOf hdr) S_IFIFO) (i_rdev n) [])"
      using Fifo data h(2) by (intro made_new [where t = S_IFIFO and w = "i_mode n"]) (auto simp: inodeIsLink_def or.commute)
    then show ?thesis using new_made free Fifo h(1) create_node [of fs p] device_number [OF assms(3,1)]
      by (simp add: makeNode_def handleTarTypeBlockCharFifo_def lift_os_def osMknod_def inodeIsDir_def S_IFDIR_def)
  qed
qed

subsection \<open>Setting the attributes\<close>

definition chowned :: "inode \<Rightarrow> inode \<Rightarrow> inode" where
  "chowned n i =
     (if inodeIsDir i then i\<lparr>i_uid := i_uid n, i_gid := i_gid n\<rparr>
      else i\<lparr>i_uid := i_uid n, i_gid := i_gid n, i_mode := (if inodeIsLink i then i_mode i else and (i_mode i) 0xF3FF),
             i_xattrs := mdel ''security.capability'' (i_xattrs i)\<rparr>)"

definition withCap :: "inode \<Rightarrow> inode \<Rightarrow> inode" where
  "withCap n i = (case capOf n of None \<Rightarrow> i | Some c \<Rightarrow> i\<lparr>i_xattrs := mput ''security.capability'' c (i_xattrs i)\<rparr>)"

definition chmodded :: "inode \<Rightarrow> inode \<Rightarrow> inode" where
  "chmodded n i = (if inodeIsLink n then i else i\<lparr>i_mode := or (fileType i) (and (i_mode n) 0xFFF)\<rparr>)"

definition timed :: "inode \<Rightarrow> inode \<Rightarrow> inode" where
  "timed n i = i\<lparr>i_mtime := secondsOf (i_mtime n)\<rparr>"

lemma fileType_chowned: "fileType (chowned n i) = fileType i"
  by (simp add: chowned_def fileType_def type_of_mask)

lemma fileType_withCap: "fileType (withCap n i) = fileType i"
  by (simp add: withCap_def fileType_def split: option.splits)

lemma fileType_chmodded: "fileType (chmodded n i) = fileType i"
  using type_of_or [OF fileType_idem [of i], of "i_mode n"] by (simp add: chmodded_def fileType_def)

lemma lift_step:
  "\<exists>fs'. s = (fs', None) \<and> P fs' \<Longrightarrow> \<exists>fs'. lift_os s = (fs', None) \<and> P fs'"
  by (auto simp: lift_os_def)

lemma step_chown:
  assumes "at_path fs p i" "header_for hdr n"
  shows "\<exists>fs'. lift_os (osLchown fs (rooted p) (h_Uid hdr) (h_Gid hdr)) = (fs', None) \<and> at_path fs' p (chowned n i) \<and> elsewhere fs fs' p"
proof (rule lift_step)
  have f: "osLchown fs (rooted p) (h_Uid hdr) (h_Gid hdr) = onInode False fs (rooted p) (chowned n)"
    unfolding osLchown_def chowned_def [abs_def] header_simps(3,4) [OF assms(2)] word_of_int_uint by (rule refl)
  have "inodeIsDir (chowned n i) = inodeIsDir i" by (simp add: inodeIsDir_def fileType_chowned)
  then show "\<exists>fs'. osLchown fs (rooted p) (h_Uid hdr) (h_Gid hdr) = (fs', None) \<and> at_path fs' p (chowned n i) \<and> elsewhere fs fs' p"
    unfolding f by (intro on_inode [OF assms(1)]) simp_all
qed

lemma step_xattrs:
  assumes "at_path fs p i" "header_for hdr n"
  shows "\<exists>fs'. setXattrs (rooted p) (h_Xattrs hdr) fs = (fs', None) \<and> at_path fs' p (withCap n i) \<and> elsewhere fs fs' p"
proof (cases "capOf n")
  case None
  then show ?thesis using header_simps(9) [OF assms(2)] assms(1) elsewhere_refl by (auto simp: withCap_def)
next
  case (Some c)
  have "inodeIsDir (i\<lparr>i_xattrs := x\<rparr>) = inodeIsDir i" for x by (simp add: inodeIsDir_def fileType_def)
  with on_inode [OF assms(1), of False "\<lambda>i. i\<lparr>i_xattrs := mput ''security.capability'' c (i_xattrs i)\<rparr>"] Some
  show ?thesis using header_simps(9) [OF assms(2)] by (auto simp: withCap_def osLsetxattr_def andThen_def lift_os_def)
qed

lemma step_chmod:
  assumes "at_path fs p i" "header_for hdr n" "file_ok n" "fileType i = fileType n"
  shows "\<exists>fs'. handleLChmod hdr (rooted p) fs = (fs', None) \<and> at_path fs' p (chmodded n i) \<and> elsewhere fs fs' p"
proof -
  have t: "h_Typeflag hdr \<noteq> TypeLink" "h_Typeflag hdr = TypeSymlink \<longleftrightarrow> inodeIsLink n"
    using typeOf_link [of n] header_simps(1) [OF assms(2)] assms(3) by (auto simp: file_ok_def typeOf_def split: if_splits)
  show ?thesis
  proof (cases "inodeIsLink n")
    case True
    then show ?thesis using t assms(1) elsewhere_refl by (auto simp: handleLChmod_def chmodded_def)
  next
    case False
    have link: "\<not> inodeIsLink i" using False assms(4) by (simp add: inodeIsLink_def)
    have f: "osChmod fs (rooted p) (permOf hdr) = onInode True fs (rooted p) (chmodded n)"
      using False header_simps(2) [OF assms(2)] by (simp add: osChmod_def chmodded_def [abs_def] and.assoc)
    have "inodeIsDir (chmodded n i) = inodeIsDir i" by (simp add: inodeIsDir_def fileType_chmodded)
    then have "\<exists>fs'. osChmod fs (rooted p) (permOf hdr) = (fs', None) \<and> at_path fs' p (chmodded n i) \<and> elsewhere fs fs' p"
      unfolding f using link by (intro on_inode [OF assms(1)]) simp_all
    then show ?thesis using t False lift_step by (simp add: handleLChmod_def)
  qed
qed

lemma clamp_ok: "file_ok n \<Longrightarrow> clampTime (secondsOf (i_mtime n)) = secondsOf (i_mtime n)"
  by (auto simp: file_ok_def clampTime_def timeBefore_def secondsOf_def maxTime_def)

lemma timespec_ok:
  assumes "file_ok n"
  shows "timeToTimespec (secondsOf (i_mtime n)) = Some (secondsOf (i_mtime n))"
proof -
  define s where "s = ts_Sec (i_mtime n)"
  have s: "0 \<le> s" "s \<le> 9223372036" using assms by (simp_all add: file_ok_def s_def)
  have "sint (word_of_int (s * 1000000000) :: 64 word) = s * 1000000000"
    unfolding sint_sbintrunc' using s by (simp add: signed_take_bit_int_eq_self)
  moreover have "sgn (s * 1000000000) * s = s" using s(1) by (cases "s = 0") (simp_all add: sgn_mult)
  ultimately show ?thesis
    using s by (simp add: timeToTimespec_def UnixNano_def secondsOf_def zeroTime_def s_def [symmetric] abs_mult)
qed

lemma step_times:
  assumes "at_path fs p i" "header_for hdr n" "file_ok n" "fileType i = fileType n"
  shows "\<exists>fs'. setTimes hdr (rooted p) fs = (fs', None) \<and> at_path fs' p (timed n i) \<and> elsewhere fs fs' p"
proof -
  have t: "h_Typeflag hdr \<noteq> TypeLink" "h_Typeflag hdr = TypeSymlink \<longleftrightarrow> inodeIsLink n"
    using typeOf_link [of n] header_simps(1) [OF assms(2)] assms(3) by (auto simp: file_ok_def typeOf_def split: if_splits)
  have "inodeIsDir (i\<lparr>i_mtime := x\<rparr>) = inodeIsDir i" for x by (simp add: inodeIsDir_def fileType_def)
  with on_inode [OF assms(1), of follow "\<lambda>i. i\<lparr>i_mtime := secondsOf (i_mtime n)\<rparr>" for follow]
  have set: "\<exists>fs'. osChtimes follow fs (rooted p) (secondsOf (i_mtime n)) = (fs', None) \<and> at_path fs' p (timed n i) \<and> elsewhere fs fs' p"
    if "follow \<longrightarrow> \<not> inodeIsLink i" for follow using that by (simp add: osChtimes_def timed_def)
  have ns: "\<not> ts_Nsec (secondsOf (i_mtime n)) < 0" by (simp add: secondsOf_def)
  then show ?thesis
    using t timespec_ok [OF assms(3)] lift_step [OF set] header_simps(5) [OF assms(2)] clamp_ok [OF assms(3)] assms(4)
    by (cases "inodeIsLink n") (simp_all add: setTimes_def LUtimesNano_def Chtimes_def inodeIsLink_def)
qed

lemma attributes_unpacked:
  assumes "made n i" "file_ok n"
  shows "unpacked n (timed n (chmodded n (withCap n (chowned n i))))"
proof -
  let ?r = "timed n (chmodded n (withCap n (chowned n i)))"
  have ft: "fileType i = fileType n" using assms(1) by (simp add: made_def)
  then have dir: "inodeIsDir i = inodeIsDir n" and lnk: "inodeIsLink i = inodeIsLink n" by (simp_all add: inodeIsDir_def inodeIsLink_def)
  have "i_mode ?r = i_mode n"
  proof (cases "inodeIsLink n")
    case True
    then have "i_mode ?r = i_mode i" using lnk dir_not_link [of i] by (auto simp: timed_def chmodded_def withCap_def chowned_def split: option.splits)
    then show ?thesis using assms True by (simp add: made_def file_ok_def)
  next
    case False
    then have "i_mode ?r = or (fileType n) (and (i_mode n) 0xFFF)"
      using fileType_withCap [of n "chowned n i"] fileType_chowned [of n i] ft by (simp add: timed_def chmodded_def)
    then show ?thesis using mode_split [of "i_mode n"] assms(2) by (simp add: fileType_def file_ok_def)
  qed
  moreover have "capOf ?r = capOf n"
  proof (cases "capOf n")
    case None
    then have "capOf ?r = capOf (chowned n i)" by (simp add: timed_def chmodded_def withCap_def capOf_def)
    also have "\<dots> = None" using assms(1) dir by (simp add: chowned_def made_def capOf_def)
    finally show ?thesis using None by simp
  next
    case (Some c)
    then show ?thesis by (simp add: timed_def chmodded_def withCap_def capOf_def)
  qed
  moreover have "i_uid ?r = i_uid n" "i_gid ?r = i_gid n" "i_rdev ?r = i_rdev n" "inodeIsDir n \<or> i_data ?r = i_data n" "i_mtime ?r = secondsOf (i_mtime n)"
    using assms(1) by (auto simp: timed_def chmodded_def withCap_def chowned_def made_def split: option.splits)
  ultimately show ?thesis by (auto simp: unpacked_def)
qed

theorem file_through_archive:
  assumes "file_ok n" "place_for fs p n" "header_for hdr n" "body = (if typeOf n = Some TypeReg then i_data n else [])"
  shows "\<exists>fs' r. createTarFile (rooted p) ''/'' hdr body True None fs = (fs', None) \<and> at_path fs' p r \<and> unpacked n r \<and> elsewhere fs fs' p"
proof -
  obtain fs1 i where 1: "makeNode (rooted p) ''/'' hdr body fs = (fs1, None)" "at_path fs1 p i" "made n i" "elsewhere fs fs1 p"
    using make_node [OF assms] by blast
  have ft: "fileType i = fileType n" using 1(3) by (simp add: made_def)
  obtain fs2 where 2: "lift_os (osLchown fs1 (rooted p) (h_Uid hdr) (h_Gid hdr)) = (fs2, None)" "at_path fs2 p (chowned n i)" "elsewhere fs1 fs2 p"
    using step_chown [OF 1(2) assms(3)] by blast
  obtain fs3 where 3: "setXattrs (rooted p) (h_Xattrs hdr) fs2 = (fs3, None)" "at_path fs3 p (withCap n (chowned n i))" "elsewhere fs2 fs3 p"
    using step_xattrs [OF 2(2) assms(3)] by blast
  have ft3: "fileType (withCap n (chowned n i)) = fileType n" by (simp add: fileType_withCap fileType_chowned ft)
  obtain fs4 where 4: "handleLChmod hdr (rooted p) fs3 = (fs4, None)" "at_path fs4 p (chmodded n (withCap n (chowned n i)))" "elsewhere fs3 fs4 p"
    using step_chmod [OF 3(2) assms(3,1) ft3] by blast
  have ft4: "fileType (chmodded n (withCap n (chowned n i))) = fileType n" by (simp add: fileType_chmodded ft3)
  obtain fs5 where 5: "setTimes hdr (rooted p) fs4 = (fs5, None)" "at_path fs5 p (timed n (chmodded n (withCap n (chowned n i))))" "elsewhere fs4 fs5 p"
    using step_times [OF 4(2) assms(3,1) ft4] by blast
  have "h_Typeflag hdr \<noteq> TypeXGlobalHeader"
    using header_simps(1) [OF assms(3)] assms(1) by (auto simp: file_ok_def typeOf_def split: if_splits)
  then have "createTarFile (rooted p) ''/'' hdr body True None fs = (fs5, None)"
    using 1(1) 2(1) 3(1) 4(1) 5(1) by (simp add: createTarFile_def andThen_def)
  moreover have "elsewhere fs fs5 p" using 1(4) 2(3) 3(3) 4(3) 5(3) elsewhere_trans by metis
  ultimately show ?thesis using 5(2) attributes_unpacked [OF 1(3) assms(1)] by blast
qed

end
