(* ===== verification/Layer_Roundtrip.thy ===== *)
theory Layer_Roundtrip
  imports Layer_Entry Changes_Walk
begin

section \<open>A diff that is applied leaves no difference\<close>

text \<open>
  The whole way of a layer: the changes between two directories (\<^verbatim>\<open>ChangesDirs\<close>), their archive
  (\<^verbatim>\<open>ExportChanges\<close>), and its application to the old directory (\<^verbatim>\<open>UnpackLayer\<close> with the root as the
  destination, as the re-executed \<^verbatim>\<open>docker-applyLayer\<close> calls it after \<^verbatim>\<open>chroot\<close>).  The archive is applied
  in the order of the paths, so that a directory precedes what is in it; the invariant of the loop says
  what is at every path after a part of the list: what was recorded so far, nothing below what was deleted
  or replaced, and the old file elsewhere.
\<close>

subsection \<open>What the comparison sees of a file\<close>

definition fi_of :: "inode \<Rightarrow> finfo" where
  "fi_of i = \<lparr>fi_stat = \<lparr>st_mode = i_mode i, st_uid = i_uid i, st_gid = i_gid i, st_rdev = i_rdev i,
                st_size = int (length (i_data i)), st_mtim = i_mtime i\<rparr>,
              fi_capability = (case capOf i of None \<Rightarrow> [] | Some c \<Rightarrow> c)\<rparr>"

lemma dir_bits: "inodeIsDir i \<Longrightarrow> and (i_mode i) S_IFDIR = S_IFDIR"
proof -
  assume "inodeIsDir i"
  have "and (i_mode i) S_IFDIR = and (fileType i) S_IFDIR" by (simp add: fileType_def and.assoc S_IFDIR_def)
  then show ?thesis using \<open>inodeIsDir i\<close> by (simp add: inodeIsDir_def)
qed

lemma unpacked_same: "unpacked n r \<Longrightarrow> \<not> attrDiffers (fi_of r) (fi_of n)"
  using dir_bits [of n]
  by (auto simp: unpacked_def attrDiffers_def statDifferent_def sameFsTimeSpec_def secondsOf_def fi_of_def)

lemma norm_fields:
  assumes "norm_inode r = norm_inode o'"
  shows "i_mode r = i_mode o'" "i_uid r = i_uid o'" "i_gid r = i_gid o'" "i_rdev r = i_rdev o'" "i_data r = i_data o'"
    "capOf r = capOf o'" "\<not> inodeIsDir o' \<Longrightarrow> r = o'"
proof -
  have d: "inodeIsDir r = inodeIsDir o'" using assms norm_dir by metis
  show "i_mode r = i_mode o'" "i_uid r = i_uid o'" "i_gid r = i_gid o'" "i_rdev r = i_rdev o'" "i_data r = i_data o'" "capOf r = capOf o'"
    using assms d by (cases "inodeIsDir o'"; cases r; cases o'; simp add: norm_inode_def capOf_def)+
  show "r = o'" if "\<not> inodeIsDir o'" using assms d that by (simp add: norm_inode_def)
qed

lemma norm_differs:
  assumes "norm_inode r = norm_inode o'"
  shows "attrDiffers (fi_of r) a = attrDiffers (fi_of o') a"
proof (cases "inodeIsDir o'")
  case True
  show ?thesis using norm_fields(1-6) [OF assms] dir_bits [OF True] by (simp add: attrDiffers_def statDifferent_def fi_of_def)
qed (simp add: norm_fields(7) [OF assms])

lemma unpacked_norm: "norm_inode r = norm_inode r' \<Longrightarrow> unpacked n r = unpacked n r'"
proof -
  assume r: "norm_inode r = norm_inode r'"
  note f = norm_fields [OF r]
  show ?thesis
  proof (cases "inodeIsDir r'")
    case True
    have "inodeIsDir n" if "i_mode r' = i_mode n" using that True by (simp add: inodeIsDir_def fileType_def)
    then show ?thesis using f(1-6) by (auto simp: unpacked_def)
  qed (simp add: f(7))
qed

lemma norm_idem [simp]: "norm_inode (norm_inode i) = norm_inode i"
  by (simp add: norm_inode_def inodeIsDir_def fileType_def)

subsection \<open>The order of the paths\<close>

lemma rooted_prefix_less:
  assumes "strict_prefix q p" "list_all plain p"
  shows "rooted q < rooted p"
proof -
  obtain z zs where p: "p = q @ z # zs" using assms(1) by (auto elim: strict_prefixE')
  have "\<exists>c s. rooted p = rooted q @ c # s"
  proof (cases "q = []")
    case True
    have "join CHR ''/'' (z # zs) \<noteq> []" using join_names(2) [of "z # zs"] assms(2) p True by simp
    then show ?thesis using p True by (auto simp: rooted_def neq_Nil_conv)
  next
    case False
    have "join CHR ''/'' (q @ z # zs) = join CHR ''/'' q @ CHR ''/'' # join CHR ''/'' (z # zs)" using False
    proof (induction q)
      case (Cons x q)
      then show ?case by (cases "q = []") (simp_all add: join_Cons)
    qed simp
    then show ?thesis using p by (auto simp: rooted_def)
  qed
  then obtain c s where "rooted p = rooted q @ c # s" by blast
  moreover have "(rooted q, rooted q @ c # s) \<in> lexord {(u, v). u < v}" by (rule lexord_append_rightI) blast
  ultimately show ?thesis by (simp add: list_less_def)
qed

subsection \<open>The list of changes, in terms of the two file systems\<close>

text \<open>\<open>fs\<close> is the old layer, \<open>new\<close> the file system that holds the new one at the path \<open>ds\<close>.\<close>

definition newAt :: "fsys \<Rightarrow> string list \<Rightarrow> string list \<Rightarrow> inode option" where
  "newAt new ds ms = inodeAt new (ds @ ms)"

definition bitAt :: "fsys \<Rightarrow> string list \<Rightarrow> string list \<Rightarrow> bool" where
  "bitAt new ds ms \<longleftrightarrow> ms = [] \<or> (\<exists>n. newAt new ds ms = Some n \<and> dirBit (fi_of n))"

definition recs :: "Change list \<Rightarrow> string list set" where
  "recs cs = {ms. list_all plain ms \<and> (\<exists>k. k \<noteq> ChangeDelete \<and> Change (rooted ms) k \<in> set cs)}"

definition dels :: "Change list \<Rightarrow> string list set" where
  "dels cs = {ms. list_all plain ms \<and> Change (rooted ms) ChangeDelete \<in> set cs}"

definition describes :: "Change list \<Rightarrow> fsys \<Rightarrow> fsys \<Rightarrow> string list \<Rightarrow> bool" where
  "describes cs fs new ds \<longleftrightarrow> distinct (map chPath cs)
     \<and> (\<forall>c \<in> set cs. \<exists>ms. ms \<noteq> [] \<and> list_all plain ms \<and> chPath c = rooted ms
         \<and> (if chKind c = ChangeDelete
            then newAt new ds ms = None \<and> inodeAt fs ms \<noteq> None \<and> bitAt new ds (butlast ms)
            else newAt new ds ms \<noteq> None))
     \<and> (\<forall>ms n. ms \<noteq> [] \<longrightarrow> newAt new ds ms = Some n \<longrightarrow> ms \<notin> recs cs \<longrightarrow>
           (\<exists>i. inodeAt fs ms = Some i \<and> \<not> attrDiffers (fi_of i) (fi_of n)))
     \<and> (\<forall>ms. ms \<noteq> [] \<longrightarrow> newAt new ds ms = None \<longrightarrow> inodeAt fs ms \<noteq> None \<longrightarrow> bitAt new ds (butlast ms) \<longrightarrow> ms \<in> dels cs)"

lemma describesD:
  assumes "describes cs fs new ds"
  shows "distinct (map chPath cs)"
    "ms \<in> recs cs \<Longrightarrow> ms \<noteq> [] \<and> newAt new ds ms \<noteq> None"
    "ms \<in> dels cs \<Longrightarrow> ms \<noteq> [] \<and> newAt new ds ms = None \<and> inodeAt fs ms \<noteq> None \<and> bitAt new ds (butlast ms)"
    "ms \<noteq> [] \<Longrightarrow> newAt new ds ms = Some n \<Longrightarrow> ms \<notin> recs cs \<Longrightarrow> \<exists>i. inodeAt fs ms = Some i \<and> \<not> attrDiffers (fi_of i) (fi_of n)"
    "ms \<noteq> [] \<Longrightarrow> newAt new ds ms = None \<Longrightarrow> inodeAt fs ms \<noteq> None \<Longrightarrow> bitAt new ds (butlast ms) \<Longrightarrow> ms \<in> dels cs"
    "c \<in> set cs \<Longrightarrow> \<exists>ms. ms \<noteq> [] \<and> list_all plain ms \<and> chPath c = rooted ms"
proof -
  note d = assms [unfolded describes_def]
  show "distinct (map chPath cs)" by (rule d [THEN conjunct1])
  note all = d [THEN conjunct2, THEN conjunct1, rule_format]
  show "ms \<noteq> [] \<and> newAt new ds ms \<noteq> None" if rec: "ms \<in> recs cs"
  proof -
    obtain k where k: "k \<noteq> ChangeDelete" "Change (rooted ms) k \<in> set cs" "list_all plain ms" using rec by (auto simp: recs_def)
    from all [OF k(2)] k obtain ms' where "ms' \<noteq> []" "list_all plain ms'" "rooted ms = rooted ms'" "newAt new ds ms' \<noteq> None" by auto
    then show ?thesis using rooted_inj [OF k(3)] by auto
  qed
  show "ms \<noteq> [] \<and> newAt new ds ms = None \<and> inodeAt fs ms \<noteq> None \<and> bitAt new ds (butlast ms)" if "ms \<in> dels cs"
  proof -
    have k: "Change (rooted ms) ChangeDelete \<in> set cs" "list_all plain ms" using that by (auto simp: dels_def)
    from all [OF k(1)] obtain ms' where "ms' \<noteq> []" "list_all plain ms'" "rooted ms = rooted ms'"
      "newAt new ds ms' = None \<and> inodeAt fs ms' \<noteq> None \<and> bitAt new ds (butlast ms')" by auto
    then show ?thesis using rooted_inj [OF k(2)] by auto
  qed
  show "\<exists>i. inodeAt fs ms = Some i \<and> \<not> attrDiffers (fi_of i) (fi_of n)" if "ms \<noteq> []" "newAt new ds ms = Some n" "ms \<notin> recs cs"
    using d [THEN conjunct2, THEN conjunct2, THEN conjunct1, rule_format, OF that] .
  show "ms \<in> dels cs" if "ms \<noteq> []" "newAt new ds ms = None" "inodeAt fs ms \<noteq> None" "bitAt new ds (butlast ms)"
    using d [THEN conjunct2, THEN conjunct2, THEN conjunct2, rule_format, OF that] .
  show "\<exists>ms. ms \<noteq> [] \<and> list_all plain ms \<and> chPath c = rooted ms" if "c \<in> set cs" using all [OF that] by blast
qed

subsection \<open>The invariant of the loop\<close>

definition gone :: "Change list \<Rightarrow> fsys \<Rightarrow> fsys \<Rightarrow> string list \<Rightarrow> string list \<Rightarrow> bool" where
  "gone cs fs new ds ms \<longleftrightarrow> (\<exists>p \<in> dels cs. prefix p ms)
     \<or> (\<exists>p \<in> recs cs. strict_prefix p ms \<and> \<not> (dirHere new (ds @ p) \<and> dirHere fs p))"

definition shows_at :: "Change list \<Rightarrow> fsys \<Rightarrow> fsys \<Rightarrow> string list \<Rightarrow> inode option \<Rightarrow> string list \<Rightarrow> bool" where
  "shows_at cs fs new ds v ms \<longleftrightarrow>
     (if ms \<in> recs cs then \<exists>n r. newAt new ds ms = Some n \<and> v = Some r \<and> unpacked n r
      else if gone cs fs new ds ms then v = None
      else v = view fs ms)"

definition loop_inv :: "Change list \<Rightarrow> fsys \<Rightarrow> fsys \<Rightarrow> string list \<Rightarrow> ustate \<Rightarrow> bool" where
  "loop_inv cs fs new ds st \<longleftrightarrow> good (u_fs st) \<and> u_tmp st = [] \<and> u_aufs st = []
     \<and> (\<forall>h \<in> set (u_dirs st). \<exists>ms n. ms \<in> recs cs \<and> newAt new ds ms = Some n \<and> inodeIsDir n \<and> file_ok n
          \<and> header_for h n \<and> h_Name h = join CHR ''/'' ms)
     \<and> (\<forall>ms. shows_at cs fs new ds (view (u_fs st) ms) ms)"

lemma loop_invD:
  assumes "loop_inv cs fs new ds st"
  shows "good (u_fs st)" "u_tmp st = []" "u_aufs st = []"
    "h \<in> set (u_dirs st) \<Longrightarrow> \<exists>ms n. ms \<in> recs cs \<and> newAt new ds ms = Some n \<and> inodeIsDir n \<and> file_ok n \<and> header_for h n \<and> h_Name h = join CHR ''/'' ms"
    "shows_at cs fs new ds (view (u_fs st) ms) ms"
  using assms unfolding loop_inv_def by blast+

lemma good_above: "good fs \<Longrightarrow> inodeAt fs ms \<noteq> None \<Longrightarrow> strict_prefix q ms \<Longrightarrow> dirHere fs q"
proof -
  assume g: "good fs" and i: "inodeAt fs ms \<noteq> None" and "strict_prefix q ms"
  then obtain z zs where ms: "ms = (q @ [z]) @ zs" by (auto elim: strict_prefixE')
  have "prefix (q @ [z]) ms" unfolding ms by (rule prefixI) simp
  then have "inodeAt fs (q @ [z]) \<noteq> None" using nothing_below [OF g, of "q @ [z]" ms] i by blast
  then show ?thesis by (rule goodD(3) [OF g])
qed

lemma new_above:
  assumes "good new" "newAt new ds ms \<noteq> None" "strict_prefix q ms"
  shows "dirHere new (ds @ q)"
proof (rule good_above [OF assms(1)])
  show "strict_prefix (ds @ q) (ds @ ms)" using assms(3) by (simp add: strict_prefix_def)
  show "inodeAt new (ds @ ms) \<noteq> None" using assms(2) by (simp add: newAt_def)
qed

lemma new_prefix: "good new \<Longrightarrow> newAt new ds ms \<noteq> None \<Longrightarrow> prefix q ms \<Longrightarrow> newAt new ds q \<noteq> None"
  unfolding newAt_def using nothing_below [of new "ds @ q" "ds @ ms"] same_prefix_prefix [of ds q ms] by metis

lemma not_deleted:
  assumes "describes cs fs new ds" "good new" "set cs' \<subseteq> set cs" "newAt new ds q \<noteq> None" "p \<in> dels cs'"
  shows "\<not> prefix p q"
proof
  assume "prefix p q"
  have "p \<in> dels cs" using assms(3,5) by (auto simp: dels_def)
  from describesD(3) [OF assms(1) this] new_prefix [OF assms(2,4) \<open>prefix p q\<close>] show False by simp
qed

lemma not_gone:
  assumes "describes cs fs new ds" "good new" "good fs" "set cs' \<subseteq> set cs" "newAt new ds q \<noteq> None" "inodeAt fs q \<noteq> None"
  shows "\<not> gone cs' fs new ds q"
proof
  assume "gone cs' fs new ds q"
  then show False unfolding gone_def
  proof
    assume "\<exists>p \<in> dels cs'. prefix p q"
    then show False using not_deleted [OF assms(1,2,4,5)] by blast
  next
    assume "\<exists>p \<in> recs cs'. strict_prefix p q \<and> \<not> (dirHere new (ds @ p) \<and> dirHere fs p)"
    then show False using new_above [OF assms(2,5)] good_above [OF assms(3,6)] by blast
  qed
qed

text \<open>A directory of the new layer that was recorded if it had to be is there.\<close>

lemma current_dir:
  assumes d: "describes cs fs new ds" "good new" "good fs" and sub: "set cs' \<subseteq> set cs" and inv: "loop_inv cs' fs new ds st"
    and q: "dirHere new (ds @ q)" "q \<in> recs cs \<Longrightarrow> q \<in> recs cs'"
  shows "dirHere (u_fs st) q"
proof (cases "q = []")
  case True
  then show ?thesis using goodD(2) [OF loop_invD(1) [OF inv]] by simp
next
  case False
  obtain n where n: "newAt new ds q = Some n" "inodeIsDir n" using q(1) by (auto simp: newAt_def dirHere_def split: option.splits)
  note sh = loop_invD(5) [OF inv, of q]
  show ?thesis
  proof (cases "q \<in> recs cs'")
    case True
    then obtain r where "view (u_fs st) q = Some r" "unpacked n r" using sh n(1) by (auto simp: shows_at_def)
    then show ?thesis using n(2) by (auto simp: dirHere_view unpacked_def inodeIsDir_def fileType_def)
  next
    case False
    then have "q \<notin> recs cs" using q(2) by blast
    from describesD(4) [OF d(1) \<open>q \<noteq> []\<close> n(1) this] obtain i where i: "inodeAt fs q = Some i" "\<not> attrDiffers (fi_of i) (fi_of n)" by blast
    have "inodeIsDir i" using i(2) n(2) by (simp add: attrDiffers_def statDifferent_def fi_of_def inodeIsDir_def fileType_def)
    moreover have "\<not> gone cs' fs new ds q" using not_gone [OF d(1-3) sub, of q] n(1) i(1) by simp
    ultimately show ?thesis using sh False i(1) by (auto simp: shows_at_def dirHere_view view_def)
  qed
qed

subsection \<open>One entry\<close>

lemma whiteout_noslash: "CHR ''/'' \<notin> set WhiteoutPrefix" "CHR ''/'' \<notin> set WhiteoutMetaPrefix"
  by code_simp+

lemma meta_whiteout: "has_prefix n WhiteoutMetaPrefix \<Longrightarrow> has_prefix n WhiteoutPrefix"
  by (auto simp: has_prefix_iff WhiteoutMetaPrefix_def)

text \<open>An entry at a path whose parent is there and whose first component is no metadata.\<close>

lemma unpack_entry:
  assumes "list_all plain p" "p \<noteq> []" "Clean (h_Name (fst e)) = join CHR ''/'' p" "\<not> has_prefix (hd p) WhiteoutMetaPrefix"
    and parent: "osLstat (u_fs st) (rooted (butlast p)) \<noteq> Inl ENOENT"
  shows "unpackEntry ''/'' tempDir maps root e st =
    (if has_prefix (last p) WhiteoutPrefix then applyWhiteout (rooted p) st
     else placeEntry ''/'' maps root (rooted p) ((fst e)\<lparr>h_Name := join CHR ''/'' p\<rparr>) (snd e) st)"
proof -
  let ?name = "join CHR ''/'' p"
  obtain a as where p: "p = a # as" using assms(2) by (cases p) auto
  have meta: "\<not> has_prefix ?name WhiteoutMetaPrefix"
    using prefix_first [of a as WhiteoutMetaPrefix] whiteout_noslash(2) assms(4) p by auto
  then have link: "\<not> has_prefix ?name WhiteoutLinkDir" by (auto simp: has_prefix_iff WhiteoutLinkDir_def)
  have base: "BasePath (rooted p) = last p"
    using BasePath_rooted [of "last p" "butlast p"] assms(1,2) by (simp add: list_all_iff)
  have par: "ensureParent ''/'' w ?name (u_fs st) = (u_fs st, None)" for w
    using parent JoinPath_DirPath [OF assms(1,2)] by (simp add: ensureParent_def Let_def)
  have st: "onFs st (u_fs st, None) = (st, None)" by (simp add: onFs_def)
  show ?thesis
    using RelPath_slash [OF assms(1,2)]
    by (simp add: unpackEntry_def Let_def assms(3) par st thenState_def link meta JoinPath_slash [OF assms(1)] base)
qed

lemma place_entry:
  assumes "clearPath hdr (rooted p) (u_fs st) = (fs1, None)" "createTarFile (rooted p) ''/'' hdr body True None fs1 = (fs2, None)"
    and "h_Typeflag hdr \<noteq> TypeLink"
  shows "placeEntry ''/'' (None, None) (0, 0) (rooted p) hdr body st =
    (st\<lparr>u_fs := fs2, u_dirs := u_dirs st @ (if h_Typeflag hdr = TypeDir then [hdr] else []), u_unpacked := rooted p # u_unpacked st\<rparr>, None)"
proof -
  have "toHostHeader (None, None) (0, 0) hdr = Inr hdr" by (simp add: toHostHeader_def ToHost_def)
  then show ?thesis using assms by (simp add: placeEntry_def onFs_def thenState_def sourceOf_def)
qed

lemma apply_whiteout:
  assumes "list_all plain q" "plain b" "\<not> has_prefix b WhiteoutPrefix" "osRemoveAll (u_fs st) (rooted (q @ [b])) = (fs', None)"
  shows "applyWhiteout (rooted (q @ [WhiteoutPrefix @ b])) st = (st\<lparr>u_fs := fs'\<rparr>, None)"
proof -
  have pl: "plain (WhiteoutPrefix @ b)" using assms(2) by (auto simp: plain_def WhiteoutPrefix_def)
  have "WhiteoutPrefix @ b \<noteq> WhiteoutOpaqueDir"
    using assms(3) by (auto simp: WhiteoutOpaqueDir_def WhiteoutMetaPrefix_def has_prefix_iff)
  then show ?thesis
    using assms(4) by (simp add: applyWhiteout_def Let_def DirPath_rooted [OF assms(1) pl] BasePath_rooted [OF pl]
        JoinPath_rooted [OF assms(1,2)] onFs_def lift_os_def)
qed

text \<open>What is in the way of a file of the new layer goes; a directory stays for a directory.\<close>

lemma clear_path:
  assumes g: "good fs" "list_all plain p" "p \<noteq> []" "dirs_to fs p" and n: "file_ok n" "header_for hdr n"
    and merge: "\<And>d. inodeAt fs p = Some d \<Longrightarrow> inodeIsDir d \<Longrightarrow> capOf d = None \<and> i_rdev d = 0"
  shows "\<exists>fs1. clearPath hdr (rooted p) fs = (fs1, None) \<and> place_for fs1 p n
    \<and> (\<forall>ks. view fs1 ks = (if prefix p ks \<and> \<not> (dirHere fs p \<and> inodeIsDir n) then None else view fs ks))"
proof -
  have dir: "h_Typeflag hdr = TypeDir \<longleftrightarrow> inodeIsDir n"
    using header_simps(1) [OF n(2)] n(1) by (auto simp: file_ok_def typeOf_def inodeIsDir_def S_IFDIR_def split: if_splits)
  note ls = lstat_dirs [OF g(1,2,4)]
  show ?thesis
  proof (cases "inodeAt fs p")
    case None
    then have "place_for fs p n" using g by (simp add: place_for_def free_path_def)
    moreover have "view fs ks = None" if "prefix p ks" for ks using nothing_below [OF g(1) None that] by simp
    ultimately show ?thesis using ls None by (auto simp: clearPath_def)
  next
    case (Some d)
    show ?thesis
    proof (cases "inodeIsDir d \<and> inodeIsDir n")
      case True
      then have "place_for fs p n" using g merge [OF Some] Some by (auto simp: place_for_def at_path_def)
      then show ?thesis using True ls Some dir by (auto simp: clearPath_def dirHere_def)
    next
      case False
      obtain fs1 where fs1: "osRemoveAll fs (rooted p) = (fs1, None)" "good fs1" "\<And>ks. view fs1 ks = (if prefix p ks then None else view fs ks)"
        using remove_all [OF g(1,2,4,3)] by blast
      have "dirHere fs1 q" if "strict_prefix q p" for q
        using dirs_toD [OF g(4) that] that unfolding dirHere_view fs1(3) by (auto simp: strict_prefix_def prefix_order.antisym_conv)
      moreover have "inodeAt fs1 p = None" using fs1(3) [of p] view_None [of fs1 p] by simp
      ultimately have "place_for fs1 p n" using fs1(2) g(2,3) by (simp add: place_for_def free_path_def dirs_to_def)
      then show ?thesis using False ls Some dir fs1 by (auto simp: clearPath_def dirHere_def lift_os_def)
    qed
  qed
qed

subsection \<open>The loop\<close>

definition name_ok :: "string \<Rightarrow> bool" where
  "name_ok n \<longleftrightarrow> \<not> has_prefix n WhiteoutPrefix"

definition layer_pair :: "Change list \<Rightarrow> fsys \<Rightarrow> fsys \<Rightarrow> string list \<Rightarrow> bool" where
  "layer_pair cs fs new ds \<longleftrightarrow> describes cs fs new ds \<and> good fs \<and> good new \<and> list_all plain ds
     \<and> sorted_wrt (<) (map chPath cs)
     \<and> (\<forall>ms i. inodeAt fs ms = Some i \<longrightarrow> list_all name_ok ms \<and> (inodeIsDir i \<longrightarrow> capOf i = None \<and> i_rdev i = 0))
     \<and> (\<forall>ms n. ms \<noteq> [] \<longrightarrow> newAt new ds ms = Some n \<longrightarrow> list_all name_ok ms \<and> file_ok n)"

lemma layer_pairD:
  assumes "layer_pair cs fs new ds"
  shows "describes cs fs new ds" "good fs" "good new" "list_all plain ds" "sorted_wrt (<) (map chPath cs)"
    "inodeAt fs ms = Some i \<Longrightarrow> list_all name_ok ms \<and> (inodeIsDir i \<longrightarrow> capOf i = None \<and> i_rdev i = 0)"
    "ms \<noteq> [] \<Longrightarrow> newAt new ds ms = Some n \<Longrightarrow> list_all name_ok ms \<and> file_ok n"
  using assms unfolding layer_pair_def by blast+

lemma sorted_before:
  assumes "sorted_wrt (<) (map chPath (done' @ c # rest))"
  shows "q \<in> recs (done' @ c # rest) \<Longrightarrow> rooted q < chPath c \<Longrightarrow> q \<in> recs done'"
    "q \<in> recs done' \<or> q \<in> dels done' \<Longrightarrow> rooted q < chPath c"
proof -
  have a: "x \<in> set done' \<Longrightarrow> chPath x < chPath c" and b: "x \<in> set rest \<Longrightarrow> chPath c < chPath x" for x
    using assms by (auto simp: sorted_wrt_append)
  show "q \<in> recs done'" if "q \<in> recs (done' @ c # rest)" "rooted q < chPath c"
    using that b [of "Change (rooted q) k" for k] by (fastforce simp: recs_def dest: less_asym)
  show "rooted q < chPath c" if "q \<in> recs done' \<or> q \<in> dels done'"
    using that a [of "Change (rooted q) k" for k] by (auto simp: recs_def dels_def)
qed

lemma recs_snoc: "list_all plain p \<Longrightarrow> k \<noteq> ChangeDelete \<Longrightarrow> recs (cs @ [Change (rooted p) k]) = insert p (recs cs)"
  using rooted_inj by (auto simp: recs_def)

lemma dels_snoc: "k \<noteq> ChangeDelete \<Longrightarrow> dels (cs @ [Change (rooted p) k]) = dels cs"
  by (auto simp: dels_def)

lemma recs_snoc_del: "recs (cs @ [Change (rooted p) ChangeDelete]) = recs cs"
  by (auto simp: recs_def)

lemma dels_snoc_del: "list_all plain p \<Longrightarrow> dels (cs @ [Change (rooted p) ChangeDelete]) = insert p (dels cs)"
  using rooted_inj by (auto simp: dels_def)

text \<open>The order gives what the step needs: the directories above are there, nothing below was touched.\<close>

lemma step_context:
  assumes L: "layer_pair (done' @ c # rest) fs new ds" and inv: "loop_inv done' fs new ds st" and c: "chPath c = rooted p" "list_all plain p"
  shows "strict_prefix q p \<Longrightarrow> dirHere new (ds @ q) \<Longrightarrow> dirHere (u_fs st) q"
    "ms \<in> recs done' \<or> ms \<in> dels done' \<Longrightarrow> \<not> prefix p ms"
proof -
  note srt = layer_pairD(5) [OF L]
  show "dirHere (u_fs st) q" if q: "strict_prefix q p" "dirHere new (ds @ q)"
  proof (rule current_dir [OF layer_pairD(1,3,2) [OF L] _ inv q(2)])
    show "set done' \<subseteq> set (done' @ c # rest)" by auto
    show "q \<in> recs done'" if "q \<in> recs (done' @ c # rest)"
      using sorted_before(1) [OF srt that] rooted_prefix_less [OF q(1) c(2)] c(1) by simp
  qed
  show "\<not> prefix p ms" if "ms \<in> recs done' \<or> ms \<in> dels done'"
  proof
    assume "prefix p ms"
    have less: "rooted ms < rooted p" using sorted_before(2) [OF srt that] c(1) by simp
    have "list_all plain ms" using that by (auto simp: recs_def dels_def)
    then have "p = ms \<or> rooted p < rooted ms" using \<open>prefix p ms\<close> rooted_prefix_less [of p ms] by (auto simp: strict_prefix_def)
    with less show False by auto
  qed
qed

lemma gone_below: "gone cs fs new ds p \<Longrightarrow> prefix p ms \<Longrightarrow> gone cs fs new ds ms"
  unfolding gone_def by (meson prefix_order.trans prefix_order.less_le_trans)

lemma entry_name:
  assumes "list_all plain p" "p \<noteq> []"
  shows "Clean (h_Name (fst (entryOf n (tl (rooted p))))) = join CHR ''/'' p"
proof -
  have "tl (rooted p) = join CHR ''/'' p" by (simp add: rooted_def)
  then show ?thesis using Clean_join [OF assms] by (simp add: entryOf_def canonicalTarName_def)
qed

lemma header_entry: "header_for ((fst (entryOf n name))\<lparr>h_Name := name'\<rparr>) n"
  unfolding header_for_def by blast

text \<open>Recording a file keeps the invariant.\<close>

lemma shows_recorded:
  assumes old: "\<And>ms. shows_at done' fs new ds (v ms) ms" and p: "list_all plain p" "k \<noteq> ChangeDelete" "p \<notin> recs done'"
    and n: "newAt new ds p = Some n" "v' p = Some r" "unpacked n r"
    and v': "\<And>ms. ms \<noteq> p \<Longrightarrow> v' ms = (if prefix p ms \<and> \<not> (cur \<and> inodeIsDir n) then None else v ms)"
    and cur: "cur \<Longrightarrow> \<not> gone done' fs new ds p \<Longrightarrow> dirHere fs p" "\<not> gone done' fs new ds p \<Longrightarrow> dirHere fs p \<Longrightarrow> cur"
      "gone done' fs new ds p \<Longrightarrow> \<not> cur"
    and below: "\<And>ms. ms \<in> recs done' \<Longrightarrow> \<not> prefix p ms"
  shows "shows_at (done' @ [Change (rooted p) k]) fs new ds (v' ms) ms"
proof -
  have newdir: "dirHere new (ds @ p) \<longleftrightarrow> inodeIsDir n" using n(1) by (simp add: newAt_def dirHere_def)
  have g: "gone (done' @ [Change (rooted p) k]) fs new ds ms \<longleftrightarrow>
      gone done' fs new ds ms \<or> strict_prefix p ms \<and> \<not> (inodeIsDir n \<and> dirHere fs p)"
    unfolding gone_def recs_snoc [OF p(1,2)] dels_snoc [OF p(2)] newdir [symmetric] by blast
  show ?thesis
  proof (cases "ms = p")
    case True
    then show ?thesis using n by (simp add: shows_at_def recs_snoc [OF p(1,2)])
  next
    case False
    note o = old [of ms]
    show ?thesis
    proof (cases "ms \<in> recs done'")
      case True
      then show ?thesis using o below [OF True] v' [OF False] by (simp add: shows_at_def recs_snoc [OF p(1,2)])
    next
      case notrec: False
      have "v' ms = None" if "gone done' fs new ds ms \<or> strict_prefix p ms \<and> \<not> (inodeIsDir n \<and> dirHere fs p)"
        using that
      proof
        assume "gone done' fs new ds ms"
        then show ?thesis using o notrec v' [OF False] by (simp add: shows_at_def)
      next
        assume *: "strict_prefix p ms \<and> \<not> (inodeIsDir n \<and> dirHere fs p)"
        then have pm: "prefix p ms" by (simp add: strict_prefix_def)
        show ?thesis
        proof (cases "gone done' fs new ds p")
          case True
          then show ?thesis using gone_below [OF True pm] o notrec v' [OF False] by (simp add: shows_at_def)
        next
          case False
          then have "\<not> (cur \<and> inodeIsDir n)" using * cur(1) by blast
          then show ?thesis using v' [OF \<open>ms \<noteq> p\<close>] pm by simp
        qed
      qed
      moreover have "v' ms = view fs ms" if ng: "\<not> (gone done' fs new ds ms \<or> strict_prefix p ms \<and> \<not> (inodeIsDir n \<and> dirHere fs p))"
      proof -
        have "v ms = view fs ms" using o notrec ng by (simp add: shows_at_def)
        moreover have "cur \<and> inodeIsDir n" if "prefix p ms"
        proof -
          have "strict_prefix p ms" using that False by (auto simp: strict_prefix_def)
          then have "inodeIsDir n \<and> dirHere fs p" using ng by blast
          moreover have "\<not> gone done' fs new ds p" using gone_below [OF _ that] ng by blast
          ultimately show ?thesis using cur(2) by blast
        qed
        ultimately show ?thesis using v' [OF False] by auto
      qed
      ultimately show ?thesis using notrec False by (simp add: shows_at_def recs_snoc [OF p(1,2)] g)
    qed
  qed
qed

lemma record_step:
  assumes L: "layer_pair (done' @ c # rest) fs new ds" and inv: "loop_inv done' fs new ds st"
    and c: "c = Change (rooted p) k" "k \<noteq> ChangeDelete" "list_all plain p" "p \<noteq> []" and n: "newAt new ds p = Some n"
  shows "\<exists>st'. unpackEntry ''/'' tempDir (None, None) (0, 0) (entryOf n (tl (rooted p))) st = (st', None)
    \<and> loop_inv (done' @ [c]) fs new ds st'"
proof -
  let ?fs = "u_fs st"
  have ctx: "strict_prefix q p \<Longrightarrow> dirHere new (ds @ q) \<Longrightarrow> dirHere ?fs q"
    "ms \<in> recs done' \<or> ms \<in> dels done' \<Longrightarrow> \<not> prefix p ms" for q ms
    using step_context [OF L inv, of p] c(1,3) by auto
  have g: "good ?fs" by (rule loop_invD(1) [OF inv])
  have ok: "list_all name_ok p" "file_ok n" using layer_pairD(7) [OF L c(4) n] by auto
  have above: "dirs_to ?fs p" unfolding dirs_to_def
    using ctx(1) new_above [OF layer_pairD(3) [OF L], of ds p] n by (metis option.distinct(1))
  have pn: "p \<notin> recs done'" using ctx(2) [of p] by auto
  note sh = loop_invD(5) [OF inv]
  have cur: "gone done' fs new ds p \<Longrightarrow> inodeAt ?fs p = None" "\<not> gone done' fs new ds p \<Longrightarrow> view ?fs p = view fs p"
    using sh [of p] pn view_None [of ?fs p] by (auto simp: shows_at_def)
  define hdr where "hdr = (fst (entryOf n (tl (rooted p))))\<lparr>h_Name := join CHR ''/'' p\<rparr>"
  have nm: "header_for hdr n" unfolding hdr_def by (rule header_entry)
  have "capOf d = None \<and> i_rdev d = 0" if d: "inodeAt ?fs p = Some d" "inodeIsDir d" for d
  proof -
    have "view fs p = Some (norm_inode d)" using cur d by (cases "gone done' fs new ds p") (auto simp: view_def)
    then obtain i where i: "inodeAt fs p = Some i" "norm_inode d = norm_inode i" by (auto simp: view_def)
    then have "inodeIsDir i" using d(2) norm_dir by metis
    then show ?thesis using layer_pairD(6) [OF L i(1)] norm_fields(4,6) [OF i(2)] by simp
  qed
  from clear_path [OF g c(3,4) above ok(2) nm this] obtain fs1 where fs1: "clearPath hdr (rooted p) ?fs = (fs1, None)" "place_for fs1 p n"
    "\<And>ks. view fs1 ks = (if prefix p ks \<and> \<not> (dirHere ?fs p \<and> inodeIsDir n) then None else view ?fs ks)" by blast
  obtain fs2 r where fs2: "createTarFile (rooted p) ''/'' hdr (snd (entryOf n (tl (rooted p)))) True None fs1 = (fs2, None)"
    "at_path fs2 p r" "unpacked n r" "elsewhere fs1 fs2 p"
    using file_through_archive [OF ok(2) fs1(2) nm] by (auto simp: entryOf_def)
  have notlink: "h_Typeflag hdr \<noteq> TypeLink" and dir: "h_Typeflag hdr = TypeDir \<longleftrightarrow> inodeIsDir n"
    using header_simps(1) [OF nm] ok(2) by (auto simp: file_ok_def typeOf_def inodeIsDir_def S_IFDIR_def split: if_splits)
  let ?st = "st\<lparr>u_fs := fs2, u_dirs := u_dirs st @ (if h_Typeflag hdr = TypeDir then [hdr] else []), u_unpacked := rooted p # u_unpacked st\<rparr>"
  have "osLstat ?fs (rooted (butlast p)) \<noteq> Inl ENOENT"
  proof -
    have pb: "list_all plain (butlast p)" using c(3) by (auto simp: list_all_iff dest: in_set_butlastD)
    have sp: "strict_prefix (butlast p) p" using strict_prefixI' [of p "butlast p" "last p" "[]"] c(4) by simp
    have "dirs_to ?fs (butlast p)" unfolding dirs_to_def
      using dirs_toD [OF above] prefix_order.less_trans [OF _ sp] by blast
    from lstat_dirs [OF g pb this] dirs_toD [OF above sp] show ?thesis by (auto simp: dirHere_def split: option.splits)
  qed
  moreover have "\<not> has_prefix (hd p) WhiteoutMetaPrefix" "\<not> has_prefix (last p) WhiteoutPrefix"
    using ok(1) meta_whiteout [of "hd p"] c(4) by (auto simp: list_all_iff name_ok_def)
  ultimately have "unpackEntry ''/'' tempDir (None, None) (0, 0) (entryOf n (tl (rooted p))) st = (?st, None)"
    using unpack_entry [OF c(3,4) entry_name [OF c(3,4)], of st tempDir "(None, None)" "(0, 0)" n] place_entry [OF fs1(1) fs2(1) notlink]
    by (simp add: hdr_def)
  moreover have "shows_at (done' @ [c]) fs new ds (view fs2 ms) ms" for ms
    unfolding c(1)
  proof (rule shows_recorded [where cur = "dirHere ?fs p" and r = "norm_inode r", OF sh c(3,2) pn n])
    show "view fs2 p = Some (norm_inode r)" using fs2(2) by (simp add: view_def at_path_def)
    show "unpacked n (norm_inode r)" using unpacked_norm [of "norm_inode r" r n] fs2(3) by simp
    show "view fs2 ms = (if prefix p ms \<and> \<not> (dirHere ?fs p \<and> inodeIsDir n) then None else view ?fs ms)" if "ms \<noteq> p" for ms
      using fs2(4) that fs1(3) [of ms] by (simp add: elsewhere_def)
    show "dirHere ?fs p \<Longrightarrow> \<not> gone done' fs new ds p \<Longrightarrow> dirHere fs p" "\<not> gone done' fs new ds p \<Longrightarrow> dirHere fs p \<Longrightarrow> dirHere ?fs p"
      using cur(2) by (simp_all add: dirHere_view)
    show "\<not> dirHere ?fs p" if "gone done' fs new ds p" using cur(1) [OF that] by (simp add: dirHere_def)
    show "\<not> prefix p ms" if "ms \<in> recs done'" for ms using ctx(2) that by blast
  qed
  moreover have "\<exists>ms n. ms \<in> recs (done' @ [c]) \<and> newAt new ds ms = Some n \<and> inodeIsDir n \<and> file_ok n \<and> header_for h n \<and> h_Name h = join CHR ''/'' ms"
    if "h \<in> set (u_dirs ?st)" for h
  proof (cases "h \<in> set (u_dirs st)")
    case True
    then show ?thesis using loop_invD(4) [OF inv] unfolding c(1) recs_snoc [OF c(3,2)] by blast
  next
    case False
    then have "h = hdr" "inodeIsDir n" using that dir by (auto split: if_splits)
    moreover have "h_Name hdr = join CHR ''/'' p" by (simp add: hdr_def)
    ultimately show ?thesis using n ok(2) nm unfolding c(1) recs_snoc [OF c(3,2)] by blast
  qed
  ultimately show ?thesis using fs2(2) loop_invD(2,3) [OF inv] by (auto simp: loop_inv_def at_path_def)
qed

text \<open>So does a deletion.\<close>

lemma shows_deleted:
  assumes old: "\<And>ms. shows_at done' fs new ds (v ms) ms" and p: "list_all plain p"
    and v': "\<And>ms. v' ms = (if prefix p ms then None else v ms)"
    and below: "\<And>ms. ms \<in> recs done' \<Longrightarrow> \<not> prefix p ms"
  shows "shows_at (done' @ [Change (rooted p) ChangeDelete]) fs new ds (v' ms) ms"
proof -
  have g: "gone (done' @ [Change (rooted p) ChangeDelete]) fs new ds ms \<longleftrightarrow> gone done' fs new ds ms \<or> prefix p ms"
    unfolding gone_def recs_snoc_del dels_snoc_del [OF p] by blast
  show ?thesis using old [of ms] v' [of ms] below [of ms] by (auto simp: shows_at_def recs_snoc_del g split: if_splits)
qed

lemma link_no_bit: "inodeIsLink i \<Longrightarrow> \<not> dirBit (fi_of i)"
proof -
  assume "inodeIsLink i"
  have "and (i_mode i) S_IFDIR = and (fileType i) S_IFDIR" by (simp add: fileType_def and.assoc S_IFDIR_def)
  also have "\<dots> = 0" using \<open>inodeIsLink i\<close> by (simp add: inodeIsLink_def S_IFDIR_def)
  finally show ?thesis by (simp add: dirBit_def fi_of_def)
qed

text \<open>The parent of a deleted file is a directory, or a file of the new layer that replaced one.\<close>

lemma delete_removes:
  assumes L: "layer_pair (done' @ c # rest) fs new ds" and inv: "loop_inv done' fs new ds st"
    and c: "c = Change (rooted p) ChangeDelete" "p = q @ [b]" "list_all plain p"
    and d: "newAt new ds p = None" "inodeAt fs p \<noteq> None" "bitAt new ds q"
  shows "\<exists>fs'. osRemoveAll (u_fs st) (rooted p) = (fs', None) \<and> good fs' \<and> (\<forall>ks. view fs' ks = (if prefix p ks then None else view (u_fs st) ks))"
    "osLstat (u_fs st) (rooted q) \<noteq> Inl ENOENT"
proof -
  let ?fs = "u_fs st"
  have g: "good ?fs" by (rule loop_invD(1) [OF inv])
  have ctx: "strict_prefix q' p \<Longrightarrow> dirHere new (ds @ q') \<Longrightarrow> dirHere ?fs q'" for q'
    using step_context(1) [OF L inv, of p] c(1,3) by auto
  have pq: "list_all plain q" "plain b" using c(2,3) by auto
  have sq: "strict_prefix q p" using c(2) by (auto simp: strict_prefix_def)
  have aboveq: "dirs_to ?fs q" unfolding dirs_to_def
  proof (intro allI impI)
    fix q' assume q': "strict_prefix q' q"
    then have "q \<noteq> []" by auto
    then obtain nq where "newAt new ds q = Some nq" using d(3) by (auto simp: bitAt_def)
    then have "dirHere new (ds @ q')" using new_above [OF layer_pairD(3) [OF L] _ q', of ds] by simp
    then show "dirHere ?fs q'" using ctx prefix_order.less_trans [OF q' sq] by blast
  qed
  have found: "dirHere ?fs q \<or> (\<exists>i. inodeAt ?fs q = Some i \<and> \<not> inodeIsDir i \<and> \<not> inodeIsLink i)"
  proof (cases "q = [] \<or> dirHere new (ds @ q)")
    case True
    then have "dirHere ?fs q" using goodD(2) [OF g] ctx [OF sq] by auto
    then show ?thesis ..
  next
    case False
    then obtain nq where nq: "newAt new ds q = Some nq" "dirBit (fi_of nq)" using d(3) by (auto simp: bitAt_def)
    have notdir: "\<not> inodeIsDir nq" using False nq(1) by (auto simp: newAt_def dirHere_def)
    have olddir: "dirHere fs q" using good_above [OF layer_pairD(2) [OF L] d(2) sq] .
    have "q \<in> recs (done' @ c # rest)"
    proof (rule ccontr)
      assume "q \<notin> recs (done' @ c # rest)"
      then obtain i where i: "inodeAt fs q = Some i" "\<not> attrDiffers (fi_of i) (fi_of nq)"
        using describesD(4) [OF layer_pairD(1) [OF L] _ nq(1)] False by blast
      then show False using olddir notdir by (simp add: dirHere_def attrDiffers_def statDifferent_def fi_of_def inodeIsDir_def fileType_def)
    qed
    then have "q \<in> recs done'" using sorted_before(1) [OF layer_pairD(5) [OF L]] rooted_prefix_less [OF sq c(3)] c(1) by simp
    then obtain r where r: "view ?fs q = Some r" "unpacked nq r" using loop_invD(5) [OF inv, of q] nq(1) by (auto simp: shows_at_def)
    then obtain i where i: "inodeAt ?fs q = Some i" "r = norm_inode i" by (auto simp: view_def)
    have "i_mode i = i_mode nq" using r(2) i(2) norm_fields(1) [of "norm_inode i" i] by (simp add: unpacked_def)
    then have "\<not> inodeIsDir i" "\<not> inodeIsLink i" using notdir link_no_bit [of nq] nq(2) by (auto simp: inodeIsDir_def inodeIsLink_def fileType_def)
    then show ?thesis using i(1) by blast
  qed
  show "osLstat ?fs (rooted q) \<noteq> Inl ENOENT"
    using lstat_dirs [OF g pq(1) aboveq] found by (auto simp: dirHere_def split: option.splits)
  show "\<exists>fs'. osRemoveAll ?fs (rooted p) = (fs', None) \<and> good fs' \<and> (\<forall>ks. view fs' ks = (if prefix p ks then None else view ?fs ks))"
    using found
  proof
    assume 1: "dirHere ?fs q"
    have "dirs_to ?fs p" unfolding dirs_to_def
      using dirs_toD [OF aboveq] 1 c(2) by (auto simp: strict_prefix_def)
    then show ?thesis using remove_all [OF g c(3)] c(2) by simp
  next
    assume "\<exists>i. inodeAt ?fs q = Some i \<and> \<not> inodeIsDir i \<and> \<not> inodeIsLink i"
    then obtain i where 2: "inodeAt ?fs q = Some i" "\<not> inodeIsDir i" "\<not> inodeIsLink i" by blast
    note rb = remove_below_file [OF g pq(1) aboveq 2 pq(2)]
    have "view ?fs ks = None" if "prefix p ks" for ks using that rb(2) c(2) by (auto simp: prefix_def view_None)
    then show ?thesis using rb(1) g c(2) by auto
  qed
qed

end
