(* ===== verification/Layer_Applied.thy ===== *)
theory Layer_Applied
  imports Layer_Roundtrip
begin

section \<open>From two directories to a layer and back\<close>

text \<open>
  The loop of \<^verbatim>\<open>UnpackLayer\<close> over a whole archive, the archive that \<^verbatim>\<open>ExportChanges\<close> writes, and the
  list of changes that \<^verbatim>\<open>ChangesDirs\<close> reads from the host, put together.
\<close>

subsection \<open>The end of the loop\<close>

lemma whiteout_path:
  assumes "list_all plain q" "plain b"
  shows "plain (WhiteoutPrefix @ b)" "h_Name (fst (whiteoutEntry new (rooted (q @ [b])))) = join CHR ''/'' (q @ [WhiteoutPrefix @ b])"
proof -
  show w: "plain (WhiteoutPrefix @ b)" using assms(2) by (auto simp: plain_def WhiteoutPrefix_def)
  show "h_Name (fst (whiteoutEntry new (rooted (q @ [b])))) = join CHR ''/'' (q @ [WhiteoutPrefix @ b])"
    by (simp add: whiteoutEntry_def Let_def onWire_def DirPath_rooted [OF assms] BasePath_rooted [OF assms(2)]
        JoinPath_rooted [OF assms(1) w]) (simp add: rooted_def)
qed

lemma whiteout_step:
  assumes L: "layer_pair (done' @ c # rest) fs new ds" and inv: "loop_inv done' fs new ds st"
    and c: "c = Change (rooted p) ChangeDelete" "list_all plain p" "p \<noteq> []"
    and d: "newAt new ds p = None" "inodeAt fs p \<noteq> None" "bitAt new ds (butlast p)"
  shows "\<exists>st'. unpackEntry ''/'' tempDir (None, None) (0, 0) (whiteoutEntry new (rooted p)) st = (st', None)
    \<and> loop_inv (done' @ [c]) fs new ds st'"
proof -
  define q b where "q = butlast p" and "b = last p"
  have p: "p = q @ [b]" using c(3) by (simp add: q_def b_def)
  have pl: "list_all plain q" "plain b" using c(2) p by auto
  note w = whiteout_path [OF pl]
  note del = delete_removes [OF L inv c(1) p c(2) d(1,2) d(3) [folded q_def]]
  obtain fs' where fs': "osRemoveAll (u_fs st) (rooted p) = (fs', None)" "good fs'"
    "\<And>ks. view fs' ks = (if prefix p ks then None else view (u_fs st) ks)" using del(1) by blast
  obtain i where "inodeAt fs p = Some i" using d(2) by blast
  from layer_pairD(6) [OF L this] have ok: "list_all name_ok q" "name_ok b" using p by auto
  let ?w = "q @ [WhiteoutPrefix @ b]"
  have wp: "list_all plain ?w" using pl w(1) by simp
  have "\<not> has_prefix (hd ?w) WhiteoutMetaPrefix"
    using ok meta_whiteout [of "hd q"] by (cases q) (auto simp: name_ok_def has_prefix_iff WhiteoutMetaPrefix_def)
  moreover have "Clean (h_Name (fst (whiteoutEntry new (rooted p)))) = join CHR ''/'' ?w"
    unfolding p w(2) by (rule Clean_join(1) [OF wp]) simp
  ultimately have "unpackEntry ''/'' tempDir (None, None) (0, 0) (whiteoutEntry new (rooted p)) st = applyWhiteout (rooted ?w) st"
    using unpack_entry [OF wp, of "whiteoutEntry new (rooted p)" st tempDir "(None, None)" "(0, 0)"] del(2) by (simp add: has_prefix_iff)
  also have "\<dots> = (st\<lparr>u_fs := fs'\<rparr>, None)" using apply_whiteout [OF pl] ok(2) fs'(1) p by (simp add: name_ok_def)
  finally have step: "unpackEntry ''/'' tempDir (None, None) (0, 0) (whiteoutEntry new (rooted p)) st = (st\<lparr>u_fs := fs'\<rparr>, None)" .
  have below: "\<not> prefix p ms" if "ms \<in> recs done'" for ms
    using step_context(2) [OF L inv, of p ms] that c(1,2) by simp
  have "shows_at (done' @ [c]) fs new ds (view fs' ms) ms" for ms
    unfolding c(1) by (rule shows_deleted [where v = "view (u_fs st)", OF loop_invD(5) [OF inv] c(2) fs'(3) below])
  moreover have "recs (done' @ [c]) = recs done'" unfolding c(1) by (rule recs_snoc_del)
  ultimately have "loop_inv (done' @ [c]) fs new ds (st\<lparr>u_fs := fs'\<rparr>)"
    using fs'(2) loop_invD(2-4) [OF inv] unfolding loop_inv_def by simp
  with step show ?thesis by blast
qed

text \<open>The entry that the archive has for a change.\<close>

definition entry_for :: "fsys \<Rightarrow> string list \<Rightarrow> Change \<Rightarrow> tar_entry" where
  "entry_for new ds c =
     (if chKind c = ChangeDelete then whiteoutEntry new (chPath c)
      else entryOf (the (newAt new ds (pathParts (chPath c)))) (tl (chPath c)))"

lemma change_cases:
  assumes "describes cs fs new ds" "c \<in> set cs"
  obtains (Del) p where "c = Change (rooted p) ChangeDelete" "list_all plain p" "p \<noteq> []" "newAt new ds p = None" "inodeAt fs p \<noteq> None" "bitAt new ds (butlast p)"
    | (Rec) p k n where "c = Change (rooted p) k" "k \<noteq> ChangeDelete" "list_all plain p" "p \<noteq> []" "newAt new ds p = Some n"
proof -
  obtain p where p: "p \<noteq> []" "list_all plain p" "chPath c = rooted p" using describesD(6) [OF assms] by blast
  have c: "c = Change (rooted p) (chKind c)" using p(3) by (metis Change.collapse)
  show ?thesis
  proof (cases "chKind c = ChangeDelete")
    case True
    then have "Change (rooted p) ChangeDelete \<in> set cs" using assms(2) c by simp
    then have "p \<in> dels cs" unfolding dels_def using p(2) by blast
    from describesD(3) [OF assms(1) this] show ?thesis using Del [OF _ p(2,1)] c True by simp
  next
    case False
    have "Change (rooted p) (chKind c) \<in> set cs" using assms(2) c by simp
    then have "p \<in> recs cs" unfolding recs_def using p(2) False by blast
    from describesD(2) [OF assms(1) this] obtain n where "newAt new ds p = Some n" by blast
    then show ?thesis by (rule Rec [OF c False p(2,1)])
  qed
qed

lemma unpack_loop:
  assumes "layer_pair (done' @ rest) fs new ds" "loop_inv done' fs new ds st"
  shows "\<exists>st'. unpackLoop ''/'' tempDir (None, None) (0, 0) None (map (entry_for new ds) rest) st = (st', None)
    \<and> loop_inv (done' @ rest) fs new ds st'"
  using assms
proof (induction rest arbitrary: done' st)
  case (Cons c rest)
  have "\<exists>st'. unpackEntry ''/'' tempDir (None, None) (0, 0) (entry_for new ds c) st = (st', None) \<and> loop_inv (done' @ [c]) fs new ds st'"
  proof (rule change_cases [OF layer_pairD(1) [OF Cons.prems(1)], of c])
    show "c \<in> set (done' @ c # rest)" by simp
  next
    fix p assume c: "c = Change (rooted p) ChangeDelete" "list_all plain p" "p \<noteq> []"
      and d: "newAt new ds p = None" "inodeAt fs p \<noteq> None" "bitAt new ds (butlast p)"
    show ?thesis using whiteout_step [OF Cons.prems c d] c(1) by (simp add: entry_for_def)
  next
    fix p k n assume c: "c = Change (rooted p) k" "k \<noteq> ChangeDelete" "list_all plain p" "p \<noteq> []" and n: "newAt new ds p = Some n"
    show ?thesis using record_step [OF Cons.prems c n] c n by (simp add: entry_for_def)
  qed
  then obtain st1 where st1: "unpackEntry ''/'' tempDir (None, None) (0, 0) (entry_for new ds c) st = (st1, None)" "loop_inv (done' @ [c]) fs new ds st1"
    by blast
  from Cons.IH [of "done' @ [c]" st1] Cons.prems(1) st1 show ?case by (simp add: thenState_def)
qed simp

lemma loop_start:
  assumes "good fs" "u_fs st = fs" "u_dirs st = []" "u_aufs st = []" "u_tmp st = []"
  shows "loop_inv [] fs new ds st"
  using assms by (simp add: loop_inv_def shows_at_def gone_def recs_def dels_def)

text \<open>The times of the directories are set at the end.\<close>

lemma set_dir_times:
  assumes "good fs" "\<And>h. h \<in> set hs \<Longrightarrow> \<exists>ms. list_all plain ms \<and> h_Name h = join CHR ''/'' ms \<and> dirs_to fs ms \<and> dirHere fs ms"
  shows "\<exists>fs'. setDirTimes ''/'' hs fs = (fs', None) \<and> good fs' \<and> (\<forall>ks. view fs' ks = view fs ks)"
  using assms
proof (induction hs arbitrary: fs)
  case (Cons h hs)
  obtain ms where ms: "list_all plain ms" "h_Name h = join CHR ''/'' ms" "dirs_to fs ms" "dirHere fs ms" using Cons.prems(2) [of h] by auto
  obtain d where d: "inodeAt fs ms = Some d" "inodeIsDir d" using ms(4) by (auto simp: dirHere_def split: option.splits)
  have "at_path fs ms d" using Cons.prems(1) ms d by (simp add: at_path_def)
  from on_inode [OF this, where follow = True and f = "\<lambda>i. i\<lparr>i_mtime := clampTime (h_ModTime h)\<rparr>"] dir_not_link [OF d(2)]
  obtain fs1 where fs1: "osChtimes True fs (rooted ms) (clampTime (h_ModTime h)) = (fs1, None)"
    "at_path fs1 ms (d\<lparr>i_mtime := clampTime (h_ModTime h)\<rparr>)" "elsewhere fs fs1 ms"
    by (auto simp: osChtimes_def inodeIsDir_def fileType_def)
  have view: "view fs1 ks = view fs ks" for ks
  proof (cases "ks = ms")
    case True
    then show ?thesis using fs1(2) d norm_mtime [OF d(2)] by (simp add: at_path_def view_def)
  qed (use fs1(3) in \<open>simp add: elsewhere_def\<close>)
  have dirs: "dirHere fs1 ks = dirHere fs ks" for ks by (simp add: dirHere_view view)
  have "\<exists>fs'. setDirTimes ''/'' hs fs1 = (fs', None) \<and> good fs' \<and> (\<forall>ks. view fs' ks = view fs1 ks)"
  proof (rule Cons.IH)
    show "good fs1" using fs1(2) by (simp add: at_path_def)
    show "\<exists>ms. list_all plain ms \<and> h_Name h' = join CHR ''/'' ms \<and> dirs_to fs1 ms \<and> dirHere fs1 ms" if "h' \<in> set hs" for h'
      using Cons.prems(2) [of h'] that unfolding dirs_to_def dirs by simp
  qed
  then show ?case using fs1(1) ms(1,2) view by (auto simp: Chtimes_def JoinPath_slash lift_os_def andThen_def)
qed simp

lemma loop_dirs:
  assumes L: "layer_pair cs fs new ds" and inv: "loop_inv cs fs new ds st" and h: "h \<in> set (u_dirs st)"
  shows "\<exists>ms. list_all plain ms \<and> h_Name h = join CHR ''/'' ms \<and> dirs_to (u_fs st) ms \<and> dirHere (u_fs st) ms"
proof -
  obtain ms n where n: "ms \<in> recs cs" "newAt new ds ms = Some n" "inodeIsDir n" "h_Name h = join CHR ''/'' ms"
    using loop_invD(4) [OF inv h] by blast
  have dir: "dirHere new (ds @ q) \<Longrightarrow> dirHere (u_fs st) q" for q
    by (rule current_dir [OF layer_pairD(1,3,2) [OF L] _ inv]) auto
  have "dirHere (u_fs st) ms" using n(2,3) by (intro dir) (simp add: newAt_def dirHere_def)
  moreover have "dirs_to (u_fs st) ms" unfolding dirs_to_def using new_above [OF layer_pairD(3) [OF L], of ds ms] n(2) dir by simp
  moreover have "list_all plain ms" using n(1) by (simp add: recs_def)
  ultimately show ?thesis using n(4) by blast
qed

text \<open>What is at a path when the list is exhausted.\<close>

definition same_file :: "inode option \<Rightarrow> inode option \<Rightarrow> bool" where
  "same_file n r \<longleftrightarrow> (case (n, r) of (None, None) \<Rightarrow> True | (Some a, Some b) \<Rightarrow> \<not> attrDiffers (fi_of b) (fi_of a) | _ \<Rightarrow> False)"

lemma vanished:
  assumes L: "layer_pair cs fs new ds" and ms: "newAt new ds ms = None" "inodeAt fs ms \<noteq> None" "newAt new ds [] \<noteq> None"
  shows "gone cs fs new ds ms"
proof -
  note D = layer_pairD(1) [OF L]
  obtain q b where p: "prefix (q @ [b]) ms" "newAt new ds (q @ [b]) = None" "newAt new ds q \<noteq> None"
    using ms(1)
  proof (induction ms rule: rev_induct)
    case Nil
    then show ?case using ms(3) by simp
  next
    case (snoc x xs)
    show ?case
    proof (cases "newAt new ds xs = None")
      case True
      then show ?thesis using snoc by (meson prefix_order.trans prefixI)
    next
      case False
      then show ?thesis using snoc by blast
    qed
  qed
  have inode: "inodeAt fs (q @ [b]) \<noteq> None" using nothing_below [OF layer_pairD(2) [OF L] _ p(1)] ms(2) by blast
  show ?thesis
  proof (cases "bitAt new ds q")
    case True
    then have "q @ [b] \<in> dels cs" using describesD(5) [OF D _ p(2) inode] by simp
    then show ?thesis using p(1) unfolding gone_def by blast
  next
    case False
    then obtain nq where nq: "newAt new ds q = Some nq" "\<not> dirBit (fi_of nq)" "q \<noteq> []" using p(3) by (auto simp: bitAt_def)
    have notdir: "\<not> inodeIsDir nq" using nq(2) dir_bits [of nq] by (auto simp: dirBit_def fi_of_def S_IFDIR_def)
    have sq: "strict_prefix q ms" using p(1) by (auto simp: strict_prefix_def prefix_def)
    have olddir: "dirHere fs q" by (rule good_above [OF layer_pairD(2) [OF L] ms(2) sq])
    have "q \<in> recs cs"
    proof (rule ccontr)
      assume "q \<notin> recs cs"
      then obtain i where "inodeAt fs q = Some i" "\<not> attrDiffers (fi_of i) (fi_of nq)" using describesD(4) [OF D nq(3,1)] by blast
      then show False using olddir notdir by (simp add: dirHere_def attrDiffers_def statDifferent_def fi_of_def inodeIsDir_def fileType_def)
    qed
    moreover have "\<not> dirHere new (ds @ q)" using nq(1) notdir by (simp add: newAt_def dirHere_def)
    ultimately show ?thesis using sq unfolding gone_def by blast
  qed
qed

lemma loop_end:
  assumes L: "layer_pair cs fs new ds" and inv: "\<And>ms. shows_at cs fs new ds (view fs' ms) ms" and root: "newAt new ds [] \<noteq> None" and ms: "ms \<noteq> []"
  shows "same_file (newAt new ds ms) (inodeAt fs' ms)"
    "ms \<in> recs cs \<Longrightarrow> \<exists>n r. newAt new ds ms = Some n \<and> inodeAt fs' ms = Some r \<and> unpacked n r"
proof -
  note D = layer_pairD(1) [OF L]
  show rec: "\<exists>n r. newAt new ds ms = Some n \<and> inodeAt fs' ms = Some r \<and> unpacked n r" if recorded: "ms \<in> recs cs"
  proof -
    obtain n r where nr: "newAt new ds ms = Some n" "view fs' ms = Some r" "unpacked n r" using inv [of ms] recorded by (auto simp: shows_at_def)
    then obtain i where "inodeAt fs' ms = Some i" "r = norm_inode i" by (auto simp: view_def)
    moreover have "norm_inode r = norm_inode i" using \<open>r = norm_inode i\<close> by simp
    ultimately show ?thesis using nr unpacked_norm by blast
  qed
  show "same_file (newAt new ds ms) (inodeAt fs' ms)"
  proof (cases "ms \<in> recs cs")
    case True
    then show ?thesis using rec unpacked_same by (fastforce simp: same_file_def)
  next
    case notrec: False
    show ?thesis
    proof (cases "newAt new ds ms")
      case None
      have "inodeAt fs' ms = None"
        using inv [of ms] notrec vanished [OF L None _ root] by (cases "inodeAt fs ms") (auto simp: shows_at_def view_def split: if_splits)
      then show ?thesis using None by (simp add: same_file_def)
    next
      case (Some n)
      from describesD(4) [OF D ms Some notrec] obtain i where i: "inodeAt fs ms = Some i" "\<not> attrDiffers (fi_of i) (fi_of n)" by blast
      have "\<not> gone cs fs new ds ms" using not_gone [OF layer_pairD(1,3,2) [OF L], of cs ms] Some i(1) by simp
      then have "view fs' ms = Some (norm_inode i)" using inv [of ms] notrec i(1) by (simp add: shows_at_def view_def)
      then obtain r where r: "inodeAt fs' ms = Some r" "norm_inode r = norm_inode i" by (auto simp: view_def)
      then show ?thesis using Some i(2) norm_differs [OF r(2)] by (simp add: same_file_def)
    qed
  qed
qed

lemma unpack_layer:
  assumes L: "layer_pair cs fs new ds" and root: "newAt new ds [] \<noteq> None"
  shows "\<exists>fs'. UnpackLayer ''/'' tempDir (None, None) (map (entry_for new ds) cs) None fs = (fs', Inr (totalSize (map (entry_for new ds) cs)))
    \<and> (\<forall>ms. ms \<noteq> [] \<longrightarrow> same_file (newAt new ds ms) (inodeAt fs' ms))
    \<and> (\<forall>ms \<in> recs cs. \<exists>n r. newAt new ds ms = Some n \<and> inodeAt fs' ms = Some r \<and> unpacked n r)"
proof -
  let ?es = "map (entry_for new ds) cs"
  let ?st = "\<lparr>u_fs = fs, u_dirs = [], u_unpacked = [], u_aufs = [], u_tmp = []\<rparr>"
  have "loop_inv [] fs new ds ?st" by (rule loop_start) (simp_all add: layer_pairD(2) [OF L])
  from unpack_loop [of "[]", simplified, OF L this] obtain st where
    st: "unpackLoop ''/'' tempDir (None, None) (0, 0) None ?es ?st = (st, None)" "loop_inv cs fs new ds st" by blast
  note inv = st(2)
  from set_dir_times [OF loop_invD(1) [OF inv], of "u_dirs st"] loop_dirs [OF L inv]
  obtain fs' where fs': "setDirTimes ''/'' (u_dirs st) (u_fs st) = (fs', None)" "\<And>ks. view fs' ks = view (u_fs st) ks" by blast
  have "GetRootUIDGID None None = Inr (0, 0)" by code_simp
  then have run: "UnpackLayer ''/'' tempDir (None, None) ?es None fs = (fs', Inr (totalSize ?es))"
    using st(1) fs'(1) loop_invD(2) [OF inv] by (simp add: UnpackLayer_def thenState_def onFs_def dropTemp_def)
  have sh: "shows_at cs fs new ds (view fs' ms) ms" for ms unfolding fs'(2) by (rule loop_invD(5) [OF inv])
  have "ms \<noteq> []" if "ms \<in> recs cs" for ms using describesD(2) [OF layer_pairD(1) [OF L] that] by blast
  then show ?thesis using run loop_end [OF L sh root] by blast
qed

subsection \<open>The archive\<close>

lemma nodeCount_inos: "nodeCount i t = count_list (inos t) i"
proof (induction t)
  case (Node j us)
  have "count_list (concat xss) i = sum_list (map (\<lambda>xs. count_list xs i) xss)" for xss :: "nat list list"
    by (induction xss) simp_all
  moreover have "nodeCount i (snd x) = count_list (inos (snd x)) i" if "x \<in> set us" for x
    using Node.IH [OF that, of "snd x"] by (cases x) simp
  then have "map (\<lambda>x. nodeCount i (snd x)) us = map (\<lambda>x. count_list (inos (snd x)) i) us" by (intro map_cong) auto
  ultimately show ?case by (simp add: comp_def del: map_eq_conv)
qed

lemma count_distinct: "distinct xs \<Longrightarrow> count_list xs x \<le> 1"
  by (induction xs) (auto simp: count_notin)

lemma one_name:
  assumes "fs_ok fs" "at_path fs q i"
  shows "\<not> hasHardlinks fs (rooted q)"
proof -
  have "locate fs False (rooted q) = Inr q" using assms(2) by (intro locate_dirs) (simp_all add: at_path_def)
  moreover obtain j where j: "attr_at (f_tree fs) q = Some j" using assms(2) by (auto simp: at_path_def inodeAt_def)
  moreover have "nodeCount j (f_tree fs) \<le> 1"
    using assms(1) unfolding nodeCount_inos fs_ok_def by (intro count_distinct) blast
  ultimately show ?thesis by (simp add: hasHardlinks_def nlinkAt_def)
qed

lemma JoinPath_two:
  assumes "list_all plain ds" "list_all plain p"
  shows "JoinPath [rooted ds, rooted p] = rooted (ds @ p)"
proof -
  have "rooted ds \<noteq> []" "rooted p \<noteq> []" by (simp_all add: rooted_def)
  moreover have "pathParts (rooted ds @ CHR ''/'' # rooted p) = ds @ p"
    using assms by (simp add: parts_sep rooted_def [of p] split_rooted cleanParts_join)
  ultimately show ?thesis by (simp add: JoinPath_def Clean_rooted)
qed

lemma at_new:
  assumes "fs_ok new" "list_all plain ds" "list_all plain p" "newAt new ds p = Some n"
  shows "at_path new (ds @ p) n"
proof -
  have g: "good new" by (rule fs_ok_good [OF assms(1)])
  have "dirs_to new (ds @ p)" unfolding dirs_to_def using good_above [OF g, of "ds @ p"] assms(4) by (simp add: newAt_def)
  then show ?thesis using g assms(2-4) by (simp add: at_path_def newAt_def)
qed

lemma export_loop:
  assumes ok: "fs_ok new" "list_all plain ds"
    and cs: "\<And>c. c \<in> set cs \<Longrightarrow> chKind c \<noteq> ChangeDelete \<Longrightarrow>
      \<exists>p n. chPath c = rooted p \<and> list_all plain p \<and> newAt new ds p = Some n \<and> typeOf n \<noteq> None"
  shows "exportLoop new (rooted ds) (None, None) [] cs = map (entry_for new ds) cs"
  using cs
proof (induction cs)
  case (Cons c cs)
  have "addTarFile new (None, None) [] (JoinPath [rooted ds, chPath c]) (tl (chPath c)) = ([], Inr (entry_for new ds c))"
    if "chKind c \<noteq> ChangeDelete"
  proof -
    obtain p n where p: "chPath c = rooted p" "list_all plain p" "newAt new ds p = Some n" "typeOf n \<noteq> None"
      using Cons.prems [of c] \<open>chKind c \<noteq> ChangeDelete\<close> by auto
    from at_new [OF ok p(2,3)] show ?thesis using add_tar_file one_name [OF ok(1)] p \<open>chKind c \<noteq> ChangeDelete\<close> JoinPath_two [OF ok(2) p(2)] by (simp add: entry_for_def)
  qed
  moreover have "exportLoop new (rooted ds) (None, None) [] cs = map (entry_for new ds) cs" using Cons by simp
  ultimately show ?case by (simp add: entry_for_def)
qed simp

definition entrySize :: "tar_entry \<Rightarrow> int" where
  "entrySize e = h_Size (fst e) + int (length (h_Linkname (fst e)))"

lemma entry_size:
  assumes "file_ok n" "\<not> inodeIsDir n"
  shows "entrySize (entryOf n name) = int (length (i_data n))"
proof -
  have data: "i_data n = []" if "fileType n \<noteq> S_IFREG" "fileType n \<noteq> S_IFLNK" using assms(1) that by (auto simp: file_ok_def)
  show ?thesis using assms(1)
    by (cases rule: typeOf_cases) (use data assms(2) in \<open>auto simp: entrySize_def entryOf_def inodeIsDir_def\<close>)
qed

lemma dir_entry_size: "file_ok n \<Longrightarrow> inodeIsDir n \<Longrightarrow> entrySize (entryOf n name) = 0"
  by (auto simp: entrySize_def entryOf_def typeOf_def inodeIsDir_def S_IFDIR_def split: if_splits)

lemma size_loop:
  assumes ok: "fs_ok new" "list_all plain ds"
    and cs: "\<And>c. c \<in> set cs \<Longrightarrow> chKind c \<noteq> ChangeDelete \<Longrightarrow> \<exists>p n. chPath c = rooted p \<and> list_all plain p \<and> newAt new ds p = Some n \<and> file_ok n"
  shows "sizeLoop new (rooted ds) [] cs = sum_list (map (\<lambda>c. entrySize (entry_for new ds c)) cs)"
  using cs
proof (induction cs)
  case (Cons c cs)
  have IH: "sizeLoop new (rooted ds) [] cs = sum_list (map (\<lambda>c. entrySize (entry_for new ds c)) cs)" using Cons by simp
  show ?case
  proof (cases "chKind c = ChangeDelete")
    case True
    then show ?thesis using IH by (simp add: entry_for_def entrySize_def whiteoutEntry_def onWire_def)
  next
    case False
    obtain p n where p: "chPath c = rooted p" "list_all plain p" "newAt new ds p = Some n" "file_ok n" using Cons.prems [of c] False by auto
    note at = at_new [OF ok p(2,3)]
    have "osLstat new (rooted (ds @ p)) = Inr n" using lstat_dirs [of new "ds @ p"] at by (simp add: at_path_def)
    moreover have kind: "chKind c = ChangeModify \<or> chKind c = ChangeAdd" using False by (cases "chKind c") auto
    moreover have "entry_for new ds c = entryOf n (tl (rooted p))" using False p by (simp add: entry_for_def)
    ultimately show ?thesis
      using IH one_name [OF ok(1) at] entry_size [OF p(4)] dir_entry_size [OF p(4)] JoinPath_two [OF ok(2) p(2)] p(1) by (simp add: Let_def)
  qed
qed simp

text \<open>
  The two sizes of a diff.  \<^verbatim>\<open>ChangesSize\<close>, which a driver reports for a layer that is there, and the
  size that \<^verbatim>\<open>UnpackLayer\<close> returns for the archive of the same changes differ by the lengths of the targets
  of the symbolic links: the former counts them, the latter does not.
\<close>

theorem diff_sizes:
  assumes "fs_ok new" "list_all plain ds"
    and "\<forall>c \<in> set cs. chKind c \<noteq> ChangeDelete \<longrightarrow> (\<exists>p n. chPath c = rooted p \<and> list_all plain p \<and> inodeAt new (ds @ p) = Some n \<and> file_ok n)"
  shows "ChangesSize new (rooted ds) cs =
    totalSize (ExportChanges new (rooted ds) cs (None, None))
    + sum_list (map (\<lambda>e. int (length (h_Linkname (fst e)))) (ExportChanges new (rooted ds) cs (None, None)))"
proof -
  let ?srt = "sort_key chPath cs"
  have ch: "\<exists>p n. chPath c = rooted p \<and> list_all plain p \<and> newAt new ds p = Some n \<and> file_ok n" if "c \<in> set cs" "chKind c \<noteq> ChangeDelete" for c
    using assms(3) that unfolding newAt_def by blast
  have "exportLoop new (rooted ds) (None, None) [] ?srt = map (entry_for new ds) ?srt"
    by (rule export_loop [OF assms(1,2)]) (use ch in \<open>fastforce simp: file_ok_def\<close>)
  then have ex: "ExportChanges new (rooted ds) cs (None, None) = map (entry_for new ds) ?srt" by (simp add: ExportChanges_def)
  have "ChangesSize new (rooted ds) cs = sum_list (map (\<lambda>c. entrySize (entry_for new ds c)) cs)"
    unfolding ChangesSize_def by (rule size_loop [OF assms(1,2) ch])
  also have "\<dots> = sum_list (map (\<lambda>c. entrySize (entry_for new ds c)) ?srt)"
    using sum_mset_sum_list [of "map (\<lambda>c. entrySize (entry_for new ds c)) ?srt"]
      sum_mset_sum_list [of "map (\<lambda>c. entrySize (entry_for new ds c)) cs"] by (simp only: mset_map mset_sort)
  finally show ?thesis by (simp add: ex totalSize_def entrySize_def sum_list_addf comp_def)
qed

definition sample_links :: fsys where
  "sample_links =
     \<lparr>f_tree = Node 0 [(''up'', Node 1 [(''a'', Node 2 []), (''l'', Node 3 [])])],
      f_inodes = (\<lambda>n. \<lparr>i_mode = (if n = 2 then 0x81A4 else if n = 3 then 0xA1FF else 0x41ED), i_uid = 0, i_gid = 0, i_rdev = 0,
        i_mtime = \<lparr>ts_Sec = 9, ts_Nsec = 0\<rparr>, i_xattrs = [], i_data = (if n = 2 then ''hello'' else if n = 3 then ''a'' else [])\<rparr>),
      f_next = 4, f_clock = \<lparr>ts_Sec = 10, ts_Nsec = 0\<rparr>, f_cwd = []\<rparr>"

theorem diff_sizes_witness:
  "ChangesSize sample_links ''/up'' [Change ''/l'' ChangeAdd, Change ''/a'' ChangeAdd, Change ''/b'' ChangeDelete] = 6
    \<and> totalSize (ExportChanges sample_links ''/up'' [Change ''/l'' ChangeAdd, Change ''/a'' ChangeAdd, Change ''/b'' ChangeDelete] (None, None)) = 5"
proof -
  let ?cs = "[Change ''/l'' ChangeAdd, Change ''/a'' ChangeAdd, Change ''/b'' ChangeDelete]"
  have path: "rooted [''up''] = ''/up''" "rooted [''l''] = ''/l''" "rooted [''a''] = ''/a''" by code_simp+
  have ok: "fs_ok sample_links" "list_all plain [''up'']" by code_simp+
  have at: "inodeAt sample_links [''up'', ''l''] = Some (f_inodes sample_links 3)" "inodeAt sample_links [''up'', ''a''] = Some (f_inodes sample_links 2)"
    by (simp_all add: inodeAt_def sample_links_def)
  have f: "file_ok (f_inodes sample_links 3)" "file_ok (f_inodes sample_links 2)" "list_all plain [''l'']" "list_all plain [''a'']" by code_simp+
  have "\<exists>p n. chPath c = rooted p \<and> list_all plain p \<and> inodeAt sample_links ([''up''] @ p) = Some n \<and> file_ok n"
    if mem: "c \<in> set ?cs" "chKind c \<noteq> ChangeDelete" for c
  proof -
    consider "c = Change ''/l'' ChangeAdd" | "c = Change ''/a'' ChangeAdd" using mem by auto
    then show ?thesis
    proof cases
      case 1
      then show ?thesis using path at f by (intro exI [of _ "[''l'']"]) simp
    next
      case 2
      then show ?thesis using path at f by (intro exI [of _ "[''a'']"]) simp
    qed
  qed
  then have "ChangesSize sample_links ''/up'' ?cs = totalSize (ExportChanges sample_links ''/up'' ?cs (None, None))
    + sum_list (map (\<lambda>e. int (length (h_Linkname (fst e)))) (ExportChanges sample_links ''/up'' ?cs (None, None)))"
    using diff_sizes [OF ok, of ?cs] unfolding path(1) by blast
  moreover have "totalSize (ExportChanges sample_links ''/up'' ?cs (None, None)) = 5"
    "sum_list (map (\<lambda>e. int (length (h_Linkname (fst e)))) (ExportChanges sample_links ''/up'' ?cs (None, None))) = 1" by code_simp+
  ultimately show ?thesis by simp
qed

subsection \<open>The two directories as the walk reads them\<close>

definition hostFile :: "64 word \<Rightarrow> fsys \<Rightarrow> nat \<Rightarrow> hostfile" where
  "hostFile dev fs ino =
     \<lparr>hf_stat = fi_stat (fi_of (f_inodes fs ino)), hf_cap = fi_capability (fi_of (f_inodes fs ino)), hf_dev = dev, hf_ino = of_nat ino\<rparr>"

definition hostOf :: "64 word \<Rightarrow> fsys \<Rightarrow> string list \<Rightarrow> host option" where
  "hostOf dev fs ds = map_option (map_dtree (hostFile dev fs)) (find_tree (f_tree fs) ds)"

lemma kids_map: "kids (map_dtree f t) = map (\<lambda>(n, u). (n, map_dtree f u)) (kids t)"
  by (cases t) (auto simp: map_prod_def)

lemma kid_map: "mget (kids (map_dtree f t)) n = map_option (map_dtree f) (mget (kids t) n)"
  by (simp add: kids_map map_of_map)

lemma attr_map: "attr_at (map_dtree f t) ms = map_option f (attr_at t ms)"
proof (induction ms arbitrary: t)
  case Nil
  then show ?case by (cases t) simp
next
  case (Cons n ms)
  then show ?case by (simp add: kid_map split: option.splits)
qed

lemma wf_map_tree: "wf_tree t \<Longrightarrow> wf_tree (map_dtree f t)"
proof (induction "size t" arbitrary: t rule: less_induct)
  case less
  have "wf_map (kids (map_dtree f t))"
    using wf_tree_map [OF less.prems] by (simp add: kids_map wf_map_def comp_def case_prod_beta)
  moreover have "plain n \<and> wf_tree u" if kid: "mget (kids (map_dtree f t)) n = Some u" for n u
  proof -
    obtain v where v: "mget (kids t) n = Some v" "u = map_dtree f v" using kid by (auto simp: kid_map)
    from less.hyps [OF kid_size [OF v(1)]] wf_kidD [OF less.prems v(1)] v(2) show ?thesis by simp
  qed
  ultimately show ?case unfolding wf_kids [of "map_dtree f t"] by blast
qed

lemma tree_dirs_find: "tree_dirs f t \<Longrightarrow> find_tree t ms = Some u \<Longrightarrow> tree_dirs f u"
proof (induction ms arbitrary: t)
  case (Cons n ms)
  obtain j us where t: "t = Node j us" by (cases t)
  obtain v where v: "mget us n = Some v" "find_tree v ms = Some u" using Cons.prems by (auto simp: t split: option.splits)
  have "tree_dirs f v" using Cons.prems(1) map_of_SomeD [OF v(1)] by (auto simp: t)
  then show ?case using Cons.IH v(2) by blast
qed simp

lemma mode_is_dir: "modeIsDir (st_mode (hf_stat (hostFile dev fs j))) = inodeIsDir (f_inodes fs j)"
  by (simp add: modeIsDir_def hostFile_def fi_of_def inodeIsDir_def fileType_def)

lemma host_dirs_map: "tree_dirs (f_inodes fs) t \<Longrightarrow> host_dirs (map_dtree (hostFile dev fs) t)"
proof (induction t)
  case (Node j us)
  have "host_dirs (map_dtree (hostFile dev fs) (snd x))" if "x \<in> set us" for x
    using Node.IH [OF that, of "snd x"] Node.prems that by (cases x) auto
  then show ?case using Node.prems by (auto simp: hostIsDir_def mode_is_dir)
qed

lemma host_of:
  assumes "fs_ok fs" "inodeAt fs ds \<noteq> None"
  shows "\<exists>t. hostOf dev fs ds = Some t \<and> wf_host (Some t) \<and> (\<forall>ms. host_at (Some t) ms = map_option fi_of (inodeAt fs (ds @ ms)))"
proof -
  obtain u where u: "find_tree (f_tree fs) ds = Some u" using assms(2) by (auto simp: inodeAt_def attr_at_def)
  have "wf_host (Some (map_dtree (hostFile dev fs) u))"
    using wf_find [OF _ u] tree_dirs_find [OF _ u, of "f_inodes fs"] assms(1) by (simp add: wf_host_def wf_map_tree host_dirs_map fs_ok_def)
  moreover have "summary (hostFile dev fs i) = fi_of (f_inodes fs i)" for i by (simp add: summary_def hostFile_def)
  then have "host_at (Some (map_dtree (hostFile dev fs) u)) ms = map_option fi_of (inodeAt fs (ds @ ms))" for ms
    by (simp add: host_at_def attr_map inodeAt_def attr_at_append u option.map_comp comp_def)
  ultimately show ?thesis using u by (simp add: hostOf_def)
qed

text \<open>What an archive can carry: plain names without the prefix of a whiteout, and files that are \<open>file_ok\<close>.\<close>

fun tree_names :: "nat dtree \<Rightarrow> string list" where
  "tree_names (Node i us) = concat (map (\<lambda>x. fst x # tree_names (snd x)) us)"

definition archivable :: "fsys \<Rightarrow> string list \<Rightarrow> bool" where
  "archivable fs ds \<longleftrightarrow>
     (case find_tree (f_tree fs) ds of
        None \<Rightarrow> False
      | Some t \<Rightarrow> list_all name_ok (tree_names t) \<and> list_all (\<lambda>i. file_ok (f_inodes fs i)) (inos t))"

lemma path_names: "attr_at t ms \<noteq> None \<Longrightarrow> set ms \<subseteq> set (tree_names t)"
proof (induction ms arbitrary: t)
  case (Cons n ms)
  obtain j us where t: "t = Node j us" by (cases t)
  obtain u where u: "mget us n = Some u" "attr_at u ms \<noteq> None" using Cons.prems by (auto simp: t split: option.splits)
  from map_of_SomeD [OF u(1)] Cons.IH [OF u(2)] show ?case by (force simp: t)
qed simp

lemma archivableD:
  assumes "archivable fs ds" "inodeAt fs (ds @ ms) = Some i"
  shows "list_all name_ok ms \<and> file_ok i"
proof -
  obtain t where t: "find_tree (f_tree fs) ds = Some t" "list_all name_ok (tree_names t)" "list_all (\<lambda>i. file_ok (f_inodes fs i)) (inos t)"
    using assms(1) by (auto simp: archivable_def split: option.splits)
  obtain j where j: "attr_at t ms = Some j" "i = f_inodes fs j" using assms(2) t(1) by (auto simp: inodeAt_def attr_at_append)
  have "set ms \<subseteq> set (tree_names t)" using path_names [of t ms] j(1) by simp
  then show ?thesis using t(2,3) attr_in_inos [OF j(1)] j(2) by (auto simp: list_all_iff)
qed

text \<open>The list of changes of the walk describes the two file systems.\<close>

definition reads :: "FileInfo \<Rightarrow> (string list \<Rightarrow> inode option) \<Rightarrow> bool" where
  "reads t at \<longleftrightarrow> wf_tree t \<and> (\<forall>ms. ms \<noteq> [] \<longrightarrow> attr_at t ms = map_option fi_of (at ms))"

lemma readsD: "reads t at \<Longrightarrow> ms \<noteq> [] \<Longrightarrow> attr_at t ms = map_option fi_of (at ms)"
  unfolding reads_def by blast

lemma reads_bit: "reads t (newAt new ds) \<Longrightarrow> dirAt [] t q \<longleftrightarrow> bitAt new ds q"
  using readsD [of t "newAt new ds" q] by (cases "q = []") (auto simp: dirAt_def bitAt_def)

lemma entry_change:
  assumes t: "reads t (newAt new ds)" "reads u (inodeAt fs)" and e: "entry [] False t (Some u) ms k"
  shows "ms \<noteq> [] \<and> list_all plain ms \<and> (if k = ChangeDelete
      then newAt new ds ms = None \<and> inodeAt fs ms \<noteq> None \<and> bitAt new ds (butlast ms) else newAt new ds ms \<noteq> None)"
proof -
  have ms: "ms \<noteq> []" using e by (auto simp: entry_def direct_def below_def)
  have pl: "list_all plain ms" using entry_plain [OF _ _ e] t by (simp add: reads_def wf_old_def)
  note bit = reads_bit [OF t(1)]
  note a = readsD [OF t(1) ms] readsD [OF t(2) ms]
  have "direct [] t (Some u) ms = Some k \<or> k = ChangeModify \<and> dirAt [] t ms" using e by (auto simp: entry_def below_def)
  then show ?thesis
  proof
    assume "direct [] t (Some u) ms = Some k"
    then show ?thesis using ms pl by (auto simp: direct_def a bit split: option.splits if_splits)
  next
    assume "k = ChangeModify \<and> dirAt [] t ms"
    then show ?thesis using ms pl by (auto simp: bit bitAt_def)
  qed
qed

lemma changes_describe:
  assumes t: "reads t (newAt new ds)" "reads u (inodeAt fs)" and p: "parents_dirs [] t" and cs: "mset cs = mset (Changes t (Some u))"
  shows "describes cs fs new ds"
proof -
  have wf: "wf_tree t" "wf_old (Some u)" using t by (simp_all add: reads_def wf_old_def)
  have ch: "Changes t (Some u) = treeChanges [] False t (Some u)"
    using addChanges_tree(1) [OF wf(1), of "[]"] by (simp add: Changes_def)
  have set: "set cs = listed [] False t (Some u)"
    using mset_eq_setD [OF cs] set_treeChanges [OF wf(1) p] ch by simp
  have "mset (map chPath cs) = mset (map chPath (Changes t (Some u)))" using cs by (simp add: mset_map)
  then have "distinct (map chPath cs) = distinct (map chPath (Changes t (Some u)))" by (rule mset_eq_imp_distinct_iff)
  then have dist: "distinct (map chPath cs)" using distinct_treeChanges [OF wf(1) p _ wf(2), of False] ch by simp
  have mem: "Change (rooted ms) k \<in> set cs" if "entry [] False t (Some u) ms k" for ms k
    using listedI [OF that refl] entry_change [OF t that] set by (simp add: infoPath_rooted)
  show ?thesis unfolding describes_def
  proof (intro conjI dist ballI allI impI)
    fix c assume "c \<in> set cs"
    then obtain ms k where c: "c = Change (infoPath ms) k" "entry [] False t (Some u) ms k" unfolding set listed_def by auto
    from entry_change [OF t c(2)] c(1) show "\<exists>ms. ms \<noteq> [] \<and> list_all plain ms \<and> chPath c = rooted ms
         \<and> (if chKind c = ChangeDelete
            then newAt new ds ms = None \<and> inodeAt fs ms \<noteq> None \<and> bitAt new ds (butlast ms)
            else newAt new ds ms \<noteq> None)"
      by (intro exI [of _ ms]) (simp add: infoPath_rooted)
  next
    fix ms n assume ms: "ms \<noteq> []" and n: "newAt new ds ms = Some n" and nr: "ms \<notin> recs cs"
    note a = readsD [OF t(1) ms] readsD [OF t(2) ms]
    have pl: "list_all plain ms" using attr_at_plain [OF wf(1), of ms] a(1) n by simp
    have no: "direct [] t (Some u) ms \<noteq> Some k" if "k \<noteq> ChangeDelete" for k
      using mem [of ms k] nr pl that unfolding recs_def entry_def by blast
    show "\<exists>i. inodeAt fs ms = Some i \<and> \<not> attrDiffers (fi_of i) (fi_of n)"
      using no [of ChangeAdd] no [of ChangeModify] n ms by (cases "inodeAt fs ms") (auto simp: direct_def a)
  next
    fix ms assume ms: "ms \<noteq> []" and n: "newAt new ds ms = None" "inodeAt fs ms \<noteq> None" and b: "bitAt new ds (butlast ms)"
    note a = readsD [OF t(1) ms] readsD [OF t(2) ms]
    have "dirAt [] t (butlast ms)" using b reads_bit [OF t(1)] by simp
    then have e: "entry [] False t (Some u) ms ChangeDelete" using n by (auto simp: entry_def direct_def a)
    from mem [OF e] entry_change [OF t e] show "ms \<in> dels cs" by (simp add: dels_def)
  qed
qed

lemma describes_cong:
  assumes "describes cs fs new ds" "mset cs' = mset cs"
  shows "describes cs' fs new ds"
proof -
  have "set cs' = set cs" by (rule mset_eq_setD [OF assms(2)])
  then have "recs cs' = recs cs" "dels cs' = dels cs" by (simp_all add: recs_def dels_def)
  moreover have "mset (map chPath cs') = mset (map chPath cs)" using assms(2) by (simp add: mset_map)
  then have "distinct (map chPath cs') = distinct (map chPath cs)" by (rule mset_eq_imp_distinct_iff)
  ultimately show ?thesis using assms(1) \<open>set cs' = set cs\<close> unfolding describes_def by simp
qed

lemma layer_pairI:
  assumes "describes cs fs new ds" "fs_ok fs" "fs_ok new" "list_all plain ds" "archivable fs []" "archivable new ds"
  shows "layer_pair (sort_key chPath cs) fs new ds"
proof -
  let ?cs = "sort_key chPath cs"
  have d: "describes ?cs fs new ds" by (rule describes_cong [OF assms(1)]) simp
  have "sorted_wrt (<) (map chPath ?cs)" unfolding strict_sorted_iff using describesD(1) [OF d] by simp
  moreover have "list_all name_ok ms \<and> (inodeIsDir i \<longrightarrow> capOf i = None \<and> i_rdev i = 0)" if "inodeAt fs ms = Some i" for ms i
  proof -
    have ok: "list_all name_ok ms" "file_ok i" using archivableD [OF assms(5), of ms i] that by simp_all
    have "\<not> isDevice i" if "inodeIsDir i" using that by (auto simp: isDevice_def inodeIsDir_def S_IFDIR_def)
    then show ?thesis using ok by (auto simp: file_ok_def)
  qed
  moreover have "list_all name_ok ms \<and> file_ok n" if "newAt new ds ms = Some n" for ms n
    using archivableD [OF assms(6)] that unfolding newAt_def by blast
  ultimately show ?thesis using d fs_ok_good assms(2-4) unfolding layer_pair_def by blast
qed

subsection \<open>The whole way\<close>

text \<open>
  C3: The diff of a layer, made from two directories and applied to the old one, gives the new one.  Take a
  new directory \<open>ds\<close> of a host and an old layer, without hard links, whose names and files an archive of
  this code can carry.  Then \<^verbatim>\<open>ChangesDirs\<close> succeeds; applying the archive that \<^verbatim>\<open>ExportChanges\<close> writes of
  its result to the old layer with \<^verbatim>\<open>UnpackLayer\<close> succeeds; and afterwards every path is in both or in
  neither, a comparison sees no difference between them, and what the list header_for has the type, the mode,
  the owner, the device, the capability and the contents of the new file.
\<close>

theorem layer_diff_roundtrip:
  assumes "fs_ok old" "fs_ok new" "archivable old []" "archivable new ds" "list_all plain ds" "inodeAt new ds \<noteq> None"
    and host: "calls_ok io" "oldDir \<noteq> []" "trees oldDir = hostOf d1 old []" "trees (rooted ds) = hostOf d2 new ds"
      "same_inodes (the (hostOf d1 old [])) (the (hostOf d2 new ds))"
  shows "\<exists>cs fs' size'. ChangesDirs io tempDir trees (rooted ds) oldDir = Inr cs
    \<and> UnpackLayer ''/'' linkDir (None, None) (ExportChanges new (rooted ds) cs (None, None)) None old = (fs', Inr size')
    \<and> (\<forall>ms. ms \<noteq> [] \<longrightarrow> same_file (inodeAt new (ds @ ms)) (inodeAt fs' ms))
    \<and> (\<forall>c \<in> set cs. chKind c \<noteq> ChangeDelete \<longrightarrow>
         (\<exists>n r. inodeAt new (ds @ pathParts (chPath c)) = Some n \<and> inodeAt fs' (pathParts (chPath c)) = Some r \<and> unpacked n r))"
proof -
  have root: "inodeAt old [] \<noteq> None" using goodD(2) [OF fs_ok_good [OF assms(1)]] dirHere_exists by blast
  obtain u where u: "hostOf d1 old [] = Some u" "wf_host (Some u)" "\<And>ms. host_at (Some u) ms = map_option fi_of (inodeAt old ms)"
    using host_of [OF assms(1) root, of d1] by auto
  obtain t where t: "hostOf d2 new ds = Some t" "wf_host (Some t)" "\<And>ms. host_at (Some t) ms = map_option fi_of (newAt new ds ms)"
    using host_of [OF assms(2,6), of d2] by (auto simp: newAt_def)
  have "same_inodes u t" using host(5) u(1) t(1) by simp
  from both_readings [OF host(1) u(2) t(2) this, of oldDir "rooted ds"] obtain o1 n1 o2 n2 where
    read: "collectFileInfoForChanges io oldDir (Some u) (rooted ds) (Some t) = Inr (o1, n1)" and
    same: "mset (Changes n1 (Some o1)) = mset (Changes n2 (Some o2))" and
    fill: "filled [] (Some u) (\<lambda>_. True) newRootFileInfo o2" "filled [] (Some t) (\<lambda>_. True) newRootFileInfo n2" by blast
  note O2 = filled_root [OF fill(1) u(2) prefix_closed_kept(2)] and N2 = filled_root [OF fill(2) t(2) prefix_closed_kept(2)]
  have "reads n2 (newAt new ds)" "reads o2 (inodeAt old)" using O2(1,2) N2(1,2) u(3) t(3) by (simp_all add: reads_def)
  from changes_describe [OF this N2(3) same] have d: "describes (Changes n1 (Some o1)) old new ds" .
  define cs where "cs = Changes n1 (Some o1)"
  define srt where "srt = sort_key chPath cs"
  have L: "layer_pair srt old new ds" unfolding srt_def cs_def by (rule layer_pairI [OF d assms(1,2,5,3,4)])
  have recorded: "\<exists>p n. chPath c = rooted p \<and> list_all plain p \<and> newAt new ds p = Some n \<and> typeOf n \<noteq> None \<and> p \<in> recs srt"
    if "c \<in> set srt" "chKind c \<noteq> ChangeDelete" for c
  proof (rule change_cases [OF layer_pairD(1) [OF L] that(1)])
    fix p k n assume c: "c = Change (rooted p) k" "k \<noteq> ChangeDelete" "list_all plain p" "p \<noteq> []" "newAt new ds p = Some n"
    have "file_ok n" using layer_pairD(7) [OF L c(4,5)] by blast
    moreover have "p \<in> recs srt" using that(1) c(1-3) unfolding recs_def by blast
    ultimately show ?thesis using c by (auto simp: file_ok_def)
  qed (use that(2) in simp)
  have "ExportChanges new (rooted ds) cs (None, None) = map (entry_for new ds) srt"
    unfolding ExportChanges_def srt_def [symmetric] by (rule export_loop [OF assms(2,5)]) (use recorded in blast)
  moreover have "newAt new ds [] \<noteq> None" using assms(6) by (simp add: newAt_def)
  from unpack_layer [OF L this, of linkDir] obtain fs' where fs': "UnpackLayer ''/'' linkDir (None, None) (map (entry_for new ds) srt) None old = (fs', Inr (totalSize (map (entry_for new ds) srt)))"
    "\<And>ms. ms \<noteq> [] \<Longrightarrow> same_file (newAt new ds ms) (inodeAt fs' ms)"
    "\<And>ms. ms \<in> recs srt \<Longrightarrow> \<exists>n r. newAt new ds ms = Some n \<and> inodeAt fs' ms = Some r \<and> unpacked n r" by blast
  moreover have "\<exists>n r. inodeAt new (ds @ pathParts (chPath c)) = Some n \<and> inodeAt fs' (pathParts (chPath c)) = Some r \<and> unpacked n r"
    if "c \<in> set cs" "chKind c \<noteq> ChangeDelete" for c
    using recorded [of c] fs'(3) that by (fastforce simp: srt_def newAt_def)
  moreover have "ChangesDirs io tempDir trees (rooted ds) oldDir = Inr cs"
    using read host(2-4) u(1) t(1) by (simp add: ChangesDirs_def cs_def)
  ultimately show ?thesis by (auto simp: newAt_def)
qed

definition sample_inode :: "32 word \<Rightarrow> string \<Rightarrow> inode" where
  "sample_inode m d = \<lparr>i_mode = m, i_uid = 0, i_gid = 5, i_rdev = 0, i_mtime = \<lparr>ts_Sec = 100, ts_Nsec = 7\<rparr>, i_xattrs = [], i_data = d\<rparr>"

definition sample_layer :: fsys where
  "sample_layer =
     \<lparr>f_tree = Node 0 [(''etc'', Node 1 [(''motd'', Node 2 []), (''hosts'', Node 5 [])]), (''d'', Node 3 [(''x'', Node 4 [])])],
      f_inodes = (\<lambda>n. if n = 0 \<or> n = 1 \<or> n = 3 then sample_inode 0x41ED [] else sample_inode 0x81A4 ''hello''),
      f_next = 6, f_clock = \<lparr>ts_Sec = 999, ts_Nsec = 1\<rparr>, f_cwd = []\<rparr>"

definition sample_mounts :: fsys where
  "sample_mounts =
     \<lparr>f_tree = Node 0 [(''upper'', Node 6 [(''etc'', Node 1 [(''passwd'', Node 2 []), (''hosts'', Node 5 [])]), (''d'', Node 3 [])])],
      f_inodes = (\<lambda>n. if n = 0 \<or> n = 1 \<or> n = 6 then sample_inode 0x41ED [] else sample_inode 0x81A4 (if n = 5 then ''hello'' else ''hi'')),
      f_next = 7, f_clock = \<lparr>ts_Sec = 999, ts_Nsec = 1\<rparr>, f_cwd = []\<rparr>"

definition sample_trees :: "string \<Rightarrow> host option" where
  "sample_trees p = (if p = ''/lower'' then hostOf 7 sample_layer [] else if p = ''/upper'' then hostOf 8 sample_mounts [''upper''] else None)"

theorem layer_diff_roundtrip_witness:
  "\<exists>cs fs' size'. ChangesDirs (\<lambda>_. None) (Inl []) sample_trees ''/upper'' ''/lower'' = Inr cs
    \<and> UnpackLayer ''/'' (Inl []) (None, None) (ExportChanges sample_mounts ''/upper'' cs (None, None)) None sample_layer = (fs', Inr size')
    \<and> inodeAt fs' [''d'', ''x''] = None \<and> inodeAt fs' [''etc'', ''motd''] = None
    \<and> map_option fi_of (inodeAt fs' [''etc'', ''hosts'']) \<noteq> None
    \<and> inodeAt sample_layer [''etc'', ''passwd''] = None \<and> inodeAt fs' [''etc'', ''passwd''] \<noteq> None"
proof -
  have path: "rooted [''upper''] = ''/upper''" by code_simp
  have ok: "fs_ok sample_layer" "fs_ok sample_mounts" "archivable sample_layer []" "archivable sample_mounts [''upper'']" "list_all plain [''upper'']"
    by code_simp+
  have dir: "inodeAt sample_mounts [''upper''] \<noteq> None" by (simp add: inodeAt_def sample_mounts_def)
  have calls: "calls_ok (\<lambda>_. None)" by (simp add: calls_ok_def)
  have trees: "''/lower'' \<noteq> []" "sample_trees ''/lower'' = hostOf 7 sample_layer []"
    "sample_trees (rooted [''upper'']) = hostOf 8 sample_mounts [''upper'']" by (simp_all add: sample_trees_def path)
  have "same_inodes (the (hostOf 7 sample_layer [])) (the (hostOf 8 sample_mounts [''upper'']))" by code_simp
  note main = layer_diff_roundtrip [OF ok dir calls trees this, of "Inl []" "Inl []", unfolded path append_Cons append_Nil]
  have at: "inodeAt sample_mounts [''upper'', ''d'', ''x''] = None" "inodeAt sample_mounts [''upper'', ''etc'', ''motd''] = None"
    "inodeAt sample_mounts [''upper'', ''etc'', ''hosts''] \<noteq> None" "inodeAt sample_mounts [''upper'', ''etc'', ''passwd''] \<noteq> None"
    "inodeAt sample_layer [''etc'', ''passwd''] = None"
    by (simp_all add: inodeAt_def sample_mounts_def sample_layer_def)
  have iff: "same_file a b \<Longrightarrow> (a = None) = (b = None)" for a b by (auto simp: same_file_def split: option.splits)
  obtain cs fs' size' where r: "ChangesDirs (\<lambda>_. None) (Inl []) sample_trees ''/upper'' ''/lower'' = Inr cs"
    "UnpackLayer ''/'' (Inl []) (None, None) (ExportChanges sample_mounts ''/upper'' cs (None, None)) None sample_layer = (fs', Inr size')"
    "\<And>ms. ms \<noteq> [] \<Longrightarrow> same_file (inodeAt sample_mounts (''upper'' # ms)) (inodeAt fs' ms)" using main by blast
  show ?thesis
    using r(1,2) iff [OF r(3) [of "[''d'', ''x'']"]] iff [OF r(3) [of "[''etc'', ''motd'']"]] iff [OF r(3) [of "[''etc'', ''hosts'']"]]
      iff [OF r(3) [of "[''etc'', ''passwd'']"]] at by auto
qed

end
