(* ===== verification/Spec2Isabelle.thy ===== *)
theory Spec2Isabelle
  imports Registrar Layer_Store Layer_Refcount Layer_Properties Image_Store Reference_Store Mflag
    Shell_Words Dockerfile_Parser Builder_Flags Builder Builder_Frames Builder_Properties
    Stdcopy Container_State Container_Monitor
    Go_Path Options Mount_Spec Volume_Store Volume_Properties Mount_Points Locker Transfers
    Layer_Files Layer_Reopen Symlink_Scope Bytes_Pipe Id_Maps Trunc_Index Link_Index
    Daemon_Names Daemon_Names_Properties Daemon_Requests Image_Delete
    Dir_Tree Layer_Changes Changes_Walk Host_Files Host_Lemmas Tar_Files Layer_Apply Layer_Untar
    Layer_Entry Layer_Roundtrip Layer_Applied
begin

text \<open>
  This library models the program of \<^verbatim>\<open>hyperhq/hypercli\<close>, the command line of Hyper.sh together with
  the Docker engine it was derived from, and proves what makes its parts correct.  Paths below are
  relative to the root of the repository.

  \<^bold>\<open>The program.\<close>  The command line (\<^verbatim>\<open>hyper/\<close>, \<^verbatim>\<open>api/client/\<close>) reads its flags (\<^verbatim>\<open>pkg/mflag\<close>) and the
  options of a container (\<^verbatim>\<open>opts/\<close>, \<^verbatim>\<open>runconfig/opts/\<close>) and talks to an engine.  The engine builds images
  from a Dockerfile (\<^verbatim>\<open>builder/\<close>), keeps images (\<^verbatim>\<open>image/\<close>) over a store of shared layers (\<^verbatim>\<open>layer/\<close>),
  names them (\<^verbatim>\<open>reference/\<close>), moves layers to and from registries (\<^verbatim>\<open>distribution/xfer\<close>), and runs
  containers (\<^verbatim>\<open>container/\<close>, \<^verbatim>\<open>daemon/\<close>) that mount volumes (\<^verbatim>\<open>volume/\<close>).

  \<^bold>\<open>Shared theories.\<close>
  \<^item> \<^verbatim>\<open>Go_Prelude\<close>: Go maps as association lists with distinct keys, results with errors and panics,
    and the locales for systems of guarded steps that the invariants below instantiate.
  \<^item> \<^verbatim>\<open>Go_Strings\<close>, \<^verbatim>\<open>Go_Path\<close>: what the code uses of \<^verbatim>\<open>strings\<close>, \<^verbatim>\<open>strconv\<close>, \<^verbatim>\<open>unicode\<close> and
    \<^verbatim>\<open>path/filepath\<close>.  Strings are lists of bytes.

  \<^bold>\<open>Components.\<close>
  \<^item> \<^verbatim>\<open>Registrar\<close> (\<^verbatim>\<open>pkg/registrar\<close>): the two indexes of container names refine one map.
  \<^item> \<^verbatim>\<open>Layer_Store\<close>, \<^verbatim>\<open>Layer_Refcount\<close>, \<^verbatim>\<open>Layer_Properties\<close> (\<^verbatim>\<open>layer/\<close>): the heap of layers with parent
    pointers, its reference counts, and every operation with its error paths.  The counts are exact
    after any run, a held reference pins its chain, releases report what they removed.
  \<^item> \<^verbatim>\<open>Image_Store\<close> (\<^verbatim>\<open>image/store.go\<close>, \<^verbatim>\<open>image/fs.go\<close>): images own references of the layer store through
    the interface \<open>layer_get_releaser\<close>; links between parents and children never dangle.
  \<^item> \<^verbatim>\<open>Reference_Store\<close> (\<^verbatim>\<open>reference/\<close>): repositories and their cache refine one map, and survive a reload.
  \<^item> \<^verbatim>\<open>Mflag\<close> (\<^verbatim>\<open>pkg/mflag/flag.go\<close>): parsing of flags ends, and its forms agree.
  \<^item> \<^verbatim>\<open>Dockerfile_Parser\<close>, \<^verbatim>\<open>Shell_Words\<close>, \<^verbatim>\<open>Builder_Flags\<close>, \<^verbatim>\<open>Builder\<close>, \<^verbatim>\<open>Builder_Frames\<close>,
    \<^verbatim>\<open>Builder_Properties\<close> (\<^verbatim>\<open>builder/dockerfile\<close>): from the text of a Dockerfile to the calls of the
    backend.  Frames are relations that every action keeps; the properties of builds (containers are
    removed, the cache is not asked after a miss, build arguments do not leak) interpret them.
  \<^item> \<^verbatim>\<open>Stdcopy\<close> (\<^verbatim>\<open>pkg/stdcopy\<close>): demultiplexing undoes multiplexing.
  \<^item> \<^verbatim>\<open>Container_State\<close>, \<^verbatim>\<open>Container_Monitor\<close> (\<^verbatim>\<open>container/\<close>): the flags of a container under every
    interleaving, the waiters, and the restart loop.
  \<^item> \<^verbatim>\<open>Options\<close> (\<^verbatim>\<open>opts/\<close>, \<^verbatim>\<open>runconfig/opts/\<close>): values of options.
  \<^item> \<^verbatim>\<open>Mount_Spec\<close>, \<^verbatim>\<open>Volume_Store\<close>, \<^verbatim>\<open>Volume_Properties\<close>, \<^verbatim>\<open>Mount_Points\<close> (\<^verbatim>\<open>volume/\<close>, \<^verbatim>\<open>daemon/volumes.go\<close>):
    from the text of a mount to the references that keep a volume.
  \<^item> \<^verbatim>\<open>Locker\<close>, \<^verbatim>\<open>Transfers\<close> (\<^verbatim>\<open>pkg/locker\<close>, \<^verbatim>\<open>distribution/xfer/transfer.go\<close>): goroutines as
    interleaved steps; mutual exclusion, and the scheduling of transfers.
  \<^item> \<^verbatim>\<open>Layer_Files\<close>, \<^verbatim>\<open>Layer_Reopen\<close> (\<^verbatim>\<open>layer/filestore.go\<close>, start-up of \<^verbatim>\<open>layer/layer_store.go\<close>): the
    metadata on disk; a store reopened from its files holds the complete layers with exact counts, and
    what a transaction writes is read back.
  \<^item> \<^verbatim>\<open>Symlink_Scope\<close> (\<^verbatim>\<open>pkg/symlink\<close>): paths of a container are resolved inside its root.
  \<^item> \<^verbatim>\<open>Bytes_Pipe\<close> (\<^verbatim>\<open>pkg/ioutils/bytespipe.go\<close>): the pipe is a bounded queue under every interleaving.
  \<^item> \<^verbatim>\<open>Id_Maps\<close> (\<^verbatim>\<open>pkg/idtools\<close>): the maps of users are inverse to each other.
  \<^item> \<^verbatim>\<open>Trunc_Index\<close>, \<^verbatim>\<open>Link_Index\<close>, \<^verbatim>\<open>Daemon_Names\<close>, \<^verbatim>\<open>Daemon_Names_Properties\<close>, \<^verbatim>\<open>Daemon_Requests\<close>
    (\<^verbatim>\<open>pkg/truncindex\<close>, \<^verbatim>\<open>daemon/\<close>): the store of containers, the registrar, the prefixes of
    identifiers and the links, through creation, start-up, renaming and removal.  The indexes agree in
    every reachable state; what each request moves, frees or leaves behind; when linking returns.
  \<^item> \<^verbatim>\<open>Image_Delete\<close> (\<^verbatim>\<open>daemon/image_delete.go\<close>): deletion of images over the image store, the
    reference store and the containers; what is in use stays, and no reference dangles.
  \<^item> \<^verbatim>\<open>Dir_Tree\<close>, \<^verbatim>\<open>Layer_Changes\<close>, \<^verbatim>\<open>Changes_Walk\<close> (\<^verbatim>\<open>pkg/archive/changes*.go\<close>): two trees of files are
    compared; the list of changes is exact, and the walk of Linux, which skips equal inodes, gives the
    same list as a complete reading.
  \<^item> \<^verbatim>\<open>Host_Files\<close>, \<^verbatim>\<open>Host_Lemmas\<close>: the calls of the operating system that archives use, on a tree of names
    over a table of inodes with symbolic and hard links, and their effect at every path.
  \<^item> \<^verbatim>\<open>Tar_Files\<close>, \<^verbatim>\<open>Layer_Apply\<close>, \<^verbatim>\<open>Layer_Untar\<close> (\<^verbatim>\<open>pkg/archive/archive.go\<close>, \<^verbatim>\<open>archive_unix.go\<close>, \<^verbatim>\<open>diff.go\<close>,
    \<^verbatim>\<open>pkg/system\<close>): writing the archive of a list of changes, applying it, and unpacking other archives,
    with every error.  The destination is an absolute path.
  \<^item> \<^verbatim>\<open>Layer_Entry\<close>, \<^verbatim>\<open>Layer_Roundtrip\<close>, \<^verbatim>\<open>Layer_Applied\<close>: one file through an archive, the invariant of the
    loop of \<^verbatim>\<open>UnpackLayer\<close>, and the whole way from two directories to a layer and back.

  \<^bold>\<open>Conventions.\<close>  A struct is a record, a pointer that is shared an address in a heap, an error or a
  panic a value.  Code that is not in the repository is an argument: the graph driver and the metadata
  store (\<open>layer_io\<close>), the digest, the JSON decoder, volume drivers and plugins (\<open>env\<close>), the builder's
  backend (\<open>world\<close>), the supervisor of a container.  Their answers are arbitrary unless a theorem says
  otherwise.  So are the vendored trie of prefixes (\<open>trie_ok\<close> is its contract), the file system of the
  host where its contents do not matter, and the calls of the daemon that touch none of the modelled
  indexes (\<open>io\<close>).  Loops that follow pointers or wait for input are \<open>partial_function\<close>s, where not
  returning is \<open>None\<close>, and lemmas show that they return (\<open>releaseLoop\<close>, \<open>depth\<close>, \<open>readUntil\<close>,
  \<open>startLoop\<close>, \<open>loadLayer\<close>, \<open>pipeWrite\<close>) or exactly when they do not (\<open>networkOwner\<close>); the word
  processor of the builder runs with the length of its input as fuel, which \<open>fuel_suffices\<close> shows to be
  enough.  The resolution of a path follows at most forty links, as the kernel does.

  \<^bold>\<open>Not modelled.\<close>  Graph drivers, exec drivers, loggers and networking of the daemon are system calls;
  the HTTP server and client and the registry protocol are network input and output; the packages for
  terminals, devices and mounts wrap the operating system; error tables and the seccomp profile are
  data.  Of the archives, the streams themselves (tar headers as bytes, compression), archives made
  from a directory with patterns, and the re-executed process that changes its root are left out.
\<close>

section \<open>Properties that span components\<close>

text \<open>
  C40: The option \<^verbatim>\<open>--restart\<close> decides how often a container is restarted.  The text \<^verbatim>\<open>on-failure:N\<close>
  parses to a policy under which the monitor ends, whatever the process does, after at most \<open>N\<close>
  restarts, and after exactly \<open>N\<close> when every run fails and nobody interferes; the text \<^verbatim>\<open>always\<close>
  parses to a policy under which it does not end unless it is stopped or cannot start.
\<close>

theorem restart_option_respected:
  assumes "0 < n" "n < 2 ^ 63"
  shows "(\<exists>pol m e. ParseRestartPolicy (''on-failure:'' @ itoa n) = Inr pol \<and> start sv pol s = Some (m, e)
      \<and> RestartCount m \<le> n \<and> (always_fails sv \<longrightarrow> RestartCount m = n))
    \<and> (\<exists>pol. ParseRestartPolicy ''always'' = Inr pol \<and> ((\<forall>k. \<not> interrupted sv k) \<longrightarrow> start sv pol s = None))"
proof
  let ?pol = "\<lparr>rp_Name = ''on-failure'', rp_MaximumRetryCount = n\<rparr>"
  have "ParseRestartPolicy (''on-failure:'' @ itoa n) = Inr ?pol" using assms by (intro parse_on_failure) auto
  then show "\<exists>pol m e. ParseRestartPolicy (''on-failure:'' @ itoa n) = Inr pol \<and> start sv pol s = Some (m, e)
      \<and> RestartCount m \<le> n \<and> (always_fails sv \<longrightarrow> RestartCount m = n)"
    using on_failure_restarts_bounded [of ?pol sv s] assms(1) by auto
  have "ParseRestartPolicy ''always'' = Inr \<lparr>rp_Name = ''always'', rp_MaximumRetryCount = 0\<rparr>" by code_simp
  then show "\<exists>pol. ParseRestartPolicy ''always'' = Inr pol \<and> ((\<forall>k. \<not> interrupted sv k) \<longrightarrow> start sv pol s = None)"
    using always_restarts by fastforce
qed

theorem restart_option_respected_witness:
  "\<exists>pol m e. ParseRestartPolicy ''on-failure:3'' = Inr pol \<and> start failing_supervisor pol NewState = Some (m, e) \<and> RestartCount m = 3"
proof -
  have "itoa 3 = ''3''" by code_simp
  moreover have "always_fails failing_supervisor" by (simp add: always_fails_def failing_supervisor_def)
  ultimately show ?thesis using restart_option_respected [of 3 failing_supervisor NewState] by fastforce
qed

end
